(* ===== verification/Prelude.thy ===== *)
theory Prelude
  imports Main "HOL-Library.Word" "HOL-Library.Monad_Syntax"
begin

unbundle bit_operations_syntax

text \<open>
  Shared vocabulary of the development: machine integers, byte buffers and their
  little-endian codecs, the return codes of the C sources, and the conventions of the
  embedding.

  Every C function becomes a HOL function that takes the state it reads and returns the state
  it leaves.  Its result is wrapped in \<^typ>\<open>'a option\<close> wherever the C code dereferences
  a pointer, indexes a buffer or runs an unbounded loop: \<^const>\<open>None\<close> stands for
  undefined behaviour or for a loop that never returns, so that a theorem whose conclusion
  is \<open>f s = Some r\<close> also says that the call is memory safe and terminates.  Error
  codes are ordinary integers, as in the source.
\<close>

section \<open>Types and constants\<close>

type_synonym byte = "8 word"
type_synonym u16 = "16 word"
type_synonym u32 = "32 word"
type_synonym u64 = "64 word"
type_synonym block_t = u32
type_synonym inode_t = u32
type_synonym addr = nat

abbreviation BLOCK_SIZE :: nat where "BLOCK_SIZE \<equiv> 4096"
abbreviation MAX_FILENAME :: nat where "MAX_FILENAME \<equiv> 255"
abbreviation INODE_SIZE :: nat where "INODE_SIZE \<equiv> 128"
abbreviation SUPERBLOCK_BLOCK :: block_t where "SUPERBLOCK_BLOCK \<equiv> 0"
abbreviation SUPERBLOCK_MAGIC :: u32 where "SUPERBLOCK_MAGIC \<equiv> 0x4D4F4446"
abbreviation INODE_DIRECT_BLOCKS :: nat where "INODE_DIRECT_BLOCKS \<equiv> 12"
abbreviation INDIRECT_BLOCKS_PER_BLOCK :: nat where "INDIRECT_BLOCKS_PER_BLOCK \<equiv> 1024"

abbreviation INODE_TYPE_FILE :: byte where "INODE_TYPE_FILE \<equiv> 1"
abbreviation INODE_TYPE_DIR :: byte where "INODE_TYPE_DIR \<equiv> 2"
abbreviation INODE_TYPE_SYMLINK :: byte where "INODE_TYPE_SYMLINK \<equiv> 3"

text \<open>The two families of error codes the sources return: their own, and negated errno.\<close>

abbreviation MODERNFS_SUCCESS :: int where "MODERNFS_SUCCESS \<equiv> 0"
abbreviation MODERNFS_ERROR :: int where "MODERNFS_ERROR \<equiv> -1"
abbreviation MODERNFS_ENOSPC :: int where "MODERNFS_ENOSPC \<equiv> -2"
abbreviation MODERNFS_EINVAL :: int where "MODERNFS_EINVAL \<equiv> -3"
abbreviation MODERNFS_EIO :: int where "MODERNFS_EIO \<equiv> -4"
abbreviation MODERNFS_ENOENT :: int where "MODERNFS_ENOENT \<equiv> -5"

abbreviation EIO :: int where "EIO \<equiv> 5"
abbreviation ENOMEM :: int where "ENOMEM \<equiv> 12"
abbreviation EINVAL :: int where "EINVAL \<equiv> 22"
abbreviation ENOSPC :: int where "ENOSPC \<equiv> 28"

section \<open>Collections of facts\<close>

named_theorems buf_simps \<open>slices and splices of byte buffers\<close>
named_theorems codec_simps \<open>lengths and inverses of the on-disk codecs\<close>
named_theorems range_simps \<open>machine-word comparisons read as natural numbers\<close>

section \<open>Buffers\<close>

text \<open>\<open>slice\<close> and \<open>splice\<close> are \<open>memcpy\<close> out of and into a buffer.\<close>

definition slice :: "nat \<Rightarrow> nat \<Rightarrow> 'a list \<Rightarrow> 'a list" where
  "slice off n xs = take n (drop off xs)"

definition splice :: "nat \<Rightarrow> 'a list \<Rightarrow> 'a list \<Rightarrow> 'a list" where
  "splice off src dst = take off dst @ src @ drop (off + length src) dst"

text \<open>The same with the bounds of the C object: outside them the copy is undefined.\<close>

definition buf_read :: "'a list \<Rightarrow> nat \<Rightarrow> nat \<Rightarrow> 'a list option" where
  "buf_read xs off n = (if off + n \<le> length xs then Some (slice off n xs) else None)"

definition buf_write :: "'a list \<Rightarrow> nat \<Rightarrow> 'a list \<Rightarrow> 'a list option" where
  "buf_write dst off src =
     (if off + length src \<le> length dst then Some (splice off src dst) else None)"

lemma length_slice [buf_simps]: "off + n \<le> length xs \<Longrightarrow> length (slice off n xs) = n"
  by (simp add: slice_def)

lemma length_splice [buf_simps]:
  "off + length src \<le> length dst \<Longrightarrow> length (splice off src dst) = length dst"
  by (simp add: splice_def)

lemma nth_slice [buf_simps]: "off + n \<le> length xs \<Longrightarrow> i < n \<Longrightarrow> slice off n xs ! i = xs ! (off + i)"
  by (simp add: slice_def)

lemma nth_splice:
  "off + length src \<le> length dst \<Longrightarrow> i < length dst \<Longrightarrow>
   splice off src dst ! i =
     (if off \<le> i \<and> i < off + length src then src ! (i - off) else dst ! i)"
  by (auto simp: splice_def nth_append min_def)

lemma slice_splice_same [buf_simps]:
  "off + length src \<le> length dst \<Longrightarrow> slice off (length src) (splice off src dst) = src"
  by (simp add: slice_def splice_def)

lemma slice_splice_other:
  assumes "off + length src \<le> length dst" "o2 + n \<le> length dst"
    and "o2 + n \<le> off \<or> off + length src \<le> o2"
  shows "slice o2 n (splice off src dst) = slice o2 n dst"
  by (rule nth_equalityI) (use assms in \<open>auto simp: length_slice length_splice nth_slice nth_splice\<close>)

lemma slice_whole [buf_simps]: "length xs = n \<Longrightarrow> slice 0 n xs = xs"
  by (simp add: slice_def)

lemma splice_whole [buf_simps]: "length src = length dst \<Longrightarrow> splice 0 src dst = src"
  by (simp add: splice_def)

lemma splice_slice_same [buf_simps]: "off + n \<le> length xs \<Longrightarrow> splice off (slice off n xs) xs = xs"
  by (simp add: splice_def slice_def) (metis append_take_drop_id drop_drop add.commute)

lemma buf_read_Some [buf_simps]: "off + n \<le> length xs \<Longrightarrow> buf_read xs off n = Some (slice off n xs)"
  by (simp add: buf_read_def)

lemma buf_write_Some [buf_simps]:
  "off + length src \<le> length dst \<Longrightarrow> buf_write dst off src = Some (splice off src dst)"
  by (simp add: buf_write_def)

section \<open>Little-endian integers\<close>

definition le_bytes :: "nat \<Rightarrow> 'a::len word \<Rightarrow> byte list" where
  "le_bytes n w = map (\<lambda>i. ucast (drop_bit (8 * i) w)) [0..<n]"

fun le_word :: "byte list \<Rightarrow> 'a::len word" where
  "le_word [] = 0"
| "le_word (b # bs) = ucast b OR push_bit 8 (le_word bs)"

lemma length_le_bytes [simp, codec_simps]: "length (le_bytes n w) = n"
  by (simp add: le_bytes_def)

lemma bit_le_word:
  fixes bs :: "byte list"
  shows "bit (le_word bs :: 'a::len word) k \<longleftrightarrow>
   k < LENGTH('a) \<and> k div 8 < length bs \<and> bit (bs ! (k div 8)) (k mod 8)"
proof (induction bs arbitrary: k)
  case Nil
  then show ?case by simp
next
  case (Cons b bs)
  show ?case
  proof (cases "k < 8")
    case True
    then show ?thesis by (auto simp: bit_simps)
  next
    case False
    then have d: "k div 8 = Suc ((k - 8) div 8)" and m: "k mod 8 = (k - 8) mod 8"
      by (simp_all add: le_div_geq le_mod_geq)
    have "\<not> bit b k" using False by (auto dest: bit_imp_le_length)
    then show ?thesis using False by (auto simp: bit_simps Cons.IH d m)
  qed
qed

lemma le_word_le_bytes [codec_simps]:
  fixes w :: "'a::len word"
  assumes "LENGTH('a) = 8 * n"
  shows "le_word (le_bytes n w) = w"
proof (rule bit_word_eqI)
  fix k
  assume k: "k < LENGTH('a)"
  then have "k div 8 < n" using assms by auto
  then show "bit (le_word (le_bytes n w) :: 'a word) k = bit w k"
    using k by (simp add: bit_le_word le_bytes_def bit_simps)
qed

lemma le_bytes_le_word [codec_simps]:
  assumes "length bs = n" "8 * n \<le> LENGTH('a::len)"
  shows "le_bytes n (le_word bs :: 'a word) = bs"
proof (rule nth_equalityI)
  show "length (le_bytes n (le_word bs :: 'a word)) = length bs" using assms by simp
next
  fix i assume "i < length (le_bytes n (le_word bs :: 'a word))"
  then have i: "i < n" by simp
  have "bit (le_bytes n (le_word bs :: 'a word) ! i) j = bit (bs ! i) j" if "j < 8" for j
  proof -
    have "8 * i + j < LENGTH('a)" using i that assms by auto
    then show ?thesis using i that assms
      by (simp add: le_bytes_def bit_simps bit_le_word)
  qed
  then show "le_bytes n (le_word bs :: 'a word) ! i = bs ! i"
    by (intro bit_word_eqI) simp
qed

section \<open>Counters that stay below a bound\<close>

lemma unat_plus_one_less [range_simps]:
  fixes x y :: "'a::len word"
  assumes "x < y"
  shows "unat (x + 1) = Suc (unat x)"
proof -
  have "unat x < unat y" using assms by (simp add: word_less_nat_alt)
  then have "Suc (unat x) < 2 ^ LENGTH('a)" using unsigned_less [of y, where ?'a = nat] by linarith
  then show ?thesis by (simp add: unat_word_ariths)
qed

lemma unat_minus_one_pos [range_simps]:
  fixes x :: "'a::len word"
  assumes "0 < x"
  shows "unat (x - 1) = unat x - 1"
  using assms by (simp add: word_gt_0 unat_minus_one)

lemma unat_u32_u64 [simp, range_simps]: "unat (ucast (x :: u32) :: u64) = unat x"
  by (simp add: unsigned_ucast_eq take_bit_nat_eq_self_iff order_less_le_trans [OF unsigned_less])

end
