(* ===== verification/Links.thy ===== *)
theory Links
  imports Prelude
begin

text \<open>
  Intrusive linked structures.  The buffer cache and the inode cache both thread their
  entries on a doubly linked LRU list (\<open>prev\<close>/\<open>next\<close>, with head and tail in the cache)
  and on singly linked hash chains (\<open>hash_next\<close>).  This theory holds what the two share:
  the loops over pointers, the link fields seen as functions, the representation
  predicates \<open>chain\<close>, \<open>dll\<close> and \<open>hash_ok\<close>, and the laws of unlinking and pushing.
\<close>

section \<open>Loops over pointers\<close>

text \<open>
  \<open>while (p && !stop(p)) p = link(p);\<close>  The test reads the object at \<open>p\<close>, so it fails on a
  dangling pointer; a cyclic chain without a stopping node never returns.
\<close>

partial_function (option) ptr_find ::
  "(addr \<Rightarrow> bool option) \<Rightarrow> (addr \<Rightarrow> addr option) \<Rightarrow> addr option \<Rightarrow> addr option option" where
  "ptr_find stop link p =
     (case p of None \<Rightarrow> Some None
      | Some a \<Rightarrow> (case stop a of None \<Rightarrow> None
                 | Some b \<Rightarrow> if b then Some (Some a) else ptr_find stop link (link a)))"

declare ptr_find.simps [code]

text \<open>
  A pointer to a pointer (\<open>pp\<close> in the removal loops): a slot of the bucket array, or the
  \<open>hash_next\<close> field of an entry.
\<close>

datatype slot = Bucket nat | HashNext addr

text \<open>\<open>while (*pp && *pp != target) pp = &(*pp)->hash_next;\<close>\<close>

partial_function (option) slot_find ::
  "(slot \<Rightarrow> addr option option) \<Rightarrow> addr \<Rightarrow> slot \<Rightarrow> slot option" where
  "slot_find load target s =
     (case load s of None \<Rightarrow> None
      | Some p \<Rightarrow> (case p of None \<Rightarrow> Some s
                 | Some a \<Rightarrow> if a = target then Some s
                            else slot_find load target (HashNext a)))"

declare slot_find.simps [code]

section \<open>Singly linked chains\<close>

fun chain :: "(addr \<Rightarrow> addr option) \<Rightarrow> addr option \<Rightarrow> addr list \<Rightarrow> bool" where
  "chain f p [] = (p = None)"
| "chain f p (a # as) = (p = Some a \<and> chain f (f a) as)"

lemma chain_None [simp]: "chain f None xs \<longleftrightarrow> xs = []"
  by (cases xs) auto

lemma chain_cong: "(\<And>a. a \<in> set xs \<Longrightarrow> f a = g a) \<Longrightarrow> chain f p xs = chain g p xs"
  by (induction xs arbitrary: p) auto

lemma chain_upd [simp]: "a \<notin> set xs \<Longrightarrow> chain (f(a := q)) p xs = chain f p xs"
  by (rule chain_cong) auto

lemma chain_unique: "chain f p xs \<Longrightarrow> chain f p ys \<Longrightarrow> xs = ys"
proof (induction xs arbitrary: p ys)
  case Nil
  then show ?case by (cases ys) auto
next
  case (Cons a xs)
  then show ?case by (cases ys) auto
qed

lemma chain_suffix: "chain f p (xs @ a # ys) \<Longrightarrow> chain f (f a) ys"
  by (induction xs arbitrary: p) auto

lemma chain_distinct: "chain f p xs \<Longrightarrow> distinct xs"
proof (induction xs arbitrary: p)
  case (Cons a xs)
  have "a \<notin> set xs"
  proof
    assume "a \<in> set xs"
    then obtain us vs where xs: "xs = us @ a # vs" by (meson split_list)
    with Cons.prems have "chain f (f a) (us @ a # vs)" and "chain f (f a) vs"
      by (auto dest: chain_suffix)
    then have "us @ a # vs = vs" by (rule chain_unique)
    then have "length (us @ a # vs) = length vs" by simp
    then show False by simp
  qed
  with Cons show ?case by auto
qed simp

lemma ptr_find_None [simp]: "ptr_find stop link None = Some None"
  by (simp add: ptr_find.simps)

lemma ptr_find_chain:
  assumes "chain link p xs" "\<And>a. a \<in> set xs \<Longrightarrow> stop a = Some (P a)"
  shows "ptr_find stop link p = Some (find P xs)"
  using assms
proof (induction xs arbitrary: p)
  case (Cons a xs)
  then have "ptr_find stop link (link a) = Some (find P xs)" by simp
  with Cons.prems show ?case by (simp add: ptr_find.simps [of stop link "Some a"])
qed simp

text \<open>A cycle with no stopping node is never left.\<close>

lemma ptr_find_cycle:
  assumes "\<And>a. a \<in> A \<Longrightarrow> stop a = Some False \<and> link a \<in> Some ` A" "p \<in> Some ` A"
  shows "ptr_find stop link p = None"
proof (rule ccontr)
  assume "ptr_find stop link p \<noteq> None"
  then obtain r where ret: "ptr_find stop link p = Some r" by blast
  let ?P = "\<lambda>stop link p (r :: addr option).
    \<not> ((\<forall>a\<in>A. stop a = Some False \<and> link a \<in> Some ` A) \<and> p \<in> Some ` A)"
  have "?P stop link p r"
  proof (rule ptr_find.raw_induct [where P = ?P, OF _ ret])
    fix f stop link p r
    assume IH: "\<And>stop link p r. f stop link p = Some r \<Longrightarrow> ?P stop link p r"
      and eq: "(case p of None \<Rightarrow> Some None
        | Some a \<Rightarrow> (case stop a of None \<Rightarrow> None
             | Some b \<Rightarrow> if b then Some (Some a) else f stop link (link a))) = Some r"
    show "?P stop link p r"
    proof
      assume H: "(\<forall>a\<in>A. stop a = Some False \<and> link a \<in> Some ` A) \<and> p \<in> Some ` A"
      then obtain a where "p = Some a" "a \<in> A" by blast
      with eq H have "f stop link (link a) = Some r" "link a \<in> Some ` A" by auto
      with IH H show False by blast
    qed
  qed
  with assms show False by blast
qed

section \<open>Removing from a chain\<close>

text \<open>
  The slot the search stops at: the one that holds the target, or the last one.  Writing the
  target's successor there unlinks it.
\<close>

fun slot_of :: "slot \<Rightarrow> addr list \<Rightarrow> addr \<Rightarrow> slot" where
  "slot_of s [] t = s"
| "slot_of s (a # as) t = (if a = t then s else slot_of (HashNext a) as t)"

lemma slot_find_chain:
  assumes "load s = Some p" "chain f p xs" "\<And>a. a \<in> set xs \<Longrightarrow> load (HashNext a) = Some (f a)"
  shows "slot_find load t s = Some (slot_of s xs t)"
  using assms
proof (induction xs arbitrary: s p)
  case Nil
  then show ?case by (simp add: slot_find.simps [of load t s])
next
  case (Cons a xs)
  have "slot_find load t (HashNext a) = Some (slot_of (HashNext a) xs t)"
    by (rule Cons.IH [of "HashNext a" "f a"]) (use Cons.prems in auto)
  with Cons.prems show ?case by (simp add: slot_find.simps [of load t s])
qed

lemma slot_of_cases:
  assumes "t \<in> set xs"
  shows "(slot_of s xs t = s \<and> xs \<noteq> [] \<and> hd xs = t) \<or>
         (\<exists>a us vs. slot_of s xs t = HashNext a \<and> xs = us @ a # t # vs \<and> t \<notin> set (us @ [a]))"
  using assms
proof (induction xs arbitrary: s)
  case (Cons b xs)
  show ?case
  proof (cases "b = t")
    case False
    with Cons.prems have "t \<in> set xs" by simp
    from Cons.IH [OF this, of "HashNext b"] show ?thesis
    proof
      assume "slot_of (HashNext b) xs t = HashNext b \<and> xs \<noteq> [] \<and> hd xs = t"
      with False have "slot_of s (b # xs) t = HashNext b \<and> b # xs = [] @ b # t # tl xs \<and> t \<notin> set ([] @ [b])"
        by auto
      then show ?thesis by blast
    next
      assume "\<exists>a us vs. slot_of (HashNext b) xs t = HashNext a \<and> xs = us @ a # t # vs \<and> t \<notin> set (us @ [a])"
      then obtain a us vs where "slot_of (HashNext b) xs t = HashNext a" "xs = us @ a # t # vs" "t \<notin> set (us @ [a])"
        by blast
      with False have "slot_of s (b # xs) t = HashNext a \<and> b # xs = (b # us) @ a # t # vs \<and> t \<notin> set ((b # us) @ [a])"
        by auto
      then show ?thesis by blast
    qed
  qed simp
qed simp

lemma chain_unlink_mid:
  assumes "chain f p (us @ a # t # vs)"
  shows "chain (f(a := f t, t := None)) p (us @ a # vs)"
proof -
  have d: "distinct (us @ a # t # vs)" using assms by (rule chain_distinct)
  have "chain (f(a := f t)) p (us @ a # vs)"
    using assms d
  proof (induction us arbitrary: p)
    case Nil
    then show ?case by (auto simp del: fun_upd_apply simp: fun_upd_same fun_upd_other)
  next
    case (Cons u us)
    then show ?case by (auto simp del: fun_upd_apply simp: fun_upd_same fun_upd_other)
  qed
  moreover have "t \<notin> set (us @ a # vs)" using d by auto
  ultimately show ?thesis by (simp del: fun_upd_apply)
qed

text \<open>Both kinds of write the removal loop ends with, as one law over the chains.\<close>

lemma chain_unlink:
  assumes "chain f p xs" "t \<in> set xs"
  shows "(slot_of s xs t = s \<and> chain (f(t := None)) (f t) (remove1 t xs)) \<or>
         (\<exists>a. slot_of s xs t = HashNext a \<and> a \<in> set xs \<and> a \<noteq> t \<and> f a = Some t \<and>
              chain (f(a := f t, t := None)) p (remove1 t xs))"
  using slot_of_cases [OF assms(2), of s]
proof
  assume h: "slot_of s xs t = s \<and> xs \<noteq> [] \<and> hd xs = t"
  then obtain ys where xs: "xs = t # ys" by (cases xs) auto
  with assms(1) have "t \<notin> set ys" "chain f (f t) ys" using chain_distinct [OF assms(1)] by auto
  with h xs show ?thesis by (simp del: fun_upd_apply)
next
  assume "\<exists>a us vs. slot_of s xs t = HashNext a \<and> xs = us @ a # t # vs \<and> t \<notin> set (us @ [a])"
  then obtain a us vs where h: "slot_of s xs t = HashNext a" "xs = us @ a # t # vs" "t \<notin> set (us @ [a])"
    by blast
  have "chain f (f a) (t # vs)" using assms(1) h(2) by (auto dest: chain_suffix)
  then have "f a = Some t" by simp
  moreover have "remove1 t xs = us @ a # vs" using h by (simp add: remove1_append)
  ultimately show ?thesis using h chain_unlink_mid [of f p us a t vs] assms(1) by auto
qed

section \<open>Doubly linked lists\<close>

record links =
  lk_next :: "addr \<Rightarrow> addr option"
  lk_prev :: "addr \<Rightarrow> addr option"
  lk_head :: "addr option"
  lk_tail :: "addr option"

definition links_remove :: "links \<Rightarrow> addr \<Rightarrow> links" where
  "links_remove l a =
     (let l1 = (case lk_prev l a of
                  Some q \<Rightarrow> l\<lparr>lk_next := (lk_next l)(q := lk_next l a)\<rparr>
                | None \<Rightarrow> l\<lparr>lk_head := lk_next l a\<rparr>);
          l2 = (case lk_next l1 a of
                  Some q \<Rightarrow> l1\<lparr>lk_prev := (lk_prev l1)(q := lk_prev l1 a)\<rparr>
                | None \<Rightarrow> l1\<lparr>lk_tail := lk_prev l1 a\<rparr>)
      in l2\<lparr>lk_next := (lk_next l2)(a := None), lk_prev := (lk_prev l2)(a := None)\<rparr>)"

definition links_push :: "links \<Rightarrow> addr \<Rightarrow> links" where
  "links_push l a =
     (let l1 = l\<lparr>lk_next := (lk_next l)(a := lk_head l), lk_prev := (lk_prev l)(a := None)\<rparr>;
          l2 = (case lk_head l1 of
                  Some q \<Rightarrow> l1\<lparr>lk_prev := (lk_prev l1)(q := Some a)\<rparr>
                | None \<Rightarrow> l1\<lparr>lk_tail := Some a\<rparr>)
      in l2\<lparr>lk_head := Some a\<rparr>)"

text \<open>The first element, or \<open>q\<close> where the list is empty.\<close>

definition hd_or :: "'a option \<Rightarrow> 'a list \<Rightarrow> 'a option" where
  "hd_or q xs = (case xs of [] \<Rightarrow> q | x # _ \<Rightarrow> Some x)"

lemma hd_or_simps [simp]: "hd_or q [] = q" "hd_or q (x # xs) = Some x"
  by (simp_all add: hd_or_def)

lemma hd_or_append [simp]: "hd_or q (xs @ ys) = hd_or (hd_or q ys) xs"
  by (cases xs) auto

text \<open>The segment \<open>xs\<close>, entered from \<open>p\<close> and left to \<open>q\<close>.\<close>

fun dseg :: "links \<Rightarrow> addr option \<Rightarrow> addr list \<Rightarrow> addr option \<Rightarrow> bool" where
  "dseg l p [] q = True"
| "dseg l p (a # as) q = (lk_prev l a = p \<and> lk_next l a = hd_or q as \<and> dseg l (Some a) as q)"

definition dll :: "links \<Rightarrow> addr list \<Rightarrow> bool" where
  "dll l xs \<longleftrightarrow> distinct xs \<and> dseg l None xs None \<and>
     lk_head l = hd_or None xs \<and> lk_tail l = hd_or None (rev xs)"

lemma dseg_append:
  "dseg l p (xs @ ys) q \<longleftrightarrow> dseg l p xs (hd_or q ys) \<and> dseg l (hd_or p (rev xs)) ys q"
  by (induction xs arbitrary: p) auto

lemma dseg_cong:
  "(\<And>a. a \<in> set xs \<Longrightarrow> lk_next l a = lk_next m a \<and> lk_prev l a = lk_prev m a) \<Longrightarrow>
   dseg l p xs q = dseg m p xs q"
  by (induction xs arbitrary: p) auto

text \<open>Retargeting the two ends of a segment.\<close>

lemma dseg_set_last:
  assumes "dseg l p (xs @ [a]) q" "a \<notin> set xs" 
    and "\<And>b. b \<in> set (xs @ [a]) \<Longrightarrow> lk_prev m b = lk_prev l b"
    and "\<And>b. b \<in> set xs \<Longrightarrow> lk_next m b = lk_next l b" "lk_next m a = r"
  shows "dseg m p (xs @ [a]) r"
proof -
  have "dseg m p xs (Some a) = dseg l p xs (Some a)"
    using assms by (intro dseg_cong) auto
  with assms show ?thesis by (simp add: dseg_append)
qed

lemma dseg_set_first:
  assumes "dseg l p (a # xs) q" "a \<notin> set xs" 
    and "\<And>b. b \<in> set (a # xs) \<Longrightarrow> lk_next m b = lk_next l b"
    and "\<And>b. b \<in> set xs \<Longrightarrow> lk_prev m b = lk_prev l b" "lk_prev m a = r"
  shows "dseg m r (a # xs) q"
proof -
  have "dseg m (Some a) xs q = dseg l (Some a) xs q"
    using assms by (intro dseg_cong) auto
  with assms show ?thesis by simp
qed

lemma dll_push:
  assumes "dll l xs" "a \<notin> set xs"
  shows "dll (links_push l a) (a # xs)"
proof (cases xs)
  case Nil
  with assms show ?thesis by (simp add: dll_def links_push_def)
next
  case (Cons b ys)
  have "dseg (links_push l a) (Some a) (b # ys) None"
    by (rule dseg_set_first [where l = l and p = None])
      (use assms Cons in \<open>auto simp: dll_def links_push_def\<close>)
  with assms Cons show ?thesis by (auto simp: dll_def links_push_def)
qed

lemma dll_remove_split:
  assumes "dll l (us @ a # vs)"
  shows "dll (links_remove l a) (us @ vs)"
proof -
  let ?m = "links_remove l a"
  from assms have d: "distinct (us @ a # vs)"
    and s: "dseg l None us (Some a)" "dseg l (Some a) vs None"
    and a: "lk_prev l a = hd_or None (rev us)" "lk_next l a = hd_or None vs"
    and ht: "lk_head l = hd_or None (us @ [a])" "lk_tail l = hd_or None (rev vs @ [a])"
    by (auto simp: dll_def dseg_append)
  have U: "dseg ?m None us (hd_or None vs)"
  proof (cases us rule: rev_cases)
    case (snoc ws w)
    with s(1) have w: "dseg l None (ws @ [w]) (Some a)" by simp
    show ?thesis unfolding snoc
      by (rule dseg_set_last [OF w])
        (use snoc d a in \<open>auto simp: links_remove_def Let_def split: option.splits\<close>,
         (cases vs; auto)+)
  qed simp
  have V: "dseg ?m (hd_or None (rev us)) vs None"
  proof (cases vs)
    case (Cons w ws)
    with s(2) have w: "dseg l (Some a) (w # ws) None" by simp
    show ?thesis unfolding Cons
      by (rule dseg_set_first [OF w])
        (use Cons d a in \<open>auto simp: links_remove_def Let_def split: option.splits\<close>,
         (cases us rule: rev_cases; auto)+)
  qed simp
  have "lk_head ?m = hd_or None (us @ vs)"
    using a ht by (cases us rule: rev_cases; cases vs)
      (auto simp: links_remove_def Let_def split: option.splits)
  moreover have "lk_tail ?m = hd_or None (rev (us @ vs))"
    using a ht d by (cases us rule: rev_cases; cases vs)
      (auto simp: links_remove_def Let_def split: option.splits)
  ultimately show ?thesis using U V d by (simp add: dll_def dseg_append)
qed

lemma dll_remove:
  assumes "dll l xs" "a \<in> set xs"
  shows "dll (links_remove l a) (remove1 a xs)"
proof -
  from assms(2) obtain us vs where xs: "xs = us @ a # vs" by (meson split_list)
  moreover have "a \<notin> set us" using assms(1) xs by (simp add: dll_def)
  ultimately show ?thesis using dll_remove_split [of l us a vs] assms(1) by (simp add: remove1_append)
qed

text \<open>The list seen from the tail, which is how both caches look for a victim.\<close>

lemma dseg_chain_next: "dseg l p xs None \<Longrightarrow> chain (lk_next l) (hd_or None xs) xs"
proof (induction xs arbitrary: p)
  case (Cons a xs)
  then show ?case by (cases xs) auto
qed simp

lemma dseg_chain_prev: "dseg l None xs q \<Longrightarrow> chain (lk_prev l) (hd_or None (rev xs)) (rev xs)"
proof (induction xs arbitrary: q rule: rev_induct)
  case (snoc a xs)
  then show ?case by (auto simp: dseg_append)
qed simp

lemma dll_chain_next: "dll l xs \<Longrightarrow> chain (lk_next l) (lk_head l) xs"
  by (auto simp: dll_def intro: dseg_chain_next)

lemma dll_chain_prev: "dll l xs \<Longrightarrow> chain (lk_prev l) (lk_tail l) (rev xs)"
  by (auto simp: dll_def intro: dseg_chain_prev)

lemma dll_unique: "dll l xs \<Longrightarrow> dll l ys \<Longrightarrow> xs = ys"
  by (blast dest: dll_chain_next intro: chain_unique)

lemma dll_distinct: "dll l xs \<Longrightarrow> distinct xs"
  by (simp add: dll_def)

section \<open>Hash tables of chains\<close>

text \<open>
  \<open>hash_ok tbl nx H S\<close>: the chain of every bucket \<open>h\<close> holds exactly the entries of \<open>S\<close>
  that hash to \<open>h\<close>.
\<close>

definition hash_ok ::
  "addr option list \<Rightarrow> (addr \<Rightarrow> addr option) \<Rightarrow> (addr \<Rightarrow> nat) \<Rightarrow> addr set \<Rightarrow> bool" where
  "hash_ok tbl nx H S \<longleftrightarrow>
     (\<forall>h < length tbl. \<exists>xs. chain nx (tbl ! h) xs \<and> set xs = {a \<in> S. H a = h}) \<and>
     (\<forall>a \<in> S. H a < length tbl)"

lemma hash_ok_chain:
  assumes "hash_ok tbl nx H S" "h < length tbl"
  obtains xs where "chain nx (tbl ! h) xs" "set xs = {a \<in> S. H a = h}"
  using assms by (auto simp: hash_ok_def)

lemma hash_ok_bucket: "hash_ok tbl nx H S \<Longrightarrow> a \<in> S \<Longrightarrow> H a < length tbl"
  by (simp add: hash_ok_def)

lemma hash_ok_empty: "hash_ok (replicate n None) nx H {}"
  by (auto simp: hash_ok_def)

lemma hash_ok_cong:
  assumes "hash_ok tbl nx H S" "\<And>a. a \<in> S \<Longrightarrow> nx' a = nx a \<and> H' a = H a"
  shows "hash_ok tbl nx' H' S"
  unfolding hash_ok_def
proof (intro conjI allI impI ballI)
  fix h assume "h < length tbl"
  then obtain xs where xs: "chain nx (tbl ! h) xs" "set xs = {a \<in> S. H a = h}"
    by (rule hash_ok_chain [OF assms(1)])
  have "chain nx' (tbl ! h) xs = chain nx (tbl ! h) xs"
    using xs(2) assms(2) by (intro chain_cong) auto
  moreover have "set xs = {a \<in> S. H' a = h}" using xs(2) assms(2) by auto
  ultimately show "\<exists>xs. chain nx' (tbl ! h) xs \<and> set xs = {a \<in> S. H' a = h}"
    using xs(1) by blast
next
  fix a assume "a \<in> S"
  then show "H' a < length tbl" using assms hash_ok_bucket by simp
qed

lemma hash_ok_insert:
  assumes "hash_ok tbl nx H S" "a \<notin> S" "h < length tbl"
    and "nx' a = tbl ! h" "H' a = h" "\<And>b. b \<in> S \<Longrightarrow> nx' b = nx b \<and> H' b = H b"
  shows "hash_ok (tbl[h := Some a]) nx' H' (insert a S)"
proof -
  have ok: "hash_ok tbl nx' H' S" using assms(1,6) by (rule hash_ok_cong)
  have "\<exists>xs. chain nx' (tbl[h := Some a] ! k) xs \<and> set xs = {b \<in> insert a S. H' b = k}"
    if k: "k < length tbl" for k
  proof -
    obtain xs where xs: "chain nx' (tbl ! k) xs" "set xs = {b \<in> S. H' b = k}"
      using ok k by (rule hash_ok_chain)
    show ?thesis
    proof (cases "k = h")
      case True
      with xs assms have "chain nx' (tbl[h := Some a] ! k) (a # xs)" by simp
      moreover have "set (a # xs) = {b \<in> insert a S. H' b = k}" using xs True assms by auto
      ultimately show ?thesis by blast
    next
      case False
      then show ?thesis using xs assms by (intro exI [of _ xs]) auto
    qed
  qed
  then show ?thesis using ok assms by (auto simp: hash_ok_def)
qed

lemma hash_ok_find:
  assumes "hash_ok tbl nx H S" "h < length tbl"
    and "\<And>a. a \<in> S \<Longrightarrow> H a = h \<Longrightarrow> stop a = Some (P a)"
  shows "\<exists>r. ptr_find stop nx (tbl ! h) = Some r \<and>
           (case r of None \<Rightarrow> \<forall>a \<in> S. H a = h \<longrightarrow> \<not> P a | Some a \<Rightarrow> a \<in> S \<and> H a = h \<and> P a)"
proof -
  obtain xs where xs: "chain nx (tbl ! h) xs" "set xs = {a \<in> S. H a = h}"
    using assms(1,2) by (rule hash_ok_chain)
  then have f: "ptr_find stop nx (tbl ! h) = Some (find P xs)"
    using assms(3) by (intro ptr_find_chain) auto
  show ?thesis
  proof (cases "find P xs")
    case None
    then have "\<forall>a \<in> S. H a = h \<longrightarrow> \<not> P a" using xs(2) by (auto simp: find_None_iff)
    then show ?thesis using f None by simp
  next
    case (Some a)
    then have "a \<in> set xs" "P a" by (auto simp: find_Some_iff)
    then show ?thesis using f Some xs(2) by auto
  qed
qed

lemma hash_ok_remove:
  assumes ok: "hash_ok tbl nx H S" and a: "a \<in> S"
    and load: "load (Bucket (H a)) = Some (tbl ! H a)"
      "\<And>b. b \<in> S \<Longrightarrow> load (HashNext b) = Some (nx b)"
  shows "(slot_find load a (Bucket (H a)) = Some (Bucket (H a)) \<and> tbl ! H a = Some a \<and>
            hash_ok (tbl[H a := nx a]) (nx(a := None)) H (S - {a})) \<or>
         (\<exists>b \<in> S - {a}. slot_find load a (Bucket (H a)) = Some (HashNext b) \<and> nx b = Some a \<and>
            hash_ok tbl (nx(b := nx a, a := None)) H (S - {a}))"
proof -
  let ?h = "H a"
  have h: "?h < length tbl" using ok a by (rule hash_ok_bucket)
  obtain xs where xs: "chain nx (tbl ! ?h) xs" "set xs = {b \<in> S. H b = ?h}"
    using ok h by (rule hash_ok_chain)
  have fnd: "slot_find load a (Bucket ?h) = Some (slot_of (Bucket ?h) xs a)"
    using load xs by (intro slot_find_chain) auto
  have rm: "set (remove1 a xs) = {b \<in> S - {a}. H b = ?h}"
    using xs chain_distinct [OF xs(1)] by auto
  have other: "\<exists>ys. chain g (tbl ! k) ys \<and> set ys = {b \<in> S - {a}. H b = k}"
    if k: "k < length tbl" "k \<noteq> ?h" and g: "\<And>b. b \<in> S \<Longrightarrow> H b = k \<Longrightarrow> g b = nx b" for k g
  proof -
    obtain ys where ys: "chain nx (tbl ! k) ys" "set ys = {b \<in> S. H b = k}"
      using ok k(1) by (rule hash_ok_chain)
    then have "chain g (tbl ! k) ys = chain nx (tbl ! k) ys" using g by (intro chain_cong) auto
    moreover have "set ys = {b \<in> S - {a}. H b = k}" using ys k by auto
    ultimately show ?thesis using ys by blast
  qed
  have "a \<in> set xs" using a xs(2) by simp
  from chain_unlink [OF xs(1) this, of "Bucket ?h"] show ?thesis
  proof
    assume H: "slot_of (Bucket ?h) xs a = Bucket ?h \<and> chain (nx(a := None)) (nx a) (remove1 a xs)"
    have "hash_ok (tbl[?h := nx a]) (nx(a := None)) H (S - {a})"
      unfolding hash_ok_def
    proof (intro conjI allI impI ballI)
      fix k assume k: "k < length (tbl[?h := nx a])"
      show "\<exists>ys. chain (nx(a := None)) (tbl[?h := nx a] ! k) ys \<and> set ys = {b \<in> S - {a}. H b = k}"
      proof (cases "k = ?h")
        case True
        then show ?thesis using H rm k by (intro exI [of _ "remove1 a xs"]) simp
      next
        case False
        have "\<exists>ys. chain (nx(a := None)) (tbl ! k) ys \<and> set ys = {b \<in> S - {a}. H b = k}"
          by (rule other) (use k False in auto)
        then show ?thesis using False by simp
      qed
    qed (use ok in \<open>auto simp: hash_ok_def\<close>)
    moreover have "tbl ! ?h = Some a"
      using slot_of_cases [OF \<open>a \<in> set xs\<close>, of "Bucket ?h"] H xs(1) by (cases xs) auto
    ultimately show ?thesis using H fnd by simp
  next
    assume "\<exists>b. slot_of (Bucket ?h) xs a = HashNext b \<and> b \<in> set xs \<and> b \<noteq> a \<and> nx b = Some a \<and>
              chain (nx(b := nx a, a := None)) (tbl ! ?h) (remove1 a xs)"
    then obtain b where b: "slot_of (Bucket ?h) xs a = HashNext b" "b \<in> set xs" "b \<noteq> a"
        "nx b = Some a" "chain (nx(b := nx a, a := None)) (tbl ! ?h) (remove1 a xs)"
      by blast
    have "hash_ok tbl (nx(b := nx a, a := None)) H (S - {a})"
      unfolding hash_ok_def
    proof (intro conjI allI impI ballI)
      fix k assume k: "k < length tbl"
      show "\<exists>ys. chain (nx(b := nx a, a := None)) (tbl ! k) ys \<and> set ys = {b \<in> S - {a}. H b = k}"
      proof (cases "k = ?h")
        case True
        then show ?thesis using b rm by (intro exI [of _ "remove1 a xs"]) simp
      next
        case False
        then show ?thesis
          by (rule other [OF k]) (use b(2) xs(2) a False in auto)
      qed
    qed (use ok in \<open>auto simp: hash_ok_def\<close>)
    with b fnd xs(2) show ?thesis by auto
  qed
qed

section \<open>The LRU contract\<close>

text \<open>
  What a cache with an LRU list offers its operations: \<open>remove\<close> and \<open>push\<close> act on the link
  fields as the pure operations do, and change nothing else (\<open>frame\<close> relates two states of
  the cache that differ in LRU links only).
\<close>

locale lru_store =
  fixes links_of :: "'c \<Rightarrow> links"
    and entries :: "'c \<Rightarrow> addr set"
    and frame :: "'c \<Rightarrow> 'c \<Rightarrow> bool"
    and rem :: "'c \<Rightarrow> addr \<Rightarrow> 'c option"
    and push :: "'c \<Rightarrow> addr \<Rightarrow> 'c option"
  assumes frame_trans: "frame c d \<Longrightarrow> frame d e \<Longrightarrow> frame c e"
    and frame_entries: "frame c d \<Longrightarrow> entries d = entries c"
    and rem_sim: "a \<in> entries c \<Longrightarrow> set_option (lk_prev (links_of c) a) \<subseteq> entries c - {a} \<Longrightarrow>
      set_option (lk_next (links_of c) a) \<subseteq> entries c - {a} \<Longrightarrow>
      \<exists>d. rem c a = Some d \<and> links_of d = links_remove (links_of c) a \<and> frame c d"
    and push_sim: "a \<in> entries c \<Longrightarrow> set_option (lk_head (links_of c)) \<subseteq> entries c - {a} \<Longrightarrow>
      \<exists>d. push c a = Some d \<and> links_of d = links_push (links_of c) a \<and> frame c d"
begin

lemma rem_dll:
  assumes "dll (links_of c) xs" "set xs \<subseteq> entries c" "a \<in> set xs"
  shows "\<exists>d. rem c a = Some d \<and> dll (links_of d) (remove1 a xs) \<and> frame c d"
proof -
  from assms(3) obtain us vs where xs: "xs = us @ a # vs" by (meson split_list)
  with assms(1) have "lk_prev (links_of c) a = hd_or None (rev us)" "lk_next (links_of c) a = hd_or None vs"
    and "distinct xs" by (auto simp: dll_def dseg_append)
  then have "set_option (lk_prev (links_of c) a) \<subseteq> entries c - {a}"
    "set_option (lk_next (links_of c) a) \<subseteq> entries c - {a}"
    using xs assms(2) by (cases us rule: rev_cases; cases vs; auto)+
  then show ?thesis using rem_sim [of a c] assms dll_remove by fastforce
qed

lemma push_dll:
  assumes "dll (links_of c) xs" "set xs \<subseteq> entries c" "a \<in> entries c" "a \<notin> set xs"
  shows "\<exists>d. push c a = Some d \<and> dll (links_of d) (a # xs) \<and> frame c d"
proof -
  have "set_option (lk_head (links_of c)) \<subseteq> entries c - {a}"
    using assms by (cases xs) (auto simp: dll_def)
  then show ?thesis using push_sim [of a c] assms dll_push by fastforce
qed

text \<open>Moving an entry to the front: remove, then push.\<close>

lemma move_dll:
  assumes "dll (links_of c) xs" "set xs \<subseteq> entries c" "a \<in> set xs"
  shows "\<exists>d e. rem c a = Some d \<and> push d a = Some e \<and> dll (links_of e) (a # remove1 a xs) \<and> frame c e"
proof -
  from rem_dll [OF assms] obtain d where d: "rem c a = Some d"
      "dll (links_of d) (remove1 a xs)" "frame c d" by blast
  have "distinct xs" using assms(1) by (rule dll_distinct)
  then have "set (remove1 a xs) \<subseteq> entries d" "a \<in> entries d" "a \<notin> set (remove1 a xs)"
    using assms frame_entries [OF d(3)] by auto
  from push_dll [OF d(2) this] show ?thesis using d frame_trans by blast
qed

end

end
