(* ===== verification/Buffer_Cache.thy ===== *)
theory Buffer_Cache
  imports Links
begin

text \<open>
  \<open>src/buffer_cache.c\<close>: a fixed-capacity cache of disk blocks.  Buffer heads live in an
  explicit heap (\<open>bc_heap\<close>, addresses are handed out by \<open>bc_brk\<close>), linked on the LRU list
  and on hash chains through the same pointer fields as in C.  Mutexes and rwlocks are not
  modelled: every function is one critical section of \<open>cache_lock\<close>.
\<close>

section \<open>State\<close>

record buffer_head =
  bh_block_num :: block_t
  bh_data :: "byte list"
  bh_dirty :: bool
  bh_valid :: bool
  bh_ref_count :: int
  bh_next :: "addr option"
  bh_prev :: "addr option"
  bh_hash_next :: "addr option"

record buffer_cache =
  bc_heap :: "addr \<Rightarrow> buffer_head option"
  bc_brk :: addr
  bc_oom :: bool
  bc_hash_table :: "addr option list"
  bc_hash_size :: u32
  bc_lru_head :: "addr option"
  bc_lru_tail :: "addr option"
  bc_max_buffers :: u32
  bc_current_buffers :: u32
  bc_hit_count :: u64
  bc_miss_count :: u64
  bc_evict_count :: u64

text \<open>The device file: \<open>pread\<close> and \<open>pwrite\<close> of whole blocks, which may fail on bad blocks.\<close>

record disk =
  dk_blocks :: "block_t \<Rightarrow> byte list"
  dk_read_bad :: "block_t \<Rightarrow> bool"
  dk_write_bad :: "block_t \<Rightarrow> bool"
  dk_fsync_bad :: bool

definition pread_block :: "disk \<Rightarrow> block_t \<Rightarrow> byte list option" where
  "pread_block d b = (if dk_read_bad d b then None else Some (dk_blocks d b))"

definition pwrite_block :: "disk \<Rightarrow> block_t \<Rightarrow> byte list \<Rightarrow> disk option" where
  "pwrite_block d b data =
     (if dk_write_bad d b then None else Some (d\<lparr>dk_blocks := (dk_blocks d)(b := data)\<rparr>))"

text \<open>Stores through a pointer: undefined on a dangling one.\<close>

definition bh_modify :: "buffer_cache \<Rightarrow> addr \<Rightarrow> (buffer_head \<Rightarrow> buffer_head) \<Rightarrow> buffer_cache option" where
  "bh_modify c a f =
     (case bc_heap c a of None \<Rightarrow> None
      | Some b \<Rightarrow> Some (c\<lparr>bc_heap := (bc_heap c)(a := Some (f b))\<rparr>))"

section \<open>Operations\<close>

definition hash_block :: "block_t \<Rightarrow> u32 \<Rightarrow> nat" where
  "hash_block block hash_size = unat (block mod hash_size)"

definition lru_remove :: "buffer_cache \<Rightarrow> addr \<Rightarrow> buffer_cache option" where
  "lru_remove c a = do {
     b \<leftarrow> bc_heap c a;
     c \<leftarrow> (case bh_prev b of
            Some q \<Rightarrow> bh_modify c q (bh_next_update (\<lambda>_. bh_next b))
          | None \<Rightarrow> Some (c\<lparr>bc_lru_head := bh_next b\<rparr>));
     b \<leftarrow> bc_heap c a;
     c \<leftarrow> (case bh_next b of
            Some q \<Rightarrow> bh_modify c q (bh_prev_update (\<lambda>_. bh_prev b))
          | None \<Rightarrow> Some (c\<lparr>bc_lru_tail := bh_prev b\<rparr>));
     bh_modify c a (\<lambda>b. b\<lparr>bh_next := None, bh_prev := None\<rparr>)
   }"

definition lru_add_to_head :: "buffer_cache \<Rightarrow> addr \<Rightarrow> buffer_cache option" where
  "lru_add_to_head c a = do {
     c \<leftarrow> bh_modify c a (\<lambda>b. b\<lparr>bh_next := bc_lru_head c, bh_prev := None\<rparr>);
     c \<leftarrow> (case bc_lru_head c of
            Some q \<Rightarrow> bh_modify c q (bh_prev_update (\<lambda>_. Some a))
          | None \<Rightarrow> Some (c\<lparr>bc_lru_tail := Some a\<rparr>));
     Some (c\<lparr>bc_lru_head := Some a\<rparr>)
   }"

definition lru_move_to_head :: "buffer_cache \<Rightarrow> addr \<Rightarrow> buffer_cache option" where
  "lru_move_to_head c a =
     (if bc_lru_head c = Some a then Some c
      else do { c \<leftarrow> lru_remove c a; lru_add_to_head c a })"

definition load_bucket :: "buffer_cache \<Rightarrow> nat \<Rightarrow> addr option option" where
  "load_bucket c h = (if h < length (bc_hash_table c) then Some (bc_hash_table c ! h) else None)"

definition hash_next_of :: "buffer_cache \<Rightarrow> addr \<Rightarrow> addr option" where
  "hash_next_of c a = Option.bind (bc_heap c a) bh_hash_next"

definition hash_lookup :: "buffer_cache \<Rightarrow> block_t \<Rightarrow> addr option option" where
  "hash_lookup c block = do {
     p \<leftarrow> load_bucket c (hash_block block (bc_hash_size c));
     ptr_find (\<lambda>a. map_option (\<lambda>b. bh_block_num b = block) (bc_heap c a)) (hash_next_of c) p
   }"

definition hash_insert :: "buffer_cache \<Rightarrow> addr \<Rightarrow> buffer_cache option" where
  "hash_insert c a = do {
     b \<leftarrow> bc_heap c a;
     let h = hash_block (bh_block_num b) (bc_hash_size c);
     p \<leftarrow> load_bucket c h;
     c \<leftarrow> bh_modify c a (bh_hash_next_update (\<lambda>_. p));
     Some (c\<lparr>bc_hash_table := (bc_hash_table c)[h := Some a]\<rparr>)
   }"

fun load_slot :: "buffer_cache \<Rightarrow> slot \<Rightarrow> addr option option" where
  "load_slot c (Bucket h) = load_bucket c h"
| "load_slot c (HashNext a) = map_option bh_hash_next (bc_heap c a)"

fun store_slot :: "buffer_cache \<Rightarrow> slot \<Rightarrow> addr option \<Rightarrow> buffer_cache option" where
  "store_slot c (Bucket h) p =
     (if h < length (bc_hash_table c) then Some (c\<lparr>bc_hash_table := (bc_hash_table c)[h := p]\<rparr>) else None)"
| "store_slot c (HashNext a) p = bh_modify c a (bh_hash_next_update (\<lambda>_. p))"

definition hash_remove :: "buffer_cache \<Rightarrow> addr \<Rightarrow> buffer_cache option" where
  "hash_remove c a = do {
     b \<leftarrow> bc_heap c a;
     s \<leftarrow> slot_find (load_slot c) a (Bucket (hash_block (bh_block_num b) (bc_hash_size c)));
     p \<leftarrow> load_slot c s;
     (if p = Some a then do {
        c \<leftarrow> store_slot c s (bh_hash_next b);
        bh_modify c a (bh_hash_next_update (\<lambda>_. None)) }
      else Some c)
   }"

text \<open>
  \<open>malloc\<close> and \<open>posix_memalign\<close>, which fail when \<open>bc_oom\<close> is set.  The contents of the fresh
  buffer are indeterminate in C; zeros stand for them, and the only caller overwrites them.
\<close>

definition buffer_head_alloc :: "buffer_cache \<Rightarrow> block_t \<Rightarrow> addr option \<times> buffer_cache" where
  "buffer_head_alloc c block =
     (if bc_oom c then (None, c)
      else (Some (bc_brk c),
            c\<lparr>bc_brk := Suc (bc_brk c),
              bc_heap := (bc_heap c)(bc_brk c := Some
                \<lparr>bh_block_num = block, bh_data = replicate BLOCK_SIZE 0, bh_dirty = False, bh_valid = False,
                 bh_ref_count = 1, bh_next = None, bh_prev = None, bh_hash_next = None\<rparr>)\<rparr>))"

definition buffer_head_free :: "buffer_cache \<Rightarrow> addr \<Rightarrow> buffer_cache option" where
  "buffer_head_free c a =
     (case bc_heap c a of None \<Rightarrow> None | Some _ \<Rightarrow> Some (c\<lparr>bc_heap := (bc_heap c)(a := None)\<rparr>))"

text \<open>
  \<open>calloc\<close> of the bucket array may fail; the size is \<open>max_buffers * 2\<close> in 32-bit arithmetic.
\<close>

definition buffer_cache_init :: "bool \<Rightarrow> u32 \<Rightarrow> buffer_cache option" where
  "buffer_cache_init oom max_buffers =
     (if oom then None
      else Some \<lparr>bc_heap = (\<lambda>_. None), bc_brk = 0, bc_oom = False,
        bc_hash_table = replicate (unat (max_buffers * 2)) None, bc_hash_size = max_buffers * 2,
        bc_lru_head = None, bc_lru_tail = None, bc_max_buffers = max_buffers,
        bc_current_buffers = 0, bc_hit_count = 0, bc_miss_count = 0, bc_evict_count = 0\<rparr>)"

text \<open>Freeing every buffer, head first; the next pointer is read before the buffer is freed.\<close>

partial_function (option) destroy_loop :: "buffer_cache \<Rightarrow> addr option \<Rightarrow> buffer_cache option" where
  "destroy_loop c p =
     (case p of None \<Rightarrow> Some c
      | Some a \<Rightarrow> (case bc_heap c a of None \<Rightarrow> None
        | Some b \<Rightarrow> (case buffer_head_free c a of None \<Rightarrow> None
           | Some c' \<Rightarrow> destroy_loop c' (bh_next b))))"

declare destroy_loop.simps [code]

definition buffer_cache_destroy :: "buffer_cache \<Rightarrow> buffer_cache option" where
  "buffer_cache_destroy c = destroy_loop c (bc_lru_head c)"

definition buffer_cache_lookup ::
  "buffer_cache \<Rightarrow> block_t \<Rightarrow> (addr option \<times> buffer_cache) option" where
  "buffer_cache_lookup c block = do {
     r \<leftarrow> hash_lookup c block;
     (case r of
        Some a \<Rightarrow> do {
          c \<leftarrow> bh_modify c a (\<lambda>b. b\<lparr>bh_ref_count := bh_ref_count b + 1\<rparr>);
          c \<leftarrow> lru_move_to_head c a;
          Some (Some a, c\<lparr>bc_hit_count := bc_hit_count c + 1\<rparr>) }
      | None \<Rightarrow> Some (None, c\<lparr>bc_miss_count := bc_miss_count c + 1\<rparr>))
   }"

definition buffer_cache_insert ::
  "buffer_cache \<Rightarrow> block_t \<Rightarrow> byte list \<Rightarrow> (addr option \<times> buffer_cache) option" where
  "buffer_cache_insert c block data = do {
     r \<leftarrow> hash_lookup c block;
     (case r of
        Some a \<Rightarrow> do {
          c \<leftarrow> bh_modify c a (\<lambda>b. b\<lparr>bh_data := data, bh_valid := True\<rparr>);
          c \<leftarrow> bh_modify c a (\<lambda>b. b\<lparr>bh_ref_count := bh_ref_count b + 1\<rparr>);
          c \<leftarrow> lru_move_to_head c a;
          Some (Some a, c) }
      | None \<Rightarrow>
          if bc_max_buffers c \<le> bc_current_buffers c then Some (None, c)
          else (case buffer_head_alloc c block of
            (None, c) \<Rightarrow> Some (None, c)
          | (Some a, c) \<Rightarrow> do {
              c \<leftarrow> bh_modify c a (\<lambda>b. b\<lparr>bh_data := data, bh_valid := True\<rparr>);
              c \<leftarrow> hash_insert c a;
              c \<leftarrow> lru_add_to_head c a;
              Some (Some a, c\<lparr>bc_current_buffers := bc_current_buffers c + 1\<rparr>) }))
   }"

definition buffer_head_get :: "buffer_cache \<Rightarrow> addr \<Rightarrow> buffer_cache option" where
  "buffer_head_get c a = bh_modify c a (\<lambda>b. b\<lparr>bh_ref_count := bh_ref_count b + 1\<rparr>)"

definition buffer_head_put :: "buffer_cache \<Rightarrow> addr \<Rightarrow> buffer_cache option" where
  "buffer_head_put c a = bh_modify c a (\<lambda>b. b\<lparr>bh_ref_count := bh_ref_count b - 1\<rparr>)"

definition buffer_head_mark_dirty :: "buffer_cache \<Rightarrow> addr \<Rightarrow> buffer_cache option" where
  "buffer_head_mark_dirty c a = bh_modify c a (bh_dirty_update (\<lambda>_. True))"

definition buffer_cache_invalidate :: "buffer_cache \<Rightarrow> block_t \<Rightarrow> buffer_cache option" where
  "buffer_cache_invalidate c block = do {
     r \<leftarrow> hash_lookup c block;
     (case r of
        Some a \<Rightarrow> bh_modify c a (\<lambda>b. b\<lparr>bh_valid := False, bh_dirty := False\<rparr>)
      | None \<Rightarrow> Some c)
   }"

text \<open>
  The write-back loop walks the LRU list from its head; it stops at the first failing
  \<open>pwrite\<close>, leaving the buffers written so far clean.
\<close>

partial_function (option) sync_loop ::
  "buffer_cache \<Rightarrow> disk \<Rightarrow> addr option \<Rightarrow> (int \<times> buffer_cache \<times> disk) option" where
  "sync_loop c d p =
     (case p of None \<Rightarrow> Some (0, c, d)
      | Some a \<Rightarrow> (case bc_heap c a of None \<Rightarrow> None
        | Some b \<Rightarrow>
            if bh_dirty b then
              (case pwrite_block d (bh_block_num b) (bh_data b) of
                 None \<Rightarrow> Some (- EIO, c, d)
               | Some d' \<Rightarrow> sync_loop
                   (c\<lparr>bc_heap := (bc_heap c)(a := Some (b\<lparr>bh_dirty := False\<rparr>))\<rparr>) d' (bh_next b))
            else sync_loop c d (bh_next b)))"

declare sync_loop.simps [code]

definition buffer_cache_sync :: "buffer_cache \<Rightarrow> disk \<Rightarrow> (int \<times> buffer_cache \<times> disk) option" where
  "buffer_cache_sync c d = sync_loop c d (bc_lru_head c)"

text \<open>\<open>evict_lru_buffer\<close>, kept in the source for later use: the victim is sought from the tail.\<close>

definition prev_of :: "buffer_cache \<Rightarrow> addr \<Rightarrow> addr option" where
  "prev_of c a = Option.bind (bc_heap c a) bh_prev"

definition evict_lru_buffer :: "buffer_cache \<Rightarrow> disk \<Rightarrow> (int \<times> buffer_cache \<times> disk) option" where
  "evict_lru_buffer c d = do {
     r \<leftarrow> ptr_find (\<lambda>a. map_option (\<lambda>b. bh_ref_count b = 0) (bc_heap c a)) (prev_of c) (bc_lru_tail c);
     (case r of
        None \<Rightarrow> Some (- ENOMEM, c, d)
      | Some a \<Rightarrow> do {
          b \<leftarrow> bc_heap c a;
          (case (if bh_dirty b then pwrite_block d (bh_block_num b) (bh_data b) else Some d) of
             None \<Rightarrow> Some (- EIO, c, d)
           | Some d \<Rightarrow> do {
               c \<leftarrow> lru_remove c a;
               c \<leftarrow> hash_remove c a;
               c \<leftarrow> buffer_head_free c a;
               Some (0, c\<lparr>bc_current_buffers := bc_current_buffers c - 1,
                          bc_evict_count := bc_evict_count c + 1\<rparr>, d) }) })
   }"

text \<open>\<open>buffer_cache_stats\<close>: the hit rate is a quotient of counters, here kept exact.\<close>

definition buffer_cache_stats :: "buffer_cache \<Rightarrow> u64 \<times> u64 \<times> u64 \<times> (u64 \<times> u64)" where
  "buffer_cache_stats c =
     (bc_hit_count c, bc_miss_count c, bc_evict_count c,
      (let total = bc_hit_count c + bc_miss_count c
       in if 0 < total then (bc_hit_count c, total) else (0, 1)))"

end
