(* ===== verification/Layout.thy ===== *)
theory Layout
  imports Prelude
begin

text \<open>
  The on-disk structures of \<open>include/modernfs/types.h\<close> as records, with the byte layout the
  packed C structs have.  The encoders and decoders stand for the \<open>memcpy\<close> between a struct
  and a block buffer (little-endian targets); the round trips say that no field is lost.
\<close>

section \<open>Superblock\<close>

record superblock =
  sb_magic :: u32
  sb_version :: u32
  sb_block_size :: u32
  sb_total_blocks :: u32
  sb_free_blocks :: u32
  sb_journal_start :: u32
  sb_journal_blocks :: u32
  sb_inode_bitmap_start :: u32
  sb_inode_bitmap_blocks :: u32
  sb_data_bitmap_start :: u32
  sb_data_bitmap_blocks :: u32
  sb_inode_table_start :: u32
  sb_inode_table_blocks :: u32
  sb_data_start :: u32
  sb_data_blocks :: u32
  sb_total_inodes :: u32
  sb_free_inodes :: u32
  sb_first_inode :: u32
  sb_root_inum :: u32
  sb_state :: u32
  sb_mount_time :: u64
  sb_write_time :: u64
  sb_mount_count :: u32
  sb_padding :: "byte list"

abbreviation sizeof_superblock :: nat where "sizeof_superblock \<equiv> 4088"

definition encode_superblock :: "superblock \<Rightarrow> byte list" where
  "encode_superblock sb =
     le_bytes 4 (sb_magic sb) @ le_bytes 4 (sb_version sb) @ le_bytes 4 (sb_block_size sb) @
     le_bytes 4 (sb_total_blocks sb) @ le_bytes 4 (sb_free_blocks sb) @
     le_bytes 4 (sb_journal_start sb) @ le_bytes 4 (sb_journal_blocks sb) @
     le_bytes 4 (sb_inode_bitmap_start sb) @ le_bytes 4 (sb_inode_bitmap_blocks sb) @
     le_bytes 4 (sb_data_bitmap_start sb) @ le_bytes 4 (sb_data_bitmap_blocks sb) @
     le_bytes 4 (sb_inode_table_start sb) @ le_bytes 4 (sb_inode_table_blocks sb) @
     le_bytes 4 (sb_data_start sb) @ le_bytes 4 (sb_data_blocks sb) @
     le_bytes 4 (sb_total_inodes sb) @ le_bytes 4 (sb_free_inodes sb) @
     le_bytes 4 (sb_first_inode sb) @ le_bytes 4 (sb_root_inum sb) @ le_bytes 4 (sb_state sb) @
     le_bytes 8 (sb_mount_time sb) @ le_bytes 8 (sb_write_time sb) @
     le_bytes 4 (sb_mount_count sb) @ sb_padding sb"

definition decode_superblock :: "byte list \<Rightarrow> superblock" where
  "decode_superblock bs =
     \<lparr>sb_magic = le_word (slice 0 4 bs), sb_version = le_word (slice 4 4 bs),
      sb_block_size = le_word (slice 8 4 bs), sb_total_blocks = le_word (slice 12 4 bs),
      sb_free_blocks = le_word (slice 16 4 bs), sb_journal_start = le_word (slice 20 4 bs),
      sb_journal_blocks = le_word (slice 24 4 bs), sb_inode_bitmap_start = le_word (slice 28 4 bs),
      sb_inode_bitmap_blocks = le_word (slice 32 4 bs), sb_data_bitmap_start = le_word (slice 36 4 bs),
      sb_data_bitmap_blocks = le_word (slice 40 4 bs), sb_inode_table_start = le_word (slice 44 4 bs),
      sb_inode_table_blocks = le_word (slice 48 4 bs), sb_data_start = le_word (slice 52 4 bs),
      sb_data_blocks = le_word (slice 56 4 bs), sb_total_inodes = le_word (slice 60 4 bs),
      sb_free_inodes = le_word (slice 64 4 bs), sb_first_inode = le_word (slice 68 4 bs),
      sb_root_inum = le_word (slice 72 4 bs), sb_state = le_word (slice 76 4 bs),
      sb_mount_time = le_word (slice 80 8 bs), sb_write_time = le_word (slice 88 8 bs),
      sb_mount_count = le_word (slice 96 4 bs), sb_padding = slice 100 3988 bs\<rparr>"

definition superblock_wf :: "superblock \<Rightarrow> bool" where
  "superblock_wf sb \<longleftrightarrow> length (sb_padding sb) = 3988"

lemma length_encode_superblock [codec_simps]:
  "superblock_wf sb \<Longrightarrow> length (encode_superblock sb) = sizeof_superblock"
  by (simp add: encode_superblock_def superblock_wf_def)

lemma decode_encode_superblock [codec_simps]:
  "superblock_wf sb \<Longrightarrow> decode_superblock (encode_superblock sb @ tail) = sb"
  by (simp add: decode_superblock_def encode_superblock_def superblock_wf_def slice_def
      le_word_le_bytes)

lemma superblock_wf_decode [codec_simps]:
  "sizeof_superblock \<le> length bs \<Longrightarrow> superblock_wf (decode_superblock bs)"
  by (simp add: superblock_wf_def decode_superblock_def length_slice)

section \<open>Disk inodes\<close>

record disk_inode =
  di_mode :: u16
  di_uid :: u16
  di_gid :: u16
  di_nlink :: u16
  di_type :: byte
  di_flags :: byte
  di_reserved :: u16
  di_size :: u64
  di_blocks :: u64
  di_atime :: u64
  di_mtime :: u64
  di_ctime :: u64
  di_direct :: "block_t list"
  di_indirect :: block_t
  di_double_indirect :: block_t
  di_padding :: "byte list"

definition encode_ptrs :: "block_t list \<Rightarrow> byte list" where
  "encode_ptrs ps = concat (map (le_bytes 4) ps)"

definition get_ptr :: "byte list \<Rightarrow> nat \<Rightarrow> block_t" where
  "get_ptr bs i = le_word (slice (4 * i) 4 bs)"

definition set_ptr :: "byte list \<Rightarrow> nat \<Rightarrow> block_t \<Rightarrow> byte list" where
  "set_ptr bs i p = splice (4 * i) (le_bytes 4 p) bs"

definition encode_disk_inode :: "disk_inode \<Rightarrow> byte list" where
  "encode_disk_inode d =
     le_bytes 2 (di_mode d) @ le_bytes 2 (di_uid d) @ le_bytes 2 (di_gid d) @
     le_bytes 2 (di_nlink d) @ le_bytes 1 (di_type d) @ le_bytes 1 (di_flags d) @
     le_bytes 2 (di_reserved d) @ le_bytes 8 (di_size d) @ le_bytes 8 (di_blocks d) @
     le_bytes 8 (di_atime d) @ le_bytes 8 (di_mtime d) @ le_bytes 8 (di_ctime d) @
     encode_ptrs (di_direct d) @ le_bytes 4 (di_indirect d) @
     le_bytes 4 (di_double_indirect d) @ di_padding d"

definition decode_disk_inode :: "byte list \<Rightarrow> disk_inode" where
  "decode_disk_inode bs =
     \<lparr>di_mode = le_word (slice 0 2 bs), di_uid = le_word (slice 2 2 bs),
      di_gid = le_word (slice 4 2 bs), di_nlink = le_word (slice 6 2 bs),
      di_type = le_word (slice 8 1 bs), di_flags = le_word (slice 9 1 bs),
      di_reserved = le_word (slice 10 2 bs), di_size = le_word (slice 12 8 bs),
      di_blocks = le_word (slice 20 8 bs), di_atime = le_word (slice 28 8 bs),
      di_mtime = le_word (slice 36 8 bs), di_ctime = le_word (slice 44 8 bs),
      di_direct = map (get_ptr (slice 52 48 bs)) [0..<12],
      di_indirect = le_word (slice 100 4 bs), di_double_indirect = le_word (slice 104 4 bs),
      di_padding = slice 108 20 bs\<rparr>"

definition disk_inode_wf :: "disk_inode \<Rightarrow> bool" where
  "disk_inode_wf d \<longleftrightarrow> length (di_direct d) = INODE_DIRECT_BLOCKS \<and> length (di_padding d) = 20"

text \<open>\<open>memset(&disk, 0, sizeof(disk_inode_t))\<close>\<close>

definition zero_disk_inode :: disk_inode where
  "zero_disk_inode =
     \<lparr>di_mode = 0, di_uid = 0, di_gid = 0, di_nlink = 0, di_type = 0, di_flags = 0,
      di_reserved = 0, di_size = 0, di_blocks = 0, di_atime = 0, di_mtime = 0, di_ctime = 0,
      di_direct = replicate INODE_DIRECT_BLOCKS 0, di_indirect = 0, di_double_indirect = 0,
      di_padding = replicate 20 0\<rparr>"

lemma zero_disk_inode_wf [simp]: "disk_inode_wf zero_disk_inode"
  by (simp add: disk_inode_wf_def zero_disk_inode_def)

lemma length_encode_ptrs [simp, codec_simps]: "length (encode_ptrs ps) = 4 * length ps"
  by (induction ps) (auto simp: encode_ptrs_def)

lemma get_ptr_encode_ptrs [codec_simps]: "i < length ps \<Longrightarrow> get_ptr (encode_ptrs ps @ t) i = ps ! i"
proof (induction ps arbitrary: i)
  case (Cons p ps)
  show ?case
  proof (cases i)
    case 0
    then show ?thesis by (simp add: get_ptr_def encode_ptrs_def slice_def le_word_le_bytes)
  next
    case (Suc j)
    with Cons have "get_ptr (encode_ptrs ps @ t) j = ps ! j" by simp
    then show ?thesis using Suc by (simp add: get_ptr_def encode_ptrs_def slice_def)
  qed
qed simp

lemma length_set_ptr [codec_simps]: "4 * i + 4 \<le> length bs \<Longrightarrow> length (set_ptr bs i p) = length bs"
  by (simp add: set_ptr_def length_splice)

lemma get_set_ptr [codec_simps]:
  assumes "4 * i + 4 \<le> length bs" "4 * j + 4 \<le> length bs"
  shows "get_ptr (set_ptr bs i p) j = (if i = j then p else get_ptr bs j)"
proof (cases "i = j")
  case True
  then show ?thesis using assms slice_splice_same [of "4 * i" "le_bytes 4 p" bs]
    by (simp add: get_ptr_def set_ptr_def le_word_le_bytes)
next
  case False
  then have "4 * j + 4 \<le> 4 * i \<or> 4 * i + 4 \<le> 4 * j" by linarith
  then show ?thesis using assms False
    by (simp add: get_ptr_def set_ptr_def slice_splice_other)
qed

lemma get_ptr_zero [codec_simps]: "4 * i + 4 \<le> n \<Longrightarrow> get_ptr (replicate n 0) i = 0"
proof -
  assume a: "4 * i + 4 \<le> n"
  have "slice (4 * i) 4 (replicate n (0::byte)) = replicate 4 0"
    using a by (auto simp: slice_def intro!: nth_equalityI)
  then show ?thesis by (simp add: get_ptr_def numeral_eq_Suc)
qed

lemma length_encode_disk_inode [codec_simps]:
  "disk_inode_wf d \<Longrightarrow> length (encode_disk_inode d) = INODE_SIZE"
  by (simp add: encode_disk_inode_def disk_inode_wf_def)

lemma decode_encode_disk_inode [codec_simps]:
  assumes "disk_inode_wf d"
  shows "decode_disk_inode (encode_disk_inode d) = d"
proof -
  have "map (get_ptr (encode_ptrs (di_direct d))) [0..<12] = di_direct d"
    using assms get_ptr_encode_ptrs [of _ "di_direct d" "[]"]
    by (intro nth_equalityI) (auto simp: disk_inode_wf_def)
  then show ?thesis using assms
    by (simp add: decode_disk_inode_def encode_disk_inode_def disk_inode_wf_def slice_def
        le_word_le_bytes)
qed

lemma disk_inode_wf_decode [codec_simps]:
  "INODE_SIZE \<le> length bs \<Longrightarrow> disk_inode_wf (decode_disk_inode bs)"
  by (simp add: disk_inode_wf_def decode_disk_inode_def length_slice)

end
