(* ===== verification/Block_Dev.thy ===== *)
theory Block_Dev
  imports Buffer_Cache Layout
begin

text \<open>
  \<open>src/block_dev.c\<close>: block reads and writes through the buffer cache, write-back, and the copy
  of the superblock the device keeps.  The file descriptor is the \<^typ>\<open>disk\<close> it stands for.
\<close>

record block_device =
  bd_disk :: disk
  bd_total_blocks :: u64
  bd_total_size :: u64
  bd_cache :: buffer_cache
  bd_superblock :: "superblock option"
  bd_oom :: bool

text \<open>
  \<open>opened\<close> is what \<open>open\<close> and \<open>fstat\<close> give: the device and its size, or a failure;
  \<open>dev_oom\<close> and \<open>cache_oom\<close> are the outcomes of the two allocations.
\<close>

definition blkdev_open :: "(disk \<times> u64) option \<Rightarrow> bool \<Rightarrow> bool \<Rightarrow> block_device option" where
  "blkdev_open opened dev_oom cache_oom =
     (case opened of None \<Rightarrow> None
      | Some (d, st_size) \<Rightarrow>
          if dev_oom then None
          else (case buffer_cache_init cache_oom 1024 of
              None \<Rightarrow> None
            | Some c \<Rightarrow> Some \<lparr>bd_disk = d, bd_total_blocks = st_size div 4096, bd_total_size = st_size,
                bd_cache = c, bd_superblock = None, bd_oom = False\<rparr>))"

definition blkdev_read :: "block_device \<Rightarrow> block_t \<Rightarrow> ((int + byte list) \<times> block_device) option" where
  "blkdev_read dev block =
     (if bd_total_blocks dev \<le> ucast block then Some (Inl (- EINVAL), dev)
      else do {
        (r, c) \<leftarrow> buffer_cache_lookup (bd_cache dev) block;
        (case r of
           Some a \<Rightarrow> do {
             b \<leftarrow> bc_heap c a;
             (if bh_valid b then do {
                c \<leftarrow> buffer_head_put c a;
                Some (Inr (bh_data b), dev\<lparr>bd_cache := c\<rparr>) }
              else (case pread_block (bd_disk dev) block of
                 None \<Rightarrow> do {
                   c \<leftarrow> buffer_head_put c a;
                   Some (Inl (- EIO), dev\<lparr>bd_cache := c\<rparr>) }
               | Some data \<Rightarrow> do {
                   c \<leftarrow> bh_modify c a (\<lambda>b. b\<lparr>bh_data := data, bh_valid := True\<rparr>);
                   c \<leftarrow> buffer_head_put c a;
                   Some (Inr data, dev\<lparr>bd_cache := c\<rparr>) })) }
         | None \<Rightarrow>
             (case pread_block (bd_disk dev) block of
                None \<Rightarrow> Some (Inl (- EIO), dev\<lparr>bd_cache := c\<rparr>)
              | Some data \<Rightarrow> do {
                  (_, c) \<leftarrow> buffer_cache_insert c block data;
                  Some (Inr data, dev\<lparr>bd_cache := c\<rparr>) })) })"

definition blkdev_write :: "block_device \<Rightarrow> block_t \<Rightarrow> byte list \<Rightarrow> (int \<times> block_device) option" where
  "blkdev_write dev block buf =
     (if bd_total_blocks dev \<le> ucast block then Some (- EINVAL, dev)
      else do {
        (r, c) \<leftarrow> buffer_cache_lookup (bd_cache dev) block;
        (case r of
           Some a \<Rightarrow> do {
             c \<leftarrow> bh_modify c a (bh_data_update (\<lambda>_. buf));
             c \<leftarrow> buffer_head_mark_dirty c a;
             c \<leftarrow> buffer_head_put c a;
             Some (0, dev\<lparr>bd_cache := c\<rparr>) }
         | None \<Rightarrow> do {
             (r, c) \<leftarrow> buffer_cache_insert c block buf;
             (case r of
                Some a \<Rightarrow> do {
                  c \<leftarrow> buffer_head_mark_dirty c a;
                  c \<leftarrow> buffer_head_put c a;
                  Some (0, dev\<lparr>bd_cache := c\<rparr>) }
              | None \<Rightarrow>
                  (case pwrite_block (bd_disk dev) block buf of
                     None \<Rightarrow> Some (- EIO, dev\<lparr>bd_cache := c\<rparr>)
                   | Some d \<Rightarrow> Some (0, dev\<lparr>bd_cache := c, bd_disk := d\<rparr>))) }) })"

definition blkdev_sync :: "block_device \<Rightarrow> (int \<times> block_device) option" where
  "blkdev_sync dev = do {
     (ret, c, d) \<leftarrow> buffer_cache_sync (bd_cache dev) (bd_disk dev);
     let dev = dev\<lparr>bd_cache := c, bd_disk := d\<rparr>;
     (if ret < 0 then Some (ret, dev)
      else if dk_fsync_bad d then Some (- EIO, dev)
      else Some (0, dev))
   }"

text \<open>The result of \<open>blkdev_close\<close> is the disk it leaves behind, and the emptied buffer heap.\<close>

definition blkdev_close :: "block_device \<Rightarrow> (disk \<times> buffer_cache) option" where
  "blkdev_close dev = do {
     (_, dev) \<leftarrow> blkdev_sync dev;
     c \<leftarrow> buffer_cache_destroy (bd_cache dev);
     Some (bd_disk dev, c)
   }"

definition blkdev_load_superblock :: "block_device \<Rightarrow> (int \<times> block_device) option" where
  "blkdev_load_superblock dev =
     (if bd_superblock dev = None \<and> bd_oom dev then Some (- ENOMEM, dev)
      else do {
        (r, dev) \<leftarrow> blkdev_read dev SUPERBLOCK_BLOCK;
        (case r of
           Inl ret \<Rightarrow> Some (ret, dev\<lparr>bd_superblock := None\<rparr>)
         | Inr sb_buffer \<Rightarrow> do {
             bytes \<leftarrow> buf_read sb_buffer 0 sizeof_superblock;
             let sb = decode_superblock bytes;
             (if sb_magic sb \<noteq> SUPERBLOCK_MAGIC
              then Some (- EINVAL, dev\<lparr>bd_superblock := None\<rparr>)
              else Some (0, dev\<lparr>bd_superblock := Some sb\<rparr>)) }) })"

text \<open>
  The write passes the struct itself as the block buffer, so \<open>blkdev_write\<close> copies
  \<open>BLOCK_SIZE\<close> bytes out of an object of \<open>sizeof(superblock_t)\<close> bytes.
\<close>

definition blkdev_write_superblock :: "u64 \<Rightarrow> block_device \<Rightarrow> (int \<times> block_device) option" where
  "blkdev_write_superblock now dev =
     (case bd_superblock dev of
        None \<Rightarrow> Some (- EINVAL, dev)
      | Some sb \<Rightarrow> do {
          let sb = sb\<lparr>sb_write_time := now\<rparr>;
          let dev = dev\<lparr>bd_superblock := Some sb\<rparr>;
          buf \<leftarrow> buf_read (encode_superblock sb) 0 BLOCK_SIZE;
          (ret, dev) \<leftarrow> blkdev_write dev SUPERBLOCK_BLOCK buf;
          (if ret < 0 then Some (ret, dev) else blkdev_sync dev) })"

text \<open>\<open>g_blkdev\<close> is the device set by \<open>blkdev_set_global\<close>, if any.\<close>

definition c_buffer_cache_invalidate_by_fd :: "block_device option \<Rightarrow> u32 \<Rightarrow> block_device option option" where
  "c_buffer_cache_invalidate_by_fd g_blkdev block =
     (case g_blkdev of None \<Rightarrow> Some None
      | Some dev \<Rightarrow> do {
          c \<leftarrow> buffer_cache_invalidate (bd_cache dev) block;
          Some (Some (dev\<lparr>bd_cache := c\<rparr>)) })"

end
