(* ===== verification/Buffer_Cache_Inv.thy ===== *)
theory Buffer_Cache_Inv
  imports Buffer_Cache
begin

text \<open>
  The representation invariant of the buffer cache: the LRU list and the hash chains thread
  exactly the live buffers, no two of which hold the same block.  \<open>cells\<close> abstracts the heap
  to a map from block numbers to the state of their buffer.
\<close>

section \<open>The LRU links\<close>

definition links_of :: "buffer_cache \<Rightarrow> links" where
  "links_of c =
     \<lparr>lk_next = (\<lambda>a. Option.bind (bc_heap c a) bh_next), lk_prev = prev_of c,
      lk_head = bc_lru_head c, lk_tail = bc_lru_tail c\<rparr>"

definition unlinked :: "buffer_head \<Rightarrow> buffer_head" where
  "unlinked b = b\<lparr>bh_next := None, bh_prev := None\<rparr>"

lemma unlinked_eqD:
  assumes "unlinked b = unlinked b'"
  shows "bh_block_num b = bh_block_num b'" "bh_data b = bh_data b'" "bh_dirty b = bh_dirty b'"
    "bh_valid b = bh_valid b'" "bh_ref_count b = bh_ref_count b'" "bh_hash_next b = bh_hash_next b'"
  using assms by (cases b; cases b'; simp add: unlinked_def)+

definition sans_links :: "buffer_cache \<Rightarrow> buffer_cache" where
  "sans_links c = c\<lparr>bc_heap := (\<lambda>_. None), bc_lru_head := None, bc_lru_tail := None\<rparr>"

definition lru_frame :: "buffer_cache \<Rightarrow> buffer_cache \<Rightarrow> bool" where
  "lru_frame c d \<longleftrightarrow> sans_links d = sans_links c \<and>
     (\<forall>a. map_option unlinked (bc_heap d a) = map_option unlinked (bc_heap c a))"

lemma lru_frame_refl [simp]: "lru_frame c c"
  by (simp add: lru_frame_def)

lemma lru_frame_trans: "lru_frame c d \<Longrightarrow> lru_frame d e \<Longrightarrow> lru_frame c e"
  by (simp add: lru_frame_def)

lemma lru_frame_fields:
  assumes "lru_frame c d"
  shows "bc_brk d = bc_brk c" "bc_oom d = bc_oom c" "bc_hash_table d = bc_hash_table c"
    "bc_hash_size d = bc_hash_size c" "bc_max_buffers d = bc_max_buffers c"
    "bc_current_buffers d = bc_current_buffers c" "bc_hit_count d = bc_hit_count c"
    "bc_miss_count d = bc_miss_count c" "bc_evict_count d = bc_evict_count c"
  using assms by (cases c; cases d; simp add: lru_frame_def sans_links_def)+

lemma lru_frame_dom:
  assumes "lru_frame c d"
  shows "dom (bc_heap d) = dom (bc_heap c)"
proof -
  have "bc_heap d a = None \<longleftrightarrow> bc_heap c a = None" for a
    using assms by (metis lru_frame_def option.map_disc_iff)
  then show ?thesis by (auto simp: dom_def)
qed

lemma lru_frame_heap:
  assumes "lru_frame c d" "bc_heap c a = Some b"
  shows "\<exists>b'. bc_heap d a = Some b' \<and> unlinked b' = unlinked b"
proof -
  have "map_option unlinked (bc_heap d a) = Some (unlinked b)"
    using assms by (simp add: lru_frame_def)
  then show ?thesis by auto
qed

lemma lru_remove_sim:
  assumes "a \<in> dom (bc_heap c)"
    and "set_option (lk_prev (links_of c) a) \<subseteq> dom (bc_heap c) - {a}"
    and "set_option (lk_next (links_of c) a) \<subseteq> dom (bc_heap c) - {a}"
  shows "\<exists>d. lru_remove c a = Some d \<and> links_of d = links_remove (links_of c) a \<and> lru_frame c d"
proof -
  from assms(1) obtain b where b: "bc_heap c a = Some b" by auto
  have P: "\<exists>x. bc_heap c q = Some x" "q \<noteq> a" if "bh_prev b = Some q" for q
    using assms(2) b that by (auto simp: links_of_def prev_of_def)
  have N: "\<exists>x. bc_heap c q = Some x" "q \<noteq> a" if "bh_next b = Some q" for q
    using assms(3) b that by (auto simp: links_of_def prev_of_def)
  show ?thesis
    using b P N
    by (cases "bh_prev b"; cases "bh_next b")
       (force simp: lru_remove_def bh_modify_def links_remove_def links_of_def prev_of_def Let_def
         lru_frame_def sans_links_def unlinked_def fun_eq_iff split: option.splits)+
qed

lemma lru_add_to_head_sim:
  assumes "a \<in> dom (bc_heap c)"
    and "set_option (lk_head (links_of c)) \<subseteq> dom (bc_heap c) - {a}"
  shows "\<exists>d. lru_add_to_head c a = Some d \<and> links_of d = links_push (links_of c) a \<and> lru_frame c d"
proof -
  from assms(1) obtain b where b: "bc_heap c a = Some b" by auto
  have H: "\<exists>x. bc_heap c q = Some x" "q \<noteq> a" if "bc_lru_head c = Some q" for q
    using assms(2) that by (auto simp: links_of_def)
  show ?thesis
    using b H
    by (cases "bc_lru_head c")
       (force simp: lru_add_to_head_def bh_modify_def links_push_def links_of_def prev_of_def Let_def
         lru_frame_def sans_links_def unlinked_def fun_eq_iff split: option.splits)+
qed

interpretation bc_lru: lru_store links_of "\<lambda>c. dom (bc_heap c)" lru_frame lru_remove lru_add_to_head
  by unfold_locales
     (blast intro: lru_frame_trans lru_remove_sim lru_add_to_head_sim dest: lru_frame_dom)+

lemma lru_move_to_head_dll:
  assumes "dll (links_of c) xs" "set xs \<subseteq> dom (bc_heap c)" "a \<in> set xs"
  shows "\<exists>d. lru_move_to_head c a = Some d \<and> dll (links_of d) (a # remove1 a xs) \<and> lru_frame c d"
proof (cases "bc_lru_head c = Some a")
  case True
  with assms obtain ys where "xs = a # ys"
    by (cases xs) (auto simp: dll_def links_of_def)
  with True assms show ?thesis by (simp add: lru_move_to_head_def)
next
  case False
  from bc_lru.move_dll [OF assms] obtain d e where
    "lru_remove c a = Some d" "lru_add_to_head d a = Some e"
    "dll (links_of e) (a # remove1 a xs)" "lru_frame c e" by blast
  with False show ?thesis by (simp add: lru_move_to_head_def)
qed

section \<open>The representation invariant\<close>

definition blk :: "buffer_cache \<Rightarrow> addr \<Rightarrow> block_t" where
  "blk c a = (case bc_heap c a of Some b \<Rightarrow> bh_block_num b | None \<Rightarrow> 0)"

definition bucket_of :: "buffer_cache \<Rightarrow> addr \<Rightarrow> nat" where
  "bucket_of c a = hash_block (blk c a) (bc_hash_size c)"

definition hashed :: "buffer_cache \<Rightarrow> addr set \<Rightarrow> bool" where
  "hashed c S \<longleftrightarrow> hash_ok (bc_hash_table c) (hash_next_of c) (bucket_of c) S \<and>
     length (bc_hash_table c) = unat (bc_hash_size c) \<and> 0 < bc_hash_size c"

definition heap_ok :: "buffer_cache \<Rightarrow> bool" where
  "heap_ok c \<longleftrightarrow> inj_on (blk c) (dom (bc_heap c)) \<and>
     (\<forall>a b. bc_heap c a = Some b \<longrightarrow> length (bh_data b) = BLOCK_SIZE \<and> a < bc_brk c)"

definition sized :: "buffer_cache \<Rightarrow> bool" where
  "sized c \<longleftrightarrow> unat (bc_current_buffers c) = card (dom (bc_heap c)) \<and>
     bc_current_buffers c \<le> bc_max_buffers c"

text \<open>\<open>shape c xs\<close>: a well-formed cache whose buffers are \<open>xs\<close>, most recently used first.\<close>

definition shape :: "buffer_cache \<Rightarrow> addr list \<Rightarrow> bool" where
  "shape c xs \<longleftrightarrow> dll (links_of c) xs \<and> set xs = dom (bc_heap c) \<and> hashed c (dom (bc_heap c)) \<and>
     heap_ok c \<and> sized c"

definition cache_wf :: "buffer_cache \<Rightarrow> bool" where
  "cache_wf c \<longleftrightarrow> (\<exists>xs. shape c xs)"

lemma shapeD:
  assumes "shape c xs"
  shows "dll (links_of c) xs" "set xs = dom (bc_heap c)" "hashed c (dom (bc_heap c))"
    "heap_ok c" "sized c" "cache_wf c"
  using assms by (auto simp: shape_def cache_wf_def)

lemma shape_unique: "shape c xs \<Longrightarrow> shape c ys \<Longrightarrow> xs = ys"
  by (blast dest: shapeD intro: dll_unique)

lemma shape_blk_inj:
  "shape c xs \<Longrightarrow> bc_heap c a = Some b \<Longrightarrow> bc_heap c a' = Some b' \<Longrightarrow>
   bh_block_num b = bh_block_num b' \<Longrightarrow> a = a'"
  by (auto simp: shape_def heap_ok_def blk_def inj_on_def dom_def)

text \<open>Updates that leave links, chains and block numbers alone keep the shape.\<close>

definition data_update :: "(buffer_head \<Rightarrow> buffer_head) \<Rightarrow> bool" where
  "data_update f \<longleftrightarrow> (\<forall>b. bh_block_num (f b) = bh_block_num b \<and> bh_next (f b) = bh_next b \<and>
     bh_prev (f b) = bh_prev b \<and> bh_hash_next (f b) = bh_hash_next b \<and>
     (length (bh_data b) = BLOCK_SIZE \<longrightarrow> length (bh_data (f b)) = BLOCK_SIZE))"

lemma data_updateI [intro?]:
  "(\<And>b. bh_block_num (f b) = bh_block_num b) \<Longrightarrow> (\<And>b. bh_next (f b) = bh_next b) \<Longrightarrow>
   (\<And>b. bh_prev (f b) = bh_prev b) \<Longrightarrow> (\<And>b. bh_hash_next (f b) = bh_hash_next b) \<Longrightarrow>
   (\<And>b. length (bh_data b) = BLOCK_SIZE \<Longrightarrow> length (bh_data (f b)) = BLOCK_SIZE) \<Longrightarrow> data_update f"
  by (simp add: data_update_def)

lemma shape_modify:
  assumes "shape c xs" "bc_heap c a = Some b" "data_update f"
  shows "shape (c\<lparr>bc_heap := (bc_heap c)(a := Some (f b))\<rparr>) xs"
proof -
  let ?d = "c\<lparr>bc_heap := (bc_heap c)(a := Some (f b))\<rparr>"
  have l: "links_of ?d = links_of c"
    using assms(2,3) by (auto simp: links_of_def prev_of_def data_update_def fun_eq_iff)
  have n: "hash_next_of ?d = hash_next_of c" "blk ?d = blk c"
    using assms(2,3) by (auto simp: hash_next_of_def blk_def data_update_def fun_eq_iff)
  then have h: "bucket_of ?d = bucket_of c" by (simp add: bucket_of_def fun_eq_iff)
  have d: "dom (bc_heap ?d) = dom (bc_heap c)" using assms(2) by auto
  show ?thesis
    using assms l n h d
    by (auto simp: shape_def hashed_def heap_ok_def sized_def data_update_def)
qed

lemma bh_modify_shape:
  assumes "shape c xs" "bc_heap c a = Some b" "data_update f"
  shows "\<exists>d. bh_modify c a f = Some d \<and> shape d xs \<and> d = c\<lparr>bc_heap := (bc_heap c)(a := Some (f b))\<rparr>"
  using shape_modify [OF assms] assms(2) by (simp add: bh_modify_def)

text \<open>Updates of the LRU links only.\<close>

lemma lru_frame_cases:
  assumes "lru_frame c d"
  obtains "bc_heap c a = None" "bc_heap d a = None"
  | b b' where "bc_heap c a = Some b" "bc_heap d a = Some b'" "unlinked b' = unlinked b"
proof (cases "bc_heap c a")
  case None
  moreover have "bc_heap d a = None" using None lru_frame_dom [OF assms] by (metis domIff)
  ultimately show ?thesis using that by blast
next
  case (Some b)
  then show ?thesis using lru_frame_heap [OF assms Some] that by blast
qed

lemma lru_frame_views:
  assumes "lru_frame c d"
  shows "blk d = blk c" "hash_next_of d = hash_next_of c" "bucket_of d = bucket_of c"
proof -
  show *: "blk d = blk c"
  proof
    fix a
    show "blk d a = blk c a"
      by (rule lru_frame_cases [OF assms, of a]) (auto simp: blk_def dest: unlinked_eqD)
  qed
  show "hash_next_of d = hash_next_of c"
  proof
    fix a
    show "hash_next_of d a = hash_next_of c a"
      by (rule lru_frame_cases [OF assms, of a]) (auto simp: hash_next_of_def dest: unlinked_eqD)
  qed
  show "bucket_of d = bucket_of c"
    using * lru_frame_fields [OF assms] by (simp add: bucket_of_def fun_eq_iff)
qed

lemma lru_frame_heap_ok:
  assumes "lru_frame c d" "heap_ok c"
  shows "heap_ok d"
proof -
  have "length (bh_data b') = BLOCK_SIZE \<and> a < bc_brk d" if b': "bc_heap d a = Some b'" for a b'
  proof -
    obtain b where b: "bc_heap c a = Some b" "unlinked b' = unlinked b"
      by (rule lru_frame_cases [OF assms(1), of a]) (use b' in auto)
    then have "bh_data b' = bh_data b" by (auto dest: unlinked_eqD)
    with b assms lru_frame_fields [OF assms(1)] show ?thesis by (simp add: heap_ok_def)
  qed
  then show ?thesis
    using assms lru_frame_dom [OF assms(1)] lru_frame_views [OF assms(1)]
    by (auto simp: heap_ok_def)
qed

lemma shape_frame:
  assumes "shape c xs" "lru_frame c d" "dll (links_of d) ys" "set ys = set xs"
  shows "shape d ys"
  using assms lru_frame_dom [OF assms(2)] lru_frame_fields [OF assms(2)] lru_frame_views [OF assms(2)]
    lru_frame_heap_ok [OF assms(2)]
  by (auto simp: shape_def hashed_def sized_def)

section \<open>Lookup in the hash table\<close>

lemma hash_block_less: "0 < n \<Longrightarrow> hash_block b n < unat n"
  by (simp add: hash_block_def unat_mod word_gt_0 unat_gt_0)

lemma hash_lookup_shape:
  assumes "shape c xs"
  shows "\<exists>r. hash_lookup c block = Some r \<and>
    (case r of None \<Rightarrow> \<forall>a b. bc_heap c a = Some b \<longrightarrow> bh_block_num b \<noteq> block
     | Some a \<Rightarrow> \<exists>b. bc_heap c a = Some b \<and> bh_block_num b = block)"
proof -
  let ?h = "hash_block block (bc_hash_size c)"
  let ?stop = "\<lambda>a. map_option (\<lambda>b. bh_block_num b = block) (bc_heap c a)"
  from shapeD(3) [OF assms] have ok: "hash_ok (bc_hash_table c) (hash_next_of c) (bucket_of c) (dom (bc_heap c))"
    and h: "?h < length (bc_hash_table c)"
    by (auto simp: hashed_def hash_block_less)
  have "\<exists>r. ptr_find ?stop (hash_next_of c) (bc_hash_table c ! ?h) = Some r \<and>
     (case r of None \<Rightarrow> \<forall>a \<in> dom (bc_heap c). bucket_of c a = ?h \<longrightarrow> \<not> blk c a = block
      | Some a \<Rightarrow> a \<in> dom (bc_heap c) \<and> bucket_of c a = ?h \<and> blk c a = block)"
    by (rule hash_ok_find [OF ok h]) (auto simp: blk_def)
  then obtain r where r: "ptr_find ?stop (hash_next_of c) (bc_hash_table c ! ?h) = Some r"
    "case r of None \<Rightarrow> \<forall>a \<in> dom (bc_heap c). bucket_of c a = ?h \<longrightarrow> \<not> blk c a = block
      | Some a \<Rightarrow> a \<in> dom (bc_heap c) \<and> bucket_of c a = ?h \<and> blk c a = block" by blast
  have "hash_lookup c block = Some r"
    using r(1) h by (simp add: hash_lookup_def load_bucket_def)
  moreover have "case r of None \<Rightarrow> \<forall>a b. bc_heap c a = Some b \<longrightarrow> bh_block_num b \<noteq> block
     | Some a \<Rightarrow> \<exists>b. bc_heap c a = Some b \<and> bh_block_num b = block"
    using r(2) by (auto simp: blk_def bucket_of_def dom_def split: option.splits)
  ultimately show ?thesis by blast
qed

lemma hash_lookup_hit:
  "shape c xs \<Longrightarrow> bc_heap c a = Some b \<Longrightarrow> hash_lookup c (bh_block_num b) = Some (Some a)"
  using hash_lookup_shape [of c xs "bh_block_num b"] shape_blk_inj [of c xs]
  by (auto split: option.splits)

lemma hash_lookup_miss:
  "shape c xs \<Longrightarrow> (\<And>a b. bc_heap c a = Some b \<Longrightarrow> bh_block_num b \<noteq> block) \<Longrightarrow>
   hash_lookup c block = Some None"
  using hash_lookup_shape [of c xs block] by (auto split: option.splits)

end
