(* ===== verification/Buffer_Cache_Spec.thy ===== *)
theory Buffer_Cache_Spec
  imports Buffer_Cache_Inv
begin

text \<open>
  What the buffer cache promises.  Its abstract state is the list of cached block numbers,
  most recently used first (\<open>cache_repr\<close>), and the map \<open>cells\<close> from block numbers to data
  and flags.  Each operation of \<open>buffer_cache.c\<close> is shown to be memory safe, to return, to
  keep the representation invariant and to act on the abstract state as stated.
\<close>

section \<open>Abstract state\<close>

record cell =
  cl_data :: "byte list"
  cl_dirty :: bool
  cl_valid :: bool
  cl_ref :: int

definition cell_of :: "buffer_head \<Rightarrow> cell" where
  "cell_of b = \<lparr>cl_data = bh_data b, cl_dirty = bh_dirty b, cl_valid = bh_valid b, cl_ref = bh_ref_count b\<rparr>"

definition cells :: "buffer_cache \<Rightarrow> block_t \<Rightarrow> cell option" where
  "cells c block =
     (case hash_lookup c block of
        Some (Some a) \<Rightarrow> map_option cell_of (bc_heap c a)
      | _ \<Rightarrow> None)"

definition cache_repr :: "buffer_cache \<Rightarrow> block_t list \<Rightarrow> bool" where
  "cache_repr c bs \<longleftrightarrow> (\<exists>xs. shape c xs \<and> bs = map (blk c) xs)"

text \<open>The address \<open>a\<close> is the buffer of \<open>block\<close>.\<close>

definition holds :: "buffer_cache \<Rightarrow> addr \<Rightarrow> block_t \<Rightarrow> bool" where
  "holds c a block \<longleftrightarrow> (\<exists>b. bc_heap c a = Some b \<and> bh_block_num b = block)"

text \<open>What no operation changes.\<close>

definition same_config :: "buffer_cache \<Rightarrow> buffer_cache \<Rightarrow> bool" where
  "same_config c d \<longleftrightarrow> bc_max_buffers d = bc_max_buffers c \<and> bc_oom d = bc_oom c \<and>
     bc_hash_size d = bc_hash_size c"

lemma same_config_refl [simp]: "same_config c c"
  by (simp add: same_config_def)

lemma same_config_trans: "same_config c d \<Longrightarrow> same_config d e \<Longrightarrow> same_config c e"
  by (simp add: same_config_def)

lemma cache_repr_wf: "cache_repr c bs \<Longrightarrow> cache_wf c"
  by (auto simp: cache_repr_def cache_wf_def)

lemma cache_wf_repr: "cache_wf c \<Longrightarrow> \<exists>bs. cache_repr c bs"
  by (auto simp: cache_repr_def cache_wf_def)

lemma cache_wf_shape: "cache_wf c \<Longrightarrow> (\<And>xs. shape c xs \<Longrightarrow> P) \<Longrightarrow> P"
  by (auto simp: cache_wf_def)

lemma cells_hit: "cache_wf c \<Longrightarrow> bc_heap c a = Some b \<Longrightarrow> cells c (bh_block_num b) = Some (cell_of b)"
  by (erule cache_wf_shape) (simp add: cells_def hash_lookup_hit)

lemma cells_SomeD:
  assumes "cache_wf c" "cells c block = Some x"
  obtains a b where "bc_heap c a = Some b" "bh_block_num b = block" "x = cell_of b"
    "hash_lookup c block = Some (Some a)"
proof -
  from assms(1) obtain xs where xs: "shape c xs" by (auto simp: cache_wf_def)
  then obtain a b where "bc_heap c a = Some b" "x = cell_of b" "bh_block_num b = block"
    using hash_lookup_shape [OF xs, of block] assms(2)
    by (auto simp: cells_def split: option.splits)
  moreover from this have "hash_lookup c block = Some (Some a)"
    using hash_lookup_hit [OF xs, of a b] by simp
  ultimately show ?thesis using that by blast
qed

lemma cells_NoneD:
  assumes "cache_wf c" "cells c block = None"
  shows "hash_lookup c block = Some None" "bc_heap c a = Some b \<Longrightarrow> bh_block_num b \<noteq> block"
proof -
  from assms(1) obtain xs where xs: "shape c xs" by (auto simp: cache_wf_def)
  show *: "bh_block_num b \<noteq> block" if "bc_heap c a = Some b" for a b
    using cells_hit [OF assms(1) that] assms(2) by auto
  show "hash_lookup c block = Some None"
    by (rule hash_lookup_miss [OF xs]) (rule *)
qed

lemma cells_length:
  assumes "cache_wf c" "cells c block = Some x"
  shows "length (cl_data x) = BLOCK_SIZE"
proof -
  obtain a b where "bc_heap c a = Some b" "x = cell_of b"
    using assms by (auto elim: cells_SomeD)
  moreover obtain xs where "shape c xs" using assms(1) by (auto simp: cache_wf_def)
  ultimately show ?thesis by (auto simp: shape_def heap_ok_def cell_of_def)
qed

lemma cells_eqI:
  assumes "cache_wf c"
    and "\<And>a b. bc_heap c a = Some b \<Longrightarrow> m (bh_block_num b) = Some (cell_of b)"
    and "\<And>block. (\<And>a b. bc_heap c a = Some b \<Longrightarrow> bh_block_num b \<noteq> block) \<Longrightarrow> m block = None"
  shows "cells c = m"
proof
  fix block
  show "cells c block = m block"
  proof (cases "cells c block")
    case None
    then have "m block = None" using assms(3) cells_NoneD(2) [OF assms(1) None] by blast
    with None show ?thesis by simp
  next
    case (Some x)
    then obtain a b where "bc_heap c a = Some b" "bh_block_num b = block" "x = cell_of b"
      by (rule cells_SomeD [OF assms(1)])
    with assms(2) Some show ?thesis by auto
  qed
qed

lemma cells_frame:
  assumes "lru_frame c d" "cache_wf c" "cache_wf d"
  shows "cells d = cells c"
proof (rule cells_eqI [OF assms(3)])
  fix a b assume b: "bc_heap d a = Some b"
  then obtain b' where b': "bc_heap c a = Some b'" "unlinked b = unlinked b'"
    by (auto intro: lru_frame_cases [OF assms(1), of a])
  then have "cells c (bh_block_num b') = Some (cell_of b')"
    using cells_hit [OF assms(2)] by simp
  then show "cells c (bh_block_num b) = Some (cell_of b)"
    using unlinked_eqD [OF b'(2)] by (simp add: cell_of_def)
next
  fix block assume n: "\<And>a b. bc_heap d a = Some b \<Longrightarrow> bh_block_num b \<noteq> block"
  show "cells c block = None"
  proof (rule ccontr)
    assume "cells c block \<noteq> None"
    then obtain a b where "bc_heap c a = Some b" "bh_block_num b = block"
      by (auto elim: cells_SomeD [OF assms(2)])
    then obtain b' where "bc_heap d a = Some b'" "unlinked b' = unlinked b"
      using lru_frame_heap [OF assms(1)] by blast
    with n [of a b'] unlinked_eqD show False using \<open>bh_block_num b = block\<close> by metis
  qed
qed

section \<open>Writing through a handle\<close>

lemma bh_modify_repr:
  assumes "cache_repr c bs" "holds c a block" "data_update f" "\<And>b. cell_of (f b) = g (cell_of b)"
  shows "\<exists>d x. bh_modify c a f = Some d \<and> cache_repr d bs \<and> holds d a block \<and> same_config c d \<and>
     cells c block = Some x \<and> cells d = (cells c)(block \<mapsto> g x)"
proof -
  from assms(1) obtain xs where xs: "shape c xs" "bs = map (blk c) xs" by (auto simp: cache_repr_def)
  from assms(2) obtain b where b: "bc_heap c a = Some b" "bh_block_num b = block" by (auto simp: holds_def)
  let ?d = "c\<lparr>bc_heap := (bc_heap c)(a := Some (f b))\<rparr>"
  have s: "shape ?d xs" using xs(1) b(1) assms(3) by (rule shape_modify)
  have w: "cache_wf c" "cache_wf ?d" using xs(1) s by (auto simp: cache_wf_def)
  have fb: "bh_block_num (f b) = block" using assms(3) b by (simp add: data_update_def)
  have x: "cells c block = Some (cell_of b)" using cells_hit [OF w(1) b(1)] b by simp
  have cl: "cells ?d = (cells c)(block \<mapsto> g (cell_of b))"
  proof (rule cells_eqI [OF w(2)])
    fix a' b' assume h: "bc_heap ?d a' = Some b'"
    show "((cells c)(block \<mapsto> g (cell_of b))) (bh_block_num b') = Some (cell_of b')"
    proof (cases "a' = a")
      case True
      with h fb assms(4) show ?thesis by auto
    next
      case False
      with h have h': "bc_heap c a' = Some b'" by simp
      with False b shape_blk_inj [OF xs(1), of a' b' a b] have "bh_block_num b' \<noteq> block" by auto
      with cells_hit [OF w(1) h'] show ?thesis by simp
    qed
  next
    fix bl assume n: "\<And>a b'. bc_heap ?d a = Some b' \<Longrightarrow> bh_block_num b' \<noteq> bl"
    have "bl \<noteq> block" using n [of a "f b"] fb by simp
    moreover have "cells c bl = None"
    proof (rule ccontr)
      assume "cells c bl \<noteq> None"
      then obtain a' b' where "bc_heap c a' = Some b'" "bh_block_num b' = bl"
        by (auto elim: cells_SomeD [OF w(1)])
      with n [of a' b'] b \<open>bl \<noteq> block\<close> show False by (cases "a' = a") auto
    qed
    ultimately show "((cells c)(block \<mapsto> g (cell_of b))) bl = None" by simp
  qed
  have "blk ?d = blk c" using b fb by (auto simp: blk_def fun_eq_iff)
  then have "cache_repr ?d bs" using s xs(2) by (auto simp: cache_repr_def)
  moreover have "holds ?d a block" using fb by (simp add: holds_def)
  ultimately show ?thesis using b x cl by (simp add: bh_modify_def same_config_def)
qed

lemma data_updates [simp, intro]:
  "data_update (\<lambda>b. b\<lparr>bh_ref_count := bh_ref_count b + n\<rparr>)"
  "data_update (\<lambda>b. b\<lparr>bh_ref_count := bh_ref_count b - n\<rparr>)"
  "data_update (bh_dirty_update (\<lambda>_. v))"
  "data_update (\<lambda>b. b\<lparr>bh_valid := u, bh_dirty := v\<rparr>)"
  "length data = BLOCK_SIZE \<Longrightarrow> data_update (\<lambda>b. b\<lparr>bh_data := data, bh_valid := True\<rparr>)"
  "length data = BLOCK_SIZE \<Longrightarrow> data_update (bh_data_update (\<lambda>_. data))"
  by (simp_all add: data_update_def)

lemma buffer_head_put_repr:
  assumes "cache_repr c bs" "holds c a block"
  shows "\<exists>d x. buffer_head_put c a = Some d \<and> cache_repr d bs \<and> holds d a block \<and> same_config c d \<and>
     cells c block = Some x \<and> cells d = (cells c)(block \<mapsto> x\<lparr>cl_ref := cl_ref x - 1\<rparr>)"
  unfolding buffer_head_put_def
  by (rule bh_modify_repr [OF assms, where g = "\<lambda>x. x\<lparr>cl_ref := cl_ref x - 1\<rparr>"]) (auto simp: cell_of_def)

lemma buffer_head_get_repr:
  assumes "cache_repr c bs" "holds c a block"
  shows "\<exists>d x. buffer_head_get c a = Some d \<and> cache_repr d bs \<and> holds d a block \<and> same_config c d \<and>
     cells c block = Some x \<and> cells d = (cells c)(block \<mapsto> x\<lparr>cl_ref := cl_ref x + 1\<rparr>)"
  unfolding buffer_head_get_def
  by (rule bh_modify_repr [OF assms, where g = "\<lambda>x. x\<lparr>cl_ref := cl_ref x + 1\<rparr>"]) (auto simp: cell_of_def)

lemma buffer_head_mark_dirty_repr:
  assumes "cache_repr c bs" "holds c a block"
  shows "\<exists>d x. buffer_head_mark_dirty c a = Some d \<and> cache_repr d bs \<and> holds d a block \<and> same_config c d \<and>
     cells c block = Some x \<and> cells d = (cells c)(block \<mapsto> x\<lparr>cl_dirty := True\<rparr>)"
  unfolding buffer_head_mark_dirty_def
  by (rule bh_modify_repr [OF assms, where g = "\<lambda>x. x\<lparr>cl_dirty := True\<rparr>"]) (auto simp: cell_of_def)

section \<open>Moving to the front\<close>

lemma map_remove1_inj:
  "inj_on f (set xs) \<Longrightarrow> a \<in> set xs \<Longrightarrow> map f (remove1 a xs) = remove1 (f a) (map f xs)"
  by (induction xs) (auto simp: inj_on_def)

lemma lru_move_to_head_repr:
  assumes "cache_repr c bs" "holds c a block"
  shows "\<exists>d. lru_move_to_head c a = Some d \<and> cache_repr d (block # remove1 block bs) \<and>
     holds d a block \<and> same_config c d \<and> cells d = cells c"
proof -
  from assms(1) obtain xs where xs: "shape c xs" "bs = map (blk c) xs" by (auto simp: cache_repr_def)
  from assms(2) obtain b where b: "bc_heap c a = Some b" "bh_block_num b = block" by (auto simp: holds_def)
  have a: "a \<in> set xs" using shapeD(2) [OF xs(1)] b by auto
  obtain d where d: "lru_move_to_head c a = Some d" "dll (links_of d) (a # remove1 a xs)" "lru_frame c d"
    using lru_move_to_head_dll [of c xs a] shapeD(1,2) [OF xs(1)] a by auto
  have "set (a # remove1 a xs) = set xs" using a dll_distinct [OF shapeD(1) [OF xs(1)]] by auto
  then have s: "shape d (a # remove1 a xs)" by (rule shape_frame [OF xs(1) d(3,2)])
  have "inj_on (blk c) (set xs)" using xs(1) by (simp add: shape_def heap_ok_def)
  then have "map (blk d) (a # remove1 a xs) = block # remove1 block bs"
    using lru_frame_views(1) [OF d(3)] a b xs(2) by (simp add: map_remove1_inj blk_def)
  then have "cache_repr d (block # remove1 block bs)"
    unfolding cache_repr_def using s by (intro exI [of _ "a # remove1 a xs"]) simp
  moreover have "cells d = cells c"
    by (rule cells_frame [OF d(3)]) (use xs(1) s in \<open>auto simp: cache_wf_def\<close>)
  moreover have "holds d a block"
  proof -
    from lru_frame_heap [OF d(3) b(1)] obtain b' where b': "bc_heap d a = Some b'" "unlinked b' = unlinked b"
      by blast
    then show ?thesis using b(2) unlinked_eqD(1) [OF b'(2)] by (simp add: holds_def)
  qed
  ultimately show ?thesis using d lru_frame_fields [OF d(3)] by (simp add: same_config_def)
qed

section \<open>Lookup\<close>

lemma counters_repr:
  "cache_repr (c\<lparr>bc_hit_count := h\<rparr>) bs = cache_repr c bs"
  "cache_repr (c\<lparr>bc_miss_count := h\<rparr>) bs = cache_repr c bs"
  "cells (c\<lparr>bc_hit_count := h\<rparr>) = cells c"
  "cells (c\<lparr>bc_miss_count := h\<rparr>) = cells c"
proof -
  have "shape (c\<lparr>bc_hit_count := h\<rparr>) xs = shape c xs" "shape (c\<lparr>bc_miss_count := h\<rparr>) xs = shape c xs" for xs
    by (simp_all add: shape_def links_of_def prev_of_def [abs_def] hashed_def hash_next_of_def [abs_def]
        bucket_of_def [abs_def] heap_ok_def sized_def blk_def [abs_def])
  then show "cache_repr (c\<lparr>bc_hit_count := h\<rparr>) bs = cache_repr c bs"
    "cache_repr (c\<lparr>bc_miss_count := h\<rparr>) bs = cache_repr c bs"
    by (simp_all add: cache_repr_def blk_def [abs_def])
  show "cells (c\<lparr>bc_hit_count := h\<rparr>) = cells c" "cells (c\<lparr>bc_miss_count := h\<rparr>) = cells c"
    by (simp_all add: cells_def fun_eq_iff hash_lookup_def load_bucket_def hash_next_of_def [abs_def]
      split: option.splits)
qed

lemma hash_lookup_cells:
  assumes "cache_repr c bs"
  shows "(case cells c block of None \<Rightarrow> hash_lookup c block = Some None
    | Some x \<Rightarrow> \<exists>a. hash_lookup c block = Some (Some a) \<and> holds c a block)"
proof (cases "cells c block")
  case None
  with cells_NoneD(1) [OF cache_repr_wf [OF assms]] show ?thesis by simp
next
  case (Some x)
  then obtain a b where "bc_heap c a = Some b" "bh_block_num b = block" "hash_lookup c block = Some (Some a)"
    by (rule cells_SomeD [OF cache_repr_wf [OF assms]])
  then show ?thesis using Some by (simp add: holds_def)
qed

lemma buffer_cache_lookup_hit:
  assumes "cache_repr c bs" "cells c block = Some x"
  shows "\<exists>a d. buffer_cache_lookup c block = Some (Some a, d) \<and>
     cache_repr d (block # remove1 block bs) \<and> holds d a block \<and> same_config c d \<and>
     cells d = (cells c)(block \<mapsto> x\<lparr>cl_ref := cl_ref x + 1\<rparr>)"
proof -
  from hash_lookup_cells [OF assms(1), of block] assms(2) obtain a where
    a: "hash_lookup c block = Some (Some a)" "holds c a block" by auto
  from buffer_head_get_repr [OF assms(1) a(2)] assms(2) obtain d where
    d: "buffer_head_get c a = Some d" "cache_repr d bs" "holds d a block" "same_config c d"
      "cells d = (cells c)(block \<mapsto> x\<lparr>cl_ref := cl_ref x + 1\<rparr>)" by auto
  from lru_move_to_head_repr [OF d(2,3)] obtain e where
    e: "lru_move_to_head d a = Some e" "cache_repr e (block # remove1 block bs)" "holds e a block"
      "same_config d e" "cells e = cells d" by blast
  then show ?thesis using a d
    by (auto simp: buffer_cache_lookup_def buffer_head_get_def counters_repr holds_def same_config_def)
qed

lemma buffer_cache_lookup_miss:
  assumes "cache_repr c bs" "cells c block = None"
  shows "buffer_cache_lookup c block = Some (None, c\<lparr>bc_miss_count := bc_miss_count c + 1\<rparr>)"
  using hash_lookup_cells [OF assms(1), of block] assms(2) by (simp add: buffer_cache_lookup_def)

section \<open>Invalidation\<close>

lemma buffer_cache_invalidate_repr:
  assumes "cache_repr c bs"
  shows "\<exists>d. buffer_cache_invalidate c block = Some d \<and> cache_repr d bs \<and> same_config c d \<and>
     cells d = (cells c)(block := map_option (\<lambda>x. x\<lparr>cl_valid := False, cl_dirty := False\<rparr>) (cells c block))"
proof (cases "cells c block")
  case None
  then show ?thesis using hash_lookup_cells [OF assms, of block] assms
    by (auto simp: buffer_cache_invalidate_def fun_upd_idem)
next
  case (Some x)
  with hash_lookup_cells [OF assms, of block] obtain a where
    a: "hash_lookup c block = Some (Some a)" "holds c a block" by auto
  have "\<exists>d x. bh_modify c a (\<lambda>b. b\<lparr>bh_valid := False, bh_dirty := False\<rparr>) = Some d \<and> cache_repr d bs \<and>
     holds d a block \<and> same_config c d \<and> cells c block = Some x \<and>
     cells d = (cells c)(block \<mapsto> x\<lparr>cl_valid := False, cl_dirty := False\<rparr>)"
    by (rule bh_modify_repr [OF assms a(2)]) (auto simp: cell_of_def)
  then show ?thesis using a(1) Some by (auto simp: buffer_cache_invalidate_def)
qed

end
