(* ===== verification/Buffer_Cache_Ops.thy ===== *)
theory Buffer_Cache_Ops
  imports Buffer_Cache_Spec
begin

text \<open>
  The operations that change which blocks are cached: insertion, eviction, initialisation, and
  the write-back of dirty buffers.
\<close>

section \<open>Insertion\<close>

lemma dll_cong:
  assumes "dll l xs" "lk_head m = lk_head l" "lk_tail m = lk_tail l"
    and "\<And>a. a \<in> set xs \<Longrightarrow> lk_next m a = lk_next l a \<and> lk_prev m a = lk_prev l a"
  shows "dll m xs"
  using assms dseg_cong [of xs m l None None] by (simp add: dll_def)

text \<open>The cache once a fresh buffer is filled and hashed, before it is put on the LRU list.\<close>

definition with_new :: "buffer_cache \<Rightarrow> block_t \<Rightarrow> byte list \<Rightarrow> buffer_cache" where
  "with_new c block data =
     (let h = hash_block block (bc_hash_size c) in
      c\<lparr>bc_brk := Suc (bc_brk c),
        bc_heap := (bc_heap c)(bc_brk c := Some
          \<lparr>bh_block_num = block, bh_data = data, bh_dirty = False, bh_valid = True,
           bh_ref_count = 1, bh_next = None, bh_prev = None, bh_hash_next = bc_hash_table c ! h\<rparr>),
        bc_hash_table := (bc_hash_table c)[h := Some (bc_brk c)]\<rparr>)"

lemma buffer_cache_insert_new:
  assumes "shape c xs" "hash_lookup c block = Some None" "\<not> bc_oom c"
    and "bc_current_buffers c < bc_max_buffers c"
  shows "buffer_cache_insert c block data =
     do { d \<leftarrow> lru_add_to_head (with_new c block data) (bc_brk c);
          Some (Some (bc_brk c), d\<lparr>bc_current_buffers := bc_current_buffers d + 1\<rparr>) }"
proof -
  have "hash_block block (bc_hash_size c) < length (bc_hash_table c)"
    using assms(1) by (simp add: shape_def hashed_def hash_block_less)
  moreover have "\<not> bc_max_buffers c \<le> bc_current_buffers c" using assms(4) by simp
  ultimately show ?thesis using assms
    by (simp add: buffer_cache_insert_def buffer_head_alloc_def bh_modify_def hash_insert_def
        load_bucket_def with_new_def Let_def)
qed

lemma with_new_hashed:
  assumes "shape c xs" "a = bc_brk c"
  shows "hashed (with_new c block data) (insert a (dom (bc_heap c)))"
proof -
  let ?d = "with_new c block data" and ?h = "hash_block block (bc_hash_size c)"
  have a: "a \<notin> dom (bc_heap c)" using assms by (auto simp: shape_def heap_ok_def)
  have ok: "hash_ok (bc_hash_table c) (hash_next_of c) (bucket_of c) (dom (bc_heap c))"
    and len: "length (bc_hash_table c) = unat (bc_hash_size c)" "0 < bc_hash_size c"
    using assms(1) by (auto simp: shape_def hashed_def)
  have "hash_ok ((bc_hash_table c)[?h := Some a]) (hash_next_of ?d) (bucket_of ?d) (insert a (dom (bc_heap c)))"
    by (rule hash_ok_insert [OF ok a])
       (use assms(2) len a in \<open>auto simp: hash_block_less with_new_def Let_def hash_next_of_def
          bucket_of_def blk_def\<close>)
  then show ?thesis using len assms(2) by (simp add: hashed_def with_new_def Let_def)
qed

lemma with_new_heap_ok:
  assumes "shape c xs" "hash_lookup c block = Some None" "length data = BLOCK_SIZE"
  shows "heap_ok (with_new c block data)"
proof -
  have new: "bh_block_num b \<noteq> block" if "bc_heap c a = Some b" for a b
    using hash_lookup_hit [OF assms(1) that] assms(2) by auto
  have lt: "a < bc_brk c" "length (bh_data b) = BLOCK_SIZE" if "bc_heap c a = Some b" for a b
    using that assms(1) by (auto simp: shape_def heap_ok_def)
  have "inj_on (blk (with_new c block data)) (dom (bc_heap (with_new c block data)))"
  proof (rule inj_onI)
    fix a a' assume h: "a \<in> dom (bc_heap (with_new c block data))" "a' \<in> dom (bc_heap (with_new c block data))"
      "blk (with_new c block data) a = blk (with_new c block data) a'"
    then show "a = a'"
      using new shape_blk_inj [OF assms(1)] 
      by (cases "a = bc_brk c"; cases "a' = bc_brk c")
         (fastforce simp: with_new_def Let_def blk_def dom_def)+
  qed
  then show ?thesis using lt assms(3)
    by (auto simp: heap_ok_def with_new_def Let_def less_Suc_eq)
qed

lemma buffer_cache_insert_new_shape:
  assumes s: "shape c xs" and miss: "hash_lookup c block = Some None" and oom: "\<not> bc_oom c"
    and room: "bc_current_buffers c < bc_max_buffers c" and data: "length data = BLOCK_SIZE"
  shows "\<exists>d. buffer_cache_insert c block data = Some (Some (bc_brk c), d) \<and> shape d (bc_brk c # xs) \<and>
     same_config c d \<and>
     (\<exists>e. lru_frame (with_new c block data) e \<and> d = e\<lparr>bc_current_buffers := bc_current_buffers e + 1\<rparr>)"
proof -
  let ?n = "with_new c block data" and ?a = "bc_brk c"
  have a: "?a \<notin> set xs" using s by (auto simp: shape_def heap_ok_def)
  have sx: "set xs = dom (bc_heap c)" using s by (rule shapeD)
  have dn: "dom (bc_heap ?n) = insert ?a (dom (bc_heap c))" by (simp add: with_new_def Let_def)
  have "dll (links_of ?n) xs"
    by (rule dll_cong [OF shapeD(1) [OF s]])
       (use a in \<open>auto simp: links_of_def prev_of_def with_new_def Let_def\<close>)
  then obtain e where e: "lru_add_to_head ?n ?a = Some e" "dll (links_of e) (?a # xs)" "lru_frame ?n e"
    using bc_lru.push_dll [of ?n xs ?a] sx dn a by auto
  let ?d = "e\<lparr>bc_current_buffers := bc_current_buffers e + 1\<rparr>"
  have f: "bc_current_buffers e = bc_current_buffers c" "bc_max_buffers e = bc_max_buffers c"
      "bc_oom e = bc_oom c" "bc_hash_size e = bc_hash_size c" "bc_brk e = bc_brk ?n"
    using lru_frame_fields [OF e(3)] by (simp_all add: with_new_def Let_def)
  have de: "dom (bc_heap ?d) = insert ?a (dom (bc_heap c))" using lru_frame_dom [OF e(3)] dn by simp
  have "finite (dom (bc_heap c))" using sx by (metis List.finite_set)
  then have card: "card (dom (bc_heap ?d)) = Suc (unat (bc_current_buffers c))"
    using de a sx s by (simp add: shape_def sized_def)
  have "unat (bc_current_buffers c + 1) = Suc (unat (bc_current_buffers c))"
    using room by (rule unat_plus_one_less)
  with card f room have "sized ?d" by (simp add: sized_def word_le_nat_alt word_less_nat_alt)
  moreover have "hashed ?d (dom (bc_heap ?d))"
    using with_new_hashed [OF s refl, of block data] lru_frame_views [OF e(3)] lru_frame_fields [OF e(3)] de
    by (simp add: hashed_def hash_next_of_def [abs_def] bucket_of_def [abs_def] blk_def [abs_def])
  moreover have "heap_ok ?d"
    using lru_frame_heap_ok [OF e(3) with_new_heap_ok [OF s miss data]]
    by (simp add: heap_ok_def blk_def [abs_def])
  moreover have "dll (links_of ?d) (?a # xs)" using e(2) by (simp add: links_of_def prev_of_def [abs_def])
  ultimately have "shape ?d (?a # xs)" using de sx by (simp add: shape_def)
  then show ?thesis
    using buffer_cache_insert_new [OF s miss oom room] e f by (auto simp: same_config_def)
qed

text \<open>Insertion of a block that is not cached, with room and memory for it.\<close>

lemma buffer_cache_insert_fresh:
  assumes "cache_repr c bs" "cells c block = None" "\<not> bc_oom c"
    and "length bs < unat (bc_max_buffers c)" "length data = BLOCK_SIZE"
  shows "\<exists>a d. buffer_cache_insert c block data = Some (Some a, d) \<and> cache_repr d (block # bs) \<and>
     holds d a block \<and> same_config c d \<and>
     cells d = (cells c)(block \<mapsto> \<lparr>cl_data = data, cl_dirty = False, cl_valid = True, cl_ref = 1\<rparr>)"
proof -
  let ?x = "\<lparr>cl_data = data, cl_dirty = False, cl_valid = True, cl_ref = 1\<rparr>"
  from assms(1) obtain xs where xs: "shape c xs" "bs = map (blk c) xs" by (auto simp: cache_repr_def)
  note w = cache_repr_wf [OF assms(1)]
  have miss: "hash_lookup c block = Some None" using cells_NoneD(1) [OF w assms(2)] .
  have "unat (bc_current_buffers c) = length bs"
    using xs distinct_card [OF dll_distinct [OF shapeD(1) [OF xs(1)]]] by (simp add: shape_def sized_def)
  then have "bc_current_buffers c < bc_max_buffers c" using assms(4) by (simp add: word_less_nat_alt)
  from buffer_cache_insert_new_shape [OF xs(1) miss assms(3) this assms(5)] obtain d e where
    ins: "buffer_cache_insert c block data = Some (Some (bc_brk c), d)" and s: "shape d (bc_brk c # xs)"
    and cfg: "same_config c d" and fr: "lru_frame (with_new c block data) e"
    and d: "d = e\<lparr>bc_current_buffers := bc_current_buffers e + 1\<rparr>" by blast
  have wd: "cache_wf d" using s by (auto simp: cache_wf_def)
  have brk: "a \<noteq> bc_brk c" if "bc_heap c a = Some b" for a b
    using that xs(1) by (auto simp: shape_def heap_ok_def)
  have hd: "bc_heap d a = bc_heap e a" for a by (simp add: d)
  have "cells d = (cells c)(block \<mapsto> ?x)"
  proof (rule cells_eqI [OF wd])
    fix a b assume b: "bc_heap d a = Some b"
    then obtain b' where b': "bc_heap (with_new c block data) a = Some b'" "unlinked b = unlinked b'"
      by (auto simp: hd intro: lru_frame_cases [OF fr, of a])
    note u = unlinked_eqD [OF b'(2)]
    show "((cells c)(block \<mapsto> ?x)) (bh_block_num b) = Some (cell_of b)"
    proof (cases "a = bc_brk c")
      case True
      then show ?thesis using b' u by (auto simp: with_new_def Let_def cell_of_def)
    next
      case False
      then have h: "bc_heap c a = Some b'" using b' by (simp add: with_new_def Let_def)
      with cells_NoneD(2) [OF w assms(2)] cells_hit [OF w h] u show ?thesis by (auto simp: cell_of_def)
    qed
  next
    fix bl assume n: "\<And>a b. bc_heap d a = Some b \<Longrightarrow> bh_block_num b \<noteq> bl"
    have at: "\<exists>b. bc_heap d a = Some b \<and> bh_block_num b = bh_block_num b'"
      if b': "bc_heap (with_new c block data) a = Some b'" for a b'
      using lru_frame_heap [OF fr b'] by (auto simp: hd dest: unlinked_eqD)
    have "bl \<noteq> block" using at [of "bc_brk c"] n by (fastforce simp: with_new_def Let_def)
    moreover have "cells c bl = None"
    proof (rule ccontr)
      assume "cells c bl \<noteq> None"
      then obtain a b where ab: "bc_heap c a = Some b" "bh_block_num b = bl"
        by (auto elim: cells_SomeD [OF w])
      then have "bc_heap (with_new c block data) a = Some b" using brk by (simp add: with_new_def Let_def)
      with at n ab show False by blast
    qed
    ultimately show "((cells c)(block \<mapsto> ?x)) bl = None" by simp
  qed
  moreover have bl: "blk d a = blk (with_new c block data) a" for a
    using lru_frame_views(1) [OF fr] by (simp add: d blk_def [abs_def] fun_eq_iff)
  have "blk d a = blk c a" if "a \<in> set xs" for a
    using that bl [of a] shapeD(2) [OF xs(1)] brk by (auto simp: with_new_def Let_def blk_def)
  then have "map (blk d) (bc_brk c # xs) = block # bs"
    using bl [of "bc_brk c"] xs(2) by (simp add: with_new_def Let_def blk_def)
  then have "cache_repr d (block # bs)"
    unfolding cache_repr_def using s by (intro exI [of _ "bc_brk c # xs"]) simp
  moreover have "holds d (bc_brk c) block"
    using lru_frame_heap [OF fr, of "bc_brk c"] by (auto simp: hd holds_def with_new_def Let_def dest: unlinked_eqD)
  ultimately show ?thesis using ins cfg by blast
qed

text \<open>A full cache, or one without memory, refuses the block and is unchanged.\<close>

lemma buffer_cache_insert_refused:
  assumes "cache_repr c bs" "cells c block = None"
    and "bc_oom c \<or> unat (bc_max_buffers c) \<le> length bs"
  shows "buffer_cache_insert c block data = Some (None, c)"
proof -
  from assms(1) obtain xs where xs: "shape c xs" "bs = map (blk c) xs" by (auto simp: cache_repr_def)
  have "unat (bc_current_buffers c) = length bs"
    using xs distinct_card [OF dll_distinct [OF shapeD(1) [OF xs(1)]]] by (simp add: shape_def sized_def)
  then show ?thesis
    using cells_NoneD(1) [OF cache_repr_wf [OF assms(1)] assms(2)] assms(3)
    by (auto simp: buffer_cache_insert_def buffer_head_alloc_def word_le_nat_alt)
qed

text \<open>A cached block is overwritten in place, and its dirty flag is kept.\<close>

lemma buffer_cache_insert_present:
  assumes "cache_repr c bs" "cells c block = Some x" "length data = BLOCK_SIZE"
  shows "\<exists>a d. buffer_cache_insert c block data = Some (Some a, d) \<and>
     cache_repr d (block # remove1 block bs) \<and> holds d a block \<and> same_config c d \<and>
     cells d = (cells c)(block \<mapsto> x\<lparr>cl_data := data, cl_valid := True, cl_ref := cl_ref x + 1\<rparr>)"
proof -
  from hash_lookup_cells [OF assms(1), of block] assms(2) obtain a where
    a: "hash_lookup c block = Some (Some a)" "holds c a block" by auto
  have "\<exists>d x. bh_modify c a (\<lambda>b. b\<lparr>bh_data := data, bh_valid := True\<rparr>) = Some d \<and> cache_repr d bs \<and>
     holds d a block \<and> same_config c d \<and> cells c block = Some x \<and>
     cells d = (cells c)(block \<mapsto> x\<lparr>cl_data := data, cl_valid := True\<rparr>)"
    by (rule bh_modify_repr [OF assms(1) a(2)]) (auto simp: cell_of_def assms(3))
  then obtain d where d: "bh_modify c a (\<lambda>b. b\<lparr>bh_data := data, bh_valid := True\<rparr>) = Some d"
    "cache_repr d bs" "holds d a block" "same_config c d"
    "cells d = (cells c)(block \<mapsto> x\<lparr>cl_data := data, cl_valid := True\<rparr>)" using assms(2) by auto
  from buffer_head_get_repr [OF d(2,3)] d(5) obtain e where e: "buffer_head_get d a = Some e"
    "cache_repr e bs" "holds e a block" "same_config d e"
    "cells e = (cells c)(block \<mapsto> x\<lparr>cl_data := data, cl_valid := True, cl_ref := cl_ref x + 1\<rparr>)" by auto
  from lru_move_to_head_repr [OF e(2,3)] obtain f where f: "lru_move_to_head e a = Some f"
    "cache_repr f (block # remove1 block bs)" "holds f a block" "same_config e f" "cells f = cells e" by blast
  have "buffer_cache_insert c block data = Some (Some a, f)"
    using a d(1) e(1) f(1) by (simp add: buffer_cache_insert_def buffer_head_get_def)
  then show ?thesis using f e(5) d(4) e(4) same_config_trans by (metis (no_types))
qed

end
