(* ===== verification/Buffer_Cache_Sync.thy ===== *)
theory Buffer_Cache_Sync
  imports Buffer_Cache_Ops
begin

text \<open>
  Creation, write-back and eviction.  \<open>flush\<close> is the abstract write-back: it walks the blocks
  from the most recently used one, writes the dirty ones and cleans them, and stops at the first
  failing write.
\<close>

section \<open>Creation\<close>

lemma buffer_cache_init_repr:
  assumes "max_buffers * 2 \<noteq> 0"
  shows "\<exists>c. buffer_cache_init False max_buffers = Some c \<and> cache_repr c [] \<and> cells c = Map.empty \<and>
     bc_max_buffers c = max_buffers \<and> \<not> bc_oom c"
proof -
  let ?c = "the (buffer_cache_init False max_buffers)"
  have s: "shape ?c []"
    using assms by (auto simp: buffer_cache_init_def shape_def dll_def links_of_def hashed_def hash_ok_empty
        heap_ok_def sized_def word_gt_0)
  then have "cache_repr ?c []" by (auto simp: cache_repr_def)
  moreover have "cells ?c = Map.empty"
    by (rule cells_eqI) (use s in \<open>auto simp: cache_wf_def buffer_cache_init_def\<close>)
  ultimately show ?thesis by (simp add: buffer_cache_init_def)
qed

section \<open>Destruction\<close>

lemma destroy_loop_frees:
  assumes "chain (\<lambda>a. Option.bind (bc_heap c a) bh_next) p xs" "set xs \<subseteq> dom (bc_heap c)"
  shows "\<exists>c'. destroy_loop c p = Some c' \<and> bc_heap c' = bc_heap c |` (- set xs)"
  using assms
proof (induction xs arbitrary: c p)
  case Nil
  then show ?case by (simp add: destroy_loop.simps)
next
  case (Cons a xs)
  then obtain b where b: "bc_heap c a = Some b" by auto
  let ?c = "c\<lparr>bc_heap := (bc_heap c)(a := None)\<rparr>"
  have a: "a \<notin> set xs" using chain_distinct [OF Cons.prems(1)] by simp
  have step: "destroy_loop c p = destroy_loop ?c (bh_next b)"
    using Cons.prems(1) b by (subst destroy_loop.simps) (simp add: buffer_head_free_def)
  have "chain (\<lambda>a. Option.bind (bc_heap ?c a) bh_next) (bh_next b) xs =
      chain (\<lambda>a. Option.bind (bc_heap c a) bh_next) (bh_next b) xs"
    by (rule chain_cong) (use a in auto)
  then have "chain (\<lambda>a. Option.bind (bc_heap ?c a) bh_next) (bh_next b) xs"
    using Cons.prems(1) b by simp
  moreover have "set xs \<subseteq> dom (bc_heap ?c)" using Cons.prems(2) a by auto
  ultimately obtain c' where "destroy_loop ?c (bh_next b) = Some c'" "bc_heap c' = bc_heap ?c |` (- set xs)"
    using Cons.IH by blast
  moreover have "bc_heap ?c |` (- set xs) = bc_heap c |` (- set (a # xs))"
    by (auto simp: restrict_map_def fun_eq_iff)
  ultimately show ?case using step by simp
qed

lemma buffer_cache_destroy_repr:
  assumes "cache_repr c bs"
  shows "\<exists>c'. buffer_cache_destroy c = Some c' \<and> bc_heap c' = Map.empty"
proof -
  from assms obtain xs where xs: "shape c xs" by (auto simp: cache_repr_def)
  have "chain (\<lambda>a. Option.bind (bc_heap c a) bh_next) (bc_lru_head c) xs"
    using dll_chain_next [OF shapeD(1) [OF xs]] by (simp add: links_of_def)
  then obtain c' where "destroy_loop c (bc_lru_head c) = Some c'" "bc_heap c' = bc_heap c |` (- set xs)"
    using destroy_loop_frees shapeD(2) [OF xs] by blast
  moreover have "bc_heap c |` (- set xs) = Map.empty"
    using shapeD(2) [OF xs] by (auto simp: restrict_map_def fun_eq_iff)
  ultimately show ?thesis by (simp add: buffer_cache_destroy_def)
qed

section \<open>Write-back\<close>

fun flush :: "(block_t \<Rightarrow> cell option) \<Rightarrow> disk \<Rightarrow> block_t list \<Rightarrow> int \<times> (block_t \<Rightarrow> cell option) \<times> disk" where
  "flush m d [] = (0, m, d)"
| "flush m d (b # bs) =
     (case m b of
        Some x \<Rightarrow>
          if cl_dirty x then
            (case pwrite_block d b (cl_data x) of
               None \<Rightarrow> (- EIO, m, d)
             | Some d' \<Rightarrow> flush (m(b \<mapsto> x\<lparr>cl_dirty := False\<rparr>)) d' bs)
          else flush m d bs
      | None \<Rightarrow> flush m d bs)"

lemma sync_loop_flush:
  assumes "shape c xs" "chain (lk_next (links_of c)) p ys" "set ys \<subseteq> set xs"
  shows "\<exists>c'. sync_loop c d p =
       Some (fst (flush (cells c) d (map (blk c) ys)), c', snd (snd (flush (cells c) d (map (blk c) ys)))) \<and>
     shape c' xs \<and> blk c' = blk c \<and> same_config c c' \<and>
     cells c' = fst (snd (flush (cells c) d (map (blk c) ys)))"
  using assms
proof (induction ys arbitrary: c d p)
  case Nil
  then show ?case by (simp add: sync_loop.simps)
next
  case (Cons a ys)
  then have p: "p = Some a" by simp
  have "a \<in> dom (bc_heap c)" using Cons.prems shapeD(2) by fastforce
  then obtain b where b: "bc_heap c a = Some b" by auto
  have nx: "chain (lk_next (links_of c)) (bh_next b) ys"
    using Cons.prems(2) p b by (simp add: links_of_def)
  have w: "cache_wf c" using Cons.prems(1) by (rule shapeD)
  have blk_a: "blk c a = bh_block_num b" using b by (simp add: blk_def)
  have cl: "cells c (blk c a) = Some (cell_of b)" using cells_hit [OF w b] blk_a by simp
  show ?case
  proof (cases "bh_dirty b")
    case False
    then have "sync_loop c d p = sync_loop c d (bh_next b)"
      using p b by (subst sync_loop.simps) simp
    with Cons.IH [OF Cons.prems(1) nx, of d] Cons.prems(3) show ?thesis
      using False cl blk_a by (simp add: cell_of_def)
  next
    case True
    show ?thesis
    proof (cases "pwrite_block d (bh_block_num b) (bh_data b)")
      case None
      then have "sync_loop c d p = Some (- EIO, c, d)"
        using True p b by (subst sync_loop.simps) simp
      then show ?thesis using None True cl blk_a Cons.prems(1) by (simp add: cell_of_def)
    next
      case (Some d')
      let ?f = "bh_dirty_update (\<lambda>_. False)"
      let ?c = "c\<lparr>bc_heap := (bc_heap c)(a := Some (?f b))\<rparr>"
      have s: "shape ?c xs" using Cons.prems(1) b data_updates(3) by (rule shape_modify)
      have lk: "links_of ?c = links_of c"
        using b by (auto simp: links_of_def prev_of_def fun_eq_iff)
      have bl: "blk ?c = blk c" using b by (auto simp: blk_def fun_eq_iff)
      have "cache_repr c (map (blk c) xs)" "holds c a (blk c a)"
        using Cons.prems(1) b blk_a by (auto simp: cache_repr_def holds_def)
      from bh_modify_repr [OF this data_updates(3) [of False], where g = "\<lambda>x. x\<lparr>cl_dirty := False\<rparr>"]
      have m: "cells ?c = (cells c)(blk c a \<mapsto> (cell_of b)\<lparr>cl_dirty := False\<rparr>)"
        using b cl by (auto simp: bh_modify_def cell_of_def)
      have "same_config c ?c" by (simp add: same_config_def)
      moreover have "sync_loop c d p = sync_loop ?c d' (bh_next b)"
        using True p b Some by (subst sync_loop.simps) simp
      moreover have "flush (cells c) d (map (blk c) (a # ys)) = flush (cells ?c) d' (map (blk ?c) ys)"
        using cl blk_a Some True by (simp add: m bl cell_of_def)
      moreover have "chain (lk_next (links_of ?c)) (bh_next b) ys" "set ys \<subseteq> set xs"
        using nx lk Cons.prems(3) by auto
      moreover obtain c' where "sync_loop ?c d' (bh_next b) =
         Some (fst (flush (cells ?c) d' (map (blk ?c) ys)), c', snd (snd (flush (cells ?c) d' (map (blk ?c) ys))))"
         "shape c' xs" "blk c' = blk ?c" "same_config ?c c'"
         "cells c' = fst (snd (flush (cells ?c) d' (map (blk ?c) ys)))"
        using Cons.IH [OF s, of "bh_next b" d'] calculation by blast
      ultimately show ?thesis
        by (intro exI [of _ c']) (simp only: bl, simp add: same_config_def)
    qed
  qed
qed

lemma buffer_cache_sync_repr:
  assumes "cache_repr c bs"
  shows "\<exists>c'. buffer_cache_sync c d = Some (fst (flush (cells c) d bs), c', snd (snd (flush (cells c) d bs))) \<and>
     cache_repr c' bs \<and> same_config c c' \<and> cells c' = fst (snd (flush (cells c) d bs))"
proof -
  from assms obtain xs where xs: "shape c xs" "bs = map (blk c) xs" by (auto simp: cache_repr_def)
  have "chain (lk_next (links_of c)) (bc_lru_head c) xs"
    using dll_chain_next [OF shapeD(1) [OF xs(1)]] by (simp add: links_of_def)
  from sync_loop_flush [OF xs(1) this order_refl, of d] obtain c' where
    "sync_loop c d (bc_lru_head c) = Some (fst (flush (cells c) d bs), c', snd (snd (flush (cells c) d bs)))"
    "shape c' xs" "blk c' = blk c" "same_config c c'" "cells c' = fst (snd (flush (cells c) d bs))"
    unfolding xs(2) by blast
  then show ?thesis unfolding buffer_cache_sync_def cache_repr_def xs(2) by metis
qed

text \<open>What the write-back achieves.\<close>

lemma pwrite_block_Some:
  "pwrite_block d b data = Some d' \<longleftrightarrow>
   \<not> dk_write_bad d b \<and> d' = d\<lparr>dk_blocks := (dk_blocks d)(b := data)\<rparr>"
  by (auto simp: pwrite_block_def)

definition cleaned :: "(block_t \<Rightarrow> cell option) \<Rightarrow> block_t list \<Rightarrow> block_t \<Rightarrow> cell option" where
  "cleaned m bs b = (if b \<in> set bs then map_option (cl_dirty_update (\<lambda>_. False)) (m b) else m b)"

definition written :: "(block_t \<Rightarrow> cell option) \<Rightarrow> block_t list \<Rightarrow> (block_t \<Rightarrow> byte list) \<Rightarrow> block_t \<Rightarrow> byte list" where
  "written m bs f b =
     (case m b of Some x \<Rightarrow> if b \<in> set bs \<and> cl_dirty x then cl_data x else f b | None \<Rightarrow> f b)"

lemma flush_ok:
  assumes "\<And>b x. b \<in> set bs \<Longrightarrow> m b = Some x \<Longrightarrow> cl_dirty x \<Longrightarrow> \<not> dk_write_bad d b"
  shows "flush m d bs = (0, cleaned m bs, d\<lparr>dk_blocks := written m bs (dk_blocks d)\<rparr>)"
  using assms
proof (induction bs arbitrary: m d)
  case Nil
  have "written m [] (dk_blocks d) = dk_blocks d" "cleaned m [] = m"
    by (auto simp: written_def cleaned_def split: option.splits)
  then show ?case by simp
next
  case (Cons b bs)
  show ?case
  proof (cases "\<exists>x. m b = Some x \<and> cl_dirty x")
    case True
    then obtain x where x: "m b = Some x" "cl_dirty x" by blast
    let ?m = "m(b \<mapsto> x\<lparr>cl_dirty := False\<rparr>)" and ?d = "d\<lparr>dk_blocks := (dk_blocks d)(b := cl_data x)\<rparr>"
    have "\<not> dk_write_bad d b" using Cons.prems x by simp
    then have "flush m d (b # bs) = flush ?m ?d bs" using x by (simp add: pwrite_block_def)
    also have "\<dots> = (0, cleaned ?m bs, ?d\<lparr>dk_blocks := written ?m bs (dk_blocks ?d)\<rparr>)"
      by (rule Cons.IH) (use Cons.prems in \<open>auto split: if_splits\<close>)
    also have "cleaned ?m bs = cleaned m (b # bs)"
      using x by (auto simp: cleaned_def fun_eq_iff)
    also have "written ?m bs (dk_blocks ?d) = written m (b # bs) (dk_blocks d)"
      using x by (auto simp: written_def fun_eq_iff split: option.splits)
    finally show ?thesis by simp
  next
    case False
    then have "flush m d (b # bs) = flush m d bs" by (auto split: option.splits)
    also have "\<dots> = (0, cleaned m bs, d\<lparr>dk_blocks := written m bs (dk_blocks d)\<rparr>)"
      by (rule Cons.IH) (use Cons.prems in auto)
    also have "cleaned m bs = cleaned m (b # bs)"
    proof
      fix b' show "cleaned m bs b' = cleaned m (b # bs) b'"
        using False by (cases "m b'") (auto simp: cleaned_def intro: cell.equality)
    qed
    also have "written m bs (dk_blocks d) = written m (b # bs) (dk_blocks d)"
      using False by (auto simp: written_def fun_eq_iff split: option.splits)
    finally show ?thesis .
  qed
qed

text \<open>On any outcome, what a read through the cache sees is unchanged.\<close>

definition seen :: "(block_t \<Rightarrow> cell option) \<Rightarrow> disk \<Rightarrow> block_t \<Rightarrow> byte list" where
  "seen m d b = (case m b of Some x \<Rightarrow> if cl_valid x then cl_data x else dk_blocks d b | None \<Rightarrow> dk_blocks d b)"

lemma flush_rc: "fst (flush m d bs) = 0 \<or> fst (flush m d bs) = - EIO"
  by (induction m d bs rule: flush.induct) (simp_all del: fun_upd_apply split: option.split)

definition flushed_cell :: "disk \<Rightarrow> cell option \<Rightarrow> disk \<Rightarrow> cell \<Rightarrow> block_t \<Rightarrow> bool" where
  "flushed_cell d u d' x' b \<longleftrightarrow>
     (case u of None \<Rightarrow> False
      | Some x \<Rightarrow> cl_data x' = cl_data x \<and> cl_valid x' = cl_valid x \<and> cl_ref x' = cl_ref x \<and>
        (cl_dirty x' \<longrightarrow> cl_dirty x) \<and>
        dk_blocks d' b = (if cl_dirty x \<and> \<not> cl_dirty x' then cl_data x else dk_blocks d b))"

definition flushed :: "(block_t \<Rightarrow> cell option) \<Rightarrow> disk \<Rightarrow> (block_t \<Rightarrow> cell option) \<Rightarrow> disk \<Rightarrow> bool" where
  "flushed m d m' d' \<longleftrightarrow> seen m' d' = seen m d \<and> dom m' = dom m \<and>
     dk_read_bad d' = dk_read_bad d \<and> dk_write_bad d' = dk_write_bad d \<and> dk_fsync_bad d' = dk_fsync_bad d \<and>
     (\<forall>b x'. m' b = Some x' \<longrightarrow> flushed_cell d (m b) d' x' b)"

lemma flushedD: "flushed m d m' d' \<Longrightarrow> m' b = Some x' \<Longrightarrow> flushed_cell d (m b) d' x' b"
  by (simp add: flushed_def)

lemma flushed_refl: "flushed m d m d"
  by (auto simp: flushed_def flushed_cell_def)

lemma flushed_write:
  assumes "flushed (m(b \<mapsto> x\<lparr>cl_dirty := False\<rparr>)) (d\<lparr>dk_blocks := (dk_blocks d)(b := cl_data x)\<rparr>) m' d'"
    and "m b = Some x" "cl_dirty x" "cl_valid x"
  shows "flushed m d m' d'"
proof -
  let ?m = "m(b \<mapsto> x\<lparr>cl_dirty := False\<rparr>)" and ?d = "d\<lparr>dk_blocks := (dk_blocks d)(b := cl_data x)\<rparr>"
  have "seen ?m ?d = seen m d" using assms by (auto simp: seen_def fun_eq_iff split: option.split)
  moreover have "flushed_cell d (m b') d' x' b'" if "m' b' = Some x'" for b' x'
  proof -
    have f: "flushed_cell ?d (?m b') d' x' b'" using flushedD [OF assms(1) that] .
    show ?thesis
    proof (cases "b' = b")
      case True
      with f have "cl_data x' = cl_data x" "cl_valid x' = cl_valid x" "cl_ref x' = cl_ref x" "\<not> cl_dirty x'"
        "dk_blocks d' b' = cl_data x" by (simp_all add: flushed_cell_def)
      then show ?thesis using True assms(2,3) by (simp add: flushed_cell_def)
    next
      case False
      with f show ?thesis by (cases "m b'") (simp_all add: flushed_cell_def)
    qed
  qed
  moreover have "dom ?m = dom m" using assms(2) by auto
  ultimately show ?thesis using assms(1) by (simp add: flushed_def)
qed

lemma flush_invs:
  assumes "\<And>b x. m b = Some x \<Longrightarrow> cl_dirty x \<Longrightarrow> cl_valid x" "flush m d bs = (rc, m', d')"
  shows "flushed m d m' d'"
  using assms
proof (induction m d bs rule: flush.induct)
  case (1 m d)
  then show ?case by (simp add: flushed_refl)
next
  case (2 m d b bs)
  show ?case
  proof (cases "\<exists>x. m b = Some x \<and> cl_dirty x")
    case False
    then have f: "flush m d bs = (rc, m', d')"
      using 2(5) by (cases "m b") (simp_all del: fun_upd_apply)
    show ?thesis
    proof (cases "m b")
      case None
      then show ?thesis using 2(4) f by (rule 2(1))
    next
      case (Some x)
      moreover from Some False have "\<not> cl_dirty x" by blast
      ultimately show ?thesis using 2(4) f by (rule 2(3))
    qed
  next
    case True
    then obtain x where x: "m b = Some x" "cl_dirty x" by blast
    show ?thesis
    proof (cases "dk_write_bad d b")
      case True
      with x 2(5) have "m' = m" "d' = d" by (auto simp: pwrite_block_def)
      then show ?thesis by (simp add: flushed_refl)
    next
      case False
      let ?m = "m(b \<mapsto> x\<lparr>cl_dirty := False\<rparr>)" and ?d = "d\<lparr>dk_blocks := (dk_blocks d)(b := cl_data x)\<rparr>"
      have p: "pwrite_block d b (cl_data x) = Some ?d" using False by (simp add: pwrite_block_def)
      have q: "flush ?m ?d bs = (rc, m', d')" using 2(5) x p by simp
      have "flushed ?m ?d m' d'"
        by (rule 2(2) [OF x p _ q]) (use 2(4) in \<open>auto split: if_splits\<close>)
      then show ?thesis using x 2(4) by (blast intro: flushed_write)
    qed
  qed
qed

lemma flush_zeroD:
  assumes "fst (flush m d bs) = 0" "b \<in> set bs" "m b = Some x" "cl_dirty x"
  shows "\<not> dk_write_bad d b"
  using assms
proof (induction m d bs arbitrary: x rule: flush.induct)
  case (2 m d c bs)
  show ?case
  proof (cases "\<exists>y. m c = Some y \<and> cl_dirty y")
    case False
    then have f: "fst (flush m d bs) = 0" and ne: "b \<noteq> c"
      using 2(4,6,7) by (cases "m c"; auto)+
    then have b: "b \<in> set bs" using 2(5) by simp
    show ?thesis
    proof (cases "m c")
      case None
      then show ?thesis using f b 2(6,7) by (rule 2(1))
    next
      case (Some y)
      then have "\<not> cl_dirty y" using False by simp
      with Some show ?thesis using f b 2(6,7) by (rule 2(3))
    qed
  next
    case True
    then obtain y where y: "m c = Some y" "cl_dirty y" by blast
    have nb: "\<not> dk_write_bad d c"
    proof
      assume "dk_write_bad d c"
      with y have "fst (flush m d (c # bs)) = - EIO" by (simp add: pwrite_block_def)
      with 2(4) show False by simp
    qed
    show ?thesis
    proof (cases "b = c")
      case True
      with nb show ?thesis by simp
    next
      case False
      let ?d = "d\<lparr>dk_blocks := (dk_blocks d)(c := cl_data y)\<rparr>"
      have p: "pwrite_block d c (cl_data y) = Some ?d" using nb by (simp add: pwrite_block_def)
      have "fst (flush (m(c \<mapsto> y\<lparr>cl_dirty := False\<rparr>)) ?d bs) = 0" using 2(4) y p by simp
      then have "\<not> dk_write_bad ?d b"
        by (rule 2(2) [OF y p]) (use False 2(5,6,7) in auto)
      then show ?thesis by simp
    qed
  qed
qed simp

lemma cache_repr_dom: "cache_repr c bs \<Longrightarrow> dom (cells c) = set bs"
proof -
  assume r: "cache_repr c bs"
  then obtain xs where xs: "shape c xs" "bs = map (blk c) xs" by (auto simp: cache_repr_def)
  note w = cache_repr_wf [OF r]
  show ?thesis
  proof (intro equalityI subsetI)
    fix b assume "b \<in> dom (cells c)"
    then obtain a bh where "bc_heap c a = Some bh" "bh_block_num bh = b" by (auto elim: cells_SomeD [OF w])
    then have "a \<in> set xs" "blk c a = b" using shapeD(2) [OF xs(1)] by (auto simp: blk_def)
    then show "b \<in> set bs" using xs(2) by auto
  next
    fix b assume "b \<in> set bs"
    then obtain a where "a \<in> set xs" "b = blk c a" using xs(2) by auto
    then obtain bh where "bc_heap c a = Some bh" "b = bh_block_num bh"
      using shapeD(2) [OF xs(1)] by (auto simp: blk_def)
    then show "b \<in> dom (cells c)" using cells_hit [OF w] by auto
  qed
qed

end
