(* ===== verification/Block_Dev_Spec.thy ===== *)
theory Block_Dev_Spec
  imports Block_Dev Buffer_Cache_Ops Buffer_Cache_Sync
begin

text \<open>
  The contract of the block device.  \<open>dev_view\<close> is the contents a reader sees: the valid
  cached copy of a block, else the copy on disk.  Reads return it and do not change it, writes
  change it at one block, write-back leaves it alone and moves it to the disk.
\<close>

section \<open>Invariants\<close>

definition dev_view :: "block_device \<Rightarrow> block_t \<Rightarrow> byte list" where
  "dev_view dev = seen (cells (bd_cache dev)) (bd_disk dev)"

definition dev_wf :: "block_device \<Rightarrow> bool" where
  "dev_wf dev \<longleftrightarrow> cache_wf (bd_cache dev) \<and> (\<forall>b. length (dk_blocks (bd_disk dev) b) = BLOCK_SIZE)"

text \<open>Dirty copies are valid, and clean valid copies agree with the disk.\<close>

definition coherent :: "(block_t \<Rightarrow> cell option) \<Rightarrow> disk \<Rightarrow> bool" where
  "coherent m d \<longleftrightarrow> (\<forall>b x. m b = Some x \<longrightarrow> (cl_dirty x \<longrightarrow> cl_valid x) \<and>
     (cl_valid x \<and> \<not> cl_dirty x \<longrightarrow> cl_data x = dk_blocks d b))"

definition all_valid :: "(block_t \<Rightarrow> cell option) \<Rightarrow> bool" where
  "all_valid m \<longleftrightarrow> (\<forall>b x. m b = Some x \<longrightarrow> cl_valid x)"

definition dev_coherent :: "block_device \<Rightarrow> bool" where
  "dev_coherent dev \<longleftrightarrow> dev_wf dev \<and> coherent (cells (bd_cache dev)) (bd_disk dev)"

definition dev_ok :: "block_device \<Rightarrow> bool" where
  "dev_ok dev \<longleftrightarrow> dev_coherent dev \<and> all_valid (cells (bd_cache dev))"

text \<open>What reads, writes and write-back never change.\<close>

definition dev_static :: "block_device \<Rightarrow> block_device \<Rightarrow> bool" where
  "dev_static dev dev' \<longleftrightarrow>
     bd_total_blocks dev' = bd_total_blocks dev \<and> bd_total_size dev' = bd_total_size dev \<and>
     bd_superblock dev' = bd_superblock dev \<and> bd_oom dev' = bd_oom dev \<and>
     same_config (bd_cache dev) (bd_cache dev') \<and>
     dk_read_bad (bd_disk dev') = dk_read_bad (bd_disk dev) \<and>
     dk_write_bad (bd_disk dev') = dk_write_bad (bd_disk dev) \<and>
     dk_fsync_bad (bd_disk dev') = dk_fsync_bad (bd_disk dev)"

lemma dev_static_refl [simp]: "dev_static dev dev"
  by (simp add: dev_static_def)

lemma dev_static_trans: "dev_static a b \<Longrightarrow> dev_static b c \<Longrightarrow> dev_static a c"
  by (auto simp: dev_static_def intro: same_config_trans)

lemma dev_static_cache: "same_config (bd_cache dev) c \<Longrightarrow> dev_static dev (dev\<lparr>bd_cache := c\<rparr>)"
  by (simp add: dev_static_def)

lemma dev_ok_coherent: "dev_ok dev \<Longrightarrow> dev_coherent dev"
  by (simp add: dev_ok_def)

lemma dev_coherent_wf: "dev_coherent dev \<Longrightarrow> dev_wf dev"
  by (simp add: dev_coherent_def)

lemma dev_wf_repr: "dev_wf dev \<Longrightarrow> \<exists>bs. cache_repr (bd_cache dev) bs"
  by (simp add: dev_wf_def cache_wf_repr)

lemma dev_view_length: "dev_wf dev \<Longrightarrow> length (dev_view dev b) = BLOCK_SIZE"
  by (auto simp: dev_wf_def dev_view_def seen_def cells_length split: option.split)

lemma dev_coherentI:
  assumes "cache_repr c bs" "\<And>b. length (dk_blocks d b) = BLOCK_SIZE" "coherent (cells c) d"
    and "bd_cache dev = c" "bd_disk dev = d"
  shows "dev_coherent dev"
  using assms by (auto simp: dev_coherent_def dev_wf_def cache_repr_wf)

section \<open>Reading\<close>

definition readable :: "block_device \<Rightarrow> block_t \<Rightarrow> bool" where
  "readable dev b \<longleftrightarrow> \<not> dk_read_bad (bd_disk dev) b \<or>
     (case cells (bd_cache dev) b of Some x \<Rightarrow> cl_valid x | None \<Rightarrow> False)"

lemma counter_wf [simp]:
  "cells (c\<lparr>bc_miss_count := n\<rparr>) = cells c" "same_config c (c\<lparr>bc_miss_count := n\<rparr>)"
  "cache_repr (c\<lparr>bc_miss_count := n\<rparr>) bs = cache_repr c bs"
  by (simp_all add: counters_repr same_config_def)

lemma holds_cell:
  assumes "cache_repr c bs" "holds c a block" "cells c block = Some x"
  shows "\<exists>b. bc_heap c a = Some b \<and> cell_of b = x"
  using assms cells_hit [OF cache_repr_wf [OF assms(1)], of a] by (auto simp: holds_def)

lemma bh_refill_repr:
  assumes "cache_repr c bs" "holds c a block" "length data = BLOCK_SIZE" "cells c block = Some x"
  shows "\<exists>d. bh_modify c a (\<lambda>b. b\<lparr>bh_data := data, bh_valid := True\<rparr>) = Some d \<and> cache_repr d bs \<and>
     holds d a block \<and> same_config c d \<and> cells d = (cells c)(block \<mapsto> x\<lparr>cl_data := data, cl_valid := True\<rparr>)"
proof -
  have "\<exists>d x. bh_modify c a (\<lambda>b. b\<lparr>bh_data := data, bh_valid := True\<rparr>) = Some d \<and> cache_repr d bs \<and>
     holds d a block \<and> same_config c d \<and> cells c block = Some x \<and>
     cells d = (cells c)(block \<mapsto> x\<lparr>cl_data := data, cl_valid := True\<rparr>)"
    by (rule bh_modify_repr [OF assms(1,2)]) (auto simp: cell_of_def assms(3))
  then show ?thesis using assms(4) by auto
qed

text \<open>The cache after a read, as a function of the cell of the block.\<close>

lemma blkdev_read_hit:
  assumes wf: "dev_wf dev" and b: "ucast block < bd_total_blocks dev"
    and x: "cells (bd_cache dev) block = Some x"
  shows "\<exists>c' bs. cache_repr c' bs \<and> same_config (bd_cache dev) c' \<and>
     blkdev_read dev block =
       Some (if cl_valid x then Inr (cl_data x)
             else if dk_read_bad (bd_disk dev) block then Inl (- EIO)
             else Inr (dk_blocks (bd_disk dev) block), dev\<lparr>bd_cache := c'\<rparr>) \<and>
     cells c' = (cells (bd_cache dev))(block \<mapsto>
       (if cl_valid x \<or> dk_read_bad (bd_disk dev) block then x
        else x\<lparr>cl_data := dk_blocks (bd_disk dev) block, cl_valid := True\<rparr>))"
proof -
  from wf obtain bs where r: "cache_repr (bd_cache dev) bs" by (auto dest: dev_wf_repr)
  from buffer_cache_lookup_hit [OF r x] obtain a c where
    c: "buffer_cache_lookup (bd_cache dev) block = Some (Some a, c)"
      "cache_repr c (block # remove1 block bs)" "holds c a block" "same_config (bd_cache dev) c"
      "cells c = (cells (bd_cache dev))(block \<mapsto> x\<lparr>cl_ref := cl_ref x + 1\<rparr>)" by blast
  from holds_cell [OF c(2,3)] c(5) obtain bh where
    bh: "bc_heap c a = Some bh" "cell_of bh = x\<lparr>cl_ref := cl_ref x + 1\<rparr>" by auto
  have v: "bh_valid bh = cl_valid x" "bh_data bh = cl_data x"
    using arg_cong [OF bh(2), of cl_valid] arg_cong [OF bh(2), of cl_data] by (simp_all add: cell_of_def)
  have nb: "\<not> bd_total_blocks dev \<le> ucast block" using b by simp
  show ?thesis
  proof (cases "cl_valid x \<or> dk_read_bad (bd_disk dev) block")
    case True
    from buffer_head_put_repr [OF c(2,3)] c(5) obtain c' where
      c': "buffer_head_put c a = Some c'" "cache_repr c' (block # remove1 block bs)" "same_config c c'"
        "cells c' = (cells (bd_cache dev))(block \<mapsto> x)" by auto
    then have "blkdev_read dev block = Some (if cl_valid x then Inr (cl_data x)
             else if dk_read_bad (bd_disk dev) block then Inl (- EIO)
             else Inr (dk_blocks (bd_disk dev) block), dev\<lparr>bd_cache := c'\<rparr>)"
      using c(1) bh(1) v nb True by (auto simp: blkdev_read_def pread_block_def)
    then show ?thesis using c' c(4) True by (auto intro: same_config_trans)
  next
    case False
    let ?data = "dk_blocks (bd_disk dev) block"
    have "length ?data = BLOCK_SIZE" using wf by (simp add: dev_wf_def)
    from bh_refill_repr [OF c(2,3) this] c(5) obtain d where
      d: "bh_modify c a (\<lambda>b. b\<lparr>bh_data := ?data, bh_valid := True\<rparr>) = Some d"
        "cache_repr d (block # remove1 block bs)" "holds d a block" "same_config c d"
        "cells d = (cells (bd_cache dev))(block \<mapsto> x\<lparr>cl_ref := cl_ref x + 1, cl_data := ?data, cl_valid := True\<rparr>)"
      by auto
    from buffer_head_put_repr [OF d(2,3)] d(5) obtain c' where
      c': "buffer_head_put d a = Some c'" "cache_repr c' (block # remove1 block bs)" "same_config d c'"
        "cells c' = (cells (bd_cache dev))(block \<mapsto> x\<lparr>cl_data := ?data, cl_valid := True\<rparr>)" by auto
    have "blkdev_read dev block = Some (Inr ?data, dev\<lparr>bd_cache := c'\<rparr>)"
      using c(1) bh(1) v nb False d(1) c'(1) by (simp add: blkdev_read_def pread_block_def)
    moreover have "same_config (bd_cache dev) c'"
      using c(4) d(4) c'(3) by (blast intro: same_config_trans)
    ultimately show ?thesis using c' False by auto
  qed
qed

text \<open>
  On a miss the block read is inserted when there is room; the buffer keeps the reference it
  is born with, since \<open>blkdev_read\<close> drops the handle.
\<close>

definition has_room :: "buffer_cache \<Rightarrow> bool" where
  "has_room c \<longleftrightarrow> \<not> bc_oom c \<and> bc_current_buffers c < bc_max_buffers c"

lemma has_room_repr:
  assumes "cache_repr c bs"
  shows "has_room c \<longleftrightarrow> \<not> bc_oom c \<and> length bs < unat (bc_max_buffers c)"
proof -
  from assms obtain xs where xs: "shape c xs" "bs = map (blk c) xs" by (auto simp: cache_repr_def)
  then have "unat (bc_current_buffers c) = length bs"
    using distinct_card [OF dll_distinct [OF shapeD(1) [OF xs(1)]]] by (simp add: shape_def sized_def)
  then show ?thesis by (simp add: has_room_def word_less_nat_alt)
qed

lemma buffer_cache_insert_miss:
  assumes "cache_repr c bs" "cells c block = None" "length data = BLOCK_SIZE"
  shows "\<exists>p c' bs'. buffer_cache_insert c block data = Some (p, c') \<and> cache_repr c' bs' \<and> same_config c c' \<and>
     (if has_room c then \<exists>a. p = Some a \<and> holds c' a block \<and>
        cells c' = (cells c)(block \<mapsto> \<lparr>cl_data = data, cl_dirty = False, cl_valid = True, cl_ref = 1\<rparr>)
      else p = None \<and> c' = c)"
proof (cases "has_room c")
  case True
  then have "\<not> bc_oom c" "length bs < unat (bc_max_buffers c)" using has_room_repr [OF assms(1)] by auto
  from buffer_cache_insert_fresh [OF assms(1,2) this assms(3)] show ?thesis using True by auto
next
  case False
  then have "buffer_cache_insert c block data = Some (None, c)"
    using has_room_repr [OF assms(1)] by (intro buffer_cache_insert_refused [OF assms(1,2)]) auto
  then show ?thesis using False assms(1) by auto
qed

lemma blkdev_read_miss:
  assumes wf: "dev_wf dev" and b: "ucast block < bd_total_blocks dev"
    and x: "cells (bd_cache dev) block = None"
  shows "\<exists>c' bs. cache_repr c' bs \<and> same_config (bd_cache dev) c' \<and>
     blkdev_read dev block =
       Some (if dk_read_bad (bd_disk dev) block then Inl (- EIO)
             else Inr (dk_blocks (bd_disk dev) block), dev\<lparr>bd_cache := c'\<rparr>) \<and>
     cells c' = (if dk_read_bad (bd_disk dev) block \<or> \<not> has_room (bd_cache dev) then cells (bd_cache dev)
       else (cells (bd_cache dev))(block \<mapsto>
         \<lparr>cl_data = dk_blocks (bd_disk dev) block, cl_dirty = False, cl_valid = True, cl_ref = 1\<rparr>))"
proof -
  from wf obtain bs where r: "cache_repr (bd_cache dev) bs" by (auto dest: dev_wf_repr)
  let ?c = "bd_cache dev\<lparr>bc_miss_count := bc_miss_count (bd_cache dev) + 1\<rparr>"
  let ?data = "dk_blocks (bd_disk dev) block"
  have l: "buffer_cache_lookup (bd_cache dev) block = Some (None, ?c)"
    by (rule buffer_cache_lookup_miss [OF r x])
  have nb: "\<not> bd_total_blocks dev \<le> ucast block" using b by simp
  have len: "length ?data = BLOCK_SIZE" using wf by (simp add: dev_wf_def)
  have hr: "has_room ?c = has_room (bd_cache dev)" by (simp add: has_room_def)
  show ?thesis
  proof (cases "dk_read_bad (bd_disk dev) block")
    case True
    then show ?thesis using l nb r
      by (intro exI [of _ ?c] exI [of _ bs]) (simp add: blkdev_read_def pread_block_def)
  next
    case False
    have "cache_repr ?c bs" "cells ?c block = None" using r x by simp_all
    from buffer_cache_insert_miss [OF this len] obtain p c' bs' where
      ins: "buffer_cache_insert ?c block ?data = Some (p, c')" "cache_repr c' bs'" "same_config ?c c'"
        "if has_room ?c then \<exists>a. p = Some a \<and> holds c' a block \<and>
           cells c' = (cells ?c)(block \<mapsto> \<lparr>cl_data = ?data, cl_dirty = False, cl_valid = True, cl_ref = 1\<rparr>)
         else p = None \<and> c' = ?c" by blast
    have "blkdev_read dev block = Some (Inr ?data, dev\<lparr>bd_cache := c'\<rparr>)"
      using l nb False ins(1) by (simp add: blkdev_read_def pread_block_def)
    moreover have "same_config (bd_cache dev) c'" using ins(3) by (simp add: same_config_def)
    ultimately show ?thesis using ins(2,4) False hr by (intro exI [of _ c'] exI [of _ bs']) (auto split: if_splits)
  qed
qed

lemma blkdev_read_range:
  "bd_total_blocks dev \<le> ucast block \<Longrightarrow> blkdev_read dev block = Some (Inl (- EINVAL), dev)"
  by (simp add: blkdev_read_def)

lemma coherent_upd:
  assumes "coherent m d" "cl_dirty x \<Longrightarrow> cl_valid x" "cl_valid x \<Longrightarrow> \<not> cl_dirty x \<Longrightarrow> cl_data x = dk_blocks d b"
  shows "coherent (m(b \<mapsto> x)) d"
  using assms by (auto simp: coherent_def)

lemma all_valid_upd: "all_valid m \<Longrightarrow> cl_valid x \<Longrightarrow> all_valid (m(b \<mapsto> x))"
  by (simp add: all_valid_def)

lemma blkdev_read_spec:
  assumes ok: "dev_coherent dev" and b: "ucast block < bd_total_blocks dev"
  shows "\<exists>dev'. blkdev_read dev block =
       Some (if readable dev block then Inr (dev_view dev block) else Inl (- EIO), dev') \<and>
     dev_coherent dev' \<and> dev_view dev' = dev_view dev \<and> dev_static dev dev' \<and>
     bd_disk dev' = bd_disk dev \<and> (dev_ok dev \<longrightarrow> dev_ok dev')"
proof (cases "cells (bd_cache dev) block")
  case None
  let ?x = "\<lparr>cl_data = dk_blocks (bd_disk dev) block, cl_dirty = False, cl_valid = True, cl_ref = 1\<rparr>"
  note wf = dev_coherent_wf [OF ok]
  from blkdev_read_miss [OF wf b None] obtain c' bs where
    c': "cache_repr c' bs" "same_config (bd_cache dev) c'"
      "blkdev_read dev block = Some (if dk_read_bad (bd_disk dev) block then Inl (- EIO)
             else Inr (dk_blocks (bd_disk dev) block), dev\<lparr>bd_cache := c'\<rparr>)"
      "cells c' = cells (bd_cache dev) \<or> cells c' = (cells (bd_cache dev))(block \<mapsto> ?x)" by (auto split: if_splits)
  have "coherent (cells c') (bd_disk dev)"
    using c'(4) ok by (elim disjE) (simp_all add: dev_coherent_def coherent_upd)
  then have "dev_coherent (dev\<lparr>bd_cache := c'\<rparr>)"
    using c'(1) wf by (auto simp: dev_coherent_def dev_wf_def cache_repr_wf)
  moreover have "seen (cells c') (bd_disk dev) = seen (cells (bd_cache dev)) (bd_disk dev)"
    using c'(4) None by (auto simp: seen_def fun_eq_iff)
  moreover have "all_valid (cells (bd_cache dev)) \<Longrightarrow> all_valid (cells c')"
    using c'(4) by (elim disjE) (simp_all add: all_valid_upd)
  ultimately show ?thesis
    using c'(2,3) None by (auto simp: dev_view_def readable_def seen_def dev_ok_def intro!: dev_static_cache)
next
  case (Some x)
  note wf = dev_coherent_wf [OF ok]
  let ?x = "if cl_valid x \<or> dk_read_bad (bd_disk dev) block then x
        else x\<lparr>cl_data := dk_blocks (bd_disk dev) block, cl_valid := True\<rparr>"
  from blkdev_read_hit [OF wf b Some] obtain c' bs where
    c': "cache_repr c' bs" "same_config (bd_cache dev) c'"
      "blkdev_read dev block = Some (if cl_valid x then Inr (cl_data x)
             else if dk_read_bad (bd_disk dev) block then Inl (- EIO)
             else Inr (dk_blocks (bd_disk dev) block), dev\<lparr>bd_cache := c'\<rparr>)"
      "cells c' = (cells (bd_cache dev))(block \<mapsto> ?x)" by blast
  have "cl_dirty x \<Longrightarrow> cl_valid x" "cl_valid x \<Longrightarrow> \<not> cl_dirty x \<Longrightarrow> cl_data x = dk_blocks (bd_disk dev) block"
    using ok Some by (auto simp: dev_coherent_def coherent_def)
  then have "coherent (cells c') (bd_disk dev)"
    unfolding c'(4) using ok by (intro coherent_upd) (auto simp: dev_coherent_def)
  then have "dev_coherent (dev\<lparr>bd_cache := c'\<rparr>)"
    using c'(1) wf by (auto simp: dev_coherent_def dev_wf_def cache_repr_wf)
  moreover have "seen (cells c') (bd_disk dev) = seen (cells (bd_cache dev)) (bd_disk dev)"
    using Some by (auto simp: c'(4) seen_def fun_eq_iff)
  moreover have "all_valid (cells (bd_cache dev)) \<Longrightarrow> all_valid (cells c')"
    unfolding c'(4) using Some by (intro all_valid_upd) (auto simp: all_valid_def)
  ultimately show ?thesis
    using c'(2,3) Some by (auto simp: dev_view_def readable_def seen_def dev_ok_def intro!: dev_static_cache)
qed

section \<open>Writing\<close>

definition writable :: "block_device \<Rightarrow> block_t \<Rightarrow> bool" where
  "writable dev b \<longleftrightarrow> cells (bd_cache dev) b \<noteq> None \<or> has_room (bd_cache dev) \<or> \<not> dk_write_bad (bd_disk dev) b"

lemma bh_store_repr:
  assumes "cache_repr c bs" "holds c a block" "length data = BLOCK_SIZE" "cells c block = Some x"
  shows "\<exists>d. bh_modify c a (bh_data_update (\<lambda>_. data)) = Some d \<and> cache_repr d bs \<and>
     holds d a block \<and> same_config c d \<and> cells d = (cells c)(block \<mapsto> x\<lparr>cl_data := data\<rparr>)"
proof -
  have "\<exists>d x. bh_modify c a (bh_data_update (\<lambda>_. data)) = Some d \<and> cache_repr d bs \<and>
     holds d a block \<and> same_config c d \<and> cells c block = Some x \<and>
     cells d = (cells c)(block \<mapsto> x\<lparr>cl_data := data\<rparr>)"
    by (rule bh_modify_repr [OF assms(1,2)]) (auto simp: cell_of_def assms(3))
  then show ?thesis using assms(4) by auto
qed

text \<open>\<open>buffer_head_mark_dirty\<close> and \<open>buffer_head_put\<close>, as both branches of the write end.\<close>

lemma dirty_put_repr:
  assumes "cache_repr c bs" "holds c a block" "cells c block = Some x"
  shows "\<exists>d e. buffer_head_mark_dirty c a = Some d \<and> buffer_head_put d a = Some e \<and> cache_repr e bs \<and>
     same_config c e \<and> cells e = (cells c)(block \<mapsto> x\<lparr>cl_dirty := True, cl_ref := cl_ref x - 1\<rparr>)"
proof -
  from buffer_head_mark_dirty_repr [OF assms(1,2)] assms(3) obtain d where
    d: "buffer_head_mark_dirty c a = Some d" "cache_repr d bs" "holds d a block" "same_config c d"
      "cells d = (cells c)(block \<mapsto> x\<lparr>cl_dirty := True\<rparr>)" by auto
  from buffer_head_put_repr [OF d(2,3)] d(5) obtain e where
    "buffer_head_put d a = Some e" "cache_repr e bs" "same_config d e"
      "cells e = (cells c)(block \<mapsto> x\<lparr>cl_dirty := True, cl_ref := cl_ref x - 1\<rparr>)" by auto
  then show ?thesis using d by (blast intro: same_config_trans)
qed

lemma blkdev_write_hit:
  assumes wf: "dev_wf dev" and b: "ucast block < bd_total_blocks dev"
    and x: "cells (bd_cache dev) block = Some x" and len: "length data = BLOCK_SIZE"
  shows "\<exists>c' bs. cache_repr c' bs \<and> same_config (bd_cache dev) c' \<and>
     blkdev_write dev block data = Some (0, dev\<lparr>bd_cache := c'\<rparr>) \<and>
     cells c' = (cells (bd_cache dev))(block \<mapsto> x\<lparr>cl_data := data, cl_dirty := True\<rparr>)"
proof -
  from wf obtain bs where r: "cache_repr (bd_cache dev) bs" by (auto dest: dev_wf_repr)
  from buffer_cache_lookup_hit [OF r x] obtain a c where
    c: "buffer_cache_lookup (bd_cache dev) block = Some (Some a, c)"
      "cache_repr c (block # remove1 block bs)" "holds c a block" "same_config (bd_cache dev) c"
      "cells c = (cells (bd_cache dev))(block \<mapsto> x\<lparr>cl_ref := cl_ref x + 1\<rparr>)" by blast
  from bh_store_repr [OF c(2,3) len] c(5) obtain d where
    d: "bh_modify c a (bh_data_update (\<lambda>_. data)) = Some d" "cache_repr d (block # remove1 block bs)"
      "holds d a block" "same_config c d"
      "cells d = (cells (bd_cache dev))(block \<mapsto> x\<lparr>cl_ref := cl_ref x + 1, cl_data := data\<rparr>)" by auto
  from dirty_put_repr [OF d(2,3)] d(5) obtain e f where
    e: "buffer_head_mark_dirty d a = Some e" "buffer_head_put e a = Some f"
      "cache_repr f (block # remove1 block bs)" "same_config d f"
      "cells f = (cells (bd_cache dev))(block \<mapsto> x\<lparr>cl_data := data, cl_dirty := True\<rparr>)" by auto
  have "blkdev_write dev block data = Some (0, dev\<lparr>bd_cache := f\<rparr>)"
    using c(1) d(1) e(1,2) b by (simp add: blkdev_write_def linorder_not_le [symmetric])
  moreover have "same_config (bd_cache dev) f" using c(4) d(4) e(4) by (blast intro: same_config_trans)
  ultimately show ?thesis using e by blast
qed

lemma blkdev_write_miss:
  assumes wf: "dev_wf dev" and b: "ucast block < bd_total_blocks dev"
    and x: "cells (bd_cache dev) block = None" and len: "length data = BLOCK_SIZE"
  shows "\<exists>c' bs. cache_repr c' bs \<and> same_config (bd_cache dev) c' \<and>
     (if has_room (bd_cache dev)
      then blkdev_write dev block data = Some (0, dev\<lparr>bd_cache := c'\<rparr>) \<and>
        cells c' = (cells (bd_cache dev))(block \<mapsto>
          \<lparr>cl_data = data, cl_dirty = True, cl_valid = True, cl_ref = 0\<rparr>)
      else cells c' = cells (bd_cache dev) \<and>
        blkdev_write dev block data =
          Some (if dk_write_bad (bd_disk dev) block then (- EIO, dev\<lparr>bd_cache := c'\<rparr>)
                else (0, dev\<lparr>bd_cache := c', bd_disk := bd_disk dev\<lparr>dk_blocks :=
                          (dk_blocks (bd_disk dev))(block := data)\<rparr>\<rparr>)))"
proof -
  from wf obtain bs where r: "cache_repr (bd_cache dev) bs" by (auto dest: dev_wf_repr)
  let ?c = "bd_cache dev\<lparr>bc_miss_count := bc_miss_count (bd_cache dev) + 1\<rparr>"
  have l: "buffer_cache_lookup (bd_cache dev) block = Some (None, ?c)"
    by (rule buffer_cache_lookup_miss [OF r x])
  have nb: "\<not> bd_total_blocks dev \<le> ucast block" using b by simp
  have hr: "has_room ?c = has_room (bd_cache dev)" by (simp add: has_room_def)
  have "cache_repr ?c bs" "cells ?c block = None" using r x by simp_all
  from buffer_cache_insert_miss [OF this len] obtain p c' bs' where
    ins: "buffer_cache_insert ?c block data = Some (p, c')" "cache_repr c' bs'" "same_config ?c c'"
      "if has_room ?c then \<exists>a. p = Some a \<and> holds c' a block \<and>
         cells c' = (cells ?c)(block \<mapsto> \<lparr>cl_data = data, cl_dirty = False, cl_valid = True, cl_ref = 1\<rparr>)
       else p = None \<and> c' = ?c" by blast
  show ?thesis
  proof (cases "has_room (bd_cache dev)")
    case True
    with ins(4) hr obtain a where a: "p = Some a" "holds c' a block"
      "cells c' = (cells (bd_cache dev))(block \<mapsto> \<lparr>cl_data = data, cl_dirty = False, cl_valid = True, cl_ref = 1\<rparr>)"
      by auto
    from dirty_put_repr [OF ins(2) a(2)] a(3) obtain e f where
      e: "buffer_head_mark_dirty c' a = Some e" "buffer_head_put e a = Some f" "cache_repr f bs'"
        "same_config c' f"
        "cells f = (cells (bd_cache dev))(block \<mapsto> \<lparr>cl_data = data, cl_dirty = True, cl_valid = True, cl_ref = 0\<rparr>)"
      by auto
    have "blkdev_write dev block data = Some (0, dev\<lparr>bd_cache := f\<rparr>)"
      using l nb ins(1) a(1) e(1,2) by (simp add: blkdev_write_def)
    moreover have "same_config (bd_cache dev) f" using ins(3) e(4) by (simp add: same_config_def)
    ultimately show ?thesis using e True by auto
  next
    case False
    then have "p = None" "c' = ?c" using ins(4) hr by auto
    then show ?thesis using l nb ins(1) False r
      by (intro exI [of _ ?c] exI [of _ bs]) (simp add: blkdev_write_def pwrite_block_def)
  qed
qed

lemma blkdev_write_range:
  "bd_total_blocks dev \<le> ucast block \<Longrightarrow> blkdev_write dev block data = Some (- EINVAL, dev)"
  by (simp add: blkdev_write_def)

lemma seen_write:
  assumes "cl_valid x" "cl_data x = data"
  shows "seen (m(b \<mapsto> x)) d = (seen m d)(b := data)"
  using assms by (auto simp: seen_def fun_eq_iff split: option.split)

lemma blkdev_write_spec:
  assumes ok: "dev_ok dev" and b: "ucast block < bd_total_blocks dev" and len: "length data = BLOCK_SIZE"
  shows "\<exists>dev'. blkdev_write dev block data = Some (if writable dev block then 0 else - EIO, dev') \<and>
     dev_ok dev' \<and> dev_static dev dev' \<and>
     dev_view dev' = (if writable dev block then (dev_view dev)(block := data) else dev_view dev)"
proof (cases "cells (bd_cache dev) block")
  case (Some x)
  note wf = dev_coherent_wf [OF dev_ok_coherent [OF ok]]
  have v: "cl_valid x" using ok Some by (auto simp: dev_ok_def all_valid_def)
  let ?x = "x\<lparr>cl_data := data, cl_dirty := True\<rparr>"
  from blkdev_write_hit [OF wf b Some len] obtain c' bs where
    c': "cache_repr c' bs" "same_config (bd_cache dev) c'"
      "blkdev_write dev block data = Some (0, dev\<lparr>bd_cache := c'\<rparr>)"
      "cells c' = (cells (bd_cache dev))(block \<mapsto> ?x)" by blast
  have "coherent (cells c') (bd_disk dev)" "all_valid (cells c')"
    unfolding c'(4) using ok v by (auto simp: dev_ok_def dev_coherent_def intro!: coherent_upd all_valid_upd)
  then have "dev_ok (dev\<lparr>bd_cache := c'\<rparr>)"
    using c'(1) wf by (auto simp: dev_ok_def dev_coherent_def dev_wf_def cache_repr_wf)
  moreover have "writable dev block" using Some by (simp add: writable_def)
  moreover have "dev_view (dev\<lparr>bd_cache := c'\<rparr>) = (dev_view dev)(block := data)"
    by (simp add: dev_view_def c'(4) seen_write v)
  ultimately show ?thesis using c' by (auto intro!: dev_static_cache)
next
  case None
  note wf = dev_coherent_wf [OF dev_ok_coherent [OF ok]]
  let ?x = "\<lparr>cl_data = data, cl_dirty = True, cl_valid = True, cl_ref = 0\<rparr>"
  from blkdev_write_miss [OF wf b None len] obtain c' bs where
    c': "cache_repr c' bs" "same_config (bd_cache dev) c'" and
    r: "if has_room (bd_cache dev)
      then blkdev_write dev block data = Some (0, dev\<lparr>bd_cache := c'\<rparr>) \<and>
        cells c' = (cells (bd_cache dev))(block \<mapsto> ?x)
      else cells c' = cells (bd_cache dev) \<and>
        blkdev_write dev block data =
          Some (if dk_write_bad (bd_disk dev) block then (- EIO, dev\<lparr>bd_cache := c'\<rparr>)
                else (0, dev\<lparr>bd_cache := c', bd_disk := bd_disk dev\<lparr>dk_blocks :=
                          (dk_blocks (bd_disk dev))(block := data)\<rparr>\<rparr>))" by blast
  show ?thesis
  proof (cases "has_room (bd_cache dev)")
    case True
    with r have w: "blkdev_write dev block data = Some (0, dev\<lparr>bd_cache := c'\<rparr>)"
      and cl: "cells c' = (cells (bd_cache dev))(block \<mapsto> ?x)" by simp_all
    have "coherent (cells c') (bd_disk dev)" "all_valid (cells c')"
      unfolding cl using ok by (auto simp: dev_ok_def dev_coherent_def intro!: coherent_upd all_valid_upd)
    then have "dev_ok (dev\<lparr>bd_cache := c'\<rparr>)"
      using c'(1) wf by (auto simp: dev_ok_def dev_coherent_def dev_wf_def cache_repr_wf)
    moreover have "writable dev block" using True by (simp add: writable_def)
    moreover have "dev_view (dev\<lparr>bd_cache := c'\<rparr>) = (dev_view dev)(block := data)"
      by (simp add: dev_view_def cl seen_write)
    ultimately show ?thesis using w c' by (auto intro!: dev_static_cache)
  next
    case False
    with r have cl: "cells c' = cells (bd_cache dev)" by simp
    let ?d = "bd_disk dev\<lparr>dk_blocks := (dk_blocks (bd_disk dev))(block := data)\<rparr>"
    show ?thesis
    proof (cases "dk_write_bad (bd_disk dev) block")
      case True
      then have "\<not> writable dev block" using None False by (simp add: writable_def)
      moreover have "dev_ok (dev\<lparr>bd_cache := c'\<rparr>)"
        using c'(1) ok cl by (auto simp: dev_ok_def dev_coherent_def dev_wf_def cache_repr_wf)
      ultimately show ?thesis using r False True c' cl by (auto simp: dev_view_def intro!: dev_static_cache)
    next
      case good: False
      then have "writable dev block" by (simp add: writable_def)
      moreover have "coherent (cells c') ?d"
        using ok None cl by (auto simp: dev_ok_def dev_coherent_def coherent_def)
      then have "dev_ok (dev\<lparr>bd_cache := c', bd_disk := ?d\<rparr>)"
        using c'(1) ok cl len by (auto simp: dev_ok_def dev_coherent_def dev_wf_def cache_repr_wf)
      moreover have "dev_view (dev\<lparr>bd_cache := c', bd_disk := ?d\<rparr>) = (dev_view dev)(block := data)"
        using None cl by (auto simp: dev_view_def seen_def fun_eq_iff split: option.split)
      moreover have "dev_static dev (dev\<lparr>bd_cache := c', bd_disk := ?d\<rparr>)"
        using c'(2) by (simp add: dev_static_def)
      ultimately show ?thesis using r False good by auto
    qed
  qed
qed

end
