(* ===== verification/Block_Store.thy ===== *)
theory Block_Store
  imports Prelude
begin

text \<open>
  The interface between the block device and the components that keep tables on it.  A
  \<open>block_store\<close> has a view (the contents of every block), reads that return it and writes that
  change it at one block; both may fail, but only on faulty blocks.  The loops that load and
  store a run of consecutive blocks, which the block and inode bitmaps share, are verified once
  against this interface.
\<close>

section \<open>Runs of blocks\<close>

definition upto32 :: "u32 \<Rightarrow> u32 list" where
  "upto32 n = map of_nat [0..<unat n]"

text \<open>
  \<open>for (i = 0; i < n; i++) ret = blkdev_read(dev, start + i, buf + i * BLOCK_SIZE)\<close>: block
  number and buffer offset are both 32-bit.
\<close>

fun load_blocks ::
  "('d \<Rightarrow> block_t \<Rightarrow> ((int + byte list) \<times> 'd) option) \<Rightarrow> 'd \<Rightarrow> block_t \<Rightarrow> byte list \<Rightarrow> u32 list \<Rightarrow>
   ((int + byte list) \<times> 'd) option" where
  "load_blocks rd d start buf [] = Some (Inr buf, d)"
| "load_blocks rd d start buf (i # is) =
     (case rd d (start + i) of None \<Rightarrow> None
      | Some (Inl ret, d') \<Rightarrow> Some (Inl ret, d')
      | Some (Inr data, d') \<Rightarrow>
          (case buf_write buf (unat (i * 4096)) data of None \<Rightarrow> None
           | Some buf' \<Rightarrow> load_blocks rd d' start buf' is))"

fun store_blocks ::
  "('d \<Rightarrow> block_t \<Rightarrow> byte list \<Rightarrow> (int \<times> 'd) option) \<Rightarrow> 'd \<Rightarrow> block_t \<Rightarrow> byte list \<Rightarrow> u32 list \<Rightarrow>
   (int \<times> 'd) option" where
  "store_blocks wr d start buf [] = Some (0, d)"
| "store_blocks wr d start buf (i # is) =
     (case buf_read buf (unat (i * 4096)) BLOCK_SIZE of None \<Rightarrow> None
      | Some src \<Rightarrow> (case wr d (start + i) src of None \<Rightarrow> None
         | Some (ret, d') \<Rightarrow> if ret < 0 then Some (ret, d') else store_blocks wr d' start buf is))"

text \<open>The run \<open>[start, start + n)\<close> lies below \<open>bound\<close> and its bytes are addressed without wrapping.\<close>

definition run_ok :: "u64 \<Rightarrow> block_t \<Rightarrow> nat \<Rightarrow> bool" where
  "run_ok bound start n \<longleftrightarrow> unat start + n \<le> unat bound \<and> unat start + n \<le> 2 ^ 32 \<and> n < 2 ^ 20"

lemma run_ok_index:
  assumes "run_ok bound start n" "j < n"
  shows "unat (start + of_nat j) = unat start + j" "unat (of_nat j * 4096 :: u32) = j * 4096"
    "ucast (start + of_nat j) < bound"
proof -
  have j: "unat (of_nat j :: u32) = j" using assms by (simp add: run_ok_def unat_of_nat)
  show *: "unat (start + of_nat j) = unat start + j"
    using assms j by (simp add: run_ok_def unat_word_ariths)
  show "unat (of_nat j * 4096 :: u32) = j * 4096"
    using assms j by (simp add: run_ok_def unat_word_ariths)
  have "unat (ucast (start + of_nat j) :: u64) = unat start + j"
    using * by simp
  then show "ucast (start + of_nat j) < bound"
    using assms by (simp add: run_ok_def word_less_nat_alt)
qed

lemma run_ok_inj:
  assumes "run_ok bound start n" "i < n" "j < n" "start + of_nat i = start + (of_nat j :: u32)"
  shows "i = j"
proof -
  have "unat start + i = unat start + j"
    using run_ok_index(1) [OF assms(1,2)] run_ok_index(1) [OF assms(1,3)] assms(4) by metis
  then show ?thesis by simp
qed

section \<open>The contract\<close>

locale block_store =
  fixes ok :: "'d \<Rightarrow> bool"
    and view :: "'d \<Rightarrow> block_t \<Rightarrow> byte list"
    and bound :: "'d \<Rightarrow> u64"
    and faulty :: "'d \<Rightarrow> block_t \<Rightarrow> bool"
    and same :: "'d \<Rightarrow> 'd \<Rightarrow> bool"
    and rd :: "'d \<Rightarrow> block_t \<Rightarrow> ((int + byte list) \<times> 'd) option"
    and wr :: "'d \<Rightarrow> block_t \<Rightarrow> byte list \<Rightarrow> (int \<times> 'd) option"
  assumes view_length: "ok d \<Longrightarrow> length (view d b) = BLOCK_SIZE"
    and same_refl: "same d d"
    and same_trans: "same d e \<Longrightarrow> same e f \<Longrightarrow> same d f"
    and same_bound: "same d e \<Longrightarrow> bound e = bound d"
    and same_faulty: "same d e \<Longrightarrow> faulty e b = faulty d b"
    and rd_law: "ok d \<Longrightarrow> ucast b < bound d \<Longrightarrow>
      \<exists>r d'. rd d b = Some (r, d') \<and> ok d' \<and> same d d' \<and> view d' = view d \<and>
        (r = Inr (view d b) \<or> (faulty d b \<and> (\<exists>e < 0. r = Inl e)))"
    and wr_law: "ok d \<Longrightarrow> ucast b < bound d \<Longrightarrow> length data = BLOCK_SIZE \<Longrightarrow>
      \<exists>r d'. wr d b data = Some (r, d') \<and> ok d' \<and> same d d' \<and>
        (if r = 0 then view d' = (view d)(b := data) else r < 0 \<and> faulty d b \<and> view d' = view d)"
begin

lemma load_run:
  assumes "ok d" "run_ok (bound d) start n" "length buf = n * 4096" "k \<le> n"
  shows "\<exists>r d'. load_blocks rd d start buf (map of_nat [k..<n]) = Some (r, d') \<and> ok d' \<and> same d d' \<and>
     view d' = view d \<and>
     (case r of
        Inr buf' \<Rightarrow> length buf' = n * 4096 \<and>
          (\<forall>j < n. slice (j * 4096) 4096 buf' =
             (if k \<le> j then view d (start + of_nat j) else slice (j * 4096) 4096 buf))
      | Inl e \<Rightarrow> e < 0 \<and> (\<exists>j < n. faulty d (start + of_nat j)))"
  using assms
proof (induction "n - k" arbitrary: d buf k)
  case 0
  then show ?case by (auto intro: same_refl)
next
  case (Suc m)
  then have k: "k < n" by simp
  have ix: "map of_nat [k..<n] = of_nat k # map (of_nat :: nat \<Rightarrow> u32) [Suc k..<n]"
    using k by (simp add: upt_conv_Cons)
  note K = run_ok_index [OF Suc.prems(2) k]
  from rd_law [OF Suc.prems(1) K(3)] obtain r d1 where
    r: "rd d (start + of_nat k) = Some (r, d1)" "ok d1" "same d d1" "view d1 = view d"
      "r = Inr (view d (start + of_nat k)) \<or> (faulty d (start + of_nat k) \<and> (\<exists>e < 0. r = Inl e))" by blast
  show ?case
  proof (cases r)
    case (Inl e)
    then show ?thesis using r k ix by (intro exI [of _ "Inl e"] exI [of _ d1]) auto
  next
    case (Inr data)
    with r(5) have data: "data = view d (start + of_nat k)" by simp
    have len: "length data = 4096" using data view_length [OF Suc.prems(1)] by simp
    have fit: "k * 4096 + length data \<le> length buf" using k len Suc.prems(3) by simp
    let ?buf = "splice (k * 4096) data buf"
    have step: "load_blocks rd d start buf (map of_nat [k..<n]) = load_blocks rd d1 start ?buf (map of_nat [Suc k..<n])"
      unfolding ix using r(1) Inr K(2) fit by (simp add: buf_write_Some)
    have ro: "run_ok (bound d1) start n" using Suc.prems(2) same_bound [OF r(3)] by simp
    have lb: "length ?buf = n * 4096" using fit Suc.prems(3) by (simp add: length_splice)
    have mk: "m = n - Suc k" "Suc k \<le> n" using Suc.hyps(2) k by simp_all
    from Suc.hyps(1) [OF mk(1) r(2) ro lb mk(2)]
    obtain r2 d2 where R: "load_blocks rd d1 start ?buf (map of_nat [Suc k..<n]) = Some (r2, d2)" "ok d2"
      "same d1 d2" "view d2 = view d1"
      "case r2 of Inr buf' \<Rightarrow> length buf' = n * 4096 \<and>
          (\<forall>j < n. slice (j * 4096) 4096 buf' =
             (if Suc k \<le> j then view d1 (start + of_nat j) else slice (j * 4096) 4096 ?buf))
        | Inl e \<Rightarrow> e < 0 \<and> (\<exists>j < n. faulty d1 (start + of_nat j))" by blast
    have sl: "slice (j * 4096) 4096 ?buf = (if j = k then data else slice (j * 4096) 4096 buf)" if "j < n" for j
    proof (cases "j = k")
      case True
      then show ?thesis using slice_splice_same [OF fit] len by simp
    next
      case False
      then have "j * 4096 + 4096 \<le> k * 4096 \<or> k * 4096 + length data \<le> j * 4096" using len by arith
      then show ?thesis using False fit that Suc.prems(3) by (simp add: slice_splice_other)
    qed
    have "case r2 of Inr buf' \<Rightarrow> length buf' = n * 4096 \<and>
          (\<forall>j < n. slice (j * 4096) 4096 buf' =
             (if k \<le> j then view d (start + of_nat j) else slice (j * 4096) 4096 buf))
        | Inl e \<Rightarrow> e < 0 \<and> (\<exists>j < n. faulty d (start + of_nat j))"
      using R(5) sl data r(4) same_faulty [OF r(3)] by (auto split: sum.splits simp: le_Suc_eq not_less_eq_eq)
    then show ?thesis using R(1-4) step r(3,4) by (metis same_trans)
  qed
qed

lemma store_run:
  assumes "ok d" "run_ok (bound d) start n" "length buf = n * 4096" "k \<le> n"
  shows "\<exists>r d'. store_blocks wr d start buf (map of_nat [k..<n]) = Some (r, d') \<and> ok d' \<and> same d d' \<and>
     (\<forall>b. (\<forall>j < n. k \<le> j \<longrightarrow> b \<noteq> start + of_nat j) \<longrightarrow> view d' b = view d b) \<and>
     (if r = 0 then \<forall>j < n. k \<le> j \<longrightarrow> view d' (start + of_nat j) = slice (j * 4096) 4096 buf
      else r < 0 \<and> (\<exists>j < n. faulty d (start + of_nat j)))"
  using assms
proof (induction "n - k" arbitrary: d k)
  case 0
  then show ?case by (auto intro: same_refl)
next
  case (Suc m)
  then have k: "k < n" by simp
  have ix: "map of_nat [k..<n] = of_nat k # map (of_nat :: nat \<Rightarrow> u32) [Suc k..<n]"
    using k by (simp add: upt_conv_Cons)
  note K = run_ok_index [OF Suc.prems(2) k]
  have fit: "k * 4096 + 4096 \<le> length buf" using k Suc.prems(3) by simp
  let ?src = "slice (k * 4096) 4096 buf"
  have len: "length ?src = BLOCK_SIZE" using fit by (simp add: length_slice)
  from wr_law [OF Suc.prems(1) K(3) len] obtain r d1 where
    r: "wr d (start + of_nat k) ?src = Some (r, d1)" "ok d1" "same d d1"
      "if r = 0 then view d1 = (view d)(start + of_nat k := ?src)
       else r < 0 \<and> faulty d (start + of_nat k) \<and> view d1 = view d" by blast
  show ?case
  proof (cases "r = 0")
    case False
    then show ?thesis using r k ix K(2) fit
      by (intro exI [of _ r] exI [of _ d1]) (auto simp: buf_read_Some)
  next
    case True
    have step: "store_blocks wr d start buf (map of_nat [k..<n]) = store_blocks wr d1 start buf (map of_nat [Suc k..<n])"
      unfolding ix using r(1) True K(2) fit by (simp add: buf_read_Some)
    have v1: "view d1 = (view d)(start + of_nat k := ?src)" using r(4) True by simp
    have ro: "run_ok (bound d1) start n" using Suc.prems(2) same_bound [OF r(3)] by simp
    have mk: "m = n - Suc k" "Suc k \<le> n" using Suc.hyps(2) k by simp_all
    from Suc.hyps(1) [OF mk(1) r(2) ro Suc.prems(3) mk(2)]
    obtain r2 d2 where R: "store_blocks wr d1 start buf (map of_nat [Suc k..<n]) = Some (r2, d2)" "ok d2"
      "same d1 d2"
      "\<And>b. (\<forall>j < n. Suc k \<le> j \<longrightarrow> b \<noteq> start + of_nat j) \<Longrightarrow> view d2 b = view d1 b"
      "if r2 = 0 then \<forall>j < n. Suc k \<le> j \<longrightarrow> view d2 (start + of_nat j) = slice (j * 4096) 4096 buf
       else r2 < 0 \<and> (\<exists>j < n. faulty d1 (start + of_nat j))" by blast
    have fr: "view d2 b = view d b" if "\<forall>j < n. k \<le> j \<longrightarrow> b \<noteq> start + of_nat j" for b
    proof -
      have "b \<noteq> start + of_nat k" "\<forall>j < n. Suc k \<le> j \<longrightarrow> b \<noteq> start + of_nat j" using that k by auto
      then show ?thesis using R(4) v1 by simp
    qed
    have at: "view d2 (start + of_nat k) = ?src"
    proof -
      have "\<forall>j < n. Suc k \<le> j \<longrightarrow> start + of_nat k \<noteq> start + (of_nat j :: u32)"
        using run_ok_inj [OF Suc.prems(2) k] by fastforce
      then show ?thesis using R(4) v1 by simp
    qed
    have res: "if r2 = 0 then \<forall>j < n. k \<le> j \<longrightarrow> view d2 (start + of_nat j) = slice (j * 4096) 4096 buf
       else r2 < 0 \<and> (\<exists>j < n. faulty d (start + of_nat j))"
    proof (cases "r2 = 0")
      case True
      then have "\<forall>j < n. Suc k \<le> j \<longrightarrow> view d2 (start + of_nat j) = slice (j * 4096) 4096 buf" using R(5) by simp
      with at True show ?thesis by (auto simp: le_eq_less_or_eq Suc_le_eq)
    next
      case False
      then show ?thesis using R(5) same_faulty [OF r(3)] by simp
    qed
    have "same d d2" using r(3) R(3) by (rule same_trans)
    then show ?thesis
      using R(1,2) step fr res by (intro exI [of _ r2] exI [of _ d2]) (simp only: simp_thms, blast)
  qed
qed

end

end
