(* ===== verification/Block_Dev_Contract.thy ===== *)
theory Block_Dev_Contract
  imports Block_Dev_Spec Block_Store
begin

text \<open>
  Write-back, invalidation and opening of the block device; the device as a \<open>block_store\<close>.
\<close>

section \<open>The device is a block store\<close>

definition dev_faulty :: "block_device \<Rightarrow> block_t \<Rightarrow> bool" where
  "dev_faulty dev b \<longleftrightarrow> dk_read_bad (bd_disk dev) b \<or> dk_write_bad (bd_disk dev) b"

interpretation blkdev: block_store dev_ok dev_view bd_total_blocks dev_faulty dev_static blkdev_read blkdev_write
proof
  fix d b assume "dev_ok d"
  then show "length (dev_view d b) = BLOCK_SIZE"
    by (intro dev_view_length) (simp add: dev_ok_def dev_coherent_def)
next
  fix d and b :: block_t assume ok: "dev_ok d" and b: "ucast b < bd_total_blocks d"
  from blkdev_read_spec [OF dev_ok_coherent [OF ok] b] ok
  show "\<exists>r d'. blkdev_read d b = Some (r, d') \<and> dev_ok d' \<and> dev_static d d' \<and> dev_view d' = dev_view d \<and>
        (r = Inr (dev_view d b) \<or> (dev_faulty d b \<and> (\<exists>e < 0. r = Inl e)))"
    by (auto simp: readable_def dev_faulty_def split: if_splits)
next
  fix d and b :: block_t and data :: "byte list"
  assume "dev_ok d" "ucast b < bd_total_blocks d" "length data = BLOCK_SIZE"
  from blkdev_write_spec [OF this] obtain d' where
    "blkdev_write d b data = Some (if writable d b then 0 else - EIO, d')" "dev_ok d'" "dev_static d d'"
    "dev_view d' = (if writable d b then (dev_view d)(b := data) else dev_view d)" by blast
  then show "\<exists>r d'. blkdev_write d b data = Some (r, d') \<and> dev_ok d' \<and> dev_static d d' \<and>
        (if r = 0 then dev_view d' = (dev_view d)(b := data)
         else r < 0 \<and> dev_faulty d b \<and> dev_view d' = dev_view d)"
    by (cases "writable d b") (auto simp: writable_def dev_faulty_def)
qed (auto simp: dev_faulty_def dev_static_def intro: same_config_trans)

section \<open>Opening\<close>

lemma blkdev_open_ok:
  assumes "\<And>b. length (dk_blocks d b) = BLOCK_SIZE"
  shows "\<exists>dev. blkdev_open (Some (d, sz)) False False = Some dev \<and> dev_ok dev \<and>
     bd_disk dev = d \<and> dev_view dev = dk_blocks d \<and> bd_total_blocks dev = sz div 4096 \<and>
     bd_superblock dev = None \<and> has_room (bd_cache dev)"
proof -
  obtain c where c: "buffer_cache_init False 1024 = Some c" "cache_repr c []" "cells c = Map.empty"
    "bc_max_buffers c = 1024" "\<not> bc_oom c"
    using buffer_cache_init_repr [of 1024] by auto
  have "has_room c" using has_room_repr [OF c(2)] c(4,5) by simp
  then show ?thesis
    using c assms
    by (auto simp: blkdev_open_def dev_ok_def dev_coherent_def dev_wf_def cache_repr_wf coherent_def
        all_valid_def dev_view_def seen_def)
qed

section \<open>Write-back\<close>

definition syncable :: "block_device \<Rightarrow> bool" where
  "syncable dev \<longleftrightarrow> (\<forall>b. case cells (bd_cache dev) b of
      Some x \<Rightarrow> cl_dirty x \<longrightarrow> \<not> dk_write_bad (bd_disk dev) b | None \<Rightarrow> True)"

lemma blkdev_sync_spec:
  assumes ok: "dev_coherent dev"
  shows "\<exists>rc dev'. blkdev_sync dev = Some (rc, dev') \<and> dev_coherent dev' \<and> (dev_ok dev \<longrightarrow> dev_ok dev') \<and>
     dev_static dev dev' \<and> dev_view dev' = dev_view dev \<and> (rc = 0 \<or> rc = - EIO) \<and>
     (rc = 0 \<longleftrightarrow> syncable dev \<and> \<not> dk_fsync_bad (bd_disk dev)) \<and>
     (syncable dev \<longrightarrow> dk_blocks (bd_disk dev') = dev_view dev \<and>
        (\<forall>b x. cells (bd_cache dev') b = Some x \<longrightarrow> \<not> cl_dirty x))"
proof -
  let ?m = "cells (bd_cache dev)" and ?d = "bd_disk dev"
  note wf = dev_coherent_wf [OF ok]
  from dev_wf_repr [OF wf] obtain bs where bs: "cache_repr (bd_cache dev) bs" by blast
  obtain rc m' d' where f: "flush ?m ?d bs = (rc, m', d')" by (cases "flush ?m ?d bs") auto
  from buffer_cache_sync_repr [OF bs, of ?d] f obtain c' where
    c': "buffer_cache_sync (bd_cache dev) ?d = Some (rc, c', d')" "cache_repr c' bs"
      "same_config (bd_cache dev) c'" "cells c' = m'" by auto
  have dv: "\<And>b x. ?m b = Some x \<Longrightarrow> cl_dirty x \<Longrightarrow> cl_valid x"
    and cv: "\<And>b x. ?m b = Some x \<Longrightarrow> cl_valid x \<Longrightarrow> \<not> cl_dirty x \<Longrightarrow> cl_data x = dk_blocks ?d b"
    using ok by (auto simp: dev_coherent_def coherent_def)
  have fl: "flushed ?m ?d m' d'" by (rule flush_invs [OF dv f])
  let ?dev = "dev\<lparr>bd_cache := c', bd_disk := d'\<rparr>"
  have st: "seen m' d' = seen ?m ?d" "dk_read_bad d' = dk_read_bad ?d" "dk_write_bad d' = dk_write_bad ?d"
    "dk_fsync_bad d' = dk_fsync_bad ?d" "dom m' = dom ?m" using fl by (auto simp: flushed_def)
  have bad: "syncable dev \<longleftrightarrow> rc = 0"
  proof
    assume s: "syncable dev"
    have "flush ?m ?d bs = (0, cleaned ?m bs, ?d\<lparr>dk_blocks := written ?m bs (dk_blocks ?d)\<rparr>)"
      by (rule flush_ok) (use s in \<open>auto simp: syncable_def split: option.splits\<close>)
    then show "rc = 0" using f by simp
  next
    assume "rc = 0"
    then have z: "fst (flush ?m ?d bs) = 0" using f by simp
    show "syncable dev"
      unfolding syncable_def
    proof (intro allI)
      fix b show "case ?m b of Some x \<Rightarrow> cl_dirty x \<longrightarrow> \<not> dk_write_bad ?d b | None \<Rightarrow> True"
      proof (cases "?m b")
        case (Some x)
        then have "b \<in> set bs" using cache_repr_dom [OF bs] by auto
        then show ?thesis using flush_zeroD [OF z _ Some] Some by simp
      qed simp
    qed
  qed
  have dn: "m' = cleaned ?m bs" "dk_blocks d' = written ?m bs (dk_blocks ?d)" if "syncable dev"
  proof -
    have "flush ?m ?d bs = (0, cleaned ?m bs, ?d\<lparr>dk_blocks := written ?m bs (dk_blocks ?d)\<rparr>)"
      by (rule flush_ok) (use that in \<open>auto simp: syncable_def split: option.splits\<close>)
    with f show "m' = cleaned ?m bs" "dk_blocks d' = written ?m bs (dk_blocks ?d)" by auto
  qed
  have wr: "written ?m bs (dk_blocks ?d) = dev_view dev"
  proof
    fix b show "written ?m bs (dk_blocks ?d) b = dev_view dev b"
    proof (cases "?m b")
      case (Some x)
      then have "b \<in> set bs" using cache_repr_dom [OF bs] by auto
      with Some show ?thesis using dv [OF Some] cv [OF Some]
        by (auto simp: written_def dev_view_def seen_def)
    qed (simp add: written_def dev_view_def seen_def)
  qed
  have cl: "\<exists>y. ?m b = Some y \<and> cl_data x = cl_data y \<and> cl_valid x = cl_valid y \<and> (cl_dirty x \<longrightarrow> cl_dirty y) \<and>
      dk_blocks d' b = (if cl_dirty y \<and> \<not> cl_dirty x then cl_data y else dk_blocks ?d b)"
    if "m' b = Some x" for b x
    using flushedD [OF fl that] by (auto simp: flushed_cell_def split: option.splits)
  have "coherent m' d'"
    unfolding coherent_def
  proof (intro allI impI)
    fix b x assume "m' b = Some x"
    from cl [OF this] obtain y where y: "?m b = Some y" "cl_data x = cl_data y" "cl_valid x = cl_valid y"
      "cl_dirty x \<longrightarrow> cl_dirty y" "dk_blocks d' b = (if cl_dirty y \<and> \<not> cl_dirty x then cl_data y else dk_blocks ?d b)"
      by blast
    then show "(cl_dirty x \<longrightarrow> cl_valid x) \<and> (cl_valid x \<and> \<not> cl_dirty x \<longrightarrow> cl_data x = dk_blocks d' b)"
      using dv [OF y(1)] cv [OF y(1)] by auto
  qed
  moreover have len: "length (dk_blocks d' b) = BLOCK_SIZE" for b
  proof (cases "m' b")
    case None
    then have "?m b = None" using st(5) by auto
    then have "dk_blocks d' b = dk_blocks ?d b"
      using None fun_cong [OF st(1), of b] by (simp add: seen_def)
    then show ?thesis using wf by (simp add: dev_wf_def)
  next
    case (Some x)
    from cl [OF this] obtain y where y: "?m b = Some y"
      "dk_blocks d' b = (if cl_dirty y \<and> \<not> cl_dirty x then cl_data y else dk_blocks ?d b)" by blast
    then show ?thesis using wf cells_length [OF cache_repr_wf [OF bs] y(1)] by (simp add: dev_wf_def)
  qed
  ultimately have co: "dev_coherent ?dev"
    using c'(2,4) by (intro dev_coherentI [of c' bs d']) auto
  have av: "all_valid ?m \<Longrightarrow> all_valid m'" using cl unfolding all_valid_def by metis
  have rcs: "rc = 0 \<or> rc = - EIO" using flush_rc [of ?m ?d bs] f by simp
  have "blkdev_sync dev = Some (if rc = 0 then if dk_fsync_bad ?d then - EIO else 0 else rc, ?dev)"
    using c'(1) rcs st(4) by (auto simp: blkdev_sync_def Let_def)
  moreover have "dev_static dev ?dev" using c'(3) st by (simp add: dev_static_def)
  moreover have "dev_view ?dev = dev_view dev" using c'(4) st(1) by (simp add: dev_view_def)
  moreover have "dev_ok dev \<longrightarrow> dev_ok ?dev" using co av c'(4) by (simp add: dev_ok_def)
  moreover have "syncable dev \<longrightarrow> dk_blocks d' = dev_view dev \<and> (\<forall>b x. cells c' b = Some x \<longrightarrow> \<not> cl_dirty x)"
    using dn wr c'(4) cache_repr_dom [OF bs] by (auto simp: cleaned_def split: if_splits)
  ultimately show ?thesis
    using co rcs bad
    by (intro exI [of _ "if rc = 0 then if dk_fsync_bad ?d then - EIO else 0 else rc"] exI [of _ ?dev]) auto
qed

section \<open>Closing\<close>

lemma blkdev_close_spec:
  assumes "dev_coherent dev"
  shows "\<exists>d c. blkdev_close dev = Some (d, c) \<and> bc_heap c = Map.empty \<and>
     (syncable dev \<longrightarrow> dk_blocks d = dev_view dev)"
proof -
  from blkdev_sync_spec [OF assms] obtain rc dev' where s: "blkdev_sync dev = Some (rc, dev')" "dev_coherent dev'"
    "syncable dev \<longrightarrow> dk_blocks (bd_disk dev') = dev_view dev" by blast
  from dev_wf_repr [OF dev_coherent_wf [OF s(2)]] obtain bs where "cache_repr (bd_cache dev') bs" by blast
  from buffer_cache_destroy_repr [OF this] s show ?thesis by (auto simp: blkdev_close_def)
qed

section \<open>Invalidation\<close>

text \<open>
  \<open>c_buffer_cache_invalidate_by_fd\<close> drops the cached copy: readers see the disk again.
\<close>

lemma invalidate_spec:
  assumes "dev_coherent dev"
  shows "\<exists>dev'. c_buffer_cache_invalidate_by_fd (Some dev) block = Some (Some dev') \<and> dev_coherent dev' \<and>
     dev_static dev dev' \<and> bd_disk dev' = bd_disk dev \<and>
     dev_view dev' = (dev_view dev)(block := dk_blocks (bd_disk dev) block) \<and>
     cells (bd_cache dev') = (cells (bd_cache dev))
       (block := map_option (\<lambda>x. x\<lparr>cl_valid := False, cl_dirty := False\<rparr>) (cells (bd_cache dev) block))"
proof -
  note wf = dev_coherent_wf [OF assms]
  from dev_wf_repr [OF wf] obtain bs where bs: "cache_repr (bd_cache dev) bs" by blast
  from buffer_cache_invalidate_repr [OF bs, of block] obtain c where
    c: "buffer_cache_invalidate (bd_cache dev) block = Some c" "cache_repr c bs" "same_config (bd_cache dev) c"
      "cells c = (cells (bd_cache dev))
        (block := map_option (\<lambda>x. x\<lparr>cl_valid := False, cl_dirty := False\<rparr>) (cells (bd_cache dev) block))" by blast
  have "coherent (cells c) (bd_disk dev)"
    using assms unfolding c(4) by (auto simp: dev_coherent_def coherent_def)
  then have "dev_coherent (dev\<lparr>bd_cache := c\<rparr>)"
    using c(2) wf by (auto simp: dev_coherent_def dev_wf_def cache_repr_wf)
  moreover have "dev_view (dev\<lparr>bd_cache := c\<rparr>) = (dev_view dev)(block := dk_blocks (bd_disk dev) block)"
    by (auto simp: dev_view_def c(4) seen_def fun_eq_iff split: option.split)
  ultimately show ?thesis
    using c by (auto simp: c_buffer_cache_invalidate_by_fd_def intro!: dev_static_cache)
qed

text \<open>
  \<open>blkdev_write\<close> does not set \<open>valid\<close>, so what it stores in an invalidated buffer is replaced
  by the disk contents at the next read.
\<close>

lemma write_after_invalidate_lost:
  assumes wf: "dev_wf dev" and b: "ucast block < bd_total_blocks dev"
    and x: "cells (bd_cache dev) block = Some x" "\<not> cl_valid x"
    and len: "length data = BLOCK_SIZE" and good: "\<not> dk_read_bad (bd_disk dev) block"
  shows "\<exists>dev1 dev2. blkdev_write dev block data = Some (0, dev1) \<and>
     blkdev_read dev1 block = Some (Inr (dk_blocks (bd_disk dev) block), dev2)"
proof -
  from blkdev_write_hit [OF wf b x(1) len] obtain c' bs where
    c': "cache_repr c' bs" "same_config (bd_cache dev) c'"
      "blkdev_write dev block data = Some (0, dev\<lparr>bd_cache := c'\<rparr>)"
      "cells c' = (cells (bd_cache dev))(block \<mapsto> x\<lparr>cl_data := data, cl_dirty := True\<rparr>)" by blast
  let ?dev = "dev\<lparr>bd_cache := c'\<rparr>"
  have wf1: "dev_wf ?dev" using wf c'(1) by (simp add: dev_wf_def cache_repr_wf)
  have "ucast block < bd_total_blocks ?dev" using b by simp
  moreover have "cells (bd_cache ?dev) block = Some (x\<lparr>cl_data := data, cl_dirty := True\<rparr>)" by (simp add: c'(4))
  ultimately have "\<exists>c2. blkdev_read ?dev block = Some (Inr (dk_blocks (bd_disk dev) block), ?dev\<lparr>bd_cache := c2\<rparr>)"
    using blkdev_read_hit [OF wf1, of block "x\<lparr>cl_data := data, cl_dirty := True\<rparr>"] x(2) good by auto
  then obtain c2 where "blkdev_read ?dev block = Some (Inr (dk_blocks (bd_disk dev) block), ?dev\<lparr>bd_cache := c2\<rparr>)" ..
  with c'(3) show ?thesis by blast
qed

section \<open>The superblock copy of the device\<close>

lemma blkdev_write_superblock_overread:
  assumes "bd_superblock dev = Some sb" "superblock_wf sb"
  shows "blkdev_write_superblock now dev = None"
proof -
  have "superblock_wf (sb\<lparr>sb_write_time := now\<rparr>)" using assms(2) by (simp add: superblock_wf_def)
  then show ?thesis using assms(1)
    by (simp add: blkdev_write_superblock_def Let_def buf_read_def length_encode_superblock)
qed

lemma blkdev_load_superblock_spec:
  assumes ok: "dev_ok dev" and b: "0 < bd_total_blocks dev" and mem: "\<not> bd_oom dev"
    and good: "\<not> dk_read_bad (bd_disk dev) 0"
  shows "\<exists>dev'. dev_ok dev' \<and> dev_view dev' = dev_view dev \<and>
     (let sb = decode_superblock (slice 0 sizeof_superblock (dev_view dev 0)) in
      if sb_magic sb = SUPERBLOCK_MAGIC
      then blkdev_load_superblock dev = Some (0, dev') \<and> bd_superblock dev' = Some sb
      else blkdev_load_superblock dev = Some (- EINVAL, dev') \<and> bd_superblock dev' = None)"
proof -
  have "readable dev 0" using good by (simp add: readable_def)
  with blkdev_read_spec [OF dev_ok_coherent [OF ok], of 0] b ok obtain dev' where
    r: "blkdev_read dev 0 = Some (Inr (dev_view dev 0), dev')" "dev_ok dev'" "dev_view dev' = dev_view dev" by auto
  have len: "length (dev_view dev 0) = BLOCK_SIZE" using ok by (rule blkdev.view_length)
  have sok: "dev_ok (dev'\<lparr>bd_superblock := p\<rparr>)" "dev_view (dev'\<lparr>bd_superblock := p\<rparr>) = dev_view dev'" for p
    using r(2) by (simp_all add: dev_ok_def dev_coherent_def dev_wf_def dev_view_def)
  let ?sb = "decode_superblock (slice 0 sizeof_superblock (dev_view dev 0))"
  show ?thesis
    using r sok mem len
    by (intro exI [of _ "dev'\<lparr>bd_superblock := if sb_magic ?sb = SUPERBLOCK_MAGIC then Some ?sb else None\<rparr>"])
       (simp add: blkdev_load_superblock_def buf_read_Some Let_def)
qed

end
