(* ===== verification/Bitmap.thy ===== *)
theory Bitmap
  imports Prelude
begin

text \<open>
  The bitmaps of \<open>src/block_alloc.c\<close> and \<open>src/inode.c\<close>: byte buffers read and written bit by bit.
  An access outside the buffer is undefined.  \<open>bits\<close> is the abstract bitmap; \<open>free_bits\<close> its
  zero bits below a bound, whose number the allocators cache.
\<close>

section \<open>Operations\<close>

definition bitmap_test :: "byte list \<Rightarrow> u32 \<Rightarrow> bool option" where
  "bitmap_test bitmap b =
     (let byte = unat (b div 8); offset = unat (b mod 8) in
      if byte < length bitmap then Some (bitmap ! byte AND push_bit offset 1 \<noteq> 0) else None)"

definition bitmap_set :: "byte list \<Rightarrow> u32 \<Rightarrow> byte list option" where
  "bitmap_set bitmap b =
     (let byte = unat (b div 8); offset = unat (b mod 8) in
      if byte < length bitmap then Some (bitmap[byte := bitmap ! byte OR push_bit offset 1]) else None)"

definition bitmap_clear :: "byte list \<Rightarrow> u32 \<Rightarrow> byte list option" where
  "bitmap_clear bitmap b =
     (let byte = unat (b div 8); offset = unat (b mod 8) in
      if byte < length bitmap then Some (bitmap[byte := bitmap ! byte AND NOT (push_bit offset 1)]) else None)"

section \<open>The abstract bitmap\<close>

definition bits :: "byte list \<Rightarrow> nat \<Rightarrow> bool" where
  "bits bm k \<longleftrightarrow> bit (bm ! (k div 8)) (k mod 8)"

definition free_bits :: "byte list \<Rightarrow> nat \<Rightarrow> nat set" where
  "free_bits bm n = {k. k < n \<and> \<not> bits bm k}"

lemma free_bits_iff [simp]: "k \<in> free_bits bm n \<longleftrightarrow> k < n \<and> \<not> bits bm k"
  by (simp add: free_bits_def)

lemma finite_free_bits [simp]: "finite (free_bits bm n)"
  by (simp add: free_bits_def)

lemma card_free_bits_le: "card (free_bits bm n) \<le> n"
proof -
  have "free_bits bm n \<subseteq> {..<n}" by auto
  from card_mono [OF _ this] show ?thesis by simp
qed

lemma bit_index:
  "unat (b div 8 :: u32) = unat b div 8" "unat (b mod 8 :: u32) = unat b mod 8"
  by (simp_all add: unat_div unat_mod)

lemma byte_mask_test: "(x :: byte) AND push_bit n 1 \<noteq> 0 \<longleftrightarrow> bit x n"
  by (simp only: bit_iff_and_push_bit_not_eq_0)

lemma in_bitmap: "unat (b :: u32) < 8 * n \<longleftrightarrow> unat b div 8 < n"
  by (simp add: div_less_iff_less_mult mult.commute)

lemma bitmap_test_bits:
  "unat b < 8 * length bm \<Longrightarrow> bitmap_test bm b = Some (bits bm (unat b))"
  using byte_mask_test [of "bm ! (unat b div 8)" "unat b mod 8"]
  by (simp add: bitmap_test_def Let_def bit_index in_bitmap bits_def)

lemma bitmap_test_None [simp]: "8 * length bm \<le> unat b \<Longrightarrow> bitmap_test bm b = None"
  using in_bitmap [of b "length bm"] by (simp add: bitmap_test_def Let_def bit_index)

lemma div_mod_8_eq: "(k :: nat) div 8 = l div 8 \<Longrightarrow> k mod 8 = l mod 8 \<Longrightarrow> k = l"
  by (metis div_mult_mod_eq)

lemma bitmap_set_bits:
  assumes "unat b < 8 * length bm"
  shows "\<exists>bm'. bitmap_set bm b = Some bm' \<and> length bm' = length bm \<and> bits bm' = (bits bm)(unat b := True)"
proof -
  let ?bm = "bm[unat b div 8 := bm ! (unat b div 8) OR push_bit (unat b mod 8) 1]"
  have i: "unat b div 8 < length bm" using assms in_bitmap by simp
  have "bits ?bm k = ((bits bm)(unat b := True)) k" for k
    using i div_mod_8_eq [of k "unat b"] by (cases "k div 8 = unat b div 8") (auto simp: bits_def bit_simps)
  then show ?thesis using i by (simp add: bitmap_set_def Let_def bit_index fun_eq_iff)
qed

lemma bitmap_clear_bits:
  assumes "unat b < 8 * length bm"
  shows "\<exists>bm'. bitmap_clear bm b = Some bm' \<and> length bm' = length bm \<and> bits bm' = (bits bm)(unat b := False)"
proof -
  let ?bm = "bm[unat b div 8 := bm ! (unat b div 8) AND NOT (push_bit (unat b mod 8) 1)]"
  have i: "unat b div 8 < length bm" using assms in_bitmap by simp
  have "bits ?bm k = ((bits bm)(unat b := False)) k" for k
    using i div_mod_8_eq [of k "unat b"]
    by (cases "k div 8 = unat b div 8") (auto simp: bits_def bit_simps dest: bit_imp_le_length)
  then show ?thesis using i by (simp add: bitmap_clear_def Let_def bit_index fun_eq_iff)
qed

lemma free_bits_set:
  assumes "bits bm' = (bits bm)(k := True)"
  shows "free_bits bm' n = free_bits bm n - {k}"
  using assms by (auto simp: free_bits_def split: if_splits)

lemma free_bits_clear:
  assumes "bits bm' = (bits bm)(k := False)" "k < n"
  shows "free_bits bm' n = insert k (free_bits bm n)"
  using assms by (auto simp: free_bits_def split: if_splits)

section \<open>Counting and searching\<close>

text \<open>\<open>for (i = 0; i < n; i++) if (!bitmap_test(bitmap, i)) free++\<close>, from \<open>i\<close> on.\<close>

lemma u32_loop_measure [termination_simp]: "i < (n :: u32) \<Longrightarrow> unat n - unat (i + 1) < unat n - unat i"
  by (simp add: unat_plus_one_less word_less_nat_alt)

function count_free :: "byte list \<Rightarrow> u32 \<Rightarrow> u32 \<Rightarrow> u32 \<Rightarrow> u32 option" where
  "count_free bitmap n i acc =
     (if i < n then
        (case bitmap_test bitmap i of None \<Rightarrow> None
         | Some b \<Rightarrow> count_free bitmap n (i + 1) (if b then acc else acc + 1))
      else Some acc)"
  by auto
termination by (relation "measure (\<lambda>(bm, n, i, acc). unat n - unat i)") (auto simp: u32_loop_measure)

text \<open>\<open>for (i = 0; i < n; i++) if (!bitmap_test(bitmap, i))\<close> take \<open>i\<close>.\<close>

function find_free :: "byte list \<Rightarrow> u32 \<Rightarrow> u32 \<Rightarrow> u32 option option" where
  "find_free bitmap n i =
     (if i < n then
        (case bitmap_test bitmap i of None \<Rightarrow> None
         | Some b \<Rightarrow> if b then find_free bitmap n (i + 1) else Some (Some i))
      else Some None)"
  by auto
termination by (relation "measure (\<lambda>(bm, n, i). unat n - unat i)") (auto simp: u32_loop_measure)

declare count_free.simps [simp del] find_free.simps [simp del]

lemma count_free_card:
  assumes "unat n \<le> 8 * length bm" "i \<le> n" "unat acc + (unat n - unat i) < 2 ^ 32"
  shows "\<exists>r. count_free bm n i acc = Some r \<and>
     unat r = unat acc + card {k. unat i \<le> k \<and> k < unat n \<and> \<not> bits bm k}"
  using assms
proof (induction bm n i acc rule: count_free.induct)
  case (1 bm n i acc)
  show ?case
  proof (cases "i < n")
    case False
    then have "i = n" using 1(3) by simp
    then show ?thesis by (subst count_free.simps) simp
  next
    case True
    have i: "unat i < unat n" "unat (i + 1) = Suc (unat i)"
      using True by (simp_all add: word_less_nat_alt unat_plus_one_less)
    let ?b = "bits bm (unat i)" and ?acc = "if bits bm (unat i) then acc else acc + 1"
    have t: "bitmap_test bm i = Some ?b" using i 1(2) by (intro bitmap_test_bits) simp
    have acc: "unat ?acc = unat acc + (if ?b then 0 else 1)"
      using 1(4) i by (auto simp: unat_word_ariths)
    have le: "i + 1 \<le> n" using i by (simp add: word_le_nat_alt)
    have "unat ?acc + (unat n - unat (i + 1)) < 2 ^ 32" using acc 1(4) i by (auto split: if_splits)
    from 1(1) [OF True t 1(2) le this] obtain r where
      r: "count_free bm n (i + 1) ?acc = Some r"
        "unat r = unat ?acc + card {k. Suc (unat i) \<le> k \<and> k < unat n \<and> \<not> bits bm k}" using i by auto
    have "{k. unat i \<le> k \<and> k < unat n \<and> \<not> bits bm k} =
        (if ?b then {} else {unat i}) \<union> {k. Suc (unat i) \<le> k \<and> k < unat n \<and> \<not> bits bm k}"
      using i by (auto simp: Suc_le_eq le_less)
    then have "card {k. unat i \<le> k \<and> k < unat n \<and> \<not> bits bm k} =
        (if ?b then 0 else 1) + card {k. Suc (unat i) \<le> k \<and> k < unat n \<and> \<not> bits bm k}"
      by (auto simp: card_insert_if)
    then show ?thesis using r acc t True by (subst count_free.simps) auto
  qed
qed

corollary count_free_zero:
  assumes "unat n \<le> 8 * length bm"
  shows "\<exists>r. count_free bm n 0 0 = Some r \<and> unat r = card (free_bits bm (unat n))"
proof -
  have "unat n < 2 ^ 32" using unsigned_less [of n, where ?'a = nat] by simp
  from count_free_card [OF assms, of 0 0] this show ?thesis by (simp add: free_bits_def)
qed

lemma find_free_least:
  assumes "unat n \<le> 8 * length bm" "i \<le> n"
  shows "(\<exists>k. find_free bm n i = Some (Some k) \<and> i \<le> k \<and> k < n \<and> \<not> bits bm (unat k) \<and>
            (\<forall>j. unat i \<le> j \<and> j < unat k \<longrightarrow> bits bm j)) \<or>
         (find_free bm n i = Some None \<and> (\<forall>j. unat i \<le> j \<and> j < unat n \<longrightarrow> bits bm j))"
  using assms
proof (induction bm n i rule: find_free.induct)
  case (1 bm n i)
  show ?case
  proof (cases "i < n")
    case False
    then have "i = n" using 1(3) by simp
    then show ?thesis by (subst (1 2) find_free.simps) auto
  next
    case True
    have i: "unat i < unat n" "unat (i + 1) = Suc (unat i)"
      using True by (simp_all add: word_less_nat_alt unat_plus_one_less)
    have t: "bitmap_test bm i = Some (bits bm (unat i))" using i 1(2) by (intro bitmap_test_bits) simp
    show ?thesis
    proof (cases "bits bm (unat i)")
      case False
      then have "find_free bm n i = Some (Some i)" using t True by (subst find_free.simps) simp
      then show ?thesis using False True by auto
    next
      case b: True
      have step: "find_free bm n i = find_free bm n (i + 1)" using t True b by (subst find_free.simps) simp
      have le: "i + 1 \<le> n" using i by (simp add: word_le_nat_alt)
      have ext: "unat i \<le> j \<Longrightarrow> j = unat i \<or> unat (i + 1) \<le> j" for j using i by linarith
      from 1(1) [OF True t b 1(2) le] show ?thesis
        unfolding step
      proof (elim disjE exE conjE)
        fix k assume k: "find_free bm n (i + 1) = Some (Some k)" "i + 1 \<le> k" "k < n" "\<not> bits bm (unat k)"
          "\<forall>j. unat (i + 1) \<le> j \<and> j < unat k \<longrightarrow> bits bm j"
        have "\<forall>j. unat i \<le> j \<and> j < unat k \<longrightarrow> bits bm j" using k(5) ext b by metis
        moreover have "i \<le> k" using k(2) i by (simp add: word_le_nat_alt)
        ultimately show "(\<exists>k. find_free bm n (i + 1) = Some (Some k) \<and> i \<le> k \<and> k < n \<and> \<not> bits bm (unat k) \<and>
            (\<forall>j. unat i \<le> j \<and> j < unat k \<longrightarrow> bits bm j)) \<or>
         (find_free bm n (i + 1) = Some None \<and> (\<forall>j. unat i \<le> j \<and> j < unat n \<longrightarrow> bits bm j))"
          using k by blast
      next
        assume k: "find_free bm n (i + 1) = Some None" "\<forall>j. unat (i + 1) \<le> j \<and> j < unat n \<longrightarrow> bits bm j"
        have "\<forall>j. unat i \<le> j \<and> j < unat n \<longrightarrow> bits bm j" using k(2) ext b by metis
        with k(1) show "(\<exists>k. find_free bm n (i + 1) = Some (Some k) \<and> i \<le> k \<and> k < n \<and> \<not> bits bm (unat k) \<and>
            (\<forall>j. unat i \<le> j \<and> j < unat k \<longrightarrow> bits bm j)) \<or>
         (find_free bm n (i + 1) = Some None \<and> (\<forall>j. unat i \<le> j \<and> j < unat n \<longrightarrow> bits bm j))" by blast
      qed
    qed
  qed
qed

end
