(* ===== verification/Block_Alloc.thy ===== *)
theory Block_Alloc
  imports Bitmap Block_Dev Block_Store
begin

text \<open>
  \<open>src/block_alloc.c\<close>: the data-block allocator, a bitmap held in memory with a cached number of
  free blocks.  Its \<open>dev\<close> pointer is the one device of the file system, which every operation
  that uses it takes and returns.
\<close>

record block_allocator =
  ba_bitmap :: "byte list"
  ba_bitmap_blocks :: u32
  ba_total_blocks :: u32
  ba_free_blocks :: u32
  ba_data_start :: block_t
  ba_bitmap_start :: block_t
  ba_alloc_count :: u64
  ba_free_count :: u64

text \<open>
  \<open>oom\<close> tells whether one of the two allocations fails.  \<open>malloc\<close> leaves the bitmap
  indeterminate; zeros stand for it, and the loop overwrites all of it.
\<close>

definition block_alloc_init ::
  "bool \<Rightarrow> block_device \<Rightarrow> u32 \<Rightarrow> u32 \<Rightarrow> u32 \<Rightarrow> u32 \<Rightarrow> (block_allocator option \<times> block_device) option" where
  "block_alloc_init oom dev bitmap_start bitmap_blocks data_start total_blocks =
     (if oom then Some (None, dev)
      else do {
        let bitmap_size = unat (bitmap_blocks * 4096);
        (r, dev) \<leftarrow> load_blocks blkdev_read dev bitmap_start (replicate bitmap_size 0) (upto32 bitmap_blocks);
        (case r of
           Inl _ \<Rightarrow> Some (None, dev)
         | Inr bitmap \<Rightarrow> do {
             free_blocks \<leftarrow> count_free bitmap total_blocks 0 0;
             Some (Some \<lparr>ba_bitmap = bitmap, ba_bitmap_blocks = bitmap_blocks, ba_total_blocks = total_blocks,
               ba_free_blocks = free_blocks, ba_data_start = data_start, ba_bitmap_start = bitmap_start,
               ba_alloc_count = 0, ba_free_count = 0\<rparr>, dev) }) })"

text \<open>Block 0 is the failure value.\<close>

definition block_alloc :: "block_allocator \<Rightarrow> (block_t \<times> block_allocator) option" where
  "block_alloc alc =
     (if ba_free_blocks alc = 0 then Some (0, alc)
      else do {
        r \<leftarrow> find_free (ba_bitmap alc) (ba_total_blocks alc) 0;
        (case r of
           None \<Rightarrow> Some (0, alc)
         | Some i \<Rightarrow> do {
             bm \<leftarrow> bitmap_set (ba_bitmap alc) i;
             Some (ba_data_start alc + i,
               alc\<lparr>ba_bitmap := bm, ba_free_blocks := ba_free_blocks alc - 1,
                   ba_alloc_count := ba_alloc_count alc + 1\<rparr>) }) })"

definition block_free :: "block_allocator \<Rightarrow> block_t \<Rightarrow> (int \<times> block_allocator) option" where
  "block_free alc block =
     (if block < ba_data_start alc \<or> ba_data_start alc + ba_total_blocks alc \<le> block then Some (- EINVAL, alc)
      else do {
        let b = block - ba_data_start alc;
        t \<leftarrow> bitmap_test (ba_bitmap alc) b;
        (if \<not> t then Some (- EINVAL, alc)
         else do {
           bm \<leftarrow> bitmap_clear (ba_bitmap alc) b;
           Some (0, alc\<lparr>ba_bitmap := bm, ba_free_blocks := ba_free_blocks alc + 1,
                        ba_free_count := ba_free_count alc + 1\<rparr>) }) })"

text \<open>The first-fit scan: \<open>consecutive\<close> free bits from \<open>start\<close> on end just before \<open>i\<close>.\<close>

function find_run :: "byte list \<Rightarrow> u32 \<Rightarrow> u32 \<Rightarrow> u32 \<Rightarrow> u32 \<Rightarrow> u32 \<Rightarrow> u32 option option" where
  "find_run bitmap n count i consecutive start =
     (if i < n then
        (case bitmap_test bitmap i of None \<Rightarrow> None
         | Some b \<Rightarrow>
             if b then find_run bitmap n count (i + 1) 0 start
             else (let start' = (if consecutive = 0 then i else start); consecutive' = consecutive + 1 in
                   if count \<le> consecutive' then Some (Some start')
                   else find_run bitmap n count (i + 1) consecutive' start'))
      else Some None)"
  by auto
termination by (relation "measure (\<lambda>(bm, n, count, i, c, s). unat n - unat i)") (auto simp: u32_loop_measure)

text \<open>\<open>for (j = start; j < end; j++) bitmap_set(bitmap, j)\<close>\<close>

function set_range :: "byte list \<Rightarrow> u32 \<Rightarrow> u32 \<Rightarrow> byte list option" where
  "set_range bitmap j end =
     (if j < end then (case bitmap_set bitmap j of None \<Rightarrow> None | Some bm \<Rightarrow> set_range bm (j + 1) end)
      else Some bitmap)"
  by auto
termination by (relation "measure (\<lambda>(bm, j, e). unat e - unat j)") (auto simp: u32_loop_measure)

text \<open>\<open>for (i = 0; i < count; i++)\<close> test or clear bit \<open>base + i\<close>; the test stops at the first free bit.\<close>

function test_range :: "byte list \<Rightarrow> u32 \<Rightarrow> u32 \<Rightarrow> u32 \<Rightarrow> bool option" where
  "test_range bitmap base count i =
     (if i < count then
        (case bitmap_test bitmap (base + i) of None \<Rightarrow> None
         | Some b \<Rightarrow> if b then test_range bitmap base count (i + 1) else Some False)
      else Some True)"
  by auto
termination by (relation "measure (\<lambda>(bm, b, n, i). unat n - unat i)") (auto simp: u32_loop_measure)

function clear_range :: "byte list \<Rightarrow> u32 \<Rightarrow> u32 \<Rightarrow> u32 \<Rightarrow> byte list option" where
  "clear_range bitmap base count i =
     (if i < count then
        (case bitmap_clear bitmap (base + i) of None \<Rightarrow> None | Some bm \<Rightarrow> clear_range bm base count (i + 1))
      else Some bitmap)"
  by auto
termination by (relation "measure (\<lambda>(bm, b, n, i). unat n - unat i)") (auto simp: u32_loop_measure)

declare find_run.simps [simp del] set_range.simps [simp del] test_range.simps [simp del] clear_range.simps [simp del]

text \<open>The two out-parameters are the result pair.\<close>

definition block_alloc_multiple ::
  "block_allocator \<Rightarrow> u32 \<Rightarrow> ((int + block_t \<times> u32) \<times> block_allocator) option" where
  "block_alloc_multiple alc count =
     (if count = 0 then Some (Inl (- EINVAL), alc)
      else if ba_free_blocks alc < count then Some (Inl (- ENOSPC), alc)
      else do {
        r \<leftarrow> find_run (ba_bitmap alc) (ba_total_blocks alc) count 0 0 0;
        (case r of
           None \<Rightarrow> Some (Inl (- ENOSPC), alc)
         | Some start \<Rightarrow> do {
             bm \<leftarrow> set_range (ba_bitmap alc) start (start + count);
             Some (Inr (ba_data_start alc + start, count),
               alc\<lparr>ba_bitmap := bm, ba_free_blocks := ba_free_blocks alc - count,
                   ba_alloc_count := ba_alloc_count alc + ucast count\<rparr>) }) })"

definition block_free_multiple :: "block_allocator \<Rightarrow> block_t \<Rightarrow> u32 \<Rightarrow> (int \<times> block_allocator) option" where
  "block_free_multiple alc start count =
     (if count = 0 then Some (- EINVAL, alc)
      else if start < ba_data_start alc \<or> ba_data_start alc + ba_total_blocks alc < start + count
      then Some (- EINVAL, alc)
      else do {
        let bit_start = start - ba_data_start alc;
        t \<leftarrow> test_range (ba_bitmap alc) bit_start count 0;
        (if \<not> t then Some (- EINVAL, alc)
         else do {
           bm \<leftarrow> clear_range (ba_bitmap alc) bit_start count 0;
           Some (0, alc\<lparr>ba_bitmap := bm, ba_free_blocks := ba_free_blocks alc + count,
                        ba_free_count := ba_free_count alc + ucast count\<rparr>) }) })"

definition block_is_allocated :: "block_allocator \<Rightarrow> block_t \<Rightarrow> bool option" where
  "block_is_allocated alc block =
     (if block < ba_data_start alc \<or> ba_data_start alc + ba_total_blocks alc \<le> block then Some False
      else bitmap_test (ba_bitmap alc) (block - ba_data_start alc))"

text \<open>After the write the free count goes to the device's superblock copy, if it has one.\<close>

definition block_alloc_sync :: "block_allocator \<Rightarrow> block_device \<Rightarrow> (int \<times> block_device) option" where
  "block_alloc_sync alc dev = do {
     (ret, dev) \<leftarrow> store_blocks blkdev_write dev (ba_bitmap_start alc) (ba_bitmap alc) (upto32 (ba_bitmap_blocks alc));
     (if ret < 0 then Some (ret, dev)
      else Some (0, dev\<lparr>bd_superblock := map_option (\<lambda>sb. sb\<lparr>sb_free_blocks := ba_free_blocks alc\<rparr>) (bd_superblock dev)\<rparr>))
   }"

definition block_alloc_destroy :: "block_allocator \<Rightarrow> block_device \<Rightarrow> block_device option" where
  "block_alloc_destroy alc dev = do { (_, dev) \<leftarrow> block_alloc_sync alc dev; Some dev }"

text \<open>\<open>block_alloc_stats\<close>: total, free, used, and usage as the quotient of used and total.\<close>

definition block_alloc_stats :: "block_allocator \<Rightarrow> u32 \<times> u32 \<times> u32 \<times> (u32 \<times> u32)" where
  "block_alloc_stats alc =
     (ba_total_blocks alc, ba_free_blocks alc, ba_total_blocks alc - ba_free_blocks alc,
      (ba_total_blocks alc - ba_free_blocks alc, ba_total_blocks alc))"

end
