(* ===== verification/Block_Alloc_Spec.thy ===== *)
theory Block_Alloc_Spec
  imports Block_Alloc Block_Dev_Contract
begin

text \<open>
  The abstract allocator is a set of allocated blocks inside a pool.  Every operation is shown
  to be memory safe, to keep the invariant (the cached number of free blocks is right) and to
  act on that set as specified; allocation takes the least free block, or the least run.
\<close>

section \<open>Invariant and abstraction\<close>

definition alloc_wf :: "block_allocator \<Rightarrow> bool" where
  "alloc_wf alc \<longleftrightarrow> unat (ba_total_blocks alc) \<le> 8 * length (ba_bitmap alc) \<and>
     unat (ba_free_blocks alc) = card (free_bits (ba_bitmap alc) (unat (ba_total_blocks alc))) \<and>
     unat (ba_data_start alc) + unat (ba_total_blocks alc) < 2 ^ 32 \<and> 0 < ba_data_start alc"

definition pool :: "block_allocator \<Rightarrow> block_t set" where
  "pool alc = {b. ba_data_start alc \<le> b \<and> unat b < unat (ba_data_start alc) + unat (ba_total_blocks alc)}"

definition allocated :: "block_allocator \<Rightarrow> block_t set" where
  "allocated alc = {b \<in> pool alc. bits (ba_bitmap alc) (unat b - unat (ba_data_start alc))}"

definition alloc_static :: "block_allocator \<Rightarrow> block_allocator \<Rightarrow> bool" where
  "alloc_static alc alc' \<longleftrightarrow> ba_total_blocks alc' = ba_total_blocks alc \<and> ba_data_start alc' = ba_data_start alc \<and>
     ba_bitmap_start alc' = ba_bitmap_start alc \<and> ba_bitmap_blocks alc' = ba_bitmap_blocks alc \<and>
     length (ba_bitmap alc') = length (ba_bitmap alc)"

lemma alloc_static_refl [simp]: "alloc_static alc alc"
  by (simp add: alloc_static_def)

lemma alloc_static_trans: "alloc_static a b \<Longrightarrow> alloc_static b c \<Longrightarrow> alloc_static a c"
  by (simp add: alloc_static_def)

lemma alloc_static_pool: "alloc_static alc alc' \<Longrightarrow> pool alc' = pool alc"
  by (simp add: alloc_static_def pool_def)

lemma allocated_pool: "allocated alc \<subseteq> pool alc"
  by (auto simp: allocated_def)

text \<open>Block \<open>k\<close> of the pool.\<close>

definition nth_block :: "block_allocator \<Rightarrow> nat \<Rightarrow> block_t" where
  "nth_block alc k = ba_data_start alc + of_nat k"

lemma unat_nth_block:
  assumes "alloc_wf alc" "k < unat (ba_total_blocks alc)"
  shows "unat (nth_block alc k) = unat (ba_data_start alc) + k"
proof -
  have "k < 2 ^ 32" using assms unsigned_less [of "ba_total_blocks alc", where ?'a = nat] by simp
  then have "unat (of_nat k :: u32) = k" by (simp add: unat_of_nat)
  then show ?thesis using assms by (simp add: nth_block_def unat_word_ariths alloc_wf_def)
qed

lemma nth_block_unat: "nth_block alc (unat i) = ba_data_start alc + i"
  by (simp add: nth_block_def)

lemma pool_nth:
  assumes "alloc_wf alc"
  shows "pool alc = nth_block alc ` {..<unat (ba_total_blocks alc)}"
proof (intro equalityI subsetI)
  fix b assume b: "b \<in> pool alc"
  then have lt: "unat b - unat (ba_data_start alc) < unat (ba_total_blocks alc)"
    "unat (ba_data_start alc) \<le> unat b"
    by (auto simp: pool_def word_le_nat_alt)
  then have "unat (nth_block alc (unat b - unat (ba_data_start alc))) = unat b"
    using unat_nth_block [OF assms lt(1)] by simp
  then have "b = nth_block alc (unat b - unat (ba_data_start alc))" by (simp only: word_unat_eq_iff)
  with lt show "b \<in> nth_block alc ` {..<unat (ba_total_blocks alc)}" by blast
next
  fix b assume "b \<in> nth_block alc ` {..<unat (ba_total_blocks alc)}"
  then obtain k where "k < unat (ba_total_blocks alc)" "b = nth_block alc k" by auto
  then show "b \<in> pool alc" using unat_nth_block [OF assms] by (simp add: pool_def word_le_nat_alt)
qed

lemma nth_block_allocated:
  assumes "alloc_wf alc" "k < unat (ba_total_blocks alc)"
  shows "nth_block alc k \<in> allocated alc \<longleftrightarrow> bits (ba_bitmap alc) k" "nth_block alc k \<in> pool alc"
  using assms pool_nth [OF assms(1)] unat_nth_block [OF assms] by (auto simp: allocated_def)

lemma nth_block_inj:
  assumes "alloc_wf alc" "j < unat (ba_total_blocks alc)" "k < unat (ba_total_blocks alc)"
    "nth_block alc j = nth_block alc k"
  shows "j = k"
proof -
  have "unat (ba_data_start alc) + j = unat (ba_data_start alc) + k"
    using unat_nth_block [OF assms(1,2)] unat_nth_block [OF assms(1,3)] assms(4) by metis
  then show ?thesis by simp
qed

lemma nth_block_less:
  assumes "alloc_wf alc" "j < unat (ba_total_blocks alc)" "k < unat (ba_total_blocks alc)"
  shows "nth_block alc j < nth_block alc k \<longleftrightarrow> j < k"
  using unat_nth_block [OF assms(1,2)] unat_nth_block [OF assms(1,3)] by (simp add: word_less_nat_alt)

text \<open>Flipping the bits of a set of indices.\<close>

lemma allocated_flip:
  assumes wf: "alloc_wf alc" and st: "alloc_static alc alc'" and S: "S \<subseteq> {..<unat (ba_total_blocks alc)}"
    and b: "bits (ba_bitmap alc') = (\<lambda>k. if k \<in> S then v else bits (ba_bitmap alc) k)"
  shows "allocated alc' = (if v then allocated alc \<union> nth_block alc ` S else allocated alc - nth_block alc ` S)"
proof -
  have p: "pool alc' = pool alc" using st by (rule alloc_static_pool)
  have ds: "ba_data_start alc' = ba_data_start alc" using st by (simp add: alloc_static_def)
  have "x \<in> allocated alc' \<longleftrightarrow> x \<in> (if v then allocated alc \<union> nth_block alc ` S else allocated alc - nth_block alc ` S)" for x
  proof (cases "x \<in> pool alc")
    case True
    then obtain k where k: "k < unat (ba_total_blocks alc)" "x = nth_block alc k"
      using pool_nth [OF wf] by auto
    have "k \<in> S" if "x \<in> nth_block alc ` S"
    proof -
      from that obtain j where j: "j \<in> S" "x = nth_block alc j" by blast
      then have "j < unat (ba_total_blocks alc)" using S by blast
      moreover have "nth_block alc k = nth_block alc j" using j(2) k(2) by metis
      ultimately have "k = j" by (rule nth_block_inj [OF wf k(1)])
      then show ?thesis using j(1) by simp
    qed
    then have "x \<in> nth_block alc ` S \<longleftrightarrow> k \<in> S" using k(2) by blast
    moreover have "x \<in> allocated alc' \<longleftrightarrow> (if k \<in> S then v else bits (ba_bitmap alc) k)"
      using k True p ds unat_nth_block [OF wf k(1)] by (simp add: allocated_def b)
    ultimately show ?thesis using k nth_block_allocated(1) [OF wf k(1)] by auto
  next
    case False
    then have "x \<notin> nth_block alc ` S" using S pool_nth [OF wf] by auto
    with False show ?thesis using p by (auto simp: allocated_def)
  qed
  then show ?thesis by blast
qed

lemma free_bits_flip:
  assumes "S \<subseteq> {..<n}" "bits bm' = (\<lambda>k. if k \<in> S then v else bits bm k)"
  shows "free_bits bm' n = (if v then free_bits bm n - S else free_bits bm n \<union> S)"
  using assms by (auto simp: free_bits_def)

text \<open>The number of free blocks is that of the abstract state.\<close>

lemma free_blocks_card:
  assumes "alloc_wf alc"
  shows "unat (ba_free_blocks alc) = card (pool alc - allocated alc)"
proof -
  have "pool alc - allocated alc = nth_block alc ` free_bits (ba_bitmap alc) (unat (ba_total_blocks alc))"
    using pool_nth [OF assms] nth_block_allocated [OF assms] by auto
  moreover have "inj_on (nth_block alc) (free_bits (ba_bitmap alc) (unat (ba_total_blocks alc)))"
    using nth_block_inj [OF assms] by (auto intro: inj_onI)
  ultimately show ?thesis using assms by (simp add: alloc_wf_def card_image)
qed

lemma zero_not_pool: "alloc_wf alc \<Longrightarrow> 0 \<notin> pool alc"
  by (auto simp: alloc_wf_def pool_def)

lemma finite_pool: "finite (pool alc)"
  by simp

section \<open>Single blocks\<close>

text \<open>The invariant after a change of the bits \<open>S\<close>.\<close>

lemma alloc_wf_flip:
  assumes wf: "alloc_wf alc" and st: "alloc_static alc alc'" and S: "S \<subseteq> {..<unat (ba_total_blocks alc)}"
    and b: "bits (ba_bitmap alc') = (\<lambda>k. if k \<in> S then v else bits (ba_bitmap alc) k)"
    and old: "\<And>k. k \<in> S \<Longrightarrow> bits (ba_bitmap alc) k = (\<not> v)"
    and f: "if v then unat (ba_free_blocks alc') + card S = unat (ba_free_blocks alc)
            else unat (ba_free_blocks alc') = unat (ba_free_blocks alc) + card S"
  shows "alloc_wf alc'"
proof -
  let ?n = "unat (ba_total_blocks alc)"
  have fb: "free_bits (ba_bitmap alc') ?n = (if v then free_bits (ba_bitmap alc) ?n - S else free_bits (ba_bitmap alc) ?n \<union> S)"
    using S b by (rule free_bits_flip)
  have fin: "finite S" using S by (rule finite_subset) simp
  have "card (free_bits (ba_bitmap alc') ?n) =
      (if v then card (free_bits (ba_bitmap alc) ?n) - card S else card (free_bits (ba_bitmap alc) ?n) + card S)"
  proof (cases v)
    case True
    then have "S \<subseteq> free_bits (ba_bitmap alc) ?n" using old S by auto
    then show ?thesis using True fb fin by (simp add: card_Diff_subset)
  next
    case False
    then have "free_bits (ba_bitmap alc) ?n \<inter> S = {}" using old by auto
    then show ?thesis using False fb fin by (simp add: card_Un_disjoint)
  qed
  then have "unat (ba_free_blocks alc') = card (free_bits (ba_bitmap alc') ?n)"
    using f wf by (auto simp: alloc_wf_def split: if_splits)
  then show ?thesis using wf st by (simp add: alloc_wf_def alloc_static_def)
qed

lemma block_alloc_spec:
  assumes wf: "alloc_wf alc"
  shows "\<exists>b alc'. block_alloc alc = Some (b, alc') \<and> alloc_wf alc' \<and> alloc_static alc alc' \<and>
     (if pool alc \<subseteq> allocated alc then b = 0 \<and> alc' = alc
      else b \<in> pool alc - allocated alc \<and> (\<forall>x \<in> pool alc - allocated alc. b \<le> x) \<and>
        allocated alc' = insert b (allocated alc) \<and>
        unat (ba_free_blocks alc) = Suc (unat (ba_free_blocks alc')))"
proof (cases "ba_free_blocks alc = 0")
  case True
  then have "card (pool alc - allocated alc) = 0" using free_blocks_card [OF wf] by simp
  then have "pool alc \<subseteq> allocated alc" by simp
  then show ?thesis using True wf by (simp add: block_alloc_def)
next
  case False
  let ?n = "ba_total_blocks alc" and ?bm = "ba_bitmap alc"
  have len: "unat ?n \<le> 8 * length ?bm" using wf by (simp add: alloc_wf_def)
  have ne: "free_bits ?bm (unat ?n) \<noteq> {}"
  proof
    assume e: "free_bits ?bm (unat ?n) = {}"
    have "unat (ba_free_blocks alc) = card (free_bits ?bm (unat ?n))" using wf by (simp add: alloc_wf_def)
    with e False show False by (simp add: unat_eq_zero)
  qed
  then obtain k0 where "k0 < unat ?n" "\<not> bits ?bm k0" by auto
  with find_free_least [OF len, of 0] obtain k where
    k: "find_free ?bm ?n 0 = Some (Some k)" "k < ?n" "\<not> bits ?bm (unat k)" "\<And>j. j < unat k \<Longrightarrow> bits ?bm j"
    by auto
  have kn: "unat k < unat ?n" using k(2) by (simp add: word_less_nat_alt)
  then obtain bm where bm: "bitmap_set ?bm k = Some bm" "length bm = length ?bm" "bits bm = (bits ?bm)(unat k := True)"
    using bitmap_set_bits [of k ?bm] len by auto
  let ?alc = "alc\<lparr>ba_bitmap := bm, ba_free_blocks := ba_free_blocks alc - 1, ba_alloc_count := ba_alloc_count alc + 1\<rparr>"
  have al: "block_alloc alc = Some (nth_block alc (unat k), ?alc)"
    using False k(1) bm(1) by (simp add: block_alloc_def nth_block_unat)
  have st: "alloc_static alc ?alc" using bm(2) by (simp add: alloc_static_def)
  have S: "{unat k} \<subseteq> {..<unat ?n}" using kn by simp
  have b: "bits (ba_bitmap ?alc) = (\<lambda>j. if j \<in> {unat k} then True else bits ?bm j)" using bm(3) by auto
  have pos: "0 < ba_free_blocks alc" using False by (simp add: word_gt_0)
  then have f: "unat (ba_free_blocks ?alc) = unat (ba_free_blocks alc) - 1" "0 < unat (ba_free_blocks alc)"
    by (simp_all add: unat_minus_one_pos word_less_nat_alt)
  have "alloc_wf ?alc" using f k(3) by (intro alloc_wf_flip [OF wf st S b]) auto
  moreover have "allocated ?alc = insert (nth_block alc (unat k)) (allocated alc)"
    using allocated_flip [OF wf st S b] by simp
  moreover have in_pool: "nth_block alc (unat k) \<in> pool alc - allocated alc"
    using nth_block_allocated [OF wf kn] k(3) by simp
  moreover have "nth_block alc (unat k) \<le> x" if "x \<in> pool alc - allocated alc" for x
  proof -
    from that obtain j where j: "j < unat ?n" "x = nth_block alc j" using pool_nth [OF wf] by auto
    with that nth_block_allocated [OF wf j(1)] k(4) have "\<not> j < unat k" by auto
    then show ?thesis using nth_block_less [OF wf j(1) kn] j(2) by (simp add: not_less [symmetric])
  qed
  ultimately show ?thesis using al st f by auto
qed

lemma block_index:
  assumes wf: "alloc_wf alc" and b: "b \<in> pool alc"
  shows "unat (b - ba_data_start alc) < unat (ba_total_blocks alc)"
    "nth_block alc (unat (b - ba_data_start alc)) = b"
    "bitmap_test (ba_bitmap alc) (b - ba_data_start alc) = Some (b \<in> allocated alc)"
    "bits (ba_bitmap alc) (unat (b - ba_data_start alc)) = (b \<in> allocated alc)"
proof -
  have le: "unat (ba_data_start alc) \<le> unat b" using b by (simp add: pool_def word_le_nat_alt)
  have u: "unat (b - ba_data_start alc) = unat b - unat (ba_data_start alc)"
    using le by (simp add: unat_sub word_le_nat_alt)
  have "unat b < unat (ba_data_start alc) + unat (ba_total_blocks alc)" using b by (simp add: pool_def)
  then show lt: "unat (b - ba_data_start alc) < unat (ba_total_blocks alc)" using u le by linarith
  show n: "nth_block alc (unat (b - ba_data_start alc)) = b" by (simp add: nth_block_def)
  show bt: "bits (ba_bitmap alc) (unat (b - ba_data_start alc)) = (b \<in> allocated alc)"
    using nth_block_allocated(1) [OF wf lt] n by simp
  have "unat (b - ba_data_start alc) < 8 * length (ba_bitmap alc)" using lt wf by (simp add: alloc_wf_def)
  then show "bitmap_test (ba_bitmap alc) (b - ba_data_start alc) = Some (b \<in> allocated alc)"
    using bt by (simp add: bitmap_test_bits)
qed

lemma pool_range:
  assumes "alloc_wf alc"
  shows "b \<in> pool alc \<longleftrightarrow> \<not> (b < ba_data_start alc \<or> ba_data_start alc + ba_total_blocks alc \<le> b)"
proof -
  have "unat (ba_data_start alc + ba_total_blocks alc) = unat (ba_data_start alc) + unat (ba_total_blocks alc)"
    using assms by (simp add: alloc_wf_def unat_word_ariths)
  then show ?thesis by (auto simp: pool_def word_le_nat_alt word_less_nat_alt)
qed

lemma block_is_allocated_spec:
  assumes "alloc_wf alc"
  shows "block_is_allocated alc b = Some (b \<in> allocated alc)"
proof (cases "b \<in> pool alc")
  case True
  then show ?thesis using block_index(3) [OF assms True] pool_range [OF assms, of b]
    by (auto simp: block_is_allocated_def)
next
  case False
  then show ?thesis using pool_range [OF assms, of b] allocated_pool by (auto simp: block_is_allocated_def)
qed

lemma block_free_spec:
  assumes wf: "alloc_wf alc"
  shows "\<exists>alc'. block_free alc b = Some (if b \<in> allocated alc then 0 else - EINVAL, alc') \<and>
     alloc_wf alc' \<and> alloc_static alc alc' \<and> allocated alc' = allocated alc - {b} \<and>
     (b \<notin> allocated alc \<longrightarrow> alc' = alc)"
proof (cases "b \<in> allocated alc")
  case False
  then have "block_free alc b = Some (- EINVAL, alc)"
    using block_index(3) [OF wf, of b] pool_range [OF wf, of b] by (auto simp: block_free_def Let_def)
  then show ?thesis using False wf by simp
next
  case True
  then have p: "b \<in> pool alc" using allocated_pool by blast
  let ?k = "unat (b - ba_data_start alc)"
  note ix = block_index [OF wf p]
  have "?k < 8 * length (ba_bitmap alc)" using ix(1) wf by (simp add: alloc_wf_def)
  then obtain bm where bm: "bitmap_clear (ba_bitmap alc) (b - ba_data_start alc) = Some bm"
    "length bm = length (ba_bitmap alc)" "bits bm = (bits (ba_bitmap alc))(?k := False)"
    using bitmap_clear_bits by blast
  let ?alc = "alc\<lparr>ba_bitmap := bm, ba_free_blocks := ba_free_blocks alc + 1, ba_free_count := ba_free_count alc + 1\<rparr>"
  have fr: "block_free alc b = Some (0, ?alc)"
    using True ix(3) bm(1) p pool_range [OF wf, of b] by (simp add: block_free_def Let_def)
  have st: "alloc_static alc ?alc" using bm(2) by (simp add: alloc_static_def)
  have S: "{?k} \<subseteq> {..<unat (ba_total_blocks alc)}" using ix(1) by simp
  have bs: "bits (ba_bitmap ?alc) = (\<lambda>j. if j \<in> {?k} then False else bits (ba_bitmap alc) j)" using bm(3) by auto
  have "free_bits (ba_bitmap alc) (unat (ba_total_blocks alc)) \<subseteq> {..<unat (ba_total_blocks alc)} - {?k}"
    using ix(4) True by auto
  then have "card (free_bits (ba_bitmap alc) (unat (ba_total_blocks alc))) \<le> card ({..<unat (ba_total_blocks alc)} - {?k})"
    by (intro card_mono) auto
  then have "unat (ba_free_blocks alc) < unat (ba_total_blocks alc)" using ix(1) wf by (simp add: alloc_wf_def)
  then have f: "unat (ba_free_blocks alc + 1) = Suc (unat (ba_free_blocks alc))"
    by (intro unat_plus_one_less [of _ "ba_total_blocks alc"]) (simp add: word_less_nat_alt)
  have "alloc_wf ?alc" using f ix(4) True by (intro alloc_wf_flip [OF wf st S bs]) auto
  moreover have "allocated ?alc = allocated alc - {b}"
    using allocated_flip [OF wf st S bs] ix(2) by simp
  ultimately show ?thesis using fr st True by simp
qed

end
