(* ===== verification/Block_Alloc_Run.thy ===== *)
theory Block_Alloc_Run
  imports Block_Alloc_Spec
begin

text \<open>
  Runs of consecutive blocks, and the allocator on the device: the first-fit scan, allocation and
  release of runs, loading and storing the bitmap.
\<close>

section \<open>The first-fit scan\<close>

definition free_run :: "byte list \<Rightarrow> nat \<Rightarrow> nat \<Rightarrow> nat \<Rightarrow> bool" where
  "free_run bm n s count \<longleftrightarrow> s + count \<le> n \<and> (\<forall>j. s \<le> j \<and> j < s + count \<longrightarrow> \<not> bits bm j)"

text \<open>State of the scan at \<open>i\<close>: a maximal run of \<open>c\<close> free bits ends there, and none of the length sought did before.\<close>

definition scan_inv :: "byte list \<Rightarrow> nat \<Rightarrow> nat \<Rightarrow> nat \<Rightarrow> nat \<Rightarrow> bool" where
  "scan_inv bm count i c s \<longleftrightarrow> c \<le> i \<and> c < count \<and> (0 < c \<longrightarrow> s = i - c) \<and>
     (\<forall>j. i - c \<le> j \<and> j < i \<longrightarrow> \<not> bits bm j) \<and> (i - c = 0 \<or> bits bm (i - c - 1)) \<and>
     (\<forall>s. \<not> free_run bm i s count)"

lemma scan_inv_start: "0 < count \<Longrightarrow> scan_inv bm count 0 0 s"
  by (simp add: scan_inv_def free_run_def)

lemma scan_inv_used:
  assumes "scan_inv bm count i c s" "bits bm i"
  shows "scan_inv bm count (Suc i) 0 s"
proof -
  have "\<not> free_run bm (Suc i) s' count" for s'
  proof
    assume r: "free_run bm (Suc i) s' count"
    have "\<not> s' + count \<le> i" using assms(1) r by (auto simp: scan_inv_def free_run_def)
    then have "s' \<le> i \<and> i < s' + count" using r assms(1) by (auto simp: free_run_def scan_inv_def)
    with r assms(2) show False by (simp add: free_run_def)
  qed
  then show ?thesis using assms by (auto simp: scan_inv_def)
qed

lemma scan_inv_free:
  assumes inv: "scan_inv bm count i c s" and free: "\<not> bits bm i"
  defines "s' \<equiv> if c = 0 then i else s"
  shows "s' = i - c" "Suc c < count \<Longrightarrow> scan_inv bm count (Suc i) (Suc c) s'"
    "count \<le> Suc c \<Longrightarrow> s' + count = Suc i \<and> free_run bm (Suc i) s' count \<and> (\<forall>x < s'. \<not> free_run bm n x count)"
proof -
  show s': "s' = i - c" using inv by (auto simp: s'_def scan_inv_def)
  have ci: "c \<le> i" "c < count" using inv by (auto simp: scan_inv_def)
  have fr: "\<not> bits bm j" if "i - c \<le> j" "j < Suc i" for j
    using that inv free by (cases "j = i") (auto simp: scan_inv_def)
  have edge: "i - c = 0 \<or> bits bm (i - c - 1)" using inv by (simp add: scan_inv_def)
  have low: "\<not> free_run bm m x count" if "x < i - c" for x m
  proof
    assume r: "free_run bm m x count"
    show False
    proof (cases "x + count \<le> i - c - 1")
      case True
      then have "free_run bm i x count" using r by (auto simp: free_run_def)
      with inv show False by (simp add: scan_inv_def)
    next
      case False
      then have "\<not> bits bm (i - c - 1)" using r that by (simp add: free_run_def)
      with edge that show False by simp
    qed
  qed
  show "scan_inv bm count (Suc i) (Suc c) s'" if lt: "Suc c < count"
  proof -
    have "\<not> free_run bm (Suc i) x count" for x
      using low [of x "Suc i"] lt by (cases "x < i - c") (auto simp: free_run_def)
    then show ?thesis using ci lt s' fr edge by (auto simp: scan_inv_def)
  qed
  assume ge: "count \<le> Suc c"
  then have "count = Suc c" using ci by simp
  then show "s' + count = Suc i \<and> free_run bm (Suc i) s' count \<and> (\<forall>x < s'. \<not> free_run bm n x count)"
    using s' ci fr low by (auto simp: free_run_def)
qed

lemma free_run_mono: "free_run bm m s count \<Longrightarrow> m \<le> n \<Longrightarrow> free_run bm n s count"
  by (auto simp: free_run_def)

lemma find_run_spec:
  assumes "unat n \<le> 8 * length bm" "i \<le> n" "scan_inv bm (unat count) (unat i) (unat c) (unat s)"
  shows "(\<exists>k. find_run bm n count i c s = Some (Some k) \<and> free_run bm (unat n) (unat k) (unat count) \<and>
            (\<forall>x < unat k. \<not> free_run bm (unat n) x (unat count))) \<or>
         (find_run bm n count i c s = Some None \<and> (\<forall>x. \<not> free_run bm (unat n) x (unat count)))"
  using assms
proof (induction bm n count i c s rule: find_run.induct)
  case (1 bm n count i c s)
  show ?case
  proof (cases "i < n")
    case False
    then have "i = n" using 1(4) by simp
    then have "find_run bm n count i c s = Some None" by (subst find_run.simps) simp
    moreover have "\<forall>x. \<not> free_run bm (unat n) x (unat count)"
      using 1(5) \<open>i = n\<close> by (simp add: scan_inv_def)
    ultimately show ?thesis by blast
  next
    case True
    have i: "unat i < unat n" "unat (i + 1) = Suc (unat i)" and le: "i + 1 \<le> n"
      using True by (simp_all add: word_less_nat_alt word_le_nat_alt unat_plus_one_less)
    have t: "bitmap_test bm i = Some (bits bm (unat i))" using i 1(3) by (intro bitmap_test_bits) simp
    show ?thesis
    proof (cases "bits bm (unat i)")
      case b: True
      have "scan_inv bm (unat count) (unat (i + 1)) (unat (0 :: u32)) (unat s)"
        using scan_inv_used [OF 1(5) b] i by simp
      from 1(1) [OF True t b 1(3) le this] show ?thesis
        using True t b by (subst (1 2) find_run.simps) simp
    next
      case b: False
      let ?s = "if c = 0 then i else s"
      have c: "unat (c + 1) = Suc (unat c)"
        using 1(5) by (intro unat_plus_one_less [of c count]) (simp add: scan_inv_def word_less_nat_alt)
      have us: "unat ?s = (if unat c = 0 then unat i else unat s)" by (simp add: unat_eq_zero)
      note F = scan_inv_free [OF 1(5) b, folded us]
      show ?thesis
      proof (cases "count \<le> c + 1")
        case enough: True
        then have "unat count \<le> Suc (unat c)" using c by (simp add: word_le_nat_alt)
        from F(3) [OF this, of "unat n"] have "free_run bm (unat n) (unat ?s) (unat count)"
          "\<forall>x < unat ?s. \<not> free_run bm (unat n) x (unat count)"
          using i by (auto intro: free_run_mono)
        moreover have "find_run bm n count i c s = Some (Some ?s)"
          using True t b enough by (subst find_run.simps) (simp add: Let_def)
        ultimately show ?thesis by blast
      next
        case more: False
        then have "Suc (unat c) < unat count" using c by (simp add: word_le_nat_alt)
        from F(2) [OF this] have "scan_inv bm (unat count) (unat (i + 1)) (unat (c + 1)) (unat ?s)"
          using i c by simp
        from 1(2) [OF True t b refl refl more 1(3) le this] show ?thesis
          using True t b more by (subst (1 2) find_run.simps) (simp add: Let_def)
      qed
    qed
  qed
qed

section \<open>Loops over a range\<close>

lemma set_range_bits:
  assumes "unat e \<le> 8 * length bm" "j \<le> e"
  shows "\<exists>bm'. set_range bm j e = Some bm' \<and> length bm' = length bm \<and>
     bits bm' = (\<lambda>k. if k \<in> {unat j..<unat e} then True else bits bm k)"
  using assms
proof (induction bm j e rule: set_range.induct)
  case (1 bm j e)
  show ?case
  proof (cases "j < e")
    case False
    then have "j = e" using 1(3) by simp
    then show ?thesis by (subst set_range.simps) simp
  next
    case True
    have j: "unat j < unat e" "unat (j + 1) = Suc (unat j)" and le: "j + 1 \<le> e"
      using True by (simp_all add: word_less_nat_alt word_le_nat_alt unat_plus_one_less)
    obtain bm1 where bm1: "bitmap_set bm j = Some bm1" "length bm1 = length bm" "bits bm1 = (bits bm)(unat j := True)"
      using bitmap_set_bits [of j bm] j 1(2) by auto
    have "unat e \<le> 8 * length bm1" using bm1(2) 1(2) by simp
    from 1(1) [OF True bm1(1) this le] obtain bm2 where
      "set_range bm1 (j + 1) e = Some bm2" "length bm2 = length bm1"
      "bits bm2 = (\<lambda>k. if k \<in> {Suc (unat j)..<unat e} then True else bits bm1 k)" using j by auto
    moreover from this bm1(3) j have "bits bm2 = (\<lambda>k. if k \<in> {unat j..<unat e} then True else bits bm k)"
      by (auto simp: fun_eq_iff)
    ultimately show ?thesis using True bm1 by (subst set_range.simps) simp
  qed
qed

lemma unat_offset:
  fixes base count i :: u32
  assumes "unat base + unat count \<le> n" "n < 2 ^ 32" "i < count"
  shows "unat (base + i) = unat base + unat i" "unat base + unat i < n" "unat (i + 1) = Suc (unat i)"
    "i + 1 \<le> count"
proof -
  have i: "unat i < unat count" using assms(3) by (simp add: word_less_nat_alt)
  show "unat base + unat i < n" using i assms(1) by linarith
  then show "unat (base + i) = unat base + unat i" using assms(2) by (simp add: unat_word_ariths)
  show "unat (i + 1) = Suc (unat i)" using assms(3) by (rule unat_plus_one_less)
  then show "i + 1 \<le> count" using i by (simp add: word_le_nat_alt)
qed

lemma test_range_bits:
  assumes "unat base + unat count \<le> n" "n < 2 ^ 32" "n \<le> 8 * length bm" "i \<le> count"
  shows "test_range bm base count i = Some (\<forall>k. unat i \<le> k \<and> k < unat count \<longrightarrow> bits bm (unat base + k))"
  using assms
proof (induction bm base count i rule: test_range.induct)
  case (1 bm base count i)
  show ?case
  proof (cases "i < count")
    case False
    then have "i = count" using 1(5) by simp
    then show ?thesis by (subst test_range.simps) auto
  next
    case True
    note o = unat_offset [OF 1(2,3) True]
    have t: "bitmap_test bm (base + i) = Some (bits bm (unat base + unat i))"
      using o(1,2) 1(4) by (metis bitmap_test_bits order_less_le_trans)
    show ?thesis
    proof (cases "bits bm (unat base + unat i)")
      case b: True
      have "(\<forall>k. unat i \<le> k \<and> k < unat count \<longrightarrow> bits bm (unat base + k)) \<longleftrightarrow>
          (\<forall>k. Suc (unat i) \<le> k \<and> k < unat count \<longrightarrow> bits bm (unat base + k))"
        using b by (metis Suc_le_eq le_neq_implies_less less_imp_le)
      moreover have "test_range bm base count i = test_range bm base count (i + 1)"
        using True t b by (subst test_range.simps) simp
      moreover note 1(1) [OF True t b 1(2,3,4) o(4), unfolded o(3)]
      ultimately show ?thesis by (simp only:)
    next
      case False
      then have "test_range bm base count i = Some False" using True t by (subst test_range.simps) simp
      moreover have "unat i < unat count" using True by (simp add: word_less_nat_alt)
      ultimately show ?thesis using False by auto
    qed
  qed
qed

lemma clear_range_bits:
  assumes "unat base + unat count \<le> n" "n < 2 ^ 32" "n \<le> 8 * length bm" "i \<le> count"
  shows "\<exists>bm'. clear_range bm base count i = Some bm' \<and> length bm' = length bm \<and>
     bits bm' = (\<lambda>k. if k \<in> {unat base + unat i..<unat base + unat count} then False else bits bm k)"
  using assms
proof (induction bm base count i rule: clear_range.induct)
  case (1 bm base count i)
  show ?case
  proof (cases "i < count")
    case False
    then have "i = count" using 1(5) by simp
    then show ?thesis by (subst clear_range.simps) simp
  next
    case True
    note o = unat_offset [OF 1(2,3) True]
    have "unat (base + i) < 8 * length bm" using o(1,2) 1(4) by linarith
    then obtain bm1 where bm1: "bitmap_clear bm (base + i) = Some bm1" "length bm1 = length bm"
      "bits bm1 = (bits bm)(unat base + unat i := False)"
      using bitmap_clear_bits o(1) by metis
    have "n \<le> 8 * length bm1" using bm1(2) 1(4) by simp
    from 1(1) [OF True bm1(1) 1(2,3) this o(4)] obtain bm2 where
      "clear_range bm1 base count (i + 1) = Some bm2" "length bm2 = length bm1"
      "bits bm2 = (\<lambda>k. if k \<in> {unat base + Suc (unat i)..<unat base + unat count} then False else bits bm1 k)"
      using o(3) by auto
    moreover from this bm1(3) o(2) True
    have "bits bm2 = (\<lambda>k. if k \<in> {unat base + unat i..<unat base + unat count} then False else bits bm k)"
      by (auto simp: fun_eq_iff word_less_nat_alt)
    ultimately show ?thesis using True bm1 by (subst clear_range.simps) simp
  qed
qed

section \<open>Runs of blocks\<close>

text \<open>The blocks of a run, as block numbers.\<close>

definition block_run :: "block_t \<Rightarrow> u32 \<Rightarrow> block_t set" where
  "block_run start count = {b. start \<le> b \<and> unat b < unat start + unat count}"

lemma block_run_nth:
  assumes wf: "alloc_wf alc" and s: "s + unat count \<le> unat (ba_total_blocks alc)" and c: "0 < unat count"
  shows "block_run (nth_block alc s) count = nth_block alc ` {s..<s + unat count}"
proof -
  have u: "unat (nth_block alc s) = unat (ba_data_start alc) + s" using unat_nth_block [OF wf] s c by simp
  show ?thesis
  proof (intro equalityI subsetI)
    fix b assume b: "b \<in> block_run (nth_block alc s) count"
    let ?k = "unat b - unat (ba_data_start alc)"
    have k: "s \<le> ?k" "?k < s + unat count" "unat (ba_data_start alc) \<le> unat b"
      using b u by (auto simp: block_run_def word_le_nat_alt)
    then have "unat (nth_block alc ?k) = unat b" using unat_nth_block [OF wf, of ?k] s by simp
    then have "b = nth_block alc ?k" by (simp only: word_unat_eq_iff)
    then show "b \<in> nth_block alc ` {s..<s + unat count}" using k by (metis atLeastLessThan_iff image_eqI)
  next
    fix b assume "b \<in> nth_block alc ` {s..<s + unat count}"
    then obtain k where k: "s \<le> k" "k < s + unat count" "b = nth_block alc k" by auto
    then have "unat b = unat (ba_data_start alc) + k" using unat_nth_block [OF wf, of k] s by simp
    then show "b \<in> block_run (nth_block alc s) count" using u k by (simp add: block_run_def word_le_nat_alt)
  qed
qed

lemma free_run_blocks:
  assumes wf: "alloc_wf alc" and c: "0 < unat count"
  shows "free_run (ba_bitmap alc) (unat (ba_total_blocks alc)) s (unat count) \<longleftrightarrow>
    s + unat count \<le> unat (ba_total_blocks alc) \<and> block_run (nth_block alc s) count \<subseteq> pool alc - allocated alc"
proof (cases "s + unat count \<le> unat (ba_total_blocks alc)")
  case True
  then have "block_run (nth_block alc s) count \<subseteq> pool alc - allocated alc \<longleftrightarrow>
      (\<forall>k \<in> {s..<s + unat count}. nth_block alc k \<in> pool alc - allocated alc)"
    using block_run_nth [OF wf True c] by auto
  also have "\<dots> \<longleftrightarrow> (\<forall>k \<in> {s..<s + unat count}. \<not> bits (ba_bitmap alc) k)"
    using nth_block_allocated [OF wf] True by auto
  finally show ?thesis using True by (auto simp: free_run_def)
qed (simp add: free_run_def)

text \<open>A free run of \<open>count\<close> blocks, by its first block.\<close>

definition run_free_at :: "block_allocator \<Rightarrow> u32 \<Rightarrow> block_t \<Rightarrow> bool" where
  "run_free_at alc count b \<longleftrightarrow> b \<in> pool alc \<and>
     unat b + unat count \<le> unat (ba_data_start alc) + unat (ba_total_blocks alc) \<and>
     block_run b count \<subseteq> pool alc - allocated alc"

lemma run_free_at_nth:
  assumes wf: "alloc_wf alc" and c: "0 < unat count" and b: "b \<in> pool alc"
  shows "run_free_at alc count b \<longleftrightarrow>
    free_run (ba_bitmap alc) (unat (ba_total_blocks alc)) (unat b - unat (ba_data_start alc)) (unat count)"
proof -
  have le: "unat (ba_data_start alc) \<le> unat b" using b by (simp add: pool_def word_le_nat_alt)
  have "unat (b - ba_data_start alc) = unat b - unat (ba_data_start alc)"
    using le by (simp add: unat_sub word_le_nat_alt)
  then have n: "nth_block alc (unat b - unat (ba_data_start alc)) = b" using block_index(2) [OF wf b] by simp
  show ?thesis using free_run_blocks [OF wf c, of "unat b - unat (ba_data_start alc)"] le b
    by (auto simp: run_free_at_def n)
qed

lemma block_alloc_multiple_spec:
  assumes wf: "alloc_wf alc" and c: "0 < count"
  shows "\<exists>r alc'. block_alloc_multiple alc count = Some (r, alc') \<and> alloc_wf alc' \<and> alloc_static alc alc' \<and>
     (case r of
        Inl e \<Rightarrow> e = - ENOSPC \<and> alc' = alc \<and> (\<forall>b. \<not> run_free_at alc count b)
      | Inr (start, n) \<Rightarrow> n = count \<and> run_free_at alc count start \<and>
          (\<forall>b. run_free_at alc count b \<longrightarrow> start \<le> b) \<and>
          allocated alc' = allocated alc \<union> block_run start count)"
proof -
  let ?n = "ba_total_blocks alc" and ?bm = "ba_bitmap alc"
  have len: "unat ?n \<le> 8 * length ?bm" using wf by (simp add: alloc_wf_def)
  have c0: "0 < unat count" using c by (simp add: word_less_nat_alt)
  have ne: "count \<noteq> 0" using c by auto
  have rf: "run_free_at alc count b \<longleftrightarrow> (\<exists>k < unat ?n. b = nth_block alc k \<and> free_run ?bm (unat ?n) k (unat count))" for b
  proof
    assume r: "run_free_at alc count b"
    then have b: "b \<in> pool alc" by (simp add: run_free_at_def)
    then obtain k where k: "k < unat ?n" "b = nth_block alc k" using pool_nth [OF wf] by auto
    then have "unat b - unat (ba_data_start alc) = k" using unat_nth_block [OF wf k(1)] by simp
    with r run_free_at_nth [OF wf c0 b] k show "\<exists>k < unat ?n. b = nth_block alc k \<and> free_run ?bm (unat ?n) k (unat count)" by auto
  next
    assume "\<exists>k < unat ?n. b = nth_block alc k \<and> free_run ?bm (unat ?n) k (unat count)"
    then obtain k where k: "k < unat ?n" "b = nth_block alc k" "free_run ?bm (unat ?n) k (unat count)" by blast
    then have "unat b - unat (ba_data_start alc) = k" "b \<in> pool alc"
      using unat_nth_block [OF wf k(1)] nth_block_allocated(2) [OF wf k(1)] by auto
    with k(3) run_free_at_nth [OF wf c0 this(2)] show "run_free_at alc count b" by simp
  qed
  show ?thesis
  proof (cases "ba_free_blocks alc < count")
    case True
    have "\<not> run_free_at alc count b" for b
    proof
      assume "run_free_at alc count b"
      then obtain k where k: "free_run ?bm (unat ?n) k (unat count)" using rf by blast
      then have "{k..<k + unat count} \<subseteq> free_bits ?bm (unat ?n)" by (auto simp: free_run_def)
      then have "card {k..<k + unat count} \<le> card (free_bits ?bm (unat ?n))" by (rule card_mono [rotated]) simp
      with True wf show False by (simp add: alloc_wf_def word_less_nat_alt)
    qed
    then show ?thesis using True ne wf by (simp add: block_alloc_multiple_def)
  next
    case False
    have "scan_inv ?bm (unat count) (unat (0 :: u32)) (unat (0 :: u32)) (unat (0 :: u32))"
      using scan_inv_start [OF c0] by simp
    from find_run_spec [OF len _ this] consider
      (found) k where "find_run ?bm ?n count 0 0 0 = Some (Some k)" "free_run ?bm (unat ?n) (unat k) (unat count)"
        "\<forall>x < unat k. \<not> free_run ?bm (unat ?n) x (unat count)"
      | (none) "find_run ?bm ?n count 0 0 0 = Some None" "\<forall>x. \<not> free_run ?bm (unat ?n) x (unat count)"
      by auto
    then show ?thesis
    proof cases
      case none
      then show ?thesis using False ne wf rf by (simp add: block_alloc_multiple_def)
    next
      case found
      have kn: "unat k + unat count \<le> unat ?n" using found(2) by (simp add: free_run_def)
      have kl: "unat k < unat ?n" using kn c0 by linarith
      have kc: "unat (k + count) = unat k + unat count"
        using kn unsigned_less [of ?n, where ?'a = nat] by (simp add: unat_word_ariths)
      obtain bm where bm: "set_range ?bm k (k + count) = Some bm" "length bm = length ?bm"
        "bits bm = (\<lambda>j. if j \<in> {unat k..<unat k + unat count} then True else bits ?bm j)"
        using set_range_bits [of "k + count" ?bm k] kn kc len by (auto simp: word_le_nat_alt)
      let ?alc = "alc\<lparr>ba_bitmap := bm, ba_free_blocks := ba_free_blocks alc - count,
                      ba_alloc_count := ba_alloc_count alc + ucast count\<rparr>"
      let ?S = "{unat k..<unat k + unat count}"
      have al: "block_alloc_multiple alc count = Some (Inr (nth_block alc (unat k), count), ?alc)"
        using False ne found(1) bm(1) by (simp add: block_alloc_multiple_def nth_block_unat)
      have st: "alloc_static alc ?alc" using bm(2) by (simp add: alloc_static_def)
      have S: "?S \<subseteq> {..<unat ?n}" using kn by auto
      have bs: "bits (ba_bitmap ?alc) = (\<lambda>j. if j \<in> ?S then True else bits ?bm j)" using bm(3) by simp
      have "unat (ba_free_blocks ?alc) = unat (ba_free_blocks alc) - unat count"
        using False by (simp add: unat_sub)
      then have f: "unat (ba_free_blocks ?alc) + card ?S = unat (ba_free_blocks alc)"
        using False by (simp add: word_le_nat_alt not_less)
      have "alloc_wf ?alc"
        by (rule alloc_wf_flip [OF wf st S bs]) (use f found(2) in \<open>auto simp: free_run_def\<close>)
      moreover have "allocated ?alc = allocated alc \<union> block_run (nth_block alc (unat k)) count"
        using allocated_flip [OF wf st S bs] block_run_nth [OF wf kn c0] by simp
      moreover have "run_free_at alc count (nth_block alc (unat k))" using rf kl found(2) by blast
      moreover have "nth_block alc (unat k) \<le> b" if "run_free_at alc count b" for b
      proof -
        from that rf obtain j where j: "j < unat ?n" "b = nth_block alc j" "free_run ?bm (unat ?n) j (unat count)" by blast
        with found(3) have "\<not> j < unat k" by blast
        then show ?thesis using nth_block_less [OF wf j(1) kl] j(2) by (simp add: not_less [symmetric])
      qed
      ultimately show ?thesis using al st by auto
    qed
  qed
qed

lemma block_free_multiple_spec:
  assumes wf: "alloc_wf alc" and c: "0 < count" and nw: "unat start + unat count < 2 ^ 32"
  shows "\<exists>alc'. block_free_multiple alc start count =
       Some (if block_run start count \<subseteq> allocated alc then 0 else - EINVAL, alc') \<and>
     alloc_wf alc' \<and> alloc_static alc alc' \<and>
     (if block_run start count \<subseteq> allocated alc then allocated alc' = allocated alc - block_run start count
      else alc' = alc)"
proof -
  let ?n = "ba_total_blocks alc" and ?bm = "ba_bitmap alc" and ?ds = "ba_data_start alc"
  have c0: "0 < unat count" using c by (simp add: word_less_nat_alt)
  have ne: "count \<noteq> 0" using c by auto
  have sc: "unat (start + count) = unat start + unat count" using nw by (simp add: unat_word_ariths)
  have dn: "unat (?ds + ?n) = unat ?ds + unat ?n" using wf by (simp add: alloc_wf_def unat_word_ariths)
  show ?thesis
  proof (cases "start < ?ds \<or> ?ds + ?n < start + count")
    case True
    have "\<not> block_run start count \<subseteq> pool alc"
    proof
      assume sub: "block_run start count \<subseteq> pool alc"
      have "start \<in> block_run start count" using c0 by (simp add: block_run_def)
      then have s: "start \<in> pool alc" using sub by blast
      let ?last = "start + (count - 1)"
      have "unat (count - 1) = unat count - 1" using c by (rule unat_minus_one_pos)
      then have l: "unat ?last = unat start + (unat count - 1)" using nw c0 by (simp add: unat_word_ariths)
      then have "?last \<in> block_run start count" using c0 by (simp add: block_run_def word_le_nat_alt)
      then have "?last \<in> pool alc" using sub by blast
      then have "unat ?last < unat ?ds + unat ?n" by (simp add: pool_def)
      then have "unat start + unat count \<le> unat ?ds + unat ?n" using l c0 by linarith
      with s True sc dn show False by (auto simp: pool_def word_less_nat_alt word_le_nat_alt)
    qed
    then have "\<not> block_run start count \<subseteq> allocated alc" using allocated_pool by blast
    then show ?thesis using True ne wf by (simp add: block_free_multiple_def)
  next
    case False
    then have le: "unat ?ds \<le> unat start" "unat start + unat count \<le> unat ?ds + unat ?n"
      using sc dn by (auto simp: word_less_nat_alt word_le_nat_alt not_less)
    let ?b = "start - ?ds"
    have b: "unat ?b = unat start - unat ?ds" using le by (simp add: unat_sub word_le_nat_alt)
    have bn: "unat ?b + unat count \<le> unat ?n" using b le by linarith
    have n32: "unat ?n < 2 ^ 32" using unsigned_less [of ?n, where ?'a = nat] by simp
    have len: "unat ?n \<le> 8 * length ?bm" using wf by (simp add: alloc_wf_def)
    have nb: "nth_block alc (unat ?b) = start" by (simp add: nth_block_def)
    let ?S = "{unat ?b..<unat ?b + unat count}"
    have run: "block_run start count = nth_block alc ` ?S" using block_run_nth [OF wf bn c0] nb by simp
    have "block_run start count \<subseteq> allocated alc \<longleftrightarrow> (\<forall>k < unat count. nth_block alc (unat ?b + k) \<in> allocated alc)"
      unfolding run by (auto simp: image_subset_iff) (metis add.commute le_add_diff_inverse less_diff_conv2)
    also have "\<dots> \<longleftrightarrow> (\<forall>k < unat count. bits ?bm (unat ?b + k))"
      using nth_block_allocated(1) [OF wf] bn by auto
    finally have all: "block_run start count \<subseteq> allocated alc \<longleftrightarrow> (\<forall>k < unat count. bits ?bm (unat ?b + k))" .
    have t: "test_range ?bm ?b count 0 = Some (block_run start count \<subseteq> allocated alc)"
      using test_range_bits [OF bn n32 len, of 0] all by simp
    show ?thesis
    proof (cases "block_run start count \<subseteq> allocated alc")
      case no: False
      then show ?thesis using False ne t wf by (simp add: block_free_multiple_def Let_def)
    next
      case True
      obtain bm where bm: "clear_range ?bm ?b count 0 = Some bm" "length bm = length ?bm"
        "bits bm = (\<lambda>k. if k \<in> ?S then False else bits ?bm k)"
        using clear_range_bits [OF bn n32 len, of 0] by auto
      let ?alc = "alc\<lparr>ba_bitmap := bm, ba_free_blocks := ba_free_blocks alc + count,
                     ba_free_count := ba_free_count alc + ucast count\<rparr>"
      have fr: "block_free_multiple alc start count = Some (0, ?alc)"
        using False ne t True bm(1) by (simp add: block_free_multiple_def Let_def)
      have st: "alloc_static alc ?alc" using bm(2) by (simp add: alloc_static_def)
      have S: "?S \<subseteq> {..<unat ?n}" using bn by auto
      have bs: "bits (ba_bitmap ?alc) = (\<lambda>k. if k \<in> ?S then False else bits ?bm k)" using bm(3) by simp
      have old: "bits ?bm k" if "k \<in> ?S" for k
        using that True all by (metis atLeastLessThan_iff le_add_diff_inverse nat_add_left_cancel_less)
      have "free_bits ?bm (unat ?n) \<subseteq> {..<unat ?n} - ?S" using old by auto
      then have "card (free_bits ?bm (unat ?n)) \<le> card ({..<unat ?n} - ?S)" by (intro card_mono) auto
      also have "\<dots> = unat ?n - unat count" using S by (simp add: card_Diff_subset)
      finally have "unat (ba_free_blocks alc) + unat count \<le> unat ?n" using wf bn by (simp add: alloc_wf_def)
      then have f: "unat (ba_free_blocks alc + count) = unat (ba_free_blocks alc) + unat count"
        using n32 by (simp add: unat_word_ariths)
      have "alloc_wf ?alc" by (rule alloc_wf_flip [OF wf st S bs]) (use f old in auto)
      moreover have "allocated ?alc = allocated alc - block_run start count"
        using allocated_flip [OF wf st S bs] run by simp
      ultimately show ?thesis using fr st True by simp
    qed
  qed
qed

text \<open>
  The range check adds in 32 bits: a count that makes \<open>start + count\<close> wrap passes it, and the
  scan leaves the bitmap when every bit from \<open>start\<close> to its end is set.
\<close>

lemma test_range_overrun:
  assumes "\<And>k. unat base + unat i \<le> k \<Longrightarrow> k < 8 * length bm \<Longrightarrow> bits bm k" "i < count"
    and "8 * length bm < 2 ^ 32" "unat base \<le> 8 * length bm" "8 * length bm - unat base < unat count"
    and "unat i \<le> 8 * length bm - unat base"
  shows "test_range bm base count i = None"
  using assms
proof (induction bm base count i rule: test_range.induct)
  case (1 bm base count i)
  have s: "unat (base + i) = unat base + unat i" using 1(4,5,7) by (simp add: unat_word_ariths)
  show ?case
  proof (cases "unat base + unat i < 8 * length bm")
    case False
    then show ?thesis using s 1(3) by (subst test_range.simps) simp
  next
    case True
    then have b: "bits bm (unat base + unat i)" using 1(2) by simp
    have t: "bitmap_test bm (base + i) = Some (bits bm (unat base + unat i))" using bitmap_test_bits [of "base + i" bm] s True by simp
    have i1: "unat (i + 1) = Suc (unat i)" using 1(3) by (rule unat_plus_one_less)
    have "test_range bm base count (i + 1) = None"
      by (rule 1(1) [OF 1(3) t b]) (use 1(2,4,5,6) i1 True in \<open>auto simp: word_less_nat_alt\<close>)
    then show ?thesis using 1(3) t b by (subst test_range.simps) simp
  qed
qed

end
