(* ===== verification/Block_Alloc_Disk.thy ===== *)
theory Block_Alloc_Disk
  imports Block_Alloc_Run
begin

text \<open>
  The allocator's bitmap on the device: \<open>block_alloc_init\<close> loads what \<open>block_alloc_sync\<close> stored,
  through the \<open>block_store\<close> laws the device satisfies.
\<close>

lemma dev_superblock_upd [simp]:
  "dev_ok (dev\<lparr>bd_superblock := p\<rparr>) = dev_ok dev" "dev_view (dev\<lparr>bd_superblock := p\<rparr>) = dev_view dev"
  by (simp_all add: dev_ok_def dev_coherent_def dev_wf_def dev_view_def)

text \<open>The buffer that \<open>n\<close> blocks from \<open>start\<close> on make up.\<close>

definition view_run :: "block_device \<Rightarrow> block_t \<Rightarrow> nat \<Rightarrow> byte list \<Rightarrow> bool" where
  "view_run dev start n buf \<longleftrightarrow> length buf = n * 4096 \<and>
     (\<forall>j < n. slice (j * 4096) 4096 buf = dev_view dev (start + of_nat j))"

lemma view_run_unique:
  assumes "view_run dev start n a" "view_run dev start n b"
  shows "a = b"
proof (rule nth_equalityI)
  show "length a = length b" using assms by (simp add: view_run_def)
next
  fix i assume "i < length a"
  then have i: "i < n * 4096" using assms(1) by (simp add: view_run_def)
  let ?j = "i div 4096"
  have j: "?j < n" using i by (simp add: less_mult_imp_div_less)
  have b: "?j * 4096 + 4096 \<le> n * 4096" using j by (metis Suc_leI add.commute mult_Suc mult_le_mono1)
  have m: "i mod 4096 < 4096" "?j * 4096 + i mod 4096 = i" by (simp_all add: div_mult_mod_eq)
  have "slice (?j * 4096) 4096 a ! (i mod 4096) = slice (?j * 4096) 4096 b ! (i mod 4096)"
    using assms j by (simp add: view_run_def)
  moreover have "slice (?j * 4096) 4096 a ! (i mod 4096) = a ! i" "slice (?j * 4096) 4096 b ! (i mod 4096) = b ! i"
    using nth_slice [OF _ m(1), of "?j * 4096" a] nth_slice [OF _ m(1), of "?j * 4096" b] b m(2)
      assms [unfolded view_run_def, THEN conjunct1] by (simp_all only:)
  ultimately show "a ! i = b ! i" by simp
qed

lemma load_view_run:
  assumes "dev_ok dev" "run_ok (bd_total_blocks dev) start (unat n)"
  shows "\<exists>r dev'. load_blocks blkdev_read dev start (replicate (unat (n * 4096)) 0) (upto32 n) = Some (r, dev') \<and>
     dev_ok dev' \<and> dev_static dev dev' \<and> dev_view dev' = dev_view dev \<and>
     (case r of Inr buf \<Rightarrow> view_run dev start (unat n) buf
      | Inl e \<Rightarrow> e < 0 \<and> (\<exists>j < unat n. dev_faulty dev (start + of_nat j)))"
proof -
  have "unat (n * 4096) = unat n * 4096" using assms(2) by (simp add: run_ok_def unat_word_ariths)
  then have "length (replicate (unat (n * 4096)) (0 :: byte)) = unat n * 4096" by simp
  from blkdev.load_run [OF assms this, of 0] obtain r dev' where
    l: "load_blocks blkdev_read dev start (replicate (unat (n * 4096)) 0) (upto32 n) = Some (r, dev')"
      "dev_ok dev'" "dev_static dev dev'" "dev_view dev' = dev_view dev"
      "case r of Inr buf' \<Rightarrow> length buf' = unat n * 4096 \<and>
          (\<forall>j < unat n. slice (j * 4096) 4096 buf' =
             (if 0 \<le> j then dev_view dev (start + of_nat j)
              else slice (j * 4096) 4096 (replicate (unat (n * 4096)) 0)))
      | Inl e \<Rightarrow> e < 0 \<and> (\<exists>j < unat n. dev_faulty dev (start + of_nat j))"
    unfolding upto32_def by blast
  then show ?thesis by (auto simp: view_run_def split: sum.splits)
qed

lemma block_alloc_init_spec:
  assumes ok: "dev_ok dev" and run: "run_ok (bd_total_blocks dev) bitmap_start (unat bitmap_blocks)"
    and fit: "unat total_blocks \<le> 32768 * unat bitmap_blocks"
    and top: "unat data_start + unat total_blocks < 2 ^ 32" "0 < data_start"
  shows "\<exists>r dev'. block_alloc_init False dev bitmap_start bitmap_blocks data_start total_blocks = Some (r, dev') \<and>
     dev_ok dev' \<and> dev_static dev dev' \<and> dev_view dev' = dev_view dev \<and>
     (case r of None \<Rightarrow> \<exists>j < unat bitmap_blocks. dev_faulty dev (bitmap_start + of_nat j)
      | Some alc \<Rightarrow> alloc_wf alc \<and> view_run dev bitmap_start (unat bitmap_blocks) (ba_bitmap alc) \<and>
          ba_data_start alc = data_start \<and> ba_total_blocks alc = total_blocks \<and>
          ba_bitmap_start alc = bitmap_start \<and> ba_bitmap_blocks alc = bitmap_blocks)"
proof -
  from load_view_run [OF ok run] obtain r dev' where
    l: "load_blocks blkdev_read dev bitmap_start (replicate (unat (bitmap_blocks * 4096)) 0) (upto32 bitmap_blocks) =
        Some (r, dev')" "dev_ok dev'" "dev_static dev dev'" "dev_view dev' = dev_view dev"
      "case r of Inr buf \<Rightarrow> view_run dev bitmap_start (unat bitmap_blocks) buf
       | Inl e \<Rightarrow> e < 0 \<and> (\<exists>j < unat bitmap_blocks. dev_faulty dev (bitmap_start + of_nat j))" by blast
  show ?thesis
  proof (cases r)
    case (Inl e)
    then show ?thesis using l by (simp add: block_alloc_init_def Let_def)
  next
    case (Inr bm)
    then have bm: "view_run dev bitmap_start (unat bitmap_blocks) bm" using l(5) by simp
    then have "unat total_blocks \<le> 8 * length bm" using fit by (simp add: view_run_def)
    then obtain f where "count_free bm total_blocks 0 0 = Some f" "unat f = card (free_bits bm (unat total_blocks))"
      using count_free_zero by blast
    then show ?thesis using l(1-4) Inr bm top \<open>unat total_blocks \<le> 8 * length bm\<close>
      by (simp add: block_alloc_init_def Let_def alloc_wf_def)
  qed
qed

lemma block_alloc_sync_spec:
  assumes ok: "dev_ok dev" and run: "run_ok (bd_total_blocks dev) (ba_bitmap_start alc) (unat (ba_bitmap_blocks alc))"
    and len: "length (ba_bitmap alc) = unat (ba_bitmap_blocks alc) * 4096"
  shows "\<exists>rc dev'. block_alloc_sync alc dev = Some (rc, dev') \<and> dev_ok dev' \<and>
     bd_total_blocks dev' = bd_total_blocks dev \<and> dev_faulty dev' = dev_faulty dev \<and>
     (\<forall>b. (\<forall>j < unat (ba_bitmap_blocks alc). b \<noteq> ba_bitmap_start alc + of_nat j) \<longrightarrow> dev_view dev' b = dev_view dev b) \<and>
     (if rc = 0
      then view_run dev' (ba_bitmap_start alc) (unat (ba_bitmap_blocks alc)) (ba_bitmap alc) \<and>
        bd_superblock dev' = map_option (\<lambda>sb. sb\<lparr>sb_free_blocks := ba_free_blocks alc\<rparr>) (bd_superblock dev)
      else rc < 0 \<and> (\<exists>j < unat (ba_bitmap_blocks alc). dev_faulty dev (ba_bitmap_start alc + of_nat j)))"
proof -
  let ?n = "unat (ba_bitmap_blocks alc)" and ?s = "ba_bitmap_start alc"
  from blkdev.store_run [OF ok run len, of 0] obtain rc dev' where
    s: "store_blocks blkdev_write dev ?s (ba_bitmap alc) (upto32 (ba_bitmap_blocks alc)) = Some (rc, dev')"
      "dev_ok dev'" "dev_static dev dev'"
      "\<And>b. (\<forall>j < ?n. b \<noteq> ?s + of_nat j) \<Longrightarrow> dev_view dev' b = dev_view dev b"
      "if rc = 0 then \<forall>j < ?n. dev_view dev' (?s + of_nat j) = slice (j * 4096) 4096 (ba_bitmap alc)
       else rc < 0 \<and> (\<exists>j < ?n. dev_faulty dev (?s + of_nat j))"
    unfolding upto32_def by auto
  have st: "bd_total_blocks dev' = bd_total_blocks dev" "dev_faulty dev' = dev_faulty dev"
    "bd_superblock dev' = bd_superblock dev"
    using s(3) by (auto simp: dev_static_def dev_faulty_def)
  show ?thesis
  proof (cases "rc = 0")
    case True
    let ?dev = "dev'\<lparr>bd_superblock := map_option (\<lambda>sb. sb\<lparr>sb_free_blocks := ba_free_blocks alc\<rparr>) (bd_superblock dev')\<rparr>"
    have "block_alloc_sync alc dev = Some (0, ?dev)" using s(1) True by (simp add: block_alloc_sync_def)
    moreover have "view_run ?dev ?s ?n (ba_bitmap alc)" using s(5) True len by (simp add: view_run_def)
    moreover have "dev_faulty ?dev = dev_faulty dev" unfolding st(2) [symmetric] by (simp add: dev_faulty_def fun_eq_iff)
    ultimately show ?thesis using s(2,4) st by (intro exI [of _ 0] exI [of _ ?dev]) simp
  next
    case False
    then have "rc < 0" using s(5) by simp
    then have "block_alloc_sync alc dev = Some (rc, dev')" using s(1) by (simp add: block_alloc_sync_def)
    then show ?thesis using s(2,4,5) st False by (intro exI [of _ rc] exI [of _ dev']) simp
  qed
qed

text \<open>Saving and loading give the same allocator state back.\<close>

lemma block_alloc_sync_init:
  assumes ok: "dev_ok dev" and run: "run_ok (bd_total_blocks dev) (ba_bitmap_start alc) (unat (ba_bitmap_blocks alc))"
    and wf: "alloc_wf alc" and len: "length (ba_bitmap alc) = unat (ba_bitmap_blocks alc) * 4096"
    and good: "\<And>j. j < unat (ba_bitmap_blocks alc) \<Longrightarrow> \<not> dev_faulty dev (ba_bitmap_start alc + of_nat j)"
  shows "\<exists>dev1 dev2 alc'. block_alloc_sync alc dev = Some (0, dev1) \<and>
     block_alloc_init False dev1 (ba_bitmap_start alc) (ba_bitmap_blocks alc) (ba_data_start alc) (ba_total_blocks alc) =
       Some (Some alc', dev2) \<and> alloc_wf alc' \<and> allocated alc' = allocated alc \<and> pool alc' = pool alc \<and>
     ba_free_blocks alc' = ba_free_blocks alc"
proof -
  let ?n = "unat (ba_bitmap_blocks alc)" and ?s = "ba_bitmap_start alc"
  from block_alloc_sync_spec [OF ok run len] obtain rc dev1 where
    s: "block_alloc_sync alc dev = Some (rc, dev1)" "dev_ok dev1" "bd_total_blocks dev1 = bd_total_blocks dev"
      "dev_faulty dev1 = dev_faulty dev"
      "if rc = 0 then view_run dev1 ?s ?n (ba_bitmap alc) \<and>
          bd_superblock dev1 = map_option (\<lambda>sb. sb\<lparr>sb_free_blocks := ba_free_blocks alc\<rparr>) (bd_superblock dev)
       else rc < 0 \<and> (\<exists>j < ?n. dev_faulty dev (?s + of_nat j))" by blast
  have rc: "rc = 0" using s(5) good by (auto split: if_splits)
  have run1: "run_ok (bd_total_blocks dev1) ?s ?n" using run s(3) by simp
  have "unat (ba_total_blocks alc) \<le> 32768 * ?n" using wf len by (simp add: alloc_wf_def)
  from block_alloc_init_spec [OF s(2) run1 this, of "ba_data_start alc"] wf obtain r dev2 where
    i: "block_alloc_init False dev1 ?s (ba_bitmap_blocks alc) (ba_data_start alc) (ba_total_blocks alc) = Some (r, dev2)"
      "case r of None \<Rightarrow> \<exists>j < ?n. dev_faulty dev1 (?s + of_nat j)
      | Some alc' \<Rightarrow> alloc_wf alc' \<and> view_run dev1 ?s ?n (ba_bitmap alc') \<and>
          ba_data_start alc' = ba_data_start alc \<and> ba_total_blocks alc' = ba_total_blocks alc \<and>
          ba_bitmap_start alc' = ?s \<and> ba_bitmap_blocks alc' = ba_bitmap_blocks alc"
    by (auto simp: alloc_wf_def)
  from i(2) good s(4) obtain alc' where a: "r = Some alc'" "alloc_wf alc'" "view_run dev1 ?s ?n (ba_bitmap alc')"
    "ba_data_start alc' = ba_data_start alc" "ba_total_blocks alc' = ba_total_blocks alc"
    by (auto split: option.splits)
  have "ba_bitmap alc' = ba_bitmap alc" using view_run_unique a(3) s(5) rc by auto
  moreover from this have "unat (ba_free_blocks alc') = unat (ba_free_blocks alc)"
    using a(2,5) wf by (simp add: alloc_wf_def)
  then have "ba_free_blocks alc' = ba_free_blocks alc" by (simp only: word_unat_eq_iff)
  moreover have "pool alc' = pool alc" using a(4,5) by (simp add: pool_def)
  ultimately show ?thesis using s(1) rc i(1) a by (auto simp: allocated_def)
qed

end
