(* ===== verification/Instances.thy ===== *)
theory Instances
  imports Block_Dev_Contract Block_Alloc_Disk
begin

text \<open>
  Concrete states at which the properties are instantiated: a blank disk of 1024 blocks, the
  device opened on it, the device after a read and after an invalidation, and small allocators.
\<close>

definition blank_disk :: disk where
  "blank_disk = \<lparr>dk_blocks = (\<lambda>_. replicate 4096 0), dk_read_bad = (\<lambda>_. False),
     dk_write_bad = (\<lambda>_. False), dk_fsync_bad = False\<rparr>"

definition blank_dev :: block_device where
  "blank_dev = the (blkdev_open (Some (blank_disk, 4194304)) False False)"

abbreviation zeros :: "byte list" where "zeros \<equiv> replicate 4096 0"
abbreviation ones :: "byte list" where "ones \<equiv> replicate 4096 1"

lemma blank_disk_simps [simp]:
  "dk_blocks blank_disk b = zeros" "\<not> dk_read_bad blank_disk b" "\<not> dk_write_bad blank_disk b"
  "\<not> dk_fsync_bad blank_disk"
  by (simp_all add: blank_disk_def)

lemma blank_dev_open: "blkdev_open (Some (blank_disk, 4194304)) False False = Some blank_dev"
  by (simp add: blank_dev_def blkdev_open_def buffer_cache_init_def)

lemma blank_dev_ok [simp]:
  "dev_ok blank_dev" "bd_disk blank_dev = blank_disk" "dev_view blank_dev = dk_blocks blank_disk"
  "bd_total_blocks blank_dev = 1024" "bd_superblock blank_dev = None" "has_room (bd_cache blank_dev)"
proof -
  obtain dev where "blkdev_open (Some (blank_disk, 4194304)) False False = Some dev" "dev_ok dev"
    "bd_disk dev = blank_disk" "dev_view dev = dk_blocks blank_disk"
    "bd_total_blocks dev = 4194304 div 4096" "bd_superblock dev = None" "has_room (bd_cache dev)"
    using blkdev_open_ok [of blank_disk 4194304] by auto
  moreover from this have "dev = blank_dev" using blank_dev_open by simp
  ultimately show "dev_ok blank_dev" "bd_disk blank_dev = blank_disk"
    "dev_view blank_dev = dk_blocks blank_disk"
    "bd_total_blocks blank_dev = 1024" "bd_superblock blank_dev = None" "has_room (bd_cache blank_dev)"
    by simp_all
qed

lemma blank_dev_coherent [simp]: "dev_coherent blank_dev" "dev_wf blank_dev"
  using blank_dev_ok(1) by (simp_all add: dev_ok_def dev_coherent_def)

lemma blank_dev_faulty [simp]: "\<not> dev_faulty blank_dev b"
  by (simp add: dev_faulty_def)

lemma blank_dev_oom [simp]: "\<not> bd_oom blank_dev" "\<not> bc_oom (bd_cache blank_dev)"
  by (simp_all add: blank_dev_def blkdev_open_def buffer_cache_init_def)

lemma blank_cache_repr [simp]: "cache_repr (bd_cache blank_dev) []" "cells (bd_cache blank_dev) = Map.empty"
proof -
  obtain c where c: "buffer_cache_init False 1024 = Some c" "cache_repr c []" "cells c = Map.empty"
    using buffer_cache_init_repr [of 1024] by auto
  then have "bd_cache blank_dev = c" by (simp add: blank_dev_def blkdev_open_def)
  with c show "cache_repr (bd_cache blank_dev) []" "cells (bd_cache blank_dev) = Map.empty" by simp_all
qed

lemma blank_dev_syncable [simp]: "syncable blank_dev"
  by (simp add: syncable_def)

text \<open>The same after a write of block 10, which stays in the cache.\<close>

definition warm_dev :: block_device where
  "warm_dev = snd (the (blkdev_write blank_dev 10 ones))"

lemma warm_dev [simp]:
  "dev_ok warm_dev" "bd_disk warm_dev = blank_disk" "bd_total_blocks warm_dev = 1024"
  "cells (bd_cache warm_dev) = [10 \<mapsto> \<lparr>cl_data = ones, cl_dirty = True, cl_valid = True, cl_ref = 0\<rparr>]"
proof -
  obtain c' where c: "blkdev_write blank_dev 10 ones = Some (0, blank_dev\<lparr>bd_cache := c'\<rparr>)"
    "cells c' = [10 \<mapsto> \<lparr>cl_data = ones, cl_dirty = True, cl_valid = True, cl_ref = 0\<rparr>]"
    using blkdev_write_miss [of blank_dev 10 ones] by auto
  then have w: "warm_dev = blank_dev\<lparr>bd_cache := c'\<rparr>" by (simp add: warm_dev_def)
  show "bd_disk warm_dev = blank_disk" "bd_total_blocks warm_dev = 1024" by (simp_all add: w)
  show "cells (bd_cache warm_dev) = [10 \<mapsto> \<lparr>cl_data = ones, cl_dirty = True, cl_valid = True, cl_ref = 0\<rparr>]"
    by (simp add: w c(2))
  show "dev_ok warm_dev" using blkdev_write_spec [of blank_dev 10 ones] c(1) w by auto
qed

lemma warm_dev_coherent [simp]: "dev_coherent warm_dev" "dev_wf warm_dev"
  using warm_dev(1) by (simp_all add: dev_ok_def dev_coherent_def)

text \<open>A cache of one buffer, and the same with block 7 in it.\<close>

definition tiny_cache :: buffer_cache where
  "tiny_cache = the (buffer_cache_init False 1)"

lemma tiny_cache [simp]:
  "cache_repr tiny_cache []" "cells tiny_cache = Map.empty" "bc_max_buffers tiny_cache = 1" "\<not> bc_oom tiny_cache"
proof -
  obtain c where c: "buffer_cache_init False 1 = Some c" "cache_repr c []" "cells c = Map.empty"
    "bc_max_buffers c = 1" "\<not> bc_oom c"
    using buffer_cache_init_repr [of 1] by auto
  then have "tiny_cache = c" by (simp add: tiny_cache_def)
  with c show "cache_repr tiny_cache []" "cells tiny_cache = Map.empty" "bc_max_buffers tiny_cache = 1"
    "\<not> bc_oom tiny_cache" by simp_all
qed

text \<open>Allocators of eight blocks from block 10: all free, and with blocks 10, 11 and 13 in use.\<close>

definition toy_alloc :: "byte \<Rightarrow> u32 \<Rightarrow> block_allocator" where
  "toy_alloc b free = \<lparr>ba_bitmap = b # replicate 4095 0, ba_bitmap_blocks = 1, ba_total_blocks = 8,
     ba_free_blocks = free, ba_data_start = 10, ba_bitmap_start = 2, ba_alloc_count = 0, ba_free_count = 0\<rparr>"

abbreviation empty_alloc :: block_allocator where "empty_alloc \<equiv> toy_alloc 0 8"
abbreviation used_alloc :: block_allocator where "used_alloc \<equiv> toy_alloc 0x0B 5"

lemma less_8_cases: "k < (8::nat) \<longleftrightarrow> k \<in> {0, 1, 2, 3, 4, 5, 6, 7}"
  by auto

lemma toy_bits [simp]: "k < 8 \<Longrightarrow> bits (b # bs) k = bit b k"
  by (simp add: bits_def)

lemma empty_alloc_wf [simp]: "alloc_wf empty_alloc"
proof -
  have "free_bits (ba_bitmap empty_alloc) 8 = {..<8}"
    by (auto simp: toy_alloc_def)
  then show ?thesis by (simp add: alloc_wf_def toy_alloc_def)
qed

lemma used_alloc_wf [simp]: "alloc_wf used_alloc"
proof -
  have "k < 8 \<Longrightarrow> bit (0x0B :: byte) k \<longleftrightarrow> k \<in> {0, 1, 3}" for k
    unfolding less_8_cases by (elim insertE emptyE) simp_all
  then have b: "k < 8 \<Longrightarrow> bits (ba_bitmap used_alloc) k \<longleftrightarrow> k \<in> {0, 1, 3}" for k
    by (simp add: toy_alloc_def)
  have "free_bits (ba_bitmap used_alloc) 8 = {k. k < 8 \<and> k \<notin> {0, 1, 3}}"
    using b by (auto simp: free_bits_def)
  also have "\<dots> = {2, 4, 5, 6, 7}" by auto
  finally have "free_bits (ba_bitmap used_alloc) 8 = {2, 4, 5, 6, 7}" .
  then show ?thesis by (simp add: alloc_wf_def toy_alloc_def)
qed

lemma toy_alloc_fields [simp]:
  "ba_total_blocks (toy_alloc b f) = 8" "ba_data_start (toy_alloc b f) = 10" "ba_bitmap_start (toy_alloc b f) = 2"
  "ba_bitmap_blocks (toy_alloc b f) = 1" "length (ba_bitmap (toy_alloc b f)) = 4096"
  "ba_bitmap (toy_alloc b f) = b # replicate 4095 0" "ba_free_blocks (toy_alloc b f) = f"
  by (simp_all add: toy_alloc_def)

lemma toy_allocated:
  "allocated (toy_alloc b f) = {x. 10 \<le> x \<and> unat x < 18 \<and> bit b (unat x - 10)}"
  by (auto simp: allocated_def pool_def)

lemma in_toy_pool [simp]: "x \<in> pool (toy_alloc b f) \<longleftrightarrow> 10 \<le> x \<and> unat x < 18"
  by (simp add: pool_def)

lemma empty_allocated [simp]: "allocated empty_alloc = {}"
  by (simp add: toy_allocated)

lemma in_used_alloc [simp]:
  "10 \<in> allocated used_alloc" "11 \<in> allocated used_alloc" "12 \<notin> allocated used_alloc"
  by (simp_all add: toy_allocated)

text \<open>Eight blocks, all in use, under a bitmap of one byte.\<close>

definition full_alloc :: block_allocator where
  "full_alloc = (toy_alloc 0 0)\<lparr>ba_bitmap := [255]\<rparr>"

lemma full_bits [simp]: "k < 8 \<Longrightarrow> bit (255 :: int) k"
  unfolding less_8_cases by (elim insertE emptyE) simp_all

lemma full_alloc [simp]:
  "ba_bitmap full_alloc = [255]" "ba_total_blocks full_alloc = 8" "ba_data_start full_alloc = 10"
  "ba_free_blocks full_alloc = 0"
  by (simp_all add: full_alloc_def)

lemma full_alloc_wf [simp]: "alloc_wf full_alloc"
proof -
  have "free_bits [255] 8 = {}" by (auto simp: free_bits_def)
  then show ?thesis by (simp add: alloc_wf_def)
qed

end
