(* ===== verification/Buffer_Cache_Evict.thy ===== *)
theory Buffer_Cache_Evict
  imports Buffer_Cache_Ops
begin

text \<open>
  \<open>evict_lru_buffer\<close>: the least recently used buffer without references leaves the LRU list,
  its hash chain and the heap, after a write-back if it is dirty.
\<close>

section \<open>Unlinking a buffer from its hash chain\<close>

lemma hash_remove_hashed:
  assumes "hashed c (dom (bc_heap c))" "bc_heap c a = Some b"
  shows "\<exists>d. hash_remove c a = Some d \<and> hashed d (dom (bc_heap c) - {a}) \<and>
     bc_heap d a = Some (b\<lparr>bh_hash_next := None\<rparr>) \<and>
     (\<forall>x. x \<noteq> a \<longrightarrow> (\<exists>n. bc_heap d x = map_option (bh_hash_next_update n) (bc_heap c x))) \<and>
     d = c\<lparr>bc_heap := bc_heap d, bc_hash_table := bc_hash_table d\<rparr>"
proof -
  let ?h = "bucket_of c a"
  have ok: "hash_ok (bc_hash_table c) (hash_next_of c) (bucket_of c) (dom (bc_heap c))"
    and len: "length (bc_hash_table c) = unat (bc_hash_size c)" "0 < bc_hash_size c"
    using assms(1) by (auto simp: hashed_def)
  have a: "a \<in> dom (bc_heap c)" using assms(2) by auto
  have h: "?h < length (bc_hash_table c)" using ok a by (rule hash_ok_bucket)
  have hb: "hash_block (bh_block_num b) (bc_hash_size c) = ?h"
    using assms(2) by (simp add: bucket_of_def blk_def)
  have nb: "hash_next_of c a = bh_hash_next b" using assms(2) by (simp add: hash_next_of_def)
  have ld: "load_slot c (HashNext y) = Some (hash_next_of c y)" if "y \<in> dom (bc_heap c)" for y
    using that by (auto simp: hash_next_of_def)
  have lb: "load_slot c (Bucket ?h) = Some (bc_hash_table c ! ?h)" using h by (simp add: load_bucket_def)
  have "(slot_find (load_slot c) a (Bucket ?h) = Some (Bucket ?h) \<and> bc_hash_table c ! ?h = Some a \<and>
      hash_ok ((bc_hash_table c)[?h := hash_next_of c a]) ((hash_next_of c)(a := None)) (bucket_of c)
        (dom (bc_heap c) - {a})) \<or>
    (\<exists>x \<in> dom (bc_heap c) - {a}. slot_find (load_slot c) a (Bucket ?h) = Some (HashNext x) \<and>
      hash_next_of c x = Some a \<and>
      hash_ok (bc_hash_table c) ((hash_next_of c)(x := hash_next_of c a, a := None)) (bucket_of c)
        (dom (bc_heap c) - {a}))"
    by (rule hash_ok_remove [where load = "load_slot c" and H = "bucket_of c", OF ok a lb]) (rule ld)
  then show ?thesis
  proof (elim disjE conjE bexE)
    assume H: "slot_find (load_slot c) a (Bucket ?h) = Some (Bucket ?h)" "bc_hash_table c ! ?h = Some a"
      "hash_ok ((bc_hash_table c)[?h := hash_next_of c a]) ((hash_next_of c)(a := None)) (bucket_of c)
        (dom (bc_heap c) - {a})"
    let ?d = "c\<lparr>bc_heap := (bc_heap c)(a \<mapsto> b\<lparr>bh_hash_next := None\<rparr>),
        bc_hash_table := (bc_hash_table c)[?h := bh_hash_next b]\<rparr>"
    have "hash_remove c a = Some ?d"
      using assms(2) H h hb by (simp add: hash_remove_def load_bucket_def bh_modify_def)
    moreover have "hash_next_of ?d = (hash_next_of c)(a := None)" "bucket_of ?d = bucket_of c"
      using assms(2) by (auto simp: hash_next_of_def bucket_of_def blk_def fun_eq_iff)
    then have "hashed ?d (dom (bc_heap c) - {a})" using H(3) nb len by (simp add: hashed_def)
    moreover have "\<exists>n. bc_heap ?d x = map_option (bh_hash_next_update n) (bc_heap c x)" if "x \<noteq> a" for x
      using that by (intro exI [of _ "\<lambda>n. n"]) (cases "bc_heap c x"; simp)
    ultimately show ?thesis by (intro exI [of _ ?d]) auto
  next
    fix x
    assume x: "x \<in> dom (bc_heap c) - {a}" and H: "slot_find (load_slot c) a (Bucket ?h) = Some (HashNext x)"
      "hash_next_of c x = Some a"
      "hash_ok (bc_hash_table c) ((hash_next_of c)(x := hash_next_of c a, a := None)) (bucket_of c)
        (dom (bc_heap c) - {a})"
    from x obtain y where y: "bc_heap c x = Some y" "x \<noteq> a" by auto
    then have yn: "bh_hash_next y = Some a" using H(2) by (simp add: hash_next_of_def)
    let ?d = "c\<lparr>bc_heap := (bc_heap c)(x \<mapsto> y\<lparr>bh_hash_next := bh_hash_next b\<rparr>, a \<mapsto> b\<lparr>bh_hash_next := None\<rparr>)\<rparr>"
    have "hash_remove c a = Some ?d"
      using assms(2) H(1) y yn hb by (simp add: hash_remove_def bh_modify_def)
    moreover have "hash_next_of ?d = (hash_next_of c)(x := hash_next_of c a, a := None)" "bucket_of ?d = bucket_of c"
      using assms(2) y nb by (auto simp: hash_next_of_def bucket_of_def blk_def fun_eq_iff)
    then have "hashed ?d (dom (bc_heap c) - {a})" using H(3) len by (simp add: hashed_def)
    moreover have "\<exists>n. bc_heap ?d z = map_option (bh_hash_next_update n) (bc_heap c z)" if "z \<noteq> a" for z
    proof (cases "z = x")
      case True
      then show ?thesis using y by (intro exI [of _ "\<lambda>_. bh_hash_next b"]) simp
    next
      case False
      then show ?thesis using that by (intro exI [of _ "\<lambda>n. n"]) (cases "bc_heap c z"; simp)
    qed
    ultimately show ?thesis by (intro exI [of _ ?d]) auto
  qed
qed

section \<open>Removing a buffer from the cache\<close>

text \<open>What \<open>lru_remove\<close>, \<open>hash_remove\<close> and \<open>buffer_head_free\<close> leave of the heap.\<close>

lemma unhook_shape:
  assumes s: "shape c xs" and b: "bc_heap c a = Some b"
  shows "\<exists>c1 c2 c3. lru_remove c a = Some c1 \<and> hash_remove c1 a = Some c2 \<and> buffer_head_free c2 a = Some c3 \<and>
     shape (c3\<lparr>bc_current_buffers := bc_current_buffers c3 - 1, bc_evict_count := e\<rparr>) (remove1 a xs) \<and>
     bc_heap c3 a = None \<and> bc_current_buffers c3 = bc_current_buffers c \<and> same_config c c3 \<and>
     bc_evict_count c3 = bc_evict_count c \<and>
     (\<forall>x. x \<noteq> a \<longrightarrow> map_option (\<lambda>b. (bh_block_num b, cell_of b)) (bc_heap c3 x) =
        map_option (\<lambda>b. (bh_block_num b, cell_of b)) (bc_heap c x))"
proof -
  have a: "a \<in> set xs" and sx: "set xs = dom (bc_heap c)" using shapeD(2) [OF s] b by auto
  from bc_lru.rem_dll [OF shapeD(1) [OF s] _ a] sx obtain c1 where
    c1: "lru_remove c a = Some c1" "dll (links_of c1) (remove1 a xs)" "lru_frame c c1" by auto
  note f1 = lru_frame_fields [OF c1(3)] and v1 = lru_frame_views [OF c1(3)] and d1 = lru_frame_dom [OF c1(3)]
  have h1: "hashed c1 (dom (bc_heap c1))" using shapeD(3) [OF s] f1 v1 d1 by (simp add: hashed_def)
  from lru_frame_heap [OF c1(3) b] obtain b1 where b1: "bc_heap c1 a = Some b1" "unlinked b1 = unlinked b" by blast
  from hash_remove_hashed [OF h1 b1(1)] obtain c2 where
    c2: "hash_remove c1 a = Some c2" "hashed c2 (dom (bc_heap c1) - {a})"
      "bc_heap c2 a = Some (b1\<lparr>bh_hash_next := None\<rparr>)"
      "c2 = c1\<lparr>bc_heap := bc_heap c2, bc_hash_table := bc_hash_table c2\<rparr>"
    and n2: "\<And>x. x \<noteq> a \<Longrightarrow> \<exists>n. bc_heap c2 x = map_option (bh_hash_next_update n) (bc_heap c1 x)" by blast
  let ?c3 = "c2\<lparr>bc_heap := (bc_heap c2)(a := None)\<rparr>"
  let ?c4 = "?c3\<lparr>bc_current_buffers := bc_current_buffers ?c3 - 1, bc_evict_count := e\<rparr>"
  have c3: "buffer_head_free c2 a = Some ?c3" using c2(3) by (simp add: buffer_head_free_def)
  have f2: "bc_brk c2 = bc_brk c" "bc_oom c2 = bc_oom c" "bc_hash_size c2 = bc_hash_size c"
     "bc_max_buffers c2 = bc_max_buffers c" "bc_current_buffers c2 = bc_current_buffers c"
     "bc_evict_count c2 = bc_evict_count c" "bc_lru_head c2 = bc_lru_head c1" "bc_lru_tail c2 = bc_lru_tail c1"
    by (subst c2(4), simp add: f1)+
  have view: "map_option (\<lambda>b. (bh_block_num b, cell_of b)) (bc_heap ?c3 x) =
        map_option (\<lambda>b. (bh_block_num b, cell_of b)) (bc_heap c x)" if "x \<noteq> a" for x
  proof -
    from n2 [OF that] obtain n where n: "bc_heap c2 x = map_option (bh_hash_next_update n) (bc_heap c1 x)" by blast
    show ?thesis
      by (rule lru_frame_cases [OF c1(3), of x]) (use n that in \<open>auto simp: cell_of_def dest: unlinked_eqD\<close>)
  qed
  have "x \<noteq> a \<Longrightarrow> (\<exists>y. bc_heap c2 x = Some y) \<longleftrightarrow> (\<exists>y. bc_heap c x = Some y)" for x
    using view [of x] by (cases "bc_heap c2 x"; cases "bc_heap c x") auto
  then have dm: "dom (bc_heap ?c4) = dom (bc_heap c) - {a}" by (auto simp: dom_def)
  have bl: "blk ?c4 x = blk c x" if "x \<noteq> a" for x
    using view [OF that] that by (cases "bc_heap c2 x"; cases "bc_heap c x") (auto simp: blk_def)
  have lk: "dll (links_of ?c4) (remove1 a xs)"
  proof (rule dll_cong [OF c1(2)])
    fix x assume "x \<in> set (remove1 a xs)"
    then have x: "x \<noteq> a" using dll_distinct [OF shapeD(1) [OF s]] by auto
    from n2 [OF x] obtain n where "bc_heap c2 x = map_option (bh_hash_next_update n) (bc_heap c1 x)" by (elim exE)
    then show "lk_next (links_of ?c4) x = lk_next (links_of c1) x \<and> lk_prev (links_of ?c4) x = lk_prev (links_of c1) x"
      using x by (cases "bc_heap c1 x") (auto simp: links_of_def prev_of_def)
  qed (simp_all add: links_of_def f2)
  have hn: "hash_next_of ?c4 x = hash_next_of c2 x" if "x \<noteq> a" for x using that by (simp add: hash_next_of_def)
  have b2: "bucket_of c2 x = bucket_of ?c4 x" if "x \<noteq> a" for x
    using that by (simp add: bucket_of_def blk_def)
  have "hashed ?c4 (dom (bc_heap ?c4))"
  proof -
    have "hash_ok (bc_hash_table c2) (hash_next_of ?c4) (bucket_of ?c4) (dom (bc_heap c1) - {a})"
      by (rule hash_ok_cong [of _ "hash_next_of c2" "bucket_of c2"]) (use c2(2) hn b2 in \<open>auto simp: hashed_def\<close>)
    then show ?thesis using c2(2) dm d1 by (simp add: hashed_def)
  qed
  moreover have "heap_ok ?c4"
  proof -
    have "inj_on (blk ?c4) (dom (bc_heap ?c4))"
      using s dm bl by (auto simp: shape_def heap_ok_def inj_on_def)
    moreover have "length (bh_data y) = BLOCK_SIZE \<and> x < bc_brk ?c4" if y: "bc_heap ?c4 x = Some y" for x y
    proof -
      have x: "x \<noteq> a" using y by auto
      with view [OF x] y obtain z where "bc_heap c x = Some z" "bh_data y = bh_data z"
        by (cases "bc_heap c x") (auto simp: cell_of_def)
      then show ?thesis using s f2 by (simp add: shape_def heap_ok_def)
    qed
    ultimately show ?thesis by (simp add: heap_ok_def)
  qed
  moreover have "sized ?c4"
  proof -
    have fin: "finite (dom (bc_heap c))" using sx by (metis List.finite_set)
    have cur: "unat (bc_current_buffers c) = card (dom (bc_heap c))" "bc_current_buffers c \<le> bc_max_buffers c"
      using s by (auto simp: shape_def sized_def)
    have "card (dom (bc_heap c)) > 0" using fin b by (auto simp: card_gt_0_iff)
    then have "0 < bc_current_buffers c" using cur(1) by (simp add: word_gt_0 unat_gt_0 [symmetric])
    then have "unat (bc_current_buffers c - 1) = unat (bc_current_buffers c) - 1" by (rule unat_minus_one_pos)
    moreover have "card (dom (bc_heap ?c4)) = card (dom (bc_heap c)) - 1" 
      unfolding dm using fin b by (subst card_Diff_singleton) auto
    ultimately show ?thesis using cur f2 by (simp add: sized_def word_le_nat_alt)
  qed
  ultimately have "shape ?c4 (remove1 a xs)"
    using lk dm sx dll_distinct [OF shapeD(1) [OF s]] by (simp add: shape_def)
  then show ?thesis using c1(1) c2(1) c3 view f2 by (auto simp: same_config_def)
qed

text \<open>The victim, and the three outcomes.\<close>

definition victim :: "(block_t \<Rightarrow> cell option) \<Rightarrow> block_t list \<Rightarrow> block_t option" where
  "victim m bs = find (\<lambda>b. case m b of Some x \<Rightarrow> cl_ref x = 0 | None \<Rightarrow> False) (rev bs)"

lemma find_map: "find P (map f xs) = map_option f (find (P \<circ> f) xs)"
  by (induction xs) auto

lemma victim_find:
  assumes "shape c xs"
  shows "\<exists>r. ptr_find (\<lambda>a. map_option (\<lambda>b. bh_ref_count b = 0) (bc_heap c a)) (prev_of c) (bc_lru_tail c) = Some r \<and>
     map_option (blk c) r = victim (cells c) (map (blk c) xs) \<and>
     (\<forall>a. r = Some a \<longrightarrow> (\<exists>b. bc_heap c a = Some b \<and> bh_ref_count b = 0))"
proof -
  let ?P = "\<lambda>a. case bc_heap c a of Some b \<Rightarrow> bh_ref_count b = 0 | None \<Rightarrow> False"
  have ch: "chain (prev_of c) (bc_lru_tail c) (rev xs)"
    using dll_chain_prev [OF shapeD(1) [OF assms]] by (simp add: links_of_def)
  have "ptr_find (\<lambda>a. map_option (\<lambda>b. bh_ref_count b = 0) (bc_heap c a)) (prev_of c) (bc_lru_tail c) =
      Some (find ?P (rev xs))"
    by (rule ptr_find_chain [OF ch]) (use shapeD(2) [OF assms] in auto)
  moreover have "find ?P (rev xs) = find ((\<lambda>b. case cells c b of Some x \<Rightarrow> cl_ref x = 0 | None \<Rightarrow> False) \<circ> blk c) (rev xs)"
  proof (rule find_cong)
    fix a assume "a \<in> set (rev xs)"
    then obtain b where b: "bc_heap c a = Some b" using shapeD(2) [OF assms] by auto
    then have "cells c (blk c a) = Some (cell_of b)"
      using cells_hit [OF shapeD(6) [OF assms] b] by (simp add: blk_def)
    with b show "?P a = ((\<lambda>b. case cells c b of Some x \<Rightarrow> cl_ref x = 0 | None \<Rightarrow> False) \<circ> blk c) a"
      by (simp add: cell_of_def)
  qed simp
  moreover have "\<exists>b. bc_heap c a = Some b \<and> bh_ref_count b = 0" if "find ?P (rev xs) = Some a" for a
    using that by (auto simp: find_Some_iff split: option.splits)
  ultimately show ?thesis by (simp add: victim_def rev_map find_map)
qed

definition with_write :: "disk \<Rightarrow> block_t \<Rightarrow> cell \<Rightarrow> disk option" where
  "with_write d v x = (if cl_dirty x then pwrite_block d v (cl_data x) else Some d)"

lemma evict_lru_buffer_repr:
  assumes "cache_repr c bs"
  shows "(case victim (cells c) bs of
     None \<Rightarrow> evict_lru_buffer c d = Some (- ENOMEM, c, d)
   | Some v \<Rightarrow> \<exists>x. cells c v = Some x \<and> v \<in> set bs \<and> cl_ref x = 0 \<and>
       (case with_write d v x of
          None \<Rightarrow> evict_lru_buffer c d = Some (- EIO, c, d)
        | Some d' \<Rightarrow> \<exists>c'. evict_lru_buffer c d = Some (0, c', d') \<and> cache_repr c' (remove1 v bs) \<and>
            cells c' = (cells c)(v := None) \<and> same_config c c' \<and>
            bc_evict_count c' = bc_evict_count c + 1))"
proof -
  from assms obtain xs where xs: "shape c xs" "bs = map (blk c) xs" by (auto simp: cache_repr_def)
  from victim_find [OF xs(1)] obtain r where
    r: "ptr_find (\<lambda>a. map_option (\<lambda>b. bh_ref_count b = 0) (bc_heap c a)) (prev_of c) (bc_lru_tail c) = Some r"
      "map_option (blk c) r = victim (cells c) bs"
      "\<And>a. r = Some a \<Longrightarrow> \<exists>b. bc_heap c a = Some b \<and> bh_ref_count b = 0" unfolding xs(2) by blast
  show ?thesis
  proof (cases r)
    case None
    then show ?thesis using r(1,2) by (simp add: evict_lru_buffer_def)
  next
    case (Some a)
    with r(3) obtain b where b: "bc_heap c a = Some b" "bh_ref_count b = 0" by blast
    let ?v = "bh_block_num b"
    have bk: "blk c a = ?v" using b by (simp add: blk_def)
    have vic: "victim (cells c) bs = Some ?v" using r(2) Some bk by simp
    have w: "cache_wf c" using xs(1) by (rule shapeD)
    have cl: "cells c ?v = Some (cell_of b)" using cells_hit [OF w b(1)] .
    have a: "a \<in> set xs" using shapeD(2) [OF xs(1)] b by auto
    then have v: "?v \<in> set bs" unfolding xs(2) bk [symmetric] by simp
    have ww: "with_write d ?v (cell_of b) =
        (if bh_dirty b then pwrite_block d (bh_block_num b) (bh_data b) else Some d)"
      by (simp add: with_write_def cell_of_def)
    show ?thesis
    proof (cases "with_write d ?v (cell_of b)")
      case None
      then have "evict_lru_buffer c d = Some (- EIO, c, d)"
        using r(1) Some b(1) ww by (simp add: evict_lru_buffer_def)
      then show ?thesis using None vic cl v b(2) by (simp add: cell_of_def)
    next
      case d': (Some d')
      from unhook_shape [OF xs(1) b(1), of "bc_evict_count c + 1"] obtain c1 c2 c3 where
        u: "lru_remove c a = Some c1" "hash_remove c1 a = Some c2" "buffer_head_free c2 a = Some c3"
         "bc_heap c3 a = None" "bc_evict_count c3 = bc_evict_count c" "same_config c c3"
        and s: "shape (c3\<lparr>bc_current_buffers := bc_current_buffers c3 - 1,
                      bc_evict_count := bc_evict_count c + 1\<rparr>) (remove1 a xs)"
        and view: "\<And>x. x \<noteq> a \<Longrightarrow> map_option (\<lambda>b. (bh_block_num b, cell_of b)) (bc_heap c3 x) =
          map_option (\<lambda>b. (bh_block_num b, cell_of b)) (bc_heap c x)" by blast
      let ?c4 = "c3\<lparr>bc_current_buffers := bc_current_buffers c3 - 1, bc_evict_count := bc_evict_count c + 1\<rparr>"
      have ev: "evict_lru_buffer c d = Some (0, ?c4, d')"
        using r(1) Some b(1) d' [unfolded ww] u by (cases "bh_dirty b") (simp_all add: evict_lru_buffer_def)
      have w4: "cache_wf ?c4" using s by (auto simp: cache_wf_def)
      have "cells ?c4 = (cells c)(?v := None)"
      proof (rule cells_eqI [OF w4])
        fix x y assume y: "bc_heap ?c4 x = Some y"
        then have x: "x \<noteq> a" using u(4) by auto
        with view [OF x] y obtain z where z: "bc_heap c x = Some z" "bh_block_num y = bh_block_num z" "cell_of y = cell_of z"
          by (cases "bc_heap c x") auto
        moreover have "bh_block_num z \<noteq> ?v" using shape_blk_inj [OF xs(1) z(1) b(1)] x by blast
        ultimately show "((cells c)(?v := None)) (bh_block_num y) = Some (cell_of y)"
          using cells_hit [OF w z(1)] by simp
      next
        fix bl assume n: "\<And>x y. bc_heap ?c4 x = Some y \<Longrightarrow> bh_block_num y \<noteq> bl"
        show "((cells c)(?v := None)) bl = None"
        proof (rule ccontr)
          assume h: "((cells c)(?v := None)) bl \<noteq> None"
          then have "bl \<noteq> ?v" "cells c bl \<noteq> None" by (auto split: if_splits)
          then obtain x z where z: "bc_heap c x = Some z" "bh_block_num z = bl" "bl \<noteq> ?v"
            by (auto elim!: cells_SomeD [OF w])
          then have "x \<noteq> a" using b(1) by auto
          with z view [OF this] n [of x] show False by (cases "bc_heap c3 x") auto
        qed
      qed
      moreover have "cache_repr ?c4 (remove1 ?v bs)"
      proof -
        have inj: "inj_on (blk c) (set xs)" using xs(1) by (simp add: shape_def heap_ok_def)
        have "blk ?c4 x = blk c x" if "x \<in> set (remove1 a xs)" for x
        proof -
          have x: "x \<noteq> a" using that dll_distinct [OF shapeD(1) [OF xs(1)]] by auto
          from view [OF x] show ?thesis
            by (cases "bc_heap c3 x"; cases "bc_heap c x") (auto simp: blk_def)
        qed
        then have "map (blk ?c4) (remove1 a xs) = remove1 ?v bs"
          using map_remove1_inj [OF inj a] bk xs(2) by (simp cong: map_cong)
        then show ?thesis using s by (auto simp: cache_repr_def)
      qed
      moreover have "same_config c ?c4" using u(6) by (simp add: same_config_def)
      ultimately show ?thesis using vic cl v b(2) d' ev by (auto simp: cell_of_def)
    qed
  qed
qed

end
