(* ===== verification/Superblock.thy ===== *)
theory Superblock
  imports Block_Dev
begin

text \<open>
  \<open>src/superblock.c\<close>: reading, writing, validating and laying out the superblock.  All sizes are
  32-bit and wrap; \<open>time(NULL)\<close>, called twice, gives the two times.
\<close>

abbreviation MODERNFS_MAGIC :: u32 where "MODERNFS_MAGIC \<equiv> 0x4D4F4446"
abbreviation MODERNFS_VERSION :: u32 where "MODERNFS_VERSION \<equiv> 1"
abbreviation FS_STATE_CLEAN :: u32 where "FS_STATE_CLEAN \<equiv> 0"

definition superblock_read :: "block_device \<Rightarrow> ((int + superblock) \<times> block_device) option" where
  "superblock_read dev = do {
     (r, dev) \<leftarrow> blkdev_read dev 0;
     (case r of
        Inl _ \<Rightarrow> Some (Inl (- EIO), dev)
      | Inr buf \<Rightarrow> do {
          bytes \<leftarrow> buf_read buf 0 sizeof_superblock;
          Some (Inr (decode_superblock bytes), dev) })
   }"

definition superblock_write :: "block_device \<Rightarrow> superblock \<Rightarrow> (int \<times> block_device) option" where
  "superblock_write dev sb = do {
     buf \<leftarrow> buf_write (replicate BLOCK_SIZE 0) 0 (encode_superblock sb);
     (ret, dev) \<leftarrow> blkdev_write dev 0 buf;
     (if ret < 0 then Some (- EIO, dev)
      else do {
        (ret, dev) \<leftarrow> blkdev_sync dev;
        (if ret < 0 then Some (- EIO, dev) else Some (0, dev)) })
   }"

definition superblock_validate :: "superblock \<Rightarrow> int" where
  "superblock_validate sb =
     (if sb_magic sb \<noteq> MODERNFS_MAGIC then - EINVAL
      else if sb_version sb \<noteq> MODERNFS_VERSION then - EINVAL
      else if sb_block_size sb \<noteq> 4096 then - EINVAL
      else if sb_root_inum sb \<noteq> 1 then - EINVAL
      else 0)"

text \<open>The sizes \<open>superblock_init\<close> computes, in the order it computes them.\<close>

definition init_total_inodes :: "u32 \<Rightarrow> u32" where
  "init_total_inodes total_blocks =
     (let data_blocks_estimate = total_blocks - 100;
          n = data_blocks_estimate div 256;
          n = (if n < 256 then 256 else n)
      in if n > 16384 then 16384 else n)"

definition init_journal_blocks :: "u32 \<Rightarrow> u32" where
  "init_journal_blocks total_blocks =
     (let journal_size = total_blocks div 8;
          journal_size = (if journal_size > 2048 then 2048 else journal_size)
      in if journal_size < 256 then 256 else journal_size)"

definition superblock_init :: "u32 \<Rightarrow> u64 \<Rightarrow> u64 \<Rightarrow> superblock" where
  "superblock_init total_blocks mount_now write_now =
     (let total_inodes = init_total_inodes total_blocks;
          inode_bitmap_blocks = (total_inodes + 32767) div 32768;
          data_blocks = total_blocks - 1 - inode_bitmap_blocks;
          data_bitmap_blocks = (data_blocks + 32767) div 32768;
          inode_table_blocks = (total_inodes + 31) div 32;
          journal_blocks = init_journal_blocks total_blocks;
          metadata_blocks = 1 + journal_blocks + inode_bitmap_blocks + data_bitmap_blocks + inode_table_blocks;
          data_blocks = total_blocks - metadata_blocks;
          data_bitmap_blocks = (data_blocks + 32767) div 32768;
          metadata_blocks = 1 + journal_blocks + inode_bitmap_blocks + data_bitmap_blocks + inode_table_blocks;
          data_blocks = total_blocks - metadata_blocks;
          journal_start = 1;
          inode_bitmap_start = journal_start + journal_blocks;
          data_bitmap_start = inode_bitmap_start + inode_bitmap_blocks;
          inode_table_start = data_bitmap_start + data_bitmap_blocks;
          data_start = inode_table_start + inode_table_blocks
      in \<lparr>sb_magic = MODERNFS_MAGIC, sb_version = MODERNFS_VERSION, sb_block_size = 4096,
          sb_total_blocks = total_blocks, sb_free_blocks = data_blocks - 1,
          sb_journal_start = journal_start, sb_journal_blocks = journal_blocks,
          sb_inode_bitmap_start = inode_bitmap_start, sb_inode_bitmap_blocks = inode_bitmap_blocks,
          sb_data_bitmap_start = data_bitmap_start, sb_data_bitmap_blocks = data_bitmap_blocks,
          sb_inode_table_start = inode_table_start, sb_inode_table_blocks = inode_table_blocks,
          sb_data_start = data_start, sb_data_blocks = data_blocks,
          sb_total_inodes = total_inodes, sb_free_inodes = total_inodes - 2, sb_first_inode = 2,
          sb_root_inum = 1, sb_state = FS_STATE_CLEAN, sb_mount_time = mount_now,
          sb_write_time = write_now, sb_mount_count = 0, sb_padding = replicate 3988 0\<rparr>)"

end
