(* ===== verification/Superblock_Spec.thy ===== *)
theory Superblock_Spec
  imports Superblock Block_Dev_Contract
begin

text \<open>
  The layout the superblock describes: five regions, journal, inode bitmap, data bitmap, inode
  table and data, that tile the device after block 0.
\<close>

section \<open>Layout\<close>

definition tiles :: "superblock \<Rightarrow> bool" where
  "tiles sb \<longleftrightarrow>
     unat (sb_journal_start sb) = 1 \<and>
     unat (sb_inode_bitmap_start sb) = unat (sb_journal_start sb) + unat (sb_journal_blocks sb) \<and>
     unat (sb_data_bitmap_start sb) = unat (sb_inode_bitmap_start sb) + unat (sb_inode_bitmap_blocks sb) \<and>
     unat (sb_inode_table_start sb) = unat (sb_data_bitmap_start sb) + unat (sb_data_bitmap_blocks sb) \<and>
     unat (sb_data_start sb) = unat (sb_inode_table_start sb) + unat (sb_inode_table_blocks sb) \<and>
     unat (sb_total_blocks sb) = unat (sb_data_start sb) + unat (sb_data_blocks sb)"

text \<open>Every inode has a bit in the bitmap and a slot in the table.\<close>

definition inodes_fit :: "superblock \<Rightarrow> bool" where
  "inodes_fit sb \<longleftrightarrow> unat (sb_total_inodes sb) \<le> 32768 * unat (sb_inode_bitmap_blocks sb) \<and>
     unat (sb_total_inodes sb) \<le> 32 * unat (sb_inode_table_blocks sb) \<and> 256 \<le> unat (sb_total_inodes sb)"

lemma unat_sum:
  fixes x y :: u32
  shows "unat x + unat y < 2 ^ 32 \<Longrightarrow> unat (x + y) = unat x + unat y"
  by (simp add: unat_word_ariths)

lemma unat_diff:
  fixes x y :: u32
  shows "unat y \<le> unat x \<Longrightarrow> unat (x - y) = unat x - unat y"
  by (simp add: unat_sub word_le_nat_alt)

lemma unat_ceil:
  fixes x :: u32
  assumes "unat x + 32767 < 2 ^ 32"
  shows "unat ((x + 32767) div 32768) = (unat x + 32767) div 32768"
proof -
  have "unat (x + 32767) = unat x + 32767" using unat_sum [of x 32767] assms by simp
  then show ?thesis by (simp add: unat_div)
qed

lemma init_total_inodes_bounds:
  "256 \<le> unat (init_total_inodes t)" "unat (init_total_inodes t) \<le> 16384"
  by (auto simp: init_total_inodes_def Let_def word_less_nat_alt word_le_nat_alt)

lemma init_journal_blocks_bounds:
  "256 \<le> unat (init_journal_blocks t)" "unat (init_journal_blocks t) \<le> 2048"
  "unat (init_journal_blocks t) \<le> max 256 (unat t div 8)"
  by (auto simp: init_journal_blocks_def Let_def word_less_nat_alt word_le_nat_alt unat_div)

lemma init_total_inodes_le:
  assumes "100 \<le> unat t"
  shows "unat (init_total_inodes t) \<le> max 256 (unat t div 256)"
proof -
  have "unat (t - 100) = unat t - 100" using unat_diff [of 100 t] assms by simp
  then have "unat ((t - 100) div 256) \<le> unat t div 256" by (simp add: unat_div div_le_mono)
  then show ?thesis by (auto simp: init_total_inodes_def Let_def word_less_nat_alt)
qed

text \<open>The metadata of a device of \<open>T\<close> blocks leaves room for data.\<close>

lemma metadata_fits:
  fixes T J n k :: nat
  assumes "268 \<le> T" "J \<le> max 256 (T div 8)" "n \<le> max 256 (T div 256)" "k \<le> (T + 32765) div 32768"
  shows "1 + J + 1 + k + (n + 31) div 32 < T"
proof (cases "T < 2056")
  case True
  then have "J \<le> 256" "n \<le> 256" "k \<le> 1" using assms by auto
  then show ?thesis using assms(1) by auto
next
  case False
  have "8 * (T div 8) \<le> T" by simp
  then have J: "8 * J \<le> T" using assms(2) False by auto
  have "256 * (T div 256) \<le> T" by simp
  then have n: "256 * n \<le> T + 65536" using assms(3) by auto
  have "32768 * ((T + 32765) div 32768) \<le> T + 32765" by simp
  then have k: "32768 * k \<le> T + 32765" using assms(4) by linarith
  have "32 * ((n + 31) div 32) \<le> n + 31" by simp
  then show ?thesis using J n k False by linarith
qed

text \<open>
  The two passes over the bitmap size.  The first pass sizes the bitmap for more blocks than are
  left, so the second pass may shrink it, which gives the freed blocks to the data region again.
\<close>

lemma layout_passes:
  fixes T J n N K1 D1 K2 D2 :: nat
  assumes "268 \<le> T" "J \<le> max 256 (T div 8)" "n \<le> max 256 (T div 256)"
    and N: "N = (n + 31) div 32" and K1: "K1 = (T - 2 + 32767) div 32768"
    and D1: "D1 = T - (2 + J + K1 + N)" and K2: "K2 = (D1 + 32767) div 32768"
    and D2: "D2 = T - (2 + J + K2 + N)"
  shows "2 + J + K1 + N < T" "0 < D1" "K2 \<le> K1" "1 \<le> K2" "2 + J + K2 + N + D2 = T"
    "J \<le> 2048 \<Longrightarrow> n \<le> 16384 \<Longrightarrow> T \<le> 2 ^ 22 \<Longrightarrow> D2 \<le> 32768 * K2 + 1"
proof -
  have "K1 \<le> (T + 32765) div 32768" using assms(1) K1 by simp
  from metadata_fits [OF assms(1-3) this] show m1: "2 + J + K1 + N < T" by (simp add: N)
  then show d: "0 < D1" by (simp add: D1)
  have "D1 \<le> T - 2" by (simp add: D1)
  then show k21: "K2 \<le> K1" unfolding K1 K2 by (intro div_le_mono) simp
  show "1 \<le> K2" using d by (simp add: K2 Suc_le_eq div_greater_zero_iff)
  show "2 + J + K2 + N + D2 = T" using m1 k21 D2 by simp
  assume "J \<le> 2048" "n \<le> 16384" "T \<le> 2 ^ 22"
  moreover from this have "N \<le> 512" "K1 \<le> 129" unfolding N K1 by simp_all
  ultimately have "T - 2 + 32767 \<le> D1 + 32767 + 32768" using D1 m1 by linarith
  then have "K1 \<le> (D1 + 32767 + 32768) div 32768" unfolding K1 by (rule div_le_mono)
  then have "K1 \<le> K2 + 1" by (simp add: K2)
  moreover have "D2 = D1 + (K1 - K2)" using D1 D2 m1 k21 by linarith
  ultimately have "D2 \<le> D1 + 1" by simp
  moreover have "D1 \<le> 32768 * K2"
  proof -
    have "D1 + 32767 < 32768 * (K2 + 1)" unfolding K2 by (simp add: dividend_less_times_div)
    then show ?thesis by simp
  qed
  ultimately show "D2 \<le> 32768 * K2 + 1" by simp
qed

lemma superblock_init_numbers:
  assumes lo: "268 \<le> unat t" and hi: "unat t + 32768 \<le> 2 ^ 32" and sb: "sb = superblock_init t m w"
  shows "\<exists>J N K D. unat (sb_journal_blocks sb) = J \<and> unat (sb_inode_bitmap_blocks sb) = 1 \<and>
    unat (sb_data_bitmap_blocks sb) = K \<and> unat (sb_inode_table_blocks sb) = N \<and>
    unat (sb_data_blocks sb) = D \<and> unat (sb_inode_bitmap_start sb) = 1 + J \<and>
    unat (sb_data_bitmap_start sb) = 2 + J \<and> unat (sb_inode_table_start sb) = 2 + J + K \<and>
    unat (sb_data_start sb) = 2 + J + K + N \<and> 2 + J + K + N + D = unat t \<and> 1 \<le> K \<and> 0 < D \<and>
    N = (unat (init_total_inodes t) + 31) div 32 \<and> (unat t \<le> 2 ^ 22 \<longrightarrow> D \<le> 32768 * K + 1) \<and>
    K = (unat t - (2 + J + (unat t - 2 + 32767) div 32768 + N) + 32767) div 32768"
proof -
  define ti jb where "ti = init_total_inodes t" and "jb = init_journal_blocks t"
  define J N K1 D1 K2 D2 where "J = unat jb" and "N = (unat ti + 31) div 32"
    and "K1 = (unat t - 2 + 32767) div 32768" and "D1 = unat t - (2 + J + K1 + N)"
    and "K2 = (D1 + 32767) div 32768" and "D2 = unat t - (2 + J + K2 + N)"
  have le: "J \<le> max 256 (unat t div 8)" "unat ti \<le> max 256 (unat t div 256)" "256 \<le> unat ti" "unat ti \<le> 16384"
    using init_journal_blocks_bounds(3) init_total_inodes_le init_total_inodes_bounds lo
    by (auto simp: J_def ti_def jb_def)
  note P = layout_passes [OF lo le(1,2) N_def K1_def D1_def K2_def D2_def]
  have J2: "J \<le> 2048" using init_journal_blocks_bounds(2) by (simp add: J_def jb_def)
  have t32: "unat t < 2 ^ 32" using unsigned_less [of t, where ?'a = nat] by simp
  define ib where "ib = (ti + 32767) div 32768"
  have "unat ib = (unat ti + 32767) div 32768" unfolding ib_def by (rule unat_ceil) (use le in simp)
  also have "\<dots> = 1" using le by simp
  finally have ib: "unat ib = 1" .
  define k1 where "k1 = (t - 1 - ib + 32767) div 32768"
  have "unat (t - 1 - ib) = unat t - 2" using lo ib by (simp add: unat_diff)
  then have k1: "unat k1 = K1" unfolding k1_def K1_def using hi lo by (subst unat_ceil) simp_all
  define it where "it = (ti + 31) div 32"
  have "unat (ti + 31) = unat ti + 31" using le by (subst unat_sum) simp_all
  then have it: "unat it = N" by (simp add: it_def unat_div N_def)
  have jb: "unat jb = J" by (simp add: J_def)
  define d1 where "d1 = t - (1 + jb + ib + k1 + it)"
  have md1: "unat (1 + jb + ib + k1 + it) = 2 + J + K1 + N"
    using P(1) t32 jb ib k1 it by (simp add: unat_sum)
  then have d1: "unat d1 = D1" unfolding d1_def using P(1) D1_def by (simp add: unat_diff)
  define k2 where "k2 = (d1 + 32767) div 32768"
  have k2: "unat k2 = K2"
    unfolding k2_def K2_def using d1 hi D1_def by (subst unat_ceil) simp_all
  define d2 where "d2 = t - (1 + jb + ib + k2 + it)"
  have md2: "unat (1 + jb + ib + k2 + it) = 2 + J + K2 + N"
    using P(5) t32 jb ib k2 it by (simp add: unat_sum)
  then have d2: "unat d2 = D2" unfolding d2_def using P(5) by (simp add: unat_diff)
  have f: "sb_journal_blocks sb = jb" "sb_inode_bitmap_blocks sb = ib" "sb_data_bitmap_blocks sb = k2"
    "sb_inode_table_blocks sb = it" "sb_data_blocks sb = d2" "sb_inode_bitmap_start sb = 1 + jb"
    "sb_data_bitmap_start sb = 1 + jb + ib" "sb_inode_table_start sb = 1 + jb + ib + k2"
    "sb_data_start sb = 1 + jb + ib + k2 + it"
    unfolding sb superblock_init_def Let_def d2_def k2_def d1_def it_def k1_def ib_def jb_def ti_def
    by (simp_all only: superblock.select_convs)
  have g: "unat (1 + jb) = 1 + J" "unat (1 + jb + ib) = 2 + J" "unat (1 + jb + ib + k2) = 2 + J + K2"
    "unat (1 + jb + ib + k2 + it) = 2 + J + K2 + N"
    using P(5) t32 jb ib k2 it by (simp_all add: unat_sum)
  have k: "K2 = (unat t - (2 + J + (unat t - 2 + 32767) div 32768 + N) + 32767) div 32768"
    unfolding K2_def D1_def K1_def by (rule refl)
  have "0 < D2" using P(1,3,5) by linarith
  then show ?thesis
    using P(4,5) impI [OF P(6) [OF J2 le(4)]]
    by - (rule exI [of _ J], rule exI [of _ N], rule exI [of _ K2], rule exI [of _ D2],
        simp only: f g jb ib k2 it d2 N_def [unfolded ti_def, symmetric] k [symmetric] simp_thms)
qed

lemma superblock_init_tiles:
  assumes "268 \<le> unat t" "unat t + 32768 \<le> 2 ^ 32"
  shows "tiles (superblock_init t m w)"
proof -
  have "sb_total_blocks (superblock_init t m w) = t" "sb_journal_start (superblock_init t m w) = 1"
    by (simp_all add: superblock_init_def Let_def)
  moreover obtain J N K D where
    "unat (sb_journal_blocks (superblock_init t m w)) = J" "unat (sb_inode_bitmap_blocks (superblock_init t m w)) = 1"
    "unat (sb_data_bitmap_blocks (superblock_init t m w)) = K" "unat (sb_inode_table_blocks (superblock_init t m w)) = N"
    "unat (sb_data_blocks (superblock_init t m w)) = D" "unat (sb_inode_bitmap_start (superblock_init t m w)) = 1 + J"
    "unat (sb_data_bitmap_start (superblock_init t m w)) = 2 + J"
    "unat (sb_inode_table_start (superblock_init t m w)) = 2 + J + K"
    "unat (sb_data_start (superblock_init t m w)) = 2 + J + K + N" "2 + J + K + N + D = unat t"
    using superblock_init_numbers [OF assms refl, of m w] by blast
  ultimately show ?thesis by (simp add: tiles_def)
qed

lemma superblock_init_sizes:
  assumes "268 \<le> unat t" "unat t + 32768 \<le> 2 ^ 32" "sb = superblock_init t m w"
  shows "inodes_fit sb" "0 < unat (sb_data_blocks sb)" "1 \<le> unat (sb_data_bitmap_blocks sb)"
    "unat t \<le> 2 ^ 22 \<Longrightarrow> unat (sb_data_blocks sb) \<le> 32768 * unat (sb_data_bitmap_blocks sb) + 1"
proof -
  note N = superblock_init_numbers [OF assms]
  have ti: "sb_total_inodes sb = init_total_inodes t" by (simp add: assms(3) superblock_init_def Let_def)
  have "x < 32 * ((x + 31) div 32) + 1" for x :: nat
    using dividend_less_times_div [of 32 "x + 31"] by simp
  from this [of "unat (init_total_inodes t)"] show "inodes_fit sb"
    using N init_total_inodes_bounds [of t] by (auto simp: inodes_fit_def ti)
  show "0 < unat (sb_data_blocks sb)" "1 \<le> unat (sb_data_bitmap_blocks sb)"
    "unat t \<le> 2 ^ 22 \<Longrightarrow> unat (sb_data_blocks sb) \<le> 32768 * unat (sb_data_bitmap_blocks sb) + 1"
    using N by blast+
qed

text \<open>Below 268 blocks the metadata does not fit, and the subtraction wraps.\<close>

text \<open>For the sizes \<open>mkfs\<close> accepts, whole megabytes, the bitmap covers every data block.\<close>

lemma megabytes_covered:
  fixes m J n N K1 D1 K D :: nat
  assumes m: "2 \<le> m" "m \<le> 16384" and J: "J = max 256 (min 2048 (32 * m))" and n: "n = min 16384 (max 256 (m - 1))"
    and N: "N = (n + 31) div 32" and D1: "D1 = 256 * m - (2 + J + (256 * m - 2 + 32767) div 32768 + N)"
    and K: "K = (D1 + 32767) div 32768" "1 \<le> K" and D: "2 + J + K + N + D = 256 * m" "D \<le> 32768 * K + 1"
  shows "D \<le> 32768 * K"
proof (rule ccontr)
  assume "\<not> D \<le> 32768 * K"
  with D have top: "256 * m = 3 + J + N + 32769 * K" by linarith
  show False
  proof (cases "m < 64")
    case True
    then show False using top K(2) by linarith
  next
    case False
    then have j: "J = 2048" using J by linarith
    show False
    proof (cases "m \<le> 257")
      case True
      then have "n = 256" using n by simp
      then have "N = 8" using N by simp
      then have h: "256 * m = 2059 + 32769 * K" using top j by simp
      have "K < 2" using h True by linarith
      then have "K = 1" using K(2) by linarith
      then have "256 * m = 34828" using h by simp
      then show False by presburger
    next
      case False
      then have "n = m - 1" using n m by simp
      then have "N = (m + 30) div 32" using N False by simp
      moreover define r where "r = (m + 30) mod 32"
      ultimately have r: "m + 30 = 32 * N + r" "r < 32" by simp_all
      have q: "8191 * N + 256 * r = 32769 * K + 9731" using top j r by linarith
      have "K \<le> 128" using top m by linarith
      then have "N = 4 * K + 1" using q r(2) by linarith
      then have h: "256 * r = 5 * K + 1540" using q by linarith
      then have "6 < r" "r < 9" using \<open>K \<le> 128\<close> by linarith+
      then consider "r = 7" | "r = 8" by linarith
      then show False
      proof cases
        case 1
        then have "5 * K = 252" using h by simp
        then show False by presburger
      next
        case 2
        then have "5 * K = 508" using h by simp
        then show False by presburger
      qed
    qed
  qed
qed

lemma mkfs_bitmap_covers:
  assumes "2 \<le> unat s" "unat s \<le> 16384" and sb: "sb = superblock_init (256 * s) m w"
  shows "unat (sb_data_blocks sb) \<le> 32768 * unat (sb_data_bitmap_blocks sb)"
proof -
  let ?t = "256 * s"
  have t: "unat ?t = 256 * unat s" using assms by (simp add: unat_word_ariths)
  have ht: "268 \<le> unat ?t" "unat ?t + 32768 \<le> 2 ^ 32" using t assms by simp_all
  from superblock_init_numbers [OF ht sb] obtain J N K D where n: "unat (sb_journal_blocks sb) = J" "unat (sb_data_bitmap_blocks sb) = K" "unat (sb_data_blocks sb) = D"
    "2 + J + K + N + D = unat ?t" "1 \<le> K" "N = (unat (init_total_inodes ?t) + 31) div 32" "unat ?t \<le> 2 ^ 22 \<longrightarrow> D \<le> 32768 * K + 1"
    "K = (unat ?t - (2 + J + (unat ?t - 2 + 32767) div 32768 + N) + 32767) div 32768"
    by blast
  have j: "J = max 256 (min 2048 (32 * unat s))"
  proof -
    have "sb_journal_blocks sb = init_journal_blocks ?t" by (simp add: sb superblock_init_def Let_def)
    moreover have "unat (?t div 8) = 32 * unat s" using t by (simp add: unat_div)
    ultimately show ?thesis using n(1) by (auto simp: init_journal_blocks_def Let_def word_less_nat_alt max_def min_def)
  qed
  have "unat (?t - 100) = 256 * unat s - 100" using t assms by (subst unat_diff) simp_all
  then have "unat ((?t - 100) div 256) = unat s - 1" using assms by (simp add: unat_div)
  then have i: "unat (init_total_inodes ?t) = min 16384 (max 256 (unat s - 1))"
    by (auto simp: init_total_inodes_def Let_def word_less_nat_alt max_def min_def)
  show ?thesis
    unfolding n(2,3)
    by (rule megabytes_covered [OF assms(1,2) j refl n(6) [unfolded i] refl n(8) [unfolded t] n(5)]) (use n(4,7) t assms in simp_all)
qed

lemma superblock_init_256:
  "sb_data_blocks (superblock_init 256 m w) = 4294967286" "sb_data_bitmap_blocks (superblock_init 256 m w) = 0"
  by (simp_all add: superblock_init_def Let_def init_total_inodes_def init_journal_blocks_def)

lemma superblock_init_34828:
  "sb_data_blocks (superblock_init 34828 m w) = 32769" "sb_data_bitmap_blocks (superblock_init 34828 m w) = 1"
  by (simp_all add: superblock_init_def Let_def init_total_inodes_def init_journal_blocks_def)

lemma superblock_init_wf [simp]: "superblock_wf (superblock_init t m w)"
  by (simp add: superblock_wf_def superblock_init_def Let_def)

lemma superblock_validate_iff:
  "superblock_validate sb = 0 \<longleftrightarrow> sb_magic sb = MODERNFS_MAGIC \<and> sb_version sb = MODERNFS_VERSION \<and>
     sb_block_size sb = 4096 \<and> sb_root_inum sb = 1"
  by (simp add: superblock_validate_def)

section \<open>Writing and reading\<close>

definition sb_block :: "superblock \<Rightarrow> byte list" where
  "sb_block sb = encode_superblock sb @ replicate 8 0"

lemma superblock_write_spec:
  assumes ok: "dev_ok dev" and b: "0 < bd_total_blocks dev" and wf: "superblock_wf sb"
    and good: "\<And>b. \<not> dk_write_bad (bd_disk dev) b" "\<not> dk_fsync_bad (bd_disk dev)"
  shows "\<exists>dev'. superblock_write dev sb = Some (0, dev') \<and> dev_ok dev' \<and> dev_static dev dev' \<and>
     dev_view dev' = (dev_view dev)(0 := sb_block sb) \<and> dk_blocks (bd_disk dev') = dev_view dev'"
proof -
  have len: "length (encode_superblock sb) = 4088" using length_encode_superblock [OF wf] .
  have buf: "buf_write (replicate BLOCK_SIZE 0) 0 (encode_superblock sb) = Some (sb_block sb)"
    using len by (simp add: buf_write_def splice_def sb_block_def)
  have "writable dev 0" using good by (simp add: writable_def)
  with blkdev_write_spec [OF ok, of 0 "sb_block sb"] b len obtain d1 where
    d1: "blkdev_write dev 0 (sb_block sb) = Some (0, d1)" "dev_ok d1" "dev_static dev d1"
      "dev_view d1 = (dev_view dev)(0 := sb_block sb)" by (auto simp: sb_block_def)
  have g1: "syncable d1" "\<not> dk_fsync_bad (bd_disk d1)"
    using good d1(3) by (auto simp: syncable_def dev_static_def split: option.split)
  from blkdev_sync_spec [OF dev_ok_coherent [OF d1(2)]] g1 d1(2) obtain d2 where
    d2: "blkdev_sync d1 = Some (0, d2)" "dev_ok d2" "dev_static d1 d2" "dev_view d2 = dev_view d1"
      "dk_blocks (bd_disk d2) = dev_view d1" by auto
  have "superblock_write dev sb = Some (0, d2)"
    using buf d1(1) d2(1) by (simp add: superblock_write_def)
  then show ?thesis using d2 d1(3,4) by (auto intro: dev_static_trans)
qed

lemma superblock_read_spec:
  assumes ok: "dev_ok dev" and b: "0 < bd_total_blocks dev" and good: "\<not> dk_read_bad (bd_disk dev) 0"
  shows "\<exists>dev'. superblock_read dev = Some (Inr (decode_superblock (slice 0 sizeof_superblock (dev_view dev 0))), dev') \<and>
     dev_ok dev' \<and> dev_view dev' = dev_view dev"
proof -
  have "readable dev 0" using good by (simp add: readable_def)
  with blkdev_read_spec [OF dev_ok_coherent [OF ok], of 0] b ok obtain dev' where
    r: "blkdev_read dev 0 = Some (Inr (dev_view dev 0), dev')" "dev_ok dev'" "dev_view dev' = dev_view dev" by auto
  have "length (dev_view dev 0) = BLOCK_SIZE" using ok by (rule blkdev.view_length)
  then show ?thesis using r by (simp add: superblock_read_def buf_read_Some)
qed

lemma decode_sb_block:
  assumes "superblock_wf sb"
  shows "decode_superblock (slice 0 sizeof_superblock (sb_block sb)) = sb"
  using assms decode_encode_superblock [OF assms, of "[]"] length_encode_superblock [OF assms]
  by (simp add: sb_block_def slice_def)

end
