(* ===== verification/Device_Properties.thy ===== *)
theory Device_Properties
  imports Instances Buffer_Cache_Evict Superblock_Spec
begin

text \<open>
  The properties of the block device, its buffer cache and the superblock, each stated over the
  model of the C functions and proved from the lemmas of their theories.
\<close>

section \<open>Reads and writes\<close>

text \<open>A block written through \<open>blkdev_write\<close> is what \<open>blkdev_read\<close> returns afterwards, and the
  write changes no other block, whatever the cache holds and whether or not it is full.\<close>
theorem blkdev_read_after_write:
  assumes "dev_ok dev" "ucast b < bd_total_blocks dev" "ucast c < bd_total_blocks dev"
    and "length data = BLOCK_SIZE" "\<not> dev_faulty dev b" "\<not> dev_faulty dev c"
  shows "\<exists>dev1 dev2. blkdev_write dev b data = Some (0, dev1) \<and>
     blkdev_read dev1 c = Some (Inr (if c = b then data else dev_view dev c), dev2) \<and>
     dev_ok dev2 \<and> dev_view dev2 = (dev_view dev)(b := data)"
proof -
  from blkdev.wr_law [OF assms(1,2,4)] assms(5) obtain dev1 where
    w: "blkdev_write dev b data = Some (0, dev1)" "dev_ok dev1" "dev_static dev dev1"
      "dev_view dev1 = (dev_view dev)(b := data)" by (auto split: if_splits)
  have "ucast c < bd_total_blocks dev1" "\<not> dev_faulty dev1 c"
    using assms(3,6) blkdev.same_bound [OF w(3)] blkdev.same_faulty [OF w(3)] by simp_all
  with blkdev.rd_law [OF w(2) this(1)] w show ?thesis by fastforce
qed

theorem blkdev_read_after_write_witness:
  "\<exists>dev1 dev2. blkdev_write blank_dev 5 ones = Some (0, dev1) \<and>
     blkdev_read dev1 5 = Some (Inr ones, dev2) \<and> dev_ok dev2 \<and>
     dev_view dev2 = (dev_view blank_dev)(5 := ones)"
  using blkdev_read_after_write [of blank_dev 5 5 ones] by simp

text \<open>A read in range returns the current contents of the block, the valid cached copy if
  there is one and the disk otherwise; it fails with \<open>-EIO\<close> exactly when the block is not cached
  valid and the disk cannot read it; and it changes neither the disk nor the contents of any block.\<close>
theorem blkdev_read_correct:
  assumes "dev_coherent dev" "ucast block < bd_total_blocks dev"
  shows "\<exists>dev'. blkdev_read dev block =
       Some (if readable dev block then Inr (dev_view dev block) else Inl (- EIO), dev') \<and>
     dev_coherent dev' \<and> dev_view dev' = dev_view dev \<and> dev_static dev dev' \<and>
     bd_disk dev' = bd_disk dev \<and> (dev_ok dev \<longrightarrow> dev_ok dev')"
  by (rule blkdev_read_spec [OF assms])

theorem blkdev_read_correct_witness:
  "\<exists>dev'. blkdev_read blank_dev 5 = Some (Inr zeros, dev') \<and> dev_ok dev'"
  using blkdev_read_correct [of blank_dev 5] by (auto simp: readable_def)

text \<open>Block numbers at or beyond the device size are refused with \<open>-EINVAL\<close> by both reads and
  writes, and the refusal has no effect.\<close>
theorem blkdev_out_of_range:
  assumes "bd_total_blocks dev \<le> ucast block"
  shows "blkdev_read dev block = Some (Inl (- EINVAL), dev) \<and> blkdev_write dev block data = Some (- EINVAL, dev)"
  using blkdev_read_range [OF assms] blkdev_write_range [OF assms] by simp

theorem blkdev_out_of_range_witness:
  "blkdev_read blank_dev 1024 = Some (Inl (- EINVAL), blank_dev) \<and>
   blkdev_write blank_dev 1024 ones = Some (- EINVAL, blank_dev)"
  using blkdev_out_of_range [of blank_dev 1024 ones] by simp

text \<open>C17: write-back.  \<open>blkdev_sync\<close> never changes what readers see; it returns 0 exactly when every
  dirty block could be written and \<open>fsync\<close> succeeds, and then the disk holds the contents readers
  see and no buffer is dirty.\<close>
theorem blkdev_sync_correct:
  assumes "dev_coherent dev"
  shows "\<exists>rc dev'. blkdev_sync dev = Some (rc, dev') \<and> dev_coherent dev' \<and> (dev_ok dev \<longrightarrow> dev_ok dev') \<and>
     dev_static dev dev' \<and> dev_view dev' = dev_view dev \<and> (rc = 0 \<or> rc = - EIO) \<and>
     (rc = 0 \<longleftrightarrow> syncable dev \<and> \<not> dk_fsync_bad (bd_disk dev)) \<and>
     (syncable dev \<longrightarrow> dk_blocks (bd_disk dev') = dev_view dev \<and>
        (\<forall>b x. cells (bd_cache dev') b = Some x \<longrightarrow> \<not> cl_dirty x))"
  by (rule blkdev_sync_spec [OF assms])

theorem blkdev_sync_correct_witness:
  "\<exists>dev'. blkdev_sync blank_dev = Some (0, dev') \<and> dk_blocks (bd_disk dev') = dk_blocks blank_disk"
  using blkdev_sync_correct [of blank_dev] by auto

text \<open>C18: durability through a clean close: after a write, \<open>blkdev_close\<close> leaves the data on the disk
  and frees every buffer of the cache.\<close>
theorem blkdev_write_close_durable:
  assumes "dev_ok dev" "ucast b < bd_total_blocks dev" "length data = BLOCK_SIZE"
    and "\<And>b. \<not> dk_write_bad (bd_disk dev) b"
  shows "\<exists>dev1 d c. blkdev_write dev b data = Some (0, dev1) \<and> blkdev_close dev1 = Some (d, c) \<and>
     dk_blocks d = (dev_view dev)(b := data) \<and> bc_heap c = Map.empty"
proof -
  have "writable dev b" using assms(4) by (simp add: writable_def)
  with blkdev_write_spec [OF assms(1-3)] obtain dev1 where
    w: "blkdev_write dev b data = Some (0, dev1)" "dev_ok dev1" "dev_static dev dev1"
      "dev_view dev1 = (dev_view dev)(b := data)" by auto
  have "syncable dev1" using w(3) assms(4) by (simp add: syncable_def dev_static_def split: option.split)
  with blkdev_close_spec [OF dev_ok_coherent [OF w(2)]] w show ?thesis by auto
qed

theorem blkdev_write_close_durable_witness:
  "\<exists>dev1 d c. blkdev_write blank_dev 9 ones = Some (0, dev1) \<and> blkdev_close dev1 = Some (d, c) \<and>
     dk_blocks d = (dk_blocks blank_disk)(9 := ones) \<and> bc_heap c = Map.empty"
  using blkdev_write_close_durable [of blank_dev 9 ones] by simp

text \<open>Opening a device whose blocks can be read gives an empty, well-formed cache over the disk;
  the number of blocks is the size of the file in whole blocks.\<close>
theorem blkdev_open_correct:
  assumes "\<And>b. length (dk_blocks d b) = BLOCK_SIZE"
  shows "\<exists>dev. blkdev_open (Some (d, size_bytes)) False False = Some dev \<and> dev_ok dev \<and>
     bd_disk dev = d \<and> dev_view dev = dk_blocks d \<and> bd_total_blocks dev = size_bytes div 4096 \<and>
     bd_superblock dev = None \<and> has_room (bd_cache dev)"
  by (rule blkdev_open_ok [OF assms])

theorem blkdev_open_correct_witness:
  "\<exists>dev. blkdev_open (Some (blank_disk, 40960)) False False = Some dev \<and> dev_ok dev \<and> bd_total_blocks dev = 10"
  using blkdev_open_correct [of blank_disk 40960] by auto

section \<open>The buffer cache\<close>

text \<open>C19: a cache lookup refines a map with a recency list: a hit returns a handle on the buffer of
  that block, takes one reference and moves the block to the front of the list; a miss returns no
  buffer and changes only the miss counter.\<close>
theorem buffer_cache_lookup_correct:
  assumes "cache_repr c bs"
  shows "case cells c block of
      Some x \<Rightarrow> \<exists>a c'. buffer_cache_lookup c block = Some (Some a, c') \<and> holds c' a block \<and>
        cache_repr c' (block # remove1 block bs) \<and> same_config c c' \<and>
        cells c' = (cells c)(block \<mapsto> x\<lparr>cl_ref := cl_ref x + 1\<rparr>)
    | None \<Rightarrow> buffer_cache_lookup c block = Some (None, c\<lparr>bc_miss_count := bc_miss_count c + 1\<rparr>)"
  using buffer_cache_lookup_hit [OF assms] buffer_cache_lookup_miss [OF assms] by (fastforce split: option.split)

theorem buffer_cache_lookup_correct_witness:
  "buffer_cache_lookup tiny_cache 7 = Some (None, tiny_cache\<lparr>bc_miss_count := bc_miss_count tiny_cache + 1\<rparr>)"
  using buffer_cache_lookup_correct [of tiny_cache "[]" 7] by simp

text \<open>An insertion overwrites the copy of a block that is present and takes a reference on it,
  adds a clean buffer with one reference when there is room, and otherwise refuses without any effect;
  the recency list grows at its front and never exceeds the capacity.\<close>
theorem buffer_cache_insert_correct:
  assumes "cache_repr c bs" "length data = BLOCK_SIZE"
  shows "\<exists>p c'. buffer_cache_insert c block data = Some (p, c') \<and> same_config c c' \<and>
    (case cells c block of
      Some x \<Rightarrow> (\<exists>a. p = Some a \<and> holds c' a block) \<and> cache_repr c' (block # remove1 block bs) \<and>
        cells c' = (cells c)(block \<mapsto> x\<lparr>cl_data := data, cl_valid := True, cl_ref := cl_ref x + 1\<rparr>)
    | None \<Rightarrow>
        if \<not> bc_oom c \<and> length bs < unat (bc_max_buffers c)
        then (\<exists>a. p = Some a \<and> holds c' a block) \<and> cache_repr c' (block # bs) \<and>
          cells c' = (cells c)(block \<mapsto> \<lparr>cl_data = data, cl_dirty = False, cl_valid = True, cl_ref = 1\<rparr>)
        else p = None \<and> c' = c)"
proof (cases "cells c block")
  case (Some x)
  from buffer_cache_insert_present [OF assms(1) Some assms(2)] Some show ?thesis by auto
next
  case None
  show ?thesis
  proof (cases "\<not> bc_oom c \<and> length bs < unat (bc_max_buffers c)")
    case True
    with buffer_cache_insert_fresh [OF assms(1) None _ _ assms(2)] None show ?thesis by auto
  next
    case False
    then have "buffer_cache_insert c block data = Some (None, c)"
      by (intro buffer_cache_insert_refused [OF assms(1) None]) auto
    with False None show ?thesis by auto
  qed
qed

theorem buffer_cache_insert_correct_witness:
  "\<exists>a c'. buffer_cache_insert tiny_cache 7 ones = Some (Some a, c') \<and> cache_repr c' [7]"
  using buffer_cache_insert_correct [of tiny_cache "[]" ones 7] by auto

text \<open>Eviction removes the least recently used buffer nobody references, writing it back first
  if it is dirty, and keeps every other buffer; it fails without effect when every buffer is
  referenced or the write-back fails.\<close>
theorem evict_lru_buffer_correct:
  assumes "cache_repr c bs"
  shows "case victim (cells c) bs of
     None \<Rightarrow> evict_lru_buffer c d = Some (- ENOMEM, c, d)
   | Some v \<Rightarrow> \<exists>x. cells c v = Some x \<and> v \<in> set bs \<and> cl_ref x = 0 \<and>
       (case with_write d v x of
          None \<Rightarrow> evict_lru_buffer c d = Some (- EIO, c, d)
        | Some d' \<Rightarrow> \<exists>c'. evict_lru_buffer c d = Some (0, c', d') \<and> cache_repr c' (remove1 v bs) \<and>
            cells c' = (cells c)(v := None) \<and> same_config c c' \<and> bc_evict_count c' = bc_evict_count c + 1)"
  by (rule evict_lru_buffer_repr [OF assms])

theorem evict_lru_buffer_correct_witness:
  "evict_lru_buffer tiny_cache blank_disk = Some (- ENOMEM, tiny_cache, blank_disk)"
  using evict_lru_buffer_correct [of tiny_cache "[]" blank_disk] by (simp add: victim_def)

text \<open>Destroying a well-formed cache terminates and frees every buffer exactly once.\<close>
theorem buffer_cache_destroy_correct:
  assumes "cache_repr c bs"
  shows "\<exists>c'. buffer_cache_destroy c = Some c' \<and> bc_heap c' = Map.empty"
  by (rule buffer_cache_destroy_repr [OF assms])

theorem buffer_cache_destroy_correct_witness:
  "\<exists>c'. buffer_cache_destroy tiny_cache = Some c' \<and> bc_heap c' = Map.empty"
  using buffer_cache_destroy_correct [of tiny_cache "[]"] by simp

text \<open>Invalidating a block drops its cached copy and its dirty mark, so that readers see the disk
  again; every other block and the disk are untouched.\<close>
theorem invalidate_correct:
  assumes "dev_coherent dev"
  shows "\<exists>dev'. c_buffer_cache_invalidate_by_fd (Some dev) block = Some (Some dev') \<and> dev_coherent dev' \<and>
     dev_static dev dev' \<and> bd_disk dev' = bd_disk dev \<and>
     dev_view dev' = (dev_view dev)(block := dk_blocks (bd_disk dev) block) \<and>
     cells (bd_cache dev') = (cells (bd_cache dev))
       (block := map_option (\<lambda>x. x\<lparr>cl_valid := False, cl_dirty := False\<rparr>) (cells (bd_cache dev) block))"
  by (rule invalidate_spec [OF assms])

theorem invalidate_correct_witness:
  "\<exists>dev'. c_buffer_cache_invalidate_by_fd (Some blank_dev) 5 = Some (Some dev') \<and> dev_view dev' 5 = zeros"
  using invalidate_correct [of blank_dev 5] by auto

text \<open>A write to a block whose cached copy was invalidated is lost.  \<open>blkdev_write\<close> overwrites the
  buffer and marks it dirty but does not mark it valid, so the next \<open>blkdev_read\<close> reloads the old
  contents from the disk over it.\<close>
theorem invalidated_write_lost:
  assumes "dev_coherent dev" "ucast block < bd_total_blocks dev" "length data = BLOCK_SIZE"
    and "cells (bd_cache dev) block \<noteq> None" "\<not> dk_read_bad (bd_disk dev) block"
  shows "\<exists>dev1 dev2 dev3. c_buffer_cache_invalidate_by_fd (Some dev) block = Some (Some dev1) \<and>
     blkdev_write dev1 block data = Some (0, dev2) \<and>
     blkdev_read dev2 block = Some (Inr (dk_blocks (bd_disk dev) block), dev3)"
proof -
  obtain dev1 where 1: "c_buffer_cache_invalidate_by_fd (Some dev) block = Some (Some dev1)" "dev_coherent dev1"
    "dev_static dev dev1" "bd_disk dev1 = bd_disk dev"
    "cells (bd_cache dev1) = (cells (bd_cache dev))
       (block := map_option (\<lambda>x. x\<lparr>cl_valid := False, cl_dirty := False\<rparr>) (cells (bd_cache dev) block))"
    using invalidate_spec [OF assms(1), of block] by auto
  from assms(4) obtain x where "cells (bd_cache dev) block = Some x" by auto
  then have x: "cells (bd_cache dev1) block = Some (x\<lparr>cl_valid := False, cl_dirty := False\<rparr>)" by (simp add: 1(5))
  have b: "ucast block < bd_total_blocks dev1" using 1(3) assms(2) by (simp add: dev_static_def)
  from write_after_invalidate_lost [OF dev_coherent_wf [OF 1(2)] b x _ assms(3)] 1(1,4) assms(5)
  show ?thesis by auto
qed

theorem invalidated_write_lost_witness:
  "\<exists>dev1 dev2 dev3. c_buffer_cache_invalidate_by_fd (Some warm_dev) 10 = Some (Some dev1) \<and>
     blkdev_write dev1 10 ones = Some (0, dev2) \<and> blkdev_read dev2 10 = Some (Inr zeros, dev3)"
  using invalidated_write_lost [of warm_dev 10 ones] by simp



end
