(* ===== verification/Alloc_Properties.thy ===== *)
theory Alloc_Properties
  imports Instances Superblock_Spec
begin

text \<open>
  The properties of the superblock layout and of the block allocator, each stated over the model of
  the C functions.
\<close>

section \<open>Superblock\<close>

text \<open>C21: for 268 blocks or more the layout \<open>superblock_init\<close> computes tiles the device: superblock,
  journal, inode bitmap, data bitmap, inode table and data region follow each other without gap or
  overlap and end at the last block, the inode bitmap and table hold every inode, and the data region
  is not empty.\<close>
theorem superblock_init_layout:
  assumes "268 \<le> unat t" "unat t + 32768 \<le> 2 ^ 32" "sb = superblock_init t m w"
  shows "tiles sb \<and> inodes_fit sb \<and> 0 < unat (sb_data_blocks sb) \<and> 1 \<le> unat (sb_data_bitmap_blocks sb) \<and>
     (unat t \<le> 2 ^ 22 \<longrightarrow> unat (sb_data_blocks sb) \<le> 32768 * unat (sb_data_bitmap_blocks sb) + 1) \<and>
     superblock_validate sb = 0"
proof -
  have "superblock_validate sb = 0"
    by (simp add: assms(3) superblock_validate_iff superblock_init_def Let_def)
  then show ?thesis
    using superblock_init_tiles [OF assms(1,2)] superblock_init_sizes [OF assms] assms(3) by simp
qed

theorem superblock_init_layout_witness:
  "tiles (superblock_init 8192 0 0) \<and> inodes_fit (superblock_init 8192 0 0)"
  using superblock_init_layout [of 8192 "superblock_init 8192 0 0" 0 0] by simp

text \<open>The two passes of \<open>superblock_init\<close> can leave the data bitmap one block short: at 34828
  blocks the second pass shrinks the bitmap to one block while the data region has 32769, so the last
  data block has no bit in the bitmap.\<close>
theorem superblock_init_bitmap_short:
  "32768 * unat (sb_data_bitmap_blocks (superblock_init 34828 m w)) <
     unat (sb_data_blocks (superblock_init 34828 m w))"
  by (simp add: superblock_init_34828)

text \<open>Below that size the 32-bit subtraction wraps: at 256 blocks the metadata does not fit,
  \<open>superblock_init\<close> still succeeds, \<open>superblock_validate\<close> accepts the result, and it claims more than
  four billion data blocks and no data bitmap.\<close>
theorem superblock_init_underflow:
  "sb_data_blocks (superblock_init 256 m w) = 4294967286 \<and>
   sb_data_bitmap_blocks (superblock_init 256 m w) = 0 \<and> superblock_validate (superblock_init 256 m w) = 0"
  by (simp add: superblock_init_256 superblock_validate_iff) (simp add: superblock_init_def Let_def)

text \<open>A superblock written with \<open>superblock_write\<close> reaches the disk and is read back by
  \<open>superblock_read\<close> with every field equal; no other block changes.\<close>
theorem superblock_write_read:
  assumes "dev_ok dev" "0 < bd_total_blocks dev" "superblock_wf sb"
    and "\<And>b. \<not> dk_write_bad (bd_disk dev) b" "\<not> dk_fsync_bad (bd_disk dev)" "\<not> dk_read_bad (bd_disk dev) 0"
  shows "\<exists>dev1 dev2. superblock_write dev sb = Some (0, dev1) \<and> superblock_read dev1 = Some (Inr sb, dev2) \<and>
     dk_blocks (bd_disk dev1) = (dev_view dev)(0 := sb_block sb) \<and> dev_ok dev2"
proof -
  obtain dev1 where 1: "superblock_write dev sb = Some (0, dev1)" "dev_ok dev1" "dev_static dev dev1"
    "dev_view dev1 = (dev_view dev)(0 := sb_block sb)" "dk_blocks (bd_disk dev1) = dev_view dev1"
    using superblock_write_spec [OF assms(1-3)] assms(4,5) by auto
  have "0 < bd_total_blocks dev1" "\<not> dk_read_bad (bd_disk dev1) 0"
    using 1(3) assms(2,6) by (simp_all add: dev_static_def)
  with superblock_read_spec [OF 1(2)] 1 show ?thesis
    by (auto simp: decode_sb_block [OF assms(3)])
qed

theorem superblock_write_read_witness:
  "\<exists>dev1 dev2. superblock_write blank_dev (superblock_init 1024 0 0) = Some (0, dev1) \<and>
     superblock_read dev1 = Some (Inr (superblock_init 1024 0 0), dev2)"
  using superblock_write_read [of blank_dev "superblock_init 1024 0 0"] by auto

text \<open>\<open>blkdev_load_superblock\<close> accepts block 0 exactly when its first word is the magic number and
  then keeps its decoded fields; otherwise it returns \<open>-EINVAL\<close> and keeps none.\<close>
theorem blkdev_load_superblock_correct:
  assumes "dev_ok dev" "0 < bd_total_blocks dev" "\<not> bd_oom dev" "\<not> dk_read_bad (bd_disk dev) 0"
  shows "\<exists>dev'. dev_ok dev' \<and> dev_view dev' = dev_view dev \<and>
     (let sb = decode_superblock (slice 0 sizeof_superblock (dev_view dev 0)) in
      if sb_magic sb = SUPERBLOCK_MAGIC
      then blkdev_load_superblock dev = Some (0, dev') \<and> bd_superblock dev' = Some sb
      else blkdev_load_superblock dev = Some (- EINVAL, dev') \<and> bd_superblock dev' = None)"
  by (rule blkdev_load_superblock_spec [OF assms])

theorem blkdev_load_superblock_correct_witness:
  "\<exists>dev'. blkdev_load_superblock blank_dev = Some (- EINVAL, dev') \<and> bd_superblock dev' = None"
proof -
  have "slice 0 4 (slice 0 sizeof_superblock zeros) = replicate 4 (0 :: byte)"
    by (simp add: slice_def)
  then have "sb_magic (decode_superblock (slice 0 sizeof_superblock zeros)) = 0"
    by (simp add: decode_superblock_def numeral_eq_Suc)
  then show ?thesis using blkdev_load_superblock_correct [of blank_dev] by (auto simp: Let_def)
qed



section \<open>The block allocator\<close>

text \<open>C23: \<open>block_alloc\<close> returns the lowest-numbered free data block, marks exactly that block and
  keeps the free count equal to the number of free blocks; when none is free it returns 0, which is
  never a data block, and changes nothing.\<close>
theorem block_alloc_correct:
  assumes "alloc_wf alc"
  shows "\<exists>b alc'. block_alloc alc = Some (b, alc') \<and> alloc_wf alc' \<and> alloc_static alc alc' \<and>
     (if pool alc \<subseteq> allocated alc then b = 0 \<and> alc' = alc
      else b \<in> pool alc - allocated alc \<and> (\<forall>x \<in> pool alc - allocated alc. b \<le> x) \<and> b \<noteq> 0 \<and>
        allocated alc' = insert b (allocated alc) \<and>
        unat (ba_free_blocks alc') = card (pool alc - allocated alc'))"
  using block_alloc_spec [OF assms] free_blocks_card zero_not_pool [OF assms]
  by (fastforce simp: alloc_static_pool split: if_splits)

theorem block_alloc_correct_witness:
  "\<exists>b alc'. block_alloc used_alloc = Some (b, alc') \<and> b = 12"
proof -
  have m: "12 \<in> pool used_alloc - allocated used_alloc" by simp
  then have ns: "\<not> pool used_alloc \<subseteq> allocated used_alloc" by blast
  obtain b alc' where b: "block_alloc used_alloc = Some (b, alc')"
    "b \<in> pool used_alloc - allocated used_alloc" "\<forall>x \<in> pool used_alloc - allocated used_alloc. b \<le> x"
    using block_alloc_correct [of used_alloc] ns by (simp only: if_False used_alloc_wf) blast
  with m have "b \<in> pool used_alloc" "b \<notin> allocated used_alloc" "b \<le> 12" by blast+
  then have "10 \<le> unat b" "unat b \<le> 12" "b \<noteq> 10" "b \<noteq> 11"
    using in_used_alloc by (auto simp: word_le_nat_alt)
  then have "unat b = 12" by (auto simp: word_unat_eq_iff)
  then have "b = 12" by (simp add: word_unat_eq_iff)
  then show ?thesis using b(1) by blast
qed

text \<open>\<open>block_free\<close> releases exactly the given block if it is allocated; a block outside the data
  region or already free (a double free) is refused with \<open>-EINVAL\<close> and nothing changes.\<close>
theorem block_free_correct:
  assumes "alloc_wf alc"
  shows "\<exists>alc'. block_free alc b = Some (if b \<in> allocated alc then 0 else - EINVAL, alc') \<and>
     alloc_wf alc' \<and> alloc_static alc alc' \<and> allocated alc' = allocated alc - {b} \<and>
     (b \<notin> allocated alc \<longrightarrow> alc' = alc)"
  by (rule block_free_spec [OF assms])

theorem block_free_correct_witness:
  "(\<exists>alc'. block_free used_alloc 10 = Some (0, alc') \<and> allocated alc' = allocated used_alloc - {10}) \<and>
   block_free used_alloc 12 = Some (- EINVAL, used_alloc)"
  using block_free_correct [of used_alloc 10] block_free_correct [of used_alloc 12] by auto

text \<open>Freeing the block just allocated restores the set of allocated blocks and the free count,
  and freeing it once more is detected.\<close>
theorem block_alloc_free_roundtrip:
  assumes "alloc_wf alc" "\<not> pool alc \<subseteq> allocated alc"
  shows "\<exists>b alc1 alc2. block_alloc alc = Some (b, alc1) \<and> block_free alc1 b = Some (0, alc2) \<and>
     allocated alc2 = allocated alc \<and> ba_free_blocks alc2 = ba_free_blocks alc \<and> alloc_wf alc2 \<and>
     block_free alc2 b = Some (- EINVAL, alc2)"
proof -
  obtain b alc1 where a: "block_alloc alc = Some (b, alc1)" "alloc_wf alc1" "alloc_static alc alc1"
    "b \<in> pool alc - allocated alc" "allocated alc1 = insert b (allocated alc)"
    using block_alloc_spec [OF assms(1)] assms(2) by auto
  then obtain alc2 where f: "block_free alc1 b = Some (0, alc2)" "alloc_wf alc2" "alloc_static alc1 alc2"
    "allocated alc2 = allocated alc" using block_free_spec [OF a(2), of b] by auto
  have "unat (ba_free_blocks alc2) = unat (ba_free_blocks alc)"
    using free_blocks_card [OF f(2)] free_blocks_card [OF assms(1)] f(3,4) a(3)
    by (simp add: alloc_static_pool [OF f(3)] alloc_static_pool [OF a(3)])
  moreover have "block_free alc2 b = Some (- EINVAL, alc2)"
    using block_free_spec [OF f(2), of b] f(4) a(4) by auto
  ultimately show ?thesis using a(1) f(1,2,4)
    by - (rule exI [of _ b], rule exI [of _ alc1], rule exI [of _ alc2], simp add: word_unat_eq_iff)
qed

theorem block_alloc_free_roundtrip_witness:
  "\<exists>b alc1 alc2. block_alloc empty_alloc = Some (b, alc1) \<and> block_free alc1 b = Some (0, alc2) \<and> allocated alc2 = {}"
proof -
  have "10 \<in> pool empty_alloc" by simp
  then show ?thesis using block_alloc_free_roundtrip [of empty_alloc] by fastforce
qed

text \<open>\<open>block_alloc_multiple\<close> is first fit: it returns the lowest position where a whole run of
  the requested length is free, marks exactly that run, and reports \<open>-ENOSPC\<close> without effect only
  when there is no such run.\<close>
theorem block_alloc_multiple_correct:
  assumes "alloc_wf alc" "0 < count"
  shows "\<exists>r alc'. block_alloc_multiple alc count = Some (r, alc') \<and> alloc_wf alc' \<and> alloc_static alc alc' \<and>
     (case r of
        Inl e \<Rightarrow> e = - ENOSPC \<and> alc' = alc \<and> (\<forall>b. \<not> run_free_at alc count b)
      | Inr (start, n) \<Rightarrow> n = count \<and> run_free_at alc count start \<and>
          (\<forall>b. run_free_at alc count b \<longrightarrow> start \<le> b) \<and>
          allocated alc' = allocated alc \<union> block_run start count)"
  by (rule block_alloc_multiple_spec [OF assms])

theorem block_alloc_multiple_correct_witness:
  "\<exists>r alc'. block_alloc_multiple used_alloc 3 = Some (r, alc') \<and> alloc_wf alc'"
  using block_alloc_multiple_correct [of used_alloc 3] by auto

text \<open>As long as \<open>start + count\<close> does not wrap, \<open>block_free_multiple\<close> frees the run exactly when
  every block of it is allocated, and otherwise refuses with \<open>-EINVAL\<close> and changes nothing, not even
  the allocated part of the run.\<close>
theorem block_free_multiple_correct:
  assumes "alloc_wf alc" "0 < count" "unat start + unat count < 2 ^ 32"
  shows "\<exists>alc'. block_free_multiple alc start count =
       Some (if block_run start count \<subseteq> allocated alc then 0 else - EINVAL, alc') \<and>
     alloc_wf alc' \<and> alloc_static alc alc' \<and>
     (if block_run start count \<subseteq> allocated alc then allocated alc' = allocated alc - block_run start count
      else alc' = alc)"
  by (rule block_free_multiple_spec [OF assms])

theorem block_free_multiple_correct_witness:
  "block_free_multiple used_alloc 11 2 = Some (- EINVAL, used_alloc)"
proof -
  have "12 \<in> block_run 11 2" "12 \<notin> allocated used_alloc" by (simp_all add: block_run_def)
  then have "\<not> block_run 11 2 \<subseteq> allocated used_alloc" by blast
  then show ?thesis using block_free_multiple_correct [of used_alloc 2 11] by auto
qed

text \<open>When \<open>start + count\<close> wraps around 32 bits the range check of \<open>block_free_multiple\<close> passes:
  on an allocator whose bitmap is full, a start inside the data region and a count that wraps the sum
  make the check read past the end of the bitmap.\<close>
theorem block_free_multiple_wrap:
  assumes "alloc_wf alc" "start \<in> pool alc" "2 ^ 32 \<le> unat start + unat count"
    and "\<And>k. k < 8 * length (ba_bitmap alc) \<Longrightarrow> bits (ba_bitmap alc) k"
    and "8 * length (ba_bitmap alc) < 2 ^ 32 - unat start" "8 * length (ba_bitmap alc) < unat count"
  shows "block_free_multiple alc start count = None"
proof -
  let ?base = "start - ba_data_start alc"
  have s: "ba_data_start alc \<le> start" and
    top: "unat start < unat (ba_data_start alc) + unat (ba_total_blocks alc)"
    using assms(2) by (auto simp: pool_def)
  have nz: "count \<noteq> 0" using assms(6) by auto
  have sum: "unat (ba_data_start alc + ba_total_blocks alc) = unat (ba_data_start alc) + unat (ba_total_blocks alc)"
    using assms(1) by (simp add: alloc_wf_def unat_word_ariths)
  have wrap: "unat (start + count) + 2 ^ 32 = unat start + unat count"
    using assms(3) unsigned_less [of start, where ?'a = nat] unsigned_less [of count, where ?'a = nat]
    by (simp add: unat_word_ariths le_mod_geq)
  then have "unat (start + count) < unat start"
    using unsigned_less [of count, where ?'a = nat] by simp
  then have "start + count \<le> ba_data_start alc + ba_total_blocks alc"
    using top sum by (simp add: word_le_nat_alt)
  moreover have base: "unat ?base = unat start - unat (ba_data_start alc)"
    using s by (simp add: unat_sub word_le_nat_alt)
  have "test_range (ba_bitmap alc) ?base count 0 = None"
    by (rule test_range_overrun)
       (use assms(1,4,5,6) top base nz in \<open>auto simp: alloc_wf_def word_gt_0\<close>)
  ultimately show ?thesis using s nz
    by (simp add: block_free_multiple_def linorder_not_le [symmetric] linorder_not_less)
qed

theorem block_free_multiple_wrap_witness:
  "block_free_multiple full_alloc 12 0xFFFFFFFF = None"
  by (rule block_free_multiple_wrap) (simp_all add: pool_def)

text \<open>\<open>block_is_allocated\<close> answers whether the block is in the allocated set, for any block
  number whatever, without reading outside the bitmap.\<close>
theorem block_is_allocated_correct:
  assumes "alloc_wf alc"
  shows "block_is_allocated alc b = Some (b \<in> allocated alc)"
  by (rule block_is_allocated_spec [OF assms])

theorem block_is_allocated_correct_witness:
  "block_is_allocated used_alloc 11 = Some True \<and> block_is_allocated used_alloc 12 = Some False"
  using block_is_allocated_correct [of used_alloc 11] block_is_allocated_correct [of used_alloc 12] by simp

text \<open>\<open>block_alloc_init\<close> loads the bitmap of the device into a well-formed allocator whose free
  count is the number of clear bits; it fails only on a block the device cannot read, and it changes
  no block.\<close>
theorem block_alloc_init_correct:
  assumes "dev_ok dev" "run_ok (bd_total_blocks dev) bitmap_start (unat bitmap_blocks)"
    and "unat total_blocks \<le> 32768 * unat bitmap_blocks"
    and "unat data_start + unat total_blocks < 2 ^ 32" "0 < data_start"
  shows "\<exists>r dev'. block_alloc_init False dev bitmap_start bitmap_blocks data_start total_blocks = Some (r, dev') \<and>
     dev_ok dev' \<and> dev_static dev dev' \<and> dev_view dev' = dev_view dev \<and>
     (case r of None \<Rightarrow> \<exists>j < unat bitmap_blocks. dev_faulty dev (bitmap_start + of_nat j)
      | Some alc \<Rightarrow> alloc_wf alc \<and> view_run dev bitmap_start (unat bitmap_blocks) (ba_bitmap alc) \<and>
          ba_data_start alc = data_start \<and> ba_total_blocks alc = total_blocks \<and>
          ba_bitmap_start alc = bitmap_start \<and> ba_bitmap_blocks alc = bitmap_blocks)"
  by (rule block_alloc_init_spec [OF assms])

theorem block_alloc_init_correct_witness:
  "\<exists>alc dev'. block_alloc_init False blank_dev 2 1 10 8 = Some (Some alc, dev') \<and> alloc_wf alc"
  using block_alloc_init_correct [of blank_dev 2 1 8 10] by (auto simp: run_ok_def split: option.splits)

text \<open>A bitmap written by \<open>block_alloc_sync\<close> and loaded again by \<open>block_alloc_init\<close> describes the
  same set of allocated blocks and the same free count.\<close>
theorem block_alloc_sync_init_roundtrip:
  assumes "dev_ok dev" "run_ok (bd_total_blocks dev) (ba_bitmap_start alc) (unat (ba_bitmap_blocks alc))"
    and "alloc_wf alc" "length (ba_bitmap alc) = unat (ba_bitmap_blocks alc) * 4096"
    and "\<And>j. j < unat (ba_bitmap_blocks alc) \<Longrightarrow> \<not> dev_faulty dev (ba_bitmap_start alc + of_nat j)"
  shows "\<exists>dev1 dev2 alc'. block_alloc_sync alc dev = Some (0, dev1) \<and>
     block_alloc_init False dev1 (ba_bitmap_start alc) (ba_bitmap_blocks alc) (ba_data_start alc) (ba_total_blocks alc) =
       Some (Some alc', dev2) \<and> alloc_wf alc' \<and> allocated alc' = allocated alc \<and> pool alc' = pool alc \<and>
     ba_free_blocks alc' = ba_free_blocks alc"
  by (rule block_alloc_sync_init [OF assms])

theorem block_alloc_sync_init_roundtrip_witness:
  "\<exists>dev1 dev2 alc'. block_alloc_sync used_alloc blank_dev = Some (0, dev1) \<and>
     block_alloc_init False dev1 2 1 10 8 = Some (Some alc', dev2) \<and> allocated alc' = allocated used_alloc"
  using block_alloc_sync_init_roundtrip [of blank_dev used_alloc] by (auto simp: run_ok_def)

end
