(* ===== verification/Inode_Cache.thy ===== *)
theory Inode_Cache
  imports Links Bitmap Block_Alloc
begin

text \<open>
  \<open>src/inode.c\<close>, the cache half: a fixed pool of in-memory inodes threaded on an LRU list and on
  hash chains, the inode bitmap, and the inode table on the device.  The cache's \<open>dev\<close> and
  \<open>balloc\<close> pointers are fields holding the objects, so the whole file-system state below the
  directories is one \<open>inode_cache\<close>.  Locks are not modelled.  \<open>ic_oom\<close> makes the \<open>malloc\<close> calls fail.
\<close>

section \<open>State\<close>

record inode_mem =
  im_inum :: inode_t
  im_disk :: disk_inode
  im_ref_count :: int
  im_valid :: bool
  im_dirty :: bool
  im_prev :: "addr option"
  im_next :: "addr option"
  im_hash_next :: "addr option"

record inode_cache =
  ic_dev :: block_device
  ic_balloc :: block_allocator
  ic_sb :: superblock
  ic_inodes :: "addr \<Rightarrow> inode_mem option"
  ic_max_inodes :: u32
  ic_lru_head :: "addr option"
  ic_lru_tail :: "addr option"
  ic_hash_table :: "addr option list"
  ic_hash_size :: u32
  ic_inode_bitmap :: "byte list"
  ic_bitmap_blocks :: u32
  ic_oom :: bool

definition im_modify :: "inode_cache \<Rightarrow> addr \<Rightarrow> (inode_mem \<Rightarrow> inode_mem) \<Rightarrow> inode_cache option" where
  "im_modify c a f =
     (case ic_inodes c a of None \<Rightarrow> None
      | Some im \<Rightarrow> Some (c\<lparr>ic_inodes := (ic_inodes c)(a := Some (f im))\<rparr>))"

text \<open>Calls on the embedded device.\<close>

definition ic_read :: "inode_cache \<Rightarrow> block_t \<Rightarrow> ((int + byte list) \<times> inode_cache) option" where
  "ic_read c b = (case blkdev_read (ic_dev c) b of None \<Rightarrow> None
     | Some (r, d) \<Rightarrow> Some (r, c\<lparr>ic_dev := d\<rparr>))"

definition ic_write :: "inode_cache \<Rightarrow> block_t \<Rightarrow> byte list \<Rightarrow> (int \<times> inode_cache) option" where
  "ic_write c b data = (case blkdev_write (ic_dev c) b data of None \<Rightarrow> None
     | Some (r, d) \<Rightarrow> Some (r, c\<lparr>ic_dev := d\<rparr>))"

section \<open>LRU list and hash table\<close>

definition inode_hash :: "inode_t \<Rightarrow> u32 \<Rightarrow> nat" where
  "inode_hash inum hash_size = unat (inum mod hash_size)"

definition inode_lru_remove :: "inode_cache \<Rightarrow> addr \<Rightarrow> inode_cache option" where
  "inode_lru_remove c a = do {
     b \<leftarrow> ic_inodes c a;
     c \<leftarrow> (case im_prev b of
            Some q \<Rightarrow> im_modify c q (im_next_update (\<lambda>_. im_next b))
          | None \<Rightarrow> Some (c\<lparr>ic_lru_head := im_next b\<rparr>));
     b \<leftarrow> ic_inodes c a;
     c \<leftarrow> (case im_next b of
            Some q \<Rightarrow> im_modify c q (im_prev_update (\<lambda>_. im_prev b))
          | None \<Rightarrow> Some (c\<lparr>ic_lru_tail := im_prev b\<rparr>));
     im_modify c a (\<lambda>b. b\<lparr>im_next := None, im_prev := None\<rparr>)
   }"

definition inode_lru_push_front :: "inode_cache \<Rightarrow> addr \<Rightarrow> inode_cache option" where
  "inode_lru_push_front c a = do {
     c \<leftarrow> im_modify c a (\<lambda>b. b\<lparr>im_next := ic_lru_head c, im_prev := None\<rparr>);
     c \<leftarrow> (case ic_lru_head c of
            Some q \<Rightarrow> im_modify c q (im_prev_update (\<lambda>_. Some a))
          | None \<Rightarrow> Some (c\<lparr>ic_lru_tail := Some a\<rparr>));
     Some (c\<lparr>ic_lru_head := Some a\<rparr>)
   }"

definition ic_load_bucket :: "inode_cache \<Rightarrow> nat \<Rightarrow> addr option option" where
  "ic_load_bucket c h = (if h < length (ic_hash_table c) then Some (ic_hash_table c ! h) else None)"

definition inode_hash_insert :: "inode_cache \<Rightarrow> addr \<Rightarrow> inode_cache option" where
  "inode_hash_insert c a = do {
     b \<leftarrow> ic_inodes c a;
     let h = inode_hash (im_inum b) (ic_hash_size c);
     p \<leftarrow> ic_load_bucket c h;
     c \<leftarrow> im_modify c a (im_hash_next_update (\<lambda>_. p));
     Some (c\<lparr>ic_hash_table := (ic_hash_table c)[h := Some a]\<rparr>)
   }"

fun ic_load_slot :: "inode_cache \<Rightarrow> slot \<Rightarrow> addr option option" where
  "ic_load_slot c (Bucket h) = ic_load_bucket c h"
| "ic_load_slot c (HashNext a) = map_option im_hash_next (ic_inodes c a)"

fun ic_store_slot :: "inode_cache \<Rightarrow> slot \<Rightarrow> addr option \<Rightarrow> inode_cache option" where
  "ic_store_slot c (Bucket h) p =
     (if h < length (ic_hash_table c) then Some (c\<lparr>ic_hash_table := (ic_hash_table c)[h := p]\<rparr>) else None)"
| "ic_store_slot c (HashNext a) p = im_modify c a (im_hash_next_update (\<lambda>_. p))"

definition inode_hash_remove :: "inode_cache \<Rightarrow> addr \<Rightarrow> inode_cache option" where
  "inode_hash_remove c a = do {
     b \<leftarrow> ic_inodes c a;
     s \<leftarrow> slot_find (ic_load_slot c) a (Bucket (inode_hash (im_inum b) (ic_hash_size c)));
     p \<leftarrow> ic_load_slot c s;
     c \<leftarrow> (if p = Some a then ic_store_slot c s (im_hash_next b) else Some c);
     im_modify c a (im_hash_next_update (\<lambda>_. None))
   }"

definition ic_hash_next_of :: "inode_cache \<Rightarrow> addr \<Rightarrow> addr option" where
  "ic_hash_next_of c a = Option.bind (ic_inodes c a) im_hash_next"

definition inode_hash_lookup :: "inode_cache \<Rightarrow> inode_t \<Rightarrow> addr option option" where
  "inode_hash_lookup c inum = do {
     p \<leftarrow> ic_load_bucket c (inode_hash inum (ic_hash_size c));
     ptr_find (\<lambda>a. map_option (\<lambda>b. im_inum b = inum) (ic_inodes c a)) (ic_hash_next_of c) p
   }"

section \<open>Superblock copy and inode bitmap\<close>

text \<open>The superblock lands in the cache before its magic number is checked.\<close>

definition read_superblock :: "inode_cache \<Rightarrow> (int \<times> inode_cache) option" where
  "read_superblock c =
     (if ic_oom c then Some (MODERNFS_ERROR, c)
      else do {
        (r, c) \<leftarrow> ic_read c SUPERBLOCK_BLOCK;
        (case r of
           Inl _ \<Rightarrow> Some (MODERNFS_EIO, c)
         | Inr buf \<Rightarrow> do {
             bytes \<leftarrow> buf_read buf 0 sizeof_superblock;
             let c = c\<lparr>ic_sb := decode_superblock bytes\<rparr>;
             (if sb_magic (ic_sb c) \<noteq> SUPERBLOCK_MAGIC then Some (MODERNFS_EINVAL, c)
              else Some (MODERNFS_SUCCESS, c)) }) })"

definition load_inode_bitmap :: "inode_cache \<Rightarrow> (int \<times> inode_cache) option" where
  "load_inode_bitmap c =
     (let n = sb_inode_bitmap_blocks (ic_sb c); c = c\<lparr>ic_bitmap_blocks := n\<rparr> in
      if ic_oom c then Some (MODERNFS_ERROR, c\<lparr>ic_inode_bitmap := []\<rparr>)
      else do {
        (r, c) \<leftarrow> load_blocks ic_read c (sb_inode_bitmap_start (ic_sb c)) (replicate (unat (n * 4096)) 0) (upto32 n);
        (case r of
           Inl _ \<Rightarrow> Some (MODERNFS_EIO, c\<lparr>ic_inode_bitmap := []\<rparr>)
         | Inr bm \<Rightarrow> Some (MODERNFS_SUCCESS, c\<lparr>ic_inode_bitmap := bm\<rparr>)) })"

text \<open>\<open>ret != 0\<close>, and \<open>blkdev_write\<close> never returns a positive number.\<close>

definition sync_inode_bitmap :: "inode_cache \<Rightarrow> (int \<times> inode_cache) option" where
  "sync_inode_bitmap c = do {
     (ret, c) \<leftarrow> store_blocks ic_write c (sb_inode_bitmap_start (ic_sb c)) (ic_inode_bitmap c)
        (upto32 (ic_bitmap_blocks c));
     (if ret \<noteq> 0 then Some (MODERNFS_EIO, c) else Some (MODERNFS_SUCCESS, c))
   }"

section \<open>Creation\<close>

definition calloc_inode :: inode_mem where
  "calloc_inode = \<lparr>im_inum = 0, im_disk = zero_disk_inode, im_ref_count = 0, im_valid = False, im_dirty = False,
     im_prev = None, im_next = None, im_hash_next = None\<rparr>"

fun push_all :: "inode_cache \<Rightarrow> addr list \<Rightarrow> inode_cache option" where
  "push_all c [] = Some c"
| "push_all c (a # as) = (case inode_lru_push_front c a of None \<Rightarrow> None | Some c \<Rightarrow> push_all c as)"

text \<open>\<open>oom\<close> makes every allocation fail, as \<open>ic_oom\<close> does afterwards.\<close>

definition inode_cache_init ::
  "bool \<Rightarrow> block_device \<Rightarrow> block_allocator \<Rightarrow> u32 \<Rightarrow> u32 \<Rightarrow> (inode_cache option \<times> block_device) option" where
  "inode_cache_init oom dev balloc max_inodes hash_size =
     (if oom then Some (None, dev)
      else do {
        let c = \<lparr>ic_dev = dev, ic_balloc = balloc, ic_sb = decode_superblock (replicate BLOCK_SIZE 0),
          ic_inodes = (\<lambda>_. None), ic_max_inodes = max_inodes, ic_lru_head = None, ic_lru_tail = None,
          ic_hash_table = [], ic_hash_size = hash_size, ic_inode_bitmap = [], ic_bitmap_blocks = 0,
          ic_oom = oom\<rparr>;
        (ret, c) \<leftarrow> read_superblock c;
        (if ret \<noteq> MODERNFS_SUCCESS then Some (None, ic_dev c)
         else do {
           let c = c\<lparr>ic_inodes := (\<lambda>a. if a < unat max_inodes then Some calloc_inode else None)\<rparr>;
           c \<leftarrow> push_all c [0..<unat max_inodes];
           let c = c\<lparr>ic_hash_table := replicate (unat hash_size) None\<rparr>;
           (ret, c) \<leftarrow> load_inode_bitmap c;
           (if ret \<noteq> MODERNFS_SUCCESS then Some (None, ic_dev c) else Some (Some c, ic_dev c)) }) })"

section \<open>Getting, putting and writing back inodes\<close>

definition inode_put :: "inode_cache \<Rightarrow> addr \<Rightarrow> inode_cache option" where
  "inode_put c a = im_modify c a (\<lambda>im. im\<lparr>im_ref_count := im_ref_count im - 1\<rparr>)"

text \<open>Block and byte offset of an inode in the inode table; both are computed in 32 bits.\<close>

definition inode_table_block :: "inode_cache \<Rightarrow> inode_t \<Rightarrow> block_t" where
  "inode_table_block c inum = sb_inode_table_start (ic_sb c) + (inum * 128) div 4096"

definition inode_table_offset :: "inode_t \<Rightarrow> nat" where
  "inode_table_offset inum = unat ((inum * 128) mod 4096)"

definition inode_sync :: "inode_cache \<Rightarrow> addr \<Rightarrow> (int \<times> inode_cache) option" where
  "inode_sync c a = do {
     im \<leftarrow> ic_inodes c a;
     (if \<not> im_valid im \<or> \<not> im_dirty im then Some (MODERNFS_SUCCESS, c)
      else if ic_oom c then Some (MODERNFS_ERROR, c)
      else do {
        let b = inode_table_block c (im_inum im);
        (r, c) \<leftarrow> ic_read c b;
        (case r of
           Inl _ \<Rightarrow> Some (MODERNFS_EIO, c)
         | Inr buf \<Rightarrow> do {
             buf \<leftarrow> buf_write buf (inode_table_offset (im_inum im)) (encode_disk_inode (im_disk im));
             (ret, c) \<leftarrow> ic_write c b buf;
             (if ret \<noteq> 0 then Some (MODERNFS_EIO, c)
              else do {
                c \<leftarrow> im_modify c a (im_dirty_update (\<lambda>_. False));
                Some (MODERNFS_SUCCESS, c) }) }) }) }"

text \<open>The read of \<open>inode_get\<close>, on a hit that is not valid and after a miss: the reference is dropped on failure.\<close>

definition inode_load :: "inode_cache \<Rightarrow> addr \<Rightarrow> inode_t \<Rightarrow> (addr option \<times> inode_cache) option" where
  "inode_load c a inum =
     (if ic_oom c then do { c \<leftarrow> inode_put c a; Some (None, c) }
      else do {
        (r, c) \<leftarrow> ic_read c (inode_table_block c inum);
        (case r of
           Inl _ \<Rightarrow> do { c \<leftarrow> inode_put c a; Some (None, c) }
         | Inr buf \<Rightarrow> do {
             bytes \<leftarrow> buf_read buf (inode_table_offset inum) INODE_SIZE;
             c \<leftarrow> im_modify c a (\<lambda>im. im\<lparr>im_disk := decode_disk_inode bytes, im_valid := True\<rparr>);
             Some (Some a, c) }) })"

text \<open>The entry to reuse: the least recently used one without references.\<close>

definition ic_prev_of :: "inode_cache \<Rightarrow> addr \<Rightarrow> addr option" where
  "ic_prev_of c a = Option.bind (ic_inodes c a) im_prev"

definition find_unreferenced :: "inode_cache \<Rightarrow> addr option option" where
  "find_unreferenced c =
     ptr_find (\<lambda>a. map_option (\<lambda>im. \<not> 0 < im_ref_count im) (ic_inodes c a)) (ic_prev_of c) (ic_lru_tail c)"

definition inode_get :: "inode_cache \<Rightarrow> inode_t \<Rightarrow> (addr option \<times> inode_cache) option" where
  "inode_get c inum = do {
     r \<leftarrow> inode_hash_lookup c inum;
     (case r of
        Some a \<Rightarrow> do {
          c \<leftarrow> im_modify c a (\<lambda>im. im\<lparr>im_ref_count := im_ref_count im + 1\<rparr>);
          c \<leftarrow> inode_lru_remove c a;
          c \<leftarrow> inode_lru_push_front c a;
          im \<leftarrow> ic_inodes c a;
          (if im_valid im then Some (Some a, c) else inode_load c a inum) }
      | None \<Rightarrow> do {
          r \<leftarrow> find_unreferenced c;
          (case r of
             None \<Rightarrow> Some (None, c)
           | Some a \<Rightarrow> do {
               im \<leftarrow> ic_inodes c a;
               (_, c) \<leftarrow> (if im_dirty im \<and> im_valid im then inode_sync c a else Some (0, c));
               c \<leftarrow> (if im_valid im then inode_hash_remove c a else Some c);
               c \<leftarrow> inode_lru_remove c a;
               c \<leftarrow> im_modify c a (\<lambda>im. im\<lparr>im_inum := inum, im_ref_count := 1, im_valid := False, im_dirty := False\<rparr>);
               c \<leftarrow> inode_hash_insert c a;
               c \<leftarrow> inode_lru_push_front c a;
               inode_load c a inum }) }) }"

fun inode_sync_each :: "inode_cache \<Rightarrow> addr list \<Rightarrow> inode_cache option" where
  "inode_sync_each c [] = Some c"
| "inode_sync_each c (a # as) =
     (case ic_inodes c a of None \<Rightarrow> None
      | Some im \<Rightarrow>
          if im_valid im \<and> im_dirty im then
            (case inode_sync c a of None \<Rightarrow> None | Some (_, c) \<Rightarrow> inode_sync_each c as)
          else inode_sync_each c as)"

definition inode_sync_all :: "inode_cache \<Rightarrow> (int \<times> inode_cache) option" where
  "inode_sync_all c = do {
     c \<leftarrow> inode_sync_each c [0..<unat (ic_max_inodes c)];
     Some (MODERNFS_SUCCESS, c)
   }"

text \<open>\<open>inode_cache_destroy\<close> writes everything back; what is left is the device and the allocator.\<close>

definition inode_cache_destroy :: "inode_cache \<Rightarrow> (block_device \<times> block_allocator) option" where
  "inode_cache_destroy c = do {
     (_, c) \<leftarrow> inode_sync_all c;
     (_, c) \<leftarrow> sync_inode_bitmap c;
     Some (ic_dev c, ic_balloc c)
   }"

end
