(* ===== verification/Inode.thy ===== *)
theory Inode
  imports Inode_Cache
begin

text \<open>
  \<open>src/inode.c\<close>, the file half: the map from file offsets to blocks through direct, indirect and
  double-indirect pointers, truncation, reading and writing of file data, and the allocation and
  release of inodes.  Results that go through an out-parameter are the \<open>Inr\<close> of a sum, negative
  returns its \<open>Inl\<close>.
\<close>

section \<open>Mapping file blocks\<close>

definition ic_alloc :: "inode_cache \<Rightarrow> (block_t \<times> inode_cache) option" where
  "ic_alloc c = (case block_alloc (ic_balloc c) of None \<Rightarrow> None
     | Some (b, al) \<Rightarrow> Some (b, c\<lparr>ic_balloc := al\<rparr>))"

definition ic_free :: "inode_cache \<Rightarrow> block_t \<Rightarrow> (int \<times> inode_cache) option" where
  "ic_free c b = (case block_free (ic_balloc c) b of None \<Rightarrow> None
     | Some (ret, al) \<Rightarrow> Some (ret, c\<lparr>ic_balloc := al\<rparr>))"

text \<open>\<open>inode->disk.blocks++; inode->dirty = 1\<close> after a pointer \<open>f\<close> of the inode was set.\<close>

definition im_grow :: "(disk_inode \<Rightarrow> disk_inode) \<Rightarrow> inode_mem \<Rightarrow> inode_mem" where
  "im_grow f im = im\<lparr>im_disk := (f (im_disk im))\<lparr>di_blocks := di_blocks (im_disk im) + 1\<rparr>, im_dirty := True\<rparr>"

text \<open>The buffer allocation, \<open>memset\<close> and \<open>blkdev_write\<close> that zero a new pointer block.\<close>

definition zero_block :: "inode_cache \<Rightarrow> block_t \<Rightarrow> (int \<times> inode_cache) option" where
  "zero_block c b =
     (if ic_oom c then Some (MODERNFS_ERROR, c)
      else (case ic_write c b (replicate BLOCK_SIZE 0) of None \<Rightarrow> None
        | Some (ret, c) \<Rightarrow> if ret \<noteq> 0 then Some (MODERNFS_EIO, c) else Some (0, c)))"

definition bmap_direct :: "inode_cache \<Rightarrow> addr \<Rightarrow> nat \<Rightarrow> bool \<Rightarrow> ((int + block_t) \<times> inode_cache) option" where
  "bmap_direct c a i alloc_if_missing = do {
     im \<leftarrow> ic_inodes c a;
     let p = di_direct (im_disk im) ! i;
     (if p \<noteq> 0 then Some (Inr p, c)
      else if \<not> alloc_if_missing then Some (Inr 0, c)
      else do {
        (new_block, c) \<leftarrow> ic_alloc c;
        (if new_block = 0 then Some (Inl MODERNFS_ENOSPC, c)
         else do {
           c \<leftarrow> im_modify c a (im_grow (\<lambda>d. d\<lparr>di_direct := (di_direct d)[i := new_block]\<rparr>));
           Some (Inr new_block, c) }) }) }"

text \<open>
  The root pointer of an indirect tree, \<open>indirect\<close> or \<open>double_indirect\<close> (\<open>getp\<close>, \<open>setp\<close>): a
  missing one is allocated and zeroed.  \<open>Inr 0\<close> is the hole of a lookup.
\<close>

definition bmap_root ::
  "inode_cache \<Rightarrow> addr \<Rightarrow> (disk_inode \<Rightarrow> block_t) \<Rightarrow> (block_t \<Rightarrow> disk_inode \<Rightarrow> disk_inode) \<Rightarrow> bool \<Rightarrow>
   ((int + block_t) \<times> inode_cache) option" where
  "bmap_root c a getp setp alloc_if_missing = do {
     im \<leftarrow> ic_inodes c a;
     (if getp (im_disk im) \<noteq> 0 then Some (Inr (getp (im_disk im)), c)
      else if \<not> alloc_if_missing then Some (Inr 0, c)
      else do {
        (new_block, c) \<leftarrow> ic_alloc c;
        (if new_block = 0 then Some (Inl MODERNFS_ENOSPC, c)
         else do {
           c \<leftarrow> im_modify c a (im_grow (setp new_block));
           (ret, c) \<leftarrow> zero_block c new_block;
           (if ret \<noteq> 0 then Some (Inl ret, c) else Some (Inr new_block, c)) }) }) }"

text \<open>
  Entry \<open>i\<close> of the pointer block \<open>p\<close>: a missing one is allocated and written back.  \<open>zero\<close> tells
  whether the new block is itself a pointer block, which is then zeroed; data blocks are not.
\<close>

definition bmap_entry ::
  "inode_cache \<Rightarrow> addr \<Rightarrow> block_t \<Rightarrow> nat \<Rightarrow> bool \<Rightarrow> bool \<Rightarrow> ((int + block_t) \<times> inode_cache) option" where
  "bmap_entry c a p i alloc_if_missing zero =
     (if ic_oom c then Some (Inl MODERNFS_ERROR, c)
      else do {
        (r, c) \<leftarrow> ic_read c p;
        (case r of
           Inl _ \<Rightarrow> Some (Inl MODERNFS_EIO, c)
         | Inr buf \<Rightarrow>
             if get_ptr buf i \<noteq> 0 then Some (Inr (get_ptr buf i), c)
             else if \<not> alloc_if_missing then Some (Inr 0, c)
             else do {
               (new_block, c) \<leftarrow> ic_alloc c;
               (if new_block = 0 then Some (Inl MODERNFS_ENOSPC, c)
                else do {
                  (ret, c) \<leftarrow> ic_write c p (set_ptr buf i new_block);
                  (if ret \<noteq> 0 then Some (Inl MODERNFS_EIO, c)
                   else do {
                     c \<leftarrow> im_modify c a (im_grow id);
                     (ret, c) \<leftarrow> (if zero then zero_block c new_block else Some (0, c));
                     (if ret \<noteq> 0 then Some (Inl ret, c) else Some (Inr new_block, c)) }) }) }) })"

definition inode_bmap ::
  "inode_cache \<Rightarrow> addr \<Rightarrow> u64 \<Rightarrow> bool \<Rightarrow> ((int + block_t) \<times> inode_cache) option" where
  "inode_bmap c a offset alloc_if_missing =
     (let block_idx = (ucast (offset div 4096) :: u32) in
      if block_idx < 12 then bmap_direct c a (unat block_idx) alloc_if_missing
      else (let block_idx = block_idx - 12 in
        if block_idx < 1024 then do {
          (r, c) \<leftarrow> bmap_root c a di_indirect (\<lambda>p d. d\<lparr>di_indirect := p\<rparr>) alloc_if_missing;
          (case r of
             Inl e \<Rightarrow> Some (Inl e, c)
           | Inr p \<Rightarrow> if p = 0 then Some (Inr 0, c)
               else bmap_entry c a p (unat block_idx) alloc_if_missing False) }
        else (let block_idx = block_idx - 1024 in
          if block_idx < 1024 * 1024 then do {
            (r, c) \<leftarrow> bmap_root c a di_double_indirect (\<lambda>p d. d\<lparr>di_double_indirect := p\<rparr>) alloc_if_missing;
            (case r of
               Inl e \<Rightarrow> Some (Inl e, c)
             | Inr p \<Rightarrow> if p = 0 then Some (Inr 0, c)
                 else do {
                   let l1_idx = unat (block_idx div 1024);
                   let l2_idx = unat (block_idx mod 1024);
                   (r, c) \<leftarrow> bmap_entry c a p l1_idx alloc_if_missing True;
                   (case r of
                      Inl e \<Rightarrow> Some (Inl e, c)
                    | Inr q \<Rightarrow> if q = 0 then Some (Inr 0, c)
                        else bmap_entry c a q l2_idx alloc_if_missing False) }) }
          else Some (Inl MODERNFS_EINVAL, c))))"

section \<open>Truncation\<close>

text \<open>
  \<open>for (i = new_blocks; i < old_blocks; i++)\<close>; the offset \<open>i * BLOCK_SIZE\<close> is a 32-bit product
  widened for the call.
\<close>

function truncate_loop :: "inode_cache \<Rightarrow> addr \<Rightarrow> u32 \<Rightarrow> u32 \<Rightarrow> inode_cache option" where
  "truncate_loop c a i old_blocks =
     (if i < old_blocks then
        (case inode_bmap c a (ucast (i * 4096)) False of
           None \<Rightarrow> None
         | Some (Inl _, c) \<Rightarrow> truncate_loop c a (i + 1) old_blocks
         | Some (Inr block, c) \<Rightarrow>
             if block = 0 then truncate_loop c a (i + 1) old_blocks
             else (case ic_free c block of
                None \<Rightarrow> None
              | Some (_, c) \<Rightarrow>
                  (case im_modify c a (\<lambda>im. im\<lparr>im_disk := (im_disk im)\<lparr>di_blocks := di_blocks (im_disk im) - 1\<rparr>\<rparr>) of
                     None \<Rightarrow> None
                   | Some c \<Rightarrow> truncate_loop c a (i + 1) old_blocks)))
      else Some c)"
  by pat_completeness auto
termination by (relation "measure (\<lambda>(c, a, i, n). unat n - unat i)") (auto simp: u32_loop_measure)

declare truncate_loop.simps [simp del]

definition inode_truncate :: "inode_cache \<Rightarrow> addr \<Rightarrow> u64 \<Rightarrow> (int \<times> inode_cache) option" where
  "inode_truncate c a new_size = do {
     im \<leftarrow> ic_inodes c a;
     (if di_size (im_disk im) \<le> new_size then do {
        c \<leftarrow> im_modify c a (\<lambda>im. im\<lparr>im_disk := (im_disk im)\<lparr>di_size := new_size\<rparr>, im_dirty := True\<rparr>);
        Some (MODERNFS_SUCCESS, c) }
      else do {
        let new_blocks = (ucast ((new_size + 4096 - 1) div 4096) :: u32);
        let old_blocks = (ucast ((di_size (im_disk im) + 4096 - 1) div 4096) :: u32);
        c \<leftarrow> truncate_loop c a new_blocks old_blocks;
        c \<leftarrow> im_modify c a (\<lambda>im. im\<lparr>im_disk := (im_disk im)\<lparr>di_size := new_size\<rparr>, im_dirty := True\<rparr>);
        Some (MODERNFS_SUCCESS, c) }) }"

section \<open>Reading and writing\<close>

text \<open>The bytes of one step: \<open>min(BLOCK_SIZE - cur_offset % BLOCK_SIZE, left)\<close>, as a 32-bit value.\<close>

definition chunk :: "u64 \<Rightarrow> u64 \<Rightarrow> u32" where
  "chunk cur_offset left =
     (let n = 4096 - (ucast (cur_offset mod 4096) :: u32) in if left < ucast n then ucast left else n)"

lemma unat_chunk: "unat (chunk off left) = min (4096 - unat off mod 4096) (unat left)"
proof -
  have o: "unat (ucast (off mod 4096) :: u32) = unat off mod 4096"
    by (simp add: unsigned_ucast_eq take_bit_nat_eq_self_iff unat_mod order_less_trans [of _ 4096])
  then have n: "unat (4096 - (ucast (off mod 4096) :: u32)) = 4096 - unat off mod 4096"
    by (subst unat_sub) (simp_all add: word_le_nat_alt)
  show ?thesis
  proof (cases "left < ucast (4096 - (ucast (off mod 4096) :: u32))")
    case True
    then have l: "unat left < 4096 - unat off mod 4096" using n by (simp add: word_less_nat_alt)
    then have "unat (ucast left :: u32) = unat left"
      by (simp add: unsigned_ucast_eq take_bit_nat_eq_self_iff order_less_trans [of _ 4096])
    then show ?thesis using True l by (simp add: chunk_def Let_def)
  next
    case False
    then have "4096 - unat off mod 4096 \<le> unat left" using n by (simp add: word_less_nat_alt)
    then show ?thesis using False n by (simp add: chunk_def Let_def)
  qed
qed

lemma chunk_step:
  assumes "k < n"
  shows "unat (k + ucast (chunk (off + k) (n - k))) = unat k + unat (chunk (off + k) (n - k))"
    "0 < unat (chunk (off + k) (n - k))"
    "unat k + unat (chunk (off + k) (n - k)) \<le> unat n"
proof -
  have l: "unat (n - k) = unat n - unat k" using assms by (simp add: unat_sub)
  have lt: "unat k < unat n" using assms by (simp add: word_less_nat_alt)
  show le: "unat k + unat (chunk (off + k) (n - k)) \<le> unat n"
    using l lt by (simp add: unat_chunk)
  have "unat (off + k) mod 4096 < 4096" by simp
  then show "0 < unat (chunk (off + k) (n - k))"
    using l lt by (simp add: unat_chunk)
  have "unat n < 2 ^ 64" using unsigned_less [of n, where ?'a = nat] by simp
  then show "unat (k + ucast (chunk (off + k) (n - k))) = unat k + unat (chunk (off + k) (n - k))"
    using le by (simp add: unat_word_ariths)
qed

lemma chunk_measure:
  "k < n \<Longrightarrow> unat n - unat (k + ucast (chunk (off + k) (n - k))) < unat n - unat k"
  using chunk_step [of k n off] by (simp add: word_less_nat_alt)

text \<open>
  The loop of \<open>inode_read\<close>, with the bytes read so far; a block number 0 is a hole.
\<close>

function read_loop ::
  "inode_cache \<Rightarrow> addr \<Rightarrow> u64 \<Rightarrow> u64 \<Rightarrow> u64 \<Rightarrow> byte list \<Rightarrow> ((int + byte list) \<times> inode_cache) option" where
  "read_loop c a offset sz total_read dest =
     (if total_read < sz then
        (let cur_offset = offset + total_read;
             block_offset = unat (cur_offset mod 4096);
             to_read = chunk cur_offset (sz - total_read) in
         (case inode_bmap c a cur_offset False of
            None \<Rightarrow> None
          | Some (Inl e, c) \<Rightarrow> Some (Inl e, c)
          | Some (Inr block, c) \<Rightarrow>
              if block = 0
              then read_loop c a offset sz (total_read + ucast to_read) (dest @ replicate (unat to_read) 0)
              else if ic_oom c then Some (Inl MODERNFS_ERROR, c)
              else (case ic_read c block of
                 None \<Rightarrow> None
               | Some (Inl _, c) \<Rightarrow> Some (Inl MODERNFS_EIO, c)
               | Some (Inr bbuf, c) \<Rightarrow>
                   (case buf_read bbuf block_offset (unat to_read) of
                      None \<Rightarrow> None
                    | Some bytes \<Rightarrow> read_loop c a offset sz (total_read + ucast to_read) (dest @ bytes)))))
      else Some (Inr dest, c))"
  by pat_completeness auto
termination
  by (relation "measure (\<lambda>(c, a, off, n, k, dest). unat n - unat k)") (auto simp: chunk_measure)

declare read_loop.simps [simp del]

text \<open>\<open>now\<close> is \<open>time(NULL)\<close>.  The value returned is the length of the bytes in \<open>Inr\<close>.\<close>

definition inode_read ::
  "u64 \<Rightarrow> inode_cache \<Rightarrow> addr \<Rightarrow> u64 \<Rightarrow> u64 \<Rightarrow> ((int + byte list) \<times> inode_cache) option" where
  "inode_read now c a offset sz = do {
     im \<leftarrow> ic_inodes c a;
     (if di_size (im_disk im) \<le> offset then Some (Inr [], c)
      else do {
        let sz = (if di_size (im_disk im) < offset + sz then di_size (im_disk im) - offset else sz);
        (r, c) \<leftarrow> read_loop c a offset sz 0 [];
        (case r of
           Inl e \<Rightarrow> Some (Inl e, c)
         | Inr dest \<Rightarrow> do {
             c \<leftarrow> im_modify c a (\<lambda>im. im\<lparr>im_disk := (im_disk im)\<lparr>di_atime := now\<rparr>, im_dirty := True\<rparr>);
             Some (Inr dest, c) }) }) }"

text \<open>
  \<open>rust_journal_write\<close> is code of the Rust journal: \<open>jwrite\<close> stands for it, on transactions of type
  \<^typ>\<open>'t\<close>.  Without a transaction blocks go to the device.
\<close>

function write_loop ::
  "('t \<Rightarrow> block_t \<Rightarrow> byte list \<Rightarrow> int \<times> 't) \<Rightarrow> inode_cache \<Rightarrow> 't option \<Rightarrow> addr \<Rightarrow> byte list \<Rightarrow> u64 \<Rightarrow> u64 \<Rightarrow> u64 \<Rightarrow>
   ((int + u64) \<times> inode_cache \<times> 't option) option" where
  "write_loop jwrite c txn a src offset sz total_written =
     (if total_written < sz then
        (let cur_offset = offset + total_written;
             block_offset = unat (cur_offset mod 4096);
             to_write = chunk cur_offset (sz - total_written) in
         (case inode_bmap c a cur_offset True of
            None \<Rightarrow> None
          | Some (Inl e, c) \<Rightarrow> Some (Inl e, c, txn)
          | Some (Inr block, c) \<Rightarrow>
              if ic_oom c then Some (Inl MODERNFS_ERROR, c, txn)
              else (case (if block_offset \<noteq> 0 \<or> to_write \<noteq> 4096 then ic_read c block
                          else Some (Inr (replicate BLOCK_SIZE 0), c)) of
                 None \<Rightarrow> None
               | Some (Inl _, c) \<Rightarrow> Some (Inl MODERNFS_EIO, c, txn)
               | Some (Inr bbuf, c) \<Rightarrow>
                   (case buf_read src (unat total_written) (unat to_write) of
                      None \<Rightarrow> None
                    | Some bytes \<Rightarrow>
                        (case buf_write bbuf block_offset bytes of
                           None \<Rightarrow> None
                         | Some bbuf \<Rightarrow>
                             (case txn of
                                Some t \<Rightarrow>
                                  (case jwrite t block bbuf of (ret, t) \<Rightarrow>
                                     if ret < 0 then Some (Inl MODERNFS_EIO, c, Some t)
                                     else write_loop jwrite c (Some t) a src offset sz (total_written + ucast to_write))
                              | None \<Rightarrow>
                                  (case ic_write c block bbuf of
                                     None \<Rightarrow> None
                                   | Some (ret, c) \<Rightarrow>
                                       if ret \<noteq> 0 then Some (Inl MODERNFS_EIO, c, None)
                                       else write_loop jwrite c None a src offset sz
                                              (total_written + ucast to_write))))))))
      else Some (Inr total_written, c, txn))"
  by pat_completeness auto
termination
  by (relation "measure (\<lambda>(jw, c, t, a, src, off, n, k). unat n - unat k)") (auto simp: chunk_measure)

declare write_loop.simps [simp del]

definition inode_write ::
  "('t \<Rightarrow> block_t \<Rightarrow> byte list \<Rightarrow> int \<times> 't) \<Rightarrow> u64 \<Rightarrow> inode_cache \<Rightarrow> addr \<Rightarrow> byte list \<Rightarrow> u64 \<Rightarrow> u64 \<Rightarrow> 't option \<Rightarrow>
   ((int + u64) \<times> inode_cache \<times> 't option) option" where
  "inode_write jwrite now c a buf offset sz txn = do {
     (r, c, txn) \<leftarrow> write_loop jwrite c txn a buf offset sz 0;
     (case r of
        Inl e \<Rightarrow> Some (Inl e, c, txn)
      | Inr total_written \<Rightarrow> do {
          c \<leftarrow> im_modify c a (\<lambda>im. im\<lparr>im_disk := (im_disk im)
                 \<lparr>di_size := (if di_size (im_disk im) < offset + sz then offset + sz else di_size (im_disk im)),
                  di_mtime := now\<rparr>, im_dirty := True\<rparr>);
          Some (Inr total_written, c, txn) }) }"

section \<open>Allocation and release of inodes\<close>

definition ic_clear_bit :: "inode_cache \<Rightarrow> inode_t \<Rightarrow> inode_cache option" where
  "ic_clear_bit c inum = do {
     bm \<leftarrow> bitmap_clear (ic_inode_bitmap c) inum;
     Some (c\<lparr>ic_inode_bitmap := bm\<rparr>)
   }"

definition inode_alloc :: "u64 \<Rightarrow> inode_cache \<Rightarrow> byte \<Rightarrow> (addr option \<times> inode_cache) option" where
  "inode_alloc now c type = do {
     r \<leftarrow> find_free (ic_inode_bitmap c) (sb_total_inodes (ic_sb c)) 0;
     (case r of
        None \<Rightarrow> Some (None, c)
      | Some inum \<Rightarrow> do {
          bm \<leftarrow> bitmap_set (ic_inode_bitmap c) inum;
          (r, c) \<leftarrow> inode_get (c\<lparr>ic_inode_bitmap := bm\<rparr>) inum;
          (case r of
             None \<Rightarrow> do { c \<leftarrow> ic_clear_bit c inum; Some (None, c) }
           | Some a \<Rightarrow> do {
               c \<leftarrow> im_modify c a (\<lambda>im. im\<lparr>im_disk := zero_disk_inode
                      \<lparr>di_type := type, di_nlink := 1, di_ctime := now, di_mtime := now, di_atime := now\<rparr>,
                      im_valid := True, im_dirty := True\<rparr>);
               (ret, c) \<leftarrow> inode_sync c a;
               (if ret \<noteq> MODERNFS_SUCCESS then do {
                  c \<leftarrow> ic_clear_bit c inum;
                  c \<leftarrow> inode_put c a;
                  Some (None, c) }
                else do {
                  let c = c\<lparr>ic_sb := (ic_sb c)\<lparr>sb_free_inodes := sb_free_inodes (ic_sb c) - 1\<rparr>\<rparr>;
                  (_, c) \<leftarrow> sync_inode_bitmap c;
                  Some (Some a, c) }) }) }) }"

definition inode_free :: "inode_cache \<Rightarrow> addr \<Rightarrow> (int \<times> inode_cache) option" where
  "inode_free c a = do {
     (ret, c) \<leftarrow> inode_truncate c a 0;
     (if ret < 0 then Some (ret, c)
      else do {
        im \<leftarrow> ic_inodes c a;
        let inum = im_inum im;
        c \<leftarrow> inode_put c a;
        c \<leftarrow> ic_clear_bit c inum;
        let c = c\<lparr>ic_sb := (ic_sb c)\<lparr>sb_free_inodes := sb_free_inodes (ic_sb c) + 1\<rparr>\<rparr>;
        (_, c) \<leftarrow> sync_inode_bitmap c;
        Some (MODERNFS_SUCCESS, c) }) }"

text \<open>The three out-parameters of \<open>inode_stat\<close>.\<close>

definition inode_stat :: "inode_mem \<Rightarrow> u64 \<times> u64 \<times> byte" where
  "inode_stat im = (di_size (im_disk im), di_blocks (im_disk im), di_type (im_disk im))"

end
