(* ===== verification/Inode_Map.thy ===== *)
theory Inode_Map
  imports Layout
begin

text \<open>
  The block tree of a file as a map from its nodes to block numbers: the indirect block, the
  double-indirect block, the indirect blocks below it, and the data blocks by file block number;
  0 stands for a missing node.  The lemmas say how storing one pointer changes that map.
\<close>

datatype node = NI | ND | NL nat | NB nat

definition l1_ptr :: "disk_inode \<Rightarrow> (block_t \<Rightarrow> byte list) \<Rightarrow> nat \<Rightarrow> block_t" where
  "l1_ptr di v j =
     (if di_double_indirect di = 0 \<or> 1024 \<le> j then 0 else get_ptr (v (di_double_indirect di)) j)"

definition file_block :: "disk_inode \<Rightarrow> (block_t \<Rightarrow> byte list) \<Rightarrow> nat \<Rightarrow> block_t" where
  "file_block di v i =
     (if i < 12 then di_direct di ! i
      else if i < 1036 then (if di_indirect di = 0 then 0 else get_ptr (v (di_indirect di)) (i - 12))
      else if i < 1049612 then
        (let p = l1_ptr di v ((i - 1036) div 1024) in if p = 0 then 0 else get_ptr (v p) ((i - 1036) mod 1024))
      else 0)"

fun nodes :: "disk_inode \<Rightarrow> (block_t \<Rightarrow> byte list) \<Rightarrow> node \<Rightarrow> block_t" where
  "nodes di v NI = di_indirect di"
| "nodes di v ND = di_double_indirect di"
| "nodes di v (NL j) = l1_ptr di v j"
| "nodes di v (NB i) = file_block di v i"

text \<open>The pointer blocks of a file.\<close>

definition pointer_blocks :: "disk_inode \<Rightarrow> (block_t \<Rightarrow> byte list) \<Rightarrow> block_t set" where
  "pointer_blocks di v = ({di_indirect di, di_double_indirect di} \<union> range (l1_ptr di v)) - {0}"

definition data_blocks :: "disk_inode \<Rightarrow> (block_t \<Rightarrow> byte list) \<Rightarrow> block_t set" where
  "data_blocks di v = range (file_block di v) - {0}"

text \<open>A well-formed tree: every node is allocated, and no block is used twice.\<close>

definition tree_ok :: "disk_inode \<Rightarrow> (block_t \<Rightarrow> byte list) \<Rightarrow> block_t set \<Rightarrow> bool" where
  "tree_ok di v U \<longleftrightarrow> length (di_direct di) = 12 \<and> (\<forall>b. length (v b) = BLOCK_SIZE) \<and>
     (\<forall>n. nodes di v n = 0 \<or> nodes di v n \<in> U) \<and>
     (\<forall>n m. nodes di v n = nodes di v m \<longrightarrow> nodes di v n \<noteq> 0 \<longrightarrow> n = m)"

lemma tree_okD:
  assumes "tree_ok di v U"
  shows "length (di_direct di) = 12" "length (v b) = BLOCK_SIZE" "nodes di v n \<noteq> 0 \<Longrightarrow> nodes di v n \<in> U"
    "nodes di v n = nodes di v m \<Longrightarrow> nodes di v n \<noteq> 0 \<Longrightarrow> n = m"
  using assms by (auto simp: tree_ok_def)

lemma pointer_blocks_nodes:
  "x \<in> pointer_blocks di v \<longleftrightarrow> x \<noteq> 0 \<and> (x = nodes di v NI \<or> x = nodes di v ND \<or> (\<exists>j. x = nodes di v (NL j)))"
  by (auto simp: pointer_blocks_def)

lemma data_blocks_nodes: "x \<in> data_blocks di v \<longleftrightarrow> x \<noteq> 0 \<and> (\<exists>i. x = nodes di v (NB i))"
  by (auto simp: data_blocks_def)

lemma tree_ok_disjoint:
  assumes "tree_ok di v U"
  shows "pointer_blocks di v \<inter> data_blocks di v = {}"
proof -
  have False if x: "x \<in> pointer_blocks di v" "x \<in> data_blocks di v" for x
  proof -
    from x(1) obtain n where n: "x = nodes di v n" "\<And>i. n \<noteq> NB i"
      unfolding pointer_blocks_nodes by (metis node.distinct)
    from x(2) obtain i where i: "x = nodes di v (NB i)" "x \<noteq> 0" unfolding data_blocks_nodes by blast
    from tree_okD(4) [OF assms, of n "NB i"] n i show False by metis
  qed
  then show ?thesis by blast
qed

lemma tree_ok_used:
  assumes "tree_ok di v U"
  shows "pointer_blocks di v \<union> data_blocks di v \<subseteq> U"
proof
  fix x assume "x \<in> pointer_blocks di v \<union> data_blocks di v"
  then obtain n where "x = nodes di v n" "x \<noteq> 0"
    unfolding Un_iff pointer_blocks_nodes data_blocks_nodes by metis
  then show "x \<in> U" using tree_okD(3) [OF assms, of n] by simp
qed

lemma tree_ok_mono: "tree_ok di v U \<Longrightarrow> U \<subseteq> U' \<Longrightarrow> tree_ok di v U'"
  by (auto simp: tree_ok_def)

text \<open>The map depends on the pointer blocks only.\<close>

lemma nodes_cong:
  assumes "\<And>x. x \<in> pointer_blocks di v \<Longrightarrow> v' x = v x"
  shows "nodes di v' = nodes di v"
proof -
  have l1: "l1_ptr di v' j = l1_ptr di v j" for j
    using assms [of "di_double_indirect di"] by (auto simp: l1_ptr_def pointer_blocks_def)
  have "file_block di v' i = file_block di v i" for i
  proof -
    have "l1_ptr di v ((i - 1036) div 1024) \<noteq> 0 \<Longrightarrow>
        v' (l1_ptr di v ((i - 1036) div 1024)) = v (l1_ptr di v ((i - 1036) div 1024))"
      by (rule assms) (auto simp: pointer_blocks_def)
    moreover have "di_indirect di \<noteq> 0 \<Longrightarrow> v' (di_indirect di) = v (di_indirect di)"
      by (rule assms) (auto simp: pointer_blocks_def)
    ultimately show ?thesis by (auto simp: file_block_def l1 Let_def)
  qed
  then have "nodes di v' n = nodes di v n" for n using l1 by (cases n) auto
  then show ?thesis by blast
qed

lemma nodes_file_block: "nodes di v' = nodes di v \<Longrightarrow> file_block di v' = file_block di v"
  by (metis (no_types) ext nodes.simps(4))

lemma tree_ok_cong:
  assumes "tree_ok di v U" "\<And>x. x \<in> pointer_blocks di v \<Longrightarrow> v' x = v x" "\<And>b. length (v' b) = BLOCK_SIZE"
  shows "tree_ok di v' U"
  using assms(1,3) nodes_cong [OF assms(2)] by (simp add: tree_ok_def)

text \<open>A tree with one more node, on a fresh block.\<close>

lemma tree_ok_grow:
  assumes "tree_ok di v U" "nodes di' v' = (nodes di v)(n := b)" "nodes di v n = 0" "b \<notin> U"
    and "length (di_direct di') = 12" "\<And>x. length (v' x) = BLOCK_SIZE"
  shows "tree_ok di' v' (insert b U)"
proof -
  have fresh: "nodes di v m \<noteq> b \<or> b = 0" for m using tree_okD(3) [OF assms(1), of m] assms(4) by auto
  have "x = y" if "nodes di' v' x = nodes di' v' y" "nodes di' v' x \<noteq> 0" for x y
    using that fresh tree_okD(4) [OF assms(1), of x y] unfolding assms(2)
    by (cases "x = n"; cases "y = n"; auto)
  moreover have "nodes di' v' x = 0 \<or> nodes di' v' x \<in> insert b U" for x
    using tree_okD(3) [OF assms(1), of x] unfolding assms(2) by auto
  ultimately show ?thesis using assms(5,6) unfolding tree_ok_def by blast
qed

section \<open>Storing one pointer\<close>

lemma nodes_direct:
  assumes "length (di_direct di) = 12" "i < 12"
  shows "nodes (di\<lparr>di_direct := (di_direct di)[i := b], di_blocks := n\<rparr>) v = (nodes di v)(NB i := b)"
proof
  fix x show "nodes (di\<lparr>di_direct := (di_direct di)[i := b], di_blocks := n\<rparr>) v x = ((nodes di v)(NB i := b)) x"
    using assms by (cases x) (auto simp: l1_ptr_def file_block_def nth_list_update Let_def)
qed

lemma nodes_blocks: "nodes (di\<lparr>di_blocks := n\<rparr>) v = nodes di v"
proof
  fix x show "nodes (di\<lparr>di_blocks := n\<rparr>) v x = nodes di v x"
    by (cases x) (auto simp: l1_ptr_def file_block_def Let_def)
qed

text \<open>A new indirect block, zeroed.\<close>

lemma nodes_indirect:
  assumes ok: "tree_ok di v U" and b: "b \<notin> U" and z: "di_indirect di = 0"
  shows "nodes (di\<lparr>di_indirect := b, di_blocks := n\<rparr>) (v(b := replicate 4096 0)) = (nodes di v)(NI := b)"
proof
  let ?di = "di\<lparr>di_indirect := b, di_blocks := n\<rparr>" and ?v = "v(b := replicate 4096 0)"
  have fresh: "x \<in> pointer_blocks di v \<Longrightarrow> x \<noteq> b" for x using tree_ok_used [OF ok] b by auto
  have v: "nodes di ?v = nodes di v" by (rule nodes_cong) (use fresh in auto)
  have l: "l1_ptr ?di ?v = l1_ptr di v"
  proof
    fix j show "l1_ptr ?di ?v j = l1_ptr di v j"
      using fun_cong [OF v, of "NL j"] fresh [of "di_double_indirect di"]
      by (auto simp: l1_ptr_def pointer_blocks_def)
  qed
  have "file_block ?di ?v i = file_block di v i" for i
    using fun_cong [OF v, of "NB i"] l z fun_cong [OF v, of "NL ((i - 1036) div 1024)"]
    by (auto simp: file_block_def get_ptr_zero Let_def)
  then show "nodes ?di ?v x = ((nodes di v)(NI := b)) x" for x
    using l by (cases x) (auto simp: l1_ptr_def)
qed

lemma nodes_double_indirect:
  assumes ok: "tree_ok di v U" and b: "b \<notin> U" and z: "di_double_indirect di = 0"
  shows "nodes (di\<lparr>di_double_indirect := b, di_blocks := n\<rparr>) (v(b := replicate 4096 0)) = (nodes di v)(ND := b)"
proof
  let ?di = "di\<lparr>di_double_indirect := b, di_blocks := n\<rparr>" and ?v = "v(b := replicate 4096 0)"
  have l: "l1_ptr ?di ?v j = 0" "l1_ptr di v j = 0" for j
    using z by (auto simp: l1_ptr_def get_ptr_zero)
  have "di_indirect di \<noteq> 0 \<Longrightarrow> di_indirect di \<noteq> b" using tree_okD(3) [OF ok, of NI] b by auto
  then have "file_block ?di ?v i = file_block di v i" for i using l by (auto simp: file_block_def Let_def)
  then show "nodes ?di ?v x = ((nodes di v)(ND := b)) x" for x
    using l by (cases x) auto
qed

text \<open>A new data block below the indirect block.\<close>

lemma nodes_indirect_entry:
  assumes ok: "tree_ok di v U" and p: "di_indirect di = p" "p \<noteq> 0" and k: "k < 1024"
  shows "nodes (di\<lparr>di_blocks := n\<rparr>) (v(p := set_ptr (v p) k b)) = (nodes di v)(NB (12 + k) := b)"
proof
  let ?v = "v(p := set_ptr (v p) k b)"
  have len: "length (v p) = 4096" using tree_okD(2) [OF ok] .
  have nd: "nodes di v ND \<noteq> p" "nodes di v (NL j) \<noteq> p" for j
    using tree_okD(4) [OF ok, of NI ND] tree_okD(4) [OF ok, of NI "NL j"] p by auto
  have l: "l1_ptr di ?v j = l1_ptr di v j" for j using nd(1) by (auto simp: l1_ptr_def)
  have "file_block di ?v i = (if i = 12 + k then b else file_block di v i)" for i
  proof -
    have e: "i - 12 < 1024 \<Longrightarrow> get_ptr (set_ptr (v p) k b) (i - 12) = (if k = i - 12 then b else get_ptr (v p) (i - 12))"
      using k len by (simp add: get_set_ptr)
    show ?thesis using e p nd(2) [of "(i - 1036) div 1024"] k
      by (auto simp: file_block_def l Let_def)
  qed
  then show "nodes (di\<lparr>di_blocks := n\<rparr>) ?v x = ((nodes di v)(NB (12 + k) := b)) x" for x
    unfolding nodes_blocks using l by (cases x) auto
qed

text \<open>A new indirect block below the double-indirect block, zeroed.\<close>

lemma nodes_l1_entry:
  assumes ok: "tree_ok di v U" and p: "di_double_indirect di = p" "p \<noteq> 0" and k: "k < 1024"
    and b: "b \<notin> U" and z: "l1_ptr di v k = 0"
  shows "nodes (di\<lparr>di_blocks := n\<rparr>) (v(p := set_ptr (v p) k b, b := replicate 4096 0)) = (nodes di v)(NL k := b)"
proof
  let ?v = "v(p := set_ptr (v p) k b, b := replicate 4096 0)"
  have len: "length (v p) = 4096" using tree_okD(2) [OF ok] .
  have pb: "p \<noteq> b" using tree_okD(3) [OF ok, of ND] p b by auto
  have l: "l1_ptr di ?v j = (if j = k then b else l1_ptr di v j)" for j
    using p pb k len by (auto simp: l1_ptr_def get_set_ptr)
  have ne: "nodes di v NI \<noteq> 0 \<Longrightarrow> nodes di v NI \<noteq> p \<and> nodes di v NI \<noteq> b"
    using tree_okD(4) [OF ok, of NI ND] tree_okD(3) [OF ok, of NI] p b by auto
  have nl: "l1_ptr di v j \<noteq> 0 \<Longrightarrow> l1_ptr di v j \<noteq> p \<and> l1_ptr di v j \<noteq> b" for j
    using tree_okD(4) [OF ok, of "NL j" ND] tree_okD(3) [OF ok, of "NL j"] p b by auto
  have "file_block di ?v i = file_block di v i" for i
    using ne nl [of "(i - 1036) div 1024"] z
    by (auto simp: file_block_def l Let_def get_ptr_zero)
  then show "nodes (di\<lparr>di_blocks := n\<rparr>) ?v x = ((nodes di v)(NL k := b)) x" for x
    unfolding nodes_blocks using l by (cases x) auto
qed

text \<open>A new data block below one of those.\<close>

lemma nodes_l2_entry:
  assumes ok: "tree_ok di v U" and q: "l1_ptr di v j = q" "q \<noteq> 0" and j: "j < 1024" and k: "k < 1024"
  shows "nodes (di\<lparr>di_blocks := n\<rparr>) (v(q := set_ptr (v q) k b)) = (nodes di v)(NB (1036 + j * 1024 + k) := b)"
proof
  let ?v = "v(q := set_ptr (v q) k b)"
  have len: "length (v q) = 4096" using tree_okD(2) [OF ok] .
  have ne: "nodes di v NI \<noteq> q" "nodes di v ND \<noteq> q"
    using tree_okD(4) [OF ok, of "NL j" NI] tree_okD(4) [OF ok, of "NL j" ND] q by auto
  have nl: "l1_ptr di v m = q \<longleftrightarrow> m = j" for m
    using tree_okD(4) [OF ok, of "NL m" "NL j"] q by auto
  have l: "l1_ptr di ?v m = l1_ptr di v m" for m using ne(2) by (auto simp: l1_ptr_def)
  have "file_block di ?v i = (if i = 1036 + j * 1024 + k then b else file_block di v i)" for i
  proof (cases "1036 \<le> i \<and> i < 1049612")
    case True
    let ?j = "(i - 1036) div 1024" and ?k = "(i - 1036) mod 1024"
    have i: "i = 1036 + ?j * 1024 + ?k" using True by (metis div_mult_mod_eq add.assoc le_add_diff_inverse)
    have ij: "i = 1036 + j * 1024 + k \<longleftrightarrow> ?j = j \<and> ?k = k"
    proof
      assume "i = 1036 + j * 1024 + k"
      then have "i - 1036 = k + j * 1024" by simp
      then show "?j = j \<and> ?k = k" using k by simp
    next
      assume "?j = j \<and> ?k = k" then show "i = 1036 + j * 1024 + k" using i by simp
    qed
    have e: "get_ptr (set_ptr (v q) k b) ?k = (if k = ?k then b else get_ptr (v q) ?k)"
      using k len by (simp add: get_set_ptr)
    show ?thesis using True e nl [of ?j] ij q(2) q(1)
      by (cases "?j = j") (auto simp: file_block_def l Let_def)
  next
    case False
    then have "i \<noteq> 1036 + j * 1024 + k" using j k by auto
    then show ?thesis using False ne(1) by (auto simp: file_block_def)
  qed
  then show "nodes (di\<lparr>di_blocks := n\<rparr>) ?v x = ((nodes di v)(NB (1036 + j * 1024 + k) := b)) x" for x
    unfolding nodes_blocks using l by (cases x) auto
qed

end
