(* ===== verification/Inode_Bmap.thy ===== *)
theory Inode_Bmap
  imports Inode Inode_Map Block_Alloc_Disk
begin

text \<open>
  Correctness of \<open>inode_bmap\<close>: a lookup returns the block the tree maps the offset to and
  changes nothing a reader can see; an allocating call adds the missing nodes of one path, on
  fresh blocks, and keeps every other mapping.
\<close>

section \<open>The state below the inodes\<close>

definition ic_view :: "inode_cache \<Rightarrow> block_t \<Rightarrow> byte list" where
  "ic_view c = dev_view (ic_dev c)"

definition ic_used :: "inode_cache \<Rightarrow> block_t set" where
  "ic_used c = allocated (ic_balloc c)"

definition ic_pool :: "inode_cache \<Rightarrow> block_t set" where
  "ic_pool c = pool (ic_balloc c)"

text \<open>A healthy state: no I/O errors, memory available, the pool inside the device.\<close>

definition ic_ok :: "inode_cache \<Rightarrow> bool" where
  "ic_ok c \<longleftrightarrow> dev_ok (ic_dev c) \<and> alloc_wf (ic_balloc c) \<and> \<not> ic_oom c \<and>
     (\<forall>b. \<not> dev_faulty (ic_dev c) b) \<and>
     unat (ba_data_start (ic_balloc c)) + unat (ba_total_blocks (ic_balloc c)) \<le> unat (bd_total_blocks (ic_dev c))"

text \<open>\<open>ic_keep c c'\<close>: the two differ in the device, the allocator and the inodes only.\<close>

definition ic_keep :: "inode_cache \<Rightarrow> inode_cache \<Rightarrow> bool" where
  "ic_keep c c' \<longleftrightarrow> c' = c\<lparr>ic_dev := ic_dev c', ic_balloc := ic_balloc c', ic_inodes := ic_inodes c'\<rparr> \<and>
     dev_static (ic_dev c) (ic_dev c') \<and> alloc_static (ic_balloc c) (ic_balloc c')"

lemma ic_keep_refl [simp]: "ic_keep c c"
  by (simp add: ic_keep_def)

lemma ic_keep_trans:
  assumes "ic_keep c d" "ic_keep d e"
  shows "ic_keep c e"
proof -
  have "e = c\<lparr>ic_dev := ic_dev e, ic_balloc := ic_balloc e, ic_inodes := ic_inodes e\<rparr>"
    using assms by (cases c; cases d; cases e) (simp add: ic_keep_def)
  then show ?thesis using assms unfolding ic_keep_def by (blast intro: dev_static_trans alloc_static_trans)
qed

lemma ic_keep_fields:
  assumes "ic_keep c d"
  shows "ic_sb d = ic_sb c" "ic_oom d = ic_oom c" "ic_max_inodes d = ic_max_inodes c"
    "ic_hash_size d = ic_hash_size c" "ic_hash_table d = ic_hash_table c" "ic_lru_head d = ic_lru_head c"
    "ic_lru_tail d = ic_lru_tail c" "ic_inode_bitmap d = ic_inode_bitmap c"
    "ic_bitmap_blocks d = ic_bitmap_blocks c" "ic_pool d = ic_pool c"
    "bd_total_blocks (ic_dev d) = bd_total_blocks (ic_dev c)"
proof -
  have e: "d = c\<lparr>ic_dev := ic_dev d, ic_balloc := ic_balloc d, ic_inodes := ic_inodes d\<rparr>"
    using assms by (simp add: ic_keep_def)
  show "ic_sb d = ic_sb c" "ic_oom d = ic_oom c" "ic_max_inodes d = ic_max_inodes c"
    "ic_hash_size d = ic_hash_size c" "ic_hash_table d = ic_hash_table c" "ic_lru_head d = ic_lru_head c"
    "ic_lru_tail d = ic_lru_tail c" "ic_inode_bitmap d = ic_inode_bitmap c"
    "ic_bitmap_blocks d = ic_bitmap_blocks c" by (subst e, simp)+
  show "ic_pool d = ic_pool c" using assms by (simp add: ic_keep_def ic_pool_def alloc_static_pool)
  show "bd_total_blocks (ic_dev d) = bd_total_blocks (ic_dev c)" using assms by (simp add: ic_keep_def dev_static_def)
qed

lemma pool_bound:
  assumes "ic_ok c" "b \<in> ic_pool c"
  shows "ucast b < bd_total_blocks (ic_dev c)"
  using assms by (simp add: ic_ok_def ic_pool_def pool_def word_less_nat_alt)

lemma used_pool: "ic_used c \<subseteq> ic_pool c"
  by (simp add: ic_used_def ic_pool_def allocated_pool)

lemma zero_unused: "ic_ok c \<Longrightarrow> 0 \<notin> ic_pool c"
  by (simp add: ic_ok_def ic_pool_def zero_not_pool)

lemma ic_view_length: "ic_ok c \<Longrightarrow> length (ic_view c b) = BLOCK_SIZE"
  by (simp add: ic_ok_def ic_view_def blkdev.view_length)

section \<open>The steps\<close>

lemma ic_read_spec:
  assumes ok: "ic_ok c" and b: "ucast b < bd_total_blocks (ic_dev c)"
  shows "\<exists>c'. ic_read c b = Some (Inr (ic_view c b), c') \<and> ic_ok c' \<and> ic_keep c c' \<and>
     ic_inodes c' = ic_inodes c \<and> ic_view c' = ic_view c \<and> ic_balloc c' = ic_balloc c"
proof -
  have d: "dev_ok (ic_dev c)" "\<not> dev_faulty (ic_dev c) b" using ok by (auto simp: ic_ok_def)
  from blkdev.rd_law [OF d(1) b] d(2) obtain d' where
    r: "blkdev_read (ic_dev c) b = Some (Inr (dev_view (ic_dev c) b), d')" "dev_ok d'" "dev_static (ic_dev c) d'"
      "dev_view d' = dev_view (ic_dev c)" by blast
  have "ic_ok (c\<lparr>ic_dev := d'\<rparr>)"
    using ok r(2,3) blkdev.same_faulty [OF r(3)] blkdev.same_bound [OF r(3)] by (simp add: ic_ok_def)
  then show ?thesis using r by (simp add: ic_read_def ic_view_def ic_keep_def)
qed

lemma ic_write_spec:
  assumes ok: "ic_ok c" and b: "ucast b < bd_total_blocks (ic_dev c)" and len: "length data = BLOCK_SIZE"
  shows "\<exists>c'. ic_write c b data = Some (0, c') \<and> ic_ok c' \<and> ic_keep c c' \<and>
     ic_inodes c' = ic_inodes c \<and> ic_view c' = (ic_view c)(b := data) \<and> ic_balloc c' = ic_balloc c"
proof -
  have d: "dev_ok (ic_dev c)" "\<not> dev_faulty (ic_dev c) b" using ok by (auto simp: ic_ok_def)
  from blkdev.wr_law [OF d(1) b len] d(2) obtain d' where
    r: "blkdev_write (ic_dev c) b data = Some (0, d')" "dev_ok d'" "dev_static (ic_dev c) d'"
      "dev_view d' = (dev_view (ic_dev c))(b := data)" by (auto split: if_splits)
  have "ic_ok (c\<lparr>ic_dev := d'\<rparr>)"
    using ok r(2,3) blkdev.same_faulty [OF r(3)] blkdev.same_bound [OF r(3)] by (simp add: ic_ok_def)
  then show ?thesis using r by (simp add: ic_write_def ic_view_def ic_keep_def)
qed

lemma ic_balloc_ok:
  assumes "ic_ok c" "alloc_wf al" "alloc_static (ic_balloc c) al"
  shows "ic_ok (c\<lparr>ic_balloc := al\<rparr>)" "ic_keep c (c\<lparr>ic_balloc := al\<rparr>)"
  using assms by (auto simp: ic_ok_def ic_keep_def alloc_static_def)

lemma ic_alloc_spec:
  assumes ok: "ic_ok c"
  shows "\<exists>b c'. ic_alloc c = Some (b, c') \<and> ic_ok c' \<and> ic_keep c c' \<and> ic_inodes c' = ic_inodes c \<and>
     ic_dev c' = ic_dev c \<and>
     (if b = 0 then ic_pool c \<subseteq> ic_used c \<and> ic_used c' = ic_used c
      else b \<in> ic_pool c - ic_used c \<and> ic_used c' = insert b (ic_used c))"
proof -
  have wf: "alloc_wf (ic_balloc c)" using ok by (simp add: ic_ok_def)
  from block_alloc_spec [OF wf] obtain b al where
    a: "block_alloc (ic_balloc c) = Some (b, al)" "alloc_wf al" "alloc_static (ic_balloc c) al"
     "if pool (ic_balloc c) \<subseteq> allocated (ic_balloc c) then b = 0 \<and> al = ic_balloc c
      else b \<in> pool (ic_balloc c) - allocated (ic_balloc c) \<and> (\<forall>x \<in> pool (ic_balloc c) - allocated (ic_balloc c). b \<le> x) \<and>
        allocated al = insert b (allocated (ic_balloc c)) \<and>
        unat (ba_free_blocks (ic_balloc c)) = Suc (unat (ba_free_blocks al))" by blast
  have "if b = 0 then ic_pool c \<subseteq> ic_used c \<and> allocated al = ic_used c
      else b \<in> ic_pool c - ic_used c \<and> allocated al = insert b (ic_used c)"
    using a(4) zero_not_pool [OF wf] by (auto simp: ic_pool_def ic_used_def split: if_splits)
  then show ?thesis using a(1) ic_balloc_ok [OF ok a(2,3)]
    by (auto simp: ic_alloc_def ic_used_def split: if_splits)
qed

lemma ic_free_spec:
  assumes ok: "ic_ok c"
  shows "\<exists>c'. ic_free c b = Some (if b \<in> ic_used c then 0 else - EINVAL, c') \<and> ic_ok c' \<and> ic_keep c c' \<and>
     ic_inodes c' = ic_inodes c \<and> ic_dev c' = ic_dev c \<and> ic_used c' = ic_used c - {b}"
proof -
  have wf: "alloc_wf (ic_balloc c)" using ok by (simp add: ic_ok_def)
  from block_free_spec [OF wf, of b] obtain al where
    a: "block_free (ic_balloc c) b = Some (if b \<in> allocated (ic_balloc c) then 0 else - EINVAL, al)"
      "alloc_wf al" "alloc_static (ic_balloc c) al" "allocated al = allocated (ic_balloc c) - {b}" by blast
  then show ?thesis using ic_balloc_ok [OF ok a(2,3)] by (simp add: ic_free_def ic_used_def)
qed

lemma im_modify_spec:
  assumes ok: "ic_ok c" and a: "ic_inodes c a = Some im"
  shows "\<exists>c'. im_modify c a f = Some c' \<and> ic_ok c' \<and> ic_keep c c' \<and> ic_inodes c' = (ic_inodes c)(a \<mapsto> f im) \<and>
     ic_dev c' = ic_dev c \<and> ic_balloc c' = ic_balloc c"
  using assms by (simp add: im_modify_def ic_ok_def ic_keep_def)

lemma zero_block_spec:
  assumes ok: "ic_ok c" and b: "ucast b < bd_total_blocks (ic_dev c)"
  shows "\<exists>c'. zero_block c b = Some (0, c') \<and> ic_ok c' \<and> ic_keep c c' \<and> ic_inodes c' = ic_inodes c \<and>
     ic_view c' = (ic_view c)(b := replicate BLOCK_SIZE 0) \<and> ic_balloc c' = ic_balloc c"
proof -
  from ic_write_spec [OF ok b, of "replicate BLOCK_SIZE 0"] obtain c' where
    "ic_write c b (replicate BLOCK_SIZE 0) = Some (0, c')" "ic_ok c'" "ic_keep c c'" "ic_inodes c' = ic_inodes c"
    "ic_view c' = (ic_view c)(b := replicate BLOCK_SIZE 0)" "ic_balloc c' = ic_balloc c" by auto
  then show ?thesis using ok by (simp add: zero_block_def ic_ok_def)
qed

section \<open>Lookup\<close>

text \<open>\<open>quiet c c'\<close>: a step that no reader notices.\<close>

definition quiet :: "inode_cache \<Rightarrow> inode_cache \<Rightarrow> bool" where
  "quiet c c' \<longleftrightarrow> ic_ok c' \<and> ic_keep c c' \<and> ic_inodes c' = ic_inodes c \<and> ic_view c' = ic_view c \<and>
     ic_balloc c' = ic_balloc c"

lemma quiet_refl: "ic_ok c \<Longrightarrow> quiet c c"
  by (simp add: quiet_def)

lemma quiet_trans: "quiet c d \<Longrightarrow> quiet d e \<Longrightarrow> quiet c e"
  by (auto simp: quiet_def intro: ic_keep_trans)

lemma quietD:
  assumes "quiet c c'"
  shows "ic_ok c'" "ic_inodes c' = ic_inodes c" "ic_view c' = ic_view c" "ic_used c' = ic_used c"
    "ic_pool c' = ic_pool c" "ic_keep c c'"
  using assms by (auto simp: quiet_def ic_used_def ic_pool_def)

lemma bmap_entry_lookup:
  assumes ok: "ic_ok c" and p: "p \<in> ic_used c"
  shows "\<exists>c'. bmap_entry c a p i False zero = Some (Inr (get_ptr (ic_view c p) i), c') \<and> quiet c c'"
proof -
  have "ucast p < bd_total_blocks (ic_dev c)" using ok p used_pool by (blast intro: pool_bound)
  from ic_read_spec [OF ok this] obtain c' where
    "ic_read c p = Some (Inr (ic_view c p), c')" "quiet c c'" by (auto simp: quiet_def)
  then show ?thesis using ok by (simp add: bmap_entry_def ic_ok_def)
qed

text \<open>The file block an offset belongs to, and when 32 bits hold it.\<close>

definition file_index :: "u64 \<Rightarrow> nat" where
  "file_index offset = unat offset div 4096"

lemma block_idx:
  assumes "file_index offset < 2 ^ 32"
  shows "unat (ucast (offset div 4096) :: u32) = file_index offset"
  using assms by (simp add: file_index_def unsigned_ucast_eq take_bit_nat_eq_self_iff unat_div)

lemma block_idx_cases:
  assumes lt: "file_index offset < 1049612"
  defines "x \<equiv> ucast (offset div 4096) :: u32" and "i \<equiv> file_index offset"
  shows "x < 12 \<longleftrightarrow> i < 12" "unat x = i"
    "12 \<le> i \<Longrightarrow> x - 12 < 1024 \<longleftrightarrow> i < 1036" "12 \<le> i \<Longrightarrow> unat (x - 12) = i - 12"
    "1036 \<le> i \<Longrightarrow> x - 12 - 1024 < 1024 * 1024" "1036 \<le> i \<Longrightarrow> unat ((x - 12 - 1024) div 1024) = (i - 1036) div 1024"
    "1036 \<le> i \<Longrightarrow> unat ((x - 12 - 1024) mod 1024) = (i - 1036) mod 1024"
proof -
  show x: "unat x = i" unfolding x_def i_def using lt by (intro block_idx) simp
  then show "x < 12 \<longleftrightarrow> i < 12" by (simp add: word_less_nat_alt)
  show m: "unat (x - 12) = i - 12" if "12 \<le> i" using that x by (subst unat_sub) (simp_all add: word_le_nat_alt)
  then show "x - 12 < 1024 \<longleftrightarrow> i < 1036" if "12 \<le> i" using that by (simp add: word_less_nat_alt) linarith
  have m2: "unat (x - 12 - 1024) = i - 1036" if "1036 \<le> i"
    using that m by (subst unat_sub) (simp_all add: word_le_nat_alt)
  show "x - 12 - 1024 < 1024 * 1024" if "1036 \<le> i" using m2 [OF that] lt that by (simp add: word_less_nat_alt i_def)
  show "unat ((x - 12 - 1024) div 1024) = (i - 1036) div 1024" if "1036 \<le> i" using m2 [OF that] by (simp add: unat_div)
  show "unat ((x - 12 - 1024) mod 1024) = (i - 1036) mod 1024" if "1036 \<le> i" using m2 [OF that] by (simp add: unat_mod)
qed

lemma inode_bmap_lookup:
  assumes ok: "ic_ok c" and a: "ic_inodes c a = Some im" and t: "tree_ok (im_disk im) (ic_view c) (ic_used c)"
    and i: "file_index offset < 1049612"
  shows "\<exists>c'. inode_bmap c a offset False = Some (Inr (file_block (im_disk im) (ic_view c) (file_index offset)), c') \<and>
     quiet c c'"
proof -
  let ?di = "im_disk im" and ?v = "ic_view c" and ?i = "file_index offset"
  note X = block_idx_cases [OF i]
  consider (direct) "?i < 12" | (indirect) "12 \<le> ?i" "?i < 1036" | (double) "1036 \<le> ?i" by linarith
  then show ?thesis
  proof cases
    case direct
    then have "inode_bmap c a offset False = Some (Inr (file_block ?di ?v ?i), c)"
      using X(1,2) a by (simp add: inode_bmap_def Let_def bmap_direct_def file_block_def)
    then show ?thesis using quiet_refl [OF ok] by blast
  next
    case indirect
    have b: "inode_bmap c a offset False = do {
          (r, c) \<leftarrow> bmap_root c a di_indirect (\<lambda>p d. d\<lparr>di_indirect := p\<rparr>) False;
          (case r of
             Inl e \<Rightarrow> Some (Inl e, c)
           | Inr p \<Rightarrow> if p = 0 then Some (Inr 0, c) else bmap_entry c a p (?i - 12) False False) }"
      unfolding inode_bmap_def Let_def X(4) [OF indirect(1)] using indirect X(1,3) by simp
    show ?thesis
    proof (cases "di_indirect ?di = 0")
      case True
      then show ?thesis using a indirect quiet_refl [OF ok]
        unfolding b by (simp add: bmap_root_def file_block_def)
    next
      case False
      then have "di_indirect ?di \<in> ic_used c" using tree_okD(3) [OF t, of NI] by simp
      from bmap_entry_lookup [OF ok this] show ?thesis
        using a indirect False unfolding b by (simp add: bmap_root_def file_block_def)
    qed
  next
    case double
    let ?j = "(?i - 1036) div 1024" and ?k = "(?i - 1036) mod 1024"
    have b: "inode_bmap c a offset False = do {
          (r, c) \<leftarrow> bmap_root c a di_double_indirect (\<lambda>p d. d\<lparr>di_double_indirect := p\<rparr>) False;
          (case r of
             Inl e \<Rightarrow> Some (Inl e, c)
           | Inr p \<Rightarrow> if p = 0 then Some (Inr 0, c)
               else do {
                 (r, c) \<leftarrow> bmap_entry c a p ?j False True;
                 (case r of
                    Inl e \<Rightarrow> Some (Inl e, c)
                  | Inr q \<Rightarrow> if q = 0 then Some (Inr 0, c) else bmap_entry c a q ?k False False) }) }"
      unfolding inode_bmap_def Let_def X(6) [OF double] X(7) [OF double] using double X(1,3,5) by simp
    have fb: "file_block ?di ?v ?i = (let p = l1_ptr ?di ?v ?j in if p = 0 then 0 else get_ptr (?v p) ?k)"
      using double i by (simp add: file_block_def)
    show ?thesis
    proof (cases "di_double_indirect ?di = 0")
      case True
      then show ?thesis using a quiet_refl [OF ok]
        unfolding b fb by (simp add: bmap_root_def l1_ptr_def)
    next
      case False
      then have d: "di_double_indirect ?di \<in> ic_used c" using tree_okD(3) [OF t, of ND] by simp
      have "?j < 1024" using i by (simp add: less_mult_imp_div_less)
      then have l1: "get_ptr (?v (di_double_indirect ?di)) ?j = l1_ptr ?di ?v ?j" using False by (simp add: l1_ptr_def)
      from bmap_entry_lookup [OF ok d, of a ?j True] obtain c1 where
        c1: "bmap_entry c a (di_double_indirect ?di) ?j False True = Some (Inr (l1_ptr ?di ?v ?j), c1)" "quiet c c1"
        unfolding l1 by blast
      show ?thesis
      proof (cases "l1_ptr ?di ?v ?j = 0")
        case True
        then show ?thesis using a False c1 unfolding b fb by (simp add: bmap_root_def)
      next
        case l: False
        then have "l1_ptr ?di ?v ?j \<in> ic_used c1" using tree_okD(3) [OF t, of "NL ?j"] quietD(4) [OF c1(2)] by simp
        from bmap_entry_lookup [OF quietD(1) [OF c1(2)] this, of a ?k False] obtain c2 where
          "bmap_entry c1 a (l1_ptr ?di ?v ?j) ?k False False = Some (Inr (get_ptr (?v (l1_ptr ?di ?v ?j)) ?k), c2)"
          "quiet c1 c2" using quietD(3) [OF c1(2)] by auto
        then show ?thesis using a False c1 l quiet_trans unfolding b fb by (auto simp: bmap_root_def)
      qed
    qed
  qed
qed

end
