(* ===== verification/Inode_Grow.thy ===== *)
theory Inode_Grow
  imports Inode_Bmap
begin

text \<open>
  The allocating calls of \<open>inode_bmap\<close>.  \<open>grows c a c'\<close> is what they may do: the file of inode
  \<open>a\<close> keeps a well-formed tree, only its pointer blocks change, and new ones come from free blocks.
\<close>

section \<open>What an allocating call may do\<close>

definition same_file :: "inode_mem \<Rightarrow> inode_mem \<Rightarrow> bool" where
  "same_file im im' \<longleftrightarrow> im' = im\<lparr>im_disk := im_disk im', im_dirty := im_dirty im'\<rparr> \<and> (im' = im \<or> im_dirty im') \<and>
     im_disk im' = (im_disk im)\<lparr>di_direct := di_direct (im_disk im'), di_indirect := di_indirect (im_disk im'),
       di_double_indirect := di_double_indirect (im_disk im'), di_blocks := di_blocks (im_disk im')\<rparr>"

lemma same_file_refl [simp]: "same_file im im"
  by (simp add: same_file_def)

lemma same_file_trans:
  assumes "same_file x y" "same_file y z"
  shows "same_file x z"
proof -
  have "z = y\<lparr>im_disk := im_disk z, im_dirty := im_dirty z\<rparr>" "y = x\<lparr>im_disk := im_disk y, im_dirty := im_dirty y\<rparr>"
    using assms by (auto simp: same_file_def)
  then have 1: "z = x\<lparr>im_disk := im_disk z, im_dirty := im_dirty z\<rparr>"
    by (cases x; cases y; cases z) simp
  have "im_disk z = (im_disk y)\<lparr>di_direct := di_direct (im_disk z), di_indirect := di_indirect (im_disk z),
       di_double_indirect := di_double_indirect (im_disk z), di_blocks := di_blocks (im_disk z)\<rparr>"
    "im_disk y = (im_disk x)\<lparr>di_direct := di_direct (im_disk y), di_indirect := di_indirect (im_disk y),
       di_double_indirect := di_double_indirect (im_disk y), di_blocks := di_blocks (im_disk y)\<rparr>"
    using assms by (auto simp: same_file_def)
  then have "im_disk z = (im_disk x)\<lparr>di_direct := di_direct (im_disk z), di_indirect := di_indirect (im_disk z),
       di_double_indirect := di_double_indirect (im_disk z), di_blocks := di_blocks (im_disk z)\<rparr>"
    by (cases "im_disk x"; cases "im_disk y"; cases "im_disk z") simp
  with 1 show ?thesis using assms by (auto simp: same_file_def)
qed

lemma same_fileD:
  assumes "same_file im im'"
  shows "di_size (im_disk im') = di_size (im_disk im)" "di_type (im_disk im') = di_type (im_disk im)"
    "im_inum im' = im_inum im" "im_ref_count im' = im_ref_count im" "im_valid im' = im_valid im"
    "im_hash_next im' = im_hash_next im" "im_next im' = im_next im" "im_prev im' = im_prev im"
  using assms by (cases im; cases im'; cases "im_disk im"; cases "im_disk im'"; simp add: same_file_def)+

text \<open>The tree of inode \<open>a\<close>.\<close>

definition nodes_at :: "inode_cache \<Rightarrow> addr \<Rightarrow> node \<Rightarrow> block_t" where
  "nodes_at c a = nodes (im_disk (the (ic_inodes c a))) (ic_view c)"

definition ptrs_at :: "inode_cache \<Rightarrow> addr \<Rightarrow> block_t set" where
  "ptrs_at c a = pointer_blocks (im_disk (the (ic_inodes c a))) (ic_view c)"

definition tree_at :: "inode_cache \<Rightarrow> addr \<Rightarrow> bool" where
  "tree_at c a \<longleftrightarrow> ic_inodes c a \<noteq> None \<and> tree_ok (im_disk (the (ic_inodes c a))) (ic_view c) (ic_used c)"

lemma tree_at_used: "tree_at c a \<Longrightarrow> nodes_at c a n \<noteq> 0 \<Longrightarrow> nodes_at c a n \<in> ic_used c"
  unfolding tree_at_def nodes_at_def by (blast dest: tree_okD(3))

definition grows :: "inode_cache \<Rightarrow> addr \<Rightarrow> inode_cache \<Rightarrow> bool" where
  "grows c a c' \<longleftrightarrow> ic_ok c' \<and> ic_keep c c' \<and> tree_at c' a \<and>
     (\<exists>im'. ic_inodes c' = (ic_inodes c)(a \<mapsto> im') \<and> same_file (the (ic_inodes c a)) im') \<and>
     ic_used c \<subseteq> ic_used c' \<and> ptrs_at c a \<subseteq> ptrs_at c' a \<and>
     ptrs_at c' a \<subseteq> ptrs_at c a \<union> (ic_pool c - ic_used c) \<and>
     (\<forall>x. x \<notin> ptrs_at c' a \<longrightarrow> ic_view c' x = ic_view c x)"

lemma growsD:
  assumes "grows c a c'"
  shows "ic_ok c'" "ic_keep c c'" "tree_at c' a" "ic_used c \<subseteq> ic_used c'" "ptrs_at c a \<subseteq> ptrs_at c' a"
    "ptrs_at c' a \<subseteq> ptrs_at c a \<union> (ic_pool c - ic_used c)" "x \<notin> ptrs_at c' a \<Longrightarrow> ic_view c' x = ic_view c x"
    "ic_pool c' = ic_pool c" "bd_total_blocks (ic_dev c') = bd_total_blocks (ic_dev c)"
    "\<exists>im'. ic_inodes c' = (ic_inodes c)(a \<mapsto> im') \<and> same_file (the (ic_inodes c a)) im'"
  using assms ic_keep_fields [of c c'] by (auto simp: grows_def)

lemma grows_refl: "ic_ok c \<Longrightarrow> tree_at c a \<Longrightarrow> grows c a c"
  by (auto simp: grows_def tree_at_def intro!: exI [of _ "the (ic_inodes c a)"])

lemma grows_trans:
  assumes "grows c a d" "grows d a e"
  shows "grows c a e"
proof -
  note C = growsD [OF assms(1)] and D = growsD [OF assms(2)]
  obtain im1 im2 where "ic_inodes d = (ic_inodes c)(a \<mapsto> im1)" "same_file (the (ic_inodes c a)) im1"
    "ic_inodes e = (ic_inodes d)(a \<mapsto> im2)" "same_file (the (ic_inodes d a)) im2" using C(10) D(10) by blast
  then have "ic_inodes e = (ic_inodes c)(a \<mapsto> im2)" "same_file (the (ic_inodes c a)) im2"
    by (auto intro: same_file_trans)
  moreover have "ptrs_at e a \<subseteq> ptrs_at c a \<union> (ic_pool c - ic_used c)" using C(4,6,8) D(6) by blast
  moreover have "ic_view e x = ic_view c x" if "x \<notin> ptrs_at e a" for x
  proof -
    have "x \<notin> ptrs_at d a" using that D(5) by blast
    then show ?thesis using D(7) [OF that] C(7) by simp
  qed
  ultimately show ?thesis
    unfolding grows_def using C(2,4,5) D(1-5) by (blast intro: ic_keep_trans)
qed

lemma grows_quiet:
  assumes "quiet c c'" "tree_at c a"
  shows "grows c a c'" "tree_at c' a" "nodes_at c' a = nodes_at c a" "ptrs_at c' a = ptrs_at c a"
proof -
  note Q = quietD [OF assms(1)]
  show n: "nodes_at c' a = nodes_at c a" "ptrs_at c' a = ptrs_at c a" "tree_at c' a"
    using Q assms(2) by (simp_all add: nodes_at_def ptrs_at_def tree_at_def)
  show "grows c a c'"
    using Q assms(2) n by (auto simp: grows_def tree_at_def intro!: exI [of _ "the (ic_inodes c a)"])
qed

lemma ptrs_nodes:
  "x \<in> ptrs_at c a \<longleftrightarrow> x \<noteq> 0 \<and> (x = nodes_at c a NI \<or> x = nodes_at c a ND \<or> (\<exists>j. x = nodes_at c a (NL j)))"
  unfolding ptrs_at_def nodes_at_def by (rule pointer_blocks_nodes)

fun is_pointer :: "node \<Rightarrow> bool" where
  "is_pointer (NB i) = False"
| "is_pointer n = True"

lemma ptrs_upd:
  assumes "nodes_at c' a = (nodes_at c a)(n := b)" "nodes_at c a n = 0" "b \<noteq> 0"
  shows "ptrs_at c' a = ptrs_at c a \<union> (if is_pointer n then {b} else {})"
proof -
  have "x \<in> ptrs_at c' a \<longleftrightarrow> x \<in> ptrs_at c a \<or> (is_pointer n \<and> x = b)" for x
    unfolding ptrs_nodes assms(1) using assms(2,3) by (cases n) (auto split: if_splits; metis)+
  then show ?thesis by auto
qed

text \<open>One new node on a fresh block.\<close>

lemma grow_step:
  assumes t: "tree_at c a" and ok: "ic_ok c'" and k: "ic_keep c c'"
    and i: "ic_inodes c' = (ic_inodes c)(a \<mapsto> im')" "same_file (the (ic_inodes c a)) im'"
      "length (di_direct (im_disk im')) = 12"
    and b: "b \<in> ic_pool c - ic_used c" "b \<noteq> 0" "ic_used c' = insert b (ic_used c)"
    and n: "nodes_at c' a = (nodes_at c a)(n := b)" "nodes_at c a n = 0"
    and v: "\<And>x. x \<notin> ptrs_at c a \<Longrightarrow> is_pointer n \<longrightarrow> x \<noteq> b \<Longrightarrow> ic_view c' x = ic_view c x"
  shows "grows c a c'"
proof -
  have p: "ptrs_at c' a = ptrs_at c a \<union> (if is_pointer n then {b} else {})"
    using n b(2) by (rule ptrs_upd)
  have "tree_ok (im_disk im') (ic_view c') (insert b (ic_used c))"
  proof (rule tree_ok_grow [of "im_disk (the (ic_inodes c a))" "ic_view c" "ic_used c" _ _ n])
    show "nodes (im_disk im') (ic_view c') = (nodes (im_disk (the (ic_inodes c a))) (ic_view c))(n := b)"
      using n(1) i(1) by (simp add: nodes_at_def)
  qed (use t n(2) b i(3) ic_view_length [OF ok] in \<open>auto simp: tree_at_def nodes_at_def\<close>)
  then have "tree_at c' a" using i(1) b(3) by (simp add: tree_at_def)
  moreover have "ic_view c' x = ic_view c x" if "x \<notin> ptrs_at c' a" for x
    using that p v by (auto split: if_splits)
  ultimately show ?thesis using ok k i(1,2) b p unfolding grows_def by (auto split: if_splits)
qed

section \<open>The three kinds of step\<close>

text \<open>What a step that wants node \<open>n\<close> returns.\<close>

definition step_result :: "inode_cache \<Rightarrow> addr \<Rightarrow> node \<Rightarrow> ((int + block_t) \<times> inode_cache) option \<Rightarrow> bool" where
  "step_result c a n res \<longleftrightarrow> (\<exists>r c'. res = Some (r, c') \<and> grows c a c' \<and>
     (case r of
        Inl e \<Rightarrow> e = MODERNFS_ENOSPC \<and> nodes_at c' a = nodes_at c a \<and> ic_pool c \<subseteq> ic_used c'
      | Inr p \<Rightarrow> p \<noteq> 0 \<and> p \<in> ic_used c' \<and> nodes_at c' a = (nodes_at c a)(n := p) \<and>
          (if nodes_at c a n = 0 then p \<in> ic_pool c - ic_used c else p = nodes_at c a n)))"

lemma step_result_old:
  assumes "quiet c c'" "tree_at c a" "nodes_at c a n = p" "p \<noteq> 0"
  shows "step_result c a n (Some (Inr p, c'))"
proof -
  note G = grows_quiet [OF assms(1,2)]
  have "p \<in> ic_used c'" using tree_at_used [OF G(2), of n] assms(3,4) G(3) by simp
  then show ?thesis using G assms(3,4) by (auto simp: step_result_def)
qed

lemma step_result_full:
  assumes "grows c a c'" "nodes_at c' a = nodes_at c a" "ic_pool c \<subseteq> ic_used c'"
  shows "step_result c a n (Some (Inl MODERNFS_ENOSPC, c'))"
  using assms by (simp add: step_result_def)

text \<open>The allocator is the first thing every step asks when the node is missing.\<close>

lemma ic_alloc_cases:
  assumes ok: "ic_ok c" and t: "tree_at c a"
  obtains (full) c' where "ic_alloc c = Some (0, c')" "grows c a c'" "nodes_at c' a = nodes_at c a" "ic_pool c \<subseteq> ic_used c'"
  | (new) b c' where "ic_alloc c = Some (b, c')" "b \<noteq> 0" "b \<in> ic_pool c - ic_used c" "ic_ok c'" "ic_keep c c'"
      "ic_inodes c' = ic_inodes c" "ic_view c' = ic_view c" "ic_used c' = insert b (ic_used c)"
proof -
  from ic_alloc_spec [OF ok] obtain b c' where
    s: "ic_alloc c = Some (b, c')" "ic_ok c'" "ic_keep c c'" "ic_inodes c' = ic_inodes c" "ic_dev c' = ic_dev c"
      "if b = 0 then ic_pool c \<subseteq> ic_used c \<and> ic_used c' = ic_used c
       else b \<in> ic_pool c - ic_used c \<and> ic_used c' = insert b (ic_used c)" by blast
  have v: "ic_view c' = ic_view c" using s(5) by (simp add: ic_view_def)
  show ?thesis
  proof (cases "b = 0")
    case True
    with s(6) have u: "ic_pool c \<subseteq> ic_used c" "ic_used c' = ic_used c" by auto
    have n: "nodes_at c' a = nodes_at c a" "ptrs_at c' a = ptrs_at c a" "tree_at c' a"
      using s(4) v u t by (simp_all add: nodes_at_def ptrs_at_def tree_at_def)
    have "grows c a c'"
      using s v u n t by (auto simp: grows_def tree_at_def intro!: exI [of _ "the (ic_inodes c a)"])
    then show ?thesis using full s(1) True n u by simp
  next
    case False
    then show ?thesis using new s v by auto
  qed
qed

lemma bmap_direct_grows:
  assumes ok: "ic_ok c" and t: "tree_at c a" and i: "i < 12"
  shows "step_result c a (NB i) (bmap_direct c a i True)"
proof -
  obtain im where im: "ic_inodes c a = Some im" "tree_ok (im_disk im) (ic_view c) (ic_used c)"
    using t by (auto simp: tree_at_def)
  let ?p = "di_direct (im_disk im) ! i"
  have n: "nodes_at c a (NB i) = ?p" using i im(1) by (simp add: nodes_at_def file_block_def)
  show ?thesis
  proof (cases "?p = 0")
    case False
    then show ?thesis using step_result_old [OF quiet_refl [OF ok] t n] im(1) by (simp add: bmap_direct_def Let_def)
  next
    case True
    from ok t show ?thesis
    proof (cases rule: ic_alloc_cases)
      case (full c')
      then show ?thesis using step_result_full [OF full(2-4)] True im(1) by (simp add: bmap_direct_def Let_def)
    next
      case (new b c1)
      let ?f = "im_grow (\<lambda>d. d\<lparr>di_direct := (di_direct d)[i := b]\<rparr>)"
      have im1: "ic_inodes c1 a = Some im" using new(6) im(1) by simp
      from im_modify_spec [OF new(4) im1, of ?f] obtain c2 where
        c2: "im_modify c1 a ?f = Some c2" "ic_ok c2" "ic_keep c1 c2" "ic_inodes c2 = (ic_inodes c1)(a \<mapsto> ?f im)"
          "ic_dev c2 = ic_dev c1" "ic_balloc c2 = ic_balloc c1" by blast
      have u: "ic_used c2 = insert b (ic_used c)" "ic_view c2 = ic_view c"
        using c2(5,6) new(7,8) by (auto simp: ic_used_def ic_view_def)
      have len: "length (di_direct (im_disk im)) = 12" using im(2) by (rule tree_okD)
      have n2: "nodes_at c2 a = (nodes_at c a)(NB i := b)"
        using nodes_direct [OF len i, where b = b and n = "di_blocks (im_disk im) + 1" and v = "ic_view c"]
          c2(4) u(2) im(1)
        by (simp add: nodes_at_def im_grow_def)
      have "grows c a c2"
        by (rule grow_step [where im' = "?f im", OF t c2(2) ic_keep_trans [OF new(5) c2(3)] _ _ _ new(3,2) u(1) n2])
           (use c2(4) new(6) im(1) len n True u(2) in \<open>auto simp: same_file_def im_grow_def\<close>)
      moreover have "bmap_direct c a i True = Some (Inr b, c2)"
        using True im(1) new(1,2) c2(1) by (simp add: bmap_direct_def Let_def)
      ultimately show ?thesis using new(2,3) u(1) n2 n True by (auto simp: step_result_def)
    qed
  qed
qed

text \<open>A missing root pointer: allocated, stored in the inode, and its block zeroed.\<close>

lemma bmap_root_grows:
  assumes ok: "ic_ok c" and t: "tree_at c a" and N: "is_pointer N"
    and g: "\<And>di v. getp di = nodes di v N"
    and s: "\<And>b im. same_file im (im_grow (setp b) im)"
    and d: "\<And>b di. di_direct (setp b di) = di_direct di"
    and n: "\<And>di v U b k. tree_ok di v U \<Longrightarrow> b \<notin> U \<Longrightarrow> getp di = 0 \<Longrightarrow>
       nodes ((setp b di)\<lparr>di_blocks := k\<rparr>) (v(b := replicate 4096 0)) = (nodes di v)(N := b)"
  shows "step_result c a N (bmap_root c a getp setp True)"
proof -
  obtain im where im: "ic_inodes c a = Some im" "tree_ok (im_disk im) (ic_view c) (ic_used c)"
    using t by (auto simp: tree_at_def)
  have nd: "nodes_at c a N = getp (im_disk im)" using im(1) g by (simp add: nodes_at_def)
  show ?thesis
  proof (cases "getp (im_disk im) = 0")
    case False
    then show ?thesis using step_result_old [OF quiet_refl [OF ok] t nd] im(1) by (simp add: bmap_root_def)
  next
    case True
    from ok t show ?thesis
    proof (cases rule: ic_alloc_cases)
      case (full c')
      then show ?thesis using step_result_full [OF full(2-4)] True im(1) by (simp add: bmap_root_def)
    next
      case (new b c1)
      let ?f = "im_grow (setp b)"
      have im1: "ic_inodes c1 a = Some im" using new(6) im(1) by simp
      from im_modify_spec [OF new(4) im1, of ?f] obtain c2 where
        c2: "im_modify c1 a ?f = Some c2" "ic_ok c2" "ic_keep c1 c2" "ic_inodes c2 = (ic_inodes c1)(a \<mapsto> ?f im)"
          "ic_dev c2 = ic_dev c1" "ic_balloc c2 = ic_balloc c1" by blast
      have "b \<in> ic_pool c2"
        using new(3) ic_keep_fields(10) [OF new(5)] ic_keep_fields(10) [OF c2(3)] by simp
      then have bd: "ucast b < bd_total_blocks (ic_dev c2)" by (rule pool_bound [OF c2(2)])
      from zero_block_spec [OF c2(2) bd] obtain c3 where
        c3: "zero_block c2 b = Some (0, c3)" "ic_ok c3" "ic_keep c2 c3" "ic_inodes c3 = ic_inodes c2"
          "ic_view c3 = (ic_view c2)(b := replicate BLOCK_SIZE 0)" "ic_balloc c3 = ic_balloc c2" by blast
      have u: "ic_used c3 = insert b (ic_used c)" "ic_view c3 = (ic_view c)(b := replicate BLOCK_SIZE 0)"
        using c2(5,6) c3(5,6) new(7,8) by (auto simp: ic_used_def ic_view_def)
      have bU: "b \<notin> ic_used c" using new(3) by simp
      have n3: "nodes_at c3 a = (nodes_at c a)(N := b)"
        using n [OF im(2) bU True] c3(4) c2(4) u(2) im(1) by (simp add: nodes_at_def im_grow_def)
      have kp: "ic_keep c c3" using new(5) c2(3) c3(3) by (blast intro: ic_keep_trans)
      have len: "length (di_direct (im_disk im)) = 12" using im(2) by (rule tree_okD)
      have "grows c a c3"
      proof (rule grow_step [where im' = "?f im", OF t c3(2) kp _ _ _ new(3,2) u(1) n3])
        show "ic_inodes c3 = (ic_inodes c)(a \<mapsto> ?f im)" using c3(4) c2(4) new(6) by simp
        show "same_file (the (ic_inodes c a)) (?f im)" using s im(1) by simp
        show "length (di_direct (im_disk (?f im))) = 12" using len d by (simp add: im_grow_def)
        show "nodes_at c a N = 0" using nd True by simp
        show "ic_view c3 x = ic_view c x" if "x \<notin> ptrs_at c a" "is_pointer N \<longrightarrow> x \<noteq> b" for x
          using that N u(2) by simp
      qed
      moreover have "bmap_root c a getp setp True = Some (Inr b, c3)"
        using True im(1) new(1,2) c2(1) c3(1) by (simp add: bmap_root_def)
      ultimately show ?thesis using new(2,3) u(1) n3 nd True by (auto simp: step_result_def)
    qed
  qed
qed

lemma bmap_indirect_grows:
  assumes "ic_ok c" "tree_at c a"
  shows "step_result c a NI (bmap_root c a di_indirect (\<lambda>p d. d\<lparr>di_indirect := p\<rparr>) True)"
  using assms by (rule bmap_root_grows) (simp_all add: nodes_indirect same_file_def im_grow_def)

lemma bmap_double_indirect_grows:
  assumes "ic_ok c" "tree_at c a"
  shows "step_result c a ND (bmap_root c a di_double_indirect (\<lambda>p d. d\<lparr>di_double_indirect := p\<rparr>) True)"
  using assms by (rule bmap_root_grows) (simp_all add: nodes_double_indirect same_file_def im_grow_def)

text \<open>An entry of a pointer block.\<close>

lemma bmap_entry_grows:
  assumes ok: "ic_ok c" and t: "tree_at c a" and p: "p \<in> ptrs_at c a" "p \<in> ic_used c" and k: "k < 1024"
    and g: "nodes_at c a N = get_ptr (ic_view c p) k" and z: "zero = is_pointer N"
    and n: "\<And>b m. b \<notin> ic_used c \<Longrightarrow> nodes_at c a N = 0 \<Longrightarrow>
       nodes ((im_disk (the (ic_inodes c a)))\<lparr>di_blocks := m\<rparr>)
         (if zero then (ic_view c)(p := set_ptr (ic_view c p) k b, b := replicate 4096 0)
          else (ic_view c)(p := set_ptr (ic_view c p) k b)) = (nodes_at c a)(N := b)"
  shows "step_result c a N (bmap_entry c a p k True zero)"
proof -
  obtain im where im: "ic_inodes c a = Some im" "tree_ok (im_disk im) (ic_view c) (ic_used c)"
    using t by (auto simp: tree_at_def)
  have oom: "\<not> ic_oom c" using ok by (simp add: ic_ok_def)
  have pb: "ucast p < bd_total_blocks (ic_dev c)" using ok p used_pool by (blast intro: pool_bound)
  from ic_read_spec [OF ok pb] obtain c0 where
    r: "ic_read c p = Some (Inr (ic_view c p), c0)" and q: "quiet c c0" by (auto simp: quiet_def)
  note Q = quietD [OF q] and G = grows_quiet [OF q t]
  show ?thesis
  proof (cases "get_ptr (ic_view c p) k = 0")
    case False
    then show ?thesis using step_result_old [OF q t g] r oom by (simp add: bmap_entry_def)
  next
    case True
    then have nd: "nodes_at c a N = 0" using g by simp
    from Q(1) G(2) show ?thesis
    proof (cases rule: ic_alloc_cases)
      case (full c')
      then have "grows c a c'" "nodes_at c' a = nodes_at c a" "ic_pool c \<subseteq> ic_used c'"
        using G(1,3) Q(5) by (auto intro: grows_trans)
      from step_result_full [OF this] show ?thesis using full(1) True r oom by (simp add: bmap_entry_def)
    next
      case (new b c1)
      let ?buf = "set_ptr (ic_view c p) k b"
      have lb: "length ?buf = BLOCK_SIZE" using ic_view_length [OF ok] k by (simp add: length_set_ptr)
      have kp1: "ic_keep c c1" using Q(6) new(5) by (rule ic_keep_trans)
      have pb1: "ucast p < bd_total_blocks (ic_dev c1)" using pb ic_keep_fields(11) [OF kp1] by simp
      from ic_write_spec [OF new(4) pb1 lb] obtain c2 where
        c2: "ic_write c1 p ?buf = Some (0, c2)" "ic_ok c2" "ic_keep c1 c2" "ic_inodes c2 = ic_inodes c1"
          "ic_view c2 = (ic_view c1)(p := ?buf)" "ic_balloc c2 = ic_balloc c1" by blast
      have im2: "ic_inodes c2 a = Some im" using c2(4) new(6) Q(2) im(1) by simp
      from im_modify_spec [OF c2(2) im2, of "im_grow id"] obtain c3 where
        c3: "im_modify c2 a (im_grow id) = Some c3" "ic_ok c3" "ic_keep c2 c3"
          "ic_inodes c3 = (ic_inodes c2)(a \<mapsto> im_grow id im)" "ic_dev c3 = ic_dev c2" "ic_balloc c3 = ic_balloc c2" by blast
      have kp3: "ic_keep c c3" using kp1 c2(3) c3(3) by (blast intro: ic_keep_trans)
      have bn: "b \<in> ic_pool c - ic_used c" using new(3) Q(4,5) by simp
      then have "b \<in> ic_pool c3" using ic_keep_fields(10) [OF kp3] by simp
      then have bd: "ucast b < bd_total_blocks (ic_dev c3)" by (rule pool_bound [OF c3(2)])
      have v3: "ic_view c3 = (ic_view c)(p := ?buf)" using c2(5) c3(5) new(7) Q(3) by (simp add: ic_view_def)
      have u3: "ic_used c3 = insert b (ic_used c)" using c2(6) c3(6) new(8) Q(4) by (simp add: ic_used_def)
      have "\<exists>c4. (if zero then zero_block c3 b else Some (0, c3)) = Some (0, c4) \<and> ic_ok c4 \<and> ic_keep c3 c4 \<and>
          ic_inodes c4 = ic_inodes c3 \<and> ic_used c4 = ic_used c3 \<and>
          ic_view c4 = (if zero then (ic_view c3)(b := replicate 4096 0) else ic_view c3)"
        using zero_block_spec [OF c3(2) bd] c3(2) by (auto simp: ic_used_def)
      then obtain c4 where c4: "(if zero then zero_block c3 b else Some (0, c3)) = Some (0, c4)" "ic_ok c4" "ic_keep c3 c4"
          "ic_inodes c4 = ic_inodes c3" "ic_used c4 = ic_used c3"
          "ic_view c4 = (if zero then (ic_view c3)(b := replicate 4096 0) else ic_view c3)" by blast
      have v4: "ic_view c4 = (if zero then (ic_view c)(p := ?buf, b := replicate 4096 0) else (ic_view c)(p := ?buf))"
        using c4(6) v3 by simp
      have bU: "b \<notin> ic_used c" using bn by simp
      have i4: "ic_inodes c4 = (ic_inodes c)(a \<mapsto> im_grow id im)" using c4(4) c3(4) c2(4) new(6) Q(2) by simp
      have n4: "nodes_at c4 a = (nodes_at c a)(N := b)"
        using n [OF bU nd] i4 v4 im(1) by (simp add: nodes_at_def im_grow_def)
      have len: "length (di_direct (im_disk im)) = 12" using im(2) by (rule tree_okD)
      have kp4: "ic_keep c c4" using kp3 c4(3) by (rule ic_keep_trans)
      have u4: "ic_used c4 = insert b (ic_used c)" using u3 c4(5) by simp
      have "grows c a c4"
      proof (rule grow_step [where im' = "im_grow id im", OF t c4(2) kp4 i4 _ _ bn new(2) u4 n4 nd])
        show "same_file (the (ic_inodes c a)) (im_grow id im)" using im(1) by (simp add: same_file_def im_grow_def)
        show "length (di_direct (im_disk (im_grow id im))) = 12" using len by (simp add: im_grow_def)
        show "ic_view c4 x = ic_view c x" if "x \<notin> ptrs_at c a" "is_pointer N \<longrightarrow> x \<noteq> b" for x
          using that p(1) z v4 by (auto split: if_splits)
      qed
      moreover have "bmap_entry c a p k True zero = Some (Inr b, c4)"
        using True r oom new(1,2) c2(1) c3(1) c4(1) by (simp add: bmap_entry_def)
      ultimately show ?thesis using new(2) bn u4 n4 nd by (auto simp: step_result_def)
    qed
  qed
qed

end
