(* ===== verification/Inode_Extend.thy ===== *)
theory Inode_Extend
  imports Inode_Grow
begin

text \<open>
  The allocating call of \<open>inode_bmap\<close> as a whole: the steps of \<open>Inode_Grow\<close> composed along the
  direct, indirect and double-indirect paths.
\<close>

section \<open>The result of an allocating call\<close>

definition bmap_result ::
  "inode_cache \<Rightarrow> addr \<Rightarrow> nat \<Rightarrow> ((int + block_t) \<times> inode_cache) option \<Rightarrow> bool" where
  "bmap_result c a i res \<longleftrightarrow> (\<exists>r c'. res = Some (r, c') \<and> grows c a c' \<and>
     (case r of
        Inl e \<Rightarrow> e = MODERNFS_ENOSPC \<and> (\<forall>j. nodes_at c' a (NB j) = nodes_at c a (NB j)) \<and> ic_pool c \<subseteq> ic_used c'
      | Inr p \<Rightarrow> p \<noteq> 0 \<and> p \<in> ic_used c' \<and> nodes_at c' a (NB i) = p \<and>
          (\<forall>j. j \<noteq> i \<longrightarrow> nodes_at c' a (NB j) = nodes_at c a (NB j)) \<and>
          (if nodes_at c a (NB i) = 0 then p \<in> ic_pool c - ic_used c else p = nodes_at c a (NB i))))"

lemma step_bmap_result:
  assumes g: "grows c a c1" and same: "\<And>j. nodes_at c1 a (NB j) = nodes_at c a (NB j)"
    and s: "step_result c1 a (NB i) res"
  shows "bmap_result c a i res"
proof -
  from s obtain r c' where r: "res = Some (r, c')" "grows c1 a c'"
    "case r of
        Inl e \<Rightarrow> e = MODERNFS_ENOSPC \<and> nodes_at c' a = nodes_at c1 a \<and> ic_pool c1 \<subseteq> ic_used c'
      | Inr p \<Rightarrow> p \<noteq> 0 \<and> p \<in> ic_used c' \<and> nodes_at c' a = (nodes_at c1 a)(NB i := p) \<and>
          (if nodes_at c1 a (NB i) = 0 then p \<in> ic_pool c1 - ic_used c1 else p = nodes_at c1 a (NB i))"
    unfolding step_result_def by blast
  have "grows c a c'" using g r(2) by (rule grows_trans)
  moreover have "ic_pool c1 = ic_pool c" "ic_used c \<subseteq> ic_used c1" using growsD(4,8) [OF g] by auto
  ultimately show ?thesis
    unfolding bmap_result_def r(1) using r(3) same by (cases r) (auto split: if_splits)
qed

text \<open>An error of a pointer step ends the call, with the data blocks as they were.\<close>

lemma step_error_result:
  assumes "grows c a c1" "\<And>j. nodes_at c1 a (NB j) = nodes_at c a (NB j)"
    and "step_result c1 a n (Some (Inl e, c'))"
  shows "bmap_result c a i (Some (Inl e, c'))"
proof -
  from assms(3) have "grows c1 a c'" "e = MODERNFS_ENOSPC" "nodes_at c' a = nodes_at c1 a" "ic_pool c1 \<subseteq> ic_used c'"
    by (auto simp: step_result_def)
  moreover have "grows c a c'" using assms(1) \<open>grows c1 a c'\<close> by (rule grows_trans)
  moreover have "ic_pool c1 = ic_pool c" using growsD(8) [OF assms(1)] .
  ultimately show ?thesis using assms(2) by (simp add: bmap_result_def)
qed

lemma tree_atD:
  assumes "tree_at c a"
  obtains im where "ic_inodes c a = Some im" "tree_ok (im_disk im) (ic_view c) (ic_used c)"
    "nodes_at c a = nodes (im_disk im) (ic_view c)" "ptrs_at c a = pointer_blocks (im_disk im) (ic_view c)"
  using assms by (auto simp: tree_at_def nodes_at_def ptrs_at_def)

text \<open>Entry steps at the three kinds of pointer block.\<close>

lemma indirect_entry_step:
  assumes ok: "ic_ok c" and t: "tree_at c a" and p: "nodes_at c a NI = p" "p \<noteq> 0" and k: "k < 1024"
  shows "step_result c a (NB (12 + k)) (bmap_entry c a p k True False)"
proof -
  from t obtain im where im: "ic_inodes c a = Some im" "tree_ok (im_disk im) (ic_view c) (ic_used c)"
    "nodes_at c a = nodes (im_disk im) (ic_view c)" by (rule tree_atD)
  have d: "di_indirect (im_disk im) = p" using p(1) im(3) by simp
  show ?thesis
  proof (rule bmap_entry_grows [OF ok t _ _ k])
    show "p \<in> ptrs_at c a" using p by (auto simp: ptrs_nodes)
    show "p \<in> ic_used c" using tree_at_used [OF t] p by blast
    show "nodes_at c a (NB (12 + k)) = get_ptr (ic_view c p) k" using d p(2) k im(3) by (simp add: file_block_def)
    show "False = is_pointer (NB (12 + k))" by simp
    fix b :: block_t and m
    show "nodes ((im_disk (the (ic_inodes c a)))\<lparr>di_blocks := m\<rparr>)
       (if False then (ic_view c)(p := set_ptr (ic_view c p) k b, b := replicate 4096 0)
        else (ic_view c)(p := set_ptr (ic_view c p) k b)) = (nodes_at c a)(NB (12 + k) := b)"
      using nodes_indirect_entry [OF im(2) d p(2) k, of m b] im(1,3) by simp
  qed
qed

lemma l1_entry_step:
  assumes ok: "ic_ok c" and t: "tree_at c a" and p: "nodes_at c a ND = p" "p \<noteq> 0" and j: "j < 1024"
  shows "step_result c a (NL j) (bmap_entry c a p j True True)"
proof -
  from t obtain im where im: "ic_inodes c a = Some im" "tree_ok (im_disk im) (ic_view c) (ic_used c)"
    "nodes_at c a = nodes (im_disk im) (ic_view c)" by (rule tree_atD)
  have d: "di_double_indirect (im_disk im) = p" using p(1) im(3) by simp
  show ?thesis
  proof (rule bmap_entry_grows [OF ok t _ _ j])
    show "p \<in> ptrs_at c a" using p by (auto simp: ptrs_nodes)
    show "p \<in> ic_used c" using tree_at_used [OF t] p by blast
    show "nodes_at c a (NL j) = get_ptr (ic_view c p) j" using d p(2) j im(3) by (simp add: l1_ptr_def)
    show "True = is_pointer (NL j)" by simp
    fix b :: block_t and m assume b: "b \<notin> ic_used c" and z: "nodes_at c a (NL j) = 0"
    then have "l1_ptr (im_disk im) (ic_view c) j = 0" using im(3) by simp
    from nodes_l1_entry [OF im(2) d p(2) j b this, of m]
    show "nodes ((im_disk (the (ic_inodes c a)))\<lparr>di_blocks := m\<rparr>)
       (if True then (ic_view c)(p := set_ptr (ic_view c p) j b, b := replicate 4096 0)
        else (ic_view c)(p := set_ptr (ic_view c p) j b)) = (nodes_at c a)(NL j := b)"
      using im(1,3) by simp
  qed
qed

lemma l2_entry_step:
  assumes ok: "ic_ok c" and t: "tree_at c a" and q: "nodes_at c a (NL j) = q" "q \<noteq> 0" and j: "j < 1024" and k: "k < 1024"
  shows "step_result c a (NB (1036 + j * 1024 + k)) (bmap_entry c a q k True False)"
proof -
  from t obtain im where im: "ic_inodes c a = Some im" "tree_ok (im_disk im) (ic_view c) (ic_used c)"
    "nodes_at c a = nodes (im_disk im) (ic_view c)" by (rule tree_atD)
  have d: "l1_ptr (im_disk im) (ic_view c) j = q" using q(1) im(3) by simp
  have i: "(1036 + j * 1024 + k - 1036) div 1024 = j" "(1036 + j * 1024 + k - 1036) mod 1024 = k" "j * 1024 + k < 1048576"
    using j k by auto
  show ?thesis
  proof (rule bmap_entry_grows [OF ok t _ _ k])
    show "q \<in> ptrs_at c a" using q by (auto simp: ptrs_nodes)
    show "q \<in> ic_used c" using tree_at_used [OF t] q by blast
    show "nodes_at c a (NB (1036 + j * 1024 + k)) = get_ptr (ic_view c q) k"
      using d q(2) k im(3) i by (simp add: file_block_def)
    show "False = is_pointer (NB (1036 + j * 1024 + k))" by simp
    fix b :: block_t and m
    show "nodes ((im_disk (the (ic_inodes c a)))\<lparr>di_blocks := m\<rparr>)
       (if False then (ic_view c)(q := set_ptr (ic_view c q) k b, b := replicate 4096 0)
        else (ic_view c)(q := set_ptr (ic_view c q) k b)) = (nodes_at c a)(NB (1036 + j * 1024 + k) := b)"
      using nodes_l2_entry [OF im(2) d q(2) j k, of m b] im(1,3) by simp
  qed
qed

section \<open>The call\<close>

lemma step_resultE:
  assumes "step_result c a n res"
  obtains e c' where "res = Some (Inl e, c')"
  | p c' where "res = Some (Inr p, c')" "grows c a c'" "p \<noteq> 0" "nodes_at c' a = (nodes_at c a)(n := p)"
proof -
  from assms obtain r c' where r: "res = Some (r, c')" "grows c a c'" and
    s: "case r of Inl e \<Rightarrow> e = MODERNFS_ENOSPC \<and> nodes_at c' a = nodes_at c a \<and> ic_pool c \<subseteq> ic_used c'
      | Inr p \<Rightarrow> p \<noteq> 0 \<and> p \<in> ic_used c' \<and> nodes_at c' a = (nodes_at c a)(n := p) \<and>
          (if nodes_at c a n = 0 then p \<in> ic_pool c - ic_used c else p = nodes_at c a n)"
    unfolding step_result_def by blast
  show thesis
  proof (cases r)
    case (Inl e)
    with r show ?thesis by (intro that(1)) simp
  next
    case (Inr p)
    show ?thesis using s r unfolding Inr sum.case by (elim conjE) (rule that(2))
  qed
qed

lemma inode_bmap_extends:
  assumes ok: "ic_ok c" and t: "tree_at c a" and i: "file_index offset < 1049612"
  shows "bmap_result c a (file_index offset) (inode_bmap c a offset True)"
proof -
  let ?i = "file_index offset"
  note X = block_idx_cases [OF i]
  note refl = grows_refl [OF ok t]
  consider (direct) "?i < 12" | (indirect) "12 \<le> ?i" "?i < 1036" | (double) "1036 \<le> ?i" by linarith
  then show ?thesis
  proof cases
    case direct
    then have "inode_bmap c a offset True = bmap_direct c a ?i True"
      using X(1,2) by (simp add: inode_bmap_def Let_def)
    then show ?thesis using step_bmap_result [OF refl _ bmap_direct_grows [OF ok t direct]] by simp
  next
    case indirect
    have b: "inode_bmap c a offset True = do {
          (r, c) \<leftarrow> bmap_root c a di_indirect (\<lambda>p d. d\<lparr>di_indirect := p\<rparr>) True;
          (case r of
             Inl e \<Rightarrow> Some (Inl e, c)
           | Inr p \<Rightarrow> if p = 0 then Some (Inr 0, c) else bmap_entry c a p (?i - 12) True False) }"
      unfolding inode_bmap_def Let_def X(4) [OF indirect(1)] using indirect X(1,3) by simp
    note s1 = bmap_indirect_grows [OF ok t]
    from s1 show ?thesis
    proof (cases rule: step_resultE)
      case (1 e c')
      then show ?thesis using step_error_result [OF refl _ s1 [unfolded 1]] unfolding b 1 by simp
    next
      case (2 p c1)
      have "step_result c1 a (NB (12 + (?i - 12))) (bmap_entry c1 a p (?i - 12) True False)"
        by (rule indirect_entry_step) (use growsD [OF 2(2)] 2(3,4) indirect in auto)
      then have "bmap_result c a ?i (bmap_entry c1 a p (?i - 12) True False)"
        using step_bmap_result [OF 2(2)] 2(4) indirect(1) by simp
      then show ?thesis unfolding b 2(1) using 2(3) by simp
    qed
  next
    case double
    let ?j = "(?i - 1036) div 1024" and ?k = "(?i - 1036) mod 1024"
    have b: "inode_bmap c a offset True = do {
          (r, c) \<leftarrow> bmap_root c a di_double_indirect (\<lambda>p d. d\<lparr>di_double_indirect := p\<rparr>) True;
          (case r of
             Inl e \<Rightarrow> Some (Inl e, c)
           | Inr p \<Rightarrow> if p = 0 then Some (Inr 0, c)
               else do {
                 (r, c) \<leftarrow> bmap_entry c a p ?j True True;
                 (case r of
                    Inl e \<Rightarrow> Some (Inl e, c)
                  | Inr q \<Rightarrow> if q = 0 then Some (Inr 0, c) else bmap_entry c a q ?k True False) }) }"
      unfolding inode_bmap_def Let_def X(6) [OF double] X(7) [OF double] using double X(1,3,5) by simp
    have j: "?j < 1024" "?k < 1024" using i by (auto simp: less_mult_imp_div_less)
    have eq: "1036 + ?j * 1024 + ?k = ?i" using double by simp
    note s1 = bmap_double_indirect_grows [OF ok t]
    from s1 show ?thesis
    proof (cases rule: step_resultE)
      case (1 e c')
      then show ?thesis using step_error_result [OF refl _ s1 [unfolded 1]] unfolding b 1 by simp
    next
      case (2 p c1)
      have s2: "step_result c1 a (NL ?j) (bmap_entry c1 a p ?j True True)"
        by (rule l1_entry_step) (use growsD [OF 2(2)] 2(3,4) j in auto)
      from s2 show ?thesis
      proof (cases rule: step_resultE)
        case (1 e c')
        then show ?thesis using step_error_result [OF 2(2) _ s2 [unfolded 1]] 2(3,4) unfolding b 2(1)
          by (simp add: 1)
      next
        case q: (2 q c2)
        have "step_result c2 a (NB (1036 + ?j * 1024 + ?k)) (bmap_entry c2 a q ?k True False)"
          by (rule l2_entry_step) (use growsD [OF q(2)] q(3,4) j in auto)
        then have "bmap_result c a ?i (bmap_entry c2 a q ?k True False)"
          unfolding eq using step_bmap_result [OF grows_trans [OF 2(2) q(2)]] 2(4) q(4) by simp
        then show ?thesis unfolding b 2(1) using 2(3) q(1,3) by simp
      qed
    qed
  qed
qed

end
