(* ===== verification/Inode_Content.thy ===== *)
theory Inode_Content
  imports Inode_Extend
begin

text \<open>
  The contents of a file as a function from positions to bytes, what reading returns of it and what
  writing does to it.
\<close>

section \<open>Bytes of a file\<close>

abbreviation MAX_FILE :: nat where "MAX_FILE \<equiv> 1049612 * 4096"

definition fbyte :: "inode_cache \<Rightarrow> addr \<Rightarrow> nat \<Rightarrow> byte" where
  "fbyte c a k = (let b = nodes_at c a (NB (k div 4096)) in if b = 0 then 0 else ic_view c b ! (k mod 4096))"

definition fsize :: "inode_cache \<Rightarrow> addr \<Rightarrow> nat" where
  "fsize c a = unat (di_size (im_disk (the (ic_inodes c a))))"

definition blocks_at :: "inode_cache \<Rightarrow> addr \<Rightarrow> block_t set" where
  "blocks_at c a = {x. x \<noteq> 0 \<and> (\<exists>n. x = nodes_at c a n)}"

lemma blocks_ptrs: "x \<in> blocks_at c a \<longleftrightarrow> x \<in> ptrs_at c a \<or> (x \<noteq> 0 \<and> (\<exists>i. x = nodes_at c a (NB i)))"
proof -
  have "(\<exists>n. x = nodes_at c a n) \<longleftrightarrow>
    x = nodes_at c a NI \<or> x = nodes_at c a ND \<or> (\<exists>j. x = nodes_at c a (NL j)) \<or> (\<exists>i. x = nodes_at c a (NB i))"
    by (metis node.exhaust)
  then show ?thesis by (auto simp: blocks_at_def ptrs_nodes)
qed

lemma blocks_used: "tree_at c a \<Longrightarrow> blocks_at c a \<subseteq> ic_used c"
  unfolding blocks_at_def using tree_at_used by blast

lemma data_not_ptr:
  assumes "tree_at c a" "nodes_at c a (NB i) \<noteq> 0"
  shows "nodes_at c a (NB i) \<notin> ptrs_at c a"
proof -
  from assms(1) obtain im where "ic_inodes c a = Some im" and im: "tree_ok (im_disk im) (ic_view c) (ic_used c)"
    "nodes_at c a = nodes (im_disk im) (ic_view c)" "ptrs_at c a = pointer_blocks (im_disk im) (ic_view c)"
    by (rule tree_atD)
  have "n = NB i" if "nodes_at c a n = nodes_at c a (NB i)" for n
    using tree_okD(4) [OF im(1), of n "NB i"] that assms(2) im(2) by simp
  then show ?thesis unfolding ptrs_nodes by (metis node.distinct)
qed

lemma data_inj:
  assumes "tree_at c a" "nodes_at c a (NB i) = nodes_at c a (NB j)" "nodes_at c a (NB i) \<noteq> 0"
  shows "i = j"
proof -
  from assms(1) obtain im where "ic_inodes c a = Some im" and im: "tree_ok (im_disk im) (ic_view c) (ic_used c)"
    "nodes_at c a = nodes (im_disk im) (ic_view c)" "ptrs_at c a = pointer_blocks (im_disk im) (ic_view c)"
    by (rule tree_atD)
  show ?thesis using tree_okD(4) [OF im(1), of "NB i" "NB j"] assms(2,3) im(2) by simp
qed

lemma fbyte_quiet: "quiet c c' \<Longrightarrow> tree_at c a \<Longrightarrow> fbyte c' a = fbyte c a"
  by (intro ext) (simp add: fbyte_def grows_quiet(3) quietD(3) [of c c'] Let_def)

section \<open>Extending a file\<close>

text \<open>
  What allocating and writing data blocks may do: mapped blocks stay mapped, new ones come from the
  free pool, and only blocks of this file are written.
\<close>

definition extended :: "inode_cache \<Rightarrow> addr \<Rightarrow> inode_cache \<Rightarrow> bool" where
  "extended c a c' \<longleftrightarrow> ic_ok c' \<and> ic_keep c c' \<and> tree_at c' a \<and>
     (\<exists>im'. ic_inodes c' = (ic_inodes c)(a \<mapsto> im') \<and> same_file (the (ic_inodes c a)) im') \<and>
     ic_used c \<subseteq> ic_used c' \<and> ptrs_at c a \<subseteq> ptrs_at c' a \<and>
     ptrs_at c' a \<subseteq> ptrs_at c a \<union> (ic_pool c - ic_used c) \<and>
     (\<forall>i. nodes_at c a (NB i) \<noteq> 0 \<longrightarrow> nodes_at c' a (NB i) = nodes_at c a (NB i)) \<and>
     (\<forall>i. nodes_at c a (NB i) = 0 \<longrightarrow> nodes_at c' a (NB i) = 0 \<or> nodes_at c' a (NB i) \<in> ic_pool c - ic_used c) \<and>
     (\<forall>x. x \<notin> blocks_at c' a \<longrightarrow> ic_view c' x = ic_view c x)"

lemma extendedD:
  assumes "extended c a c'"
  shows "ic_ok c'" "ic_keep c c'" "tree_at c' a" "ic_used c \<subseteq> ic_used c'" "ptrs_at c a \<subseteq> ptrs_at c' a"
    "ptrs_at c' a \<subseteq> ptrs_at c a \<union> (ic_pool c - ic_used c)"
    "nodes_at c a (NB i) \<noteq> 0 \<Longrightarrow> nodes_at c' a (NB i) = nodes_at c a (NB i)"
    "nodes_at c a (NB i) = 0 \<Longrightarrow> nodes_at c' a (NB i) \<noteq> 0 \<Longrightarrow> nodes_at c' a (NB i) \<in> ic_pool c - ic_used c"
    "x \<notin> blocks_at c' a \<Longrightarrow> ic_view c' x = ic_view c x" "ic_pool c' = ic_pool c"
    "\<exists>im'. ic_inodes c' = (ic_inodes c)(a \<mapsto> im') \<and> same_file (the (ic_inodes c a)) im'"
  using assms by (auto simp: extended_def ic_keep_fields(10))

lemma extended_blocks:
  assumes "extended c a c'"
  shows "blocks_at c a \<subseteq> blocks_at c' a" "blocks_at c' a \<subseteq> blocks_at c a \<union> (ic_pool c - ic_used c)"
proof -
  show "blocks_at c a \<subseteq> blocks_at c' a"
  proof
    fix x assume "x \<in> blocks_at c a"
    then show "x \<in> blocks_at c' a"
      unfolding blocks_ptrs using extendedD(5) [OF assms] extendedD(7) [OF assms] by (metis subsetD)
  qed
  show "blocks_at c' a \<subseteq> blocks_at c a \<union> (ic_pool c - ic_used c)"
  proof
    fix x assume "x \<in> blocks_at c' a"
    then consider "x \<in> ptrs_at c' a" | i where "x \<noteq> 0" "x = nodes_at c' a (NB i)" unfolding blocks_ptrs by blast
    then show "x \<in> blocks_at c a \<union> (ic_pool c - ic_used c)"
    proof cases
      case 1
      then show ?thesis using extendedD(6) [OF assms] by (auto simp: blocks_ptrs)
    next
      case 2
      then show ?thesis using extendedD(7) [OF assms, of i] extendedD(8) [OF assms, of i]
        by (cases "nodes_at c a (NB i) = 0") (auto simp: blocks_ptrs)
    qed
  qed
qed

lemma extended_refl:
  assumes "ic_ok c" "tree_at c a"
  shows "extended c a c"
proof -
  obtain im where "ic_inodes c a = Some im" using assms(2) by (auto simp: tree_at_def)
  then have "ic_inodes c = (ic_inodes c)(a \<mapsto> im)" by auto
  then have "\<exists>im'. ic_inodes c = (ic_inodes c)(a \<mapsto> im') \<and> same_file (the (ic_inodes c a)) im'"
    using \<open>ic_inodes c a = Some im\<close> by (intro exI [of _ im]) simp
  then show ?thesis using assms by (simp add: extended_def)
qed

lemma extended_trans:
  assumes "extended c a d" "extended d a e"
  shows "extended c a e"
proof -
  have p: "ic_pool d = ic_pool c" by (rule extendedD(10) [OF assms(1)])
  from extendedD(11) [OF assms(1)] extendedD(11) [OF assms(2)] obtain x y where
    "ic_inodes d = (ic_inodes c)(a \<mapsto> x)" "same_file (the (ic_inodes c a)) x"
    "ic_inodes e = (ic_inodes d)(a \<mapsto> y)" "same_file (the (ic_inodes d a)) y" by blast
  then have i: "\<exists>im'. ic_inodes e = (ic_inodes c)(a \<mapsto> im') \<and> same_file (the (ic_inodes c a)) im'"
    by (auto intro: same_file_trans)
  have v: "ic_view e x = ic_view c x" if "x \<notin> blocks_at e a" for x
    using that extendedD(9) [OF assms(1)] extendedD(9) [OF assms(2)] extended_blocks(1) [OF assms(2)] by fastforce
  have k: "nodes_at e a (NB i) = nodes_at c a (NB i)" if "nodes_at c a (NB i) \<noteq> 0" for i
    using that extendedD(7) [OF assms(1)] extendedD(7) [OF assms(2)] by simp
  have n: "nodes_at e a (NB i) \<in> ic_pool c - ic_used c"
    if "nodes_at c a (NB i) = 0" "nodes_at e a (NB i) \<noteq> 0" for i
    using that extendedD(4) [OF assms(1)] extendedD(8) [OF assms(1), of i] extendedD(7) [OF assms(2), of i]
      extendedD(8) [OF assms(2), of i] p
    by (cases "nodes_at d a (NB i) = 0") auto
  show ?thesis unfolding extended_def
    using extendedD(1-6) [OF assms(1)] extendedD(1-6) [OF assms(2)] i v k n p
    by (auto intro: ic_keep_trans)
qed

text \<open>The bytes a file would have if its new blocks kept what they held before.\<close>

definition base :: "inode_cache \<Rightarrow> inode_cache \<Rightarrow> addr \<Rightarrow> nat \<Rightarrow> byte" where
  "base c c' a k = (let b = nodes_at c' a (NB (k div 4096)) in if b = 0 then 0 else ic_view c b ! (k mod 4096))"

lemma base_mapped:
  assumes "extended c a c'" "nodes_at c a (NB (k div 4096)) \<noteq> 0 \<or> nodes_at c' a (NB (k div 4096)) = 0"
  shows "base c c' a k = fbyte c a k"
  using assms(2) extendedD(7) [OF assms(1), of "k div 4096"] by (auto simp: base_def fbyte_def Let_def)

lemma bmap_extended:
  assumes t: "tree_at c a" and r: "bmap_result c a i (Some (r, c'))"
  shows "extended c a c'" "fbyte c' a k = base c c' a k"
    "case r of Inl e \<Rightarrow> e = MODERNFS_ENOSPC \<and> ic_pool c \<subseteq> ic_used c' \<and>
         (\<forall>j. nodes_at c' a (NB j) = nodes_at c a (NB j))
     | Inr p \<Rightarrow> p \<noteq> 0 \<and> nodes_at c' a (NB i) = p \<and> (\<forall>j. j \<noteq> i \<longrightarrow> nodes_at c' a (NB j) = nodes_at c a (NB j))"
proof -
  from r have g: "grows c a c'" by (simp add: bmap_result_def)
  note G = growsD [OF g]
  show cr: "case r of Inl e \<Rightarrow> e = MODERNFS_ENOSPC \<and> ic_pool c \<subseteq> ic_used c' \<and>
         (\<forall>j. nodes_at c' a (NB j) = nodes_at c a (NB j))
     | Inr p \<Rightarrow> p \<noteq> 0 \<and> nodes_at c' a (NB i) = p \<and> (\<forall>j. j \<noteq> i \<longrightarrow> nodes_at c' a (NB j) = nodes_at c a (NB j))"
    using r by (cases r) (auto simp: bmap_result_def)
  have n: "nodes_at c' a (NB j) = nodes_at c a (NB j) \<or>
     (nodes_at c a (NB j) = 0 \<and> nodes_at c' a (NB j) \<in> ic_pool c - ic_used c)" for j
    using r by (cases "j = i"; cases r) (auto simp: bmap_result_def split: if_splits)
  have v: "ic_view c' x = ic_view c x" if "x \<notin> blocks_at c' a" for x
    using that G(7) by (simp add: blocks_ptrs)
  have k: "nodes_at c a (NB j) \<noteq> 0 \<Longrightarrow> nodes_at c' a (NB j) = nodes_at c a (NB j)" for j
    using n [of j] by auto
  have l: "nodes_at c a (NB j) = 0 \<Longrightarrow> nodes_at c' a (NB j) = 0 \<or> nodes_at c' a (NB j) \<in> ic_pool c - ic_used c" for j
    using n [of j] by auto
  show "extended c a c'" unfolding extended_def
    using G(1-6,10) v k l by blast
  show "fbyte c' a k = base c c' a k"
    using data_not_ptr [OF G(3), of "k div 4096"] G(7) by (auto simp: fbyte_def base_def Let_def)
qed

section \<open>Writing a data block\<close>

lemma data_write:
  assumes ok: "ic_ok c" and t: "tree_at c a" and p: "nodes_at c a (NB i) = p" "p \<noteq> 0" and len: "length data = BLOCK_SIZE"
  shows "\<exists>c'. ic_write c p data = Some (0, c') \<and> extended c a c' \<and> nodes_at c' a = nodes_at c a \<and>
     ic_used c' = ic_used c \<and>
     (\<forall>k. fbyte c' a k = (if k div 4096 = i then data ! (k mod 4096) else fbyte c a k))"
proof -
  from t obtain im where im: "ic_inodes c a = Some im" "tree_ok (im_disk im) (ic_view c) (ic_used c)"
    "nodes_at c a = nodes (im_disk im) (ic_view c)" "ptrs_at c a = pointer_blocks (im_disk im) (ic_view c)"
    by (rule tree_atD)
  have u: "p \<in> ic_used c" using tree_at_used [OF t] p by blast
  then have "ucast p < bd_total_blocks (ic_dev c)" using pool_bound [OF ok] used_pool by blast
  from ic_write_spec [OF ok this len] obtain c' where
    w: "ic_write c p data = Some (0, c')" "ic_ok c'" "ic_keep c c'" "ic_inodes c' = ic_inodes c"
      "ic_view c' = (ic_view c)(p := data)" "ic_balloc c' = ic_balloc c" by blast
  have np: "p \<notin> ptrs_at c a" using data_not_ptr [OF t, of i] p by simp
  have same: "x \<in> pointer_blocks (im_disk im) (ic_view c) \<Longrightarrow> ic_view c' x = ic_view c x" for x
    using np im(4) w(5) by auto
  have used: "ic_used c' = ic_used c" "ic_pool c' = ic_pool c" using w(6) by (simp_all add: ic_used_def ic_pool_def)
  have tr: "tree_ok (im_disk im) (ic_view c') (ic_used c')"
    unfolding used by (rule tree_ok_cong [OF im(2) same]) (simp_all add: ic_view_length [OF w(2)])
  have nodes: "nodes_at c' a = nodes_at c a"
    using nodes_cong [OF same] im(1,3) w(4) by (simp add: nodes_at_def)
  have ptrs: "ptrs_at c' a = ptrs_at c a" using nodes by (auto simp: ptrs_nodes)
  have t': "tree_at c' a" using tr im(1) w(4) by (simp add: tree_at_def)
  have bl: "blocks_at c' a = blocks_at c a" by (simp add: blocks_at_def nodes)
  have pb: "p \<in> blocks_at c a" using p by (auto simp: blocks_at_def)
  have "ic_inodes c' = (ic_inodes c)(a \<mapsto> im) \<and> same_file (the (ic_inodes c a)) im" using w(4) im(1) by auto
  then have "extended c a c'" unfolding extended_def
    using w(2,3) t' used ptrs nodes bl pb w(5) by auto
  moreover have "fbyte c' a k = (if k div 4096 = i then data ! (k mod 4096) else fbyte c a k)" for k
  proof (cases "k div 4096 = i")
    case True
    then show ?thesis using p w(5) by (simp add: fbyte_def nodes)
  next
    case False
    then have "nodes_at c a (NB (k div 4096)) \<noteq> 0 \<Longrightarrow> nodes_at c a (NB (k div 4096)) \<noteq> p"
      using data_inj [OF t, of "k div 4096" i] p(1) by force
    then show ?thesis using False w(5) by (simp add: fbyte_def nodes Let_def)
  qed
  ultimately show ?thesis using w(1) nodes used by blast
qed

end
