(* ===== verification/Inode_IO.thy ===== *)
theory Inode_IO
  imports Inode_Content
begin

text \<open>\<open>inode_read\<close> and \<open>inode_write\<close> against the contents of the file.\<close>

section \<open>One block's worth\<close>

text \<open>The position of a step and the bytes it covers, read as natural numbers.\<close>

lemma step_position:
  assumes "unat offset + unat sz \<le> MAX_FILE" "k < sz"
  shows "unat (offset + k) = unat offset + unat k" "file_index (offset + k) = (unat offset + unat k) div 4096"
    "file_index (offset + k) < 1049612" "unat ((offset + k) mod 4096) = (unat offset + unat k) mod 4096"
proof -
  have l: "unat k < unat sz" using assms(2) by (simp add: word_less_nat_alt)
  then have "unat offset + unat k < 2 ^ 64" using assms(1) by simp
  then show u: "unat (offset + k) = unat offset + unat k" by (simp add: unat_word_ariths)
  then show "file_index (offset + k) = (unat offset + unat k) div 4096" by (simp add: file_index_def)
  show "file_index (offset + k) < 1049612"
    using l assms(1) u by (simp add: file_index_def less_mult_imp_div_less)
  show "unat ((offset + k) mod 4096) = (unat offset + unat k) mod 4096" using u by (simp add: unat_mod)
qed

lemma chunk_index:
  fixes p n j :: nat
  assumes "n \<le> 4096 - p mod 4096" "j < n"
  shows "(p + j) div 4096 = p div 4096" "(p + j) mod 4096 = p mod 4096 + j"
proof -
  define q r where "q = p div 4096" and "r = p mod 4096"
  then have p: "p = 4096 * q + r" "q = p div 4096" "r = p mod 4096" by simp_all
  have s: "r + j < 4096" using assms p(3) by simp
  have d: "(4096 * q + (r + j)) div 4096 = q" "(4096 * q + (r + j)) mod 4096 = r + j"
    using s by (simp_all only: div_mult_self4 mod_mult_self4 div_less mod_less)
  have e: "p + j = 4096 * q + (r + j)" using p(1) by simp
  show "(p + j) div 4096 = p div 4096" unfolding e p(2) [symmetric] by (rule d(1))
  show "(p + j) mod 4096 = p mod 4096 + j" unfolding e p(3) [symmetric] by (rule d(2))
qed

lemma chunk_bytes:
  assumes "n \<le> 4096 - p mod 4096"
  shows "map (fbyte c a) [p..<p + n] =
     (let b = nodes_at c a (NB (p div 4096)) in
      if b = 0 then replicate n 0 else map (\<lambda>j. ic_view c b ! (p mod 4096 + j)) [0..<n])"
proof (rule nth_equalityI)
  fix j assume "j < length (map (fbyte c a) [p..<p + n])"
  then have "j < n" by simp
  then show "map (fbyte c a) [p..<p + n] ! j =
     (let b = nodes_at c a (NB (p div 4096)) in
      if b = 0 then replicate n 0 else map (\<lambda>j. ic_view c b ! (p mod 4096 + j)) [0..<n]) ! j"
    using chunk_index [OF assms, of j] by (simp add: fbyte_def Let_def)
qed (simp add: Let_def)

section \<open>Reading\<close>

lemma bmap_lookup_at:
  assumes "ic_ok c" "tree_at c a" "file_index offset < 1049612"
  shows "\<exists>c'. inode_bmap c a offset False = Some (Inr (nodes_at c a (NB (file_index offset))), c') \<and> quiet c c'"
proof -
  from assms(2) obtain im where "ic_inodes c a = Some im" "tree_ok (im_disk im) (ic_view c) (ic_used c)"
    by (auto simp: tree_at_def)
  with inode_bmap_lookup [OF assms(1) this assms(3)] show ?thesis by (simp add: nodes_at_def)
qed

text \<open>An allocating call finds a mapped block the way a lookup does.\<close>

lemma bmap_found:
  assumes "p \<noteq> 0"
  shows "bmap_direct c a i False = Some (Inr p, c') \<Longrightarrow> bmap_direct c a i True = Some (Inr p, c')"
    "bmap_root c a getp setp False = Some (Inr p, c') \<Longrightarrow> bmap_root c a getp setp True = Some (Inr p, c')"
    "bmap_entry c a q i False z = Some (Inr p, c') \<Longrightarrow> bmap_entry c a q i True z' = Some (Inr p, c')"
  using assms by (auto simp: bmap_direct_def bmap_root_def bmap_entry_def Let_def
      split: option.splits if_splits sum.splits prod.splits Option.bind_splits)

lemma inode_bmap_found:
  assumes "inode_bmap c a off False = Some (Inr p, c')" "p \<noteq> 0"
  shows "inode_bmap c a off True = Some (Inr p, c')"
proof -
  have root: "\<exists>q d. bmap_root c a g s False = Some (Inr q, d) \<and> q \<noteq> 0 \<and> k q d = Some (Inr p, c')"
    if "(bmap_root c a g s False \<bind> (\<lambda>(r, c). case r of Inl e \<Rightarrow> Some (Inl e, c) | Inr q \<Rightarrow> if q = 0 then Some (Inr 0, c) else k q c)) =
      Some (Inr p, c')" for g s k
    using that assms(2) by (auto split: Option.bind_splits sum.splits if_splits)
  have entry: "\<exists>q' d. bmap_entry x a q i False z = Some (Inr q', d) \<and> q' \<noteq> 0 \<and> k q' d = Some (Inr p, c')"
    if "(bmap_entry x a q i False z \<bind> (\<lambda>(r, c). case r of Inl e \<Rightarrow> Some (Inl e, c) | Inr q \<Rightarrow> if q = 0 then Some (Inr 0, c) else k q c)) =
      Some (Inr p, c')" for x q i z k
    using that assms(2) by (auto split: Option.bind_splits sum.splits if_splits)
  show ?thesis
    using assms(1) unfolding inode_bmap_def Let_def
    by (auto split: if_splits dest!: root entry simp: bmap_found assms(2))
qed

lemma bmap_mapped:
  assumes "ic_ok c" "tree_at c a" "file_index offset < 1049612" "nodes_at c a (NB (file_index offset)) \<noteq> 0"
  shows "\<exists>p c'. inode_bmap c a offset True = Some (Inr p, c')"
  using bmap_lookup_at [OF assms(1-3)] inode_bmap_found assms(4) by blast

lemma read_loop_bytes:
  assumes "ic_ok c" "tree_at c a" "unat offset + unat sz \<le> MAX_FILE" "k \<le> sz"
  shows "\<exists>c'. read_loop c a offset sz k dest =
     Some (Inr (dest @ map (fbyte c a) [unat offset + unat k..<unat offset + unat sz]), c') \<and> quiet c c'"
  using assms
proof (induction "unat sz - unat k" arbitrary: c k dest rule: less_induct)
  case less
  note ok = less.prems(1) and t = less.prems(2) and mx = less.prems(3)
  show ?case
  proof (cases "k < sz")
    case False
    then have "k = sz" using less.prems(4) by simp
    then show ?thesis using quiet_refl [OF ok] by (subst read_loop.simps) simp
  next
    case True
    let ?p = "unat offset + unat k" and ?n = "chunk (offset + k) (sz - k)"
    let ?k = "k + ucast ?n"
    note P = step_position [OF mx True] and S = chunk_step [OF True, of offset]
    have n: "unat ?n \<le> 4096 - ?p mod 4096" using P(1) by (simp add: unat_chunk)
    from bmap_lookup_at [OF ok t P(3)] obtain c1 where
      b: "inode_bmap c a (offset + k) False = Some (Inr (nodes_at c a (NB (?p div 4096))), c1)" "quiet c c1"
      unfolding P(2) by blast
    let ?b = "nodes_at c a (NB (?p div 4096))"
    have k': "?k \<le> sz" "unat ?k = unat k + unat ?n" "unat sz - unat ?k < unat sz - unat k"
      using S True by (simp_all add: word_le_nat_alt word_less_nat_alt)
    have split: "[?p..<unat offset + unat sz] = [?p..<?p + unat ?n] @ [unat offset + unat ?k..<unat offset + unat sz]"
      using S(3) k'(2) upt_add_eq_append [of ?p "?p + unat ?n" "unat offset + unat sz - (?p + unat ?n)"]
      by (simp add: add.assoc)
    show ?thesis
    proof (cases "?b = 0")
      case hole: True
      note q = quietD [OF b(2)] and g = grows_quiet [OF b(2) t]
      obtain c' where c': "read_loop c1 a offset sz ?k (dest @ replicate (unat ?n) 0) =
        Some (Inr ((dest @ replicate (unat ?n) 0) @ map (fbyte c1 a) [unat offset + unat ?k..<unat offset + unat sz]), c')"
        "quiet c1 c'" using less.hyps [OF k'(3) q(1) g(2) mx k'(1)] by blast
      have "map (fbyte c a) [?p..<?p + unat ?n] = replicate (unat ?n) 0"
        using chunk_bytes [OF n, of c a] hole by simp
      then show ?thesis using True b(1) hole c' quiet_trans [OF b(2) c'(2)] fbyte_quiet [OF b(2) t]
        by (subst read_loop.simps) (simp add: Let_def split)
    next
      case False
      note q = quietD [OF b(2)]
      have "?b \<in> ic_pool c1" using tree_at_used [OF t False] used_pool [of c] q(5) by auto
      from ic_read_spec [OF q(1) pool_bound [OF q(1) this]] obtain c2 where
        r: "ic_read c1 ?b = Some (Inr (ic_view c1 ?b), c2)" "ic_ok c2" "ic_keep c1 c2" "ic_inodes c2 = ic_inodes c1"
          "ic_view c2 = ic_view c1" "ic_balloc c2 = ic_balloc c1" by blast
      have q2: "quiet c c2" using b(2) r(2-6) by (intro quiet_trans [OF b(2)]) (simp add: quiet_def)
      have boff: "?p mod 4096 + unat ?n \<le> 4096" using n by (simp add: le_diff_conv2)
      have len: "length (ic_view c ?b) = 4096" by (rule ic_view_length [OF ok])
      have sl: "slice (?p mod 4096) (unat ?n) (ic_view c ?b) = map (fbyte c a) [?p..<?p + unat ?n]"
        using boff len False unfolding chunk_bytes [OF n]
        by (intro nth_equalityI) (simp_all add: length_slice nth_slice)
      have br: "buf_read (ic_view c1 ?b) (?p mod 4096) (unat ?n) = Some (map (fbyte c a) [?p..<?p + unat ?n])"
        using boff len q(3) sl by (simp add: buf_read_Some)
      note g2 = grows_quiet [OF q2 t]
      obtain c' where c': "read_loop c2 a offset sz ?k (dest @ map (fbyte c a) [?p..<?p + unat ?n]) =
        Some (Inr ((dest @ map (fbyte c a) [?p..<?p + unat ?n]) @ map (fbyte c2 a) [unat offset + unat ?k..<unat offset + unat sz]), c')"
        "quiet c2 c'" using less.hyps [OF k'(3) r(2) g2(2) mx k'(1)] by blast
      have "\<not> ic_oom c1" using q(1) by (simp add: ic_ok_def)
      then show ?thesis using True b(1) False c' quiet_trans [OF q2 c'(2)] fbyte_quiet [OF q2 t] r(1) br P(4)
        by (subst read_loop.simps) (simp add: Let_def split)
    qed
  qed
qed

text \<open>The whole contents, and what a read leaves as it was.\<close>

definition file_bytes :: "inode_cache \<Rightarrow> addr \<Rightarrow> byte list" where
  "file_bytes c a = map (fbyte c a) [0..<fsize c a]"

definition reads :: "inode_cache \<Rightarrow> addr \<Rightarrow> inode_cache \<Rightarrow> bool" where
  "reads c a c' \<longleftrightarrow> ic_ok c' \<and> ic_keep c c' \<and> ic_view c' = ic_view c \<and> ic_balloc c' = ic_balloc c \<and>
     (\<exists>im t d. ic_inodes c a = Some im \<and> ic_inodes c' =
        (ic_inodes c)(a \<mapsto> im\<lparr>im_disk := (im_disk im)\<lparr>di_atime := t\<rparr>, im_dirty := d\<rparr>) \<and>
        (d \<or> t = di_atime (im_disk im) \<and> d = im_dirty im))"

lemma nodes_atime [simp]: "nodes (di\<lparr>di_atime := t\<rparr>) v = nodes di v"
proof
  show "nodes (di\<lparr>di_atime := t\<rparr>) v n = nodes di v n" for n
    by (cases n) (simp_all add: file_block_def l1_ptr_def)
qed

lemma tree_ok_nodes:
  "tree_ok di v U \<Longrightarrow> nodes di' v = nodes di v \<Longrightarrow> length (di_direct di') = 12 \<Longrightarrow> tree_ok di' v U"
  by (simp add: tree_ok_def)

lemma readsD:
  assumes "reads c a c'" "tree_at c a"
  shows "ic_ok c'" "ic_view c' = ic_view c" "ic_used c' = ic_used c" "ic_pool c' = ic_pool c" "nodes_at c' a = nodes_at c a"
    "tree_at c' a" "fbyte c' a = fbyte c a" "fsize c' a = fsize c a" "file_bytes c' a = file_bytes c a"
    "b \<noteq> a \<Longrightarrow> ic_inodes c' b = ic_inodes c b" "ic_keep c c'"
proof -
  from assms(1) obtain im t d where r: "ic_ok c'" "ic_keep c c'" "ic_view c' = ic_view c" "ic_balloc c' = ic_balloc c"
    "ic_inodes c a = Some im"
    "ic_inodes c' = (ic_inodes c)(a \<mapsto> im\<lparr>im_disk := (im_disk im)\<lparr>di_atime := t\<rparr>, im_dirty := d\<rparr>)"
    unfolding reads_def by blast
  show 1: "ic_ok c'" "ic_view c' = ic_view c" "ic_used c' = ic_used c" "ic_pool c' = ic_pool c"
    "b \<noteq> a \<Longrightarrow> ic_inodes c' b = ic_inodes c b" "ic_keep c c'"
    using r by (simp_all add: ic_used_def ic_pool_def)
  show n: "nodes_at c' a = nodes_at c a" using r by (simp add: nodes_at_def)
  show "fsize c' a = fsize c a" using r by (simp add: fsize_def)
  moreover show "fbyte c' a = fbyte c a" unfolding fun_eq_iff fbyte_def n 1(2) by blast
  ultimately show "file_bytes c' a = file_bytes c a" by (simp add: file_bytes_def)
  from assms(2) r(5) have "tree_ok (im_disk im) (ic_view c) (ic_used c)" by (simp add: tree_at_def)
  then have "tree_ok ((im_disk im)\<lparr>di_atime := t\<rparr>) (ic_view c) (ic_used c)"
    by (rule tree_ok_nodes) (auto simp: tree_okD(1) [OF \<open>tree_ok (im_disk im) (ic_view c) (ic_used c)\<close>])
  then show "tree_at c' a" unfolding tree_at_def 1(2,3) r(6) by simp
qed

lemma file_bytes_slice:
  "take n (drop k (file_bytes c a)) = map (fbyte c a) [k..<min (k + n) (fsize c a)]"
  by (simp add: file_bytes_def take_map drop_map min_def)

lemma inode_read_bytes:
  assumes ok: "ic_ok c" and t: "tree_at c a" and mx: "fsize c a \<le> MAX_FILE" and w: "unat offset + unat sz < 2 ^ 64"
  shows "\<exists>c'. inode_read now c a offset sz = Some (Inr (take (unat sz) (drop (unat offset) (file_bytes c a))), c') \<and>
     reads c a c'"
proof -
  from t obtain im where im: "ic_inodes c a = Some im" by (auto simp: tree_at_def)
  let ?s = "di_size (im_disk im)"
  have fs: "fsize c a = unat ?s" using im by (simp add: fsize_def)
  show ?thesis
  proof (cases "?s \<le> offset")
    case True
    then have "unat ?s \<le> unat offset" by (simp add: word_le_nat_alt)
    then have "inode_read now c a offset sz = Some (Inr (take (unat sz) (drop (unat offset) (file_bytes c a))), c)"
      using im True fs by (simp add: inode_read_def file_bytes_def)
    moreover have "ic_inodes c = (ic_inodes c)(a \<mapsto> im\<lparr>im_disk := (im_disk im)\<lparr>di_atime := di_atime (im_disk im)\<rparr>, im_dirty := im_dirty im\<rparr>)"
      using im by auto
    then have "reads c a c" unfolding reads_def using ok im ic_keep_refl by blast
    ultimately show ?thesis by blast
  next
    case False
    let ?z = "if ?s < offset + sz then ?s - offset else sz"
    have lt: "unat offset < unat ?s" using False by (simp add: word_le_nat_alt)
    have sum: "unat (offset + sz) = unat offset + unat sz" using w by (simp add: unat_word_ariths)
    have z: "unat offset + unat ?z = min (unat offset + unat sz) (unat ?s)"
      using sum lt False by (simp add: word_less_nat_alt unat_sub word_le_nat_alt min_def)
    have "unat offset + unat ?z \<le> MAX_FILE" using z fs mx by (metis min.coboundedI2)
    from read_loop_bytes [OF ok t this, of 0 "[]"] obtain c1 where
      c1: "read_loop c a offset ?z 0 [] = Some (Inr (map (fbyte c a) [unat offset..<unat offset + unat ?z]), c1)" "quiet c c1"
      by auto
    let ?f = "\<lambda>im. im\<lparr>im_disk := (im_disk im)\<lparr>di_atime := now\<rparr>, im_dirty := True\<rparr>"
    note q = quietD [OF c1(2)]
    have im1: "ic_inodes c1 a = Some im" using q(2) im by simp
    from im_modify_spec [OF q(1) im1, of ?f] obtain c2 where
      c2: "im_modify c1 a ?f = Some c2" "ic_ok c2" "ic_keep c1 c2" "ic_inodes c2 = (ic_inodes c1)(a \<mapsto> ?f im)"
        "ic_dev c2 = ic_dev c1" "ic_balloc c2 = ic_balloc c1" by blast
    have "inode_read now c a offset sz = Some (Inr (take (unat sz) (drop (unat offset) (file_bytes c a))), c2)"
      using im False c1(1) c2(1) z fs unfolding inode_read_def file_bytes_slice by (simp add: Let_def)
    moreover have "ic_view c2 = ic_view c" "ic_balloc c2 = ic_balloc c" "ic_keep c c2"
      using c2(3,5,6) q(3,6) c1(2) by (auto simp: ic_view_def quiet_def intro: ic_keep_trans)
    then have "reads c a c2" unfolding reads_def using c2(2,4) q(2) im by auto
    ultimately show ?thesis by blast
  qed
qed

end
