(* ===== verification/Inode_Write.thy ===== *)
theory Inode_Write
  imports Inode_IO
begin

text \<open>
  \<open>inode_write\<close> without a journal transaction.  A written byte is the new one; any other byte is what
  its block held before, also when the block was only now taken from the free pool: data blocks are
  not zeroed on allocation.
\<close>

section \<open>One block\<close>

lemma same_block:
  fixes j p n :: nat
  assumes "n \<le> 4096 - p mod 4096"
  shows "p \<le> j \<and> j < p + n \<longleftrightarrow> j div 4096 = p div 4096 \<and> p mod 4096 \<le> j mod 4096 \<and> j mod 4096 < p mod 4096 + n"
proof
  assume "p \<le> j \<and> j < p + n"
  then obtain i where "j = p + i" "i < n" by (metis add_less_cancel_left le_Suc_ex)
  then show "j div 4096 = p div 4096 \<and> p mod 4096 \<le> j mod 4096 \<and> j mod 4096 < p mod 4096 + n"
    using chunk_index [OF assms, of i] by simp
next
  assume j: "j div 4096 = p div 4096 \<and> p mod 4096 \<le> j mod 4096 \<and> j mod 4096 < p mod 4096 + n"
  have "j = 4096 * (j div 4096) + j mod 4096" "p = 4096 * (p div 4096) + p mod 4096" by simp_all
  then show "p \<le> j \<and> j < p + n" using j by linarith
qed

lemma quiet_extended:
  assumes "quiet c c'" "tree_at c a"
  shows "extended c a c'"
proof -
  note q = quietD [OF assms(1)] and g = grows_quiet [OF assms]
  from assms(2) obtain im where "ic_inodes c a = Some im" by (auto simp: tree_at_def)
  then have "ic_inodes c' = (ic_inodes c)(a \<mapsto> im) \<and> same_file (the (ic_inodes c a)) im" using q(2) by auto
  then show ?thesis unfolding extended_def using q g by auto
qed

lemma base_nodes: "nodes_at c' a = nodes_at c'' a \<Longrightarrow> base c c' a j = base c c'' a j"
  by (simp add: base_def)

lemma write_block:
  assumes ok: "ic_ok c" and t: "tree_at c a" and i: "file_index cur < 1049612" and pos: "pos = unat cur"
    and n: "0 < n" "n \<le> 4096 - pos mod 4096" "length bytes = n" and b: "inode_bmap c a cur True = Some (Inr p, c1)"
  shows "\<exists>bbuf c2 c3. \<not> ic_oom c1 \<and> length bbuf = 4096 \<and>
     (if pos mod 4096 \<noteq> 0 \<or> n \<noteq> 4096 then ic_read c1 p else Some (Inr (replicate BLOCK_SIZE 0), c1)) = Some (Inr bbuf, c2) \<and>
     ic_write c2 p (splice (pos mod 4096) bytes bbuf) = Some (0, c3) \<and> extended c a c3 \<and>
     nodes_at c3 a (NB (pos div 4096)) \<noteq> 0 \<and>
     (\<forall>j. fbyte c3 a j = (if pos \<le> j \<and> j < pos + n then bytes ! (j - pos) else base c c3 a j))"
proof -
  have idx: "file_index cur = pos div 4096" by (simp add: file_index_def pos)
  have r: "bmap_result c a (pos div 4096) (Some (Inr p, c1))"
    using inode_bmap_extends [OF ok t i] b idx by simp
  note e1 = bmap_extended [OF t r]
  have p: "p \<noteq> 0" "nodes_at c1 a (NB (pos div 4096)) = p" using e1(3) by simp_all
  note E1 = extendedD [OF e1(1)]
  have "p \<in> ic_pool c1" using tree_at_used [OF E1(3), of "NB (pos div 4096)"] p used_pool by auto
  from ic_read_spec [OF E1(1) pool_bound [OF E1(1) this]] obtain c1' where
    rd: "ic_read c1 p = Some (Inr (ic_view c1 p), c1')" "quiet c1 c1'" by (auto simp: quiet_def)
  let ?part = "pos mod 4096 \<noteq> 0 \<or> n \<noteq> 4096"
  define bbuf where "bbuf = (if ?part then ic_view c1 p else replicate 4096 0)"
  define c2 where "c2 = (if ?part then c1' else c1)"
  have q: "quiet c1 c2" using rd(2) quiet_refl [OF E1(1)] by (simp add: c2_def)
  have len: "length bbuf = 4096" by (simp add: bbuf_def ic_view_length [OF E1(1)])
  have fit: "pos mod 4096 + n \<le> 4096" using n(2) by (simp add: le_diff_conv2)
  let ?data = "splice (pos mod 4096) bytes bbuf"
  note g = grows_quiet [OF q E1(3)]
  have p2: "nodes_at c2 a (NB (pos div 4096)) = p" using g(3) p(2) by simp
  have "length ?data = 4096" using fit len n(3) by (simp add: length_splice)
  from data_write [OF quietD(1) [OF q] g(2) p2 p(1) this] obtain c3 where
    w: "ic_write c2 p ?data = Some (0, c3)" "extended c2 a c3" "nodes_at c3 a = nodes_at c2 a"
      "\<And>k. fbyte c3 a k = (if k div 4096 = pos div 4096 then ?data ! (k mod 4096) else fbyte c2 a k)" by blast
  have nd: "nodes_at c3 a = nodes_at c1 a" using w(3) g(3) by simp
  have f2: "fbyte c2 a j = base c c3 a j" for j
    using fbyte_quiet [OF q E1(3)] e1(2) base_nodes [OF nd] by simp
  have "fbyte c3 a j = (if pos \<le> j \<and> j < pos + n then bytes ! (j - pos) else base c c3 a j)" for j
  proof (cases "j div 4096 = pos div 4096")
    case False
    then show ?thesis using w(4) f2 same_block [OF n(2), of j] by auto
  next
    case True
    have eq: "j = 4096 * (pos div 4096) + j mod 4096" "pos = 4096 * (pos div 4096) + pos mod 4096"
      using mult_div_mod_eq [of 4096 j] True by simp_all
    have d: "fbyte c3 a j = (if pos \<le> j \<and> j < pos + n then bytes ! (j mod 4096 - pos mod 4096) else bbuf ! (j mod 4096))"
      using w(4) [of j] True fit len n(3) same_block [OF n(2), of j] by (simp add: nth_splice)
    have "?part \<Longrightarrow> bbuf ! (j mod 4096) = fbyte c1 a j" using True p by (simp add: bbuf_def fbyte_def)
    moreover have "fbyte c1 a j = base c c3 a j" using e1(2) base_nodes [OF nd] by simp
    moreover have "\<not> ?part \<Longrightarrow> pos \<le> j \<and> j < pos + n" using True same_block [OF n(2), of j] by auto
    moreover have "pos \<le> j \<Longrightarrow> j mod 4096 - pos mod 4096 = j - pos" using eq by linarith
    ultimately show ?thesis using d by (cases "?part"; cases "pos \<le> j \<and> j < pos + n") auto
  qed
  moreover have "extended c a c3"
    by (rule extended_trans [OF e1(1) extended_trans [OF quiet_extended [OF q E1(3)] w(2)]])
  moreover have "(if ?part then ic_read c1 p else Some (Inr (replicate BLOCK_SIZE 0), c1)) = Some (Inr bbuf, c2)"
    using rd(1) by (simp add: bbuf_def c2_def)
  moreover have "\<not> ic_oom c1" using E1(1) by (simp add: ic_ok_def)
  ultimately show ?thesis using len w(1) nd p by metis
qed

section \<open>The loop\<close>

definition wrote :: "inode_cache \<Rightarrow> inode_cache \<Rightarrow> addr \<Rightarrow> byte list \<Rightarrow> nat \<Rightarrow> nat \<Rightarrow> nat \<Rightarrow> bool" where
  "wrote c c' a src off k m \<longleftrightarrow>
     (\<forall>j. off + k \<le> j \<and> j < off + m \<longrightarrow> nodes_at c' a (NB (j div 4096)) \<noteq> 0) \<and>
     (\<forall>j. fbyte c' a j = (if off + k \<le> j \<and> j < off + m then src ! (j - off) else base c c' a j))"

lemma wrote_trans:
  assumes x: "extended c a d" "wrote c d a src off k l" and y: "extended d a e" "wrote d e a src off l m"
    and o: "k \<le> l" "l \<le> m"
  shows "wrote c e a src off k m"
proof -
  have mapped: "nodes_at e a (NB (j div 4096)) \<noteq> 0" if "off + k \<le> j" "j < off + m" for j
    using that x(2) y(2) extendedD(7) [OF y(1), of "j div 4096"] by (cases "j < off + l") (auto simp: wrote_def)
  have "fbyte e a j = (if off + k \<le> j \<and> j < off + m then src ! (j - off) else base c e a j)" for j
  proof (cases "off + l \<le> j \<and> j < off + m")
    case True
    then show ?thesis using y(2) o by (simp add: wrote_def)
  next
    case False
    let ?i = "j div 4096"
    have fe: "fbyte e a j = base d e a j" using y(2) False by (auto simp: wrote_def)
    have fd: "fbyte d a j = (if off + k \<le> j \<and> j < off + l then src ! (j - off) else base c d a j)"
      using x(2) by (simp add: wrote_def)
    have rng: "off + k \<le> j \<and> j < off + m \<longleftrightarrow> off + k \<le> j \<and> j < off + l" using False o by auto
    show ?thesis
    proof (cases "nodes_at d a (NB ?i) = 0")
      case True
      then have out: "\<not> (off + k \<le> j \<and> j < off + l)" using x(2) by (auto simp: wrote_def)
      have "base d e a j = base c e a j"
      proof (cases "nodes_at e a (NB ?i) = 0")
        case False
        then have "nodes_at e a (NB ?i) \<in> ic_pool d - ic_used d" using extendedD(8) [OF y(1) True] by simp
        then have "nodes_at e a (NB ?i) \<notin> blocks_at d a" using blocks_used [OF extendedD(3) [OF x(1)]] by blast
        then have "ic_view d (nodes_at e a (NB ?i)) = ic_view c (nodes_at e a (NB ?i))" by (rule extendedD(9) [OF x(1)])
        then show ?thesis by (simp add: base_def Let_def)
      qed (simp add: base_def)
      then show ?thesis using fe out rng by auto
    next
      case mapped: False
      then have same: "nodes_at e a (NB ?i) = nodes_at d a (NB ?i)" using extendedD(7) [OF y(1)] by simp
      then have "base d e a j = fbyte d a j" "base c e a j = base c d a j"
        by (simp_all add: base_def fbyte_def)
      then show ?thesis using fe fd rng by simp
    qed
  qed
  then show ?thesis using mapped by (simp add: wrote_def)
qed

lemma wrote_none:
  assumes "\<And>j. fbyte c' a j = base c c' a j"
  shows "wrote c c' a src off k k"
  using assms by (auto simp: wrote_def)

lemma write_loop_bytes:
  assumes "ic_ok c" "tree_at c a" "unat offset + unat sz \<le> MAX_FILE" "k \<le> sz" "length src = unat sz"
  shows "\<exists>r c'. write_loop jwrite c None a src offset sz k = Some (r, c', None) \<and> extended c a c' \<and>
     (case r of
        Inr n \<Rightarrow> n = sz \<and> wrote c c' a src (unat offset) (unat k) (unat sz)
      | Inl e \<Rightarrow> e = MODERNFS_ENOSPC \<and> ic_pool c \<subseteq> ic_used c' \<and>
          (\<exists>j. unat offset \<le> j \<and> j < unat offset + unat sz \<and> nodes_at c a (NB (j div 4096)) = 0) \<and>
          (\<exists>m. unat k \<le> m \<and> m < unat sz \<and> wrote c c' a src (unat offset) (unat k) m))"
  using assms
proof (induction "unat sz - unat k" arbitrary: c k rule: less_induct)
  case less
  note ok = less.prems(1) and t = less.prems(2) and mx = less.prems(3)
  show ?case
  proof (cases "k < sz")
    case False
    then have "k = sz" using less.prems(4) by simp
    moreover have "fbyte c a j = base c c a j" for j by (simp add: fbyte_def base_def)
    ultimately show ?thesis using extended_refl [OF ok t] wrote_none [of c a c]
      by (subst write_loop.simps) simp
  next
    case True
    let ?p = "unat offset + unat k" and ?n = "chunk (offset + k) (sz - k)"
    let ?k = "k + ucast ?n"
    note P = step_position [OF mx True] and S = chunk_step [OF True, of offset]
    have n: "unat ?n \<le> 4096 - ?p mod 4096" using P(1) by (simp add: unat_chunk)
    have lt: "unat k < unat sz" using True by (simp add: word_less_nat_alt)
    have bm: "bmap_result c a (?p div 4096) (inode_bmap c a (offset + k) True)"
      using inode_bmap_extends [OF ok t P(3)] P(2) by simp
    then obtain r1 c1 where b: "inode_bmap c a (offset + k) True = Some (r1, c1)"
      by (auto simp: bmap_result_def)
    show ?thesis
    proof (cases r1)
      case (Inl e)
      note x = bmap_extended [OF t bm [unfolded b Inl]]
      have "wrote c c1 a src (unat offset) (unat k) (unat k)" by (rule wrote_none) (rule x(2))
      moreover have "write_loop jwrite c None a src offset sz k = Some (Inl e, c1, None)"
        using True b Inl by (subst write_loop.simps) (simp add: Let_def)
      moreover have "nodes_at c a (NB (?p div 4096)) = 0"
        using bmap_mapped [OF ok t P(3)] b Inl P(2) by auto
      then have "\<exists>j. unat offset \<le> j \<and> j < unat offset + unat sz \<and> nodes_at c a (NB (j div 4096)) = 0"
        using lt by (intro exI [of _ ?p]) simp
      ultimately show ?thesis using x(1,3) lt by auto
    next
      case (Inr p)
      let ?bytes = "slice (unat k) (unat ?n) src"
      have sl: "buf_read src (unat k) (unat ?n) = Some ?bytes" "length ?bytes = unat ?n"
        using S(3) less.prems(5) by (simp_all add: buf_read_Some length_slice)
      from write_block [OF ok t P(3) P(1) [symmetric] S(2) n sl(2) b [unfolded Inr]] obtain bbuf c2 c3 where
        w: "\<not> ic_oom c1" "length bbuf = 4096"
          "(if ?p mod 4096 \<noteq> 0 \<or> unat ?n \<noteq> 4096 then ic_read c1 p else Some (Inr (replicate BLOCK_SIZE 0), c1)) = Some (Inr bbuf, c2)"
          "ic_write c2 p (splice (?p mod 4096) ?bytes bbuf) = Some (0, c3)" "extended c a c3"
          "nodes_at c3 a (NB (?p div 4096)) \<noteq> 0"
          "\<And>j. fbyte c3 a j = (if ?p \<le> j \<and> j < ?p + unat ?n then ?bytes ! (j - ?p) else base c c3 a j)" by blast
      have cond: "?n \<noteq> 4096 \<longleftrightarrow> unat ?n \<noteq> 4096" by (simp add: word_unat_eq_iff)
      have bw: "buf_write bbuf (?p mod 4096) ?bytes = Some (splice (?p mod 4096) ?bytes bbuf)"
        using n w(2) sl(2) by (intro buf_write_Some) (simp add: le_diff_conv2)
      have step: "write_loop jwrite c None a src offset sz k = write_loop jwrite c3 None a src offset sz ?k"
        using True b Inr w(1,3,4) sl(1) bw P(4) cond
        by (subst write_loop.simps) (simp add: Let_def)
      have k': "?k \<le> sz" "unat ?k = unat k + unat ?n" "unat sz - unat ?k < unat sz - unat k"
        using S True by (simp_all add: word_le_nat_alt word_less_nat_alt)
      have wr: "wrote c c3 a src (unat offset) (unat k) (unat ?k)"
        unfolding wrote_def
      proof (intro conjI allI impI)
        fix j assume j: "unat offset + unat k \<le> j \<and> j < unat offset + unat ?k"
        then have "j div 4096 = ?p div 4096" using same_block [OF n, of j] k'(2) by simp
        then show "nodes_at c3 a (NB (j div 4096)) \<noteq> 0" using w(6) by simp
      next
        fix j
        show "fbyte c3 a j = (if unat offset + unat k \<le> j \<and> j < unat offset + unat ?k then src ! (j - unat offset) else base c c3 a j)"
          using w(7) [of j] k'(2) S(3) less.prems(5) by (auto simp: nth_slice)
      qed
      note E = extendedD [OF w(5)]
      from less.hyps [OF k'(3) E(1,3) mx k'(1) less.prems(5)] obtain r c' where
        ih: "write_loop jwrite c3 None a src offset sz ?k = Some (r, c', None)" "extended c3 a c'"
          "case r of
             Inr n \<Rightarrow> n = sz \<and> wrote c3 c' a src (unat offset) (unat ?k) (unat sz)
           | Inl e \<Rightarrow> e = MODERNFS_ENOSPC \<and> ic_pool c3 \<subseteq> ic_used c' \<and>
               (\<exists>j. unat offset \<le> j \<and> j < unat offset + unat sz \<and> nodes_at c3 a (NB (j div 4096)) = 0) \<and>
               (\<exists>m. unat ?k \<le> m \<and> m < unat sz \<and> wrote c3 c' a src (unat offset) (unat ?k) m)" by blast
      note tr = wrote_trans [OF w(5) wr ih(2)]
      have kk: "unat k \<le> unat ?k" "unat ?k \<le> unat sz" using k'(1,2) by (simp_all add: word_le_nat_alt)
      show ?thesis
      proof (cases r)
        case (Inl e)
        with ih(3) obtain m where m: "e = MODERNFS_ENOSPC" "ic_pool c3 \<subseteq> ic_used c'" "unat ?k \<le> m" "m < unat sz"
          "wrote c3 c' a src (unat offset) (unat ?k) m" by auto
        from ih(3) Inl obtain j where j: "unat offset \<le> j" "j < unat offset + unat sz" "nodes_at c3 a (NB (j div 4096)) = 0" by auto
        have "nodes_at c a (NB (j div 4096)) = 0" using E(7) [of "j div 4096"] j(3) by metis
        then have "\<exists>j. unat offset \<le> j \<and> j < unat offset + unat sz \<and> nodes_at c a (NB (j div 4096)) = 0" using j(1,2) by blast
        moreover have "wrote c c' a src (unat offset) (unat k) m" by (rule tr [OF m(5) kk(1) m(3)])
        moreover have "unat k \<le> m" using kk(1) m(3) by linarith
        ultimately show ?thesis unfolding step ih(1) Inl using extended_trans [OF w(5) ih(2)] m(1,2,4) E(10) by auto
      next
        case (Inr n')
        then have "n' = sz" "wrote c3 c' a src (unat offset) (unat ?k) (unat sz)" using ih(3) by simp_all
        then show ?thesis unfolding step ih(1) Inr using extended_trans [OF w(5) ih(2)] tr [OF _ kk] by simp
      qed
    qed
  qed
qed

section \<open>The call\<close>

text \<open>What a write may touch outside the bytes of its file.\<close>

definition file_step :: "inode_cache \<Rightarrow> addr \<Rightarrow> inode_cache \<Rightarrow> bool" where
  "file_step c a c' \<longleftrightarrow> ic_ok c' \<and> ic_keep c c' \<and> tree_at c' a \<and> (\<forall>b. b \<noteq> a \<longrightarrow> ic_inodes c' b = ic_inodes c b) \<and>
     ic_used c \<subseteq> ic_used c' \<and> blocks_at c' a \<subseteq> blocks_at c a \<union> (ic_pool c - ic_used c) \<and>
     (\<forall>i. nodes_at c a (NB i) \<noteq> 0 \<longrightarrow> nodes_at c' a (NB i) = nodes_at c a (NB i)) \<and>
     (\<forall>i. nodes_at c a (NB i) = 0 \<longrightarrow> nodes_at c' a (NB i) = 0 \<or> nodes_at c' a (NB i) \<in> ic_pool c - ic_used c) \<and>
     (\<forall>x. x \<notin> blocks_at c' a \<longrightarrow> ic_view c' x = ic_view c x)"

lemma extended_step:
  assumes "extended c a c'"
  shows "file_step c a c'"
proof -
  from extendedD(11) [OF assms] obtain im where "ic_inodes c' = (ic_inodes c)(a \<mapsto> im)" by blast
  then show ?thesis
    using extendedD(1-4,9) [OF assms] extended_blocks(2) [OF assms] extendedD(7) [OF assms] extendedD(8) [OF assms]
    unfolding file_step_def by auto
qed

text \<open>Updating fields of the inode that are not block pointers.\<close>

lemma inode_fields_update:
  assumes ok: "ic_ok c" and t: "tree_at c a"
    and n: "\<And>im v. nodes (im_disk (f im)) v = nodes (im_disk im) v" "\<And>im. di_direct (im_disk (f im)) = di_direct (im_disk im)"
  shows "\<exists>c'. im_modify c a f = Some c' \<and> file_step c a c' \<and> nodes_at c' a = nodes_at c a \<and> ic_view c' = ic_view c \<and>
     ic_used c' = ic_used c \<and> ic_pool c' = ic_pool c \<and> fbyte c' a = fbyte c a \<and>
     ic_inodes c' a = map_option f (ic_inodes c a)"
proof -
  from t obtain im where im: "ic_inodes c a = Some im" and
    tk: "tree_ok (im_disk im) (ic_view c) (ic_used c)" by (auto simp: tree_at_def)
  from im_modify_spec [OF ok im, of f] obtain c' where
    c: "im_modify c a f = Some c'" "ic_ok c'" "ic_keep c c'" "ic_inodes c' = (ic_inodes c)(a \<mapsto> f im)"
      "ic_dev c' = ic_dev c" "ic_balloc c' = ic_balloc c" by blast
  have v: "ic_view c' = ic_view c" "ic_used c' = ic_used c" "ic_pool c' = ic_pool c"
    using c(5,6) by (simp_all add: ic_view_def ic_used_def ic_pool_def)
  have nd: "nodes_at c' a = nodes_at c a" using n(1) im c(4) v(1) by (simp add: nodes_at_def)
  have "tree_ok (im_disk (f im)) (ic_view c) (ic_used c)"
    by (rule tree_ok_nodes [OF tk n(1)]) (use n(2) tree_okD(1) [OF tk] in simp)
  then have "tree_at c' a" using c(4) v by (simp add: tree_at_def)
  moreover have "blocks_at c' a = blocks_at c a" by (simp add: blocks_at_def nd)
  moreover have "fbyte c' a = fbyte c a" unfolding fun_eq_iff fbyte_def nd v(1) by blast
  ultimately show ?thesis using c v nd im by (simp add: file_step_def)
qed

lemma file_step_trans:
  assumes "file_step c a d" "file_step d a e" "blocks_at d a \<subseteq> blocks_at e a"
  shows "file_step c a e"
proof -
  have p: "ic_pool d = ic_pool c" using assms(1) by (simp add: file_step_def ic_keep_fields(10))
  have "nodes_at e a (NB i) = 0 \<or> nodes_at e a (NB i) \<in> ic_pool c - ic_used c" if "nodes_at c a (NB i) = 0" for i
  proof (cases "nodes_at d a (NB i) = 0")
    case True
    then have "nodes_at e a (NB i) = 0 \<or> nodes_at e a (NB i) \<in> ic_pool d - ic_used d"
      using assms(2) unfolding file_step_def by blast
    then show ?thesis using assms(1) p unfolding file_step_def by blast
  next
    case False
    then have "nodes_at e a (NB i) = nodes_at d a (NB i)" using assms(2) unfolding file_step_def by blast
    then show ?thesis using assms(1) that False unfolding file_step_def by metis
  qed
  moreover have "ic_keep c e" using assms unfolding file_step_def by (blast intro: ic_keep_trans)
  moreover have "\<forall>x. x \<notin> blocks_at e a \<longrightarrow> ic_view e x = ic_view c x"
    using assms unfolding file_step_def by (metis subsetD)
  moreover have "blocks_at e a \<subseteq> blocks_at c a \<union> (ic_pool c - ic_used c)" "ic_used c \<subseteq> ic_used e"
    using assms p unfolding file_step_def by blast+
  moreover have "nodes_at c a (NB i) \<noteq> 0 \<longrightarrow> nodes_at e a (NB i) = nodes_at c a (NB i)" for i
    using assms unfolding file_step_def by metis
  ultimately show ?thesis using assms unfolding file_step_def by simp
qed

text \<open>The entry of a written inode: only pointers, counts, size and the modification time may change.\<close>

definition same_entry :: "inode_mem \<Rightarrow> inode_mem \<Rightarrow> bool" where
  "same_entry im im' \<longleftrightarrow> im' = im\<lparr>im_disk := im_disk im', im_dirty := im_dirty im'\<rparr> \<and> (im' = im \<or> im_dirty im') \<and>
     im_disk im' = (im_disk im)\<lparr>di_direct := di_direct (im_disk im'), di_indirect := di_indirect (im_disk im'),
       di_double_indirect := di_double_indirect (im_disk im'), di_blocks := di_blocks (im_disk im'),
       di_size := di_size (im_disk im'), di_mtime := di_mtime (im_disk im')\<rparr>"

lemma same_file_entry:
  assumes "same_file im im'"
  shows "same_entry im im'" "same_entry im (im'\<lparr>im_disk := (im_disk im')\<lparr>di_size := s, di_mtime := t\<rparr>, im_dirty := True\<rparr>)"
  using assms by (cases im; cases im'; cases "im_disk im"; cases "im_disk im'"; auto simp: same_file_def same_entry_def)+

text \<open>The update of size and time at the end of a write that went through.\<close>

lemma write_finish:
  fixes now :: u64
  assumes t: "tree_at c a" and x: "extended c a c1" and o: "unat (offset + sz) = unat offset + unat sz"
  defines "f \<equiv> \<lambda>im. im\<lparr>im_disk := (im_disk im)
                 \<lparr>di_size := (if di_size (im_disk im) < offset + sz then offset + sz else di_size (im_disk im)),
                  di_mtime := now\<rparr>, im_dirty := True\<rparr>"
  shows "\<exists>c'. im_modify c1 a f = Some c' \<and> file_step c a c' \<and> fsize c' a = max (fsize c a) (unat offset + unat sz) \<and>
     nodes_at c' a = nodes_at c1 a \<and> ic_view c' = ic_view c1 \<and> fbyte c' a = fbyte c1 a \<and>
     (\<exists>im im'. ic_inodes c a = Some im \<and> ic_inodes c' = (ic_inodes c)(a \<mapsto> im') \<and> same_entry im im')"
proof -
  note E = extendedD [OF x]
  from t obtain im0 where im0: "ic_inodes c a = Some im0" by (auto simp: tree_at_def)
  with E(11) obtain im where im: "ic_inodes c a = Some im0" "ic_inodes c1 a = Some im" "same_file im0 im"
    "ic_inodes c1 = (ic_inodes c)(a \<mapsto> im)" by auto
  have sz: "di_size (im_disk im) = di_size (im_disk im0)" using im(3) by (rule same_fileD)
  have nd: "nodes (im_disk (f im)) v = nodes (im_disk im) v" for im v
  proof
    show "nodes (im_disk (f im)) v n = nodes (im_disk im) v n" for n
      by (cases n) (simp_all add: file_block_def l1_ptr_def f_def)
  qed
  from inode_fields_update [OF E(1,3), of f, OF nd] obtain c' where
    c': "im_modify c1 a f = Some c'" "file_step c1 a c'" "nodes_at c' a = nodes_at c1 a" "ic_view c' = ic_view c1"
      "fbyte c' a = fbyte c1 a" "ic_inodes c' a = Some (f im)" using im(2) by (auto simp: f_def)
  moreover have "fsize c' a = max (fsize c a) (unat offset + unat sz)"
    using c'(6) im sz o by (simp add: fsize_def word_less_nat_alt max_def f_def)
  moreover have "file_step c a c'"
    by (rule file_step_trans [OF extended_step [OF x] c'(2)]) (simp add: blocks_at_def c'(3))
  moreover have "ic_inodes c' = (ic_inodes c)(a \<mapsto> f im)"
    using c'(2,6) im(4) by (auto simp: file_step_def fun_eq_iff)
  moreover have "same_entry im0 (f im)" unfolding f_def by (rule same_file_entry(2) [OF im(3)])
  ultimately show ?thesis using im(1) by blast
qed

lemma inode_write_entry:
  assumes ok: "ic_ok c" and t: "tree_at c a" and mx: "unat offset + unat sz \<le> MAX_FILE" and len: "length buf = unat sz"
  shows "\<exists>r c'. inode_write jwrite now c a buf offset sz None = Some (r, c', None) \<and> file_step c a c' \<and>
     (\<exists>im im'. ic_inodes c a = Some im \<and> ic_inodes c' = (ic_inodes c)(a \<mapsto> im') \<and> same_entry im im') \<and>
     (case r of
        Inr n \<Rightarrow> n = sz \<and> fsize c' a = max (fsize c a) (unat offset + unat sz) \<and>
          wrote c c' a buf (unat offset) 0 (unat sz)
      | Inl e \<Rightarrow> e = MODERNFS_ENOSPC \<and> ic_pool c \<subseteq> ic_used c' \<and> fsize c' a = fsize c a \<and>
          (\<exists>j. unat offset \<le> j \<and> j < unat offset + unat sz \<and> nodes_at c a (NB (j div 4096)) = 0) \<and>
          (\<exists>m < unat sz. wrote c c' a buf (unat offset) 0 m))"
proof -
  from write_loop_bytes [OF ok t mx word_zero_le len, of jwrite, unfolded unat_0] obtain r c1 where
    w: "write_loop jwrite c None a buf offset sz 0 = Some (r, c1, None)" "extended c a c1"
      "case r of
        Inr n \<Rightarrow> n = sz \<and> wrote c c1 a buf (unat offset) 0 (unat sz)
      | Inl e \<Rightarrow> e = MODERNFS_ENOSPC \<and> ic_pool c \<subseteq> ic_used c1 \<and>
          (\<exists>j. unat offset \<le> j \<and> j < unat offset + unat sz \<and> nodes_at c a (NB (j div 4096)) = 0) \<and> (\<exists>m. 0 \<le> m \<and> m < unat sz \<and> wrote c c1 a buf (unat offset) 0 m)"
    by blast
  note E = extendedD [OF w(2)]
  from t obtain im0 where im0: "ic_inodes c a = Some im0" by (auto simp: tree_at_def)
  from E(11) im0 obtain im where im: "ic_inodes c1 a = Some im" "same_file im0 im" "ic_inodes c1 = (ic_inodes c)(a \<mapsto> im)" by auto
  have sz: "di_size (im_disk im) = di_size (im_disk im0)" using im(2) by (rule same_fileD)
  show ?thesis
  proof (cases r)
    case (Inl e)
    then have "inode_write jwrite now c a buf offset sz None = Some (Inl e, c1, None)"
      using w(1) by (simp add: inode_write_def)
    moreover have "fsize c1 a = fsize c a" using im(1) im0 sz by (simp add: fsize_def)
    ultimately show ?thesis using w(3) Inl extended_step [OF w(2)] im0 im(3) same_file_entry(1) [OF im(2)] by auto
  next
    case (Inr n)
    have "unat (offset + sz) = unat offset + unat sz" using mx by (simp add: unat_word_ariths)
    from write_finish [OF t w(2) this, of now] obtain c' where
      c': "im_modify c1 a (\<lambda>im. im\<lparr>im_disk := (im_disk im)
                 \<lparr>di_size := (if di_size (im_disk im) < offset + sz then offset + sz else di_size (im_disk im)),
                  di_mtime := now\<rparr>, im_dirty := True\<rparr>) = Some c'" "file_step c a c'"
        "fsize c' a = max (fsize c a) (unat offset + unat sz)" "nodes_at c' a = nodes_at c1 a" "fbyte c' a = fbyte c1 a"
        "\<exists>im im'. ic_inodes c a = Some im \<and> ic_inodes c' = (ic_inodes c)(a \<mapsto> im') \<and> same_entry im im'" by blast
    have "inode_write jwrite now c a buf offset sz None = Some (Inr n, c', None)"
      using w(1) c'(1) Inr by (simp add: inode_write_def)
    moreover have "wrote c c' a buf (unat offset) 0 (unat sz)"
      using w(3) Inr c'(4,5) base_nodes [OF c'(4)] by (simp add: wrote_def)
    ultimately show ?thesis using w(3) Inr c'(2,3,6) by (intro exI [of _ "Inr n"] exI [of _ c']) simp
  qed
qed

lemma inode_write_bytes:
  assumes "ic_ok c" "tree_at c a" "unat offset + unat sz \<le> MAX_FILE" "length buf = unat sz"
  shows "\<exists>r c'. inode_write jwrite now c a buf offset sz None = Some (r, c', None) \<and> file_step c a c' \<and>
     (case r of
        Inr n \<Rightarrow> n = sz \<and> fsize c' a = max (fsize c a) (unat offset + unat sz) \<and>
          wrote c c' a buf (unat offset) 0 (unat sz)
      | Inl e \<Rightarrow> e = MODERNFS_ENOSPC \<and> ic_pool c \<subseteq> ic_used c' \<and> fsize c' a = fsize c a \<and>
          (\<exists>m < unat sz. wrote c c' a buf (unat offset) 0 m))"
proof -
  from inode_write_entry [OF assms, of jwrite now] obtain r c' where
    "inode_write jwrite now c a buf offset sz None = Some (r, c', None)" "file_step c a c'"
    "case r of
        Inr n \<Rightarrow> n = sz \<and> fsize c' a = max (fsize c a) (unat offset + unat sz) \<and> wrote c c' a buf (unat offset) 0 (unat sz)
      | Inl e \<Rightarrow> e = MODERNFS_ENOSPC \<and> ic_pool c \<subseteq> ic_used c' \<and> fsize c' a = fsize c a \<and>
          (\<exists>j. unat offset \<le> j \<and> j < unat offset + unat sz \<and> nodes_at c a (NB (j div 4096)) = 0) \<and>
          (\<exists>m < unat sz. wrote c c' a buf (unat offset) 0 m)" by blast
  then show ?thesis by (cases r) auto
qed

section \<open>Other files\<close>

lemma file_step_other:
  assumes s: "file_step c a c'" and t: "tree_at c b" and ne: "b \<noteq> a" and dj: "blocks_at c a \<inter> blocks_at c b = {}"
  shows "nodes_at c' b = nodes_at c b" "fbyte c' b = fbyte c b" "tree_at c' b" "blocks_at c' a \<inter> blocks_at c' b = {}"
    "file_bytes c' b = file_bytes c b"
proof -
  have i: "ic_inodes c' b = ic_inodes c b" using s ne by (simp add: file_step_def)
  from t obtain im where im: "ic_inodes c b = Some im" "tree_ok (im_disk im) (ic_view c) (ic_used c)"
    "nodes_at c b = nodes (im_disk im) (ic_view c)" "ptrs_at c b = pointer_blocks (im_disk im) (ic_view c)"
    by (rule tree_atD)
  have d: "blocks_at c' a \<inter> blocks_at c b = {}" using s dj blocks_used [OF t] by (auto simp: file_step_def)
  then have v: "x \<in> blocks_at c b \<Longrightarrow> ic_view c' x = ic_view c x" for x using s by (auto simp: file_step_def)
  then have vp: "x \<in> pointer_blocks (im_disk im) (ic_view c) \<Longrightarrow> ic_view c' x = ic_view c x" for x
    using im(4) by (simp add: blocks_ptrs)
  show n: "nodes_at c' b = nodes_at c b" using nodes_cong [OF vp] im(1,3) i by (simp add: nodes_at_def)
  have bl: "blocks_at c' b = blocks_at c b" by (simp add: blocks_at_def n)
  show "blocks_at c' a \<inter> blocks_at c' b = {}" using d bl by simp
  show "fbyte c' b = fbyte c b"
  proof
    fix k
    have "nodes_at c b (NB (k div 4096)) \<noteq> 0 \<Longrightarrow> nodes_at c b (NB (k div 4096)) \<in> blocks_at c b"
      by (auto simp: blocks_ptrs)
    then show "fbyte c' b k = fbyte c b k" using v by (simp add: fbyte_def n Let_def)
  qed
  then show "file_bytes c' b = file_bytes c b" using i by (simp add: file_bytes_def fsize_def)
  have ok: "ic_ok c'" using s by (simp add: file_step_def)
  have "tree_ok (im_disk im) (ic_view c') (ic_used c)"
    by (rule tree_ok_cong [OF im(2) vp]) (simp_all add: ic_view_length [OF ok])
  then have "tree_ok (im_disk im) (ic_view c') (ic_used c')"
    by (rule tree_ok_mono) (use s in \<open>simp add: file_step_def\<close>)
  then show "tree_at c' b" using im(1) i by (simp add: tree_at_def)
qed

end
