(* ===== verification/Inode_Truncate.thy ===== *)
theory Inode_Truncate
  imports Inode_Write
begin

text \<open>
  What \<open>inode_truncate\<close> does to the blocks it drops: they are released in the allocator, and the
  pointers to them stay in the inode.
\<close>

section \<open>Steps of the loop\<close>

text \<open>The state of the loop: only the allocator and the block count of the inode change.\<close>

definition shrinks :: "inode_cache \<Rightarrow> addr \<Rightarrow> block_t set \<Rightarrow> inode_cache \<Rightarrow> bool" where
  "shrinks c a F c' \<longleftrightarrow> ic_ok c' \<and> ic_keep c c' \<and> ic_view c' = ic_view c \<and> ic_used c' = ic_used c - F \<and>
     (\<exists>im n. ic_inodes c a = Some im \<and>
        ic_inodes c' = (ic_inodes c)(a \<mapsto> im\<lparr>im_disk := (im_disk im)\<lparr>di_blocks := n\<rparr>\<rparr>))"

lemma shrinks_refl:
  assumes "ic_ok c" "ic_inodes c a = Some im"
  shows "shrinks c a {} c"
proof -
  have "ic_inodes c = (ic_inodes c)(a \<mapsto> im\<lparr>im_disk := (im_disk im)\<lparr>di_blocks := di_blocks (im_disk im)\<rparr>\<rparr>)"
    using assms(2) by auto
  then show ?thesis unfolding shrinks_def using assms ic_keep_refl by blast
qed

lemma shrinks_trans:
  assumes "shrinks c a F d" "shrinks d a G e"
  shows "shrinks c a (F \<union> G) e"
proof -
  from assms obtain x y m n where "ic_inodes c a = Some x"
    "ic_inodes d = (ic_inodes c)(a \<mapsto> x\<lparr>im_disk := (im_disk x)\<lparr>di_blocks := m\<rparr>\<rparr>)" "ic_inodes d a = Some y"
    "ic_inodes e = (ic_inodes d)(a \<mapsto> y\<lparr>im_disk := (im_disk y)\<lparr>di_blocks := n\<rparr>\<rparr>)" unfolding shrinks_def by blast
  then have "ic_inodes c a = Some x \<and> ic_inodes e = (ic_inodes c)(a \<mapsto> x\<lparr>im_disk := (im_disk x)\<lparr>di_blocks := n\<rparr>\<rparr>)"
    by auto
  moreover have "ic_used e = ic_used c - (F \<union> G)" using assms by (auto simp: shrinks_def)
  ultimately show ?thesis using assms ic_keep_trans [of c d e] unfolding shrinks_def by auto
qed

lemma shrinks_inode:
  assumes "shrinks c a F c'" "ic_inodes c a = Some im"
  obtains n where "ic_inodes c' a = Some (im\<lparr>im_disk := (im_disk im)\<lparr>di_blocks := n\<rparr>\<rparr>)"
  using assms by (auto simp: shrinks_def)

text \<open>Releasing one block.\<close>

lemma free_one:
  assumes ok: "ic_ok c" and a: "ic_inodes c a = Some im"
  shows "\<exists>e c1 c2. ic_free c b = Some (e, c1) \<and>
     im_modify c1 a (\<lambda>im. im\<lparr>im_disk := (im_disk im)\<lparr>di_blocks := di_blocks (im_disk im) - 1\<rparr>\<rparr>) = Some c2 \<and>
     shrinks c a {b} c2"
proof -
  from ic_free_spec [OF ok, of b] obtain e c1 where
    1: "ic_free c b = Some (e, c1)" "ic_ok c1" "ic_keep c c1" "ic_inodes c1 = ic_inodes c" "ic_dev c1 = ic_dev c"
      "ic_used c1 = ic_used c - {b}" by blast
  have a1: "ic_inodes c1 a = Some im" using 1(4) a by simp
  let ?f = "\<lambda>im. im\<lparr>im_disk := (im_disk im)\<lparr>di_blocks := di_blocks (im_disk im) - 1\<rparr>\<rparr>"
  from im_modify_spec [OF 1(2) a1, of ?f] obtain c2 where
    2: "im_modify c1 a ?f = Some c2" "ic_ok c2" "ic_keep c1 c2" "ic_inodes c2 = (ic_inodes c1)(a \<mapsto> ?f im)"
      "ic_dev c2 = ic_dev c1" "ic_balloc c2 = ic_balloc c1" by blast
  have "shrinks c a {b} c2"
    unfolding shrinks_def using 1 2 a ic_keep_trans [OF 1(3) 2(3)]
    by (auto simp: ic_view_def ic_used_def)
  then show ?thesis using 1(1) 2(1) by blast
qed

lemma bmap_direct_found:
  assumes "ic_inodes c a = Some im" "(ucast (off div 4096) :: u32) < 12"
  shows "inode_bmap c a off False = Some (Inr (di_direct (im_disk im) ! unat (ucast (off div 4096) :: u32)), c)"
  using assms by (simp add: inode_bmap_def bmap_direct_def Let_def)

section \<open>Direct blocks\<close>

lemma direct_offset:
  assumes "i < (12 :: u32)"
  shows "ucast ((ucast (i * 4096) :: u64) div 4096) = i"
proof -
  have i: "unat i < 12" using assms by (simp add: word_less_nat_alt)
  then have "unat (i * 4096) = unat i * 4096" by (simp add: unat_word_ariths)
  then have "unat ((ucast (i * 4096) :: u64) div 4096) = unat i" by (simp add: unat_div)
  then show ?thesis using i
    by (simp add: word_unat_eq_iff unsigned_ucast_eq take_bit_nat_eq_self_iff order_less_trans [of _ 12])
qed

lemma truncate_loop_direct:
  assumes "ic_ok c" "ic_inodes c a = Some im" "n \<le> 12"
  shows "\<exists>c'. truncate_loop c a i n = Some c' \<and>
     shrinks c a ({di_direct (im_disk im) ! k | k. unat i \<le> k \<and> k < unat n} - {0}) c'"
  using assms
proof (induction "unat n - unat i" arbitrary: c i im rule: less_induct)
  case less
  show ?case
  proof (cases "i < n")
    case False
    then have "unat n \<le> unat i" by (simp add: not_less word_le_nat_alt)
    then have e: "{di_direct (im_disk im) ! k | k. unat i \<le> k \<and> k < unat n} = {}" by auto
    show ?thesis using False shrinks_refl [OF less.prems(1,2)] unfolding e by (subst truncate_loop.simps) simp
  next
    case True
    let ?b = "di_direct (im_disk im) ! unat i"
    have i12: "i < 12" using True less.prems(3) by simp
    have u: "unat (i + 1) = Suc (unat i)" using True by (rule unat_plus_one_less)
    have lt: "unat i < unat n" using True by (simp add: word_less_nat_alt)
    have m: "inode_bmap c a (ucast (i * 4096)) False = Some (Inr ?b, c)"
      using bmap_direct_found [OF less.prems(2), of "ucast (i * 4096)"] direct_offset [OF i12] i12 by simp
    have S: "{di_direct (im_disk im) ! k | k. unat i \<le> k \<and> k < unat n} =
      insert ?b {di_direct (im_disk im) ! k | k. unat (i + 1) \<le> k \<and> k < unat n}"
      unfolding u using lt by (auto simp: less_eq_Suc_le) (metis Suc_leI le_neq_implies_less)
    have dec: "unat n - unat (i + 1) < unat n - unat i" using u lt by simp
    show ?thesis
    proof (cases "?b = 0")
      case zero: True
      then have "truncate_loop c a i n = truncate_loop c a (i + 1) n"
        using True m by (subst truncate_loop.simps) simp
      then show ?thesis using less.hyps [OF dec less.prems] zero unfolding S by simp
    next
      case False
      from free_one [OF less.prems(1,2), of ?b] obtain e c1 c2 where
        f: "ic_free c ?b = Some (e, c1)"
          "im_modify c1 a (\<lambda>im. im\<lparr>im_disk := (im_disk im)\<lparr>di_blocks := di_blocks (im_disk im) - 1\<rparr>\<rparr>) = Some c2"
          "shrinks c a {?b} c2" by blast
      have step: "truncate_loop c a i n = truncate_loop c2 a (i + 1) n"
        using True m False f by (subst truncate_loop.simps) simp
      from shrinks_inode [OF f(3) less.prems(2)] obtain k where
        im2: "ic_inodes c2 a = Some (im\<lparr>im_disk := (im_disk im)\<lparr>di_blocks := k\<rparr>\<rparr>)" .
      have "ic_ok c2" using f(3) by (simp add: shrinks_def)
      from less.hyps [OF dec this im2 less.prems(3)] obtain c' where
        c': "truncate_loop c2 a (i + 1) n = Some c'"
          "shrinks c2 a ({di_direct (im_disk im) ! k | k. unat (i + 1) \<le> k \<and> k < unat n} - {0}) c'" by auto
      have "{?b} \<union> ({di_direct (im_disk im) ! k | k. unat (i + 1) \<le> k \<and> k < unat n} - {0}) =
        insert ?b {di_direct (im_disk im) ! k | k. unat (i + 1) \<le> k \<and> k < unat n} - {0}" using False by auto
      then show ?thesis using step c'(1) shrinks_trans [OF f(3) c'(2)] unfolding S by simp
    qed
  qed
qed

section \<open>The call\<close>

definition blocks_for :: "nat \<Rightarrow> nat" where
  "blocks_for n = (n + 4095) div 4096"

lemma unat_blocks_for:
  assumes "unat (n :: u64) \<le> 2 ^ 40"
  shows "unat (ucast ((n + 4096 - 1) div 4096) :: u32) = blocks_for (unat n)"
proof -
  have "unat (n + 4096 - 1) = unat n + 4095"
  proof -
    have "n + 4096 - 1 = n + 4095" by simp
    then show ?thesis using assms by (simp add: unat_word_ariths)
  qed
  then have "unat ((n + 4096 - 1) div 4096) = blocks_for (unat n)" by (simp add: unat_div blocks_for_def)
  moreover have "blocks_for (unat n) < 2 ^ 32" using assms by (simp add: blocks_for_def less_mult_imp_div_less)
  ultimately show ?thesis by (simp add: unsigned_ucast_eq take_bit_nat_eq_self_iff)
qed

lemma set_size_view:
  assumes ok: "ic_ok c" and a: "ic_inodes c a = Some im"
  shows "\<exists>c'. im_modify c a (\<lambda>im. im\<lparr>im_disk := (im_disk im)\<lparr>di_size := s\<rparr>, im_dirty := True\<rparr>) = Some c' \<and>
     ic_ok c' \<and> ic_keep c c' \<and> ic_view c' = ic_view c \<and> ic_used c' = ic_used c \<and>
     ic_inodes c' = (ic_inodes c)(a \<mapsto> im\<lparr>im_disk := (im_disk im)\<lparr>di_size := s\<rparr>, im_dirty := True\<rparr>)"
  using im_modify_spec [OF ok a, of "\<lambda>im. im\<lparr>im_disk := (im_disk im)\<lparr>di_size := s\<rparr>, im_dirty := True\<rparr>"]
  by (auto simp: ic_view_def ic_used_def)

lemma nodes_sizes [simp]: "nodes (di\<lparr>di_blocks := n, di_size := s\<rparr>) v = nodes di v" "nodes (di\<lparr>di_size := s\<rparr>) v = nodes di v"
proof -
  show "nodes (di\<lparr>di_size := s\<rparr>) v = nodes di v" for di
  proof
    show "nodes (di\<lparr>di_size := s\<rparr>) v n = nodes di v n" for n
      by (cases n) (simp_all add: file_block_def l1_ptr_def)
  qed
  from this [of "di\<lparr>di_blocks := n\<rparr>"] show "nodes (di\<lparr>di_blocks := n, di_size := s\<rparr>) v = nodes di v"
    by (simp add: nodes_blocks)
qed

lemma inode_truncate_direct:
  assumes ok: "ic_ok c" and t: "tree_at c a" and mx: "fsize c a \<le> 49152" and new: "unat new_size < fsize c a"
  shows "\<exists>c' n. inode_truncate c a new_size = Some (0, c') \<and> ic_ok c' \<and> ic_keep c c' \<and> ic_view c' = ic_view c \<and>
     ic_inodes c' = (ic_inodes c)(a \<mapsto> (the (ic_inodes c a))
       \<lparr>im_disk := (im_disk (the (ic_inodes c a)))\<lparr>di_blocks := n, di_size := new_size\<rparr>, im_dirty := True\<rparr>) \<and>
     fsize c' a = unat new_size \<and> nodes_at c' a = nodes_at c a \<and>
     ic_used c' = ic_used c - {nodes_at c a (NB i) | i. blocks_for (unat new_size) \<le> i \<and> i < blocks_for (fsize c a)}"
proof -
  from t obtain im where im: "ic_inodes c a = Some im" by (auto simp: tree_at_def)
  let ?s = "di_size (im_disk im)"
  have fs: "fsize c a = unat ?s" using im by (simp add: fsize_def)
  have nle: "\<not> ?s \<le> new_size" using new fs by (simp add: word_le_nat_alt)
  let ?nb = "ucast ((new_size + 4096 - 1) div 4096) :: u32" and ?ob = "ucast ((?s + 4096 - 1) div 4096) :: u32"
  have nb: "unat ?nb = blocks_for (unat new_size)" using new mx by (intro unat_blocks_for) simp
  have ob: "unat ?ob = blocks_for (unat ?s)" using mx fs by (intro unat_blocks_for) simp
  have o12: "blocks_for (unat ?s) \<le> 12" using mx fs by (simp add: blocks_for_def)
  then have "?ob \<le> 12" using ob by (simp add: word_le_nat_alt)
  from truncate_loop_direct [OF ok im this, of ?nb] obtain c1 where
    c1: "truncate_loop c a ?nb ?ob = Some c1"
      "shrinks c a ({di_direct (im_disk im) ! k | k. unat ?nb \<le> k \<and> k < unat ?ob} - {0}) c1" by blast
  from c1(2) im obtain n where i1: "ic_inodes c1 = (ic_inodes c)(a \<mapsto> im\<lparr>im_disk := (im_disk im)\<lparr>di_blocks := n\<rparr>\<rparr>)"
    and k1: "ic_keep c c1" by (auto simp: shrinks_def)
  then have im1: "ic_inodes c1 a = Some (im\<lparr>im_disk := (im_disk im)\<lparr>di_blocks := n\<rparr>\<rparr>)" by simp
  have s1: "ic_ok c1" "ic_view c1 = ic_view c"
    "ic_used c1 = ic_used c - ({di_direct (im_disk im) ! k | k. unat ?nb \<le> k \<and> k < unat ?ob} - {0})"
    using c1(2) by (simp_all add: shrinks_def)
  from set_size_view [OF s1(1) im1, of new_size] obtain c2 where
    c2: "im_modify c1 a (\<lambda>im. im\<lparr>im_disk := (im_disk im)\<lparr>di_size := new_size\<rparr>, im_dirty := True\<rparr>) = Some c2"
      "ic_ok c2" "ic_view c2 = ic_view c1" "ic_used c2 = ic_used c1"
      "ic_inodes c2 = (ic_inodes c)(a \<mapsto> im\<lparr>im_disk := (im_disk im)\<lparr>di_blocks := n, di_size := new_size\<rparr>, im_dirty := True\<rparr>)"
      "ic_keep c1 c2"
    using i1 by auto
  have run: "inode_truncate c a new_size = Some (0, c2)"
    using im nle c1(1) c2(1) by (simp add: inode_truncate_def Let_def)
  have direct: "nodes_at c a (NB k) = di_direct (im_disk im) ! k" if "k < blocks_for (unat ?s)" for k
    using that o12 im by (simp add: nodes_at_def file_block_def)
  have z: "0 \<notin> ic_used c" using zero_unused [OF ok] used_pool by blast
  have "{nodes_at c a (NB i) | i. blocks_for (unat new_size) \<le> i \<and> i < blocks_for (fsize c a)} =
    {di_direct (im_disk im) ! k | k. unat ?nb \<le> k \<and> k < unat ?ob}"
    using direct unfolding nb ob fs by metis
  then have "ic_used c2 = ic_used c - {nodes_at c a (NB i) | i. blocks_for (unat new_size) \<le> i \<and> i < blocks_for (fsize c a)}"
    using c2(4) s1(3) z by auto
  moreover have "nodes_at c2 a = nodes_at c a" using c2(3,5) s1(2) im by (simp add: nodes_at_def nodes_blocks)
  moreover have "fsize c2 a = unat new_size" using c2(5) by (simp add: fsize_def)
  moreover have "ic_view c2 = ic_view c" using c2(3) s1(2) by simp
  moreover have "ic_inodes c2 = (ic_inodes c)(a \<mapsto> (the (ic_inodes c a))
       \<lparr>im_disk := (im_disk (the (ic_inodes c a)))\<lparr>di_blocks := n, di_size := new_size\<rparr>, im_dirty := True\<rparr>)"
    using c2(5) im by simp
  ultimately show ?thesis using run c2(2) ic_keep_trans [OF k1 c2(6)] by blast
qed

section \<open>Beyond four gigabytes\<close>

text \<open>The 32-bit product \<open>i * BLOCK_SIZE\<close> of block 1048576 is zero.\<close>

lemma inode_truncate_wrap:
  assumes ok: "ic_ok c" and t: "tree_at c a" and s: "fsize c a = 2 ^ 32 + 4096" and nz: "nodes_at c a (NB 0) \<noteq> 0"
  shows "\<exists>c'. inode_truncate c a (2 ^ 32) = Some (0, c') \<and> nodes_at c' a = nodes_at c a \<and>
     ic_used c' = ic_used c - {nodes_at c a (NB 0)} \<and> fsize c' a = 2 ^ 32"
proof -
  from t obtain im where im: "ic_inodes c a = Some im" by (auto simp: tree_at_def)
  have sz: "di_size (im_disk im) = 2 ^ 32 + 4096" using s im by (simp add: fsize_def word_unat_eq_iff)
  let ?b = "di_direct (im_disk im) ! 0"
  have b: "nodes_at c a (NB 0) = ?b" using im by (simp add: nodes_at_def file_block_def)
  have m: "inode_bmap c a (ucast ((1048576 :: u32) * 4096)) False = Some (Inr ?b, c)"
    using bmap_direct_found [OF im, of 0] by simp
  from free_one [OF ok im, of ?b] obtain e c1 c2 where
    f: "ic_free c ?b = Some (e, c1)"
      "im_modify c1 a (\<lambda>im. im\<lparr>im_disk := (im_disk im)\<lparr>di_blocks := di_blocks (im_disk im) - 1\<rparr>\<rparr>) = Some c2"
      "shrinks c a {?b} c2" by blast
  have loop: "truncate_loop c a 1048576 1048577 = Some c2"
    using m f(1,2) nz b by (subst truncate_loop.simps) (subst truncate_loop.simps, simp)
  from shrinks_inode [OF f(3) im] obtain n where im1: "ic_inodes c2 a = Some (im\<lparr>im_disk := (im_disk im)\<lparr>di_blocks := n\<rparr>\<rparr>)" .
  have s1: "ic_ok c2" "ic_view c2 = ic_view c" "ic_used c2 = ic_used c - {?b}" using f(3) by (simp_all add: shrinks_def)
  from set_size_view [OF s1(1) im1, of "2 ^ 32"] obtain c3 where
    c3: "im_modify c2 a (\<lambda>im. im\<lparr>im_disk := (im_disk im)\<lparr>di_size := 2 ^ 32\<rparr>, im_dirty := True\<rparr>) = Some c3"
      "ic_view c3 = ic_view c2" "ic_used c3 = ic_used c2"
      "ic_inodes c3 a = Some (im\<lparr>im_disk := (im_disk im)\<lparr>di_blocks := n, di_size := 2 ^ 32\<rparr>, im_dirty := True\<rparr>)"
    by auto
  have "inode_truncate c a (2 ^ 32) = Some (0, c3)"
    using im sz loop c3(1) by (simp add: inode_truncate_def Let_def)
  moreover have "nodes_at c3 a = nodes_at c a" using c3(2,4) s1(2) im by (simp add: nodes_at_def nodes_blocks)
  moreover have "fsize c3 a = 2 ^ 32" using c3(4) by (simp add: fsize_def)
  ultimately show ?thesis using c3(3) s1(3) b by auto
qed

end
