(* ===== verification/Inode_Properties.thy ===== *)
theory Inode_Properties
  imports Inode_Truncate Instances Superblock
begin

text \<open>The properties of files: the block map, reading, writing and truncation.\<close>

section \<open>An instance\<close>

text \<open>
  An empty file at address 0 and one with a mapped block at address 1, over the device whose block
  10 holds ones; blocks 10 to 17 are the data region.
\<close>

definition demo_inode :: "disk_inode \<Rightarrow> inode_mem" where
  "demo_inode di = \<lparr>im_inum = 2, im_disk = di, im_ref_count = 1, im_valid = True, im_dirty = False,
     im_prev = None, im_next = None, im_hash_next = None\<rparr>"

definition demo_cache :: "block_allocator \<Rightarrow> (addr \<Rightarrow> inode_mem option) \<Rightarrow> inode_cache" where
  "demo_cache al ims = \<lparr>ic_dev = warm_dev, ic_balloc = al, ic_sb = superblock_init 1024 0 0, ic_inodes = ims,
     ic_max_inodes = 2, ic_lru_head = None, ic_lru_tail = None, ic_hash_table = [], ic_hash_size = 1,
     ic_inode_bitmap = [], ic_bitmap_blocks = 0, ic_oom = False\<rparr>"

definition empty_file :: inode_cache where
  "empty_file = demo_cache empty_alloc [0 \<mapsto> demo_inode zero_disk_inode]"

definition one_block :: "u64 \<Rightarrow> disk_inode" where
  "one_block s = zero_disk_inode\<lparr>di_direct := 10 # replicate 11 0, di_size := s, di_blocks := 1\<rparr>"

definition small_file :: "u64 \<Rightarrow> inode_cache" where
  "small_file s = demo_cache used_alloc [0 \<mapsto> demo_inode (one_block s)]"

lemma demo_cache_ok:
  "alloc_wf al \<Longrightarrow> ba_data_start al = 10 \<Longrightarrow> ba_total_blocks al = 8 \<Longrightarrow> ic_ok (demo_cache al ims)"
  by (simp add: ic_ok_def demo_cache_def dev_faulty_def)

lemma files_ok [simp]: "ic_ok empty_file" "ic_ok (small_file s)"
  by (simp_all add: empty_file_def small_file_def demo_cache_ok)

lemma warm_view: "dev_view warm_dev = (\<lambda>_. zeros)(10 := ones)"
  by (auto simp: dev_view_def seen_def fun_eq_iff)

lemma zero_direct: "i < 12 \<Longrightarrow> di_direct zero_disk_inode ! i = 0"
  "i < 12 \<Longrightarrow> (10 # replicate 11 (0 :: block_t)) ! i = (if i = 0 then 10 else 0)"
  by (simp_all add: zero_disk_inode_def nth_Cons' del: replicate.simps)

lemma zero_fields [simp]: "di_indirect zero_disk_inode = 0" "di_double_indirect zero_disk_inode = 0"
  "di_size zero_disk_inode = 0" "length (di_direct zero_disk_inode) = 12"
  by (simp_all add: zero_disk_inode_def)

lemma empty_nodes: "nodes zero_disk_inode v n = 0"
  by (cases n) (simp_all add: file_block_def l1_ptr_def zero_direct)

lemma small_nodes: "nodes (one_block s) v n = (if n = NB 0 then 10 else 0)"
  by (cases n) (auto simp: one_block_def file_block_def l1_ptr_def zero_direct simp del: replicate.simps)

lemma one_block_fields [simp]: "di_size (one_block s) = s" "length (di_direct (one_block s)) = 12"
  by (simp_all add: one_block_def)

lemma demo_fields [simp]:
  "ic_inodes (demo_cache al ims) = ims" "ic_dev (demo_cache al ims) = warm_dev" "ic_balloc (demo_cache al ims) = al"
  "im_disk (demo_inode di) = di" "ic_view (demo_cache al ims) = (\<lambda>_. zeros)(10 := ones)"
  "ic_used (demo_cache al ims) = allocated al"
  by (simp_all add: demo_cache_def demo_inode_def ic_view_def warm_view ic_used_def)

lemma empty_file_nodes [simp]: "nodes_at empty_file 0 n = 0" "ic_view empty_file = (\<lambda>_. zeros)(10 := ones)"
  "fsize empty_file 0 = 0" "ic_inodes empty_file 0 = Some (demo_inode zero_disk_inode)" "ic_used empty_file = {}"
  by (simp_all add: nodes_at_def empty_file_def empty_nodes fsize_def)

lemma small_file_nodes [simp]: "nodes_at (small_file s) 0 n = (if n = NB 0 then 10 else 0)"
  "ic_view (small_file s) = (\<lambda>_. zeros)(10 := ones)" "fsize (small_file s) 0 = unat s"
  "ic_inodes (small_file s) 0 = Some (demo_inode (one_block s))" "ic_used (small_file s) = allocated used_alloc"
  by (simp_all add: nodes_at_def small_file_def small_nodes fsize_def)

lemma files_tree [simp]: "tree_at empty_file 0" "tree_at (small_file s) 0"
  by (simp_all add: tree_at_def tree_ok_def empty_nodes small_nodes)

text \<open>An empty file when block 10, still full of ones, is the only free block.\<close>

definition last_block_file :: inode_cache where
  "last_block_file = demo_cache (empty_alloc\<lparr>ba_total_blocks := 1, ba_free_blocks := 1\<rparr>) [0 \<mapsto> demo_inode zero_disk_inode]"

lemma last_block_file [simp]: "ic_ok last_block_file" "nodes_at last_block_file 0 n = 0" "tree_at last_block_file 0"
  "ic_view last_block_file = (\<lambda>_. zeros)(10 := ones)" "fsize last_block_file 0 = 0"
  "ic_balloc last_block_file = empty_alloc\<lparr>ba_total_blocks := 1, ba_free_blocks := 1\<rparr>"
proof -
  let ?al = "empty_alloc\<lparr>ba_total_blocks := 1, ba_free_blocks := 1\<rparr>"
  have "free_bits (0 # replicate 4095 0) 1 = {0}" by (auto simp: free_bits_def)
  then have "alloc_wf ?al" by (simp add: alloc_wf_def)
  then show "ic_ok last_block_file"
    by (simp add: ic_ok_def last_block_file_def demo_cache_def dev_faulty_def)
qed (simp_all add: last_block_file_def nodes_at_def empty_nodes fsize_def tree_at_def tree_ok_def)

lemma last_block_bmap: "\<exists>c. inode_bmap last_block_file 0 1 True = Some (Inr 10, c)"
proof -
  have "\<exists>al. block_alloc (empty_alloc\<lparr>ba_total_blocks := 1, ba_free_blocks := 1\<rparr>) = Some (10, al)"
    by (simp add: block_alloc_def find_free.simps [of _ _ 0] bitmap_test_def bitmap_set_def)
  then show ?thesis
    by (auto simp: inode_bmap_def bmap_direct_def ic_alloc_def im_modify_def last_block_file_def demo_cache_def
        demo_inode_def zero_direct)
qed

text \<open>An empty file at address 0 beside the file of block 10 at address 5.\<close>

definition two_files :: inode_cache where
  "two_files = demo_cache used_alloc [0 \<mapsto> demo_inode zero_disk_inode, 5 \<mapsto> demo_inode (one_block 3)]"

lemma two_files [simp]: "ic_ok two_files" "tree_at two_files 0" "tree_at two_files 5"
  "blocks_at two_files 0 = {}" "fbyte two_files 5 0 = 1" "fsize two_files 5 = 3"
  by (simp_all add: two_files_def demo_cache_ok tree_at_def tree_ok_def empty_nodes small_nodes blocks_at_def
      nodes_at_def fsize_def fbyte_def Let_def
      small_nodes [of _ _ "NB 0", simplified])

section \<open>The block map\<close>

text \<open>A lookup of \<open>inode_bmap\<close> on a well-formed file returns the block the direct, indirect and
  double-indirect pointers give for the offset, 0 for a hole, and changes nothing a reader can see.\<close>
theorem inode_bmap_lookup_correct:
  assumes "ic_ok c" "tree_at c a" "file_index offset < 1049612"
  shows "\<exists>c'. inode_bmap c a offset False = Some (Inr (nodes_at c a (NB (file_index offset))), c') \<and> quiet c c'"
  by (rule bmap_lookup_at [OF assms])

theorem inode_bmap_lookup_correct_witness:
  "\<exists>c'. inode_bmap (small_file 1) 0 5000 False = Some (Inr 0, c')"
  using inode_bmap_lookup_correct [of "small_file 1" 0 5000] by (auto simp: file_index_def)

text \<open>C24: the allocating call keeps the file a tree: no block is used twice, every block of it is
  allocated, mapped positions keep their blocks, and the requested one gets its old block or a block
  that was free.  It fails only with \<open>MODERNFS_ENOSPC\<close>, when the pool is exhausted, and then the map
  from positions to blocks is unchanged.\<close>
theorem inode_bmap_alloc_correct:
  assumes "ic_ok c" "tree_at c a" "file_index offset < 1049612"
  shows "\<exists>r c'. inode_bmap c a offset True = Some (r, c') \<and> ic_ok c' \<and> tree_at c' a \<and> ic_used c \<subseteq> ic_used c' \<and>
     (case r of
        Inl e \<Rightarrow> e = MODERNFS_ENOSPC \<and> ic_pool c \<subseteq> ic_used c' \<and> (\<forall>j. nodes_at c' a (NB j) = nodes_at c a (NB j))
      | Inr p \<Rightarrow> p \<in> ic_used c' \<and>
          (\<forall>j. nodes_at c' a (NB j) = (if j = file_index offset then p else nodes_at c a (NB j))) \<and>
          (if nodes_at c a (NB (file_index offset)) = 0 then p \<in> ic_pool c - ic_used c
           else p = nodes_at c a (NB (file_index offset))))"
proof -
  from inode_bmap_extends [OF assms] obtain r c' where
    r: "inode_bmap c a offset True = Some (r, c')" "grows c a c'" and
    s: "case r of
        Inl e \<Rightarrow> e = MODERNFS_ENOSPC \<and> (\<forall>j. nodes_at c' a (NB j) = nodes_at c a (NB j)) \<and> ic_pool c \<subseteq> ic_used c'
      | Inr p \<Rightarrow> p \<noteq> 0 \<and> p \<in> ic_used c' \<and> nodes_at c' a (NB (file_index offset)) = p \<and>
          (\<forall>j. j \<noteq> file_index offset \<longrightarrow> nodes_at c' a (NB j) = nodes_at c a (NB j)) \<and>
          (if nodes_at c a (NB (file_index offset)) = 0 then p \<in> ic_pool c - ic_used c
           else p = nodes_at c a (NB (file_index offset)))"
    unfolding bmap_result_def by blast
  note g = growsD(1,3,4) [OF r(2)]
  show ?thesis
    by (rule exI [of _ r], rule exI [of _ c']) (use r(1) g s in \<open>cases r; auto\<close>)
qed

theorem inode_bmap_alloc_correct_witness:
  "\<exists>r c'. inode_bmap empty_file 0 0 True = Some (r, c') \<and> tree_at c' 0"
  using inode_bmap_alloc_correct [of empty_file 0 0] by (auto simp: file_index_def)

section \<open>Reading and writing\<close>

text \<open>\<open>inode_read\<close> returns the requested range of the file, cut at its end, with holes read as
  zeros; it changes the access time and nothing else.\<close>
theorem inode_read_correct:
  assumes "ic_ok c" "tree_at c a" "fsize c a \<le> MAX_FILE" "unat offset + unat sz < 2 ^ 64"
  shows "\<exists>c'. inode_read now c a offset sz = Some (Inr (take (unat sz) (drop (unat offset) (file_bytes c a))), c') \<and>
     reads c a c' \<and> tree_at c' a \<and> file_bytes c' a = file_bytes c a"
proof -
  from inode_read_bytes [OF assms] obtain c' where
    "inode_read now c a offset sz = Some (Inr (take (unat sz) (drop (unat offset) (file_bytes c a))), c')"
    "reads c a c'" by blast
  then show ?thesis using readsD(6,9) [OF _ assms(2)] by blast
qed

theorem inode_read_correct_witness:
  "\<exists>c'. inode_read 7 (small_file 3) 0 1 100 = Some (Inr [1, 1], c')"
proof -
  have f: "k < 3 \<Longrightarrow> fbyte (small_file 3) 0 k = 1" for k by (simp add: fbyte_def)
  have "[0..<3] = [0, 1, 2 :: nat]" by (simp add: upt_rec)
  then have b: "file_bytes (small_file 3) 0 = [1, 1, 1]" by (simp add: file_bytes_def f)
  from inode_read_correct [of "small_file 3" 0 1 100 7] show ?thesis by (auto simp: b)
qed

text \<open>\<open>inode_write\<close> without a transaction.  On success the range holds the new bytes and the size
  covers it; every other byte is what its block held.  It fails only with \<open>MODERNFS_ENOSPC\<close> on a full
  pool; then a prefix is written and the size is the old one.\<close>
theorem inode_write_correct:
  assumes "ic_ok c" "tree_at c a" "unat offset + unat sz \<le> MAX_FILE" "length buf = unat sz"
  shows "\<exists>r c'. inode_write jwrite now c a buf offset sz None = Some (r, c', None) \<and> file_step c a c' \<and>
     (case r of
        Inr n \<Rightarrow> n = sz \<and> fsize c' a = max (fsize c a) (unat offset + unat sz) \<and>
          wrote c c' a buf (unat offset) 0 (unat sz)
      | Inl e \<Rightarrow> e = MODERNFS_ENOSPC \<and> ic_pool c \<subseteq> ic_used c' \<and> fsize c' a = fsize c a \<and>
          (\<exists>m < unat sz. wrote c c' a buf (unat offset) 0 m))"
  by (rule inode_write_bytes [OF assms])

theorem inode_write_correct_witness:
  "\<exists>r c'. inode_write (\<lambda>t _ _. (0, t)) 7 (small_file 3) 0 [9] 1 1 None = Some (r, c', None :: nat option) \<and>
     file_step (small_file 3) 0 c'"
  using inode_write_correct [of "small_file 3" 0 1 1 "[9]" "\<lambda>t _ _. (0, t)" 7] by auto

text \<open>What \<open>inode_write\<close> wrote, \<open>inode_read\<close> returns.\<close>
theorem inode_read_after_write:
  assumes "ic_ok c" "tree_at c a" "unat offset + unat sz \<le> MAX_FILE" "length buf = unat sz" "fsize c a \<le> MAX_FILE"
    and "inode_write jwrite now c a buf offset sz None = Some (Inr n, c1, None)"
  shows "n = sz \<and> (\<exists>c2. inode_read later c1 a offset sz = Some (Inr buf, c2))"
proof -
  from inode_write_bytes [OF assms(1-4), of jwrite now] assms(6) have
    w: "file_step c a c1" "n = sz" "fsize c1 a = max (fsize c a) (unat offset + unat sz)"
      "wrote c c1 a buf (unat offset) 0 (unat sz)" by auto
  have c1: "ic_ok c1" "tree_at c1 a" "fsize c1 a \<le> MAX_FILE" "unat offset + unat sz < 2 ^ 64"
    using w(1,3) assms(3,5) by (simp_all add: file_step_def)
  have "map (fbyte c1 a) [unat offset..<min (unat offset + unat sz) (fsize c1 a)] = buf"
    using w(3,4) assms(4) by (intro nth_equalityI) (auto simp: wrote_def)
  then show ?thesis using inode_read_bytes [OF c1, of later] w(2) unfolding file_bytes_slice by auto
qed

theorem inode_read_after_write_witness:
  "\<exists>n c1 c2. inode_write (\<lambda>t _ _. (0, t)) 7 (small_file 3) 0 [9] 1 1 None = Some (Inr n, c1, None :: nat option) \<and>
     inode_read 8 c1 0 1 1 = Some (Inr [9], c2)"
proof -
  have b: "inode_bmap (small_file 3) 0 1 True = Some (Inr 10, small_file 3)"
    by (simp add: inode_bmap_def bmap_direct_def one_block_def)
  from write_block [of "small_file 3" 0 1 1 1 "[9]" 10 "small_file 3"] b
  obtain bbuf c2 c3 where "\<not> ic_oom (small_file 3)" "length bbuf = 4096"
    "ic_read (small_file 3) 10 = Some (Inr bbuf, c2)" "ic_write c2 10 (splice 1 [9] bbuf) = Some (0, c3)"
    "extended (small_file 3) 0 c3" by (auto simp: file_index_def)
  moreover from this(5) obtain im where "ic_inodes c3 0 = Some im" by (auto simp: extended_def)
  ultimately have "\<exists>c1. inode_write (\<lambda>t _ _. (0, t)) 7 (small_file 3) 0 [9] 1 1 None = Some (Inr 1, c1, None :: nat option)"
    using b by (simp add: inode_write_def write_loop.simps [of _ _ _ _ _ _ _ 0] write_loop.simps [of _ _ _ _ _ _ _ 1]
        chunk_def buf_read_def buf_write_def slice_def im_modify_def)
  then obtain c1 where c1: "inode_write (\<lambda>t _ _. (0, t)) 7 (small_file 3) 0 [9] 1 1 None = Some (Inr 1, c1, None :: nat option)" ..
  from inode_read_after_write [OF _ _ _ _ _ c1, of 8] c1 show ?thesis by auto
qed

text \<open>Writing one file leaves every other file as it was: blocks, contents and well-formedness,
  and the two still share no block.\<close>
theorem inode_write_isolated:
  assumes "ic_ok c" "tree_at c a" "unat offset + unat sz \<le> MAX_FILE" "length buf = unat sz"
    and "tree_at c b" "b \<noteq> a" "blocks_at c a \<inter> blocks_at c b = {}"
  shows "\<exists>r c'. inode_write jwrite now c a buf offset sz None = Some (r, c', None) \<and> tree_at c' a \<and> tree_at c' b \<and>
     file_bytes c' b = file_bytes c b \<and> blocks_at c' a \<inter> blocks_at c' b = {}"
proof -
  from inode_write_bytes [OF assms(1-4), of jwrite now] obtain r c' where
    "inode_write jwrite now c a buf offset sz None = Some (r, c', None)" "file_step c a c'" by blast
  with file_step_other [OF this(2) assms(5-7)] show ?thesis by (auto simp: file_step_def)
qed


theorem inode_write_isolated_witness:
  "\<exists>r c'. inode_write (\<lambda>t _ _. (0, t)) 7 two_files 0 [9] 0 1 None = Some (r, c', None :: nat option) \<and>
     fbyte c' 5 0 = 1"
proof -
  have f: "file_bytes c 5 ! 0 = fbyte c 5 0" if "0 < fsize c 5" for c using that by (simp add: file_bytes_def)
  from inode_write_isolated [of two_files 0 0 1 "[9]" 5 "\<lambda>t _ _. (0, t)" 7] obtain r c' where
    w: "inode_write (\<lambda>t _ _. (0, t)) 7 two_files 0 [9] 0 1 None = Some (r, c', None :: nat option)"
      "file_bytes c' 5 = file_bytes two_files 5" by auto
  then have "length (file_bytes c' 5) = 3" by (simp add: file_bytes_def)
  then have "fbyte c' 5 0 = 1" using f [of c'] f [of two_files] w(2) by (simp add: file_bytes_def)
  then show ?thesis using w(1) by auto
qed

text \<open>C25: a block newly allocated by \<open>inode_write\<close> is not cleared: outside the written range the file
  shows what the block held while it was free, for instance bytes of a deleted file.\<close>
theorem inode_write_exposes_old_data:
  assumes "ic_ok c" "tree_at c a" "unat offset + unat sz \<le> MAX_FILE" "length buf = unat sz"
    and "inode_write jwrite now c a buf offset sz None = Some (Inr n, c1, None)"
    and "nodes_at c a (NB (k div 4096)) = 0" "nodes_at c1 a (NB (k div 4096)) \<noteq> 0"
    and "k < unat offset \<or> unat offset + unat sz \<le> k"
  shows "nodes_at c1 a (NB (k div 4096)) \<in> ic_pool c - ic_used c \<and>
     fbyte c1 a k = ic_view c (nodes_at c1 a (NB (k div 4096))) ! (k mod 4096)"
proof -
  from inode_write_bytes [OF assms(1-4), of jwrite now] assms(5) have
    w: "file_step c a c1" "wrote c c1 a buf (unat offset) 0 (unat sz)" by auto
  then show ?thesis using assms(6-8) by (auto simp: wrote_def base_def file_step_def Let_def)
qed

theorem inode_write_exposes_old_data_witness:
  "\<exists>n c1. inode_write (\<lambda>t _ _. (0, t)) 7 last_block_file 0 [9] 1 1 None = Some (Inr n, c1, None :: nat option) \<and>
     fbyte c1 0 0 = 1"
proof -
  let ?c = last_block_file
  obtain c0 where b: "inode_bmap ?c 0 1 True = Some (Inr 10, c0)" using last_block_bmap by blast
  from write_block [of ?c 0 1 1 1 "[9]" 10 c0] b
  obtain bbuf c2 c3 where w: "\<not> ic_oom c0" "length bbuf = 4096"
    "ic_read c0 10 = Some (Inr bbuf, c2)" "ic_write c2 10 (splice 1 [9] bbuf) = Some (0, c3)"
    "extended ?c 0 c3" "nodes_at c3 0 (NB 0) \<noteq> 0" by (auto simp: file_index_def)
  from w(5) obtain im where im: "ic_inodes c3 0 = Some im" by (auto simp: extended_def)
  obtain c1 where c1: "inode_write (\<lambda>t _ _. (0, t)) 7 ?c 0 [9] 1 1 None = Some (Inr 1, c1, None :: nat option)"
    and n: "nodes_at c1 0 (NB 0) = nodes_at c3 0 (NB 0)"
    using b w im by (simp add: inode_write_def write_loop.simps [of _ _ _ _ _ _ _ 0] write_loop.simps [of _ _ _ _ _ _ _ 1]
        chunk_def buf_read_def buf_write_def slice_def im_modify_def nodes_at_def file_block_def ic_view_def)
  have "x = 10" if "10 \<le> x" "unat x < 11" for x :: block_t
    using that by (simp add: word_le_nat_alt word_unat_eq_iff)
  then have "nodes_at c1 0 (NB 0) = 10 \<and> fbyte c1 0 0 = 1"
    using inode_write_exposes_old_data [OF _ _ _ _ c1, of 0] w(6) n by (auto simp: ic_pool_def pool_def)
  then show ?thesis using c1 by blast
qed

section \<open>Truncation\<close>

text \<open>C26: shrinking a file of at most twelve blocks releases the blocks beyond the new end, and leaves
  the pointers to them in the inode, so that a later extension reads and writes released blocks.\<close>
theorem inode_truncate_keeps_pointers:
  assumes "ic_ok c" "tree_at c a" "fsize c a \<le> 49152" "unat new_size < fsize c a"
  shows "\<exists>c'. inode_truncate c a new_size = Some (0, c') \<and> ic_view c' = ic_view c \<and> fsize c' a = unat new_size \<and>
     ic_used c' = ic_used c - {nodes_at c a (NB i) | i. blocks_for (unat new_size) \<le> i \<and> i < blocks_for (fsize c a)} \<and>
     nodes_at c' a = nodes_at c a"
  using inode_truncate_direct [OF assms] by blast

theorem inode_truncate_keeps_pointers_witness:
  "\<exists>c'. inode_truncate (small_file 1) 0 0 = Some (0, c') \<and> nodes_at c' 0 (NB 0) = 10 \<and> 10 \<notin> ic_used c'"
proof -
  have "blocks_for 0 = 0" "blocks_for 1 = 1" by (simp_all add: blocks_for_def)
  then show ?thesis using inode_truncate_keeps_pointers [of "small_file 1" 0 0] by auto
qed

text \<open>C27: for a file of 4 GiB and one block, cutting the last block releases block 0 instead: the
  offset \<open>i * BLOCK_SIZE\<close> of the loop is a 32-bit product.\<close>
theorem inode_truncate_wraps:
  assumes "ic_ok c" "tree_at c a" "fsize c a = 2 ^ 32 + 4096" "nodes_at c a (NB 0) \<noteq> 0"
  shows "\<exists>c'. inode_truncate c a (2 ^ 32) = Some (0, c') \<and> nodes_at c' a = nodes_at c a \<and>
     ic_used c' = ic_used c - {nodes_at c a (NB 0)} \<and> fsize c' a = 2 ^ 32"
  by (rule inode_truncate_wrap [OF assms])

theorem inode_truncate_wraps_witness:
  "\<exists>c'. inode_truncate (small_file (2 ^ 32 + 4096)) 0 (2 ^ 32) = Some (0, c') \<and> fsize c' 0 = 2 ^ 32 \<and> 10 \<notin> ic_used c'"
  using inode_truncate_wraps [of "small_file (2 ^ 32 + 4096)" 0] by auto

end
