(* ===== verification/Path.thy ===== *)
theory Path
  imports Prelude
begin

text \<open>
  \<open>src/path.c\<close>, the string half: splitting a path into components, \<open>path_normalize\<close>,
  \<open>path_basename\<close> and \<open>path_dirname\<close>.  A C string is its characters without the terminating NUL;
  an output buffer of \<open>size\<close> bytes is the string written to it, \<open>Inr\<close>, or the error code, \<open>Inl\<close>.
\<close>

section \<open>Components\<close>

abbreviation slash :: char where "slash \<equiv> CHR ''/''"

fun skip_slashes :: "string \<Rightarrow> string" where
  "skip_slashes [] = []"
| "skip_slashes (c # cs) = (if c = slash then skip_slashes cs else c # cs)"

text \<open>The copy loop: at most \<open>n\<close> characters, up to a slash or the end; what it copied and where it stopped.\<close>

fun copy_component :: "nat \<Rightarrow> string \<Rightarrow> string \<times> string" where
  "copy_component n [] = ([], [])"
| "copy_component n (c # cs) =
     (if c \<noteq> slash \<and> 0 < n then (case copy_component (n - 1) cs of (w, rest) \<Rightarrow> (c # w, rest))
      else ([], c # cs))"

text \<open>The path pointer is left alone at the end of the path.\<close>

definition get_next_component :: "string \<Rightarrow> nat \<Rightarrow> string option \<times> string" where
  "get_next_component path sz =
     (let p = skip_slashes path in
      if p = [] then (None, path)
      else (case copy_component (sz - 1) p of
              (component, p) \<Rightarrow> (if 0 < length component then Some component else None, p)))"

lemma skip_slashes_length: "length (skip_slashes p) \<le> length p"
  by (induction p) auto

lemma copy_component_append: "copy_component n p = (c, r) \<Longrightarrow> p = c @ r"
  by (induction n p arbitrary: c r rule: copy_component.induct) (auto split: if_splits prod.splits)

lemma get_next_component_shorter [termination_simp]:
  assumes "get_next_component p n = (Some c, p')"
  shows "length p' < length p"
proof -
  obtain c' r where c: "copy_component (n - 1) (skip_slashes p) = (c', r)" by fastforce
  then have "c' = c" "r = p'" "c \<noteq> []"
    using assms by (auto simp: get_next_component_def Let_def split: if_splits)
  then have "length (skip_slashes p) = length c + length p'" "0 < length c"
    using copy_component_append [OF c] by simp_all
  then show ?thesis using skip_slashes_length [of p] by linarith
qed

section \<open>Normalisation\<close>

text \<open>
  The collecting loop of \<open>path_normalize\<close>: \<open>components\<close> is the array, of 256 entries at most.
  \<open>oom\<close> makes \<open>strdup\<close> fail.
\<close>

function normalize_components :: "bool \<Rightarrow> string \<Rightarrow> string list \<Rightarrow> int + string list" where
  "normalize_components oom p components =
     (case get_next_component p (MAX_FILENAME + 1) of
        (None, _) \<Rightarrow> Inr components
      | (Some component, p') \<Rightarrow>
          if component = ''.'' then normalize_components oom p' components
          else if component = ''..'' then normalize_components oom p' (butlast components)
          else if 256 \<le> length components then Inl MODERNFS_EINVAL
          else if oom then Inl MODERNFS_ERROR
          else normalize_components oom p' (components @ [component]))"
  by pat_completeness auto
termination
  by (relation "measure (\<lambda>(oom, p, components). length p)")
     (auto dest: get_next_component_shorter [OF sym] get_next_component_shorter)

declare normalize_components.simps [simp del]

text \<open>
  The error exit of the output loop frees the whole array, of which the loop has already freed the
  first \<open>freed\<close> entries: freeing one of them again is undefined.
\<close>

definition free_components :: "nat \<Rightarrow> unit option" where
  "free_components freed = (if 0 < freed then None else Some ())"

fun emit_components :: "nat \<Rightarrow> nat \<Rightarrow> string \<Rightarrow> string list \<Rightarrow> (int + string) option" where
  "emit_components sz freed out [] = Some (Inr out)"
| "emit_components sz freed out (c # cs) =
     (if sz \<le> length out + length c + (if cs \<noteq> [] then 1 else 0)
      then do { free_components freed; Some (Inl MODERNFS_EINVAL) }
      else emit_components sz (Suc freed) (out @ c @ (if cs \<noteq> [] then [slash] else [])) cs)"

text \<open>Storing the terminating NUL: undefined outside the buffer.\<close>

definition terminate :: "nat \<Rightarrow> string \<Rightarrow> (int + string) option" where
  "terminate sz out = (if length out < sz then Some (Inr out) else None)"

definition is_absolute :: "string \<Rightarrow> bool" where
  "is_absolute path \<longleftrightarrow> (case path of [] \<Rightarrow> False | c # _ \<Rightarrow> c = slash)"

definition path_normalize :: "bool \<Rightarrow> string \<Rightarrow> nat \<Rightarrow> (int + string) option" where
  "path_normalize oom path sz =
     (if sz = 0 then Some (Inl MODERNFS_EINVAL)
      else case normalize_components oom path [] of
        Inl e \<Rightarrow> Some (Inl e)
      | Inr components \<Rightarrow>
          if is_absolute path \<and> sz \<le> 1 then Some (Inl MODERNFS_EINVAL)
          else (case emit_components sz 0 (if is_absolute path then [slash] else []) components of
             None \<Rightarrow> None
           | Some (Inl e) \<Rightarrow> Some (Inl e)
           | Some (Inr out) \<Rightarrow>
               if is_absolute path \<and> components = [] then terminate sz out
               else if components = [] then
                 (if sz \<le> length out + 1 then Some (Inl MODERNFS_EINVAL) else terminate sz (out @ ''.''))
               else terminate sz out))"

section \<open>Base name and directory name\<close>

text \<open>\<open>while (len > 0 && path[len - 1] == '/') len--\<close>, and the loop that finds the last slash below \<open>len\<close>.\<close>

fun trim_len :: "string \<Rightarrow> nat \<Rightarrow> nat" where
  "trim_len path 0 = 0"
| "trim_len path (Suc n) = (if path ! n = slash then trim_len path n else Suc n)"

fun last_slash :: "string \<Rightarrow> nat \<Rightarrow> nat option" where
  "last_slash path 0 = None"
| "last_slash path (Suc n) = (if path ! n = slash then Some n else last_slash path n)"

text \<open>The result is a copy in a static buffer of \<open>MAX_FILENAME + 1\<close> bytes.\<close>

definition path_basename :: "string \<Rightarrow> string" where
  "path_basename path =
     (if path = [] then ''.''
      else (let len = trim_len path (length path) in
        if len = 0 then [slash]
        else (case last_slash path len of
           None \<Rightarrow> take (if len < MAX_FILENAME then len else MAX_FILENAME) path
         | Some i \<Rightarrow>
             (let copy_len = len - (i + 1);
                  copy_len = (if MAX_FILENAME < copy_len then MAX_FILENAME else copy_len)
              in take copy_len (drop (i + 1) path)))))"

definition path_dirname :: "string \<Rightarrow> nat \<Rightarrow> int + string" where
  "path_dirname path sz =
     (if sz = 0 then Inl MODERNFS_EINVAL
      else (let len = trim_len path (length path) in
        if len = 0 then (if sz < 2 then Inl MODERNFS_EINVAL else Inr [slash])
        else (case last_slash path len of
           None \<Rightarrow> if sz < 2 then Inl MODERNFS_EINVAL else Inr ''.''
         | Some dir_len \<Rightarrow>
             if dir_len = 0 then (if sz < 2 then Inl MODERNFS_EINVAL else Inr [slash])
             else if sz \<le> dir_len then Inl MODERNFS_EINVAL
             else Inr (take dir_len path))))"

end
