(* ===== verification/Path_Spec.thy ===== *)
theory Path_Spec
  imports Path
begin

text \<open>
  The reference for \<open>path_normalize\<close>: split at slashes, cut segments at 255 characters, walk over the
  components with a stack, and join what is left.
\<close>

section \<open>Components of a path\<close>

fun split_on :: "'a \<Rightarrow> 'a list \<Rightarrow> 'a list list" where
  "split_on s [] = [[]]"
| "split_on s (c # cs) =
     (if c = s then [] # split_on s cs
      else (case split_on s cs of [] \<Rightarrow> [[c]] | w # ws \<Rightarrow> (c # w) # ws))"

definition segments :: "string \<Rightarrow> string list" where
  "segments p = filter (\<lambda>w. w \<noteq> []) (split_on slash p)"

function pieces :: "string \<Rightarrow> string list" where
  "pieces w = (if length w \<le> MAX_FILENAME then [w] else take MAX_FILENAME w # pieces (drop MAX_FILENAME w))"
  by pat_completeness auto
termination by (relation "measure length") auto

declare pieces.simps [simp del]

definition components_of :: "string \<Rightarrow> string list" where
  "components_of p = concat (map pieces (segments p))"

lemma split_on_nonempty: "split_on s p \<noteq> []"
  by (cases p) (auto split: list.split)

lemma split_on_takeWhile:
  "split_on s p = takeWhile (\<lambda>c. c \<noteq> s) p #
     (case dropWhile (\<lambda>c. c \<noteq> s) p of [] \<Rightarrow> [] | _ # cs \<Rightarrow> split_on s cs)"
  by (induction p) auto

lemma segments_Nil [simp]: "segments [] = []"
  by (simp add: segments_def)

lemma segments_slash [simp]: "segments (slash # cs) = segments cs"
  by (simp add: segments_def)

lemma takeWhile_word:
  assumes "slash \<notin> set w"
  shows "takeWhile (\<lambda>c. c \<noteq> slash) (w @ slash # cs) = w" "dropWhile (\<lambda>c. c \<noteq> slash) (w @ slash # cs) = slash # cs"
    "takeWhile (\<lambda>c. c \<noteq> slash) w = w" "dropWhile (\<lambda>c. c \<noteq> slash) w = []"
  using assms by (induction w) auto

lemma segments_word:
  assumes "w \<noteq> []" "slash \<notin> set w"
  shows "segments w = [w]" "segments (w @ slash # cs) = w # segments cs"
  using assms split_on_takeWhile [of slash w] split_on_takeWhile [of slash "w @ slash # cs"]
  by (simp_all add: segments_def takeWhile_word)

lemma segments_skip: "segments (skip_slashes p) = segments p"
  by (induction p) auto

lemma skip_slashes_hd: "skip_slashes p = c # cs \<Longrightarrow> c \<noteq> slash"
  by (induction p) (auto split: if_splits)

lemma segments_Cons:
  assumes "c \<noteq> slash"
  shows "segments (c # cs) = takeWhile (\<lambda>x. x \<noteq> slash) (c # cs) # segments (dropWhile (\<lambda>x. x \<noteq> slash) (c # cs))"
proof -
  let ?r = "dropWhile (\<lambda>x. x \<noteq> slash) (c # cs)"
  have "filter (\<lambda>w. w \<noteq> []) (case ?r of [] \<Rightarrow> [] | _ # ds \<Rightarrow> split_on slash ds) = segments ?r"
  proof (cases ?r)
    case (Cons d ds)
    then have "d = slash" using hd_dropWhile [of "\<lambda>x. x \<noteq> slash" "c # cs"] by simp
    then show ?thesis using Cons assms by (simp add: segments_def)
  qed simp
  then show ?thesis
    using assms by (subst segments_def, subst split_on_takeWhile) simp
qed

lemma segments_not_Nil: "p \<noteq> [] \<Longrightarrow> skip_slashes p \<noteq> [] \<Longrightarrow> segments p \<noteq> []"
  using segments_skip [of p] by (cases "skip_slashes p") (auto simp: segments_Cons dest: skip_slashes_hd)

lemma copy_component_take:
  "copy_component n p = (let w = take n (takeWhile (\<lambda>x. x \<noteq> slash) p) in (w, drop (length w) p))"
proof (induction n p rule: copy_component.induct)
  case (2 n c cs)
  show ?case
  proof (cases "c \<noteq> slash \<and> 0 < n")
    case True
    then obtain m where "n = Suc m" by (cases n) auto
    then show ?thesis using 2 True by (simp add: Let_def)
  next
    case False
    then show ?thesis by auto
  qed
qed simp

lemma takeWhile_rest:
  assumes "\<And>x. x \<in> set u \<Longrightarrow> x \<noteq> slash"
  shows "takeWhile (\<lambda>x. x \<noteq> slash) (u @ dropWhile (\<lambda>x. x \<noteq> slash) q) = u"
    "dropWhile (\<lambda>x. x \<noteq> slash) (u @ dropWhile (\<lambda>x. x \<noteq> slash) q) = dropWhile (\<lambda>x. x \<noteq> slash) q"
proof -
  let ?r = "dropWhile (\<lambda>x. x \<noteq> slash) q"
  have "takeWhile (\<lambda>x. x \<noteq> slash) ?r = []" "dropWhile (\<lambda>x. x \<noteq> slash) ?r = ?r" by (induction q) auto
  then show "takeWhile (\<lambda>x. x \<noteq> slash) (u @ ?r) = u" "dropWhile (\<lambda>x. x \<noteq> slash) (u @ ?r) = ?r"
    using assms by (simp_all add: takeWhile_append dropWhile_append)
qed

lemma components_of_word:
  assumes "u \<noteq> []" "\<And>x. x \<in> set u \<Longrightarrow> x \<noteq> slash"
  shows "components_of (u @ dropWhile (\<lambda>x. x \<noteq> slash) q) = pieces u @ components_of (dropWhile (\<lambda>x. x \<noteq> slash) q)"
proof -
  obtain x xs where u: "u = x # xs" using assms(1) by (cases u) auto
  have "segments (u @ dropWhile (\<lambda>x. x \<noteq> slash) q) = u # segments (dropWhile (\<lambda>x. x \<noteq> slash) q)"
    using segments_Cons [of x "xs @ dropWhile (\<lambda>x. x \<noteq> slash) q"] takeWhile_rest [OF assms(2), of u q] assms(2)
    unfolding u by simp
  then show ?thesis by (simp add: components_of_def)
qed

text \<open>One call of \<open>get_next_component\<close> takes the first component off the path.\<close>

lemma get_next_component_spec:
  "case components_of p of
     [] \<Rightarrow> get_next_component p (MAX_FILENAME + 1) = (None, p)
   | w # ws \<Rightarrow> \<exists>p'. get_next_component p (MAX_FILENAME + 1) = (Some w, p') \<and> components_of p' = ws"
proof (cases "skip_slashes p")
  case Nil
  then have "components_of p = []" using segments_skip [of p] by (simp add: components_of_def)
  then show ?thesis using Nil by (simp add: get_next_component_def)
next
  case (Cons c cs)
  let ?q = "c # cs"
  let ?W = "takeWhile (\<lambda>x. x \<noteq> slash) ?q" and ?R = "dropWhile (\<lambda>x. x \<noteq> slash) ?q"
  have c: "c \<noteq> slash" by (rule skip_slashes_hd [OF Cons])
  have q: "components_of p = pieces ?W @ components_of ?R"
    unfolding components_of_def segments_skip [of p, symmetric] Cons segments_Cons [OF c, of cs] by simp
  have g: "get_next_component p (MAX_FILENAME + 1) = (Some (take MAX_FILENAME ?W), drop (length (take MAX_FILENAME ?W)) ?q)"
    using c by (simp add: get_next_component_def Cons copy_component_take Let_def)
  show ?thesis
  proof (cases "length ?W \<le> MAX_FILENAME")
    case True
    have "drop (length ?W) ?q = ?R" by (metis append_eq_conv_conj takeWhile_dropWhile_id)
    moreover have "pieces ?W = [?W]" using True by (subst pieces.simps) simp
    ultimately show ?thesis using g q True by simp
  next
    case False
    let ?u = "drop MAX_FILENAME ?W"
    have p: "pieces ?W = take MAX_FILENAME ?W # pieces ?u" using False by (subst pieces.simps) simp
    have "drop MAX_FILENAME ?q = drop MAX_FILENAME (?W @ ?R)" by (simp only: takeWhile_dropWhile_id)
    then have d: "drop MAX_FILENAME ?q = ?u @ ?R" using False by simp
    have u: "x \<in> set ?u \<Longrightarrow> x \<noteq> slash" for x by (auto dest!: in_set_dropD set_takeWhileD)
    have "?u \<noteq> []" using False by (simp only: drop_eq_Nil not_False_eq_True)
    then have "components_of (?u @ ?R) = pieces ?u @ components_of ?R" by (rule components_of_word) (rule u)
    then show ?thesis using g q p d False by simp
  qed
qed

section \<open>The walk\<close>

fun walk :: "string list \<Rightarrow> string list \<Rightarrow> string list option" where
  "walk stack [] = Some stack"
| "walk stack (w # ws) =
     (if w = ''.'' then walk stack ws
      else if w = ''..'' then walk (butlast stack) ws
      else if 256 \<le> length stack then None
      else walk (stack @ [w]) ws)"

lemma normalize_components_walk:
  "normalize_components False p stack =
     (case walk stack (components_of p) of None \<Rightarrow> Inl MODERNFS_EINVAL | Some ws \<Rightarrow> Inr ws)"
proof (induction "components_of p" arbitrary: p stack)
  case Nil
  then show ?case using get_next_component_spec [of p]
    by (subst normalize_components.simps) simp
next
  case (Cons w ws)
  then obtain p' where "get_next_component p (MAX_FILENAME + 1) = (Some w, p')" "components_of p' = ws"
    using get_next_component_spec [of p] by (auto split: list.splits)
  then show ?case using Cons(1) [of p'] Cons(2) [symmetric]
    by (subst normalize_components.simps) simp
qed

section \<open>Joining\<close>

fun join :: "string list \<Rightarrow> string" where
  "join [] = []"
| "join [w] = w"
| "join (w # v # ws) = w @ slash # join (v # ws)"

lemma join_Cons: "join (w # ws) = (if ws = [] then w else w @ slash # join ws)"
  by (cases ws) auto

definition render :: "bool \<Rightarrow> string list \<Rightarrow> string" where
  "render absolute ws = (if \<not> absolute \<and> ws = [] then ''.'' else (if absolute then [slash] else []) @ join ws)"

text \<open>
  The output loop writes the joined components if they fit.  If they do not, it stops with
  \<open>MODERNFS_EINVAL\<close> at the first one, and frees memory twice at a later one.
\<close>

lemma emit_components_fits:
  "length out + length (join ws) < sz \<Longrightarrow> emit_components sz freed out ws = Some (Inr (out @ join ws))"
  by (induction sz freed out ws rule: emit_components.induct) (auto simp: join_Cons)

lemma emit_components_freed:
  "0 < freed \<Longrightarrow> length out < sz \<Longrightarrow> sz \<le> length out + length (join ws) \<Longrightarrow> emit_components sz freed out ws = None"
  by (induction sz freed out ws rule: emit_components.induct) (auto simp: join_Cons free_components_def)

lemma emit_components_first:
  "length out < sz \<Longrightarrow> sz \<le> length out + length (join (w # ws)) \<Longrightarrow>
   emit_components sz 0 out (w # ws) =
     (if sz \<le> length out + length w + (if ws \<noteq> [] then 1 else 0) then Some (Inl MODERNFS_EINVAL) else None)"
  by (auto simp: join_Cons free_components_def intro!: emit_components_freed)

text \<open>What \<open>path_normalize\<close> does, for every path and every buffer.\<close>

definition first_fits :: "bool \<Rightarrow> string list \<Rightarrow> nat \<Rightarrow> bool" where
  "first_fits absolute ws sz \<longleftrightarrow>
     (case ws of [] \<Rightarrow> False
      | w # ws \<Rightarrow> (if absolute then 1 else 0) + length w + (if ws \<noteq> [] then 1 else 0) < sz)"

lemma path_normalize_walk:
  assumes "0 < sz"
  shows "path_normalize False path sz =
     (case walk [] (components_of path) of
        None \<Rightarrow> Some (Inl MODERNFS_EINVAL)
      | Some ws \<Rightarrow>
          let out = render (is_absolute path) ws in
          if length out < sz then Some (Inr out)
          else if first_fits (is_absolute path) ws sz then None
          else Some (Inl MODERNFS_EINVAL))"
proof (cases "walk [] (components_of path)")
  case None
  then show ?thesis using assms by (simp add: path_normalize_def normalize_components_walk)
next
  case (Some ws)
  let ?pre = "if is_absolute path then [slash] else []"
  show ?thesis
  proof (cases "is_absolute path \<and> sz \<le> 1")
    case True
    then show ?thesis using assms Some
      by (simp add: path_normalize_def normalize_components_walk render_def first_fits_def split: list.split)
  next
    case False
    then have pre: "length ?pre < sz" using assms by auto
    show ?thesis
    proof (cases ws)
      case Nil
      then show ?thesis using assms Some False
        by (auto simp: path_normalize_def normalize_components_walk render_def first_fits_def terminate_def)
    next
      case (Cons w vs)
      have r: "render (is_absolute path) ws = ?pre @ join ws" by (simp add: render_def Cons)
      show ?thesis
      proof (cases "length ?pre + length (join ws) < sz")
        case True
        then have "emit_components sz 0 ?pre ws = Some (Inr (?pre @ join ws))"
          by (rule emit_components_fits)
        then show ?thesis using assms Some False True Cons
          by (simp add: path_normalize_def normalize_components_walk r [unfolded Cons] terminate_def)
      next
        case long: False
        then have "emit_components sz 0 ?pre ws =
          (if sz \<le> length ?pre + length w + (if vs \<noteq> [] then 1 else 0) then Some (Inl MODERNFS_EINVAL) else None)"
          unfolding Cons by (intro emit_components_first [OF pre]) simp
        then show ?thesis using assms Some False long Cons
          by (simp add: path_normalize_def normalize_components_walk r [unfolded Cons] first_fits_def
              del: emit_components.simps)
      qed
    qed
  qed
qed

section \<open>Normal forms\<close>

definition proper :: "string \<Rightarrow> bool" where
  "proper w \<longleftrightarrow> w \<noteq> [] \<and> slash \<notin> set w \<and> length w \<le> MAX_FILENAME \<and> w \<noteq> ''.'' \<and> w \<noteq> ''..''"

definition plain :: "string \<Rightarrow> bool" where
  "plain w \<longleftrightarrow> w \<noteq> [] \<and> slash \<notin> set w \<and> length w \<le> MAX_FILENAME"

lemma proper_plain: "proper w \<Longrightarrow> plain w"
  by (simp add: proper_def plain_def)

lemma pieces_plain: "w \<noteq> [] \<Longrightarrow> slash \<notin> set w \<Longrightarrow> v \<in> set (pieces w) \<Longrightarrow> plain v"
proof (induction w rule: pieces.induct)
  case (1 w)
  show ?case
  proof (cases "length w \<le> MAX_FILENAME")
    case True
    then have "v = w" using 1(4) by (subst (asm) pieces.simps) simp
    then show ?thesis using 1(2,3) True by (simp add: plain_def)
  next
    case False
    then have "v = take MAX_FILENAME w \<or> v \<in> set (pieces (drop MAX_FILENAME w))"
      using 1(4) by (subst (asm) pieces.simps) simp
    then show ?thesis using 1(1) [OF False] 1(2,3) False
      by (auto simp: plain_def dest: in_set_takeD in_set_dropD)
  qed
qed

lemma split_on_no_sep: "w \<in> set (split_on s p) \<Longrightarrow> s \<notin> set w"
  by (induction s p arbitrary: w rule: split_on.induct) (auto split: if_splits list.splits)

lemma components_plain: "w \<in> set (components_of p) \<Longrightarrow> plain w"
  by (auto simp: components_of_def segments_def intro: pieces_plain dest: split_on_no_sep)

lemma walk_proper:
  assumes "walk stack ws = Some vs" "\<forall>w \<in> set ws. plain w" "\<forall>w \<in> set stack. proper w" "length stack \<le> 256"
  shows "(\<forall>v \<in> set vs. proper v) \<and> length vs \<le> 256"
  using assms
proof (induction stack ws rule: walk.induct)
  case (2 stack w ws)
  have w: "w \<noteq> ''.'' \<Longrightarrow> w \<noteq> ''..'' \<Longrightarrow> proper w" and ws: "\<forall>w \<in> set ws. plain w"
    using 2(5) by (simp_all add: plain_def proper_def)
  have bl: "\<forall>w \<in> set (butlast stack). proper w" "length (butlast stack) \<le> 256"
    using 2(6,7) by (simp_all add: in_set_butlastD)
  consider "w = ''.''" | "w = ''..''" | "w \<noteq> ''.''" "w \<noteq> ''..''" "length stack < 256"
    using 2(4) by (auto split: if_splits)
  then show ?case
  proof cases
    case 1
    then show ?thesis using 2(1) 2(4,6,7) ws by simp
  next
    case 2
    then show ?thesis using "2.IH"(2) "2.prems"(1) ws bl by simp
  next
    case 3
    then show ?thesis using "2.IH"(3) "2.prems"(1,3) ws w by simp
  qed
qed simp

lemma walk_append:
  "\<forall>w \<in> set ws. proper w \<Longrightarrow> length stack + length ws \<le> 256 \<Longrightarrow> walk stack ws = Some (stack @ ws)"
  by (induction ws arbitrary: stack) (auto simp: proper_def)

lemma segments_join: "\<forall>w \<in> set ws. plain w \<Longrightarrow> segments (join ws) = ws"
  by (induction ws) (auto simp: join_Cons segments_word plain_def)

lemma components_join: "\<forall>w \<in> set ws. plain w \<Longrightarrow> components_of (join ws) = ws"
proof -
  assume a: "\<forall>w \<in> set ws. plain w"
  then have "concat (map pieces ws) = ws" by (induction ws) (auto simp: plain_def pieces.simps)
  then show ?thesis using a by (simp add: components_of_def segments_join)
qed

lemma is_absolute_render: "\<forall>w \<in> set ws. plain w \<Longrightarrow> is_absolute (render absolute ws) = absolute"
  by (cases ws) (auto simp: is_absolute_def render_def join_Cons plain_def split: list.split)

lemma components_render:
  assumes "\<forall>w \<in> set ws. proper w" "length ws \<le> 256"
  shows "walk [] (components_of (render absolute ws)) = Some ws"
proof (cases "\<not> absolute \<and> ws = []")
  case True
  then have "components_of (render absolute ws) = [''.'']"
    using components_join [of "[''.'']"] by (simp add: render_def plain_def)
  then show ?thesis using True by simp
next
  case False
  have p: "\<forall>w \<in> set ws. plain w" using assms(1) by (auto intro: proper_plain)
  have "components_of (slash # join ws) = components_of (join ws)" by (simp add: components_of_def)
  then have "components_of (render absolute ws) = ws"
    using False components_join [OF p] by (cases absolute) (simp_all add: render_def)
  then show ?thesis using walk_append [OF assms(1), of "[]"] assms(2) by simp
qed

lemma path_normalize_Some:
  assumes "path_normalize False path sz = Some (Inr out)"
  obtains ws where "walk [] (components_of path) = Some ws" "out = render (is_absolute path) ws" "length out < sz"
    "\<forall>w \<in> set ws. proper w" "length ws \<le> 256"
proof -
  have sz: "0 < sz" using assms by (cases sz) (simp_all add: path_normalize_def)
  from path_normalize_walk [OF sz, of path] assms obtain ws where
    w: "walk [] (components_of path) = Some ws" "out = render (is_absolute path) ws" "length out < sz"
    by (auto simp: Let_def split: option.splits if_splits)
  have "\<forall>v \<in> set (components_of path). plain v" using components_plain by blast
  from walk_proper [OF w(1) this] show ?thesis using that [OF w] by simp
qed

lemma path_normalize_fixpoint:
  assumes "path_normalize False path sz = Some (Inr out)"
  shows "path_normalize False out sz = Some (Inr out)"
proof -
  from path_normalize_Some [OF assms] obtain ws where
    w: "out = render (is_absolute path) ws" "length out < sz" "\<forall>w \<in> set ws. proper w" "length ws \<le> 256" by blast
  have "\<forall>w \<in> set ws. plain w" using w(3) by (auto intro: proper_plain)
  then have a: "is_absolute out = is_absolute path" unfolding w(1) by (rule is_absolute_render)
  have c: "walk [] (components_of out) = Some ws" unfolding w(1) by (rule components_render [OF w(3,4)])
  have "0 < sz" using w(2) by simp
  from path_normalize_walk [OF this, of out] show ?thesis
    unfolding a c option.case Let_def w(1) [symmetric] using w(2) by (simp only: if_True)
qed

section \<open>Base name and directory name\<close>

lemma trim_len_spec:
  "n \<le> length p \<Longrightarrow> trim_len p n \<le> n \<and> (\<forall>i. trim_len p n \<le> i \<and> i < n \<longrightarrow> p ! i = slash) \<and>
   (0 < trim_len p n \<longrightarrow> p ! (trim_len p n - 1) \<noteq> slash)"
  by (induction p n rule: trim_len.induct) (auto simp: less_Suc_eq)

lemma last_slash_spec:
  "case last_slash p n of None \<Rightarrow> \<forall>i < n. p ! i \<noteq> slash
   | Some i \<Rightarrow> i < n \<and> p ! i = slash \<and> (\<forall>j. i < j \<and> j < n \<longrightarrow> p ! j \<noteq> slash)"
  by (induction p n rule: last_slash.induct) (auto simp: less_Suc_eq split: option.splits)

lemma path_basename_length: "length (path_basename p) \<le> MAX_FILENAME"
  by (auto simp: path_basename_def Let_def split: option.split)

text \<open>A path that ends in a name: directory part, slashes, the name, and trailing slashes.\<close>

lemma trim_len_name:
  assumes "w \<noteq> []" "slash \<notin> set w"
  shows "trim_len (d @ w @ replicate k slash) (length d + length w + k) = length d + length w"
proof (induction k)
  case 0
  obtain m where m: "length w = Suc m" using assms(1) by (cases w) auto
  then have "w ! m \<noteq> slash" using assms(2) nth_mem [of m w] by force
  then show ?case using m by (simp add: nth_append)
next
  case (Suc k)
  have "trim_len (xs @ ys) n = trim_len xs n" if "n \<le> length xs" for xs ys n
    using that by (induction xs n rule: trim_len.induct) (auto simp: nth_append)
  from this [of "length d + length w + k" "d @ w @ replicate k slash" "[slash]"] Suc show ?case
    by (simp add: nth_append replicate_append_same [symmetric])
qed

lemma last_slash_name:
  assumes "slash \<notin> set w"
  shows "last_slash (d @ slash # w @ tail) (Suc (length d + length w)) = Some (length d)"
    "last_slash (w @ tail) (length w) = None"
proof -
  have "n \<le> length w \<Longrightarrow> last_slash (d @ slash # w @ tail) (Suc (length d + n)) = Some (length d)" for n
  proof (induction n)
    case (Suc n)
    then have "w ! n \<noteq> slash" using assms nth_mem [of n w] by force
    then have "(d @ slash # w @ tail) ! Suc (length d + n) \<noteq> slash" using Suc(2) by (simp add: nth_append)
    then show ?case using Suc by simp
  qed (simp add: nth_append)
  then show "last_slash (d @ slash # w @ tail) (Suc (length d + length w)) = Some (length d)" by simp
  have "n \<le> length w \<Longrightarrow> last_slash (w @ tail) n = None" for n
  proof (induction n)
    case (Suc n)
    then have "w ! n \<noteq> slash" using assms nth_mem [of n w] by force
    then show ?case using Suc by (simp add: nth_append)
  qed simp
  then show "last_slash (w @ tail) (length w) = None" by simp
qed

lemma path_split_name:
  assumes "w \<noteq> []" "slash \<notin> set w"
  shows "path_basename (d @ slash # w @ replicate k slash) = take MAX_FILENAME w"
    "length d < sz \<Longrightarrow> 1 < sz \<Longrightarrow>
     path_dirname (d @ slash # w @ replicate k slash) sz = Inr (if d = [] then [slash] else d)"
    "path_basename (w @ replicate k slash) = take MAX_FILENAME w"
    "1 < sz \<Longrightarrow> path_dirname (w @ replicate k slash) sz = Inr ''.''"
proof -
  let ?p = "d @ slash # w @ replicate k slash" and ?q = "w @ replicate k slash"
  have p: "trim_len ?p (length ?p) = Suc (length d + length w)" "last_slash ?p (Suc (length d + length w)) = Some (length d)"
    using trim_len_name [OF assms, of "d @ [slash]" k] last_slash_name(1) [OF assms(2), of d "replicate k slash"]
    by (simp_all add: add.assoc del: trim_len.simps last_slash.simps)
  have q: "trim_len ?q (length ?q) = length w" "last_slash ?q (length w) = None"
    using trim_len_name [OF assms, of "[]" k] last_slash_name(2) [OF assms(2), of "replicate k slash"]
    by (simp_all add: add.assoc del: trim_len.simps last_slash.simps)
  show "path_basename ?p = take MAX_FILENAME w"
    unfolding path_basename_def p Let_def by (simp add: min_def)
  show "path_basename ?q = take MAX_FILENAME w"
    unfolding path_basename_def q Let_def using assms(1) by (auto simp: min_def)
  show "path_dirname ?p sz = Inr (if d = [] then [slash] else d)" if "length d < sz" "1 < sz"
    unfolding path_dirname_def p Let_def using that by simp
  show "path_dirname ?q sz = Inr ''.''" if "1 < sz"
    unfolding path_dirname_def q Let_def using that assms(1) by simp
qed

end
