(* ===== verification/Path_Properties.thy ===== *)
theory Path_Properties
  imports Path_Spec
begin

text \<open>The properties of the string half of \<open>src/path.c\<close>.\<close>

text \<open>C28: \<open>path_normalize\<close> against its reference, for every path and buffer size: split at slashes,
  cut segments at 255 characters, drop \<open>.\<close>, pop for \<open>..\<close>, join.  It returns that string if it fits
  the buffer and \<open>MODERNFS_EINVAL\<close> if there are too many components or not even the first one fits;
  when a later component does not fit, the error exit frees memory twice.\<close>
theorem path_normalize_correct:
  assumes "0 < sz"
  shows "path_normalize False path sz =
     (case walk [] (components_of path) of
        None \<Rightarrow> Some (Inl MODERNFS_EINVAL)
      | Some ws \<Rightarrow>
          let out = render (is_absolute path) ws in
          if length out < sz then Some (Inr out)
          else if first_fits (is_absolute path) ws sz then None
          else Some (Inl MODERNFS_EINVAL))"
  by (rule path_normalize_walk [OF assms])

lemma components_examples:
  "components_of ''/a/./b//../c'' = [''a'', ''.'', ''b'', ''..'', ''c'']"
  "components_of ''/a/b'' = [''a'', ''b'']"
  by (simp_all add: components_of_def segments_def pieces.simps)

theorem path_normalize_correct_witness:
  "path_normalize False ''/a/./b//../c'' 16 = Some (Inr ''/a/c'')"
  using path_normalize_correct [of 16 "''/a/./b//../c''"]
  by (simp add: components_examples render_def is_absolute_def)


text \<open>A normalised path is a fixed point of \<open>path_normalize\<close>: it has no empty, \<open>.\<close> or \<open>..\<close> component
  and at most 256 components of at most 255 characters, and normalising it again gives it back.\<close>
theorem path_normalize_idempotent:
  assumes "path_normalize False path sz = Some (Inr out)"
  shows "path_normalize False out sz = Some (Inr out) \<and>
     (\<exists>ws. out = render (is_absolute path) ws \<and> (\<forall>w \<in> set ws. proper w) \<and> length ws \<le> 256)"
proof -
  from path_normalize_Some [OF assms] obtain ws where
    "out = render (is_absolute path) ws" "\<forall>w \<in> set ws. proper w" "length ws \<le> 256" by blast
  with path_normalize_fixpoint [OF assms] show ?thesis by blast
qed

theorem path_normalize_idempotent_witness:
  "path_normalize False ''/a/c'' 16 = Some (Inr ''/a/c'')"
proof -
  have "path_normalize False ''/a/./b//../c'' 16 = Some (Inr ''/a/c'')"
    using path_normalize_walk [of 16 "''/a/./b//../c''"]
    by (simp add: components_examples render_def is_absolute_def)
  then show ?thesis using path_normalize_idempotent [of "''/a/./b//../c''" 16 "''/a/c''"] by simp
qed

text \<open>A name longer than 255 characters is not refused: \<open>get_next_component\<close> stops after 255 of
  them and the rest becomes a further component, so the normalised path names another file.\<close>
theorem path_normalize_splits_long_name:
  assumes "MAX_FILENAME < n" "n \<le> 2 * MAX_FILENAME" "n + 3 < sz"
  shows "path_normalize False (slash # replicate n CHR ''a'') sz =
     Some (Inr (slash # replicate MAX_FILENAME CHR ''a'' @ slash # replicate (n - MAX_FILENAME) CHR ''a''))"
proof -
  let ?a = "CHR ''a''"
  have n: "n - 255 \<le> 255" "min 255 n = 255" using assms(1,2) by simp_all
  have "segments (replicate n ?a) = [replicate n ?a]" using assms(1) by (intro segments_word) auto
  then have "components_of (slash # replicate n ?a) = [replicate MAX_FILENAME ?a, replicate (n - MAX_FILENAME) ?a]"
    using assms n by (simp add: components_of_def pieces.simps [of "replicate n ?a"] pieces.simps [of "replicate (n - 255) ?a"])
  moreover have "replicate m ?a \<noteq> ''.''" "replicate m ?a \<noteq> ''..''" for m
    by (cases m; simp)+
  ultimately show ?thesis
    using path_normalize_walk [of sz "slash # replicate n ?a"] assms
    by (simp add: render_def is_absolute_def Let_def)
qed

theorem path_normalize_splits_long_name_witness:
  "path_normalize False (slash # replicate 256 CHR ''a'') 4096 =
     Some (Inr (slash # replicate MAX_FILENAME CHR ''a'' @ slash # ''a''))"
  using path_normalize_splits_long_name [of 256 4096] by simp

text \<open>\<open>path_basename\<close> and \<open>path_dirname\<close> split a path at its last name, trailing slashes left out:
  the base name is the name cut to 255 characters, so it never fails the length check of
  \<open>path_resolve_parent\<close>, and the directory is everything before the slash, \<open>/\<close> for the root and \<open>.\<close>
  when there is no slash.\<close>
theorem path_split_correct:
  assumes "w \<noteq> []" "slash \<notin> set w" "1 < sz" "length d < sz"
  shows "path_basename (d @ slash # w @ replicate k slash) = take MAX_FILENAME w \<and>
     path_dirname (d @ slash # w @ replicate k slash) sz = Inr (if d = [] then [slash] else d) \<and>
     path_basename (w @ replicate k slash) = take MAX_FILENAME w \<and>
     path_dirname (w @ replicate k slash) sz = Inr ''.'' \<and>
     (\<forall>p. length (path_basename p) \<le> MAX_FILENAME)"
  using path_split_name [OF assms(1,2)] path_basename_length assms(3,4) by blast

theorem path_split_correct_witness:
  "path_basename ''/usr/lib//'' = ''lib'' \<and> path_dirname ''/usr/lib//'' 4096 = Inr ''/usr''"
  using path_split_correct [of "''lib''" 4096 "''/usr''" 2] by (simp add: numeral_2_eq_2)

end
