(* ===== verification/Directory.thy ===== *)
theory Directory
  imports Inode Path
begin

text \<open>
  \<open>src/directory.c\<close>: a directory is a file of variable-length records.  The functions read it block
  by block into a buffer on the stack, which is modelled by the bytes read into it so far: what lies
  behind them was never initialised, and using it is undefined, like an access past the buffer.
  Record positions never exceed \<open>BLOCK_SIZE\<close>, so their 32-bit variables are natural numbers.  \<open>now\<close>
  is \<open>time(NULL)\<close> for the access and modification times.
\<close>

section \<open>Records\<close>

record dirent =
  de_inum :: inode_t
  de_rec_len :: u16
  de_name_len :: byte
  de_file_type :: byte
  de_name :: "byte list"

abbreviation sizeof_dirent :: nat where "sizeof_dirent \<equiv> 263"

definition encode_dirent :: "dirent \<Rightarrow> byte list" where
  "encode_dirent de = le_bytes 4 (de_inum de) @ le_bytes 2 (de_rec_len de) @ le_bytes 1 (de_name_len de) @
     le_bytes 1 (de_file_type de) @ de_name de"

text \<open>The bytes of a C string, without the NUL.\<close>

definition name_bytes :: "string \<Rightarrow> byte list" where
  "name_bytes s = map of_char s"

text \<open>Reading a field of the record at \<open>pos\<close> of a buffer.\<close>

definition inum_at :: "byte list \<Rightarrow> nat \<Rightarrow> inode_t option" where
  "inum_at buf pos = map_option le_word (buf_read buf pos 4)"

definition rec_len_at :: "byte list \<Rightarrow> nat \<Rightarrow> u16 option" where
  "rec_len_at buf pos = map_option le_word (buf_read buf (pos + 4) 2)"

definition name_len_at :: "byte list \<Rightarrow> nat \<Rightarrow> byte option" where
  "name_len_at buf pos = map_option le_word (buf_read buf (pos + 6) 1)"

definition name_at :: "byte list \<Rightarrow> nat \<Rightarrow> nat \<Rightarrow> byte list option" where
  "name_at buf pos n = buf_read buf (pos + 8) n"

text \<open>
  The struct at \<open>pos\<close>, as the source of a write of \<open>sizeof(dirent_t)\<close> bytes; where the buffer ends before
  it, it is too short for the write.
\<close>

definition dirent_at :: "byte list \<Rightarrow> nat \<Rightarrow> byte list" where
  "dirent_at buf pos = take sizeof_dirent (drop pos buf)"

text \<open>\<open>dirent_size\<close> from the length of the name: the header and the name, rounded up to 8 bytes.\<close>

definition dirent_size :: "byte \<Rightarrow> u16" where
  "dirent_size name_len = (8 + ucast name_len + 7) AND NOT 7"

definition dir_make_entry :: "inode_t \<Rightarrow> string \<Rightarrow> byte \<Rightarrow> int + dirent" where
  "dir_make_entry inum name file_type =
     (if length name = 0 \<or> MAX_FILENAME < length name then Inl MODERNFS_EINVAL
      else Inr \<lparr>de_inum = inum, de_rec_len = dirent_size (of_nat (length name)),
        de_name_len = of_nat (length name), de_file_type = file_type,
        de_name = name_bytes name @ replicate (MAX_FILENAME - length name) 0\<rparr>)"

section \<open>Lookup\<close>

text \<open>\<open>rec_len == 0 || rec_len > BLOCK_SIZE - pos\<close> ends the scan of a block.\<close>

definition rec_end :: "u16 \<Rightarrow> nat \<Rightarrow> bool" where
  "rec_end rec_len pos \<longleftrightarrow> rec_len = 0 \<or> BLOCK_SIZE - pos < unat rec_len"

lemma rec_step: "\<not> rec_end rec_len pos \<Longrightarrow> pos < n \<Longrightarrow> n - (pos + unat rec_len) < n - pos"
  by (auto simp: rec_end_def unat_eq_0 [symmetric] simp del: unat_eq_0)

definition rec_matches :: "byte list \<Rightarrow> nat \<Rightarrow> string \<Rightarrow> bool option" where
  "rec_matches buf pos name = do {
     inum \<leftarrow> inum_at buf pos;
     (if inum = 0 then Some False
      else do {
        l \<leftarrow> name_len_at buf pos;
        (if unat l \<noteq> length name then Some False
         else do { bs \<leftarrow> name_at buf pos (length name); Some (bs = name_bytes name) }) }) }"

text \<open>The inner loop; \<open>n\<close> is the number of bytes just read.\<close>

function lookup_block :: "byte list \<Rightarrow> nat \<Rightarrow> string \<Rightarrow> nat \<Rightarrow> inode_t option option" where
  "lookup_block buf n name pos =
     (if pos < n then
        (case rec_len_at buf pos of None \<Rightarrow> None
         | Some rec_len \<Rightarrow>
             if rec_end rec_len pos then Some None
             else (case rec_matches buf pos name of None \<Rightarrow> None
               | Some True \<Rightarrow> (case inum_at buf pos of None \<Rightarrow> None | Some inum \<Rightarrow> Some (Some inum))
               | Some False \<Rightarrow> lookup_block buf n name (pos + unat rec_len)))
      else Some None)"
  by pat_completeness auto
termination by (relation "measure (\<lambda>(buf, n, name, pos). n - pos)") (auto dest: rec_step)

declare lookup_block.simps [simp del]

text \<open>The buffer after a read of \<open>data\<close> into it.\<close>

definition refill :: "byte list \<Rightarrow> byte list \<Rightarrow> byte list" where
  "refill data buf = data @ drop (length data) buf"

partial_function (option) lookup_from ::
  "u64 \<Rightarrow> inode_cache \<Rightarrow> addr \<Rightarrow> string \<Rightarrow> u64 \<Rightarrow> byte list \<Rightarrow> ((int + inode_t) \<times> inode_cache) option" where
  "lookup_from now c dir name offset buf = do {
     im \<leftarrow> ic_inodes c dir;
     (if \<not> offset < di_size (im_disk im) then Some (Inl MODERNFS_ENOENT, c)
      else do {
        (r, c) \<leftarrow> inode_read now c dir offset 4096;
        (case r of
           Inl e \<Rightarrow> Some (Inl e, c)
         | Inr data \<Rightarrow>
             if data = [] then Some (Inl MODERNFS_ENOENT, c)
             else do {
               r \<leftarrow> lookup_block (refill data buf) (length data) name 0;
               (case r of
                  Some inum \<Rightarrow> Some (Inr inum, c)
                | None \<Rightarrow> lookup_from now c dir name (offset + 4096) (refill data buf)) }) }) }"

text \<open>The checks every operation starts with: the type of the inode, then the length of the name.\<close>

definition dir_lookup :: "u64 \<Rightarrow> inode_cache \<Rightarrow> addr \<Rightarrow> string \<Rightarrow> ((int + inode_t) \<times> inode_cache) option" where
  "dir_lookup now c dir name = do {
     im \<leftarrow> ic_inodes c dir;
     (if di_type (im_disk im) \<noteq> INODE_TYPE_DIR then Some (Inl MODERNFS_EINVAL, c)
      else if length name = 0 \<or> MAX_FILENAME < length name then Some (Inl MODERNFS_EINVAL, c)
      else lookup_from now c dir name 0 []) }"

section \<open>Adding\<close>

text \<open>A directory is written without a transaction: no journal function is called.\<close>

definition dir_write ::
  "u64 \<Rightarrow> inode_cache \<Rightarrow> addr \<Rightarrow> byte list \<Rightarrow> u64 \<Rightarrow> (int \<times> inode_cache) option" where
  "dir_write now c dir bytes offset = do {
     (r, c, _) \<leftarrow> inode_write (\<lambda>_ _ _. (0, ())) now c dir bytes offset (of_nat sizeof_dirent) None;
     (case r of Inl e \<Rightarrow> Some (e, c) | Inr _ \<Rightarrow> Some (MODERNFS_SUCCESS, c))
   }"

text \<open>The space a record can give away, a 16-bit difference.\<close>

definition free_space_at :: "byte list \<Rightarrow> nat \<Rightarrow> u16 option" where
  "free_space_at buf pos = do {
     rec_len \<leftarrow> rec_len_at buf pos;
     l \<leftarrow> name_len_at buf pos;
     inum \<leftarrow> inum_at buf pos;
     Some (if inum = 0 then rec_len else rec_len - dirent_size l)
   }"

function find_space :: "byte list \<Rightarrow> nat \<Rightarrow> u16 \<Rightarrow> nat \<Rightarrow> nat option option" where
  "find_space buf n needed pos =
     (if pos < n then
        (case rec_len_at buf pos of None \<Rightarrow> None
         | Some rec_len \<Rightarrow>
             if rec_end rec_len pos then Some None
             else (case free_space_at buf pos of None \<Rightarrow> None
               | Some free_space \<Rightarrow>
                   if needed \<le> free_space then Some (Some pos)
                   else find_space buf n needed (pos + unat rec_len)))
      else Some None)"
  by pat_completeness auto
termination by (relation "measure (\<lambda>(buf, n, needed, pos). n - pos)") (auto dest: rec_step)

declare find_space.simps [simp del]

text \<open>
  The record at \<open>pos\<close> of the block at \<open>offset\<close> gives its space to \<open>new_entry\<close>.  Both writes are of
  \<open>sizeof(dirent_t)\<close> bytes, whatever the records occupy.
\<close>

definition dir_insert_at ::
  "u64 \<Rightarrow> inode_cache \<Rightarrow> addr \<Rightarrow> byte list \<Rightarrow> u64 \<Rightarrow> nat \<Rightarrow> dirent \<Rightarrow> (int \<times> inode_cache) option" where
  "dir_insert_at now c dir buf offset pos new_entry = do {
     old_rec_len \<leftarrow> rec_len_at buf pos;
     l \<leftarrow> name_len_at buf pos;
     let actual_size = dirent_size l;
     inum \<leftarrow> inum_at buf pos;
     free_space \<leftarrow> free_space_at buf pos;
     (if inum \<noteq> 0 then do {
        buf \<leftarrow> buf_write buf (pos + 4) (le_bytes 2 actual_size);
        (written, c) \<leftarrow> dir_write now c dir (dirent_at buf pos) (offset + of_nat pos);
        (if written < 0 then Some (written, c)
         else dir_write now c dir (encode_dirent (new_entry\<lparr>de_rec_len := old_rec_len - actual_size\<rparr>))
                (offset + of_nat (pos + unat actual_size))) }
      else dir_write now c dir (encode_dirent (new_entry\<lparr>de_rec_len := free_space\<rparr>)) (offset + of_nat pos))
   }"

partial_function (option) add_from ::
  "u64 \<Rightarrow> inode_cache \<Rightarrow> addr \<Rightarrow> dirent \<Rightarrow> u64 \<Rightarrow> byte list \<Rightarrow> (int \<times> inode_cache) option" where
  "add_from now c dir new_entry offset buf = do {
     im \<leftarrow> ic_inodes c dir;
     (if \<not> offset < di_size (im_disk im)
      then dir_write now c dir (encode_dirent (new_entry\<lparr>de_rec_len := 4096\<rparr>)) (di_size (im_disk im))
      else do {
        (r, c) \<leftarrow> inode_read now c dir offset 4096;
        (case r of
           Inl e \<Rightarrow> Some (e, c)
         | Inr data \<Rightarrow>
             if data = [] then do {
               im \<leftarrow> ic_inodes c dir;
               dir_write now c dir (encode_dirent (new_entry\<lparr>de_rec_len := 4096\<rparr>)) (di_size (im_disk im)) }
             else do {
               r \<leftarrow> find_space (refill data buf) (length data) (de_rec_len new_entry) 0;
               (case r of
                  Some pos \<Rightarrow> dir_insert_at now c dir (refill data buf) offset pos new_entry
                | None \<Rightarrow> add_from now c dir new_entry (offset + 4096) (refill data buf)) }) }) }"

definition dir_add :: "u64 \<Rightarrow> inode_cache \<Rightarrow> addr \<Rightarrow> string \<Rightarrow> inode_t \<Rightarrow> (int \<times> inode_cache) option" where
  "dir_add now c dir name inum = do {
     im \<leftarrow> ic_inodes c dir;
     (if di_type (im_disk im) \<noteq> INODE_TYPE_DIR then Some (MODERNFS_EINVAL, c)
      else if length name = 0 \<or> MAX_FILENAME < length name then Some (MODERNFS_EINVAL, c)
      else do {
        (r, c) \<leftarrow> dir_lookup now c dir name;
        (case r of
           Inr _ \<Rightarrow> Some (MODERNFS_ERROR, c)
         | Inl _ \<Rightarrow> do {
             (target, c) \<leftarrow> inode_get c inum;
             (case target of
                None \<Rightarrow> Some (MODERNFS_ERROR, c)
              | Some t \<Rightarrow> do {
                  tm \<leftarrow> ic_inodes c t;
                  let ret = dir_make_entry inum name (di_type (im_disk tm));
                  c \<leftarrow> inode_put c t;
                  (case ret of
                     Inl e \<Rightarrow> Some (e, c)
                   | Inr new_entry \<Rightarrow> add_from now c dir new_entry 0 []) }) }) }) }"

section \<open>Removing\<close>

text \<open>The matching record and the last live one before it in the block.\<close>

function find_entry :: "byte list \<Rightarrow> nat \<Rightarrow> string \<Rightarrow> nat option \<Rightarrow> nat \<Rightarrow> (nat option \<times> nat) option option" where
  "find_entry buf n name prev pos =
     (if pos < n then
        (case rec_len_at buf pos of None \<Rightarrow> None
         | Some rec_len \<Rightarrow>
             if rec_end rec_len pos then Some None
             else (case rec_matches buf pos name of None \<Rightarrow> None
               | Some True \<Rightarrow> Some (Some (prev, pos))
               | Some False \<Rightarrow>
                   (case inum_at buf pos of None \<Rightarrow> None
                    | Some inum \<Rightarrow>
                        find_entry buf n name (if inum \<noteq> 0 then Some pos else prev) (pos + unat rec_len))))
      else Some None)"
  by pat_completeness auto
termination
  by (relation "measure (\<lambda>(buf, n, name, prev, pos). n - pos)") (auto dest: rec_step)

declare find_entry.simps [simp del]

definition dir_remove_at ::
  "u64 \<Rightarrow> inode_cache \<Rightarrow> addr \<Rightarrow> byte list \<Rightarrow> u64 \<Rightarrow> nat option \<Rightarrow> nat \<Rightarrow> (int \<times> inode_cache) option" where
  "dir_remove_at now c dir buf offset prev pos =
     (case prev of
        Some prev_pos \<Rightarrow> do {
          prev_len \<leftarrow> rec_len_at buf prev_pos;
          rec_len \<leftarrow> rec_len_at buf pos;
          buf \<leftarrow> buf_write buf (prev_pos + 4) (le_bytes 2 (prev_len + rec_len));
          dir_write now c dir (dirent_at buf prev_pos) (offset + of_nat prev_pos) }
      | None \<Rightarrow> do {
          buf \<leftarrow> buf_write buf pos (le_bytes 4 (0 :: inode_t));
          dir_write now c dir (dirent_at buf pos) (offset + of_nat pos) })"

partial_function (option) remove_from ::
  "u64 \<Rightarrow> inode_cache \<Rightarrow> addr \<Rightarrow> string \<Rightarrow> u64 \<Rightarrow> byte list \<Rightarrow> (int \<times> inode_cache) option" where
  "remove_from now c dir name offset buf = do {
     im \<leftarrow> ic_inodes c dir;
     (if \<not> offset < di_size (im_disk im) then Some (MODERNFS_ENOENT, c)
      else do {
        (r, c) \<leftarrow> inode_read now c dir offset 4096;
        (case r of
           Inl e \<Rightarrow> Some (e, c)
         | Inr data \<Rightarrow>
             if data = [] then Some (MODERNFS_ENOENT, c)
             else do {
               r \<leftarrow> find_entry (refill data buf) (length data) name None 0;
               (case r of
                  Some (prev, pos) \<Rightarrow> dir_remove_at now c dir (refill data buf) offset prev pos
                | None \<Rightarrow> remove_from now c dir name (offset + 4096) (refill data buf)) }) }) }"

definition dir_remove :: "u64 \<Rightarrow> inode_cache \<Rightarrow> addr \<Rightarrow> string \<Rightarrow> (int \<times> inode_cache) option" where
  "dir_remove now c dir name = do {
     im \<leftarrow> ic_inodes c dir;
     (if di_type (im_disk im) \<noteq> INODE_TYPE_DIR then Some (MODERNFS_EINVAL, c)
      else if length name = 0 \<or> MAX_FILENAME < length name then Some (MODERNFS_EINVAL, c)
      else remove_from now c dir name 0 []) }"

section \<open>Iterating\<close>

text \<open>The C string in \<open>name_buf\<close>: up to the first NUL.\<close>

definition c_string :: "byte list \<Rightarrow> string" where
  "c_string bs = map (\<lambda>b. char_of (unat b)) (takeWhile (\<lambda>b. b \<noteq> 0) bs)"

text \<open>
  The callback takes the name, the inode number and the state behind \<open>arg\<close>.  \<open>Inl\<close> is the non-zero
  value that stops the iteration.
\<close>

function iterate_block ::
  "(string \<Rightarrow> inode_t \<Rightarrow> 's \<Rightarrow> int \<times> 's) \<Rightarrow> byte list \<Rightarrow> nat \<Rightarrow> nat \<Rightarrow> 's \<Rightarrow> (int option \<times> 's) option" where
  "iterate_block callback buf n pos s =
     (if pos < n then
        (case rec_len_at buf pos of None \<Rightarrow> None
         | Some rec_len \<Rightarrow>
             if rec_end rec_len pos then Some (None, s)
             else (case inum_at buf pos of None \<Rightarrow> None
               | Some inum \<Rightarrow>
                   if inum = 0 then iterate_block callback buf n (pos + unat rec_len) s
                   else (case name_len_at buf pos of None \<Rightarrow> None
                     | Some l \<Rightarrow>
                         (case name_at buf pos (unat l) of None \<Rightarrow> None
                          | Some name \<Rightarrow>
                              (case callback (c_string name) inum s of
                                 (ret, s) \<Rightarrow>
                                   if ret \<noteq> 0 then Some (Some ret, s)
                                   else iterate_block callback buf n (pos + unat rec_len) s)))))
      else Some (None, s))"
  by pat_completeness auto
termination
  by (relation "measure (\<lambda>(callback, buf, n, pos, s). n - pos)") (auto dest: rec_step)

declare iterate_block.simps [simp del]

partial_function (option) iterate_from ::
  "u64 \<Rightarrow> inode_cache \<Rightarrow> addr \<Rightarrow> (string \<Rightarrow> inode_t \<Rightarrow> 's \<Rightarrow> int \<times> 's) \<Rightarrow> 's \<Rightarrow> u64 \<Rightarrow> byte list \<Rightarrow>
   (int \<times> 's \<times> inode_cache) option" where
  "iterate_from now c dir callback s offset buf = do {
     im \<leftarrow> ic_inodes c dir;
     (if \<not> offset < di_size (im_disk im) then Some (MODERNFS_SUCCESS, s, c)
      else do {
        (r, c) \<leftarrow> inode_read now c dir offset 4096;
        (case r of
           Inl e \<Rightarrow> Some (e, s, c)
         | Inr data \<Rightarrow>
             if data = [] then Some (MODERNFS_SUCCESS, s, c)
             else do {
               (r, s) \<leftarrow> iterate_block callback (refill data buf) (length data) 0 s;
               (case r of
                  Some ret \<Rightarrow> Some (ret, s, c)
                | None \<Rightarrow> iterate_from now c dir callback s (offset + 4096) (refill data buf)) }) }) }"

definition dir_iterate ::
  "u64 \<Rightarrow> inode_cache \<Rightarrow> addr \<Rightarrow> (string \<Rightarrow> inode_t \<Rightarrow> 's \<Rightarrow> int \<times> 's) \<Rightarrow> 's \<Rightarrow> (int \<times> 's \<times> inode_cache) option" where
  "dir_iterate now c dir callback s = do {
     im \<leftarrow> ic_inodes c dir;
     (if di_type (im_disk im) \<noteq> INODE_TYPE_DIR then Some (MODERNFS_EINVAL, s, c)
      else iterate_from now c dir callback s 0 []) }"

definition count_entries_callback :: "string \<Rightarrow> inode_t \<Rightarrow> int \<Rightarrow> int \<times> int" where
  "count_entries_callback name inum count = (if name = ''.'' \<or> name = ''..'' then (0, count) else (0, count + 1))"

definition dir_is_empty :: "u64 \<Rightarrow> inode_cache \<Rightarrow> addr \<Rightarrow> (int \<times> inode_cache) option" where
  "dir_is_empty now c dir = do {
     im \<leftarrow> ic_inodes c dir;
     (if di_type (im_disk im) \<noteq> INODE_TYPE_DIR then Some (MODERNFS_EINVAL, c)
      else do {
        (ret, count, c) \<leftarrow> dir_iterate now c dir count_entries_callback 0;
        (if ret < 0 then Some (ret, c) else Some (if count = 0 then 1 else 0, c)) }) }"

end
