(* ===== verification/Dir_Layout.thy ===== *)
theory Dir_Layout
  imports Directory
begin

text \<open>
  Well-formed directory blocks: a buffer seen as a list of records, and what the scanning loops of
  \<open>src/directory.c\<close> compute of it.
\<close>

section \<open>Records\<close>

record entry =
  en_inum :: inode_t
  en_name :: string
  en_len :: nat

text \<open>The space a record needs and the space it can give away.\<close>

definition esize :: "entry \<Rightarrow> nat" where
  "esize e = (15 + length (en_name e)) div 8 * 8"

definition efree :: "entry \<Rightarrow> nat" where
  "efree e = (if en_inum e = 0 then en_len e else en_len e - esize e)"

definition ematch :: "string \<Rightarrow> entry \<Rightarrow> bool" where
  "ematch name e \<longleftrightarrow> en_inum e \<noteq> 0 \<and> en_name e = name"

definition entry_ok :: "entry \<Rightarrow> bool" where
  "entry_ok e \<longleftrightarrow> 0 < length (en_name e) \<and> length (en_name e) \<le> MAX_FILENAME \<and> CHR 0x00 \<notin> set (en_name e) \<and>
     esize e \<le> en_len e"

definition entry_at :: "byte list \<Rightarrow> nat \<Rightarrow> entry \<Rightarrow> bool" where
  "entry_at buf pos e \<longleftrightarrow> inum_at buf pos = Some (en_inum e) \<and> rec_len_at buf pos = Some (of_nat (en_len e)) \<and>
     name_len_at buf pos = Some (of_nat (length (en_name e))) \<and>
     name_at buf pos (length (en_name e)) = Some (name_bytes (en_name e))"

text \<open>
  The records of a buffer of \<open>n\<close> bytes from \<open>pos\<close> on.  Together they span the block, and each was written
  as a whole \<open>dirent_t\<close>.
\<close>

fun entries_from :: "byte list \<Rightarrow> nat \<Rightarrow> nat \<Rightarrow> entry list \<Rightarrow> bool" where
  "entries_from buf n pos [] \<longleftrightarrow> pos = BLOCK_SIZE"
| "entries_from buf n pos (e # es) \<longleftrightarrow>
     pos + sizeof_dirent \<le> n \<and> entry_ok e \<and> entry_at buf pos e \<and> pos + en_len e \<le> BLOCK_SIZE \<and> entries_from buf n (pos + en_len e) es"

definition span :: "entry list \<Rightarrow> nat" where
  "span es = sum_list (map en_len es)"

lemma span_simps [simp]: "span [] = 0" "span (e # es) = en_len e + span es" "span (es @ fs) = span es + span fs"
  by (simp_all add: span_def)

lemma entries_from_append:
  "entries_from buf n pos (es @ fs) \<Longrightarrow> pos + span es \<le> BLOCK_SIZE \<and> entries_from buf n (pos + span es) fs"
proof (induction es arbitrary: pos)
  case Nil
  then show ?case by (cases fs) auto
next
  case (Cons e es)
  then have "entries_from buf n (pos + en_len e) (es @ fs)" by simp
  from Cons.IH [OF this] show ?case by (simp add: add.assoc)
qed

lemma entry_at_cong:
  assumes "entry_at buf pos e"
    and "\<And>i. pos \<le> i \<Longrightarrow> i < pos + 8 + length (en_name e) \<Longrightarrow> i < length buf' \<and> buf' ! i = buf ! i"
  shows "entry_at buf' pos e"
proof -
  have len: "pos + 8 + length (en_name e) \<le> length buf"
    using assms(1) by (auto simp: entry_at_def name_at_def buf_read_def split: if_splits)
  have len': "pos + 8 + length (en_name e) \<le> length buf'"
    using assms(2) [of "pos + 7 + length (en_name e)"] by simp
  have "buf_read buf' (pos + k) m = buf_read buf (pos + k) m" if "k + m \<le> 8 + length (en_name e)" for k m
  proof -
    have "slice (pos + k) m buf' = slice (pos + k) m buf"
      using that len len' assms(2) by (intro nth_equalityI) (simp_all add: length_slice nth_slice)
    then show ?thesis using that len len' by (simp add: buf_read_def)
  qed
  from this [of 0 4] this [of 4 2] this [of 6 1] this [of 8 "length (en_name e)"] assms(1) show ?thesis
    by (simp add: entry_at_def inum_at_def rec_len_at_def name_len_at_def name_at_def)
qed

text \<open>Replacing the records from a position on.\<close>

lemma entries_from_replace:
  assumes "entries_from buf n pos (es @ fs)" "n \<le> n'"
    and "\<And>i. pos \<le> i \<Longrightarrow> i < pos + span es \<Longrightarrow> i < length buf \<Longrightarrow> i < length buf' \<and> buf' ! i = buf ! i"
    and "entries_from buf' n' (pos + span es) gs"
  shows "entries_from buf' n' pos (es @ gs)"
  using assms
proof (induction es arbitrary: pos)
  case Nil
  then show ?case by simp
next
  case (Cons e es)
  then have e: "pos + 263 \<le> n" "entry_ok e" "entry_at buf pos e" "pos + en_len e \<le> BLOCK_SIZE" by simp_all
  have len: "pos + 8 + length (en_name e) \<le> length buf"
    using e(3) by (auto simp: entry_at_def name_at_def buf_read_def split: if_splits)
  have "8 + length (en_name e) \<le> en_len e" using e(2) by (simp add: entry_ok_def esize_def) linarith
  then have "entry_at buf' pos e" using Cons.prems(3) len by (intro entry_at_cong [OF e(3)]) auto
  moreover have "entries_from buf' n' (pos + en_len e) (es @ gs)"
    by (rule Cons.IH) (use Cons.prems in \<open>auto simp: add.assoc\<close>)
  ultimately show ?case using e Cons.prems(2) by simp
qed

text \<open>The same without the end: the records a scan passes.\<close>

fun records_from :: "byte list \<Rightarrow> nat \<Rightarrow> nat \<Rightarrow> entry list \<Rightarrow> bool" where
  "records_from buf n pos [] \<longleftrightarrow> True"
| "records_from buf n pos (e # es) \<longleftrightarrow>
     pos + sizeof_dirent \<le> n \<and> entry_ok e \<and> entry_at buf pos e \<and> pos + en_len e \<le> BLOCK_SIZE \<and>
     records_from buf n (pos + en_len e) es"

lemma entries_records: "entries_from buf n pos es \<longleftrightarrow> records_from buf n pos es \<and> pos + span es = BLOCK_SIZE"
  by (induction es arbitrary: pos) (auto simp: add.assoc)

lemma records_from_append:
  "records_from buf n pos (es @ fs) \<longleftrightarrow> records_from buf n pos es \<and> records_from buf n (pos + span es) fs"
  by (induction es arbitrary: pos) (auto simp: add.assoc)

lemma records_from_cong:
  assumes "records_from buf n pos es" "n \<le> n'"
    and "\<And>i. pos \<le> i \<Longrightarrow> i < pos + span es \<Longrightarrow> i < length buf \<Longrightarrow> i < length buf' \<and> buf' ! i = buf ! i"
  shows "records_from buf' n' pos es"
  using assms
proof (induction es arbitrary: pos)
  case (Cons e es)
  then have e: "entry_ok e" "entry_at buf pos e" by simp_all
  have len: "pos + 8 + length (en_name e) \<le> length buf"
    using e(2) by (auto simp: entry_at_def name_at_def buf_read_def split: if_splits)
  have "8 + length (en_name e) \<le> en_len e" using e(1) by (simp add: entry_ok_def esize_def) linarith
  then have "entry_at buf' pos e" using Cons.prems(3) len by (intro entry_at_cong [OF e(2)]) auto
  moreover have "records_from buf' n' (pos + en_len e) es"
    by (rule Cons.IH) (use Cons.prems in \<open>auto simp: add.assoc\<close>)
  ultimately show ?case using Cons.prems by simp
qed simp

text \<open>The records do not depend on what follows them.\<close>

lemma records_from_take:
  assumes "records_from buf n pos es" "n \<le> length buf"
  shows "records_from (take n buf) n pos es"
  using assms(1)
proof (induction es arbitrary: pos)
  case (Cons e es)
  then have e: "pos + 263 \<le> n" "entry_ok e" "entry_at buf pos e" by simp_all
  have "entry_at (take n buf) pos e"
    using e(1,2) assms(2) by (intro entry_at_cong [OF e(3)]) (auto simp: entry_ok_def)
  then show ?case using Cons by simp
qed simp

lemma entries_from_take: "entries_from buf n pos es \<Longrightarrow> n \<le> length buf \<Longrightarrow> entries_from (take n buf) n pos es"
  by (simp add: entries_records records_from_take)

section \<open>Sizes and names\<close>

lemma and_not_7: "(x AND NOT 7 :: u16) = word_of_nat (unat x div 8 * 8)"
proof -
  have "(7 :: u16) = mask 3" by (simp add: mask_eq_exp_minus_1)
  then have "x AND NOT 7 = x AND NOT (mask 3)" by (rule arg_cong)
  also have "\<dots> = push_bit 3 (drop_bit 3 x)"
    by (rule bit_word_eqI) (auto simp: bit_simps)
  also have "\<dots> = word_of_nat (unat x div 8 * 8)"
  proof -
    have d: "unat (drop_bit 3 x) = unat x div 8" by (simp add: drop_bit_eq_div unat_div)
    have "push_bit 3 (drop_bit 3 x) = drop_bit 3 x * 8" by (simp add: push_bit_eq_mult)
    also have "\<dots> = of_nat (unat (drop_bit 3 x)) * of_nat 8" by simp
    also have "\<dots> = of_nat (unat x div 8 * 8)" unfolding d by (rule of_nat_mult [symmetric])
    finally show ?thesis .
  qed
  finally show ?thesis .
qed

lemma unat_of_nat_small:
  "n < 256 \<Longrightarrow> unat (of_nat n :: byte) = n" "m < 65536 \<Longrightarrow> unat (of_nat m :: u16) = m"
  by (simp_all add: unat_of_nat)

lemma unat_dirent_size:
  assumes "n \<le> MAX_FILENAME"
  shows "unat (dirent_size (of_nat n)) = (15 + n) div 8 * 8"
proof -
  have "unat (ucast (of_nat n :: byte) :: u16) = n" 
    using assms by (simp add: unsigned_ucast_eq unat_of_nat take_bit_nat_eq_self_iff)
  then have "unat (8 + ucast (of_nat n :: byte) + 7 :: u16) = 15 + n"
    using assms by (simp add: unat_word_ariths)
  then have d: "dirent_size (of_nat n) = of_nat ((15 + n) div 8 * 8)"
    unfolding dirent_size_def and_not_7 by (rule arg_cong)
  have "(15 + n) div 8 * 8 \<le> 15 + n" by (rule div_times_less_eq_dividend)
  then have "(15 + n) div 8 * 8 < 65536" using assms by linarith
  then show ?thesis unfolding d by (rule unat_of_nat_small(2))
qed

lemma esize_bounds: "8 + length (en_name e) \<le> esize e" "esize e \<le> 15 + length (en_name e)"
  by (simp_all add: esize_def)

lemma unat_of_char: "unat (of_char c :: byte) = of_char c"
proof -
  have "of_char c = (of_nat (of_char c) :: byte)" by (rule of_nat_of_char [symmetric])
  moreover have "(of_char c :: nat) < 256" by simp
  ultimately show ?thesis by (metis unat_of_nat_small(1))
qed

lemma of_char_inj:
  assumes "of_char c = (of_char d :: byte)"
  shows "c = d"
proof -
  from assms have "unat (of_char c :: byte) = unat (of_char d :: byte)" by (rule arg_cong)
  then have "(of_char c :: nat) = of_char d" unfolding unat_of_char .
  then show "c = d" by (rule of_char_eq_iff [THEN iffD1])
qed

lemma name_bytes_inj: "name_bytes s = name_bytes t \<longleftrightarrow> s = t"
  unfolding name_bytes_def by (rule inj_map_eq_map [OF injI [OF of_char_inj]])

lemma length_name_bytes [simp]: "length (name_bytes s) = length s"
  by (simp add: name_bytes_def)

section \<open>What the loops compute\<close>

lemma rec_matches_entry:
  assumes "entry_at buf pos e" "entry_ok e"
  shows "rec_matches buf pos name = Some (ematch name e)"
proof -
  have u: "unat (of_nat (length (en_name e)) :: byte) = length (en_name e)"
    using assms(2) by (simp add: entry_ok_def unat_of_nat)
  show ?thesis
  proof (cases "length (en_name e) = length name")
    case True
    then show ?thesis using assms(1) u name_bytes_inj
      by (auto simp: rec_matches_def entry_at_def ematch_def)
  next
    case False
    then show ?thesis using assms(1) u by (auto simp: rec_matches_def entry_at_def ematch_def)
  qed
qed

lemma free_space_entry:
  assumes "entry_at buf pos e" "entry_ok e" "en_len e \<le> BLOCK_SIZE"
  shows "free_space_at buf pos = Some (of_nat (efree e))"
proof -
  let ?n = "length (en_name e)"
  have s: "unat (dirent_size (of_nat ?n)) = esize e"
    using assms(2) by (simp add: entry_ok_def unat_dirent_size esize_def)
  then have "dirent_size (of_nat ?n) = of_nat (esize e)" by (metis of_nat_unat ucast_id)
  then have "of_nat (en_len e) - dirent_size (of_nat ?n) = (of_nat (en_len e - esize e) :: u16)"
    using assms(2) by (simp add: entry_ok_def of_nat_diff)
  then show ?thesis using assms(1) by (simp add: free_space_at_def entry_at_def efree_def)
qed

lemma rec_end_entry:
  assumes "entry_ok e" "pos + en_len e \<le> BLOCK_SIZE"
  shows "\<not> rec_end (of_nat (en_len e)) pos" "unat (of_nat (en_len e) :: u16) = en_len e"
proof -
  show u: "unat (of_nat (en_len e) :: u16) = en_len e" using assms(2) by (intro unat_of_nat_small(2)) simp
  have "0 < en_len e" using assms(1) esize_bounds(1) [of e] by (simp add: entry_ok_def)
  then have "(of_nat (en_len e) :: u16) \<noteq> 0" using u by (metis gr_implies_not0 unat_0)
  then show "\<not> rec_end (of_nat (en_len e)) pos" using u assms(2) by (simp add: rec_end_def)
qed

lemma lookup_block_entries:
  assumes "entries_from buf n pos es" "n \<le> BLOCK_SIZE"
  shows "lookup_block buf n name pos = Some (map_option en_inum (find (ematch name) es))"
  using assms
proof (induction es arbitrary: pos)
  case Nil
  then show ?case by (subst lookup_block.simps) simp
next
  case (Cons e es)
  then have e: "pos + 263 \<le> n" "entry_ok e" "entry_at buf pos e" "pos + en_len e \<le> BLOCK_SIZE" by simp_all
  note R = rec_end_entry [OF e(2,4)] and M = rec_matches_entry [OF e(3,2), of name]
  show ?case
    using e R M Cons by (subst lookup_block.simps) (auto simp: entry_at_def)
qed

text \<open>Scans that stop at the first record with a property.\<close>

fun first_pos :: "(entry \<Rightarrow> bool) \<Rightarrow> nat \<Rightarrow> entry list \<Rightarrow> nat option" where
  "first_pos P pos [] = None"
| "first_pos P pos (e # es) = (if P e then Some pos else first_pos P (pos + en_len e) es)"

lemma first_pos_split:
  assumes "\<forall>e \<in> set es. \<not> P e" "P f"
  shows "first_pos P pos (es @ f # fs) = Some (pos + span es)"
  using assms by (induction es arbitrary: pos) (auto simp: add.assoc)

lemma find_space_entries:
  assumes "entries_from buf n pos es" "n \<le> BLOCK_SIZE"
  shows "find_space buf n needed pos = Some (first_pos (\<lambda>e. unat needed \<le> efree e) pos es)"
  using assms
proof (induction es arbitrary: pos)
  case Nil
  then show ?case by (subst find_space.simps) simp
next
  case (Cons e es)
  then have e: "pos + 263 \<le> n" "entry_ok e" "entry_at buf pos e" "pos + en_len e \<le> BLOCK_SIZE" by simp_all
  note R = rec_end_entry [OF e(2,4)]
  have F: "free_space_at buf pos = Some (of_nat (efree e))" using free_space_entry [OF e(3,2)] e(4) by simp
  have "efree e < 65536" using e(4) by (auto simp: efree_def)
  then have "needed \<le> of_nat (efree e) \<longleftrightarrow> unat needed \<le> efree e"
    by (simp add: word_le_nat_alt unat_of_nat)
  then show ?case
    using e R F Cons by (subst find_space.simps) (auto simp: entry_at_def)
qed

fun prev_pos :: "string \<Rightarrow> nat option \<Rightarrow> nat \<Rightarrow> entry list \<Rightarrow> (nat option \<times> nat) option" where
  "prev_pos name prev pos [] = None"
| "prev_pos name prev pos (e # es) =
     (if ematch name e then Some (prev, pos)
      else prev_pos name (if en_inum e \<noteq> 0 then Some pos else prev) (pos + en_len e) es)"

lemma find_entry_entries:
  assumes "entries_from buf n pos es" "n \<le> BLOCK_SIZE"
  shows "find_entry buf n name prev pos = Some (prev_pos name prev pos es)"
  using assms
proof (induction es arbitrary: pos prev)
  case Nil
  then show ?case by (subst find_entry.simps) simp
next
  case (Cons e es)
  then have e: "pos + 263 \<le> n" "entry_ok e" "entry_at buf pos e" "pos + en_len e \<le> BLOCK_SIZE" by simp_all
  note R = rec_end_entry [OF e(2,4)] and M = rec_matches_entry [OF e(3,2), of name]
  show ?case
    using e R M Cons by (subst find_entry.simps) (auto simp: entry_at_def)
qed

lemma prev_pos_split:
  assumes "\<forall>e \<in> set es. \<not> ematch name e" "ematch name f"
  shows "en_inum p \<noteq> 0 \<Longrightarrow> \<not> ematch name p \<Longrightarrow>
      prev_pos name prev pos (es @ p # f # fs) = Some (Some (pos + span es), pos + span es + en_len p)"
    "prev_pos name prev pos (f # fs) = Some (prev, pos)"
  using assms by (induction es arbitrary: pos prev) (auto simp: add.assoc)


section \<open>Changing a block\<close>

lemma splice_ext:
  assumes "off \<le> length dst"
  shows "length (splice off src dst) = max (length dst) (off + length src)"
    "i < max (length dst) (off + length src) \<Longrightarrow>
     splice off src dst ! i = (if off \<le> i \<and> i < off + length src then src ! (i - off) else dst ! i)"
proof -
  show "length (splice off src dst) = max (length dst) (off + length src)"
    using assms by (auto simp: splice_def max_def)
  assume i: "i < max (length dst) (off + length src)"
  show "splice off src dst ! i = (if off \<le> i \<and> i < off + length src then src ! (i - off) else dst ! i)"
  proof (cases "i < off + length src")
    case True
    then show ?thesis using assms by (auto simp: splice_def nth_append)
  next
    case False
    then have "i < length dst" "off + length src \<le> i" using i by auto
    then show ?thesis using assms by (auto simp: splice_def nth_append)
  qed
qed

lemma entry_at_len: "entry_at buf pos e \<Longrightarrow> pos + 8 + length (en_name e) \<le> length buf"
  by (auto simp: entry_at_def name_at_def buf_read_def split: if_splits)

text \<open>Fields of a record overwritten in place.\<close>

lemma entry_at_set_len:
  assumes "entry_at buf pos e"
  shows "entry_at (splice (pos + 4) (le_bytes 2 (of_nat m :: u16)) buf) pos (e\<lparr>en_len := m\<rparr>)"
proof -
  note l = entry_at_len [OF assms]
  let ?bs = "le_bytes 2 (of_nat m :: u16)"
  have s: "pos + 4 + length ?bs \<le> length buf" using l by simp
  have o: "buf_read (splice (pos + 4) ?bs buf) (pos + k) n = buf_read buf (pos + k) n"
    if "k + n \<le> 4 \<or> 6 \<le> k" "k + n \<le> 8 + length (en_name e)" for k n
    using that l s slice_splice_other [OF s, of "pos + k" n] by (auto simp: buf_read_def length_splice)
  have r: "buf_read (splice (pos + 4) ?bs buf) (pos + 4) 2 = Some ?bs"
    using slice_splice_same [OF s] s by (simp add: buf_read_def length_splice)
  have "le_word ?bs = (of_nat m :: u16)" by (rule le_word_le_bytes) simp
  then show ?thesis
    using assms o [of 0 4] o [of 6 1] o [of 8 "length (en_name e)"] r
    by (simp add: entry_at_def inum_at_def rec_len_at_def name_len_at_def name_at_def)
qed

lemma entry_at_set_inum:
  assumes "entry_at buf pos e"
  shows "entry_at (splice pos (le_bytes 4 i) buf) pos (e\<lparr>en_inum := i\<rparr>)"
proof -
  note l = entry_at_len [OF assms]
  let ?bs = "le_bytes 4 i"
  have s: "pos + length ?bs \<le> length buf" using l by simp
  have o: "buf_read (splice pos ?bs buf) (pos + k) n = buf_read buf (pos + k) n"
    if "4 \<le> k" "k + n \<le> 8 + length (en_name e)" for k n
    using that l s slice_splice_other [OF s, of "pos + k" n] by (auto simp: buf_read_def length_splice)
  have r: "buf_read (splice pos ?bs buf) pos 4 = Some ?bs"
    using slice_splice_same [OF s] s by (simp add: buf_read_def length_splice)
  have "le_word ?bs = i" by (rule le_word_le_bytes) simp
  then show ?thesis
    using assms o [of 4 2] o [of 6 1] o [of 8 "length (en_name e)"] r
    by (simp add: entry_at_def inum_at_def rec_len_at_def name_len_at_def name_at_def)
qed

text \<open>A new record.\<close>

lemma length_encode_dirent: "length (de_name d) = 255 \<Longrightarrow> length (encode_dirent d) = sizeof_dirent"
  by (simp add: encode_dirent_def)

lemma entry_at_encode:
  assumes "dir_make_entry (en_inum e) (en_name e) ft = Inr d" "pos \<le> length buf"
  shows "entry_at (splice pos (encode_dirent (d\<lparr>de_rec_len := of_nat (en_len e)\<rparr>)) buf) pos e"
proof -
  let ?n = "length (en_name e)"
  let ?d = "d\<lparr>de_rec_len := of_nat (en_len e)\<rparr>"
  from assms(1) have d: "de_inum ?d = en_inum e" "de_name_len ?d = of_nat ?n"
    "de_name ?d = name_bytes (en_name e) @ replicate (255 - ?n) 0" "?n \<le> 255"
    by (auto simp: dir_make_entry_def split: if_splits)
  let ?E = "encode_dirent ?d"
  have len: "length ?E = 263" using d by (intro length_encode_dirent) simp
  note L = splice_ext [OF assms(2), where src = ?E]
  have r: "buf_read (splice pos ?E buf) (pos + k) m = Some (slice k m ?E)" if "k + m \<le> 263" for k m
  proof -
    have "slice (pos + k) m (splice pos ?E buf) = slice k m ?E"
      using that len L by (intro nth_equalityI) (simp_all add: length_slice nth_slice)
    then show ?thesis using that len L(1) by (simp add: buf_read_def)
  qed
  have s: "slice 0 4 ?E = le_bytes 4 (en_inum e)" "slice 4 2 ?E = le_bytes 2 (of_nat (en_len e) :: u16)"
    "slice 6 1 ?E = le_bytes 1 (of_nat ?n :: byte)" "slice 8 ?n ?E = name_bytes (en_name e)"
    using d by (simp_all add: encode_dirent_def slice_def)
  have w: "le_word (le_bytes 4 (en_inum e)) = en_inum e" "le_word (le_bytes 2 x) = (x :: u16)"
    "le_word (le_bytes 1 y) = (y :: byte)" for x y by (simp_all add: le_word_le_bytes)
  show ?thesis
    using r [of 0 4] r [of 4 2] r [of 6 1] r [of 8 ?n] s w d(4)
    by (simp add: entry_at_def inum_at_def rec_len_at_def name_len_at_def name_at_def)
qed

text \<open>Writing a struct of the buffer back over itself.\<close>

lemma write_back:
  assumes "pos + sizeof_dirent \<le> length data" "pos \<le> x" "x + length bs \<le> pos + sizeof_dirent"
  shows "splice pos (dirent_at (splice x bs data) pos) data = splice x bs data"
proof -
  have x: "x + length bs \<le> length data" using assms by simp
  have l: "length (splice x bs data) = length data" by (rule length_splice [OF x])
  have d: "length (dirent_at (splice x bs data) pos) = sizeof_dirent" using assms(1) l by (simp add: dirent_at_def)
  have p: "pos + length (dirent_at (splice x bs data) pos) \<le> length data" using assms(1) d by simp
  show ?thesis
  proof (rule nth_equalityI)
    show "length (splice pos (dirent_at (splice x bs data) pos) data) = length (splice x bs data)"
      using p l by (simp add: length_splice)
  next
    fix i assume "i < length (splice pos (dirent_at (splice x bs data) pos) data)"
    then have i: "i < length data" using p by (simp add: length_splice)
    show "splice pos (dirent_at (splice x bs data) pos) data ! i = splice x bs data ! i"
    proof (cases "pos \<le> i \<and> i < pos + sizeof_dirent")
      case True
      then have "splice pos (dirent_at (splice x bs data) pos) data ! i = dirent_at (splice x bs data) pos ! (i - pos)"
        using nth_splice [OF p i] d by simp
      also have "\<dots> = splice x bs data ! i"
      proof -
        have "i - pos < 263" "pos + (i - pos) = i" using True by auto
        then show ?thesis using l i by (simp add: dirent_at_def)
      qed
      finally show ?thesis .
    next
      case False
      then show ?thesis using nth_splice [OF p i] nth_splice [OF x i] d assms(2,3) by auto
    qed
  qed
qed

text \<open>Replacing some records.\<close>

lemma entries_replace_mid:
  assumes e: "entries_from data n 0 (es @ xs @ fs)" and n: "n \<le> n'" and len: "length data' = length data"
    and same: "\<And>i. i < length data \<Longrightarrow> i < span es \<or> span es + span xs \<le> i \<Longrightarrow> data' ! i = data ! i"
    and new: "\<And>gs. entries_from data' n' (span es + span xs) gs \<Longrightarrow> entries_from data' n' (span es) (ys @ gs)"
  shows "entries_from data' n' 0 (es @ ys @ fs)"
proof -
  from entries_from_append [OF e] have 1: "entries_from data n (span es) (xs @ fs)" by simp
  from entries_from_append [OF this] have 2: "entries_from data n (span es + span xs) fs" by simp
  have "entries_from data' n' (span es + span xs) (fs @ [])"
  proof (rule entries_from_replace [where fs = "[]" and n = n])
    show "entries_from data n (span es + span xs) (fs @ [])" using 2 by simp
    have "span es + span xs + span fs = BLOCK_SIZE" using entries_from_append [of data n _ fs "[]"] 2 by simp
    then show "entries_from data' n' (span es + span xs + span fs) []" by simp
    show "n \<le> n'" by (rule n)
  qed (use len same in auto)
  then have "entries_from data' n' (span es) (ys @ fs)" using new by simp
  then show ?thesis using entries_from_replace [OF e n, of data'] len same by simp
qed

text \<open>Adding a record in the space of another one that has room for a whole \<open>dirent_t\<close>.\<close>

definition used :: "entry \<Rightarrow> nat" where
  "used e = (if en_inum e = 0 then 0 else esize e)"

definition split_entry :: "entry \<Rightarrow> entry \<Rightarrow> entry list" where
  "split_entry e f = (if en_inum e = 0 then [] else [e\<lparr>en_len := esize e\<rparr>]) @ [f\<lparr>en_len := en_len e - used e\<rparr>]"

lemma used_le: "entry_ok e \<Longrightarrow> used e \<le> en_len e"
  by (simp add: used_def entry_ok_def)

lemma efree_used: "efree e = en_len e - used e"
  by (simp add: efree_def used_def)

lemma records_add:
  assumes e: "records_from data n 0 (es @ [e])" and m: "dir_make_entry (en_inum f) (en_name f) ft = Inr d"
    and nul: "CHR 0x00 \<notin> set (en_name f)" and fit: "span es + used e + sizeof_dirent \<le> BLOCK_SIZE" "used e + esize f \<le> en_len e"
    and len: "length data = BLOCK_SIZE"
  defines "pos \<equiv> span es"
  defines "data1 \<equiv> (if en_inum e = 0 then data else splice (pos + 4) (le_bytes 2 (of_nat (esize e) :: u16)) data)"
  defines "data2 \<equiv> splice (pos + used e) (encode_dirent (d\<lparr>de_rec_len := of_nat (en_len e - used e)\<rparr>)) data1"
  shows "records_from data2 (max n (pos + used e + sizeof_dirent)) 0 (es @ split_entry e f)"
    "length data2 = BLOCK_SIZE" "length data1 = BLOCK_SIZE"
    "\<And>i. i < BLOCK_SIZE \<Longrightarrow> pos + used e + sizeof_dirent \<le> i \<Longrightarrow> data2 ! i = data ! i"
proof -
  let ?n = "max n (pos + used e + sizeof_dirent)"
  let ?f = "f\<lparr>en_len := en_len e - used e\<rparr>" and ?E = "encode_dirent (d\<lparr>de_rec_len := of_nat (en_len e - used e)\<rparr>)"
  from e have E: "records_from data n 0 es" "pos + 263 \<le> n" "entry_ok e" "entry_at data pos e" "pos + en_len e \<le> 4096"
    by (simp_all add: records_from_append pos_def)
  have nm: "0 < length (en_name f)" "length (en_name f) \<le> 255"
    using m by (auto simp: dir_make_entry_def split: if_splits)
  have de: "length ?E = 263"
    using m by (intro length_encode_dirent) (auto simp: dir_make_entry_def split: if_splits)
  have i1: "pos + 4 + length (le_bytes 2 (of_nat (esize e) :: u16)) \<le> length data"
    using entry_at_len [OF E(4)] by simp
  show l1: "length data1 = BLOCK_SIZE" using length_splice [OF i1] len by (simp add: data1_def)
  have i2: "pos + used e + length ?E \<le> length data1" using l1 de fit(1) by (simp add: pos_def)
  show l2: "length data2 = BLOCK_SIZE" using length_splice [OF i2] l1 by (simp add: data2_def)
  have sz: "8 + length (en_name e) \<le> esize e" by (rule esize_bounds)
  have d1: "data1 ! i = data ! i" if "i < 4096" "i < pos + 4 \<or> pos + 6 \<le> i" for i
    using that nth_splice [OF i1] len by (auto simp: data1_def)
  have d2: "data2 ! i = data1 ! i" if "i < 4096" "i < pos + used e \<or> pos + used e + 263 \<le> i" for i
    using that nth_splice [OF i2] l1 de by (auto simp: data2_def)
  show "data2 ! i = data ! i" if "i < BLOCK_SIZE" "pos + used e + sizeof_dirent \<le> i" for i
    using that d1 [of i] d2 [of i] by auto
  have old: "records_from data2 ?n 0 es"
    by (rule records_from_cong [OF E(1)]) (use d1 d2 len l2 in \<open>auto simp: pos_def\<close>)
  have fe: "entry_at data2 (pos + used e) ?f"
    unfolding data2_def
    using entry_at_encode [where e = ?f and ft = ft and d = d and buf = data1 and pos = "pos + used e"] m i2 by simp
  have fo: "entry_ok ?f" using nm nul fit(2) by (simp add: entry_ok_def esize_def)
  show "records_from data2 ?n 0 (es @ split_entry e f)"
  proof (cases "en_inum e = 0")
    case True
    then show ?thesis using old fe fo E by (simp add: split_entry_def used_def records_from_append pos_def)
  next
    case False
    then have "data1 = splice (pos + 4) (le_bytes 2 (of_nat (esize e) :: u16)) data" by (simp add: data1_def)
    then have "entry_at data1 pos (e\<lparr>en_len := esize e\<rparr>)" using entry_at_set_len [OF E(4)] by simp
    then have "entry_at data2 pos (e\<lparr>en_len := esize e\<rparr>)"
      by (rule entry_at_cong) (use d2 sz l2 fit(1) False in \<open>auto simp: used_def pos_def\<close>)
    moreover have "entry_ok (e\<lparr>en_len := esize e\<rparr>)" using E(3) by (simp add: entry_ok_def esize_def)
    ultimately show ?thesis using old fe fo E fit(2) False
      by (simp add: split_entry_def used_def records_from_append pos_def)
  qed
qed

lemma span_split: "entry_ok e \<Longrightarrow> span (split_entry e f) = en_len e"
  using used_le [of e] by (simp add: split_entry_def used_def)

lemma entries_add:
  assumes e: "entries_from data n 0 (es @ e # fs)" and m: "dir_make_entry (en_inum f) (en_name f) ft = Inr d"
    and nul: "CHR 0x00 \<notin> set (en_name f)" and room: "used e + sizeof_dirent \<le> en_len e" "used e + esize f \<le> en_len e"
    and len: "length data = BLOCK_SIZE"
  defines "pos \<equiv> span es"
  defines "data1 \<equiv> (if en_inum e = 0 then data else splice (pos + 4) (le_bytes 2 (of_nat (esize e) :: u16)) data)"
  defines "data2 \<equiv> splice (pos + used e) (encode_dirent (d\<lparr>de_rec_len := of_nat (en_len e - used e)\<rparr>)) data1"
  shows "entries_from data2 (max n (pos + used e + sizeof_dirent)) 0 (es @ split_entry e f @ fs)"
proof -
  let ?n = "max n (pos + used e + sizeof_dirent)"
  from e have E: "records_from data n 0 (es @ [e])" "records_from data n (span es + en_len e) fs" "entry_ok e"
    "span es + en_len e + span fs = 4096"
    by (auto simp: entries_records records_from_append add.assoc)
  have fit: "span es + used e + sizeof_dirent \<le> BLOCK_SIZE" using E(4) room by simp
  note R = records_add [OF E(1) m nul fit room(2) len, folded pos_def, folded data1_def, folded data2_def]
  have "records_from data2 ?n (pos + en_len e) fs"
    by (rule records_from_cong [OF E(2), folded pos_def]) (use R(2,4) room len in auto)
  then show ?thesis using R(1) E(4) span_split [OF E(3), of f]
    by (simp add: entries_records records_from_append add.assoc pos_def)
qed

text \<open>
  With less room the new record, written as a whole \<open>dirent_t\<close>, clears the header of the next one, and a
  scan ends there.
\<close>

lemma records_add_clobbers:
  assumes e: "records_from data n 0 (es @ [e])" and m: "dir_make_entry (en_inum f) (en_name f) ft = Inr d"
    and nul: "CHR 0x00 \<notin> set (en_name f)" and fit: "span es + used e + sizeof_dirent \<le> BLOCK_SIZE" "used e + esize f \<le> en_len e"
    and clobber: "en_len e + 6 \<le> used e + sizeof_dirent" and len: "length data = BLOCK_SIZE"
  defines "pos \<equiv> span es"
  defines "data1 \<equiv> (if en_inum e = 0 then data else splice (pos + 4) (le_bytes 2 (of_nat (esize e) :: u16)) data)"
  defines "data2 \<equiv> splice (pos + used e) (encode_dirent (d\<lparr>de_rec_len := of_nat (en_len e - used e)\<rparr>)) data1"
  shows "rec_len_at data2 (pos + en_len e) = Some 0"
proof -
  let ?E = "encode_dirent (d\<lparr>de_rec_len := of_nat (en_len e - used e)\<rparr>)"
  note R = records_add [OF e m nul fit len, folded pos_def, folded data1_def, folded data2_def]
  have d: "de_name d = name_bytes (en_name f) @ replicate (255 - length (en_name f)) 0" "length (en_name f) \<le> 255"
    using m by (auto simp: dir_make_entry_def split: if_splits)
  have de: "length ?E = 263" using d by (intro length_encode_dirent) simp
  have E0: "?E ! k = 0" if "8 + length (en_name f) \<le> k" "k < 263" for k
    using that d by (auto simp: encode_dirent_def nth_append)
  have i2: "pos + used e + length ?E \<le> length data1" using R(3) de fit(1) by (simp add: pos_def)
  have sf: "8 + length (en_name f) \<le> esize f" by (rule esize_bounds)
  have z: "data2 ! (pos + en_len e + k) = 0" if "4 \<le> k" "k < 6" for k
  proof -
    have "data2 ! (pos + en_len e + k) = ?E ! (en_len e - used e + k)"
      using nth_splice [OF i2, of "pos + en_len e + k"] that clobber fit de R(3) sf
      by (simp add: data2_def pos_def)
    also have "\<dots> = 0" by (rule E0) (use that clobber fit(2) sf in simp_all)
    finally show ?thesis .
  qed
  have b: "pos + en_len e + 6 \<le> 4096" using clobber fit(1) by (simp add: pos_def)
  have "slice (pos + en_len e + 4) 2 data2 = [0, 0]"
    using z [of 4] z [of 5] b R(2)
    by (intro nth_equalityI) (auto simp: length_slice nth_slice less_Suc_eq numeral_2_eq_2 add.commute [of 5])
  moreover have "le_word [0, 0] = (0 :: u16)" by simp
  ultimately show ?thesis using b R(2) by (simp add: rec_len_at_def buf_read_def)
qed

lemma lookup_block_prefix:
  assumes "records_from buf n pos es" "n \<le> BLOCK_SIZE"
  shows "lookup_block buf n name pos =
     (case find (ematch name) es of Some e \<Rightarrow> Some (Some (en_inum e)) | None \<Rightarrow> lookup_block buf n name (pos + span es))"
  using assms
proof (induction es arbitrary: pos)
  case (Cons e es)
  then have e: "pos + 263 \<le> n" "entry_ok e" "entry_at buf pos e" "pos + en_len e \<le> BLOCK_SIZE" by simp_all
  note R = rec_end_entry [OF e(2,4)] and M = rec_matches_entry [OF e(3,2), of name]
  show ?case
    using e R M Cons by (subst lookup_block.simps) (auto simp: entry_at_def add.assoc split: option.splits)
qed simp

lemma lookup_block_zero: "rec_len_at buf pos = Some 0 \<Longrightarrow> lookup_block buf n name pos = Some None"
  by (subst lookup_block.simps) (simp add: rec_end_def)

text \<open>Removing a record: merged into the live one before it, or cleared at the start of the block.\<close>

lemma entries_merge:
  assumes e: "entries_from data n 0 (es @ p # f # fs)"
  shows "entries_from (splice (span es + 4) (le_bytes 2 (of_nat (en_len p + en_len f) :: u16)) data) n 0
    (es @ p\<lparr>en_len := en_len p + en_len f\<rparr> # fs)"
proof -
  let ?data = "splice (span es + 4) (le_bytes 2 (of_nat (en_len p + en_len f) :: u16)) data"
  have e': "entries_from data n 0 (es @ [p, f] @ fs)" using e by simp
  from entries_from_append [OF e] have "entries_from data n (span es) (p # f # fs)" by simp
  then have P: "span es + 263 \<le> n" "entry_ok p" "entry_at data (span es) p" "span es + en_len p + en_len f \<le> BLOCK_SIZE"
    by simp_all
  have i: "span es + 4 + length (le_bytes 2 (of_nat (en_len p + en_len f) :: u16)) \<le> length data"
    using entry_at_len [OF P(3)] by simp
  have pl: "8 \<le> en_len p" using P(2) esize_bounds(1) [of p] by (simp add: entry_ok_def)
  have "entries_from ?data n 0 (es @ [p\<lparr>en_len := en_len p + en_len f\<rparr>] @ fs)"
  proof (rule entries_replace_mid [OF e' order_refl])
    show "length ?data = length data" by (rule length_splice [OF i])
    show "?data ! k = data ! k" if "k < length data" "k < span es \<or> span es + span [p, f] \<le> k" for k
      using that nth_splice [OF i that(1)] pl by auto
    fix gs assume "entries_from ?data n (span es + span [p, f]) gs"
    moreover have "entry_at ?data (span es) (p\<lparr>en_len := en_len p + en_len f\<rparr>)" by (rule entry_at_set_len [OF P(3)])
    ultimately show "entries_from ?data n (span es) ([p\<lparr>en_len := en_len p + en_len f\<rparr>] @ gs)"
      using P by (simp add: entry_ok_def esize_def add.assoc)
  qed
  then show ?thesis by simp
qed

lemma entries_clear:
  assumes e: "entries_from data n 0 (es @ f # fs)"
  shows "entries_from (splice (span es) (le_bytes 4 (0 :: inode_t)) data) n 0 (es @ f\<lparr>en_inum := 0\<rparr> # fs)"
proof -
  let ?data = "splice (span es) (le_bytes 4 (0 :: inode_t)) data"
  have e': "entries_from data n 0 (es @ [f] @ fs)" using e by simp
  from entries_from_append [OF e] have P: "span es + 263 \<le> n" "entry_ok f" "entry_at data (span es) f"
    "span es + en_len f \<le> BLOCK_SIZE" by simp_all
  have i: "span es + length (le_bytes 4 (0 :: inode_t)) \<le> length data" using entry_at_len [OF P(3)] by simp
  have pl: "8 \<le> en_len f" using P(2) esize_bounds(1) [of f] by (simp add: entry_ok_def)
  have "entries_from ?data n 0 (es @ [f\<lparr>en_inum := 0\<rparr>] @ fs)"
  proof (rule entries_replace_mid [OF e' order_refl])
    show "length ?data = length data" by (rule length_splice [OF i])
    show "?data ! k = data ! k" if "k < length data" "k < span es \<or> span es + span [f] \<le> k" for k
      using that nth_splice [OF i that(1)] pl by auto
    fix gs assume "entries_from ?data n (span es + span [f]) gs"
    moreover have "entry_at ?data (span es) (f\<lparr>en_inum := 0\<rparr>)" by (rule entry_at_set_inum [OF P(3)])
    ultimately show "entries_from ?data n (span es) ([f\<lparr>en_inum := 0\<rparr>] @ gs)"
      using P by (simp add: entry_ok_def esize_def)
  qed
  then show ?thesis by simp
qed

section \<open>Iterating\<close>

fun visit :: "(string \<Rightarrow> inode_t \<Rightarrow> 's \<Rightarrow> int \<times> 's) \<Rightarrow> entry list \<Rightarrow> 's \<Rightarrow> int option \<times> 's" where
  "visit f [] s = (None, s)"
| "visit f (e # es) s =
     (if en_inum e = 0 then visit f es s
      else case f (en_name e) (en_inum e) s of (r, s) \<Rightarrow> if r \<noteq> 0 then (Some r, s) else visit f es s)"

lemma c_string_name_bytes:
  assumes "CHR 0x00 \<notin> set s"
  shows "c_string (name_bytes s) = s"
proof -
  have nz: "(of_char c :: byte) \<noteq> 0" if "c \<in> set s" for c
  proof
    assume "(of_char c :: byte) = 0"
    then have "(of_char c :: nat) = 0" using unat_of_char [of c] by simp
    then have "(of_char c :: nat) = of_char (CHR 0x00)" by simp
    then have "c = CHR 0x00" by (rule of_char_eq_iff [THEN iffD1])
    then show False using assms that by simp
  qed
  have "takeWhile (\<lambda>b. b \<noteq> 0) (name_bytes s) = name_bytes s"
    using nz by (simp add: name_bytes_def takeWhile_eq_all_conv)
  then have "c_string (name_bytes s) = map (\<lambda>b. char_of (unat b)) (name_bytes s)" by (simp only: c_string_def)
  also have "\<dots> = s" by (simp add: name_bytes_def unat_of_char comp_def map_idI)
  finally show ?thesis .
qed

lemma iterate_block_entries:
  assumes "entries_from buf n pos es" "n \<le> BLOCK_SIZE"
  shows "iterate_block f buf n pos s = Some (visit f es s)"
  using assms
proof (induction es arbitrary: pos s)
  case Nil
  then show ?case by (subst iterate_block.simps) simp
next
  case (Cons e es)
  then have e: "pos + 263 \<le> n" "entry_ok e" "entry_at buf pos e" "pos + en_len e \<le> BLOCK_SIZE" by simp_all
  note R = rec_end_entry [OF e(2,4)]
  have l: "unat (of_nat (length (en_name e)) :: byte) = length (en_name e)" "CHR 0x00 \<notin> set (en_name e)"
    using e(2) by (simp_all add: entry_ok_def unat_of_nat)
  show ?case
    using e R l c_string_name_bytes [OF l(2)] Cons
    by (subst iterate_block.simps) (auto simp: entry_at_def split: prod.splits)
qed

end
