(* ===== verification/Inode_Cache_Inv.thy ===== *)
theory Inode_Cache_Inv
  imports Inode_Bmap
begin

text \<open>
  The representation invariant of the inode cache: the LRU list threads every entry, the hash chains
  exactly the valid ones, no two of which hold the same inode.
\<close>

section \<open>The LRU links\<close>

definition ilinks_of :: "inode_cache \<Rightarrow> links" where
  "ilinks_of c =
     \<lparr>lk_next = (\<lambda>a. Option.bind (ic_inodes c a) im_next), lk_prev = ic_prev_of c,
      lk_head = ic_lru_head c, lk_tail = ic_lru_tail c\<rparr>"

text \<open>An entry without its LRU links, and the part of it that belongs to the inode.\<close>

definition iunlinked :: "inode_mem \<Rightarrow> inode_mem" where
  "iunlinked im = im\<lparr>im_prev := None, im_next := None\<rparr>"

definition core :: "inode_mem \<Rightarrow> inode_mem" where
  "core im = im\<lparr>im_prev := None, im_next := None, im_hash_next := None\<rparr>"

lemma iunlinked_eqD:
  assumes "iunlinked im = iunlinked im'"
  shows "im_inum im = im_inum im'" "im_hash_next im = im_hash_next im'" "im_valid im = im_valid im'"
  using assms by (cases im; cases im'; simp add: iunlinked_def)+

lemma core_unlinked: "iunlinked im = iunlinked im' \<Longrightarrow> core im = core im'"
  by (cases im; cases im') (simp add: iunlinked_def core_def)

lemma core_eqD:
  assumes "core im = core im'"
  shows "im_inum im = im_inum im'" "im_disk im = im_disk im'" "im_ref_count im = im_ref_count im'"
    "im_valid im = im_valid im'" "im_dirty im = im_dirty im'"
  using assms by (cases im; cases im'; simp add: core_def)+

definition isans_links :: "inode_cache \<Rightarrow> inode_cache" where
  "isans_links c = c\<lparr>ic_inodes := (\<lambda>_. None), ic_lru_head := None, ic_lru_tail := None\<rparr>"

definition ilru_frame :: "inode_cache \<Rightarrow> inode_cache \<Rightarrow> bool" where
  "ilru_frame c d \<longleftrightarrow> isans_links d = isans_links c \<and>
     (\<forall>a. map_option iunlinked (ic_inodes d a) = map_option iunlinked (ic_inodes c a))"

lemma ilru_frame_trans: "ilru_frame c d \<Longrightarrow> ilru_frame d e \<Longrightarrow> ilru_frame c e"
  by (simp add: ilru_frame_def)

lemma ilru_frame_fields:
  assumes "ilru_frame c d"
  shows "ic_dev d = ic_dev c" "ic_balloc d = ic_balloc c" "ic_sb d = ic_sb c" "ic_oom d = ic_oom c"
    "ic_hash_table d = ic_hash_table c" "ic_hash_size d = ic_hash_size c" "ic_max_inodes d = ic_max_inodes c"
    "ic_inode_bitmap d = ic_inode_bitmap c" "ic_bitmap_blocks d = ic_bitmap_blocks c"
  using assms by (cases c; cases d; simp add: ilru_frame_def isans_links_def)+

lemma ilru_frame_dom:
  assumes "ilru_frame c d"
  shows "dom (ic_inodes d) = dom (ic_inodes c)"
proof -
  have "ic_inodes d a = None \<longleftrightarrow> ic_inodes c a = None" for a
    using assms by (metis ilru_frame_def option.map_disc_iff)
  then show ?thesis by (auto simp: dom_def)
qed

lemma ilru_frame_cases:
  assumes "ilru_frame c d"
  obtains "ic_inodes c a = None" "ic_inodes d a = None"
  | im im' where "ic_inodes c a = Some im" "ic_inodes d a = Some im'" "iunlinked im' = iunlinked im"
proof -
  have "map_option iunlinked (ic_inodes d a) = map_option iunlinked (ic_inodes c a)"
    using assms by (simp add: ilru_frame_def)
  then show ?thesis using that by (cases "ic_inodes c a"; cases "ic_inodes d a") auto
qed

lemma inode_lru_remove_sim:
  assumes "a \<in> dom (ic_inodes c)"
    and "set_option (lk_prev (ilinks_of c) a) \<subseteq> dom (ic_inodes c) - {a}"
    and "set_option (lk_next (ilinks_of c) a) \<subseteq> dom (ic_inodes c) - {a}"
  shows "\<exists>d. inode_lru_remove c a = Some d \<and> ilinks_of d = links_remove (ilinks_of c) a \<and> ilru_frame c d"
proof -
  from assms(1) obtain b where b: "ic_inodes c a = Some b" by auto
  have P: "\<exists>x. ic_inodes c q = Some x" "q \<noteq> a" if "im_prev b = Some q" for q
    using assms(2) b that by (auto simp: ilinks_of_def ic_prev_of_def)
  have N: "\<exists>x. ic_inodes c q = Some x" "q \<noteq> a" if "im_next b = Some q" for q
    using assms(3) b that by (auto simp: ilinks_of_def ic_prev_of_def)
  show ?thesis
    using b P N
    by (cases "im_prev b"; cases "im_next b")
       (force simp: inode_lru_remove_def im_modify_def links_remove_def ilinks_of_def ic_prev_of_def Let_def
         ilru_frame_def isans_links_def iunlinked_def fun_eq_iff split: option.splits)+
qed

lemma inode_lru_push_front_sim:
  assumes "a \<in> dom (ic_inodes c)"
    and "set_option (lk_head (ilinks_of c)) \<subseteq> dom (ic_inodes c) - {a}"
  shows "\<exists>d. inode_lru_push_front c a = Some d \<and> ilinks_of d = links_push (ilinks_of c) a \<and> ilru_frame c d"
proof -
  from assms(1) obtain b where b: "ic_inodes c a = Some b" by auto
  have H: "\<exists>x. ic_inodes c q = Some x" "q \<noteq> a" if "ic_lru_head c = Some q" for q
    using assms(2) that by (auto simp: ilinks_of_def)
  show ?thesis
    using b H
    by (cases "ic_lru_head c")
       (force simp: inode_lru_push_front_def im_modify_def links_push_def ilinks_of_def ic_prev_of_def Let_def
         ilru_frame_def isans_links_def iunlinked_def fun_eq_iff split: option.splits)+
qed

interpretation ic_lru: lru_store ilinks_of "\<lambda>c. dom (ic_inodes c)" ilru_frame inode_lru_remove inode_lru_push_front
  by unfold_locales
     (blast intro: ilru_frame_trans inode_lru_remove_sim inode_lru_push_front_sim dest: ilru_frame_dom)+

section \<open>The invariant\<close>

definition inum_of :: "inode_cache \<Rightarrow> addr \<Rightarrow> inode_t" where
  "inum_of c a = (case ic_inodes c a of Some im \<Rightarrow> im_inum im | None \<Rightarrow> 0)"

definition live :: "inode_cache \<Rightarrow> addr set" where
  "live c = {a. \<exists>im. ic_inodes c a = Some im \<and> im_valid im}"

definition ibucket :: "inode_cache \<Rightarrow> addr \<Rightarrow> nat" where
  "ibucket c a = inode_hash (inum_of c a) (ic_hash_size c)"

definition ihashed :: "inode_cache \<Rightarrow> addr set \<Rightarrow> bool" where
  "ihashed c S \<longleftrightarrow> hash_ok (ic_hash_table c) (ic_hash_next_of c) (ibucket c) S \<and>
     length (ic_hash_table c) = unat (ic_hash_size c) \<and> 0 < ic_hash_size c"

definition ishape :: "inode_cache \<Rightarrow> addr list \<Rightarrow> bool" where
  "ishape c xs \<longleftrightarrow> dll (ilinks_of c) xs \<and> set xs = dom (ic_inodes c) \<and> ihashed c (live c) \<and> inj_on (inum_of c) (live c)"

lemma ishapeD:
  assumes "ishape c xs"
  shows "dll (ilinks_of c) xs" "set xs = dom (ic_inodes c)" "ihashed c (live c)" "inj_on (inum_of c) (live c)"
    "distinct xs"
  using assms dll_distinct by (auto simp: ishape_def)

lemma live_dom: "live c \<subseteq> dom (ic_inodes c)"
  by (auto simp: live_def)

lemma ilru_frame_views:
  assumes "ilru_frame c d"
  shows "inum_of d = inum_of c" "ic_hash_next_of d = ic_hash_next_of c" "ibucket d = ibucket c" "live d = live c"
proof -
  show i: "inum_of d = inum_of c"
  proof
    fix a
    show "inum_of d a = inum_of c a" by (rule ilru_frame_cases [OF assms, of a]) (auto simp: inum_of_def dest: iunlinked_eqD)
  qed
  show "ic_hash_next_of d = ic_hash_next_of c"
  proof
    fix a
    show "ic_hash_next_of d a = ic_hash_next_of c a"
      by (rule ilru_frame_cases [OF assms, of a]) (auto simp: ic_hash_next_of_def dest: iunlinked_eqD)
  qed
  show "ibucket d = ibucket c" using i ilru_frame_fields [OF assms] by (simp add: ibucket_def fun_eq_iff)
  have "a \<in> live d \<longleftrightarrow> a \<in> live c" for a
    by (rule ilru_frame_cases [OF assms, of a]) (auto simp: live_def dest: iunlinked_eqD)
  then show "live d = live c" by blast
qed

lemma ishape_frame:
  assumes "ishape c xs" "ilru_frame c d" "dll (ilinks_of d) ys" "set ys = set xs"
  shows "ishape d ys"
  using assms ilru_frame_dom [OF assms(2)] ilru_frame_fields [OF assms(2)] ilru_frame_views [OF assms(2)]
  by (auto simp: ishape_def ihashed_def)

text \<open>Updates of the inode itself keep the shape.\<close>

lemma ishape_modify:
  assumes "ishape c xs" "ic_inodes c a = Some im"
    and "im_inum (f im) = im_inum im" "im_valid (f im) = im_valid im" "im_prev (f im) = im_prev im"
    "im_next (f im) = im_next im" "im_hash_next (f im) = im_hash_next im"
  shows "ishape (c\<lparr>ic_inodes := (ic_inodes c)(a \<mapsto> f im)\<rparr>) xs"
proof -
  let ?d = "c\<lparr>ic_inodes := (ic_inodes c)(a \<mapsto> f im)\<rparr>"
  have "ilinks_of ?d = ilinks_of c" using assms(2-) by (auto simp: ilinks_of_def ic_prev_of_def fun_eq_iff)
  moreover have n: "ic_hash_next_of ?d = ic_hash_next_of c" "inum_of ?d = inum_of c"
    using assms(2-) by (auto simp: ic_hash_next_of_def inum_of_def fun_eq_iff)
  moreover have "ibucket ?d = ibucket c" using n(2) by (simp add: ibucket_def fun_eq_iff)
  moreover have "live ?d = live c" using assms(2-) by (auto simp: live_def)
  moreover have "dom (ic_inodes ?d) = dom (ic_inodes c)" using assms(2) by auto
  ultimately show ?thesis using assms(1) by (simp add: ishape_def ihashed_def)
qed

lemma ishape_cong:
  assumes "ishape c xs" "ic_inodes d = ic_inodes c" "ic_hash_table d = ic_hash_table c"
    "ic_hash_size d = ic_hash_size c" "ic_lru_head d = ic_lru_head c" "ic_lru_tail d = ic_lru_tail c"
  shows "ishape d xs"
proof -
  have "ic_prev_of d = ic_prev_of c" "ic_hash_next_of d = ic_hash_next_of c" "inum_of d = inum_of c" "live d = live c"
    using assms(2) by (auto simp: ic_prev_of_def ic_hash_next_of_def inum_of_def live_def fun_eq_iff)
  moreover from this have "ibucket d = ibucket c" using assms(4) by (simp add: ibucket_def fun_eq_iff)
  ultimately show ?thesis using assms by (simp add: ishape_def ihashed_def ilinks_of_def)
qed

section \<open>The hash table\<close>

lemma inode_hash_less: "0 < n \<Longrightarrow> inode_hash i n < unat n"
  by (simp add: inode_hash_def unat_mod word_gt_0 unat_gt_0)

lemma inode_hash_lookup_shape:
  assumes "ishape c xs"
  shows "\<exists>r. inode_hash_lookup c inum = Some r \<and>
    (case r of None \<Rightarrow> \<forall>a \<in> live c. inum_of c a \<noteq> inum | Some a \<Rightarrow> a \<in> live c \<and> inum_of c a = inum)"
proof -
  let ?h = "inode_hash inum (ic_hash_size c)"
  let ?stop = "\<lambda>a. map_option (\<lambda>b. im_inum b = inum) (ic_inodes c a)"
  from ishapeD(3) [OF assms] have ok: "hash_ok (ic_hash_table c) (ic_hash_next_of c) (ibucket c) (live c)"
    and h: "?h < length (ic_hash_table c)"
    by (auto simp: ihashed_def inode_hash_less)
  have "\<exists>r. ptr_find ?stop (ic_hash_next_of c) (ic_hash_table c ! ?h) = Some r \<and>
     (case r of None \<Rightarrow> \<forall>a \<in> live c. ibucket c a = ?h \<longrightarrow> \<not> inum_of c a = inum
      | Some a \<Rightarrow> a \<in> live c \<and> ibucket c a = ?h \<and> inum_of c a = inum)"
    by (rule hash_ok_find [OF ok h]) (auto simp: inum_of_def live_def)
  then obtain r where r: "ptr_find ?stop (ic_hash_next_of c) (ic_hash_table c ! ?h) = Some r"
    "case r of None \<Rightarrow> \<forall>a \<in> live c. ibucket c a = ?h \<longrightarrow> \<not> inum_of c a = inum
      | Some a \<Rightarrow> a \<in> live c \<and> ibucket c a = ?h \<and> inum_of c a = inum" by blast
  have "inode_hash_lookup c inum = Some r"
    using r(1) h by (simp add: inode_hash_lookup_def ic_load_bucket_def)
  then show ?thesis using r(2) by (auto simp: ibucket_def split: option.splits)
qed

text \<open>The chains are those of \<open>ihashed c S\<close> for a set \<open>S\<close> of entries, not necessarily the valid ones.\<close>

lemma inode_hash_insert_hashed:
  assumes "ihashed c S" "ic_inodes c a = Some im" "a \<notin> S"
  shows "\<exists>d. inode_hash_insert c a = Some d \<and> ihashed d (insert a S) \<and>
     (\<exists>n t. d = c\<lparr>ic_inodes := (ic_inodes c)(a \<mapsto> im\<lparr>im_hash_next := n\<rparr>), ic_hash_table := t\<rparr>)"
proof -
  let ?h = "inode_hash (im_inum im) (ic_hash_size c)"
  have h: "?h < length (ic_hash_table c)" using assms(1) by (simp add: ihashed_def inode_hash_less)
  let ?d = "c\<lparr>ic_inodes := (ic_inodes c)(a \<mapsto> im\<lparr>im_hash_next := ic_hash_table c ! ?h\<rparr>),
    ic_hash_table := (ic_hash_table c)[?h := Some a]\<rparr>"
  have "inode_hash_insert c a = Some ?d"
    using assms(2) h by (simp add: inode_hash_insert_def ic_load_bucket_def im_modify_def Let_def)
  moreover have "hash_ok ((ic_hash_table c)[?h := Some a]) (ic_hash_next_of ?d) (ibucket ?d) (insert a S)"
    by (rule hash_ok_insert [of _ "ic_hash_next_of c" "ibucket c"])
       (use assms h in \<open>auto simp: ihashed_def ic_hash_next_of_def ibucket_def inum_of_def\<close>)
  then have "ihashed ?d (insert a S)" using assms(1) by (simp add: ihashed_def)
  ultimately show ?thesis by (intro exI [of _ ?d]) auto
qed

lemma inode_hash_remove_hashed:
  assumes "ihashed c S" "a \<in> S" "S \<subseteq> dom (ic_inodes c)" "ic_inodes c a = Some im"
  shows "\<exists>d. inode_hash_remove c a = Some d \<and> ihashed d (S - {a}) \<and>
     ic_inodes d a = Some (im\<lparr>im_hash_next := None\<rparr>) \<and>
     (\<forall>x. x \<noteq> a \<longrightarrow> (\<exists>n. ic_inodes d x = map_option (im_hash_next_update n) (ic_inodes c x))) \<and>
     d = c\<lparr>ic_inodes := ic_inodes d, ic_hash_table := ic_hash_table d\<rparr>"
proof -
  let ?h = "ibucket c a"
  have ok: "hash_ok (ic_hash_table c) (ic_hash_next_of c) (ibucket c) S"
    and len: "length (ic_hash_table c) = unat (ic_hash_size c)" "0 < ic_hash_size c"
    using assms(1) by (auto simp: ihashed_def)
  have h: "?h < length (ic_hash_table c)" using ok assms(2) by (rule hash_ok_bucket)
  have hb: "inode_hash (im_inum im) (ic_hash_size c) = ?h" using assms(4) by (simp add: ibucket_def inum_of_def)
  have nb: "ic_hash_next_of c a = im_hash_next im" using assms(4) by (simp add: ic_hash_next_of_def)
  have ld: "ic_load_slot c (HashNext y) = Some (ic_hash_next_of c y)" if "y \<in> S" for y
    using that assms(3) by (auto simp: ic_hash_next_of_def)
  have lb: "ic_load_slot c (Bucket ?h) = Some (ic_hash_table c ! ?h)" using h by (simp add: ic_load_bucket_def)
  have "(slot_find (ic_load_slot c) a (Bucket ?h) = Some (Bucket ?h) \<and> ic_hash_table c ! ?h = Some a \<and>
      hash_ok ((ic_hash_table c)[?h := ic_hash_next_of c a]) ((ic_hash_next_of c)(a := None)) (ibucket c) (S - {a})) \<or>
    (\<exists>x \<in> S - {a}. slot_find (ic_load_slot c) a (Bucket ?h) = Some (HashNext x) \<and> ic_hash_next_of c x = Some a \<and>
      hash_ok (ic_hash_table c) ((ic_hash_next_of c)(x := ic_hash_next_of c a, a := None)) (ibucket c) (S - {a}))"
    by (rule hash_ok_remove [where load = "ic_load_slot c" and H = "ibucket c", OF ok assms(2) lb]) (rule ld)
  then show ?thesis
  proof (elim disjE conjE bexE)
    assume H: "slot_find (ic_load_slot c) a (Bucket ?h) = Some (Bucket ?h)" "ic_hash_table c ! ?h = Some a"
      "hash_ok ((ic_hash_table c)[?h := ic_hash_next_of c a]) ((ic_hash_next_of c)(a := None)) (ibucket c) (S - {a})"
    let ?d = "c\<lparr>ic_inodes := (ic_inodes c)(a \<mapsto> im\<lparr>im_hash_next := None\<rparr>),
        ic_hash_table := (ic_hash_table c)[?h := im_hash_next im]\<rparr>"
    have "inode_hash_remove c a = Some ?d"
      using assms(4) H h hb by (simp add: inode_hash_remove_def ic_load_bucket_def im_modify_def)
    moreover have "ic_hash_next_of ?d = (ic_hash_next_of c)(a := None)" "ibucket ?d = ibucket c"
      using assms(4) by (auto simp: ic_hash_next_of_def ibucket_def inum_of_def fun_eq_iff)
    then have "ihashed ?d (S - {a})" using H(3) nb len by (simp add: ihashed_def)
    moreover have "\<exists>n. ic_inodes ?d x = map_option (im_hash_next_update n) (ic_inodes c x)" if "x \<noteq> a" for x
      using that by (intro exI [of _ "\<lambda>n. n"]) (cases "ic_inodes c x"; simp)
    ultimately show ?thesis by (intro exI [of _ ?d]) auto
  next
    fix x
    assume x: "x \<in> S - {a}" and H: "slot_find (ic_load_slot c) a (Bucket ?h) = Some (HashNext x)"
      "ic_hash_next_of c x = Some a"
      "hash_ok (ic_hash_table c) ((ic_hash_next_of c)(x := ic_hash_next_of c a, a := None)) (ibucket c) (S - {a})"
    from x assms(3) obtain y where y: "ic_inodes c x = Some y" "x \<noteq> a" by auto
    then have yn: "im_hash_next y = Some a" using H(2) by (simp add: ic_hash_next_of_def)
    let ?d = "c\<lparr>ic_inodes := (ic_inodes c)(x \<mapsto> y\<lparr>im_hash_next := im_hash_next im\<rparr>, a \<mapsto> im\<lparr>im_hash_next := None\<rparr>)\<rparr>"
    have "inode_hash_remove c a = Some ?d"
      using assms(4) H(1) y yn hb by (simp add: inode_hash_remove_def im_modify_def)
    moreover have "ic_hash_next_of ?d = (ic_hash_next_of c)(x := ic_hash_next_of c a, a := None)" "ibucket ?d = ibucket c"
      using assms(4) y nb by (auto simp: ic_hash_next_of_def ibucket_def inum_of_def fun_eq_iff)
    then have "ihashed ?d (S - {a})" using H(3) len by (simp add: ihashed_def)
    moreover have "\<exists>n. ic_inodes ?d z = map_option (im_hash_next_update n) (ic_inodes c z)" if "z \<noteq> a" for z
    proof (cases "z = x")
      case True
      then show ?thesis using y by (intro exI [of _ "\<lambda>_. im_hash_next im"]) simp
    next
      case False
      then show ?thesis using that by (intro exI [of _ "\<lambda>n. n"]) (cases "ic_inodes c z"; simp)
    qed
    ultimately show ?thesis by (intro exI [of _ ?d]) auto
  qed
qed


text \<open>What the two leave alone: everything but the hash links.\<close>

definition unhashed :: "inode_mem \<Rightarrow> inode_mem" where
  "unhashed im = im\<lparr>im_hash_next := None\<rparr>"

definition ihash_frame :: "inode_cache \<Rightarrow> inode_cache \<Rightarrow> bool" where
  "ihash_frame c d \<longleftrightarrow> d = c\<lparr>ic_inodes := ic_inodes d, ic_hash_table := ic_hash_table d\<rparr> \<and>
     (\<forall>a. map_option unhashed (ic_inodes d a) = map_option unhashed (ic_inodes c a))"

lemma ihash_frame_refl [simp]: "ihash_frame c c"
  by (simp add: ihash_frame_def)

lemma unhashed_eqD:
  assumes "unhashed im = unhashed im'"
  shows "im_inum im = im_inum im'" "im_valid im = im_valid im'" "im_prev im = im_prev im'" "im_next im = im_next im'"
    "core im = core im'"
  using assms by (cases im; cases im'; simp add: unhashed_def core_def)+

lemma ihash_frameD:
  assumes "ihash_frame c d"
  shows "ilinks_of d = ilinks_of c" "dom (ic_inodes d) = dom (ic_inodes c)" "inum_of d = inum_of c" "live d = live c"
    "map_option core (ic_inodes d a) = map_option core (ic_inodes c a)"
    "ic_dev d = ic_dev c" "ic_balloc d = ic_balloc c" "ic_sb d = ic_sb c" "ic_oom d = ic_oom c"
    "ic_hash_size d = ic_hash_size c" "ic_max_inodes d = ic_max_inodes c"
    "ic_inode_bitmap d = ic_inode_bitmap c" "ic_bitmap_blocks d = ic_bitmap_blocks c"
proof -
  have e: "d = c\<lparr>ic_inodes := ic_inodes d, ic_hash_table := ic_hash_table d\<rparr>" using assms by (simp add: ihash_frame_def)
  show "ic_dev d = ic_dev c" "ic_balloc d = ic_balloc c" "ic_sb d = ic_sb c" "ic_oom d = ic_oom c"
    "ic_hash_size d = ic_hash_size c" "ic_max_inodes d = ic_max_inodes c"
    "ic_inode_bitmap d = ic_inode_bitmap c" "ic_bitmap_blocks d = ic_bitmap_blocks c" by (subst e, simp)+
  have h: "ic_lru_head d = ic_lru_head c" "ic_lru_tail d = ic_lru_tail c" by (subst e, simp)+
  have C: "(ic_inodes c x = None \<and> ic_inodes d x = None) \<or>
      (\<exists>im im'. ic_inodes c x = Some im \<and> ic_inodes d x = Some im' \<and> unhashed im' = unhashed im)" for x
  proof -
    have "map_option unhashed (ic_inodes d x) = map_option unhashed (ic_inodes c x)"
      using assms by (simp add: ihash_frame_def)
    then show ?thesis by (cases "ic_inodes c x"; cases "ic_inodes d x") auto
  qed
  have n: "Option.bind (ic_inodes d x) im_next = Option.bind (ic_inodes c x) im_next" "ic_prev_of d x = ic_prev_of c x"
    "inum_of d x = inum_of c x" "x \<in> live d \<longleftrightarrow> x \<in> live c" "x \<in> dom (ic_inodes d) \<longleftrightarrow> x \<in> dom (ic_inodes c)" for x
    using C [of x] by (auto simp: ic_prev_of_def inum_of_def live_def dest: unhashed_eqD)
  then show "ilinks_of d = ilinks_of c" using h by (simp add: ilinks_of_def fun_eq_iff)
  show "dom (ic_inodes d) = dom (ic_inodes c)" "inum_of d = inum_of c" "live d = live c"
    using n by (blast, simp add: fun_eq_iff, blast)
  show "map_option core (ic_inodes d a) = map_option core (ic_inodes c a)"
    using C [of a] by (auto dest: unhashed_eqD)
qed

lemma hash_remove_frame:
  assumes "ihashed c S" "a \<in> S" "S \<subseteq> dom (ic_inodes c)"
  shows "\<exists>d. inode_hash_remove c a = Some d \<and> ihashed d (S - {a}) \<and> ihash_frame c d"
proof -
  from assms(2,3) obtain im where im: "ic_inodes c a = Some im" by auto
  from inode_hash_remove_hashed [OF assms im] obtain d where
    d: "inode_hash_remove c a = Some d" "ihashed d (S - {a})" "ic_inodes d a = Some (im\<lparr>im_hash_next := None\<rparr>)"
      "\<And>x. x \<noteq> a \<Longrightarrow> \<exists>n. ic_inodes d x = map_option (im_hash_next_update n) (ic_inodes c x)"
      "d = c\<lparr>ic_inodes := ic_inodes d, ic_hash_table := ic_hash_table d\<rparr>" by blast
  have "map_option unhashed (ic_inodes d x) = map_option unhashed (ic_inodes c x)" for x
  proof (cases "x = a")
    case True
    then show ?thesis using d(3) im by (simp add: unhashed_def)
  next
    case False
    from d(4) [OF this] obtain n where "ic_inodes d x = map_option (im_hash_next_update n) (ic_inodes c x)" ..
    then show ?thesis by (cases "ic_inodes c x") (simp_all add: unhashed_def)
  qed
  then show ?thesis using d(1,2,5) by (auto simp: ihash_frame_def)
qed

lemma hash_insert_frame:
  assumes "ihashed c S" "a \<in> dom (ic_inodes c)" "a \<notin> S"
  shows "\<exists>d. inode_hash_insert c a = Some d \<and> ihashed d (insert a S) \<and> ihash_frame c d"
proof -
  from assms(2) obtain im where im: "ic_inodes c a = Some im" by auto
  from inode_hash_insert_hashed [OF assms(1) im assms(3)] obtain n t where
    d: "inode_hash_insert c a = Some (c\<lparr>ic_inodes := (ic_inodes c)(a \<mapsto> im\<lparr>im_hash_next := n\<rparr>), ic_hash_table := t\<rparr>)"
      "ihashed (c\<lparr>ic_inodes := (ic_inodes c)(a \<mapsto> im\<lparr>im_hash_next := n\<rparr>), ic_hash_table := t\<rparr>) (insert a S)" by blast
  then show ?thesis using im by (auto simp: ihash_frame_def unhashed_def)
qed

lemma ihashed_frame: "ilru_frame c d \<Longrightarrow> ihashed c S \<Longrightarrow> ihashed d S"
  by (simp add: ihashed_def ilru_frame_fields ilru_frame_views)

lemma ilru_frame_core:
  assumes "ilru_frame c d"
  shows "map_option core (ic_inodes d a) = map_option core (ic_inodes c a)"
  by (rule ilru_frame_cases [OF assms, of a]) (auto dest: core_unlinked)

text \<open>Changing an entry outside the chains.\<close>

lemma ihashed_modify:
  assumes "ihashed c S" "a \<notin> S"
  shows "ihashed (c\<lparr>ic_inodes := (ic_inodes c)(a \<mapsto> im)\<rparr>) S"
proof -
  have "hash_ok (ic_hash_table c) (ic_hash_next_of (c\<lparr>ic_inodes := (ic_inodes c)(a \<mapsto> im)\<rparr>))
    (ibucket (c\<lparr>ic_inodes := (ic_inodes c)(a \<mapsto> im)\<rparr>)) S"
    by (rule hash_ok_cong [of _ "ic_hash_next_of c" "ibucket c"])
       (use assms in \<open>auto simp: ihashed_def ic_hash_next_of_def ibucket_def inum_of_def\<close>)
  then show ?thesis using assms(1) by (simp add: ihashed_def)
qed

text \<open>The entry the cache gives up: the least recently used one without references.\<close>

lemma find_unreferenced_shape:
  assumes "ishape c xs"
  shows "\<exists>r. find_unreferenced c = Some r \<and>
     (case r of None \<Rightarrow> \<forall>a im. ic_inodes c a = Some im \<longrightarrow> 0 < im_ref_count im
      | Some a \<Rightarrow> \<exists>im. ic_inodes c a = Some im \<and> \<not> 0 < im_ref_count im)"
proof -
  let ?P = "\<lambda>a. case ic_inodes c a of Some im \<Rightarrow> \<not> 0 < im_ref_count im | None \<Rightarrow> False"
  have ch: "chain (ic_prev_of c) (ic_lru_tail c) (rev xs)"
    using dll_chain_prev [OF ishapeD(1) [OF assms]] by (simp add: ilinks_of_def)
  have "find_unreferenced c = Some (find ?P (rev xs))"
    unfolding find_unreferenced_def
    by (rule ptr_find_chain [OF ch]) (use ishapeD(2) [OF assms] in auto)
  moreover have "\<forall>a im. ic_inodes c a = Some im \<longrightarrow> 0 < im_ref_count im" if n: "find ?P (rev xs) = None"
  proof (intro allI impI)
    fix a im assume a: "ic_inodes c a = Some im"
    then have "a \<in> set xs" using ishapeD(2) [OF assms] by auto
    then show "0 < im_ref_count im" using n a by (auto simp: find_None_iff)
  qed
  moreover have "\<exists>im. ic_inodes c a = Some im \<and> \<not> 0 < im_ref_count im" if "find ?P (rev xs) = Some a" for a
    using that by (auto simp: find_Some_iff split: option.splits)
  ultimately show ?thesis by (auto split: option.splits)
qed

end
