(* ===== verification/Inode_Cache_Ops.thy ===== *)
theory Inode_Cache_Ops
  imports Inode_Cache_Inv
begin

text \<open>
  \<open>inode_get\<close>, \<open>inode_put\<close> and \<open>inode_sync\<close> against the map from inode numbers to inodes: the cached
  inode if there is one, else the slot of the inode table.
\<close>

section \<open>The inode table\<close>

text \<open>Numbers whose byte offset in the table does not wrap and whose block is on the device, outside the data region.\<close>

definition table_ok :: "inode_cache \<Rightarrow> inode_t \<Rightarrow> bool" where
  "table_ok c i \<longleftrightarrow> unat i < 2 ^ 25 \<and> ucast (inode_table_block c i) < bd_total_blocks (ic_dev c) \<and>
     inode_table_block c i \<notin> ic_pool c"

definition disk_node :: "inode_cache \<Rightarrow> inode_t \<Rightarrow> disk_inode" where
  "disk_node c i = decode_disk_inode (slice (inode_table_offset i) INODE_SIZE (ic_view c (inode_table_block c i)))"

lemma table_slot:
  assumes "unat (i :: inode_t) < 2 ^ 25"
  shows "unat ((i * 128) div 4096) = unat i div 32" "inode_table_offset i = unat i mod 32 * 128"
proof -
  have w: "unat (i * 128) = unat i * 128" using assms by (simp add: unat_word_ariths)
  then show "unat ((i * 128) div 4096) = unat i div 32" by (simp add: unat_div)
  have "unat i * 128 mod 4096 = unat i mod 32 * 128" using mult_mod_left [of "unat i" 32 128] by simp
  then show "inode_table_offset i = unat i mod 32 * 128" using w by (simp add: inode_table_offset_def unat_mod)
qed

lemma slot_fits: "unat i < 2 ^ 25 \<Longrightarrow> inode_table_offset i + INODE_SIZE \<le> BLOCK_SIZE"
  using table_slot(2) [of i] by simp

lemma slots_apart:
  assumes "unat i < 2 ^ 25" "unat j < 2 ^ 25" "i \<noteq> j" "inode_table_block c i = inode_table_block c j"
  shows "inode_table_offset i + INODE_SIZE \<le> inode_table_offset j \<or> inode_table_offset j + INODE_SIZE \<le> inode_table_offset i"
proof -
  have "(i * 128) div 4096 = (j * 128) div 4096" using assms(4) by (simp add: inode_table_block_def)
  then have "unat i div 32 = unat j div 32" using table_slot(1) assms(1,2) by metis
  moreover have "unat i \<noteq> unat j" using assms(3) by (simp add: word_unat_eq_iff)
  ultimately have "unat i mod 32 \<noteq> unat j mod 32" by (metis div_mult_mod_eq)
  then show ?thesis using table_slot(2) [OF assms(1)] table_slot(2) [OF assms(2)] by auto
qed

section \<open>The invariant and the abstraction\<close>

definition iwf :: "inode_cache \<Rightarrow> bool" where
  "iwf c \<longleftrightarrow> ic_ok c \<and> (\<exists>xs. ishape c xs) \<and>
     (\<forall>a im. ic_inodes c a = Some im \<longrightarrow> im_valid im \<longrightarrow>
        table_ok c (im_inum im) \<and> disk_inode_wf (im_disk im) \<and>
        (\<not> im_dirty im \<longrightarrow> im_disk im = disk_node c (im_inum im)))"

definition node_of :: "inode_cache \<Rightarrow> inode_t \<Rightarrow> disk_inode" where
  "node_of c i = (case inode_hash_lookup c i of
       Some (Some a) \<Rightarrow> (case ic_inodes c a of Some im \<Rightarrow> im_disk im | None \<Rightarrow> disk_node c i)
     | _ \<Rightarrow> disk_node c i)"

text \<open>What the operations leave alone.\<close>

definition istatic :: "inode_cache \<Rightarrow> inode_cache \<Rightarrow> bool" where
  "istatic c c' \<longleftrightarrow> ic_sb c' = ic_sb c \<and> ic_oom c' = ic_oom c \<and> ic_max_inodes c' = ic_max_inodes c \<and>
     ic_inode_bitmap c' = ic_inode_bitmap c \<and> ic_bitmap_blocks c' = ic_bitmap_blocks c \<and>
     ic_hash_size c' = ic_hash_size c \<and> ic_balloc c' = ic_balloc c \<and> dev_static (ic_dev c) (ic_dev c')"

lemma istatic_refl [simp]: "istatic c c"
  by (simp add: istatic_def)

lemma istatic_trans: "istatic c d \<Longrightarrow> istatic d e \<Longrightarrow> istatic c e"
  by (auto simp: istatic_def intro: dev_static_trans)

lemma istatic_frame: "ilru_frame c d \<Longrightarrow> istatic c d"
  by (simp add: istatic_def ilru_frame_fields)

lemma istatic_views:
  assumes "istatic c c'"
  shows "inode_table_block c' i = inode_table_block c i" "ic_pool c' = ic_pool c" "table_ok c' i = table_ok c i"
    "ic_used c' = ic_used c" "bd_total_blocks (ic_dev c') = bd_total_blocks (ic_dev c)"
  using assms by (simp_all add: istatic_def inode_table_block_def ic_pool_def ic_used_def table_ok_def dev_static_def)

lemma disk_node_view: "istatic c c' \<Longrightarrow> ic_view c' = ic_view c \<Longrightarrow> disk_node c' i = disk_node c i"
  by (simp add: disk_node_def istatic_views)

lemma iwfD:
  assumes "iwf c"
  shows "ic_ok c" "\<exists>xs. ishape c xs"
    "ic_inodes c a = Some im \<Longrightarrow> im_valid im \<Longrightarrow> table_ok c (im_inum im)"
    "ic_inodes c a = Some im \<Longrightarrow> im_valid im \<Longrightarrow> disk_inode_wf (im_disk im)"
    "ic_inodes c a = Some im \<Longrightarrow> im_valid im \<Longrightarrow> \<not> im_dirty im \<Longrightarrow> im_disk im = disk_node c (im_inum im)"
  using assms by (auto simp: iwf_def)

lemma live_inj:
  assumes "ishape c xs" "ic_inodes c a = Some im" "im_valid im" "ic_inodes c b = Some im'" "im_valid im'"
    "im_inum im = im_inum im'"
  shows "a = b"
proof -
  have "a \<in> live c" "b \<in> live c" "inum_of c a = inum_of c b" using assms(2-) by (auto simp: live_def inum_of_def)
  then show ?thesis using ishapeD(4) [OF assms(1)] by (meson inj_onD)
qed

lemma node_of_cached:
  assumes "ishape c xs" "ic_inodes c a = Some im" "im_valid im"
  shows "node_of c (im_inum im) = im_disk im"
proof -
  from inode_hash_lookup_shape [OF assms(1), of "im_inum im"] obtain r where
    r: "inode_hash_lookup c (im_inum im) = Some r"
      "case r of None \<Rightarrow> \<forall>a \<in> live c. inum_of c a \<noteq> im_inum im | Some a \<Rightarrow> a \<in> live c \<and> inum_of c a = im_inum im"
    by blast
  have a: "a \<in> live c" "inum_of c a = im_inum im" using assms(2,3) by (auto simp: live_def inum_of_def)
  with r(2) obtain b where b: "r = Some b" "b \<in> live c" "inum_of c b = im_inum im" by (cases r) auto
  then have "b = a" using a ishapeD(4) [OF assms(1)] by (metis inj_onD)
  then show ?thesis using r(1) b(1) assms(2) by (simp add: node_of_def)
qed

lemma node_of_uncached:
  assumes "ishape c xs" "\<And>a im. ic_inodes c a = Some im \<Longrightarrow> im_valid im \<Longrightarrow> im_inum im \<noteq> i"
  shows "node_of c i = disk_node c i"
proof -
  have "inum_of c a \<noteq> i" if "a \<in> live c" for a
  proof -
    obtain im where "ic_inodes c a = Some im" "im_valid im" using that \<open>a \<in> live c\<close> by (auto simp: live_def)
    then show ?thesis using assms(2) by (simp add: inum_of_def)
  qed
  then show ?thesis
    using inode_hash_lookup_shape [OF assms(1), of i] by (auto simp: node_of_def split: option.splits)
qed

text \<open>Two caches with the same valid inodes and the same table hold the same inodes.\<close>

definition ident :: "inode_mem \<Rightarrow> inode_t \<times> bool \<times> disk_inode" where
  "ident im = (im_inum im, im_valid im, im_disk im)"

lemma core_ident: "map_option core x = map_option core y \<Longrightarrow> map_option ident x = map_option ident y"
  by (cases x; cases y) (auto simp: ident_def dest: core_eqD)

definition cached :: "inode_cache \<Rightarrow> inode_t \<Rightarrow> disk_inode \<Rightarrow> bool" where
  "cached c i d \<longleftrightarrow> (\<exists>a im. ic_inodes c a = Some im \<and> ident im = (i, True, d))"

lemma node_of_cases:
  assumes "ishape c xs"
  shows "cached c i d \<Longrightarrow> node_of c i = d" "(\<And>d. \<not> cached c i d) \<Longrightarrow> node_of c i = disk_node c i"
proof -
  assume "cached c i d"
  then show "node_of c i = d" using node_of_cached [OF assms] by (auto simp: cached_def ident_def)
next
  assume n: "\<And>d. \<not> cached c i d"
  show "node_of c i = disk_node c i"
  proof (rule node_of_uncached [OF assms])
    fix a im assume "ic_inodes c a = Some im" "im_valid im"
    then show "im_inum im \<noteq> i" using n [of "im_disk im"] by (auto simp: cached_def ident_def)
  qed
qed

lemma node_of_cong:
  assumes "ishape c xs" "ishape d ys" "\<And>n. cached d i n \<longleftrightarrow> cached c i n"
    "(\<And>n. \<not> cached c i n) \<Longrightarrow> disk_node d i = disk_node c i"
  shows "node_of d i = node_of c i"
proof (cases "\<exists>n. cached c i n")
  case True
  then show ?thesis using node_of_cases(1) [OF assms(1)] node_of_cases(1) [OF assms(2)] assms(3) by blast
next
  case False
  then show ?thesis
    using node_of_cases(2) [OF assms(1)] node_of_cases(2) [OF assms(2)] assms(3,4) by simp
qed

lemma cached_cong:
  assumes "\<And>a. map_option ident (ic_inodes d a) = map_option ident (ic_inodes c a)"
  shows "cached d i n = cached c i n"
proof -
  have "(\<exists>im. ic_inodes d a = Some im \<and> ident im = (i, True, n)) \<longleftrightarrow>
    (\<exists>im. ic_inodes c a = Some im \<and> ident im = (i, True, n))" for a
    using assms [of a] by (cases "ic_inodes c a"; cases "ic_inodes d a") auto
  then show ?thesis unfolding cached_def by blast
qed

section \<open>Writing an inode back\<close>

lemma disk_node_write:
  assumes len: "length (ic_view c (inode_table_block c j)) = BLOCK_SIZE" and wf: "disk_inode_wf d"
    and i: "unat i < 2 ^ 25" and j: "unat j < 2 ^ 25" and st: "istatic c c'"
    and v: "ic_view c' = (ic_view c)(inode_table_block c j :=
      splice (inode_table_offset j) (encode_disk_inode d) (ic_view c (inode_table_block c j)))"
  shows "disk_node c' i = (if i = j then d else disk_node c i)"
proof -
  have e: "length (encode_disk_inode d) = INODE_SIZE" using wf by (simp add: codec_simps)
  have fit: "inode_table_offset j + length (encode_disk_inode d) \<le> length (ic_view c (inode_table_block c j))"
    using slot_fits [OF j] len e by simp
  show ?thesis
  proof (cases "i = j")
    case True
    then show ?thesis
      using slice_splice_same [OF fit] e wf v istatic_views(1) [OF st] by (simp add: disk_node_def codec_simps)
  next
    case False
    show ?thesis
    proof (cases "inode_table_block c i = inode_table_block c j")
      case True
      have "inode_table_offset i + INODE_SIZE \<le> length (ic_view c (inode_table_block c j))"
        using slot_fits [OF i] len by simp
      from slice_splice_other [OF fit this] show ?thesis
        using False slots_apart [OF i j False True] True e v istatic_views(1) [OF st] by (auto simp: disk_node_def)
    next
      case neq: False
      then show ?thesis using False v istatic_views(1) [OF st] by (simp add: disk_node_def)
    qed
  qed
qed

lemma inode_sync_spec:
  assumes wf: "iwf c" and a: "ic_inodes c a = Some im" "im_valid im"
  shows "\<exists>c'. inode_sync c a = Some (0, c') \<and> iwf c' \<and> istatic c c' \<and>
     ic_inodes c' = (ic_inodes c)(a \<mapsto> im\<lparr>im_dirty := False\<rparr>) \<and> ic_hash_table c' = ic_hash_table c \<and>
     ic_lru_head c' = ic_lru_head c \<and> ic_lru_tail c' = ic_lru_tail c \<and>
     (\<forall>i. unat i < 2 ^ 25 \<longrightarrow> disk_node c' i = (if i = im_inum im then im_disk im else disk_node c i)) \<and>
     (\<forall>b. b \<noteq> inode_table_block c (im_inum im) \<longrightarrow> ic_view c' b = ic_view c b)"
proof -
  note W = iwfD [OF wf]
  have wfa: "disk_inode_wf (im_disk im)" and tb: "table_ok c (im_inum im)" using W(3,4) a by blast+
  have i25: "unat (im_inum im) < 2 ^ 25" using tb by (simp add: table_ok_def)
  obtain xs where xs: "ishape c xs" using W(2) by blast
  show ?thesis
  proof (cases "im_dirty im")
    case False
    then have "ic_inodes c = (ic_inodes c)(a \<mapsto> im\<lparr>im_dirty := False\<rparr>)" using a by (auto simp: fun_eq_iff)
    then show ?thesis using False a W(1) W(5) [OF a False] wf by (simp add: inode_sync_def)
  next
    case True
    let ?b = "inode_table_block c (im_inum im)"
    have b: "ucast ?b < bd_total_blocks (ic_dev c)" using tb by (simp add: table_ok_def)
    have noom: "\<not> ic_oom c" using W(1) by (simp add: ic_ok_def)
    from ic_read_spec [OF W(1) b] obtain c1 where
      c1: "ic_read c ?b = Some (Inr (ic_view c ?b), c1)" "ic_ok c1" "ic_keep c c1" "ic_inodes c1 = ic_inodes c"
        "ic_view c1 = ic_view c" "ic_balloc c1 = ic_balloc c" by blast
    have len: "length (ic_view c ?b) = BLOCK_SIZE" using ic_view_length [OF W(1)] .
    have e: "length (encode_disk_inode (im_disk im)) = INODE_SIZE" using wfa by (simp add: codec_simps)
    let ?buf = "splice (inode_table_offset (im_inum im)) (encode_disk_inode (im_disk im)) (ic_view c ?b)"
    have bw: "buf_write (ic_view c ?b) (inode_table_offset (im_inum im)) (encode_disk_inode (im_disk im)) = Some ?buf"
      using slot_fits [OF i25] len e by (simp add: buf_write_def)
    have lb: "length ?buf = BLOCK_SIZE" using slot_fits [OF i25] len e by (simp add: length_splice)
    have "ucast ?b < bd_total_blocks (ic_dev c1)" using b ic_keep_fields(11) [OF c1(3)] by simp
    from ic_write_spec [OF c1(2) this lb] obtain c2 where
      c2: "ic_write c1 ?b ?buf = Some (0, c2)" "ic_ok c2" "ic_keep c1 c2" "ic_inodes c2 = ic_inodes c1"
        "ic_view c2 = (ic_view c1)(?b := ?buf)" "ic_balloc c2 = ic_balloc c1" by blast
    have a2: "ic_inodes c2 a = Some im" using a c1(4) c2(4) by simp
    let ?c3 = "c2\<lparr>ic_inodes := (ic_inodes c2)(a \<mapsto> im\<lparr>im_dirty := False\<rparr>)\<rparr>"
    have run: "inode_sync c a = Some (0, ?c3)"
      using a True noom c1(1) bw c2(1) a2 by (simp add: inode_sync_def im_modify_def Let_def)
    have k: "ic_keep c c2" using ic_keep_trans c1(3) c2(3) by blast
    have st: "istatic c ?c3"
      using ic_keep_fields [OF k] c1(6) c2(6) k by (simp add: istatic_def ic_keep_def)
    have v: "ic_view ?c3 = (ic_view c)(?b := ?buf)" using c2(5) c1(5) by (simp add: ic_view_def)
    have dn: "disk_node ?c3 i = (if i = im_inum im then im_disk im else disk_node c i)" if "unat i < 2 ^ 25" for i
      by (rule disk_node_write [OF len wfa that i25 st v])
    have fields: "ic_lru_head ?c3 = ic_lru_head c" "ic_lru_tail ?c3 = ic_lru_tail c"
      "ic_hash_table ?c3 = ic_hash_table c" "ic_hash_size ?c3 = ic_hash_size c"
      using ic_keep_fields [OF k] by simp_all
    have in3: "ic_inodes ?c3 = (ic_inodes c)(a \<mapsto> im\<lparr>im_dirty := False\<rparr>)" using c1(4) c2(4) by simp
    have sh: "ishape ?c3 xs"
      by (rule ishape_cong [OF ishape_modify [where f = "im_dirty_update (\<lambda>_. False)", OF xs a(1)]])
         (simp_all only: in3 fields, simp_all)
    have "iwf ?c3"
      unfolding iwf_def
    proof (intro conjI allI impI)
      show "ic_ok ?c3" using c2(2) by (simp add: ic_ok_def)
      show "\<exists>xs. ishape ?c3 xs" using sh by blast
      fix x m assume x: "ic_inodes ?c3 x = Some m" "im_valid m"
      then have "\<exists>m'. ic_inodes c x = Some m' \<and> im_valid m' \<and> im_inum m' = im_inum m \<and> im_disk m' = im_disk m \<and>
          (x \<noteq> a \<longrightarrow> m' = m)"
        using a in3 by (auto split: if_splits)
      then obtain m' where m': "ic_inodes c x = Some m'" "im_valid m'" "im_inum m' = im_inum m" "im_disk m' = im_disk m"
        "x \<noteq> a \<longrightarrow> m' = m" by blast
      show "table_ok ?c3 (im_inum m)" using W(3) [OF m'(1,2)] m'(3) istatic_views(3) [OF st] by simp
      then have m25: "unat (im_inum m) < 2 ^ 25" by (simp add: table_ok_def)
      show "disk_inode_wf (im_disk m)" using W(4) [OF m'(1,2)] m'(4) by simp
      assume nd: "\<not> im_dirty m"
      show "im_disk m = disk_node ?c3 (im_inum m)"
      proof (cases "x = a")
        case True
        then show ?thesis using dn [OF m25] m' a by auto
      next
        case False
        then have "im_inum m \<noteq> im_inum im" using live_inj [OF xs m'(1,2) a] m'(3) by auto
        then show ?thesis using dn [OF m25] W(5) [OF m'(1,2)] m' False nd by simp
      qed
    qed
    then show ?thesis using run st in3 fields dn v by auto
  qed
qed


section \<open>Reusing an entry\<close>

text \<open>Steps of \<open>inode_get\<close> on a miss, from taking the entry out of its chain to pushing it to the front.\<close>

definition rename :: "inode_t \<Rightarrow> inode_mem \<Rightarrow> inode_mem" where
  "rename inum im = im\<lparr>im_inum := inum, im_ref_count := 1, im_valid := False, im_dirty := False\<rparr>"

lemma recycle:
  assumes s: "ishape c xs" and a: "ic_inodes c a = Some im"
  shows "\<exists>c1 c2 c3 c4 c5 im'. (if im_valid im then inode_hash_remove c a else Some c) = Some c1 \<and>
     inode_lru_remove c1 a = Some c2 \<and> im_modify c2 a (rename inum) = Some c3 \<and>
     inode_hash_insert c3 a = Some c4 \<and> inode_lru_push_front c4 a = Some c5 \<and>
     dll (ilinks_of c5) (a # remove1 a xs) \<and> ihashed c5 (insert a (live c - {a})) \<and> 
     ic_inodes c5 a = Some im' \<and> core im' = core (rename inum im) \<and>
     (\<forall>x. x \<noteq> a \<longrightarrow> map_option core (ic_inodes c5 x) = map_option core (ic_inodes c x)) \<and>
     dom (ic_inodes c5) = dom (ic_inodes c) \<and> istatic c c5 \<and> ic_dev c5 = ic_dev c"
proof -
  note S = ishapeD [OF s]
  have ad: "a \<in> dom (ic_inodes c)" and ax: "a \<in> set xs" using a S(2) by auto
  have al: "a \<in> live c \<longleftrightarrow> im_valid im" using a by (simp add: live_def)
  have "\<exists>c1. (if im_valid im then inode_hash_remove c a else Some c) = Some c1 \<and> ihashed c1 (live c - {a}) \<and>
    ihash_frame c c1"
  proof (cases "im_valid im")
    case True
    then show ?thesis using hash_remove_frame [OF S(3) _ live_dom] al by simp
  next
    case False
    then have "live c - {a} = live c" using al by auto
    then show ?thesis using False S(3) by simp
  qed
  then obtain c1 where c1: "(if im_valid im then inode_hash_remove c a else Some c) = Some c1"
    "ihashed c1 (live c - {a})" "ihash_frame c c1" by blast
  note F1 = ihash_frameD [OF c1(3)]
  have "dll (ilinks_of c1) xs" "set xs \<subseteq> dom (ic_inodes c1)" using S F1 by simp_all
  from ic_lru.rem_dll [OF this ax] obtain c2 where c2: "inode_lru_remove c1 a = Some c2"
    "dll (ilinks_of c2) (remove1 a xs)" "ilru_frame c1 c2" by blast
  note F2 = ilru_frame_fields [OF c2(3)]
  have d2: "dom (ic_inodes c2) = dom (ic_inodes c)" using ilru_frame_dom [OF c2(3)] F1(2) by simp
  then obtain im2 where im2: "ic_inodes c2 a = Some im2" using ad by auto
  have core2: "map_option core (ic_inodes c2 x) = map_option core (ic_inodes c x)" for x
    using ilru_frame_core [OF c2(3)] F1(5) by simp
  let ?c3 = "c2\<lparr>ic_inodes := (ic_inodes c2)(a \<mapsto> rename inum im2)\<rparr>"
  have h3: "ihashed ?c3 (live c - {a})"
    using ihashed_modify [OF ihashed_frame [OF c2(3) c1(2)]] by simp
  have d3: "a \<in> dom (ic_inodes ?c3)" by simp
  from hash_insert_frame [OF h3 d3] obtain c4 where
    c4: "inode_hash_insert ?c3 a = Some c4" "ihashed c4 (insert a (live c - {a}))" "ihash_frame ?c3 c4" by auto
  note F4 = ihash_frameD [OF c4(3)]
  have na: "a \<notin> set (remove1 a xs)" using S(5) by simp
  have "dll (ilinks_of ?c3) (remove1 a xs)"
  proof (rule dll_cong [OF c2(2)])
    fix x assume "x \<in> set (remove1 a xs)"
    then have "x \<noteq> a" using na by auto
    then show "lk_next (ilinks_of ?c3) x = lk_next (ilinks_of c2) x \<and> lk_prev (ilinks_of ?c3) x = lk_prev (ilinks_of c2) x"
      by (simp add: ilinks_of_def ic_prev_of_def)
  qed (simp_all add: ilinks_of_def)
  then have "dll (ilinks_of c4) (remove1 a xs)" using F4(1) by simp
  moreover have d4: "dom (ic_inodes c4) = dom (ic_inodes c)" using F4(2) d2 ad by auto
  moreover have "set (remove1 a xs) \<subseteq> dom (ic_inodes c4)" "a \<in> dom (ic_inodes c4)"
    using S(2,5) d4 ad by auto
  ultimately obtain c5 where c5: "inode_lru_push_front c4 a = Some c5" "dll (ilinks_of c5) (a # remove1 a xs)"
    "ilru_frame c4 c5" using ic_lru.push_dll [of c4 "remove1 a xs" a] na by blast
  note F5 = ilru_frame_fields [OF c5(3)]
  have "map_option core (ic_inodes c5 a) = Some (core (rename inum im2))"
    using ilru_frame_core [OF c5(3), of a] F4(5) [of a] by simp
  then obtain im' where im': "ic_inodes c5 a = Some im'" "core im' = core (rename inum im2)" by auto
  have "core im2 = core im" using core2 [of a] im2 a by simp
  then have cr: "core (rename inum im2) = core (rename inum im)" by (cases im; cases im2) (simp add: core_def rename_def)
  have "map_option core (ic_inodes c5 x) = map_option core (ic_inodes c x)" if "x \<noteq> a" for x
    using ilru_frame_core [OF c5(3), of x] F4(5) [of x] core2 [of x] that by simp
  moreover have "istatic c c5" "ic_dev c5 = ic_dev c" using F1 F2 F4 F5 by (simp_all add: istatic_def)
  ultimately show ?thesis
    using c1(1) c2(1) c4(1) c5(1,2) ihashed_frame [OF c5(3) c4(2)] im' cr im2 ilru_frame_dom [OF c5(3)] d4
    by (auto simp: im_modify_def)
qed

section \<open>Getting an inode\<close>

text \<open>The read from the inode table into an entry.\<close>

lemma inode_load_spec:
  assumes ok: "ic_ok c" and a: "ic_inodes c a = Some im" and t: "table_ok c inum"
  shows "\<exists>c'. inode_load c a inum = Some (Some a, c') \<and> ic_ok c' \<and> istatic c c' \<and> ic_view c' = ic_view c \<and>
     ic_inodes c' = (ic_inodes c)(a \<mapsto> im\<lparr>im_disk := disk_node c inum, im_valid := True\<rparr>) \<and>
     ic_hash_table c' = ic_hash_table c \<and> ic_lru_head c' = ic_lru_head c \<and> ic_lru_tail c' = ic_lru_tail c"
proof -
  let ?b = "inode_table_block c inum"
  have b: "ucast ?b < bd_total_blocks (ic_dev c)" and i: "unat inum < 2 ^ 25" using t by (simp_all add: table_ok_def)
  from ic_read_spec [OF ok b] obtain c1 where
    c1: "ic_read c ?b = Some (Inr (ic_view c ?b), c1)" "ic_ok c1" "ic_keep c c1" "ic_inodes c1 = ic_inodes c"
      "ic_view c1 = ic_view c" "ic_balloc c1 = ic_balloc c" by blast
  have rd: "buf_read (ic_view c ?b) (inode_table_offset inum) INODE_SIZE =
      Some (slice (inode_table_offset inum) INODE_SIZE (ic_view c ?b))"
    using slot_fits [OF i] ic_view_length [OF ok, of ?b] by (simp add: buf_read_def)
  let ?c2 = "c1\<lparr>ic_inodes := (ic_inodes c1)(a \<mapsto> im\<lparr>im_disk := disk_node c inum, im_valid := True\<rparr>)\<rparr>"
  have "inode_load c a inum = Some (Some a, ?c2)"
    using ok c1(1,4) rd a by (simp add: inode_load_def im_modify_def ic_ok_def disk_node_def)
  moreover have "ic_ok ?c2" using c1(2) by (simp add: ic_ok_def)
  moreover have "istatic c ?c2" using ic_keep_fields [OF c1(3)] c1(3,6) by (simp add: istatic_def ic_keep_def)
  moreover have "ic_view ?c2 = ic_view c" using c1(5) by (simp add: ic_view_def)
  ultimately show ?thesis using c1(4) ic_keep_fields [OF c1(3)] by (auto simp del: fun_upd_apply)
qed


lemma ihashed_update:
  assumes "ihashed c S" "ic_inodes c a = Some im" "im_inum im' = im_inum im" "im_hash_next im' = im_hash_next im"
    "ic_inodes d = (ic_inodes c)(a \<mapsto> im')" "ic_hash_table d = ic_hash_table c" "ic_hash_size d = ic_hash_size c"
  shows "ihashed d S"
proof -
  have "ic_hash_next_of d = ic_hash_next_of c" "inum_of d = inum_of c"
    using assms(2-5) by (auto simp: ic_hash_next_of_def inum_of_def fun_eq_iff)
  then show ?thesis using assms(1,6,7) by (simp add: ihashed_def ibucket_def [abs_def])
qed

lemma ilinks_update:
  assumes "ic_inodes c a = Some im" "im_prev im' = im_prev im" "im_next im' = im_next im"
    "ic_inodes d = (ic_inodes c)(a \<mapsto> im')" "ic_lru_head d = ic_lru_head c" "ic_lru_tail d = ic_lru_tail c"
  shows "ilinks_of d = ilinks_of c"
  using assms by (auto simp: ilinks_of_def ic_prev_of_def fun_eq_iff)

text \<open>The write-back of the entry to be reused.\<close>

lemma evict_sync:
  assumes wf: "iwf c" and a: "ic_inodes c a = Some im"
  shows "\<exists>e c0 im0. (if im_dirty im \<and> im_valid im then inode_sync c a else Some (0, c)) = Some (e, c0) \<and>
     iwf c0 \<and> istatic c c0 \<and> ic_inodes c0 = (ic_inodes c)(a \<mapsto> im0) \<and> ident im0 = ident im \<and>
     im_ref_count im0 = im_ref_count im \<and>
     (im_valid im \<longrightarrow> disk_node c0 (im_inum im) = im_disk im) \<and>
     (\<forall>i. unat i < 2 ^ 25 \<longrightarrow> node_of c0 i = node_of c i) \<and>
     (\<forall>b \<in> ic_pool c. ic_view c0 b = ic_view c b)"
proof (cases "im_dirty im \<and> im_valid im")
  case False
  have "ic_inodes c = (ic_inodes c)(a \<mapsto> im)" using a by auto
  then show ?thesis using False wf iwfD(5) [OF wf a] by auto
next
  case True
  then have v: "im_valid im" by simp
  from inode_sync_spec [OF wf a v] obtain c0 where
    c0: "inode_sync c a = Some (0, c0)" "iwf c0" "istatic c c0" "ic_inodes c0 = (ic_inodes c)(a \<mapsto> im\<lparr>im_dirty := False\<rparr>)"
      "\<And>i. unat i < 2 ^ 25 \<Longrightarrow> disk_node c0 i = (if i = im_inum im then im_disk im else disk_node c i)"
      "\<And>b. b \<noteq> inode_table_block c (im_inum im) \<Longrightarrow> ic_view c0 b = ic_view c b" by blast
  obtain xs ys where s: "ishape c xs" "ishape c0 ys" using iwfD(2) wf c0(2) by blast
  have t: "table_ok c (im_inum im)" using iwfD(3) [OF wf a v] .
  have n: "node_of c0 i = node_of c i" if "unat i < 2 ^ 25" for i
  proof (rule node_of_cong [OF s])
    fix n
    show "cached c0 i n = cached c i n"
      by (rule cached_cong) (use c0(4) a in \<open>auto simp: ident_def\<close>)
  next
    assume "\<And>n. \<not> cached c i n"
    then have "i \<noteq> im_inum im" using a v by (auto simp: cached_def ident_def)
    then show "disk_node c0 i = disk_node c i" using c0(5) [OF that] by simp
  qed
  have "disk_node c0 (im_inum im) = im_disk im" using c0(5) t by (simp add: table_ok_def)
  moreover have "\<forall>b \<in> ic_pool c. ic_view c0 b = ic_view c b"
    using t by (intro ballI c0(6)) (auto simp: table_ok_def)
  ultimately show ?thesis using True c0(1-4) n by (auto simp: ident_def simp del: fun_upd_apply)
qed


lemma inode_get_hit:
  assumes wf: "iwf c" and a: "ic_inodes c a = Some im" "im_valid im" "im_inum im = inum"
  shows "\<exists>c' im'. inode_get c inum = Some (Some a, c') \<and> iwf c' \<and> istatic c c' \<and> ic_dev c' = ic_dev c \<and>
     ic_inodes c' a = Some im' \<and> core im' = core (im\<lparr>im_ref_count := im_ref_count im + 1\<rparr>) \<and>
     (\<forall>x. x \<noteq> a \<longrightarrow> map_option core (ic_inodes c' x) = map_option core (ic_inodes c x))"
proof -
  obtain xs where s: "ishape c xs" using iwfD(2) [OF wf] by blast
  note S = ishapeD [OF s]
  have al: "a \<in> live c" "inum_of c a = inum" using a by (auto simp: live_def inum_of_def)
  from inode_hash_lookup_shape [OF s, of inum] obtain r where
    "inode_hash_lookup c inum = Some r"
    "case r of None \<Rightarrow> \<forall>a \<in> live c. inum_of c a \<noteq> inum | Some a \<Rightarrow> a \<in> live c \<and> inum_of c a = inum" by blast
  then have hit: "inode_hash_lookup c inum = Some (Some a)"
    using al S(4) by (cases r) (auto dest: inj_onD)
  let ?c1 = "c\<lparr>ic_inodes := (ic_inodes c)(a \<mapsto> im\<lparr>im_ref_count := im_ref_count im + 1\<rparr>)\<rparr>"
  have s1: "ishape ?c1 xs" using ishape_modify [OF s a(1), of "\<lambda>im. im\<lparr>im_ref_count := im_ref_count im + 1\<rparr>"] by simp
  note S1 = ishapeD [OF s1]
  have ax: "a \<in> set xs" using a(1) S(2) by auto
  from ic_lru.move_dll [OF S1(1) _ ax] S1(2) obtain c2 c3 where
    c3: "inode_lru_remove ?c1 a = Some c2" "inode_lru_push_front c2 a = Some c3"
      "dll (ilinks_of c3) (a # remove1 a xs)" "ilru_frame ?c1 c3" by auto
  have s3: "ishape c3 (a # remove1 a xs)"
    by (rule ishape_frame [OF s1 c3(4,3)]) (use ax S(5) in auto)
  note F = ilru_frame_fields [OF c3(4)]
  have cr: "map_option core (ic_inodes c3 x) = map_option core (ic_inodes ?c1 x)" for x
    by (rule ilru_frame_core [OF c3(4)])
  from cr [of a] obtain im' where im': "ic_inodes c3 a = Some im'"
    "core im' = core (im\<lparr>im_ref_count := im_ref_count im + 1\<rparr>)" by auto
  have "im_valid im'" using core_eqD(4) [OF im'(2)] a(2) by simp
  then have run: "inode_get c inum = Some (Some a, c3)"
    using hit a(1) c3(1,2) im'(1) by (simp add: inode_get_def im_modify_def)
  have st: "istatic c c3" using F by (simp add: istatic_def)
  have dev: "ic_dev c3 = ic_dev c" "ic_view c3 = ic_view c" using F by (simp_all add: ic_view_def)
  have "iwf c3"
    unfolding iwf_def
  proof (intro conjI allI impI)
    show "ic_ok c3" using iwfD(1) [OF wf] F by (simp add: ic_ok_def)
    show "\<exists>xs. ishape c3 xs" using s3 by blast
    fix x m assume x: "ic_inodes c3 x = Some m" "im_valid m"
    have "map_option core (ic_inodes ?c1 x) = Some (core m)" using cr [of x] x(1) by simp
    then obtain m' where m': "ic_inodes c x = Some m'" "im_inum m' = im_inum m" "im_disk m' = im_disk m"
      "im_valid m' = im_valid m" "im_dirty m' = im_dirty m"
    proof (cases "x = a")
      case True
      then have "core (im\<lparr>im_ref_count := im_ref_count im + 1\<rparr>) = core m"
        using \<open>map_option core (ic_inodes ?c1 x) = Some (core m)\<close> by simp
      from core_eqD [OF this] show ?thesis using that [of im] True a(1) by simp
    next
      case False
      then have "map_option core (ic_inodes c x) = Some (core m)"
        using \<open>map_option core (ic_inodes ?c1 x) = Some (core m)\<close> by simp
      then obtain m' where "ic_inodes c x = Some m'" "core m' = core m" by auto
      then show ?thesis using that [of m'] core_eqD [of m' m] by simp
    qed
    show "table_ok c3 (im_inum m)" using iwfD(3) [OF wf m'(1)] m' x(2) istatic_views(3) [OF st] by simp
    show "disk_inode_wf (im_disk m)" using iwfD(4) [OF wf m'(1)] m' x(2) by simp
    assume "\<not> im_dirty m"
    then show "im_disk m = disk_node c3 (im_inum m)"
      using iwfD(5) [OF wf m'(1)] m' x(2) disk_node_view [OF st dev(2)] by simp
  qed
  then show ?thesis using run st dev(1) im' cr by auto
qed

lemma inode_get_miss:
  assumes wf: "iwf c" and t: "table_ok c inum"
    and n: "\<And>a im. ic_inodes c a = Some im \<Longrightarrow> im_valid im \<Longrightarrow> im_inum im \<noteq> inum"
    and a: "find_unreferenced c = Some (Some a)" "ic_inodes c a = Some im"
  shows "\<exists>c' im'. inode_get c inum = Some (Some a, c') \<and> iwf c' \<and> istatic c c' \<and>
     ic_inodes c' a = Some im' \<and> im_inum im' = inum \<and> im_valid im' \<and> \<not> im_dirty im' \<and>
     im_disk im' = node_of c inum \<and> im_ref_count im' = 1 \<and>
     (\<forall>x. x \<noteq> a \<longrightarrow> map_option core (ic_inodes c' x) = map_option core (ic_inodes c x)) \<and>
     (\<forall>i. unat i < 2 ^ 25 \<longrightarrow> node_of c' i = node_of c i) \<and> (\<forall>b \<in> ic_pool c. ic_view c' b = ic_view c b)"
proof -
  obtain xs where s: "ishape c xs" using iwfD(2) [OF wf] by blast
  from inode_hash_lookup_shape [OF s, of inum] obtain r where
    "inode_hash_lookup c inum = Some r"
    "case r of None \<Rightarrow> \<forall>a \<in> live c. inum_of c a \<noteq> inum | Some a \<Rightarrow> a \<in> live c \<and> inum_of c a = inum" by blast
  moreover have "\<forall>a \<in> live c. inum_of c a \<noteq> inum" using n by (fastforce simp: live_def inum_of_def)
  ultimately have miss: "inode_hash_lookup c inum = Some None" by (cases r) auto
  from evict_sync [OF wf a(2)] obtain e c0 im0 where
    c0: "(if im_dirty im \<and> im_valid im then inode_sync c a else Some (0, c)) = Some (e, c0)" "iwf c0" "istatic c c0"
      "ic_inodes c0 = (ic_inodes c)(a \<mapsto> im0)" "ident im0 = ident im" "im_ref_count im0 = im_ref_count im"
      "im_valid im \<Longrightarrow> disk_node c0 (im_inum im) = im_disk im"
      "\<And>i. unat i < 2 ^ 25 \<Longrightarrow> node_of c0 i = node_of c i" "\<And>b. b \<in> ic_pool c \<Longrightarrow> ic_view c0 b = ic_view c b" by blast
  have i0: "im_inum im0 = im_inum im" "im_valid im0 = im_valid im" using c0(5) by (simp_all add: ident_def)
  obtain ys where s0: "ishape c0 ys" using iwfD(2) [OF c0(2)] by blast
  have a0: "ic_inodes c0 a = Some im0" using c0(4) by simp
  from recycle [OF s0 a0, of inum] obtain c1 c2 c3 c4 c5 im5 where
    R: "(if im_valid im0 then inode_hash_remove c0 a else Some c0) = Some c1" "inode_lru_remove c1 a = Some c2"
      "im_modify c2 a (rename inum) = Some c3" "inode_hash_insert c3 a = Some c4" "inode_lru_push_front c4 a = Some c5"
    and D: "dll (ilinks_of c5) (a # remove1 a ys)" "ihashed c5 (insert a (live c0 - {a}))" "ic_inodes c5 a = Some im5"
      "core im5 = core (rename inum im0)" "dom (ic_inodes c5) = dom (ic_inodes c0)" "istatic c0 c5" "ic_dev c5 = ic_dev c0"
    and C5: "\<And>x. x \<noteq> a \<Longrightarrow> map_option core (ic_inodes c5 x) = map_option core (ic_inodes c0 x)" by blast
  have st5: "istatic c c5" using istatic_trans c0(3) D(6) by blast
  have ok5: "ic_ok c5" using iwfD(1) [OF c0(2)] D(6,7) by (simp add: ic_ok_def istatic_def)
  have "table_ok c5 inum" using t istatic_views(3) [OF st5] by simp
  from inode_load_spec [OF ok5 D(3) this] obtain c' where
    L: "inode_load c5 a inum = Some (Some a, c')" "ic_ok c'" "istatic c5 c'" "ic_view c' = ic_view c5"
      "ic_inodes c' = (ic_inodes c5)(a \<mapsto> im5\<lparr>im_disk := disk_node c5 inum, im_valid := True\<rparr>)"
      "ic_hash_table c' = ic_hash_table c5" "ic_lru_head c' = ic_lru_head c5" "ic_lru_tail c' = ic_lru_tail c5" by blast
  let ?im' = "im5\<lparr>im_disk := disk_node c5 inum, im_valid := True\<rparr>"
  have run: "inode_get c inum = Some (Some a, c')"
    using miss a c0(1) i0(2) R L(1) by (simp add: inode_get_def rename_def [abs_def])
  have st: "istatic c c'" using istatic_trans st5 L(3) by blast
  have view: "ic_view c' = ic_view c0" using L(4) D(7) by (simp add: ic_view_def)
  have dn: "disk_node c' i = disk_node c0 i" "disk_node c5 i = disk_node c0 i" for i
    using disk_node_view [OF istatic_trans [OF D(6) L(3)] view] disk_node_view [OF D(6)] D(7)
    by (simp_all add: ic_view_def)
  have f5: "im_inum im5 = inum" "im_ref_count im5 = 1" "\<not> im_dirty im5"
    using core_eqD [OF D(4)] by (simp_all add: rename_def)
  have C: "map_option core (ic_inodes c' x) = map_option core (ic_inodes c0 x)" if "x \<noteq> a" for x
    using C5 [OF that] L(5) that by simp
  have lv: "live c' = insert a (live c0 - {a})"
  proof -
    have E: "x \<in> live c' \<longleftrightarrow> x \<in> live c0" if "x \<noteq> a" for x
      using C [OF that] by (cases "ic_inodes c' x"; cases "ic_inodes c0 x") (auto simp: live_def dest: core_eqD)
    have "a \<in> live c'" using L(5) by (simp add: live_def)
    then have "x \<in> live c' \<longleftrightarrow> x = a \<or> x \<in> live c0" for x using E [of x] by (cases "x = a") simp_all
    then show ?thesis by blast
  qed
  have io: "inum_of c' x = inum_of c0 x" if "x \<noteq> a" for x
    using C [OF that] by (cases "ic_inodes c' x"; cases "ic_inodes c0 x") (auto simp: inum_of_def dest: core_eqD)
  have ia: "inum_of c' a = inum" using L(5) f5 by (simp add: inum_of_def)
  have n0: "im_inum m \<noteq> inum" if "ic_inodes c0 x = Some m" "im_valid m" for x m
    using that c0(4) n a(2) i0 by (auto split: if_splits)
  have "inj_on (inum_of c') (live c')"
  proof (rule inj_onI)
    fix x y assume xy: "x \<in> live c'" "y \<in> live c'" "inum_of c' x = inum_of c' y"
    have out: "inum_of c0 z \<noteq> inum" if "z \<in> live c0" for z
    proof -
      obtain m where "ic_inodes c0 z = Some m" "im_valid m" using that \<open>z \<in> live c0\<close> by (auto simp: live_def)
      then show ?thesis using n0 by (simp add: inum_of_def)
    qed
    show "x = y"
    proof (cases "x = a \<or> y = a")
      case True
      then show ?thesis using xy io ia lv out by (metis Diff_iff insertE)
    next
      case False
      then have "x \<in> live c0" "y \<in> live c0" "inum_of c0 x = inum_of c0 y" using xy io lv by auto
      then show ?thesis using ishapeD(4) [OF s0] by (meson inj_onD)
    qed
  qed
  moreover have "ihashed c' (live c')" unfolding lv
    by (rule ihashed_update [OF D(2,3) _ _ L(5,6)]) (use istatic_def L(3) in auto)
  moreover have "ilinks_of c' = ilinks_of c5"
    by (rule ilinks_update [OF D(3) _ _ L(5,7,8)]) simp_all
  moreover have "set (a # remove1 a ys) = dom (ic_inodes c')"
  proof -
    have "dom (ic_inodes c') = dom (ic_inodes c0)" using L(5) D(3,5) by auto
    then show ?thesis using ishapeD(2,5) [OF s0] a0 by auto
  qed
  ultimately have s': "ishape c' (a # remove1 a ys)" using D(1) by (simp add: ishape_def)
  have known: "\<exists>m'. ic_inodes c0 x = Some m' \<and> core m' = core m" if "ic_inodes c' x = Some m" "x \<noteq> a" for x m
  proof -
    have "map_option core (ic_inodes c0 x) = Some (core m)" using C [OF that(2)] that(1) by simp
    then show ?thesis by auto
  qed
  have i25: "unat inum < 2 ^ 25" using t by (simp add: table_ok_def)
  have du: "node_of c inum = disk_node c0 inum"
    using c0(8) [OF i25] node_of_uncached [OF s0 n0] by simp
  have len: "INODE_SIZE \<le> length (slice (inode_table_offset inum) INODE_SIZE (ic_view c0 (inode_table_block c0 inum)))"
    using slot_fits [OF i25] ic_view_length [OF iwfD(1) [OF c0(2)]] by (simp add: length_slice)
  have wf': "iwf c'"
    unfolding iwf_def
  proof (intro conjI allI impI)
    show "ic_ok c'" by (rule L(2))
    show "\<exists>xs. ishape c' xs" using s' by blast
    fix x m assume x: "ic_inodes c' x = Some m" "im_valid m"
    show "table_ok c' (im_inum m)" "disk_inode_wf (im_disk m)" "\<not> im_dirty m \<Longrightarrow> im_disk m = disk_node c' (im_inum m)"
    proof (atomize (full), cases "x = a")
      case True
      then have "m = ?im'" using x L(5) by simp
      then show "table_ok c' (im_inum m) \<and> disk_inode_wf (im_disk m) \<and>
          (\<not> im_dirty m \<longrightarrow> im_disk m = disk_node c' (im_inum m))"
        using f5 t istatic_views(3) [OF st] dn disk_inode_wf_decode [OF len] by (simp add: disk_node_def [of c0])
    next
      case False
      from known [OF x(1) False] obtain m' where m': "ic_inodes c0 x = Some m'" "core m' = core m" by blast
      note E = core_eqD [OF m'(2)]
      show "table_ok c' (im_inum m) \<and> disk_inode_wf (im_disk m) \<and>
          (\<not> im_dirty m \<longrightarrow> im_disk m = disk_node c' (im_inum m))"
        using iwfD(3,4,5) [OF c0(2) m'(1)] E x(2) dn istatic_views(3) [OF istatic_trans [OF D(6) L(3)]] by simp
    qed
  qed
  have nodes: "node_of c' i = node_of c i" if i: "unat i < 2 ^ 25" for i
  proof -
    consider "i = inum" | "i \<noteq> inum" "im_valid im0" "i = im_inum im0" | "i \<noteq> inum" "\<not> (im_valid im0 \<and> i = im_inum im0)"
      by blast
    then have "node_of c' i = node_of c0 i"
    proof cases
      case 1
      then show ?thesis using node_of_cached [OF s', of a ?im'] L(5) f5 dn du c0(8) [OF i25] by simp
    next
      case 2
      have "im_inum m \<noteq> i" if m: "ic_inodes c' x = Some m" "im_valid m" for x m
      proof (cases "x = a")
        case True
        then show ?thesis using m L(5) f5 2 by auto
      next
        case False
        from known [OF m(1) False] obtain m' where m': "ic_inodes c0 x = Some m'" "core m' = core m" by blast
        then show ?thesis
          using live_inj [OF s0 m'(1) _ a0] core_eqD [OF m'(2)] m(2) 2 False by auto
      qed
      then have "node_of c' i = disk_node c' i" using node_of_uncached [OF s'] by blast
      moreover have "node_of c0 i = im_disk im0" using node_of_cached [OF s0 a0] 2 by simp
      moreover have "im_disk im0 = im_disk im" using c0(5) by (simp add: ident_def)
      ultimately show ?thesis using c0(7) 2 i0 dn by simp
    next
      case 3
      show ?thesis
      proof (rule node_of_cong [OF s0 s'])
        fix d
        have "(\<exists>m. ic_inodes c' x = Some m \<and> ident m = (i, True, d)) \<longleftrightarrow>
            (\<exists>m. ic_inodes c0 x = Some m \<and> ident m = (i, True, d))" for x
        proof (cases "x = a")
          case True
          then show ?thesis using L(5) f5 a0 3 by (auto simp: ident_def)
        next
          case False
          then show ?thesis using core_ident [OF C [OF False]]
            by (cases "ic_inodes c' x"; cases "ic_inodes c0 x") auto
        qed
        then show "cached c' i d = cached c0 i d" by (simp add: cached_def)
      qed (rule dn(1))
    qed
    then show ?thesis using c0(8) [OF i] by simp
  qed
  have "\<forall>b \<in> ic_pool c. ic_view c' b = ic_view c b" using view c0(9) by simp
  moreover have "\<forall>x. x \<noteq> a \<longrightarrow> map_option core (ic_inodes c' x) = map_option core (ic_inodes c x)"
    using C c0(4) by simp
  moreover have "ic_inodes c' a = Some ?im'" using L(5) by simp
  moreover have "im_disk ?im' = node_of c inum" using du dn(2) by simp
  ultimately show ?thesis using run wf' st nodes f5
    by (intro exI [of _ c'] exI [of _ ?im']) auto
qed


text \<open>\<open>got c a inum im\<close>: what the entry \<open>a\<close> becomes, and what it was before.\<close>

definition got :: "inode_cache \<Rightarrow> addr \<Rightarrow> inode_t \<Rightarrow> inode_mem \<Rightarrow> bool" where
  "got c a inum im \<longleftrightarrow> im_inum im = inum \<and> im_valid im \<and> im_disk im = node_of c inum \<and>
     (case ic_inodes c a of None \<Rightarrow> False
      | Some old \<Rightarrow>
          if im_valid old \<and> im_inum old = inum
          then im_ref_count im = im_ref_count old + 1 \<and> im_dirty im = im_dirty old
          else im_ref_count old \<le> 0 \<and> im_ref_count im = 1 \<and> \<not> im_dirty im)"

lemma inode_get_spec:
  assumes wf: "iwf c" and t: "table_ok c inum"
  shows "\<exists>r c'. inode_get c inum = Some (r, c') \<and> iwf c' \<and> istatic c c' \<and>
     (\<forall>i. unat i < 2 ^ 25 \<longrightarrow> node_of c' i = node_of c i) \<and> (\<forall>b \<in> ic_pool c. ic_view c' b = ic_view c b) \<and>
     (case r of
        None \<Rightarrow> c' = c \<and> (\<forall>a im. ic_inodes c a = Some im \<longrightarrow> 0 < im_ref_count im \<and> \<not> (im_valid im \<and> im_inum im = inum))
      | Some a \<Rightarrow> (\<exists>im. ic_inodes c' a = Some im \<and> got c a inum im) \<and>
          (\<forall>x. x \<noteq> a \<longrightarrow> map_option core (ic_inodes c' x) = map_option core (ic_inodes c x)))"
proof -
  obtain xs where s: "ishape c xs" using iwfD(2) [OF wf] by blast
  show ?thesis
  proof (cases "\<exists>a im. ic_inodes c a = Some im \<and> im_valid im \<and> im_inum im = inum")
    case True
    then obtain a im where a: "ic_inodes c a = Some im" "im_valid im" "im_inum im = inum" by blast
    from inode_get_hit [OF wf this] obtain c' im' where
      h: "inode_get c inum = Some (Some a, c')" "iwf c'" "istatic c c'" "ic_dev c' = ic_dev c" "ic_inodes c' a = Some im'"
        "core im' = core (im\<lparr>im_ref_count := im_ref_count im + 1\<rparr>)"
        "\<And>x. x \<noteq> a \<Longrightarrow> map_option core (ic_inodes c' x) = map_option core (ic_inodes c x)" by blast
    note E = core_eqD [OF h(6)]
    obtain ys where s': "ishape c' ys" using iwfD(2) [OF h(2)] by blast
    have v: "ic_view c' = ic_view c" using h(4) by (simp add: ic_view_def)
    have "map_option ident (ic_inodes c' x) = map_option ident (ic_inodes c x)" for x
      using core_ident [OF h(7), of x] h(5) a(1) E by (cases "x = a") (simp_all add: ident_def)
    then have n: "node_of c' i = node_of c i" for i
      by (intro node_of_cong [OF s s'] cached_cong disk_node_view [OF h(3) v])
    have "got c a inum im'" using a E node_of_cached [OF s a(1,2)] by (simp add: got_def)
    then show ?thesis using h(1-3,5,7) n v by auto
  next
    case False
    then have n: "im_inum im \<noteq> inum" if "ic_inodes c a = Some im" "im_valid im" for a im using that by blast
    from find_unreferenced_shape [OF s] obtain r where f: "find_unreferenced c = Some r"
      "case r of None \<Rightarrow> \<forall>a im. ic_inodes c a = Some im \<longrightarrow> 0 < im_ref_count im
        | Some a \<Rightarrow> \<exists>im. ic_inodes c a = Some im \<and> \<not> 0 < im_ref_count im" by blast
    show ?thesis
    proof (cases r)
      case None
      have "\<forall>a \<in> live c. inum_of c a \<noteq> inum" using n by (fastforce simp: live_def inum_of_def)
      then have "inode_hash_lookup c inum = Some None"
        using inode_hash_lookup_shape [OF s, of inum] by (auto split: option.splits)
      then have "inode_get c inum = Some (None, c)" using None f(1) by (simp add: inode_get_def)
      then show ?thesis using wf f(2) None False by auto
    next
      case (Some a)
      then obtain im where im: "ic_inodes c a = Some im" "\<not> 0 < im_ref_count im" using f(2) by auto
      have "find_unreferenced c = Some (Some a)" using f(1) Some by simp
      from inode_get_miss [OF wf t _ this im(1)] n obtain c' im' where
        m: "inode_get c inum = Some (Some a, c')" "iwf c'" "istatic c c'" "ic_inodes c' a = Some im'"
          "im_inum im' = inum" "im_valid im'" "\<not> im_dirty im'" "im_disk im' = node_of c inum" "im_ref_count im' = 1"
          "\<And>x. x \<noteq> a \<Longrightarrow> map_option core (ic_inodes c' x) = map_option core (ic_inodes c x)"
          "\<And>i. unat i < 2 ^ 25 \<Longrightarrow> node_of c' i = node_of c i" "\<And>b. b \<in> ic_pool c \<Longrightarrow> ic_view c' b = ic_view c b" by blast
      have "got c a inum im'" using m im n [OF im(1)] by (auto simp: got_def)
      then show ?thesis using m by auto
    qed
  qed
qed

section \<open>Putting an inode\<close>

lemma inode_put_spec:
  assumes wf: "iwf c" and a: "ic_inodes c a = Some im"
  shows "\<exists>c'. inode_put c a = Some c' \<and> iwf c' \<and> istatic c c' \<and> ic_view c' = ic_view c \<and>
     (\<forall>i. node_of c' i = node_of c i) \<and>
     ic_inodes c' = (ic_inodes c)(a \<mapsto> im\<lparr>im_ref_count := im_ref_count im - 1\<rparr>)"
proof -
  obtain xs where s: "ishape c xs" using iwfD(2) [OF wf] by blast
  let ?c = "c\<lparr>ic_inodes := (ic_inodes c)(a \<mapsto> im\<lparr>im_ref_count := im_ref_count im - 1\<rparr>)\<rparr>"
  have s': "ishape ?c xs"
    using ishape_modify [OF s a, of "\<lambda>im. im\<lparr>im_ref_count := im_ref_count im - 1\<rparr>"] by simp
  have st: "istatic c ?c" by (simp add: istatic_def)
  have v: "ic_view ?c = ic_view c" by (simp add: ic_view_def)
  have "iwf ?c"
    unfolding iwf_def
  proof (intro conjI allI impI)
    show "ic_ok ?c" using iwfD(1) [OF wf] by (simp add: ic_ok_def)
    show "\<exists>xs. ishape ?c xs" using s' by blast
    fix x m assume x: "ic_inodes ?c x = Some m" "im_valid m"
    then obtain m' where m': "ic_inodes c x = Some m'" "im_inum m' = im_inum m" "im_disk m' = im_disk m"
      "im_valid m' = im_valid m" "im_dirty m' = im_dirty m" using a by (cases "x = a") auto
    show "table_ok ?c (im_inum m)" using iwfD(3) [OF wf m'(1)] m' x(2) istatic_views(3) [OF st] by simp
    show "disk_inode_wf (im_disk m)" using iwfD(4) [OF wf m'(1)] m' x(2) by simp
    assume "\<not> im_dirty m"
    then show "im_disk m = disk_node ?c (im_inum m)"
      using iwfD(5) [OF wf m'(1)] m' x(2) disk_node_view [OF st v] by simp
  qed
  moreover have "node_of ?c i = node_of c i" for i
    by (rule node_of_cong [OF s s' cached_cong disk_node_view [OF st v]]) (use a in \<open>auto simp: ident_def\<close>)
  ultimately show ?thesis using a st v by (auto simp: inode_put_def im_modify_def)
qed

end
