(* ===== verification/Inode_Cache_Update.thy ===== *)
theory Inode_Cache_Update
  imports Inode_Cache_Ops
begin

text \<open>
  Steps that keep the invariant of the inode cache: an update of one cached inode, of the bitmap and of the
  superblock copy; the cache as a \<open>block_store\<close>.
\<close>

section \<open>One inode\<close>

lemma istatic_keep:
  assumes k: "ic_keep c c'" and "ic_balloc c' = ic_balloc c"
  shows "istatic c c'"
proof -
  have "dev_static (ic_dev c) (ic_dev c')" using k by (simp only: ic_keep_def)
  then show ?thesis using assms(2) ic_keep_fields [OF k] by (simp add: istatic_def)
qed

text \<open>An update of the directory's own inode that reaches only data blocks.\<close>

lemma iwf_update:
  assumes wf: "iwf c" and ok: "ic_ok c'" and k: "ic_keep c c'"
    and a: "ic_inodes c a = Some im" and i: "ic_inodes c' = (ic_inodes c)(a \<mapsto> im')"
    and same: "im_inum im' = im_inum im" "im_valid im' = im_valid im" "im_prev im' = im_prev im"
      "im_next im' = im_next im" "im_hash_next im' = im_hash_next im"
    and d: "disk_inode_wf (im_disk im) \<Longrightarrow> disk_inode_wf (im_disk im')"
      "\<not> im_dirty im' \<Longrightarrow> im_disk im' = im_disk im \<and> \<not> im_dirty im"
    and v: "\<And>i. table_ok c i \<Longrightarrow> ic_view c' (inode_table_block c i) = ic_view c (inode_table_block c i)"
  shows "iwf c'" "table_ok c j \<Longrightarrow> j \<noteq> im_inum im \<Longrightarrow> node_of c' j = node_of c j"
proof -
  note F = ic_keep_fields [OF k]
  have tb: "inode_table_block c' i = inode_table_block c i" "table_ok c' i = table_ok c i" for i
    using F by (simp_all add: inode_table_block_def table_ok_def)
  from wf obtain xs where xs: "ishape c xs" using iwfD(2) by blast
  have "ishape (c\<lparr>ic_inodes := (ic_inodes c)(a \<mapsto> (\<lambda>_. im') im)\<rparr>) xs"
    by (rule ishape_modify [OF xs a]) (use same in simp_all)
  then have xs': "ishape c' xs" by (rule ishape_cong) (simp_all add: i F)
  have node: "disk_node c' j = disk_node c j" if "table_ok c j" for j
    using v [OF that] tb(1) by (simp add: disk_node_def)
  show "iwf c'"
    unfolding iwf_def
  proof (intro conjI allI impI)
    show "ic_ok c'" "\<exists>xs. ishape c' xs" using ok xs' by auto
    fix b jm assume b: "ic_inodes c' b = Some jm" "im_valid jm"
    have "\<exists>km. ic_inodes c b = Some km \<and> im_valid km \<and> im_inum jm = im_inum km \<and>
        (disk_inode_wf (im_disk km) \<longrightarrow> disk_inode_wf (im_disk jm)) \<and>
        (\<not> im_dirty jm \<longrightarrow> im_disk jm = im_disk km \<and> \<not> im_dirty km)"
      using b a i same d by (cases "b = a") auto
    then obtain km where km: "ic_inodes c b = Some km" "im_valid km" "im_inum jm = im_inum km"
      "disk_inode_wf (im_disk km) \<longrightarrow> disk_inode_wf (im_disk jm)"
      "\<not> im_dirty jm \<longrightarrow> im_disk jm = im_disk km \<and> \<not> im_dirty km" by blast
    note K = iwfD(3-5) [OF wf km(1,2)]
    show "table_ok c' (im_inum jm)" using K(1) km(3) tb(2) by simp
    show "disk_inode_wf (im_disk jm)" using K(2) km(4) by simp
    show "im_disk jm = disk_node c' (im_inum jm)" if "\<not> im_dirty jm"
      using that km(3,5) K(1,3) node by simp
  qed
  assume j: "table_ok c j" "j \<noteq> im_inum im"
  have same_cached: "cached c' j n \<longleftrightarrow> cached c j n" for n
  proof
    assume "cached c' j n"
    then show "cached c j n" using i a j(2) same(1) by (auto simp: cached_def ident_def split: if_splits)
  next
    assume "cached c j n"
    then obtain b jm where b: "ic_inodes c b = Some jm" "ident jm = (j, True, n)" by (auto simp: cached_def)
    then have "b \<noteq> a" using a j(2) by (auto simp: ident_def)
    then show "cached c' j n" using i b by (auto simp: cached_def)
  qed
  show "node_of c' j = node_of c j"
    by (rule node_of_cong [OF xs xs' same_cached node [OF j(1)]])
qed

section \<open>The inode bitmap and the superblock copy\<close>

text \<open>Nothing above depends on them but the start of the inode table.\<close>

definition same_inodes :: "inode_cache \<Rightarrow> inode_cache \<Rightarrow> bool" where
  "same_inodes c c' \<longleftrightarrow> c' = c\<lparr>ic_inode_bitmap := ic_inode_bitmap c', ic_bitmap_blocks := ic_bitmap_blocks c', ic_sb := ic_sb c'\<rparr> \<and>
     sb_inode_table_start (ic_sb c') = sb_inode_table_start (ic_sb c)"

lemma same_inodes:
  assumes "same_inodes c c'"
  shows "iwf c' = iwf c" "node_of c' i = node_of c i" "disk_node c' i = disk_node c i" "table_ok c' i = table_ok c i"
    "inode_table_block c' i = inode_table_block c i" "ic_view c' = ic_view c" "ic_inodes c' = ic_inodes c"
    "ic_pool c' = ic_pool c" "ic_used c' = ic_used c" "ic_dev c' = ic_dev c" "ic_ok c' = ic_ok c"
proof -
  define bm n sb where "bm = ic_inode_bitmap c'" and "n = ic_bitmap_blocks c'" and "sb = ic_sb c'"
  have c': "c' = c\<lparr>ic_inode_bitmap := bm, ic_bitmap_blocks := n, ic_sb := sb\<rparr>" and t: "sb_inode_table_start sb = sb_inode_table_start (ic_sb c)"
    using assms unfolding same_inodes_def bm_def n_def sb_def by blast+
  show v: "inode_table_block c' i = inode_table_block c i" "ic_view c' = ic_view c" "ic_inodes c' = ic_inodes c"
    "ic_pool c' = ic_pool c" "ic_used c' = ic_used c" "ic_dev c' = ic_dev c" for i
    using t by (simp_all add: c' inode_table_block_def ic_view_def ic_pool_def ic_used_def)
  show tb: "disk_node c' i = disk_node c i" "table_ok c' i = table_ok c i" for i
    using v by (simp_all add: disk_node_def table_ok_def)
  show ok: "ic_ok c' = ic_ok c" by (simp add: c' ic_ok_def)
  have "inode_hash_lookup c' i = inode_hash_lookup c i" for i
    by (simp add: c' inode_hash_lookup_def ic_load_bucket_def ic_hash_next_of_def [abs_def])
  then show "node_of c' i = node_of c i" unfolding node_of_def v(3) tb(1) by simp
  have "ishape c' xs \<longleftrightarrow> ishape c xs" for xs
    using ishape_cong [of c xs c'] ishape_cong [of c' xs c] by (auto simp: c')
  then show "iwf c' = iwf c" using v tb ok by (simp add: iwf_def)
qed

section \<open>The cache as a block store\<close>

definition ic_same :: "inode_cache \<Rightarrow> inode_cache \<Rightarrow> bool" where
  "ic_same c c' \<longleftrightarrow> ic_keep c c' \<and> ic_inodes c' = ic_inodes c \<and> ic_balloc c' = ic_balloc c"

abbreviation ic_bound :: "inode_cache \<Rightarrow> u64" where
  "ic_bound c \<equiv> bd_total_blocks (ic_dev c)"

interpretation ic_store: block_store ic_ok ic_view ic_bound "\<lambda>_ _. False" ic_same ic_read ic_write
proof
  fix d b assume "ic_ok d"
  then show "length (ic_view d b) = BLOCK_SIZE" by (rule ic_view_length)
next
  fix d and b :: block_t assume "ic_ok d" "ucast b < ic_bound d"
  from ic_read_spec [OF this] show "\<exists>r d'. ic_read d b = Some (r, d') \<and> ic_ok d' \<and> ic_same d d' \<and> ic_view d' = ic_view d \<and>
        (r = Inr (ic_view d b) \<or> (False \<and> (\<exists>e < 0. r = Inl e)))" by (auto simp: ic_same_def)
next
  fix d and b :: block_t and data :: "byte list"
  assume "ic_ok d" "ucast b < ic_bound d" "length data = BLOCK_SIZE"
  from ic_write_spec [OF this] show "\<exists>r d'. ic_write d b data = Some (r, d') \<and> ic_ok d' \<and> ic_same d d' \<and>
        (if r = 0 then ic_view d' = (ic_view d)(b := data) else r < 0 \<and> False \<and> ic_view d' = ic_view d)"
    by (auto simp: ic_same_def)
qed (auto simp: ic_same_def ic_keep_fields intro: ic_keep_trans)

section \<open>The inode bitmap on the device\<close>

text \<open>
  Bitmap and inode table lie apart from each other and from the data region, and the table holds every
  inode the bitmap counts.
\<close>

definition bitmap_block :: "inode_cache \<Rightarrow> nat \<Rightarrow> block_t" where
  "bitmap_block c j = sb_inode_bitmap_start (ic_sb c) + of_nat j"

abbreviation bitmap_len :: "inode_cache \<Rightarrow> nat" where
  "bitmap_len c \<equiv> unat (ic_bitmap_blocks c)"

definition ilayout :: "inode_cache \<Rightarrow> bool" where
  "ilayout c \<longleftrightarrow> length (ic_inode_bitmap c) = bitmap_len c * 4096 \<and>
     run_ok (ic_bound c) (sb_inode_bitmap_start (ic_sb c)) (bitmap_len c) \<and>
     unat (sb_total_inodes (ic_sb c)) \<le> 8 * length (ic_inode_bitmap c) \<and>
     (\<forall>j < bitmap_len c. bitmap_block c j \<notin> ic_pool c \<and> (\<forall>i. table_ok c i \<longrightarrow> inode_table_block c i \<noteq> bitmap_block c j)) \<and>
     (\<forall>i. unat i < unat (sb_total_inodes (ic_sb c)) \<longrightarrow> table_ok c i)"

text \<open>What the bitmap on the device says.\<close>

definition bitmap_stored :: "inode_cache \<Rightarrow> bool" where
  "bitmap_stored c \<longleftrightarrow> (\<forall>j < bitmap_len c. ic_view c (bitmap_block c j) = slice (j * 4096) 4096 (ic_inode_bitmap c))"

lemma sync_inode_bitmap_spec:
  assumes wf: "iwf c" and l: "ilayout c"
  shows "\<exists>c'. sync_inode_bitmap c = Some (0, c') \<and> iwf c' \<and> ic_same c c' \<and> bitmap_stored c' \<and>
     (\<forall>i. table_ok c i \<longrightarrow> node_of c' i = node_of c i \<and> disk_node c' i = disk_node c i) \<and>
     (\<forall>b \<in> ic_pool c. ic_view c' b = ic_view c b)"
proof -
  from l have L: "length (ic_inode_bitmap c) = bitmap_len c * 4096"
    "run_ok (ic_bound c) (sb_inode_bitmap_start (ic_sb c)) (bitmap_len c)"
    "\<And>j. j < bitmap_len c \<Longrightarrow> bitmap_block c j \<notin> ic_pool c"
    "\<And>j i. j < bitmap_len c \<Longrightarrow> table_ok c i \<Longrightarrow> inode_table_block c i \<noteq> bitmap_block c j"
    by (auto simp: ilayout_def)
  from ic_store.store_run [OF iwfD(1) [OF wf] L(2,1), of 0] obtain r c' where
    s: "store_blocks ic_write c (sb_inode_bitmap_start (ic_sb c)) (ic_inode_bitmap c) (upto32 (ic_bitmap_blocks c)) = Some (r, c')"
      "ic_ok c'" "ic_same c c'"
      "\<forall>b. (\<forall>j < bitmap_len c. 0 \<le> j \<longrightarrow> b \<noteq> bitmap_block c j) \<longrightarrow> ic_view c' b = ic_view c b"
      "if r = 0 then \<forall>j < bitmap_len c. 0 \<le> j \<longrightarrow> ic_view c' (bitmap_block c j) = slice (j * 4096) 4096 (ic_inode_bitmap c)
       else r < 0 \<and> (\<exists>j < bitmap_len c. False)"
    unfolding upto32_def bitmap_block_def by blast
  have r0: "r = 0"
  proof (rule ccontr)
    assume "r \<noteq> 0"
    with s(5) show False by (simp only: if_False simp_thms)
  qed
  have v: "ic_view c' b = ic_view c b" if "\<And>j. j < bitmap_len c \<Longrightarrow> b \<noteq> bitmap_block c j" for b using s(4) that by blast
  have sl: "\<forall>j < bitmap_len c. ic_view c' (bitmap_block c j) = slice (j * 4096) 4096 (ic_inode_bitmap c)"
    using s(5) unfolding r0 if_P [OF refl] by blast
  have k: "ic_keep c c'" "ic_inodes c' = ic_inodes c" using s(3) by (simp_all add: ic_same_def)
  note F = ic_keep_fields [OF k(1)]
  have vt: "ic_view c' (inode_table_block c i) = ic_view c (inode_table_block c i)" if "table_ok c i" for i
    by (rule v [OF L(4) [OF _ that]])
  have pl: "ic_view c' b = ic_view c b" if "b \<in> ic_pool c" for b by (rule v) (use L(3) that in auto)
  have st: "istatic c c'" using istatic_keep [OF k(1)] s(3) by (simp add: ic_same_def)
  from wf obtain xs where xs: "ishape c xs" using iwfD(2) by blast
  have xs': "ishape c' xs" by (rule ishape_cong [OF xs]) (simp_all add: k(2) F)
  have dn: "disk_node c' i = disk_node c i" if "table_ok c i" for i
    using vt [OF that] istatic_views(1) [OF st] by (simp add: disk_node_def)
  have "iwf c'"
    unfolding iwf_def
  proof (intro conjI allI impI)
    fix a im assume a: "ic_inodes c' a = Some im" "im_valid im"
    then have a': "ic_inodes c a = Some im" using k(2) by simp
    show "table_ok c' (im_inum im)" using iwfD(3) [OF wf a' a(2)] istatic_views(3) [OF st] by simp
    show "disk_inode_wf (im_disk im)" by (rule iwfD(4) [OF wf a' a(2)])
    show "im_disk im = disk_node c' (im_inum im)" if "\<not> im_dirty im"
      using iwfD(5) [OF wf a' a(2) that] dn [OF iwfD(3) [OF wf a' a(2)]] by simp
  qed (use s(2) xs' in auto)
  moreover have "node_of c' i = node_of c i" if "table_ok c i" for i
    by (rule node_of_cong [OF xs xs']) (use k(2) dn [OF that] in \<open>simp_all add: cached_def\<close>)
  moreover have "bitmap_stored c'" "sync_inode_bitmap c = Some (0, c')"
    using s(1) r0 sl F by (simp_all add: bitmap_stored_def bitmap_block_def sync_inode_bitmap_def)
  ultimately show ?thesis using s(3) dn pl by blast
qed

end
