(* ===== verification/Dir_Spec.thy ===== *)
theory Dir_Spec
  imports Dir_Layout Inode_Truncate Inode_Cache_Update
begin

text \<open>
  The operations of \<open>src/directory.c\<close> on a directory of one block: what they return and what they make
  of its records.
\<close>

section \<open>Writing inside a mapped block\<close>

lemma nodes_stamp [simp]: "nodes (di\<lparr>di_size := s, di_mtime := m\<rparr>) v = nodes di v"
proof
  show "nodes (di\<lparr>di_size := s, di_mtime := m\<rparr>) v n = nodes di v n" for n
    by (cases n) (simp_all add: file_block_def l1_ptr_def)
qed

lemma inode_write_mapped:
  assumes ok: "ic_ok c" and t: "tree_at c a" and im: "ic_inodes c a = Some im"
    and b: "di_direct (im_disk im) ! 0 = b" "b \<noteq> 0" and fit: "unat off + unat sz \<le> 4096" and sz: "0 < sz" "length buf = unat sz"
  shows "\<exists>c'. inode_write jwrite now c a buf off sz None = Some (Inr sz, c', None) \<and> ic_ok c' \<and> ic_keep c c' \<and>
     tree_at c' a \<and> ic_balloc c' = ic_balloc c \<and> ic_view c' = (ic_view c)(b := splice (unat off) buf (ic_view c b)) \<and>
     ic_inodes c' = (ic_inodes c)(a \<mapsto> im\<lparr>im_disk := (im_disk im)\<lparr>di_size :=
       (if di_size (im_disk im) < off + sz then off + sz else di_size (im_disk im)), di_mtime := now\<rparr>, im_dirty := True\<rparr>)"
proof -
  have szn: "0 < unat sz" using sz(1) by (simp add: word_gt_0 unat_gt_0)
  have off: "unat off < 4096" using fit szn by linarith
  have d0: "off div 4096 = 0" using off by (simp add: word_unat_eq_iff unat_div)
  have m0: "unat (off mod 4096) = unat off" using off by (simp add: unat_mod)
  have bm: "inode_bmap c a off True = Some (Inr b, c)"
    using im b d0 by (simp add: inode_bmap_def bmap_direct_def)
  have nb: "nodes_at c a (NB 0) = b" using im b by (simp add: nodes_at_def file_block_def)
  have ch: "unat (chunk off sz) = unat sz" using fit off by (simp add: unat_chunk)
  have pool: "b \<in> ic_pool c" using tree_at_used [OF t, of "NB 0"] nb b(2) used_pool [of c] by auto
  have part: "\<exists>c1. (if unat off \<noteq> 0 \<or> chunk off sz \<noteq> 4096 then ic_read c b else Some (Inr (replicate 4096 0), c)) =
      Some (Inr (if unat off \<noteq> 0 \<or> chunk off sz \<noteq> 4096 then ic_view c b else replicate 4096 0), c1) \<and> quiet c c1"
    using ic_read_spec [OF ok pool_bound [OF ok pool]] quiet_refl [OF ok] by (auto simp: quiet_def)
  define bbuf where "bbuf = (if unat off \<noteq> 0 \<or> chunk off sz \<noteq> 4096 then ic_view c b else replicate 4096 0)"
  from part obtain c1 where c1: "(if unat off \<noteq> 0 \<or> chunk off sz \<noteq> 4096 then ic_read c b else Some (Inr (replicate 4096 0), c)) =
      Some (Inr bbuf, c1)" "quiet c c1" unfolding bbuf_def by blast
  have lv: "length (ic_view c b) = 4096" by (rule ic_view_length [OF ok])
  have lb: "length bbuf = 4096" by (simp add: bbuf_def lv)
  have data: "splice (unat off) buf bbuf = splice (unat off) buf (ic_view c b)"
  proof (cases "unat off \<noteq> 0 \<or> chunk off sz \<noteq> 4096")
    case False
    then have "unat off = 0" "length buf = 4096" using ch sz(2) by simp_all
    then show ?thesis using lb lv by (simp add: splice_whole)
  qed (simp add: bbuf_def)
  let ?data = "splice (unat off) buf (ic_view c b)"
  have ld: "length ?data = BLOCK_SIZE" using lv fit sz(2) by (simp add: length_splice)
  note q = quietD [OF c1(2)] and g = grows_quiet [OF c1(2) t]
  have nb1: "nodes_at c1 a (NB 0) = b" using g(3) nb by simp
  from data_write [OF q(1) g(2) nb1 b(2) ld] obtain c2 where
    c2: "ic_write c1 b ?data = Some (0, c2)" "extended c1 a c2" by blast
  have "b \<in> ic_pool c1" using pool q(5) by simp
  from ic_write_spec [OF q(1) pool_bound [OF q(1) this] ld] c2(1) have
    w: "ic_ok c2" "ic_keep c1 c2" "ic_inodes c2 = ic_inodes c1" "ic_view c2 = (ic_view c1)(b := ?data)"
      "ic_balloc c2 = ic_balloc c1" by auto
  have noom: "\<not> ic_oom c" using ok by (simp add: ic_ok_def)
  have br: "buf_read buf 0 (unat sz) = Some buf" using sz(2) by (simp add: buf_read_def slice_def)
  have bw: "buf_write bbuf (unat off) buf = Some ?data" using lb fit sz(2) data by (simp add: buf_write_def)
  have adv: "ucast (chunk off sz) = sz" using ch by (simp add: word_unat_eq_iff)
  have loop: "write_loop jwrite c None a buf off sz 0 = Some (Inr sz, c2, None)"
    using sz(1) bm noom c1(1) ch m0 br bw c2(1) adv
    by (subst write_loop.simps) (simp add: Let_def write_loop.simps [of _ _ _ _ _ _ sz sz])
  have im2: "ic_inodes c2 a = Some im" using w(3) q(2) im by simp
  let ?f = "\<lambda>im. im\<lparr>im_disk := (im_disk im)\<lparr>di_size :=
       (if di_size (im_disk im) < off + sz then off + sz else di_size (im_disk im)), di_mtime := now\<rparr>, im_dirty := True\<rparr>"
  from inode_fields_update [of c2 a ?f] extendedD(1,3) [OF c2(2)] obtain c3 where
    c3: "im_modify c2 a ?f = Some c3" "file_step c2 a c3" "ic_view c3 = ic_view c2"
    by auto
  have r3: "ic_inodes c3 = (ic_inodes c2)(a \<mapsto> ?f im)" "ic_balloc c3 = ic_balloc c2"
    using c3(1) im2 by (auto simp: im_modify_def)
  have "inode_write jwrite now c a buf off sz None = Some (Inr sz, c3, None)"
    using loop c3(1) by (simp add: inode_write_def)
  moreover have "ic_ok c3" "tree_at c3 a" using c3(2) by (simp_all add: file_step_def)
  moreover have "ic_keep c c3" using c1(2) w(2) c3(2) by (auto simp: quiet_def file_step_def intro: ic_keep_trans)
  moreover have "ic_balloc c3 = ic_balloc c" using r3(2) w(5) c1(2) by (simp add: quiet_def)
  moreover have "ic_view c3 = (ic_view c)(b := ?data)" using c3(3) w(4) q(3) by simp
  moreover have "ic_inodes c3 = (ic_inodes c)(a \<mapsto> ?f im)" using r3(1) w(3) q(2) by simp
  ultimately show ?thesis by blast
qed

section \<open>Steps of a directory operation\<close>

text \<open>
  An open directory of one block, and what an operation on it leaves alone: every other data block and
  every other inode.
\<close>

definition dir_ok :: "inode_cache \<Rightarrow> addr \<Rightarrow> bool" where
  "dir_ok c a \<longleftrightarrow> iwf c \<and> tree_at c a \<and> nodes_at c a (NB 0) \<noteq> 0 \<and> fsize c a \<le> 4096 \<and>
     (\<exists>im. ic_inodes c a = Some im \<and> im_valid im \<and> 0 < im_ref_count im \<and> di_type (im_disk im) = INODE_TYPE_DIR)"

text \<open>
  The references held on the entries of the cache: the number and validity of the inode and the count.
\<close>

definition held :: "inode_cache \<Rightarrow> addr \<Rightarrow> (inode_t \<times> bool \<times> int) option" where
  "held c x = (case ic_inodes c x of
     Some im \<Rightarrow> if 0 < im_ref_count im then Some (im_inum im, im_valid im, im_ref_count im) else None
   | None \<Rightarrow> None)"

definition refs_ok :: "inode_cache \<Rightarrow> bool" where
  "refs_ok c \<longleftrightarrow> (\<forall>x im. ic_inodes c x = Some im \<longrightarrow> 0 \<le> im_ref_count im)"

definition same_refs :: "inode_cache \<Rightarrow> inode_cache \<Rightarrow> bool" where
  "same_refs c c' \<longleftrightarrow> held c' = held c \<and> dom (ic_inodes c') = dom (ic_inodes c) \<and> (refs_ok c \<longrightarrow> refs_ok c')"

lemma same_refs_refl [simp]: "same_refs c c"
  by (simp add: same_refs_def)

lemma same_refs_trans: "same_refs c d \<Longrightarrow> same_refs d e \<Longrightarrow> same_refs c e"
  by (simp add: same_refs_def)

lemma same_refs_update:
  assumes "ic_inodes c a = Some im" "ic_inodes c' = (ic_inodes c)(a \<mapsto> im')"
    and "im_inum im' = im_inum im" "im_valid im' = im_valid im" "im_ref_count im' = im_ref_count im"
  shows "same_refs c c'"
  using assms by (auto simp: same_refs_def held_def refs_ok_def fun_eq_iff split: if_splits)

definition same_node :: "disk_inode \<Rightarrow> disk_inode \<Rightarrow> bool" where
  "same_node d d' \<longleftrightarrow> d' = d\<lparr>di_atime := di_atime d'\<rparr>"

lemma same_node_refl [simp]: "same_node d d"
  by (simp add: same_node_def)

lemma same_node_trans: "same_node d e \<Longrightarrow> same_node e f \<Longrightarrow> same_node d f"
  unfolding same_node_def by (cases d; cases e; cases f) simp

definition dir_step :: "inode_cache \<Rightarrow> addr \<Rightarrow> inode_cache \<Rightarrow> bool" where
  "dir_step c a c' \<longleftrightarrow> dir_ok c' a \<and> istatic c c' \<and> nodes_at c' a = nodes_at c a \<and> inum_of c' a = inum_of c a \<and>
     (\<forall>b \<in> ic_pool c. b \<noteq> nodes_at c a (NB 0) \<longrightarrow> ic_view c' b = ic_view c b) \<and>
     (\<forall>i. table_ok c i \<longrightarrow> i \<noteq> inum_of c a \<longrightarrow> node_of c' i = node_of c i) \<and> same_refs c c'"

definition block_at :: "inode_cache \<Rightarrow> addr \<Rightarrow> byte list" where
  "block_at c a = ic_view c (nodes_at c a (NB 0))"

definition dir_quiet :: "inode_cache \<Rightarrow> addr \<Rightarrow> inode_cache \<Rightarrow> bool" where
  "dir_quiet c a c' \<longleftrightarrow> dir_step c a c' \<and> block_at c' a = block_at c a \<and> fsize c' a = fsize c a \<and>
     same_node (node_of c (inum_of c a)) (node_of c' (inum_of c a))"

lemma dir_step_trans:
  assumes "dir_step c a d" "dir_step d a e"
  shows "dir_step c a e"
  using assms istatic_views(2,3) [of c d] unfolding dir_step_def
  by (auto intro: istatic_trans same_refs_trans)

lemma dir_quiet_trans:
  assumes "dir_quiet c a d" "dir_quiet d a e"
  shows "dir_quiet c a e"
proof -
  have "inum_of d a = inum_of c a" using assms(1) by (simp add: dir_quiet_def dir_step_def)
  then show ?thesis using assms dir_step_trans [of c a d e] same_node_trans
    by (auto simp: dir_quiet_def)
qed

lemma dir_quiet_refl: "dir_ok c a \<Longrightarrow> dir_quiet c a c"
  by (simp add: dir_quiet_def dir_step_def)

lemma dir_okE:
  assumes "dir_ok c a"
  obtains im where "iwf c" "ic_ok c" "tree_at c a" "fsize c a \<le> 4096" "nodes_at c a (NB 0) \<noteq> 0"
    "ic_inodes c a = Some im" "im_valid im" "0 < im_ref_count im" "di_type (im_disk im) = INODE_TYPE_DIR"
    "inum_of c a = im_inum im" "fsize c a = unat (di_size (im_disk im))"
  using assms by (auto simp: dir_ok_def inum_of_def fsize_def iwfD(1))

lemma reads_same:
  assumes wf: "iwf c" and im: "ic_inodes c a = Some im" "im_valid im" and ta: "tree_at c a" and r: "reads c a c'"
  shows "iwf c'" "istatic c c'" "same_refs c c'" "same_node (node_of c (im_inum im)) (node_of c' (im_inum im))"
    "table_ok c j \<Longrightarrow> j \<noteq> im_inum im \<Longrightarrow> node_of c' j = node_of c j"
    "\<exists>t d. ic_inodes c' = (ic_inodes c)(a \<mapsto> im\<lparr>im_disk := (im_disk im)\<lparr>di_atime := t\<rparr>, im_dirty := d\<rparr>)"
proof -
  note R = readsD [OF r ta]
  from r obtain t dd where i: "ic_inodes c' =
      (ic_inodes c)(a \<mapsto> im\<lparr>im_disk := (im_disk im)\<lparr>di_atime := t\<rparr>, im_dirty := dd\<rparr>)"
    "dd \<or> t = di_atime (im_disk im) \<and> dd = im_dirty im" and al: "ic_balloc c' = ic_balloc c"
    using im(1) unfolding reads_def by auto
  show w: "iwf c'"
    by (rule iwf_update(1) [OF wf R(1,11) im(1) i(1)]) (use i(2) R(2) in \<open>auto simp: disk_inode_wf_def\<close>)
  show "node_of c' j = node_of c j" if "table_ok c j" "j \<noteq> im_inum im"
    by (rule iwf_update(2) [OF wf R(1,11) im(1) i(1)]) (use i(2) R(2) that in \<open>auto simp: disk_inode_wf_def\<close>)
  show "same_refs c c'" by (rule same_refs_update [OF im(1) i(1)]) simp_all
  show "istatic c c'" by (rule istatic_keep [OF R(11) al])
  obtain xs ys where "ishape c xs" "ishape c' ys" using iwfD(2) [OF wf] iwfD(2) [OF w] by blast
  then have "node_of c (im_inum im) = im_disk im" "node_of c' (im_inum im) = (im_disk im)\<lparr>di_atime := t\<rparr>"
    using node_of_cached [of c xs a im] node_of_cached [of c' ys a "im\<lparr>im_disk := (im_disk im)\<lparr>di_atime := t\<rparr>, im_dirty := dd\<rparr>"] im i(1)
    by simp_all
  then show "same_node (node_of c (im_inum im)) (node_of c' (im_inum im))" by (simp add: same_node_def)
  show "\<exists>t d. ic_inodes c' = (ic_inodes c)(a \<mapsto> im\<lparr>im_disk := (im_disk im)\<lparr>di_atime := t\<rparr>, im_dirty := d\<rparr>)"
    using i(1) by blast
qed

lemma reads_quiet:
  assumes d: "dir_ok c a" and r: "reads c a c'"
  shows "dir_quiet c a c'"
proof -
  from d obtain im where im: "iwf c" "ic_ok c" "tree_at c a" "fsize c a \<le> 4096" "nodes_at c a (NB 0) \<noteq> 0"
    "ic_inodes c a = Some im" "im_valid im" "0 < im_ref_count im" "di_type (im_disk im) = INODE_TYPE_DIR"
    "inum_of c a = im_inum im" by (rule dir_okE)
  note S = reads_same [OF im(1,6,7,3) r]
  from S(6) obtain t dd where i: "ic_inodes c' =
      (ic_inodes c)(a \<mapsto> im\<lparr>im_disk := (im_disk im)\<lparr>di_atime := t\<rparr>, im_dirty := dd\<rparr>)" by blast
  show ?thesis
    using im readsD [OF r im(3)] i S(1-5)
    by (simp add: dir_quiet_def dir_step_def dir_ok_def inum_of_def block_at_def)
qed

text \<open>The directory's bytes are those of its block.\<close>

lemma fbyte_block:
  assumes "nodes_at c a (NB 0) \<noteq> 0" "k < 4096"
  shows "fbyte c a k = ic_view c (nodes_at c a (NB 0)) ! k"
  using assms by (simp add: fbyte_def)

lemma file_bytes_block:
  assumes "nodes_at c a (NB 0) \<noteq> 0" "fsize c a \<le> 4096" "ic_ok c"
  shows "file_bytes c a = take (fsize c a) (block_at c a)"
  unfolding block_at_def
proof (rule nth_equalityI)
  show "length (file_bytes c a) = length (take (fsize c a) (ic_view c (nodes_at c a (NB 0))))"
    using assms ic_view_length [OF assms(3)] by (simp add: file_bytes_def)
  fix i assume "i < length (file_bytes c a)"
  then have "i < fsize c a" by (simp add: file_bytes_def)
  then show "file_bytes c a ! i = take (fsize c a) (ic_view c (nodes_at c a (NB 0))) ! i"
    using assms fbyte_block [OF assms(1)] by (simp add: file_bytes_def)
qed

lemma dir_write_spec:
  assumes d: "dir_ok c a" and off: "off + sizeof_dirent \<le> BLOCK_SIZE"
    and len: "length bytes = sizeof_dirent" and o: "offset = (of_nat off :: u64)"
  shows "\<exists>c'. dir_write now c a bytes offset = Some (0, c') \<and> dir_step c a c' \<and>
     block_at c' a = splice off bytes (block_at c a) \<and> fsize c' a = max (fsize c a) (off + sizeof_dirent)"
proof -
  from d obtain im where im: "iwf c" "ic_ok c" "tree_at c a" "fsize c a \<le> 4096" "nodes_at c a (NB 0) \<noteq> 0"
    "ic_inodes c a = Some im" "im_valid im" "0 < im_ref_count im" "di_type (im_disk im) = INODE_TYPE_DIR"
    "inum_of c a = im_inum im" "fsize c a = unat (di_size (im_disk im))" by (rule dir_okE)
  define b where "b = nodes_at c a (NB 0)"
  have d0: "di_direct (im_disk im) ! 0 = b" "b \<noteq> 0"
    using im(5,6) by (simp_all add: b_def nodes_at_def file_block_def)
  have uo: "unat offset = off" using off by (simp add: o unat_of_nat take_bit_nat_eq_self_iff)
  let ?f = "\<lambda>d. d\<lparr>di_size := (if di_size d < offset + of_nat 263 then offset + of_nat 263 else di_size d), di_mtime := now\<rparr>"
  let ?im = "im\<lparr>im_disk := ?f (im_disk im), im_dirty := True\<rparr>"
  from inode_write_mapped [OF im(2,3,6) d0, of offset "of_nat 263" bytes "\<lambda>_ _ _. (0, ())" now] uo off len
  obtain c' where
    c': "inode_write (\<lambda>_ _ _. (0, ())) now c a bytes offset (of_nat 263) None = Some (Inr (of_nat 263), c', None)"
      "ic_ok c'" "ic_keep c c'" "tree_at c' a" "ic_balloc c' = ic_balloc c"
      "ic_view c' = (ic_view c)(b := splice off bytes (ic_view c b))" "ic_inodes c' = (ic_inodes c)(a \<mapsto> ?im)"
    by auto
  have w: "dir_write now c a bytes offset = Some (0, c')" using c'(1) by (simp add: dir_write_def)
  have su: "unat (offset + of_nat 263) = off + 263" using uo off by (simp add: unat_word_ariths)
  have fs: "fsize c' a = max (fsize c a) (off + 263)"
    using c'(7) su im(11) by (simp add: fsize_def word_less_nat_alt max_def)
  have n: "nodes_at c' a = nodes_at c a"
  proof -
    have "b \<notin> pointer_blocks (im_disk im) (ic_view c)"
      using data_not_ptr [OF im(3), of 0] d0(2) im(6) by (simp add: b_def ptrs_at_def)
    then have "nodes (im_disk im) (ic_view c') = nodes (im_disk im) (ic_view c)"
      using c'(6) by (intro nodes_cong) auto
    then show ?thesis using im(6) c'(7) by (simp add: nodes_at_def)
  qed
  have bpool: "b \<in> ic_pool c" using tree_at_used [OF im(3), of "NB 0"] d0(2) used_pool [of c] by (auto simp: b_def)
  have vt: "ic_view c' (inode_table_block c i) = ic_view c (inode_table_block c i)" if "table_ok c i" for i
    using c'(6) bpool that by (auto simp: table_ok_def)
  note U = iwf_update [OF im(1) c'(2,3) im(6) c'(7)]
  have wf: "iwf c'" by (rule U(1)) (use vt in \<open>auto simp: disk_inode_wf_def\<close>)
  moreover have "node_of c' j = node_of c j" if "table_ok c j" "j \<noteq> im_inum im" for j
    by (rule U(2)) (use vt that in \<open>auto simp: disk_inode_wf_def\<close>)
  moreover have "same_refs c c'" by (rule same_refs_update [OF im(6) c'(7)]) simp_all
  ultimately have st: "dir_step c a c'"
    using im c' n fs off istatic_keep [OF c'(3,5)]
    by (simp add: dir_step_def dir_ok_def inum_of_def b_def)
  have "block_at c' a = splice off bytes (block_at c a)" using n c'(6) by (simp add: block_at_def b_def)
  then show ?thesis using w st fs by blast
qed

section \<open>Getting another inode\<close>

lemma same_disk_quiet:
  assumes d: "dir_ok c a" and wf: "iwf c'" and st: "istatic c c'" and v: "\<And>b. b \<in> ic_pool c \<Longrightarrow> ic_view c' b = ic_view c b"
    and i: "ic_inodes c a = Some im" "ic_inodes c' a = Some im'" "im_disk im' = im_disk im" "im_valid im'" "0 < im_ref_count im'"
      "im_inum im' = im_inum im"
    and n: "\<And>j. table_ok c j \<Longrightarrow> node_of c' j = node_of c j" and r: "same_refs c c'"
  shows "dir_quiet c a c'"
proof -
  from d i(1) have im: "iwf c" "ic_ok c" "tree_at c a" "fsize c a \<le> 4096" "nodes_at c a (NB 0) \<noteq> 0"
    "im_valid im" "di_type (im_disk im) = INODE_TYPE_DIR" by (auto elim: dir_okE)
  have t: "tree_ok (im_disk im) (ic_view c) (ic_used c)" using im(3) i(1) by (simp add: tree_at_def)
  have pv: "ic_view c' b = ic_view c b" if "b \<in> pointer_blocks (im_disk im) (ic_view c)" for b
    using that tree_ok_used [OF t] used_pool [of c] v by blast
  have "nodes (im_disk im) (ic_view c') = nodes (im_disk im) (ic_view c)" by (rule nodes_cong [OF pv])
  then have nodes: "nodes_at c' a = nodes_at c a" using i by (simp add: nodes_at_def)
  have fs: "fsize c' a = fsize c a" using i by (simp add: fsize_def)
  have "tree_ok (im_disk im) (ic_view c') (ic_used c)"
    by (rule tree_ok_cong [OF t pv]) (simp_all add: ic_view_length [OF iwfD(1) [OF wf]])
  then have t': "tree_at c' a" using i istatic_views(4) [OF st] by (simp add: tree_at_def)
  have "nodes_at c a (NB 0) \<in> ic_pool c" using tree_at_used [OF im(3,5)] used_pool [of c] by blast
  then have "block_at c' a = block_at c a" using nodes v by (simp add: block_at_def)
  moreover have "node_of c' (im_inum im) = node_of c (im_inum im)"
    by (rule n, rule iwfD(3) [OF im(1) i(1) im(6)])
  ultimately show ?thesis
    using im i wf st v n t' fs nodes r by (simp add: dir_quiet_def dir_step_def dir_ok_def inum_of_def)
qed

text \<open>\<open>inode_get\<close> has no entry to give: every one is referenced, and none holds the inode.\<close>

definition all_busy :: "inode_cache \<Rightarrow> inode_t \<Rightarrow> bool" where
  "all_busy c inum \<longleftrightarrow>
     (\<forall>x im. ic_inodes c x = Some im \<longrightarrow> 0 < im_ref_count im \<and> \<not> (im_valid im \<and> im_inum im = inum))"

text \<open>A get and the put after it give back every reference.\<close>

lemma get_put_refs:
  assumes o: "\<And>y. y \<noteq> x \<Longrightarrow> map_option core (ic_inodes c1 y) = map_option core (ic_inodes c y)"
    and x: "ic_inodes c1 x = Some xm" and g: "got c x inum xm"
    and p: "ic_inodes c2 = (ic_inodes c1)(x \<mapsto> xm\<lparr>im_ref_count := im_ref_count xm - 1\<rparr>)"
  shows "same_refs c c2"
proof -
  from g obtain old where old: "ic_inodes c x = Some old" by (auto simp: got_def split: option.splits)
  have each: "held c2 y = held c y \<and> (ic_inodes c2 y = None \<longleftrightarrow> ic_inodes c y = None) \<and>
      ((\<forall>im. ic_inodes c y = Some im \<longrightarrow> 0 \<le> im_ref_count im) \<longrightarrow> (\<forall>im. ic_inodes c2 y = Some im \<longrightarrow> 0 \<le> im_ref_count im))" for y
  proof (cases "y = x")
    case True
    then show ?thesis using g old p by (auto simp: got_def held_def split: if_splits)
  next
    case False
    then have e: "ic_inodes c2 y = ic_inodes c1 y" using p by simp
    show ?thesis
    proof (cases "ic_inodes c y")
      case None
      then show ?thesis using o [OF False] e by (simp add: held_def)
    next
      case (Some im)
      then obtain im' where "ic_inodes c1 y = Some im'" "core im' = core im" using o [OF False] by auto
      then show ?thesis using core_eqD [of im' im] Some e by (simp add: held_def)
    qed
  qed
  then have "held c2 = held c" "dom (ic_inodes c2) = dom (ic_inodes c)" unfolding dom_def by (simp_all add: fun_eq_iff)
  moreover have "refs_ok c \<Longrightarrow> refs_ok c2" using each unfolding refs_ok_def by blast
  ultimately show ?thesis by (simp add: same_refs_def)
qed

text \<open>\<open>dir_add\<close> looks at the inode it enters and puts it back.\<close>

lemma get_put_quiet:
  assumes d: "dir_ok c a" and t: "table_ok c inum"
  shows "\<exists>r c1. inode_get c inum = Some (r, c1) \<and>
     (case r of
        None \<Rightarrow> c1 = c \<and> all_busy c inum
      | Some x \<Rightarrow> \<exists>im c2. ic_inodes c1 x = Some im \<and> im_disk im = node_of c inum \<and> inode_put c1 x = Some c2 \<and> dir_quiet c a c2)"
proof -
  from d obtain im where im: "iwf c" "ic_inodes c a = Some im" "im_valid im" "0 < im_ref_count im"
    by (auto elim: dir_okE)
  from inode_get_spec [OF im(1) t] obtain r c1 where g: "inode_get c inum = Some (r, c1)" "iwf c1" "istatic c c1"
    "\<And>i. unat i < 2 ^ 25 \<Longrightarrow> node_of c1 i = node_of c i" "\<And>b. b \<in> ic_pool c \<Longrightarrow> ic_view c1 b = ic_view c b"
    "case r of
        None \<Rightarrow> c1 = c \<and> (\<forall>a im. ic_inodes c a = Some im \<longrightarrow> 0 < im_ref_count im \<and> \<not> (im_valid im \<and> im_inum im = inum))
      | Some x \<Rightarrow> (\<exists>im. ic_inodes c1 x = Some im \<and> got c x inum im) \<and>
          (\<forall>y. y \<noteq> x \<longrightarrow> map_option core (ic_inodes c1 y) = map_option core (ic_inodes c y))" by blast
  show ?thesis
  proof (cases r)
    case None
    then show ?thesis using g by (auto simp: all_busy_def)
  next
    case (Some x)
    with g(6) obtain xm where x: "ic_inodes c1 x = Some xm" "got c x inum xm"
      "\<And>y. y \<noteq> x \<Longrightarrow> map_option core (ic_inodes c1 y) = map_option core (ic_inodes c y)" by auto
    from inode_put_spec [OF g(2) x(1)] obtain c2 where c2: "inode_put c1 x = Some c2" "iwf c2" "istatic c1 c2"
      "ic_view c2 = ic_view c1" "\<And>i. node_of c2 i = node_of c1 i"
      "ic_inodes c2 = (ic_inodes c1)(x \<mapsto> xm\<lparr>im_ref_count := im_ref_count xm - 1\<rparr>)" by blast
    have "\<exists>im'. ic_inodes c2 a = Some im' \<and> im_disk im' = im_disk im \<and> im_valid im' \<and> 0 < im_ref_count im' \<and>
        im_inum im' = im_inum im"
    proof (cases "a = x")
      case True
      have i: "im_valid im" "im_inum im = inum"
        using x(2) im True by (auto simp: got_def split: if_splits)
      obtain xs where "ishape c xs" using iwfD(2) [OF im(1)] by blast
      from node_of_cached [OF this im(2,3)] i(2) have "node_of c inum = im_disk im" by simp
      then show ?thesis using x(2) im True i c2(6) by (simp add: got_def)
    next
      case False
      with x(3) [of a] im(2) obtain im' where "ic_inodes c1 a = Some im'" "core im' = core im" by auto
      then show ?thesis using core_eqD [of im' im] im c2(6) False by auto
    qed
    then obtain im' where im': "ic_inodes c2 a = Some im'" "im_disk im' = im_disk im" "im_valid im'"
      "0 < im_ref_count im'" "im_inum im' = im_inum im" by blast
    have "same_refs c c2" by (rule get_put_refs [OF x(3,1,2) c2(6)])
    then have "dir_quiet c a c2"
      using same_disk_quiet [OF d c2(2) istatic_trans [OF g(3) c2(3)] _ im(2) im'] g(4,5) c2(4,5)
      by (auto simp: table_ok_def)
    moreover have "im_disk xm = node_of c inum" using x(2) by (simp add: got_def)
    ultimately show ?thesis using g(1) Some x(1) c2(1) by auto
  qed
qed

end
