(* ===== verification/Cache_Instances.thy ===== *)
theory Cache_Instances
  imports Dir_Spec Instances Superblock
begin

text \<open>Inode caches of one entry, at which the properties of the cache and of directories are instantiated.\<close>

section \<open>Instances\<close>

text \<open>A cache of one entry, which holds inode 3, changed and not yet written back; the inode table is at block 4.\<close>

definition one_entry :: "block_device \<Rightarrow> inode_mem \<Rightarrow> addr option \<Rightarrow> inode_cache" where
  "one_entry dev im bucket = \<lparr>ic_dev = dev, ic_balloc = empty_alloc,
     ic_sb = (superblock_init 1024 0 0)\<lparr>sb_inode_table_start := 4\<rparr>, ic_inodes = [0 \<mapsto> im], ic_max_inodes = 1,
     ic_lru_head = Some 0, ic_lru_tail = Some 0, ic_hash_table = [bucket], ic_hash_size = 1,
     ic_inode_bitmap = [], ic_bitmap_blocks = 0, ic_oom = False\<rparr>"

definition changed_inode :: inode_mem where
  "changed_inode = calloc_inode\<lparr>im_inum := 3, im_disk := zero_disk_inode\<lparr>di_size := 77\<rparr>, im_valid := True, im_dirty := True\<rparr>"

definition dirty_cache :: inode_cache where
  "dirty_cache = one_entry blank_dev changed_inode (Some 0)"

lemma dirty_cache_fields [simp]:
  "ic_inodes dirty_cache = [0 \<mapsto> changed_inode]" "im_inum changed_inode = 3" "im_valid changed_inode"
  "im_dirty changed_inode" "im_ref_count changed_inode = 0" "im_disk changed_inode = zero_disk_inode\<lparr>di_size := 77\<rparr>"
  by (simp_all add: dirty_cache_def one_entry_def changed_inode_def calloc_inode_def)

lemma one_entry_shape:
  assumes "im_valid im" "im_prev im = None" "im_next im = None" "im_hash_next im = None"
  shows "ishape (one_entry dev im (Some 0)) [0]"
proof -
  let ?c = "one_entry dev im (Some 0)"
  have l: "live ?c = {0}" using assms(1) by (auto simp: live_def one_entry_def split: if_splits)
  have d: "dll (ilinks_of ?c) [0]"
    using assms by (simp add: dll_def ilinks_of_def ic_prev_of_def one_entry_def)
  have b: "ibucket ?c 0 = 0" by (simp add: ibucket_def inode_hash_def one_entry_def)
  have "chain (ic_hash_next_of ?c) (Some 0) [0]"
    using assms by (simp add: ic_hash_next_of_def one_entry_def)
  then have "\<exists>xs. chain (ic_hash_next_of ?c) (Some 0) xs \<and> set xs = {0}" by (intro exI [of _ "[0]"]) simp
  moreover have "{a. a = 0 \<and> ibucket ?c a = 0} = {0}" using b by auto
  moreover have "ic_hash_table ?c = [Some 0]" "ic_hash_size ?c = 1" "dom (ic_inodes ?c) = {0}"
    by (auto simp: one_entry_def)
  ultimately show ?thesis using d l b by (simp add: ishape_def ihashed_def hash_ok_def)
qed

lemma dirty_cache_shape: "ishape dirty_cache [0]"
  unfolding dirty_cache_def by (rule one_entry_shape) (simp_all add: changed_inode_def calloc_inode_def)

lemma dirty_cache_table: "table_ok dirty_cache 3" "table_ok dirty_cache 4"
  by (simp_all add: table_ok_def inode_table_block_def dirty_cache_def one_entry_def ic_pool_def)

lemma dirty_cache_iwf: "iwf dirty_cache"
proof -
  have "ic_ok dirty_cache" by (simp add: ic_ok_def dirty_cache_def one_entry_def)
  moreover have "disk_inode_wf (zero_disk_inode\<lparr>di_size := 77\<rparr>)" by (simp add: disk_inode_wf_def zero_disk_inode_def)
  ultimately show ?thesis using dirty_cache_shape dirty_cache_table(1) by (auto simp: iwf_def split: if_splits)
qed

section \<open>A directory\<close>

text \<open>
  Block 10 holds \<open>data\<close> and belongs to the directory with inode 3, the only entry of the cache, which is
  open once.
\<close>

definition loaded_dev :: "byte list \<Rightarrow> block_device" where
  "loaded_dev data = snd (the (blkdev_write blank_dev 10 data))"

lemma loaded_dev:
  assumes "length data = BLOCK_SIZE"
  shows "dev_ok (loaded_dev data)" "\<not> dev_faulty (loaded_dev data) b" "bd_total_blocks (loaded_dev data) = 1024"
    "dev_view (loaded_dev data) = (\<lambda>_. zeros)(10 := data)"
proof -
  from blkdev_write_spec [of blank_dev 10 data] assms obtain dev' where
    d: "blkdev_write blank_dev 10 data = Some (if writable blank_dev 10 then 0 else - EIO, dev')" "dev_ok dev'"
      "dev_static blank_dev dev'"
      "dev_view dev' = (if writable blank_dev 10 then (dev_view blank_dev)(10 := data) else dev_view blank_dev)" by auto
  have w: "writable blank_dev 10" by (simp add: writable_def)
  have "loaded_dev data = dev'" using d(1) by (simp add: loaded_dev_def)
  then show "dev_ok (loaded_dev data)" "\<not> dev_faulty (loaded_dev data) b" "bd_total_blocks (loaded_dev data) = 1024"
    "dev_view (loaded_dev data) = (\<lambda>_. zeros)(10 := data)"
    using d w by (auto simp: dev_static_def dev_faulty_def fun_eq_iff)
qed

definition dir_inode :: "block_t \<Rightarrow> disk_inode" where
  "dir_inode b = zero_disk_inode\<lparr>di_type := INODE_TYPE_DIR, di_size := 4096, di_blocks := 1,
     di_direct := b # replicate 11 0\<rparr>"

definition dir_cache :: "byte list \<Rightarrow> inode_cache" where
  "dir_cache data = (one_entry (loaded_dev data)
     (calloc_inode\<lparr>im_inum := 3, im_disk := dir_inode 10, im_ref_count := 1, im_valid := True, im_dirty := True\<rparr>)
     (Some 0))\<lparr>ic_balloc := used_alloc\<rparr>"

lemma single_nodes:
  assumes "di_direct di = b # replicate 11 0" "di_indirect di = 0" "di_double_indirect di = 0"
  shows "nodes di v n = (if n = NB 0 then b else 0)"
proof -
  have "(b # replicate 11 (0 :: block_t)) ! i = (if i = 0 then b else 0)" if "i < 12" for i
    using that by (simp add: nth_Cons' del: replicate.simps)
  then show ?thesis using assms by (cases n) (auto simp: file_block_def l1_ptr_def simp del: replicate.simps)
qed

lemma dir_cache_ok:
  assumes "length data = BLOCK_SIZE"
  shows "dir_ok (dir_cache data) 0" "block_at (dir_cache data) 0 = data" "fsize (dir_cache data) 0 = 4096"
    "table_ok (dir_cache data) 3" "inum_of (dir_cache data) 0 = 3"
proof -
  let ?c = "dir_cache data"
  let ?im = "calloc_inode\<lparr>im_inum := 3, im_disk := dir_inode 10, im_ref_count := 1, im_valid := True, im_dirty := True\<rparr>"
  note D = loaded_dev [OF assms]
  have f: "ic_inodes ?c = [0 \<mapsto> ?im]" "ic_dev ?c = loaded_dev data" "ic_balloc ?c = used_alloc"
    "ic_view ?c = (\<lambda>_. zeros)(10 := data)"
    using D(4) by (simp_all add: dir_cache_def one_entry_def ic_view_def)
  have n: "nodes (dir_inode 10) v n = (if n = NB 0 then 10 else 0)" for v n
    by (rule single_nodes) (simp_all add: dir_inode_def zero_disk_inode_def)
  have na: "nodes_at ?c 0 = (\<lambda>n. if n = NB 0 then 10 else 0)"
    using f(1) n by (simp add: nodes_at_def fun_eq_iff)
  then show "block_at ?c 0 = data" using f(4) by (simp add: block_at_def)
  have "tree_at ?c 0"
    using f(1,3,4) n assms by (simp add: tree_at_def tree_ok_def ic_used_def dir_inode_def)
  moreover have ok: "ic_ok ?c"
    using D f by (simp add: ic_ok_def dir_cache_def one_entry_def)
  have "ishape (one_entry (loaded_dev data) ?im (Some 0)) [0]" by (rule one_entry_shape) (simp_all add: calloc_inode_def)
  then have "ishape ?c [0]" by (rule ishape_cong) (simp_all add: dir_cache_def)
  moreover show "table_ok ?c 3"
    using D by (simp add: table_ok_def inode_table_block_def dir_cache_def one_entry_def ic_pool_def)
  ultimately have "iwf ?c"
    using ok f(1) by (auto simp: iwf_def disk_inode_wf_def dir_inode_def zero_disk_inode_def split: if_splits)
  moreover show "fsize ?c 0 = 4096" "inum_of ?c 0 = 3"
    using f(1) by (simp_all add: fsize_def dir_inode_def inum_of_def)
  ultimately show "dir_ok ?c 0" using f(1) na \<open>tree_at ?c 0\<close>
    by (simp add: dir_ok_def fsize_def dir_inode_def)
qed

end
