(* ===== verification/Inode_Alloc_Spec.thy ===== *)
theory Inode_Alloc_Spec
  imports Inode_Cache_Update Inode_Truncate
begin

text \<open>\<open>inode_alloc\<close> and \<open>inode_free\<close>: the inode bitmap, the cached inode and the inode table together.\<close>

section \<open>Changing a cached inode\<close>

lemma im_modify_iwf:
  assumes wf: "iwf c" and a: "ic_inodes c a = Some im"
    and f: "im_inum (f im) = im_inum im" "im_valid (f im) = im_valid im" "im_prev (f im) = im_prev im"
      "im_next (f im) = im_next im" "im_hash_next (f im) = im_hash_next im"
      "disk_inode_wf (im_disk im) \<Longrightarrow> disk_inode_wf (im_disk (f im))"
      "\<not> im_dirty (f im) \<Longrightarrow> im_disk (f im) = im_disk im \<and> \<not> im_dirty im"
  shows "\<exists>c'. im_modify c a f = Some c' \<and> iwf c' \<and> istatic c c' \<and> ic_view c' = ic_view c \<and> ic_dev c' = ic_dev c \<and>
     ic_inodes c' = (ic_inodes c)(a \<mapsto> f im) \<and>
     (\<forall>i. table_ok c i \<longrightarrow> i \<noteq> im_inum im \<longrightarrow> node_of c' i = node_of c i)"
proof -
  from im_modify_spec [OF iwfD(1) [OF wf] a, of f] obtain c' where
    c': "im_modify c a f = Some c'" "ic_ok c'" "ic_keep c c'" "ic_inodes c' = (ic_inodes c)(a \<mapsto> f im)"
      "ic_dev c' = ic_dev c" "ic_balloc c' = ic_balloc c" by blast
  have v: "ic_view c' = ic_view c" using c'(5) by (simp add: ic_view_def)
  note U = iwf_update [OF wf c'(2,3) a c'(4) f]
  have "iwf c'" by (rule U(1)) (simp_all add: v)
  moreover have "node_of c' i = node_of c i" if "table_ok c i" "i \<noteq> im_inum im" for i
    by (rule U(2)) (simp_all add: v that)
  ultimately show ?thesis using c' v istatic_keep [OF c'(3,6)] by blast
qed

section \<open>Allocation\<close>

definition new_node :: "u64 \<Rightarrow> byte \<Rightarrow> disk_inode" where
  "new_node now type = zero_disk_inode\<lparr>di_type := type, di_nlink := 1, di_ctime := now, di_mtime := now, di_atime := now\<rparr>"

lemma new_node_wf [simp]: "disk_inode_wf (new_node now type)"
  using zero_disk_inode_wf by (simp add: new_node_def disk_inode_wf_def)

abbreviation ibits :: "inode_cache \<Rightarrow> nat \<Rightarrow> bool" where
  "ibits c \<equiv> bits (ic_inode_bitmap c)"

abbreviation itotal :: "inode_cache \<Rightarrow> nat" where
  "itotal c \<equiv> unat (sb_total_inodes (ic_sb c))"

lemma ilayout_cong:
  assumes "ilayout c" "length (ic_inode_bitmap c') = length (ic_inode_bitmap c)" "ic_bitmap_blocks c' = ic_bitmap_blocks c"
    "ic_bound c' = ic_bound c" "sb_inode_bitmap_start (ic_sb c') = sb_inode_bitmap_start (ic_sb c)"
    "sb_total_inodes (ic_sb c') = sb_total_inodes (ic_sb c)" "ic_pool c' = ic_pool c"
    "\<And>i. table_ok c' i = table_ok c i" "\<And>i. inode_table_block c' i = inode_table_block c i"
  shows "ilayout c'"
  using assms by (simp add: ilayout_def bitmap_block_def)

lemma ilayout_static: "ilayout c \<Longrightarrow> istatic c c' \<Longrightarrow> ilayout c'"
  by (rule ilayout_cong) (simp_all add: istatic_views, simp_all add: istatic_def)

text \<open>The lowest free inode, entered in the bitmap and the inode table, in the entry \<open>a\<close> of the cache.\<close>

text \<open>What allocation and release leave of the geometry.\<close>

definition same_table :: "inode_cache \<Rightarrow> inode_cache \<Rightarrow> bool" where
  "same_table c c' \<longleftrightarrow> itotal c' = itotal c \<and> (\<forall>i. table_ok c' i = table_ok c i)"

definition allocated_inode :: "inode_cache \<Rightarrow> u64 \<Rightarrow> byte \<Rightarrow> addr \<Rightarrow> inode_t \<Rightarrow> inode_cache \<Rightarrow> bool" where
  "allocated_inode c now type a inum c' \<longleftrightarrow> iwf c' \<and> ilayout c' \<and> unat inum < itotal c \<and> \<not> ibits c (unat inum) \<and>
     (\<forall>k < unat inum. ibits c k) \<and> ibits c' = (ibits c)(unat inum := True) \<and> bitmap_stored c' \<and>
     (\<exists>im old. ic_inodes c' a = Some im \<and> im_inum im = inum \<and> im_valid im \<and> im_disk im = new_node now type \<and>
        ic_inodes c a = Some old \<and>
        (if im_valid old \<and> im_inum old = inum then im_ref_count im = im_ref_count old + 1
         else im_ref_count old \<le> 0 \<and> im_ref_count im = 1)) \<and>
     disk_node c' inum = new_node now type \<and>
     (\<forall>i. table_ok c i \<longrightarrow> i \<noteq> inum \<longrightarrow> node_of c' i = node_of c i) \<and> (\<forall>b \<in> ic_pool c. ic_view c' b = ic_view c b) \<and>
     (\<forall>x. x \<noteq> a \<longrightarrow> map_option core (ic_inodes c' x) = map_option core (ic_inodes c x)) \<and>
     ic_balloc c' = ic_balloc c \<and> sb_free_inodes (ic_sb c') = sb_free_inodes (ic_sb c) - 1 \<and> same_table c c'"

lemma ic_clear_bit_spec:
  assumes "unat inum < 8 * length (ic_inode_bitmap c)"
  shows "\<exists>bm. ic_clear_bit c inum = Some (c\<lparr>ic_inode_bitmap := bm\<rparr>) \<and> length bm = length (ic_inode_bitmap c) \<and>
     bits bm = (ibits c)(unat inum := False)"
  using bitmap_clear_bits [OF assms] by (auto simp: ic_clear_bit_def)

lemma same_inodes_bitmap: "same_inodes c (c\<lparr>ic_inode_bitmap := bm\<rparr>)"
  by (simp add: same_inodes_def)

lemma istatic_bitmap: "istatic c c' \<Longrightarrow> ic_inode_bitmap c' = ic_inode_bitmap c" "istatic c c' \<Longrightarrow> ic_sb c' = ic_sb c"
  "istatic c c' \<Longrightarrow> ic_balloc c' = ic_balloc c" "istatic c c' \<Longrightarrow> ic_bitmap_blocks c' = ic_bitmap_blocks c"
  by (simp_all add: istatic_def)

lemma inode_alloc_spec:
  assumes wf: "iwf c" and l: "ilayout c"
  shows "\<exists>r c'. inode_alloc now c type = Some (r, c') \<and>
     (case r of
        Some a \<Rightarrow> \<exists>inum. allocated_inode c now type a inum c'
      | None \<Rightarrow> iwf c' \<and> ilayout c' \<and> ibits c' = ibits c \<and> same_inodes c c' \<and> ic_sb c' = ic_sb c \<and>
          ((\<forall>k < itotal c. ibits c k) \<or> (\<forall>a im. ic_inodes c a = Some im \<longrightarrow> 0 < im_ref_count im)))"
proof -
  from l have L: "itotal c \<le> 8 * length (ic_inode_bitmap c)" "\<And>i. unat i < itotal c \<Longrightarrow> table_ok c i"
    by (simp_all add: ilayout_def)
  from find_free_least [OF L(1), of 0] consider
      (full) "find_free (ic_inode_bitmap c) (sb_total_inodes (ic_sb c)) 0 = Some None" "\<forall>k < itotal c. ibits c k"
    | (free) inum where "find_free (ic_inode_bitmap c) (sb_total_inodes (ic_sb c)) 0 = Some (Some inum)"
        "unat inum < itotal c" "\<not> ibits c (unat inum)" "\<forall>k < unat inum. ibits c k"
    by (auto simp: word_less_nat_alt)
  then show ?thesis
  proof cases
    case full
    then show ?thesis using wf l by (auto simp: inode_alloc_def same_inodes_def)
  next
    case free
    have ib: "unat inum < 8 * length (ic_inode_bitmap c)" using free(2) L(1) by simp
    from bitmap_set_bits [OF ib] obtain bm where
      bm: "bitmap_set (ic_inode_bitmap c) inum = Some bm" "length bm = length (ic_inode_bitmap c)"
        "bits bm = (ibits c)(unat inum := True)" by blast
    let ?c0 = "c\<lparr>ic_inode_bitmap := bm\<rparr>"
    note S0 = same_inodes [OF same_inodes_bitmap [of c bm]]
    have wf0: "iwf ?c0" using wf S0(1) by simp
    have t0: "table_ok ?c0 inum" using L(2) [OF free(2)] S0(4) by simp
    from inode_get_spec [OF wf0 t0] obtain r c1 where g: "inode_get ?c0 inum = Some (r, c1)" "iwf c1" "istatic ?c0 c1"
      "\<And>i. unat i < 2 ^ 25 \<Longrightarrow> node_of c1 i = node_of ?c0 i" "\<And>b. b \<in> ic_pool ?c0 \<Longrightarrow> ic_view c1 b = ic_view ?c0 b"
      "case r of
        None \<Rightarrow> c1 = ?c0 \<and> (\<forall>a im. ic_inodes ?c0 a = Some im \<longrightarrow> 0 < im_ref_count im \<and> \<not> (im_valid im \<and> im_inum im = inum))
      | Some a \<Rightarrow> (\<exists>im. ic_inodes c1 a = Some im \<and> got ?c0 a inum im) \<and>
          (\<forall>x. x \<noteq> a \<longrightarrow> map_option core (ic_inodes c1 x) = map_option core (ic_inodes ?c0 x))" by blast
    have l0: "ilayout ?c0" by (rule ilayout_cong [OF l]) (simp_all add: S0 bm(2))
    show ?thesis
    proof (cases r)
      case None
      then have c1: "c1 = ?c0" "\<forall>a im. ic_inodes c a = Some im \<longrightarrow> 0 < im_ref_count im" using g(6) by auto
      from ic_clear_bit_spec [of inum ?c0] ib bm(2) obtain bm' where
        b': "ic_clear_bit ?c0 inum = Some (?c0\<lparr>ic_inode_bitmap := bm'\<rparr>)" "length bm' = length bm"
          "bits bm' = (bits bm)(unat inum := False)" by auto
      have "inode_alloc now c type = Some (None, c\<lparr>ic_inode_bitmap := bm'\<rparr>)"
        using free(1) bm(1) g(1) None c1(1) b'(1) by (simp add: inode_alloc_def)
      moreover have "bits bm' = ibits c" using b'(3) bm(3) free(3) by (simp add: fun_upd_idem)
      moreover have "ilayout (c\<lparr>ic_inode_bitmap := bm'\<rparr>)" "iwf (c\<lparr>ic_inode_bitmap := bm'\<rparr>)"
        using ilayout_cong [OF l, of "c\<lparr>ic_inode_bitmap := bm'\<rparr>"] same_inodes [OF same_inodes_bitmap [of c bm']]
          b'(2) bm(2) wf by simp_all
      moreover note same_inodes_bitmap [of c bm']
      ultimately show ?thesis using c1(2) by auto
    next
      case (Some a)
      with g(6) obtain im where im: "ic_inodes c1 a = Some im" "got ?c0 a inum im"
        "\<And>x. x \<noteq> a \<Longrightarrow> map_option core (ic_inodes c1 x) = map_option core (ic_inodes ?c0 x)" by auto
      let ?f = "\<lambda>im. im\<lparr>im_disk := new_node now type, im_valid := True, im_dirty := True\<rparr>"
      have iv: "im_valid im" "im_inum im = inum" using im(2) by (simp_all add: got_def)
      have fe: "(\<lambda>im. im\<lparr>im_disk := zero_disk_inode\<lparr>di_type := type, di_nlink := 1, di_ctime := now, di_mtime := now,
          di_atime := now\<rparr>, im_valid := True, im_dirty := True\<rparr>) = ?f" by (simp add: new_node_def)
      from im_modify_iwf [OF g(2) im(1), of ?f] iv obtain c2 where
        c2: "im_modify c1 a ?f = Some c2" "iwf c2" "istatic c1 c2" "ic_view c2 = ic_view c1" "ic_dev c2 = ic_dev c1"
          "ic_inodes c2 = (ic_inodes c1)(a \<mapsto> ?f im)" "\<forall>i. table_ok c1 i \<longrightarrow> i \<noteq> inum \<longrightarrow> node_of c2 i = node_of c1 i" by auto
      have a2: "ic_inodes c2 a = Some (?f im)" using c2(6) by simp
      from inode_sync_spec [OF c2(2) a2] obtain c3 where
        c3: "inode_sync c2 a = Some (0, c3)" "iwf c3" "istatic c2 c3"
          "ic_inodes c3 = (ic_inodes c2)(a \<mapsto> (?f im)\<lparr>im_dirty := False\<rparr>)"
          "\<forall>i. unat i < 2 ^ 25 \<longrightarrow> disk_node c3 i = (if i = inum then new_node now type else disk_node c2 i)"
          "\<forall>b. b \<noteq> inode_table_block c2 inum \<longrightarrow> ic_view c3 b = ic_view c2 b" using iv by auto
      from evict_sync [OF c2(2) a2] c3(1) iv have e3: "\<forall>i. unat i < 2 ^ 25 \<longrightarrow> node_of c3 i = node_of c2 i"
        "\<forall>b \<in> ic_pool c2. ic_view c3 b = ic_view c2 b" by auto
      let ?c4 = "c3\<lparr>ic_sb := (ic_sb c3)\<lparr>sb_free_inodes := sb_free_inodes (ic_sb c3) - 1\<rparr>\<rparr>"
      note S4 = same_inodes [of c3 ?c4, simplified same_inodes_def, simplified]
      have st: "istatic ?c0 c3" using g(3) c2(3) c3(3) by (blast intro: istatic_trans)
      have l3: "ilayout c3" by (rule ilayout_static [OF l0 st])
      have l4: "ilayout ?c4" by (rule ilayout_cong [OF l3]) (simp_all add: S4)
      have wf4: "iwf ?c4" using c3(2) S4(1) by simp
      from sync_inode_bitmap_spec [OF wf4 l4] obtain c5 where
        c5: "sync_inode_bitmap ?c4 = Some (0, c5)" "iwf c5" "ic_same ?c4 c5" "bitmap_stored c5"
          "\<forall>i. table_ok ?c4 i \<longrightarrow> node_of c5 i = node_of ?c4 i \<and> disk_node c5 i = disk_node ?c4 i"
          "\<forall>b \<in> ic_pool ?c4. ic_view c5 b = ic_view ?c4 b" by blast
      have run: "inode_alloc now c type = Some (Some a, c5)"
        using free(1) bm(1) g(1) Some c2(1) [folded fe] c3(1) c5(1) by (simp add: inode_alloc_def Let_def)
      have k5: "ic_keep ?c4 c5" "ic_inodes c5 = ic_inodes c3" "ic_balloc c5 = ic_balloc c3"
        using c5(3) by (simp_all add: ic_same_def)
      note F5 = ic_keep_fields [OF k5(1)]
      have l5: "ilayout c5" by (rule ilayout_static [OF l4 istatic_keep [OF k5(1)]]) (simp add: k5(3))
      have tb: "table_ok ?c4 i = table_ok c i" "ic_pool ?c4 = ic_pool c" for i
        using S4(4,8) istatic_views(2,3) [OF st] S0(4,8) by simp_all
      have node: "node_of c5 i = node_of c i" if "table_ok c i" "i \<noteq> inum" for i
        using that c5(5) tb(1) S4(2) e3(1) c2(7) istatic_views(3) [OF g(3)] S0(2,4) g(4) by (simp add: table_ok_def)
      have disk: "disk_node c5 inum = new_node now type"
        using c5(5) tb(1) L(2) [OF free(2)] S4(3) c3(5) by (auto simp: table_ok_def)
      have pool: "ic_view c5 b = ic_view c b" if "b \<in> ic_pool c" for b
      proof -
        have "b \<in> ic_pool c2" using that istatic_views(2) [OF c2(3)] istatic_views(2) [OF g(3)] S0(8) by simp
        then show ?thesis using that c5(6) tb(2) S4(6) e3(2) c2(4) g(5) S0(6,8) by simp
      qed
      have ino: "ic_inodes c5 x = (if x = a then Some ((?f im)\<lparr>im_dirty := False\<rparr>) else ic_inodes c1 x)" for x
        using k5(2) c3(4) c2(6) by simp
      have ent: "\<exists>im old. ic_inodes c5 a = Some im \<and> im_inum im = inum \<and> im_valid im \<and> im_disk im = new_node now type \<and>
        ic_inodes c a = Some old \<and>
        (if im_valid old \<and> im_inum old = inum then im_ref_count im = im_ref_count old + 1
         else im_ref_count old \<le> 0 \<and> im_ref_count im = 1)"
        using im(2) ino [of a] iv by (auto simp: got_def split: option.splits if_splits)
      have oth: "map_option core (ic_inodes c5 x) = map_option core (ic_inodes c x)" if "x \<noteq> a" for x
        using ino [of x] im(3) [OF that] that by simp
      have bits: "ibits c5 = (ibits c)(unat inum := True)"
        using F5(8) istatic_bitmap(1) [OF st] bm(3) by simp
      have bal: "ic_balloc c5 = ic_balloc c" using k5(3) istatic_bitmap(3) [OF st] by simp
      have fr: "sb_free_inodes (ic_sb c5) = sb_free_inodes (ic_sb c) - 1" using F5(1) istatic_bitmap(2) [OF st] by simp
      have "same_table c c5"
        using F5(1) istatic_bitmap(2) [OF st] istatic_views(3) [OF istatic_keep [OF k5(1)]] k5(3) tb(1) by (simp add: same_table_def)
      then have "allocated_inode c now type a inum c5"
        unfolding allocated_inode_def
        using c5(2,4) l5 free(2-4) bits ent disk node pool oth bal fr by blast
      then show ?thesis using run by auto
    qed
  qed
qed

section \<open>Release\<close>

definition emptied :: "u64 \<Rightarrow> inode_mem \<Rightarrow> inode_mem" where
  "emptied n im = im\<lparr>im_disk := (im_disk im)\<lparr>di_blocks := n, di_size := 0\<rparr>, im_dirty := True\<rparr>"

lemma emptied_fields [simp]:
  "im_inum (emptied n im) = im_inum im" "im_valid (emptied n im) = im_valid im" "im_prev (emptied n im) = im_prev im"
  "im_next (emptied n im) = im_next im" "im_hash_next (emptied n im) = im_hash_next im" "im_dirty (emptied n im)"
  "im_ref_count (emptied n im) = im_ref_count im" "disk_inode_wf (im_disk (emptied n im)) = disk_inode_wf (im_disk im)"
  by (simp_all add: emptied_def disk_inode_wf_def)

lemma inode_truncate_zero:
  assumes ok: "ic_ok c" and t: "tree_at c a" and im: "ic_inodes c a = Some im" and mx: "fsize c a \<le> 49152"
  shows "\<exists>c' n. inode_truncate c a 0 = Some (0, c') \<and> ic_ok c' \<and> ic_keep c c' \<and> ic_view c' = ic_view c \<and>
     ic_inodes c' = (ic_inodes c)(a \<mapsto> emptied n im) \<and>
     ic_used c' = ic_used c - {nodes_at c a (NB i) | i. i < blocks_for (fsize c a)}"
proof (cases "fsize c a = 0")
  case True
  then have z: "di_size (im_disk im) = 0" using im by (simp add: fsize_def unat_eq_0)
  from set_size_view [OF ok im, of 0] obtain c' where
    c': "im_modify c a (\<lambda>im. im\<lparr>im_disk := (im_disk im)\<lparr>di_size := 0\<rparr>, im_dirty := True\<rparr>) = Some c'"
      "ic_ok c'" "ic_keep c c'" "ic_view c' = ic_view c" "ic_used c' = ic_used c"
      "ic_inodes c' = (ic_inodes c)(a \<mapsto> im\<lparr>im_disk := (im_disk im)\<lparr>di_size := 0\<rparr>, im_dirty := True\<rparr>)" by blast
  have "im\<lparr>im_disk := (im_disk im)\<lparr>di_size := 0\<rparr>, im_dirty := True\<rparr> = emptied (di_blocks (im_disk im)) im"
    by (simp add: emptied_def)
  moreover have "{nodes_at c a (NB i) | i. i < blocks_for (fsize c a)} = {}" using True by (simp add: blocks_for_def)
  moreover have "inode_truncate c a 0 = Some (0, c')" using im z c'(1) by (simp add: inode_truncate_def)
  ultimately show ?thesis using c' by (intro exI [of _ c'] exI [of _ "di_blocks (im_disk im)"]) simp
next
  case False
  then have new: "unat (0 :: u64) < fsize c a" by simp
  have "blocks_for (unat (0 :: u64)) = 0" by (simp add: blocks_for_def)
  with inode_truncate_direct [OF ok t mx new] im show ?thesis by (simp add: emptied_def) blast
qed

definition freed_inode :: "inode_cache \<Rightarrow> addr \<Rightarrow> inode_mem \<Rightarrow> inode_cache \<Rightarrow> bool" where
  "freed_inode c a im c' \<longleftrightarrow> iwf c' \<and> ilayout c' \<and> ibits c' = (ibits c)(unat (im_inum im) := False) \<and> bitmap_stored c' \<and>
     (\<exists>n. ic_inodes c' = (ic_inodes c)(a \<mapsto> (emptied n im)\<lparr>im_ref_count := im_ref_count im - 1\<rparr>)) \<and>
     ic_used c' = ic_used c - {nodes_at c a (NB i) | i. i < blocks_for (fsize c a)} \<and>
     (\<forall>i. table_ok c i \<longrightarrow> i \<noteq> im_inum im \<longrightarrow> node_of c' i = node_of c i) \<and> (\<forall>b \<in> ic_pool c. ic_view c' b = ic_view c b) \<and>
     sb_free_inodes (ic_sb c') = sb_free_inodes (ic_sb c) + 1 \<and> same_table c c'"

lemma inode_free_spec:
  assumes wf: "iwf c" and l: "ilayout c" and a: "ic_inodes c a = Some im" "im_valid im" "unat (im_inum im) < itotal c"
    and t: "tree_at c a" and mx: "fsize c a \<le> 49152"
  shows "\<exists>c'. inode_free c a = Some (0, c') \<and> freed_inode c a im c'"
proof -
  from inode_truncate_zero [OF iwfD(1) [OF wf] t a(1) mx] obtain c1 n where
    c1: "inode_truncate c a 0 = Some (0, c1)" "ic_ok c1" "ic_keep c c1" "ic_view c1 = ic_view c"
      "ic_inodes c1 = (ic_inodes c)(a \<mapsto> emptied n im)"
      "ic_used c1 = ic_used c - {nodes_at c a (NB i) | i. i < blocks_for (fsize c a)}" by blast
  note F1 = ic_keep_fields [OF c1(3)]
  have tb1: "table_ok c1 i = table_ok c i" "inode_table_block c1 i = inode_table_block c i" for i
    using F1 by (simp_all add: table_ok_def inode_table_block_def)
  have wf1: "iwf c1" by (rule iwf_update(1) [OF wf c1(2,3) a(1) c1(5)]) (simp_all add: c1(4))
  have n1: "node_of c1 i = node_of c i" if "table_ok c i" "i \<noteq> im_inum im" for i
    by (rule iwf_update(2) [OF wf c1(2,3) a(1) c1(5)]) (simp_all add: c1(4) that)
  have l1: "ilayout c1" by (rule ilayout_cong [OF l]) (simp_all add: F1 tb1)
  have a1: "ic_inodes c1 a = Some (emptied n im)" using c1(5) by simp
  from inode_put_spec [OF wf1 a1] obtain c2 where
    c2: "inode_put c1 a = Some c2" "iwf c2" "istatic c1 c2" "ic_view c2 = ic_view c1" "\<And>i. node_of c2 i = node_of c1 i"
      "ic_inodes c2 = (ic_inodes c1)(a \<mapsto> (emptied n im)\<lparr>im_ref_count := im_ref_count im - 1\<rparr>)" by auto
  have l2: "ilayout c2" by (rule ilayout_static [OF l1 c2(3)])
  have bm2: "ic_inode_bitmap c2 = ic_inode_bitmap c" "ic_sb c2 = ic_sb c" "ic_pool c2 = ic_pool c" "ic_used c2 = ic_used c1"
    using istatic_bitmap(1,2) [OF c2(3)] istatic_views(2,4) [OF c2(3)] F1 by simp_all
  have ib: "unat (im_inum im) < 8 * length (ic_inode_bitmap c2)"
    using l a(3) unfolding bm2(1) by (auto simp: ilayout_def)
  from ic_clear_bit_spec [OF ib] obtain bm where
    b: "ic_clear_bit c2 (im_inum im) = Some (c2\<lparr>ic_inode_bitmap := bm\<rparr>)" "length bm = length (ic_inode_bitmap c2)"
      "bits bm = (ibits c)(unat (im_inum im) := False)" using bm2(1) by auto
  let ?c4 = "c2\<lparr>ic_inode_bitmap := bm, ic_sb := (ic_sb c2)\<lparr>sb_free_inodes := sb_free_inodes (ic_sb c2) + 1\<rparr>\<rparr>"
  have "same_inodes c2 ?c4" by (simp add: same_inodes_def)
  note S4 = same_inodes [OF this]
  have wf4: "iwf ?c4" using c2(2) S4(1) by simp
  have l4: "ilayout ?c4" by (rule ilayout_cong [OF l2]) (simp_all add: S4 b(2))
  from sync_inode_bitmap_spec [OF wf4 l4] obtain c5 where
    c5: "sync_inode_bitmap ?c4 = Some (0, c5)" "iwf c5" "ic_same ?c4 c5" "bitmap_stored c5"
      "\<forall>i. table_ok ?c4 i \<longrightarrow> node_of c5 i = node_of ?c4 i \<and> disk_node c5 i = disk_node ?c4 i"
      "\<forall>b \<in> ic_pool ?c4. ic_view c5 b = ic_view ?c4 b" by blast
  have k5: "ic_keep ?c4 c5" "ic_inodes c5 = ic_inodes c2" "ic_balloc c5 = ic_balloc ?c4"
    using c5(3) by (simp_all add: ic_same_def)
  note F5 = ic_keep_fields [OF k5(1)]
  have st5: "istatic ?c4 c5" by (rule istatic_keep [OF k5(1,3)])
  have l5: "ilayout c5" by (rule ilayout_static [OF l4 st5])
  have run: "inode_free c a = Some (0, c5)"
    using c1(1) a1 c2(1) b(1) c5(1) by (simp add: inode_free_def Let_def)
  have bits: "ibits c5 = (ibits c)(unat (im_inum im) := False)" using F5(8) b(3) by simp
  have ino: "ic_inodes c5 = (ic_inodes c)(a \<mapsto> (emptied n im)\<lparr>im_ref_count := im_ref_count im - 1\<rparr>)"
    using k5(2) c2(6) c1(5) by simp
  have used: "ic_used c5 = ic_used c - {nodes_at c a (NB i) | i. i < blocks_for (fsize c a)}"
    using istatic_views(4) [OF st5] S4(9) bm2(4) c1(6) by simp
  have node: "node_of c5 i = node_of c i" if "table_ok c i" "i \<noteq> im_inum im" for i
    using that c5(5) S4(2,4) istatic_views(3) [OF c2(3)] tb1(1) c2(5) n1 by simp
  have pool: "ic_view c5 b = ic_view c b" if "b \<in> ic_pool c" for b
    using that c5(6) S4(6,8) bm2(3) c2(4) c1(4) by simp
  have fr: "sb_free_inodes (ic_sb c5) = sb_free_inodes (ic_sb c) + 1" using F5(1) bm2(2) by simp
  have "same_table c c5"
    using F5(1) bm2(2) istatic_views(3) [OF st5] S4(4) istatic_views(3) [OF c2(3)] tb1(1) by (simp add: same_table_def)
  then have "freed_inode c a im c5"
    unfolding freed_inode_def using c5(2,4) l5 bits ino used node pool fr by blast
  then show ?thesis using run by blast
qed

end
