(* ===== verification/Inode_Cache_Properties.thy ===== *)
theory Inode_Cache_Properties
  imports Cache_Instances Inode_Alloc_Spec
begin

text \<open>The properties of the inode cache.\<close>

section \<open>Getting an inode\<close>

text \<open>C30: \<open>inode_get\<close> is transparent.  It returns an entry with the wanted inode, as cached or as in
  the inode table, with one more reference, or fails because every entry is referenced; whatever it evicts
  is written back, so that every inode keeps its contents, and so does every data block.\<close>
theorem inode_get_correct:
  assumes "iwf c" "table_ok c inum"
  shows "\<exists>r c'. inode_get c inum = Some (r, c') \<and> iwf c' \<and>
     (\<forall>i. unat i < 2 ^ 25 \<longrightarrow> node_of c' i = node_of c i) \<and> (\<forall>b \<in> ic_pool c. ic_view c' b = ic_view c b) \<and>
     (case r of
        None \<Rightarrow> c' = c \<and> (\<forall>a im. ic_inodes c a = Some im \<longrightarrow> 0 < im_ref_count im \<and> \<not> (im_valid im \<and> im_inum im = inum))
      | Some a \<Rightarrow> (\<exists>im. ic_inodes c' a = Some im \<and> got c a inum im) \<and>
          (\<forall>x. x \<noteq> a \<longrightarrow> map_option core (ic_inodes c' x) = map_option core (ic_inodes c x)))"
  using inode_get_spec [OF assms] by blast

theorem inode_get_correct_witness:
  "\<exists>c' im. inode_get dirty_cache 4 = Some (Some 0, c') \<and> ic_inodes c' 0 = Some im \<and> im_inum im = 4 \<and>
     im_ref_count im = 1 \<and> node_of c' 3 = zero_disk_inode\<lparr>di_size := 77\<rparr>"
proof -
  from inode_get_correct [OF dirty_cache_iwf dirty_cache_table(2)] obtain r c' where
    g: "inode_get dirty_cache 4 = Some (r, c')" "\<And>i. unat i < 2 ^ 25 \<Longrightarrow> node_of c' i = node_of dirty_cache i"
      "case r of None \<Rightarrow> c' = dirty_cache \<and>
          (\<forall>a im. ic_inodes dirty_cache a = Some im \<longrightarrow> 0 < im_ref_count im \<and> \<not> (im_valid im \<and> im_inum im = 4))
        | Some a \<Rightarrow> (\<exists>im. ic_inodes c' a = Some im \<and> got dirty_cache a 4 im) \<and>
          (\<forall>x. x \<noteq> a \<longrightarrow> map_option core (ic_inodes c' x) = map_option core (ic_inodes dirty_cache x))" by blast
  have "node_of dirty_cache 3 = zero_disk_inode\<lparr>di_size := 77\<rparr>"
    using node_of_cached [OF dirty_cache_shape, of 0 changed_inode] by simp
  then have n: "node_of c' 3 = zero_disk_inode\<lparr>di_size := 77\<rparr>" using g(2) [of 3] by simp
  from g(3) obtain a im where a: "r = Some a" "ic_inodes c' a = Some im" "got dirty_cache a 4 im"
    by (cases r) (auto split: if_splits)
  then have "a = 0" "im_inum im = 4" "im_ref_count im = 1" by (auto simp: got_def split: option.splits if_splits)
  then show ?thesis using g(1) a n by auto
qed






section \<open>Allocation and release\<close>

text \<open>The cache above with an inode table of 64 inodes, of which 0 to 3 are in use; the bitmap is at block 3.\<close>

definition bitmap_cache :: inode_cache where
  "bitmap_cache = dirty_cache\<lparr>ic_inode_bitmap := 0x0F # replicate 4095 0, ic_bitmap_blocks := 1,
     ic_sb := (ic_sb dirty_cache)\<lparr>sb_inode_bitmap_start := 3, sb_total_inodes := 64\<rparr>\<rparr>"

lemma bitmap_cache_same: "same_inodes dirty_cache bitmap_cache"
  by (simp add: same_inodes_def bitmap_cache_def)

lemma bitmap_cache_layout: "ilayout bitmap_cache"
proof -
  have tb: "unat (inode_table_block bitmap_cache i) = 4 + unat i div 32" if "unat i < 2 ^ 25" for i
  proof -
    have "unat ((i * 128) div 4096) = unat i div 32" by (rule table_slot(1) [OF that])
    moreover have "unat i div 32 < 2 ^ 20" using that by (simp add: div_less_iff_less_mult)
    ultimately show ?thesis
      by (simp add: inode_table_block_def bitmap_cache_def dirty_cache_def one_entry_def unat_word_ariths)
  qed
  have f: "ic_bound bitmap_cache = 1024" "ic_balloc bitmap_cache = empty_alloc" "ic_bitmap_blocks bitmap_cache = 1"
    "sb_inode_bitmap_start (ic_sb bitmap_cache) = 3" "sb_total_inodes (ic_sb bitmap_cache) = 64"
    "length (ic_inode_bitmap bitmap_cache) = 4096"
    by (simp_all add: bitmap_cache_def dirty_cache_def one_entry_def)
  have t: "table_ok bitmap_cache i" if "unat i < 64" for i
  proof -
    have "unat i div 32 < 2" using that by simp
    then have b: "unat (inode_table_block bitmap_cache i) < 6" using tb [of i] that by simp
    then have "inode_table_block bitmap_cache i \<notin> ic_pool bitmap_cache"
      by (simp add: ic_pool_def f word_le_nat_alt)
    then show ?thesis using b that by (simp add: table_ok_def f word_less_nat_alt)
  qed
  have ne: "inode_table_block bitmap_cache i \<noteq> 3" if "table_ok bitmap_cache i" for i
    using tb [of i] that by (auto simp: table_ok_def)
  show ?thesis
    using f t ne by (simp add: ilayout_def run_ok_def bitmap_block_def ic_pool_def)
qed

lemma bitmap_cache_iwf: "iwf bitmap_cache"
  using same_inodes(1) [OF bitmap_cache_same] dirty_cache_iwf by simp

lemma bitmap_cache_bits: "k < 4 \<Longrightarrow> ibits bitmap_cache k" "\<not> ibits bitmap_cache 4"
proof -
  have "bits (0x0F # replicate 4095 0) k \<longleftrightarrow> bit (0x0F :: byte) k" if "k < 8" for k using that by simp
  moreover have "k < 4 \<Longrightarrow> bit (0x0F :: byte) k" for k by (cases k rule: nat.exhaust) (auto simp: less_Suc_eq numeral_eq_Suc)
  ultimately show "k < 4 \<Longrightarrow> ibits bitmap_cache k" "\<not> ibits bitmap_cache 4"
    by (simp_all add: bitmap_cache_def)
qed

text \<open>C32: \<open>inode_alloc\<close> takes the lowest free inode, marks it in the bitmap in memory and on the
  device, and leaves a new inode of the given type in the cache and in the inode table; no other inode and no
  data block changes.  It fails without an effect when no inode is free or every cache entry is referenced.\<close>
theorem inode_alloc_correct:
  assumes "iwf c" "ilayout c"
  shows "\<exists>r c'. inode_alloc now c type = Some (r, c') \<and>
     (case r of
        Some a \<Rightarrow> \<exists>inum. allocated_inode c now type a inum c'
      | None \<Rightarrow> iwf c' \<and> ilayout c' \<and> ibits c' = ibits c \<and> same_inodes c c' \<and> ic_sb c' = ic_sb c \<and>
          ((\<forall>k < itotal c. ibits c k) \<or> (\<forall>a im. ic_inodes c a = Some im \<longrightarrow> 0 < im_ref_count im)))"
  by (rule inode_alloc_spec [OF assms])

theorem inode_alloc_correct_witness:
  "\<exists>c'. inode_alloc 9 bitmap_cache INODE_TYPE_FILE = Some (Some 0, c') \<and> disk_node c' 4 = new_node 9 INODE_TYPE_FILE \<and>
     ibits c' 4 \<and> node_of c' 3 = zero_disk_inode\<lparr>di_size := 77\<rparr>"
proof -
  from inode_alloc_correct [OF bitmap_cache_iwf bitmap_cache_layout] obtain r c' where
    g: "inode_alloc 9 bitmap_cache INODE_TYPE_FILE = Some (r, c')" and
    s: "case r of
        Some a \<Rightarrow> \<exists>inum. allocated_inode bitmap_cache 9 INODE_TYPE_FILE a inum c'
      | None \<Rightarrow> iwf c' \<and> ilayout c' \<and> ibits c' = ibits bitmap_cache \<and> same_inodes bitmap_cache c' \<and> ic_sb c' = ic_sb bitmap_cache \<and>
          ((\<forall>k < itotal bitmap_cache. ibits bitmap_cache k) \<or> (\<forall>a im. ic_inodes bitmap_cache a = Some im \<longrightarrow> 0 < im_ref_count im))" by blast
  have i: "ic_inodes bitmap_cache = [0 \<mapsto> changed_inode]" "itotal bitmap_cache = 64"
    by (simp_all add: bitmap_cache_def dirty_cache_def one_entry_def)
  have t: "table_ok bitmap_cache 3" using bitmap_cache_layout i(2) by (simp add: ilayout_def)
  have "r \<noteq> None"
  proof
    assume "r = None"
    with s have "(\<forall>k < 64. ibits bitmap_cache k) \<or> (\<forall>a im. ic_inodes bitmap_cache a = Some im \<longrightarrow> 0 < im_ref_count im)"
      using i(2) by simp
    then show False
    proof
      assume "\<forall>k < 64. ibits bitmap_cache k"
      then show False using bitmap_cache_bits(2) by auto
    next
      assume "\<forall>a im. ic_inodes bitmap_cache a = Some im \<longrightarrow> 0 < im_ref_count im"
      then have "0 < im_ref_count changed_inode" using i(1) by (metis fun_upd_same)
      then show False by simp
    qed
  qed
  then obtain a inum where a: "r = Some a" "allocated_inode bitmap_cache 9 INODE_TYPE_FILE a inum c'" using s by auto
  then have "ic_inodes bitmap_cache a \<noteq> None" by (auto simp: allocated_inode_def)
  then have a0: "a = 0" by (simp add: i(1) split: if_splits)
  have "unat inum = 4"
  proof (rule ccontr)
    assume "unat inum \<noteq> 4"
    then consider "unat inum < 4" | "4 < unat inum" by linarith
    then show False using a(2) bitmap_cache_bits by cases (auto simp: allocated_inode_def)
  qed
  then have "inum = 4" by (simp add: word_unat_eq_iff)
  then have "disk_node c' 4 = new_node 9 INODE_TYPE_FILE" "ibits c' 4" "node_of c' 3 = node_of bitmap_cache 3"
    using a(2) t by (simp_all add: allocated_inode_def)
  moreover have "node_of bitmap_cache 3 = zero_disk_inode\<lparr>di_size := 77\<rparr>"
    using same_inodes(2) [OF bitmap_cache_same, of 3] node_of_cached [OF dirty_cache_shape, of 0 changed_inode] by simp
  ultimately show ?thesis using g a(1) a0 by simp
qed

text \<open>\<open>inode_free\<close> of a file of at most twelve blocks releases its data blocks and its bit in the
  bitmap, in memory and on the device, and drops the caller's reference; no other inode changes.\<close>
theorem inode_free_correct:
  assumes "iwf c" "ilayout c" "ic_inodes c a = Some im" "im_valid im" "unat (im_inum im) < itotal c"
    and "tree_at c a" "fsize c a \<le> 49152"
  shows "\<exists>c'. inode_free c a = Some (0, c') \<and> freed_inode c a im c'"
  by (rule inode_free_spec [OF assms])

theorem inode_free_correct_witness:
  "\<exists>c'. inode_free bitmap_cache 0 = Some (0, c') \<and> \<not> ibits c' 3 \<and> ibits c' 2 \<and> ic_used c' = {}"
proof -
  have i: "ic_inodes bitmap_cache = [0 \<mapsto> changed_inode]" "itotal bitmap_cache = 64" "ic_used bitmap_cache = {}"
    by (simp_all add: bitmap_cache_def dirty_cache_def one_entry_def ic_used_def)
  have "nodes (im_disk changed_inode) v n = 0" for v n
  proof -
    have "di_direct zero_disk_inode = 0 # replicate 11 0" by (simp add: zero_disk_inode_def numeral_eq_Suc)
    then have "nodes (zero_disk_inode\<lparr>di_size := 77\<rparr>) v n = 0"
      by (subst single_nodes [of _ 0]) (simp_all add: zero_disk_inode_def)
    then show ?thesis by simp
  qed
  then have "tree_at bitmap_cache 0"
    using i iwfD(1) [OF bitmap_cache_iwf] by (simp add: tree_at_def tree_ok_def ic_view_length zero_disk_inode_def)
  moreover have "fsize bitmap_cache 0 \<le> 49152" using i by (simp add: fsize_def)
  ultimately obtain c' where c': "inode_free bitmap_cache 0 = Some (0, c')" "freed_inode bitmap_cache 0 changed_inode c'"
    using inode_free_correct [OF bitmap_cache_iwf bitmap_cache_layout, of 0 changed_inode] i by auto
  then show ?thesis using bitmap_cache_bits(1) [of 2] i(3) by (auto simp: freed_inode_def)
qed

end
