(* ===== verification/Dir_Ops.thy ===== *)
theory Dir_Ops
  imports Dir_Spec
begin

text \<open>
  The functions of \<open>src/directory.c\<close> on a directory of one block, seen as a list of records and as a map
  from names to inode numbers.
\<close>

section \<open>The abstract directory\<close>

definition dir_at :: "inode_cache \<Rightarrow> addr \<Rightarrow> entry list \<Rightarrow> bool" where
  "dir_at c a es \<longleftrightarrow> dir_ok c a \<and> es \<noteq> [] \<and> entries_from (block_at c a) (fsize c a) 0 es"

definition dmap :: "entry list \<Rightarrow> string \<Rightarrow> inode_t option" where
  "dmap es name = map_option en_inum (find (ematch name) es)"

definition good_name :: "string \<Rightarrow> bool" where
  "good_name name \<longleftrightarrow> 0 < length name \<and> length name \<le> MAX_FILENAME \<and> CHR 0x00 \<notin> set name"

lemma dir_at_quiet: "dir_at c a es \<Longrightarrow> dir_quiet c a c' \<Longrightarrow> dir_at c' a es"
  by (simp add: dir_at_def dir_quiet_def dir_step_def)

lemma dmap_simps [simp]:
  "dmap [] name = None" "dmap (e # es) name = (if ematch name e then Some (en_inum e) else dmap es name)"
  by (simp_all add: dmap_def)

lemma dmap_append: "dmap (es @ fs) name = (case dmap es name of None \<Rightarrow> dmap fs name | Some i \<Rightarrow> Some i)"
  by (induction es) auto

lemma dmap_None: "dmap es name = None \<longleftrightarrow> (\<forall>e \<in> set es. \<not> ematch name e)"
  by (induction es) auto

lemma dir_at_bytes:
  assumes "dir_at c a es"
  shows "entries_from (file_bytes c a) (fsize c a) 0 es" "file_bytes c a = take (fsize c a) (block_at c a)"
    "length (block_at c a) = 4096" "fsize c a \<le> 4096" "dir_ok c a" "entries_from (block_at c a) (fsize c a) 0 es"
proof -
  from assms show d: "dir_ok c a" "entries_from (block_at c a) (fsize c a) 0 es" by (auto simp: dir_at_def)
  from d(1) have im: "ic_ok c" "fsize c a \<le> 4096" "nodes_at c a (NB 0) \<noteq> 0" by (auto elim: dir_okE)
  then show l: "length (block_at c a) = 4096" "fsize c a \<le> 4096" using ic_view_length by (simp_all add: block_at_def)
  show b: "file_bytes c a = take (fsize c a) (block_at c a)" by (rule file_bytes_block [OF im(3,2,1)])
  show "entries_from (file_bytes c a) (fsize c a) 0 es"
    unfolding b by (rule entries_from_take [OF d(2)]) (use l in simp)
qed

lemma length_file_bytes [simp]: "length (file_bytes c a) = fsize c a"
  by (simp add: file_bytes_def)

text \<open>The loops over blocks read the one block first and stop behind it.\<close>

lemma read_first_block:
  assumes "dir_ok c a"
  shows "\<exists>c1. inode_read now c a 0 4096 = Some (Inr (file_bytes c a), c1) \<and> dir_quiet c a c1"
proof -
  from assms obtain im where im: "ic_ok c" "tree_at c a" "fsize c a \<le> 4096" by (rule dir_okE)
  from inode_read_bytes [OF im(1,2), of 0 4096 now] im(3) obtain c1 where
    "inode_read now c a 0 4096 = Some (Inr (file_bytes c a), c1)" "reads c a c1" by auto
  then show ?thesis using reads_quiet [OF assms] by blast
qed

lemma first_block:
  assumes "dir_at c a es"
  obtains im where "ic_inodes c a = Some im" "0 < di_size (im_disk im)" "\<not> 4096 < di_size (im_disk im)"
    "di_type (im_disk im) = INODE_TYPE_DIR" "file_bytes c a \<noteq> []"
proof -
  from assms have d: "dir_ok c a" "es \<noteq> []" "entries_from (block_at c a) (fsize c a) 0 es" by (auto simp: dir_at_def)
  from d(1) obtain im where im: "ic_inodes c a = Some im" "fsize c a \<le> 4096" "di_type (im_disk im) = INODE_TYPE_DIR"
    "fsize c a = unat (di_size (im_disk im))" by (rule dir_okE)
  have "0 < fsize c a" using d(2,3) by (cases es) auto
  then show ?thesis using im that by (simp add: word_less_nat_alt length_0_conv [symmetric] del: length_0_conv)
qed

lemma refill_nil [simp]: "refill data [] = data"
  by (simp add: refill_def)

section \<open>Lookup\<close>

lemma dir_lookup_block:
  assumes d: "dir_ok c a" and n: "good_name name" and nz: "0 < fsize c a"
    and b: "lookup_block (file_bytes c a) (fsize c a) name 0 = Some r"
  shows "\<exists>c'. dir_lookup now c a name =
      Some (case r of Some i \<Rightarrow> Inr i | None \<Rightarrow> Inl MODERNFS_ENOENT, c') \<and> dir_quiet c a c'"
proof -
  from d nz obtain im where im: "ic_inodes c a = Some im" "0 < di_size (im_disk im)" "di_type (im_disk im) = INODE_TYPE_DIR"
    by (auto elim: dir_okE simp: word_less_nat_alt)
  from read_first_block [OF d] obtain c1 where
    c1: "inode_read now c a 0 4096 = Some (Inr (file_bytes c a), c1)" "dir_quiet c a c1" by blast
  have "dir_ok c1 a" using c1(2) by (simp add: dir_quiet_def dir_step_def)
  then obtain im1 where im1: "ic_inodes c1 a = Some im1" "\<not> 4096 < di_size (im_disk im1)"
    by (auto elim: dir_okE simp: word_less_nat_alt)
  have ne: "file_bytes c a \<noteq> []" using nz by (simp add: length_0_conv [symmetric] del: length_0_conv)
  have "lookup_from now c1 a name (0 + 4096) (file_bytes c a) = Some (Inl MODERNFS_ENOENT, c1)"
    using im1 by (subst lookup_from.simps) simp
  then have "lookup_from now c a name 0 [] =
      Some (case r of Some i \<Rightarrow> Inr i | None \<Rightarrow> Inl MODERNFS_ENOENT, c1)"
    using im c1(1) b ne by (subst lookup_from.simps) (simp split: option.splits)
  then show ?thesis using im(1,3) n c1(2) by (auto simp: dir_lookup_def good_name_def)
qed

lemma dir_lookup_spec:
  assumes d: "dir_at c a es" and n: "good_name name"
  shows "\<exists>c'. dir_lookup now c a name =
      Some (case dmap es name of Some i \<Rightarrow> Inr i | None \<Rightarrow> Inl MODERNFS_ENOENT, c') \<and> dir_quiet c a c'"
proof -
  note B = dir_at_bytes [OF d]
  have "0 < fsize c a" using d B(6) by (cases es) (auto simp: dir_at_def)
  then show ?thesis
    using dir_lookup_block [OF B(5) n, of "dmap es name"] lookup_block_entries [OF B(1,4)] by (simp add: dmap_def)
qed

text \<open>A directory whose scan ends at a record of length zero.\<close>

lemma dir_lookup_cut:
  assumes d: "dir_ok c a" and n: "good_name name" and r: "records_from (block_at c a) (fsize c a) 0 es"
    and z: "rec_len_at (block_at c a) (span es) = Some 0" "span es + 6 \<le> fsize c a"
  shows "\<exists>c'. dir_lookup now c a name =
      Some (case dmap es name of Some i \<Rightarrow> Inr i | None \<Rightarrow> Inl MODERNFS_ENOENT, c') \<and> dir_quiet c a c'"
proof -
  from d have im: "ic_ok c" "fsize c a \<le> 4096" "nodes_at c a (NB 0) \<noteq> 0" by (auto elim: dir_okE)
  have b: "file_bytes c a = take (fsize c a) (block_at c a)" by (rule file_bytes_block [OF im(3,2,1)])
  have l: "length (block_at c a) = 4096" using ic_view_length [OF im(1)] by (simp add: block_at_def)
  have sl: "slice k 2 (take (fsize c a) (block_at c a)) = slice k 2 (block_at c a)" if "k + 2 \<le> fsize c a" for k
    using that by (simp add: slice_def drop_take)
  have R: "records_from (file_bytes c a) (fsize c a) 0 es"
    unfolding b by (rule records_from_take [OF r]) (use im(2) l in simp)
  have Z: "rec_len_at (file_bytes c a) (span es) = Some 0"
    using z im(2) l sl [of "span es + 4"] by (simp add: b rec_len_at_def buf_read_def)
  have "lookup_block (file_bytes c a) (fsize c a) name 0 = Some (dmap es name)"
    using lookup_block_prefix [OF R im(2), of name] lookup_block_zero [OF Z]
    by (simp add: dmap_def split: option.splits)
  then show ?thesis using dir_lookup_block [OF d n] z(2) by simp
qed

section \<open>Adding\<close>

definition needed :: "string \<Rightarrow> nat" where
  "needed name = (15 + length name) div 8 * 8"

definition new_record :: "inode_t \<Rightarrow> string \<Rightarrow> byte \<Rightarrow> dirent" where
  "new_record inum name ft = \<lparr>de_inum = inum, de_rec_len = dirent_size (of_nat (length name)),
     de_name_len = of_nat (length name), de_file_type = ft,
     de_name = name_bytes name @ replicate (MAX_FILENAME - length name) 0\<rparr>"

lemma make_new_record: "good_name name \<Longrightarrow> dir_make_entry inum name ft = Inr (new_record inum name ft)"
  by (auto simp: dir_make_entry_def new_record_def good_name_def)

lemma length_new_record:
  "good_name name \<Longrightarrow> length (encode_dirent ((new_record inum name ft)\<lparr>de_rec_len := n\<rparr>)) = sizeof_dirent"
  by (intro length_encode_dirent) (simp add: new_record_def good_name_def)

lemma unat_new_record: "good_name name \<Longrightarrow> unat (de_rec_len (new_record inum name ft)) = needed name"
  by (simp add: new_record_def good_name_def needed_def unat_dirent_size)

lemma dirent_of_take:
  assumes "pos + sizeof_dirent \<le> n" "x + length bs \<le> n" "n \<le> length v"
  shows "dirent_at (splice x bs (take n v)) pos = dirent_at (splice x bs v) pos"
proof -
  have "splice x bs (take n v) = take n (splice x bs v)"
    using assms(2,3) by (intro nth_equalityI) (auto simp: length_splice nth_splice)
  then show ?thesis using assms(1) by (simp add: dirent_at_def drop_take)
qed

text \<open>The two writes, wherever they land.\<close>

lemma dir_insert_at_spec:
  assumes d: "dir_at c a (es @ e # fs)" and n: "good_name name" and room: "needed name \<le> efree e"
    and fit: "span es + used e + sizeof_dirent \<le> BLOCK_SIZE"
  shows "\<exists>c'. dir_insert_at now c a (file_bytes c a) 0 (span es) (new_record inum name ft) = Some (0, c') \<and>
     dir_step c a c' \<and> fsize c' a = max (fsize c a) (span es + used e + sizeof_dirent) \<and>
     block_at c' a = splice (span es + used e)
       (encode_dirent ((new_record inum name ft)\<lparr>de_rec_len := of_nat (en_len e - used e)\<rparr>))
       (if en_inum e = 0 then block_at c a
        else splice (span es + 4) (le_bytes 2 (of_nat (esize e) :: u16)) (block_at c a))"
proof -
  let ?p = "span es" and ?r = "new_record inum name ft"
  note B = dir_at_bytes [OF d]
  from entries_from_append [OF B(1)] have "entries_from (file_bytes c a) (fsize c a) ?p (e # fs)" by simp
  then have E: "?p + 263 \<le> fsize c a" "entry_ok e" "entry_at (file_bytes c a) ?p e" "?p + en_len e \<le> 4096" by simp_all
  have u: "used e \<le> en_len e" by (rule used_le [OF E(2)])
  have f: "rec_len_at (file_bytes c a) ?p = Some (of_nat (en_len e))"
    "name_len_at (file_bytes c a) ?p = Some (of_nat (length (en_name e)))"
    "inum_at (file_bytes c a) ?p = Some (en_inum e)" "free_space_at (file_bytes c a) ?p = Some (of_nat (efree e))"
    using E(3) free_space_entry [OF E(3,2)] E(4) by (simp_all add: entry_at_def)
  have sz: "unat (dirent_size (of_nat (length (en_name e)))) = esize e"
    using E(2) by (simp add: entry_ok_def unat_dirent_size esize_def)
  then have ds: "dirent_size (of_nat (length (en_name e))) = of_nat (esize e)" by (metis of_nat_unat ucast_id)
  show ?thesis
  proof (cases "en_inum e = 0")
    case True
    from dir_write_spec [OF B(5), of ?p "encode_dirent (?r\<lparr>de_rec_len := of_nat (en_len e)\<rparr>)" "of_nat ?p" now]
      fit length_new_record [OF n] True
    show ?thesis using f True by (auto simp: dir_insert_at_def used_def efree_used)
  next
    case False
    let ?bs = "le_bytes 2 (of_nat (esize e) :: u16)"
    have i1: "?p + 4 + length ?bs \<le> fsize c a" using E(1) by simp
    have w1: "buf_write (file_bytes c a) (?p + 4) ?bs = Some (splice (?p + 4) ?bs (file_bytes c a))"
      using i1 by (simp add: buf_write_def)
    let ?d = "dirent_at (splice (?p + 4) ?bs (file_bytes c a)) ?p"
    have ld: "length ?d = 263" using E(1) length_splice [of "?p + 4" ?bs "file_bytes c a"] i1 by (simp add: dirent_at_def)
    have same: "?d = dirent_at (splice (?p + 4) ?bs (block_at c a)) ?p"
      unfolding B(2) by (rule dirent_of_take) (use E(1) B(3,4) in simp_all)
    have wb: "splice ?p ?d (block_at c a) = splice (?p + 4) ?bs (block_at c a)"
      unfolding same using write_back [of ?p "block_at c a" "?p + 4" ?bs] B(3,4) E(1) by simp
    from dir_write_spec [OF B(5) _ ld, of ?p "of_nat ?p" now] E(1) B(4) wb obtain c1 where
      c1: "dir_write now c a ?d (of_nat ?p) = Some (0, c1)" "dir_step c a c1"
        "block_at c1 a = splice (?p + 4) ?bs (block_at c a)" "fsize c1 a = fsize c a" by (auto simp: max_def)
    have ok1: "dir_ok c1 a" using c1(2) by (simp add: dir_step_def)
    have us: "used e = esize e" using False by (simp add: used_def)
    have len: "(of_nat (en_len e) - of_nat (esize e) :: u16) = of_nat (en_len e - used e)"
      using u us by (simp add: of_nat_diff)
    from dir_write_spec [OF ok1 fit length_new_record [OF n, of "of_nat (en_len e - used e)" inum ft],
        of "of_nat (?p + used e)" now] obtain c2 where
      c2: "dir_write now c1 a (encode_dirent (?r\<lparr>de_rec_len := of_nat (en_len e - used e)\<rparr>)) (of_nat (?p + used e)) = Some (0, c2)"
        "dir_step c1 a c2" "block_at c2 a = splice (?p + used e)
          (encode_dirent (?r\<lparr>de_rec_len := of_nat (en_len e - used e)\<rparr>)) (block_at c1 a)"
        "fsize c2 a = max (fsize c1 a) (?p + used e + 263)" by auto
    have "dir_insert_at now c a (file_bytes c a) 0 ?p ?r = Some (0, c2)"
      using f False w1 c1(1) c2(1) sz ds len us by (simp add: dir_insert_at_def Let_def)
    then show ?thesis using c1 c2 False dir_step_trans [OF c1(2) c2(2)] by simp
  qed
qed

definition room :: "string \<Rightarrow> entry \<Rightarrow> bool" where
  "room name e \<longleftrightarrow> needed name \<le> efree e"

definition dir_inserted ::
  "inode_cache \<Rightarrow> addr \<Rightarrow> entry list \<Rightarrow> entry \<Rightarrow> inode_t \<Rightarrow> string \<Rightarrow> inode_cache \<Rightarrow> bool" where
  "dir_inserted c a es e inum name c' \<longleftrightarrow>
     dir_step c a c' \<and> fsize c' a = max (fsize c a) (span es + used e + sizeof_dirent) \<and>
     (\<exists>ft. block_at c' a = splice (span es + used e)
        (encode_dirent ((new_record inum name ft)\<lparr>de_rec_len := of_nat (en_len e - used e)\<rparr>))
        (if en_inum e = 0 then block_at c a
         else splice (span es + 4) (le_bytes 2 (of_nat (esize e) :: u16)) (block_at c a)))"

text \<open>
  A new name goes into the first record with room for it; \<open>MODERNFS_ERROR\<close> means that the inode to
  enter could not be looked at because every cache entry is referenced.
\<close>

lemma dir_add_spec:
  assumes d: "dir_at c a (es @ e # fs)" and n: "good_name name" and new: "dmap (es @ e # fs) name = None"
    and t: "table_ok c inum" and first: "\<forall>x \<in> set es. \<not> room name x" "room name e"
    and fit: "span es + used e + sizeof_dirent \<le> BLOCK_SIZE"
  shows "\<exists>r c'. dir_add now c a name inum = Some (r, c') \<and>
     (r = MODERNFS_ERROR \<and> dir_quiet c a c' \<and> all_busy c' inum \<or>
      r = 0 \<and> dir_inserted c a es e inum name c')"
proof -
  from d obtain im where im: "ic_inodes c a = Some im" "di_type (im_disk im) = INODE_TYPE_DIR" by (rule first_block)
  from dir_lookup_spec [OF d n, of now] new obtain c1 where
    c1: "dir_lookup now c a name = Some (Inl MODERNFS_ENOENT, c1)" "dir_quiet c a c1" by auto
  have d1: "dir_at c1 a (es @ e # fs)" by (rule dir_at_quiet [OF d c1(2)])
  have t1: "table_ok c1 inum"
    using t c1(2) istatic_views(3) [of c c1] by (simp add: dir_quiet_def dir_step_def)
  from get_put_quiet [OF dir_at_bytes(5) [OF d1] t1] obtain r c2 where
    g: "inode_get c1 inum = Some (r, c2)" and
    gr: "case r of None \<Rightarrow> c2 = c1 \<and> all_busy c1 inum
      | Some x \<Rightarrow> \<exists>im c3. ic_inodes c2 x = Some im \<and> im_disk im = node_of c1 inum \<and> inode_put c2 x = Some c3 \<and> dir_quiet c1 a c3"
    by blast
  show ?thesis
  proof (cases r)
    case None
    then have "dir_add now c a name inum = Some (MODERNFS_ERROR, c2)"
      using im n c1(1) g by (auto simp: dir_add_def good_name_def)
    then show ?thesis using None gr c1(2) by auto
  next
    case (Some x)
    with gr obtain xm c3 where x: "ic_inodes c2 x = Some xm" "inode_put c2 x = Some c3" "dir_quiet c1 a c3" by auto
    define ft where "ft = di_type (im_disk xm)"
    have d3: "dir_at c3 a (es @ e # fs)" by (rule dir_at_quiet [OF d1 x(3)])
    note B3 = dir_at_bytes [OF d3]
    from d3 obtain im3 where im3: "ic_inodes c3 a = Some im3" "0 < di_size (im_disk im3)" "file_bytes c3 a \<noteq> []"
      by (rule first_block)
    from read_first_block [OF B3(5), of now] obtain c4 where
      c4: "inode_read now c3 a 0 4096 = Some (Inr (file_bytes c3 a), c4)" "dir_quiet c3 a c4" by blast
    have d4: "dir_at c4 a (es @ e # fs)" by (rule dir_at_quiet [OF d3 c4(2)])
    have fb: "file_bytes c4 a = file_bytes c3 a"
      using dir_at_bytes(2) [OF d4] B3(2) c4(2) by (simp add: dir_quiet_def)
    have pos: "find_space (file_bytes c3 a) (fsize c3 a) (de_rec_len (new_record inum name ft)) 0 = Some (Some (span es))"
      using find_space_entries [OF B3(1,4)] first first_pos_split [of es "room name" e 0 fs]
      by (simp add: unat_new_record [OF n] room_def [abs_def])
    have q: "dir_quiet c a c4" using c1(2) x(3) c4(2) by (blast intro: dir_quiet_trans)
    from dir_insert_at_spec [OF d4 n _ fit, of now inum ft] first(2) obtain c5 where
      c5: "dir_insert_at now c4 a (file_bytes c4 a) 0 (span es) (new_record inum name ft) = Some (0, c5)"
        "dir_step c4 a c5" "fsize c5 a = max (fsize c4 a) (span es + used e + sizeof_dirent)"
        "block_at c5 a = splice (span es + used e)
           (encode_dirent ((new_record inum name ft)\<lparr>de_rec_len := of_nat (en_len e - used e)\<rparr>))
           (if en_inum e = 0 then block_at c4 a
            else splice (span es + 4) (le_bytes 2 (of_nat (esize e) :: u16)) (block_at c4 a))"
      by (auto simp: room_def)
    have "add_from now c3 a (new_record inum name ft) 0 [] = Some (0, c5)"
      using im3 c4(1) pos c5(1) fb by (subst add_from.simps) simp
    then have "dir_add now c a name inum = Some (0, c5)"
      using im n c1(1) g Some x(1,2) make_new_record [OF n, of inum ft]
      by (auto simp: dir_add_def good_name_def ft_def)
    moreover have "dir_step c a c5" using q c5(2) by (auto simp: dir_quiet_def intro: dir_step_trans)
    ultimately show ?thesis using c5(3,4) q by (auto simp: dir_quiet_def dir_inserted_def)
  qed
qed

text \<open>With room for a whole \<open>dirent_t\<close> the record is split and nothing else changes.\<close>

definition entry_of :: "inode_t \<Rightarrow> string \<Rightarrow> entry" where
  "entry_of inum name = \<lparr>en_inum = inum, en_name = name, en_len = 0\<rparr>"

lemma entry_of_simps [simp]:
  "en_inum (entry_of inum name) = inum" "en_name (entry_of inum name) = name" "esize (entry_of inum name) = needed name"
  by (simp_all add: entry_of_def esize_def needed_def)

lemma dmap_split:
  assumes "dmap (es @ e # fs) name = None" "inum \<noteq> 0"
  shows "dmap (es @ split_entry e (entry_of inum name) @ fs) = (dmap (es @ e # fs))(name \<mapsto> inum)"
proof
  fix x
  have m: "ematch x (e\<lparr>en_len := n\<rparr>) = ematch x e" for n by (simp add: ematch_def)
  have f: "ematch x ((entry_of inum name)\<lparr>en_len := n\<rparr>) \<longleftrightarrow> x = name" for n
    using assms(2) by (auto simp: ematch_def)
  have e0: "en_inum e = 0 \<Longrightarrow> \<not> ematch x e" by (simp add: ematch_def)
  show "dmap (es @ split_entry e (entry_of inum name) @ fs) x = ((dmap (es @ e # fs))(name \<mapsto> inum)) x"
    using assms m f e0 by (auto simp: split_entry_def dmap_append split: option.splits if_splits)
qed

lemma room_size: "room name e \<Longrightarrow> entry_ok e \<Longrightarrow> used e + needed name \<le> en_len e"
  using used_le [of e] by (auto simp: room_def efree_used needed_def)

lemma dir_add_inserts:
  assumes d: "dir_at c a (es @ e # fs)" and n: "good_name name" and new: "dmap (es @ e # fs) name = None"
    and t: "table_ok c inum" and first: "\<forall>x \<in> set es. \<not> room name x" "room name e"
    and full: "used e + sizeof_dirent \<le> en_len e"
  shows "\<exists>r c'. dir_add now c a name inum = Some (r, c') \<and>
     (r = MODERNFS_ERROR \<and> dir_quiet c a c' \<and> all_busy c' inum \<or>
      r = 0 \<and> dir_step c a c' \<and> dir_at c' a (es @ split_entry e (entry_of inum name) @ fs))"
proof -
  note B = dir_at_bytes [OF d]
  from entries_from_append [OF B(6)] have E: "entry_ok e" "span es + en_len e \<le> 4096" by simp_all
  have fit: "span es + used e + sizeof_dirent \<le> BLOCK_SIZE" using E(2) full by simp
  have "dir_at c' a (es @ split_entry e (entry_of inum name) @ fs)" if i: "dir_inserted c a es e inum name c'" for c'
  proof -
    from i obtain ft where b: "block_at c' a = splice (span es + used e)
        (encode_dirent ((new_record inum name ft)\<lparr>de_rec_len := of_nat (en_len e - used e)\<rparr>))
        (if en_inum e = 0 then block_at c a
         else splice (span es + 4) (le_bytes 2 (of_nat (esize e) :: u16)) (block_at c a))"
      and f: "fsize c' a = max (fsize c a) (span es + used e + sizeof_dirent)" "dir_step c a c'"
      unfolding dir_inserted_def by blast
    have "dir_make_entry (en_inum (entry_of inum name)) (en_name (entry_of inum name)) ft = Inr (new_record inum name ft)"
      using make_new_record [OF n] by simp
    from entries_add [OF B(6) this _ full _ B(3)] n [unfolded good_name_def] room_size [OF first(2) E(1)]
    have "entries_from (block_at c' a) (fsize c' a) 0 (es @ split_entry e (entry_of inum name) @ fs)"
      unfolding b f(1) by simp
    then show ?thesis using f(2) by (simp add: dir_at_def dir_step_def split_entry_def)
  qed
  with dir_add_spec [OF d n new t first fit] show ?thesis unfolding dir_inserted_def by blast
qed

text \<open>With less room the header of the next record is overwritten, and the directory ends there.\<close>

lemma dir_inserted_cuts:
  assumes d: "dir_at c a (es @ e # fs)" and n: "good_name name" and r: "room name e"
    and fit: "span es + used e + sizeof_dirent \<le> BLOCK_SIZE" and clobber: "en_len e + 6 \<le> used e + sizeof_dirent"
    and i: "dir_inserted c a es e inum name c'" and x: "good_name x"
  shows "\<exists>c''. dir_lookup now c' a x = Some (case dmap (es @ split_entry e (entry_of inum name)) x of
      Some j \<Rightarrow> Inr j | None \<Rightarrow> Inl MODERNFS_ENOENT, c'')"
proof -
  note B = dir_at_bytes [OF d]
  have R: "records_from (block_at c a) (fsize c a) 0 (es @ [e])" and E: "entry_ok e"
    using B(6) by (simp_all add: entries_records records_from_append)
  from i obtain ft where b: "block_at c' a = splice (span es + used e)
      (encode_dirent ((new_record inum name ft)\<lparr>de_rec_len := of_nat (en_len e - used e)\<rparr>))
      (if en_inum e = 0 then block_at c a
       else splice (span es + 4) (le_bytes 2 (of_nat (esize e) :: u16)) (block_at c a))"
    and f: "fsize c' a = max (fsize c a) (span es + used e + sizeof_dirent)" "dir_step c a c'"
    unfolding dir_inserted_def by blast
  have m: "dir_make_entry (en_inum (entry_of inum name)) (en_name (entry_of inum name)) ft = Inr (new_record inum name ft)"
    and nul: "CHR 0x00 \<notin> set (en_name (entry_of inum name))"
    using make_new_record [OF n] n by (simp_all add: good_name_def)
  have sz: "used e + esize (entry_of inum name) \<le> en_len e" using room_size [OF r E] by simp
  have "records_from (block_at c' a) (fsize c' a) 0 (es @ split_entry e (entry_of inum name))"
    unfolding b f(1) by (rule records_add(1) [OF R m nul fit sz B(3)])
  moreover have "rec_len_at (block_at c' a) (span (es @ split_entry e (entry_of inum name))) = Some 0"
    unfolding b using records_add_clobbers [OF R m nul fit sz clobber B(3)] span_split [OF E] by simp
  moreover have "span (es @ split_entry e (entry_of inum name)) + 6 \<le> fsize c' a"
    using f(1) clobber span_split [OF E] by simp
  moreover have "dir_ok c' a" using f(2) by (simp add: dir_step_def)
  ultimately show ?thesis using dir_lookup_cut [OF _ x] by blast
qed

section \<open>Removing\<close>

text \<open>The record is merged into the live one before it, or cleared when it is the first.\<close>

definition without :: "entry list \<Rightarrow> entry \<Rightarrow> entry list" where
  "without es e =
     (if es = [] then [e\<lparr>en_inum := 0\<rparr>]
      else butlast es @ [(last es)\<lparr>en_len := en_len (last es) + en_len e\<rparr>])"

definition unique_names :: "entry list \<Rightarrow> bool" where
  "unique_names es \<longleftrightarrow> distinct (map en_name (filter (\<lambda>e. en_inum e \<noteq> 0) es))"

lemma dmap_without:
  assumes "unique_names (es @ e # fs)" "ematch name e"
  shows "dmap (without es e @ fs) = (dmap (es @ e # fs))(name := None)"
proof
  fix x
  have l: "ematch x (p\<lparr>en_len := n\<rparr>) = ematch x p" for p n by (simp add: ematch_def)
  have u: "\<not> ematch name f" if "f \<in> set es \<union> set fs" for f
  proof
    assume f: "ematch name f"
    then have "en_name f \<in> en_name ` {x \<in> set es \<union> set fs. en_inum x \<noteq> 0}" using that by (auto simp: ematch_def)
    moreover have "en_name f = en_name e" "en_inum e \<noteq> 0" using f assms(2) by (simp_all add: ematch_def)
    ultimately show False using assms(1) by (auto simp: unique_names_def)
  qed
  have "dmap (without es e @ fs) x = dmap (es @ fs) x"
  proof (cases es rule: rev_cases)
    case Nil
    then show ?thesis by (simp add: without_def ematch_def)
  next
    case (snoc ys p)
    then show ?thesis by (simp add: without_def dmap_append l split: option.splits)
  qed
  also have "\<dots> = ((dmap (es @ e # fs))(name := None)) x"
  proof (cases "x = name")
    case True
    then have "dmap (es @ fs) x = None" using u by (auto simp: dmap_None)
    then show ?thesis using True by simp
  next
    case False
    then show ?thesis using assms(2) by (simp add: dmap_append ematch_def split: option.splits)
  qed
  finally show "dmap (without es e @ fs) x = ((dmap (es @ e # fs))(name := None)) x" .
qed

lemma unique_without: "unique_names (es @ e # fs) \<Longrightarrow> unique_names (without es e @ fs)"
  by (cases es rule: rev_cases) (auto simp: unique_names_def without_def split: if_splits)

lemma write_struct:
  assumes d: "dir_ok c a" and p: "pos + sizeof_dirent \<le> fsize c a" and x: "pos \<le> x" "x + length bs \<le> pos + sizeof_dirent"
  shows "\<exists>c'. dir_write now c a (dirent_at (splice x bs (file_bytes c a)) pos) (of_nat pos) = Some (0, c') \<and>
     dir_step c a c' \<and> fsize c' a = fsize c a \<and> block_at c' a = splice x bs (block_at c a)"
proof -
  from d have im: "ic_ok c" "fsize c a \<le> 4096" "nodes_at c a (NB 0) \<noteq> 0" by (auto elim: dir_okE)
  have b: "file_bytes c a = take (fsize c a) (block_at c a)" by (rule file_bytes_block [OF im(3,2,1)])
  have l: "length (block_at c a) = 4096" using ic_view_length [OF im(1)] by (simp add: block_at_def)
  have same: "dirent_at (splice x bs (file_bytes c a)) pos = dirent_at (splice x bs (block_at c a)) pos"
    unfolding b by (rule dirent_of_take [OF p]) (use p x l im(2) in simp_all)
  have ls: "length (splice x bs (block_at c a)) = 4096" using length_splice [of x bs "block_at c a"] l x p im(2) by simp
  then have "length (dirent_at (splice x bs (block_at c a)) pos) = 263" using p im(2) by (simp add: dirent_at_def)
  from dir_write_spec [OF d _ this refl, of pos now] p im(2) write_back [of pos "block_at c a" x bs] l x
  show ?thesis unfolding same by (auto simp: max_def)
qed

lemma dir_remove_spec:
  assumes d: "dir_at c a (es @ e # fs)" and n: "good_name name" and m: "ematch name e"
    and first: "\<forall>x \<in> set es. \<not> ematch name x" and live: "es \<noteq> [] \<longrightarrow> en_inum (last es) \<noteq> 0"
  shows "\<exists>c'. dir_remove now c a name = Some (0, c') \<and> dir_step c a c' \<and> dir_at c' a (without es e @ fs)"
proof -
  from d obtain im where im: "ic_inodes c a = Some im" "0 < di_size (im_disk im)" "di_type (im_disk im) = INODE_TYPE_DIR"
    "file_bytes c a \<noteq> []" by (rule first_block)
  note B = dir_at_bytes [OF d]
  from read_first_block [OF B(5), of now] obtain c1 where
    c1: "inode_read now c a 0 4096 = Some (Inr (file_bytes c a), c1)" "dir_quiet c a c1" by blast
  have d1: "dir_at c1 a (es @ e # fs)" by (rule dir_at_quiet [OF d c1(2)])
  note B1 = dir_at_bytes [OF d1]
  have fb: "file_bytes c1 a = file_bytes c a" using B(2) B1(2) c1(2) by (simp add: dir_quiet_def)
  have st: "dir_step c a c1" using c1(2) by (simp add: dir_quiet_def)
  have run: "dir_remove now c a name = dir_remove_at now c1 a (file_bytes c1 a) 0 prev pos"
    if "prev_pos name None 0 (es @ e # fs) = Some (prev, pos)" for prev pos
  proof -
    have "find_entry (file_bytes c a) (fsize c a) name None 0 = Some (Some (prev, pos))"
      using find_entry_entries [OF B(1,4), of name None] that by simp
    then have "remove_from now c a name 0 [] = dir_remove_at now c1 a (file_bytes c1 a) 0 prev pos"
      using im c1(1) fb by (subst remove_from.simps) simp
    then show ?thesis using im(1,3) n by (auto simp: dir_remove_def good_name_def)
  qed
  show ?thesis
  proof (cases es rule: rev_cases)
    case Nil
    let ?bs = "le_bytes 4 (0 :: inode_t)"
    from B1(6) Nil have E: "263 \<le> fsize c1 a" by simp
    from write_struct [OF B1(5), of 0 0 ?bs now] E obtain c2 where
      c2: "dir_write now c1 a (dirent_at (splice 0 ?bs (file_bytes c1 a)) 0) (of_nat 0) = Some (0, c2)" "dir_step c1 a c2"
        "fsize c2 a = fsize c1 a" "block_at c2 a = splice 0 ?bs (block_at c1 a)" by auto
    have "dir_remove now c a name = Some (0, c2)"
      using run [of None 0] Nil m c2(1) E by (simp add: dir_remove_at_def buf_write_def)
    moreover have "dir_at c2 a (without es e @ fs)"
      using entries_clear [of "block_at c1 a" "fsize c1 a" "[]" e fs] B1(6) c2 Nil
      by (simp add: dir_at_def dir_step_def without_def)
    ultimately show ?thesis using dir_step_trans [OF st c2(2)] by blast
  next
    case (snoc ys p)
    let ?x = "span ys + 4" and ?bs = "le_bytes 2 (of_nat (en_len p + en_len e) :: u16)"
    from B1(1) snoc entries_from_append [of "file_bytes c1 a" "fsize c1 a" 0 ys "p # e # fs"]
    have E: "span ys + 263 \<le> fsize c1 a" "entry_at (file_bytes c1 a) (span ys) p"
      "entry_at (file_bytes c1 a) (span ys + en_len p) e" by simp_all
    have lens: "rec_len_at (file_bytes c1 a) (span ys) = Some (of_nat (en_len p))"
      "rec_len_at (file_bytes c1 a) (span ys + en_len p) = Some (of_nat (en_len e))"
      using E(2,3) by (simp_all add: entry_at_def)
    have pp: "prev_pos name None 0 (es @ e # fs) = Some (Some (span ys), span ys + en_len p)"
      using prev_pos_split(1) [of ys name e p None 0 fs] snoc first live m by simp
    from write_struct [OF B1(5) E(1), of ?x ?bs now] obtain c2 where
      c2: "dir_write now c1 a (dirent_at (splice ?x ?bs (file_bytes c1 a)) (span ys)) (of_nat (span ys)) = Some (0, c2)"
        "dir_step c1 a c2" "fsize c2 a = fsize c1 a" "block_at c2 a = splice ?x ?bs (block_at c1 a)" by auto
    have "dir_remove now c a name = Some (0, c2)"
      using run [OF pp] lens c2(1) E(1) by (simp add: dir_remove_at_def buf_write_def)
    moreover have "dir_at c2 a (without es e @ fs)"
      using entries_merge [of "block_at c1 a" "fsize c1 a" ys p e fs] B1(6) c2 snoc
      by (simp add: dir_at_def dir_step_def without_def)
    ultimately show ?thesis using dir_step_trans [OF st c2(2)] by blast
  qed
qed

lemma dir_remove_missing:
  assumes d: "dir_at c a es" and n: "good_name name" and m: "dmap es name = None"
  shows "\<exists>c'. dir_remove now c a name = Some (MODERNFS_ENOENT, c') \<and> dir_quiet c a c'"
proof -
  from d obtain im where im: "ic_inodes c a = Some im" "0 < di_size (im_disk im)" "di_type (im_disk im) = INODE_TYPE_DIR"
    "file_bytes c a \<noteq> []" by (rule first_block)
  note B = dir_at_bytes [OF d]
  from read_first_block [OF B(5), of now] obtain c1 where
    c1: "inode_read now c a 0 4096 = Some (Inr (file_bytes c a), c1)" "dir_quiet c a c1" by blast
  from first_block [OF dir_at_quiet [OF d c1(2)]] obtain im1 where
    im1: "ic_inodes c1 a = Some im1" "\<not> 4096 < di_size (im_disk im1)" by blast
  have none: "prev_pos name prev pos es = None" for prev pos
    using m by (induction es arbitrary: prev pos) (auto split: if_splits)
  have "remove_from now c1 a name (0 + 4096) (file_bytes c a) = Some (MODERNFS_ENOENT, c1)"
    using im1 by (subst remove_from.simps) simp
  then have "remove_from now c a name 0 [] = Some (MODERNFS_ENOENT, c1)"
    using im c1(1) find_entry_entries [OF B(1,4), of name None] none by (subst remove_from.simps) simp
  then show ?thesis using im(1,3) n c1(2) by (auto simp: dir_remove_def good_name_def)
qed

section \<open>Iterating\<close>

lemma dir_iterate_spec:
  assumes d: "dir_at c a es"
  shows "\<exists>c'. dir_iterate now c a f s = Some (case visit f es s of (r, s) \<Rightarrow>
      (case r of Some ret \<Rightarrow> ret | None \<Rightarrow> MODERNFS_SUCCESS, s, c')) \<and> dir_quiet c a c'"
proof -
  from d obtain im where im: "ic_inodes c a = Some im" "0 < di_size (im_disk im)" "di_type (im_disk im) = INODE_TYPE_DIR"
    "file_bytes c a \<noteq> []" by (rule first_block)
  note B = dir_at_bytes [OF d]
  from read_first_block [OF B(5), of now] obtain c1 where
    c1: "inode_read now c a 0 4096 = Some (Inr (file_bytes c a), c1)" "dir_quiet c a c1" by blast
  from first_block [OF dir_at_quiet [OF d c1(2)]] obtain im1 where
    im1: "ic_inodes c1 a = Some im1" "\<not> 4096 < di_size (im_disk im1)" by blast
  have "iterate_from now c1 a f s' (0 + 4096) (file_bytes c a) = Some (MODERNFS_SUCCESS, s', c1)" for s'
    using im1 by (subst iterate_from.simps) simp
  then have "iterate_from now c a f s 0 [] = Some (case visit f es s of (r, s) \<Rightarrow>
      (case r of Some ret \<Rightarrow> ret | None \<Rightarrow> MODERNFS_SUCCESS, s, c1))"
    using im c1(1) iterate_block_entries [OF B(1,4), of f s]
    by (subst iterate_from.simps) (auto split: prod.splits option.splits)
  then show ?thesis using im(1,3) c1(2) by (auto simp: dir_iterate_def)
qed

text \<open>The live names other than the two every directory has.\<close>

definition proper :: "entry list \<Rightarrow> entry list" where
  "proper es = filter (\<lambda>e. en_inum e \<noteq> 0 \<and> en_name e \<noteq> ''.'' \<and> en_name e \<noteq> ''..'') es"

lemma visit_count: "visit count_entries_callback es n = (None, n + int (length (proper es)))"
  by (induction es arbitrary: n) (auto simp: count_entries_callback_def proper_def)

lemma dir_is_empty_spec:
  assumes d: "dir_at c a es"
  shows "\<exists>c'. dir_is_empty now c a = Some (if proper es = [] then 1 else 0, c') \<and> dir_quiet c a c'"
proof -
  from d obtain im where im: "ic_inodes c a = Some im" "di_type (im_disk im) = INODE_TYPE_DIR" by (rule first_block)
  from dir_iterate_spec [OF d, of now count_entries_callback 0] obtain c' where
    "dir_iterate now c a count_entries_callback 0 = Some (MODERNFS_SUCCESS, int (length (proper es)), c')"
    "dir_quiet c a c'" by (auto simp: visit_count)
  then show ?thesis using im by (auto simp: dir_is_empty_def)
qed

end
