(* ===== verification/Mkfs.thy ===== *)
theory Mkfs
  imports Directory Superblock
begin

text \<open>
  \<open>src/mkfs.c\<close>: formatting an image.  \<open>main\<close> is modelled from the parsed size on; the messages are
  left out.  \<open>now\<close> is \<open>time(NULL)\<close>.
\<close>

section \<open>The image\<close>

text \<open>
  \<open>open\<close> with \<open>O_TRUNC\<close> and \<open>ftruncate\<close> leave a file of zeros; \<open>d\<close> says which of its blocks fail later.
  \<open>None\<close> is the failure of one of the two calls.
\<close>

definition create_disk_image :: "bool \<Rightarrow> disk \<Rightarrow> disk option" where
  "create_disk_image created d = (if created then Some (d\<lparr>dk_blocks := (\<lambda>_. replicate BLOCK_SIZE 0)\<rparr>) else None)"

section \<open>Loops over blocks\<close>

text \<open>The first block gets \<open>buf\<close> and the others \<open>rest\<close>.\<close>

fun write_run :: "block_device \<Rightarrow> block_t \<Rightarrow> byte list \<Rightarrow> byte list \<Rightarrow> u32 list \<Rightarrow> (int \<times> block_device) option" where
  "write_run dev start buf rest [] = Some (0, dev)"
| "write_run dev start buf rest (i # is) =
     (case blkdev_write dev (start + i) buf of None \<Rightarrow> None
      | Some (ret, dev) \<Rightarrow> if ret < 0 then Some (- EIO, dev) else write_run dev start rest rest is)"

abbreviation zero_block_bytes :: "byte list" where "zero_block_bytes \<equiv> replicate BLOCK_SIZE 0"

text \<open>\<open>oom\<close> makes \<open>calloc\<close> fail.\<close>

definition init_inode_bitmap :: "bool \<Rightarrow> block_device \<Rightarrow> superblock \<Rightarrow> (int \<times> block_device) option" where
  "init_inode_bitmap oom dev sb =
     (if oom then Some (- ENOMEM, dev)
      else write_run dev (sb_inode_bitmap_start sb) (0x03 # replicate 4095 0) zero_block_bytes
             (upto32 (sb_inode_bitmap_blocks sb)))"

definition init_data_bitmap :: "bool \<Rightarrow> block_device \<Rightarrow> superblock \<Rightarrow> (int \<times> block_device) option" where
  "init_data_bitmap oom dev sb =
     (if oom then Some (- ENOMEM, dev)
      else write_run dev (sb_data_bitmap_start sb) (0x01 # replicate 4095 0) zero_block_bytes
             (upto32 (sb_data_bitmap_blocks sb)))"

section \<open>Inode table and root directory\<close>

definition root_inode :: "u64 \<Rightarrow> superblock \<Rightarrow> disk_inode" where
  "root_inode now sb = zero_disk_inode
     \<lparr>di_type := INODE_TYPE_DIR, di_mode := 0x1ED, di_nlink := 2, di_uid := 0, di_gid := 0, di_size := 4096,
      di_blocks := 1, di_atime := now, di_mtime := now, di_ctime := now,
      di_direct := (replicate INODE_DIRECT_BLOCKS 0)[0 := sb_data_start sb]\<rparr>"

definition init_inode_table :: "bool \<Rightarrow> u64 \<Rightarrow> block_device \<Rightarrow> superblock \<Rightarrow> (int \<times> block_device) option" where
  "init_inode_table oom now dev sb =
     (if oom then Some (- ENOMEM, dev)
      else do {
        (ret, dev) \<leftarrow> write_run dev (sb_inode_table_start sb) zero_block_bytes zero_block_bytes
           (upto32 (sb_inode_table_blocks sb));
        (if ret < 0 then Some (- EIO, dev)
         else do {
           block \<leftarrow> buf_write zero_block_bytes INODE_SIZE (encode_disk_inode (root_inode now sb));
           (ret, dev) \<leftarrow> blkdev_write dev (sb_inode_table_start sb) block;
           (if ret < 0 then Some (- EIO, dev) else Some (0, dev)) }) })"

text \<open>The records of \<open>.\<close> and \<open>..\<close>; \<open>strcpy\<close> also stores the NUL.\<close>

definition dot_size :: u16 where
  "dot_size = (of_nat sizeof_dirent + 1 + 7) AND NOT 7"

definition put_dirent :: "byte list \<Rightarrow> nat \<Rightarrow> inode_t \<Rightarrow> u16 \<Rightarrow> string \<Rightarrow> byte list option" where
  "put_dirent block pos inum rec_len name = do {
     block \<leftarrow> buf_write block pos (le_bytes 4 inum);
     block \<leftarrow> buf_write block (pos + 6) [of_nat (length name)];
     block \<leftarrow> buf_write block (pos + 8) (name_bytes name @ [0]);
     buf_write block (pos + 4) (le_bytes 2 rec_len)
   }"

definition init_root_directory :: "bool \<Rightarrow> block_device \<Rightarrow> superblock \<Rightarrow> (int \<times> block_device) option" where
  "init_root_directory oom dev sb =
     (if oom then Some (- ENOMEM, dev)
      else do {
        block \<leftarrow> put_dirent zero_block_bytes 0 1 dot_size ''.'';
        block \<leftarrow> put_dirent block (unat dot_size) 1 (4096 - dot_size) ''..'';
        (ret, dev) \<leftarrow> blkdev_write dev (sb_data_start sb) block;
        (if ret < 0 then Some (- EIO, dev) else Some (0, dev)) })"

section \<open>The journal area\<close>

definition journal_header :: "u32 \<Rightarrow> byte list" where
  "journal_header journal_blocks =
     le_bytes 4 (0x4A524E4C :: u32) @ le_bytes 4 (1 :: u32) @ le_bytes 4 (4096 :: u32) @ le_bytes 4 journal_blocks @
     le_bytes 8 (0 :: u64) @ le_bytes 4 (1 :: u32) @ le_bytes 4 (1 :: u32) @ replicate 4064 0"

definition init_journal :: "block_device \<Rightarrow> superblock \<Rightarrow> (int \<times> block_device) option" where
  "init_journal dev sb = do {
     (ret, dev) \<leftarrow> blkdev_write dev (sb_journal_start sb) (journal_header (sb_journal_blocks sb));
     (if ret < 0 then Some (ret, dev)
      else write_run dev (sb_journal_start sb) zero_block_bytes zero_block_bytes
             (filter (\<lambda>i. 1 \<le> i) (upto32 (sb_journal_blocks sb))))
   }"

section \<open>The program\<close>

text \<open>The exit code and the image, which is missing when it was not created or not opened.\<close>

definition mkfs_close :: "int \<Rightarrow> block_device \<Rightarrow> (int \<times> disk option) option" where
  "mkfs_close ret dev = do { (d, _) \<leftarrow> blkdev_close dev; Some (ret, Some d) }"

definition mkfs_main ::
  "bool \<Rightarrow> bool \<Rightarrow> bool \<Rightarrow> disk \<Rightarrow> bool \<Rightarrow> u64 \<Rightarrow> u32 \<Rightarrow> (int \<times> disk option) option" where
  "mkfs_main created dev_oom cache_oom d oom now size_mb =
     (if size_mb < 1 \<or> 16384 < size_mb then Some (1, None)
      else
        let size_bytes = (ucast size_mb :: u64) * 1024 * 1024;
            total_blocks = (ucast (size_bytes div 4096) :: u32) in
        (case create_disk_image created d of
           None \<Rightarrow> Some (1, None)
         | Some img \<Rightarrow>
             (case blkdev_open (Some (img, size_bytes)) dev_oom cache_oom of
                None \<Rightarrow> Some (1, None)
              | Some dev \<Rightarrow> do {
                  let sb = superblock_init total_blocks now now;
                  (ret, dev) \<leftarrow> superblock_write dev sb;
                  (if ret < 0 then mkfs_close 1 dev
                   else if oom then mkfs_close 1 dev
                   else do {
                     (ret, dev) \<leftarrow> init_journal dev sb;
                     (if ret < 0 then mkfs_close 1 dev
                      else do {
                        (ret, dev) \<leftarrow> init_inode_bitmap oom dev sb;
                        (if ret < 0 then mkfs_close 1 dev
                         else do {
                           (ret, dev) \<leftarrow> init_data_bitmap oom dev sb;
                           (if ret < 0 then mkfs_close 1 dev
                            else do {
                              (ret, dev) \<leftarrow> init_inode_table oom now dev sb;
                              (if ret < 0 then mkfs_close 1 dev
                               else do {
                                 (ret, dev) \<leftarrow> init_root_directory oom dev sb;
                                 (if ret < 0 then mkfs_close 1 dev
                                  else do {
                                    (_, dev) \<leftarrow> blkdev_sync dev;
                                    mkfs_close 0 dev }) }) }) }) }) }) })))"

end
