(* ===== verification/Mkfs_Spec.thy ===== *)
theory Mkfs_Spec
  imports Mkfs Dir_Layout
begin

text \<open>What \<open>src/mkfs.c\<close> leaves on the device.\<close>

section \<open>The root directory\<close>

lemma put_dirent_spec:
  assumes len: "length block = BLOCK_SIZE" and fit: "pos + 9 + length name \<le> BLOCK_SIZE" and n: "length name < 256"
  shows "\<exists>block'. put_dirent block pos inum rec_len name = Some block' \<and> length block' = BLOCK_SIZE \<and>
     entry_at block' pos \<lparr>en_inum = inum, en_name = name, en_len = unat rec_len\<rparr> \<and>
     (\<forall>i < BLOCK_SIZE. i < pos \<or> pos + 9 + length name \<le> i \<longrightarrow> block' ! i = block ! i)"
proof -
  define b1 where "b1 = splice pos (le_bytes 4 inum) block"
  define b2 where "b2 = splice (pos + 6) [of_nat (length name)] b1"
  define b3 where "b3 = splice (pos + 8) (name_bytes name @ [0]) b2"
  define b4 where "b4 = splice (pos + 4) (le_bytes 2 rec_len) b3"
  have l: "length b1 = 4096" "length b2 = 4096" "length b3 = 4096" "length b4 = 4096"
    using len fit by (simp_all add: b1_def b2_def b3_def b4_def length_splice)
  have put: "put_dirent block pos inum rec_len name = Some b4"
    using len fit l by (simp add: put_dirent_def buf_write_def b1_def b2_def b3_def b4_def)
  have 1: "slice pos 4 b1 = le_bytes 4 inum" "slice pos 4 b2 = slice pos 4 b1" "slice pos 4 b3 = slice pos 4 b2"
    "slice pos 4 b4 = slice pos 4 b3"
    using len fit l by (simp_all add: b1_def b2_def b3_def b4_def slice_splice_same [of _ "le_bytes 4 inum", simplified] slice_splice_other length_splice)
  have 2: "slice (pos + 6) 1 b2 = [of_nat (length name)]" "slice (pos + 6) 1 b3 = slice (pos + 6) 1 b2"
    "slice (pos + 6) 1 b4 = slice (pos + 6) 1 b3"
    using len fit l slice_splice_same [of "pos + 6" "[of_nat (length name) :: byte]" b1]
    by (simp_all add: b2_def b3_def b4_def slice_splice_other length_splice)
  have 3: "slice (pos + 8) (length name) b3 = name_bytes name" "slice (pos + 8) (length name) b4 = slice (pos + 8) (length name) b3"
  proof -
    have "slice (pos + 8) (length name + 1) b3 = name_bytes name @ [0]"
      using len fit l slice_splice_same [of "pos + 8" "name_bytes name @ [0]" b2] by (simp add: b3_def)
    then have "take (length name) (slice (pos + 8) (length name + 1) b3) = name_bytes name" by simp
    then show "slice (pos + 8) (length name) b3 = name_bytes name" by (simp add: slice_def)
    show "slice (pos + 8) (length name) b4 = slice (pos + 8) (length name) b3"
      using len fit l by (simp add: b4_def slice_splice_other)
  qed
  have 4: "slice (pos + 4) 2 b4 = le_bytes 2 rec_len"
    using len fit l slice_splice_same [of "pos + 4" "le_bytes 2 rec_len" b3] by (simp add: b4_def)
  have r: "buf_read b4 (pos + k) m = Some (slice (pos + k) m b4)" if "k + m \<le> 8 + length name" for k m
    using that l(4) fit by (simp add: buf_read_def)
  have w: "le_word [of_nat (length name)] = (of_nat (length name) :: byte)" by simp
  have "entry_at b4 pos \<lparr>en_inum = inum, en_name = name, en_len = unat rec_len\<rparr>"
    using r [of 0 4] r [of 4 2] r [of 6 1] r [of 8 "length name"] 1 2 3 4 w
    by (simp add: entry_at_def inum_at_def rec_len_at_def name_len_at_def name_at_def le_word_le_bytes)
  moreover have "b4 ! i = block ! i" if "i < 4096" "i < pos \<or> pos + 9 + length name \<le> i" for i
    using that len fit l by (auto simp: b1_def b2_def b3_def b4_def nth_splice length_splice)
  ultimately show ?thesis using put l(4) by blast
qed

text \<open>A block with the two records every directory starts with, the first of length \<open>n\<close>.\<close>

definition dot_records :: "inode_t \<Rightarrow> u16 \<Rightarrow> entry list" where
  "dot_records inum n = [\<lparr>en_inum = inum, en_name = ''.'', en_len = unat n\<rparr>,
     \<lparr>en_inum = inum, en_name = ''..'', en_len = 4096 - unat n\<rparr>]"

lemma dot_block:
  assumes "16 \<le> n" "n \<le> 3833"
  shows "\<exists>b1 b2. put_dirent zero_block_bytes 0 inum n ''.'' = Some b1 \<and>
     put_dirent b1 (unat n) inum (4096 - n) ''..'' = Some b2 \<and> length b2 = BLOCK_SIZE \<and>
     entries_from b2 BLOCK_SIZE 0 (dot_records inum n)"
proof -
  have n: "16 \<le> unat n" "unat n \<le> 3833" using assms by (simp_all add: word_le_nat_alt)
  have m: "unat (4096 - n) = 4096 - unat n" using n by (simp add: unat_sub word_le_nat_alt)
  from put_dirent_spec [of zero_block_bytes 0 "''.''" inum n] obtain b1 where
    b1: "put_dirent zero_block_bytes 0 inum n ''.'' = Some b1" "length b1 = 4096"
      "entry_at b1 0 \<lparr>en_inum = inum, en_name = ''.'', en_len = unat n\<rparr>" by auto
  from put_dirent_spec [of b1 "unat n" "''..''" inum "4096 - n"] b1(2) n obtain b2 where
    b2: "put_dirent b1 (unat n) inum (4096 - n) ''..'' = Some b2" "length b2 = 4096"
      "entry_at b2 (unat n) \<lparr>en_inum = inum, en_name = ''..'', en_len = 4096 - unat n\<rparr>"
      "\<forall>i < 4096. i < unat n \<or> unat n + 11 \<le> i \<longrightarrow> b2 ! i = b1 ! i" by (auto simp: m)
  have "entry_at b2 0 \<lparr>en_inum = inum, en_name = ''.'', en_len = unat n\<rparr>"
    by (rule entry_at_cong [OF b1(3)]) (use b2 n in auto)
  then have "entries_from b2 BLOCK_SIZE 0 (dot_records inum n)"
    using b2(3) n by (simp add: dot_records_def entry_ok_def esize_def)
  then show ?thesis using b1 b2 by blast
qed

end
