(* ===== verification/Dir_Properties.thy ===== *)
theory Dir_Properties
  imports Dir_Ops Cache_Instances Mkfs_Spec
begin

text \<open>The properties of directories.\<close>

section \<open>Instances\<close>

text \<open>The two records of a new directory, the first of length 32, which leaves it room for one more name.\<close>

definition dot_bytes :: "u16 \<Rightarrow> byte list" where
  "dot_bytes n = the (Option.bind (put_dirent zero_block_bytes 0 3 n ''.'')
     (\<lambda>b. put_dirent b (unat n) 3 (4096 - n) ''..''))"

definition dots :: "u16 \<Rightarrow> inode_cache" where
  "dots n = dir_cache (dot_bytes n)"

lemma dots:
  assumes "16 \<le> n" "n \<le> 3833"
  shows "dir_at (dots n) 0 (dot_records 3 n)" "table_ok (dots n) 3" "inum_of (dots n) 0 = 3"
proof -
  from dot_block [OF assms, of 3] obtain b1 b2 where
    b: "put_dirent zero_block_bytes 0 3 n ''.'' = Some b1" "put_dirent b1 (unat n) 3 (4096 - n) ''..'' = Some b2"
      "length b2 = 4096" "entries_from b2 4096 0 (dot_records 3 n)" by auto
  then have d: "dot_bytes n = b2" by (simp add: dot_bytes_def)
  note D = dir_cache_ok [OF b(3)]
  show "table_ok (dots n) 3" "inum_of (dots n) 0 = 3" using D(4,5) by (simp_all add: dots_def d)
  show "dir_at (dots n) 0 (dot_records 3 n)" using D b(4) by (simp add: dir_at_def dots_def d dot_records_def)
qed

text \<open>In these the directory's own inode is in the cache.\<close>

lemma dots_not_busy:
  assumes "16 \<le> n" "n \<le> 3833" "dir_quiet (dots n) 0 c'"
  shows "\<not> all_busy c' 3"
proof -
  from assms(3) have o: "dir_ok c' 0" "inum_of c' 0 = 3" using dots(3) [OF assms(1,2)] by (simp_all add: dir_quiet_def dir_step_def)
  from o(1) obtain im where "ic_inodes c' 0 = Some im" "im_valid im" "inum_of c' 0 = im_inum im" by (rule dir_okE)
  then show ?thesis using o(2) by (auto simp: all_busy_def)
qed

section \<open>Lookup\<close>

text \<open>\<open>dir_lookup\<close> returns the inode number the directory maps the name to, or
  \<open>MODERNFS_ENOENT\<close>, and changes nothing but the access time.\<close>
theorem dir_lookup_correct:
  assumes "dir_at c a es" "good_name name"
  shows "\<exists>c'. dir_lookup now c a name = Some (case dmap es name of Some i \<Rightarrow> Inr i | None \<Rightarrow> Inl MODERNFS_ENOENT, c') \<and>
     dir_quiet c a c'"
  by (rule dir_lookup_spec [OF assms])

theorem dir_lookup_correct_witness:
  "\<exists>c' c''. dir_lookup 5 (dots 32) 0 ''..'' = Some (Inr 3, c') \<and> dir_lookup 5 (dots 32) 0 ''a'' = Some (Inl MODERNFS_ENOENT, c'')"
  using dir_lookup_correct [OF dots(1), of 32 "''..''" 5] dir_lookup_correct [OF dots(1), of 32 "''a''" 5]
  by (auto simp: good_name_def dot_records_def ematch_def)

section \<open>Adding\<close>

text \<open>C33: \<open>dir_add\<close> enters a new name: where the first record with room for the name has room for a
  whole \<open>dirent_t\<close>, the directory then maps the name to the inode and every other name as before; no other inode
  and no other data block changes.  It fails only when the inode cache has no entry for looking at the inode.\<close>
theorem dir_add_correct:
  assumes "dir_at c a (es @ e # fs)" "good_name name" "dmap (es @ e # fs) name = None" "inum \<noteq> 0" "table_ok c inum"
    and "\<forall>x \<in> set es. \<not> room name x" "room name e" "used e + sizeof_dirent \<le> en_len e"
  shows "\<exists>r c'. dir_add now c a name inum = Some (r, c') \<and>
     (if r = 0 then dir_step c a c' \<and>
        (\<exists>es'. dir_at c' a es' \<and> dmap es' = (dmap (es @ e # fs))(name \<mapsto> inum))
      else r = MODERNFS_ERROR \<and> dir_quiet c a c' \<and> all_busy c' inum)"
proof -
  from dir_add_inserts [OF assms(1-3,5-8), of now] obtain r c' where "dir_add now c a name inum = Some (r, c')"
    "r = MODERNFS_ERROR \<and> dir_quiet c a c' \<and> all_busy c' inum \<or>
     r = 0 \<and> dir_step c a c' \<and> dir_at c' a (es @ split_entry e (entry_of inum name) @ fs)" by blast
  then show ?thesis using dmap_split [OF assms(3,4)] by (intro exI [of _ r] exI [of _ c']) auto
qed

theorem dir_add_correct_witness:
  "\<exists>c' es. dir_add 5 (dots 16) 0 ''a'' 3 = Some (0, c') \<and> dir_at c' 0 es \<and> dmap es ''a'' = Some 3 \<and> dmap es ''.'' = Some 3"
proof -
  have d: "dir_at (dots 16) 0 ([\<lparr>en_inum = 3, en_name = ''.'', en_len = 16\<rparr>] @
      \<lparr>en_inum = 3, en_name = ''..'', en_len = 4080\<rparr> # [])"
    using dots(1) [of 16] by (simp add: dot_records_def)
  from dir_add_correct [OF d, of "''a''" 3 5] dots(2) [of 16] obtain r c' where
    r: "dir_add 5 (dots 16) 0 ''a'' 3 = Some (r, c')" and
    s: "if r = 0 then dir_step (dots 16) 0 c' \<and> (\<exists>es'. dir_at c' 0 es' \<and>
          dmap es' = (dmap ([\<lparr>en_inum = 3, en_name = ''.'', en_len = 16\<rparr>] @ \<lparr>en_inum = 3, en_name = ''..'', en_len = 4080\<rparr> # []))(''a'' \<mapsto> 3))
        else r = MODERNFS_ERROR \<and> dir_quiet (dots 16) 0 c' \<and> all_busy c' 3"
    by (auto simp: good_name_def ematch_def room_def needed_def efree_def esize_def used_def)
  have "r = 0" using s dots_not_busy [of 16 c'] by (auto split: if_splits)
  then show ?thesis using r s by (auto simp: ematch_def)
qed

text \<open>C34: where that record has room for the name but not for a whole \<open>dirent_t\<close>, \<open>dir_add\<close> writes
  all 263 bytes over the header of the next record: the name is entered, and every name behind it is lost.\<close>
theorem dir_add_loses_names:
  assumes "dir_at c a (es @ e # fs)" "good_name name" "dmap (es @ e # fs) name = None" "table_ok c inum"
    and "\<forall>x \<in> set es. \<not> room name x" "room name e" "en_len e + 6 \<le> used e + sizeof_dirent"
    and "span es + used e + sizeof_dirent \<le> BLOCK_SIZE"
  shows "\<exists>r c'. dir_add now c a name inum = Some (r, c') \<and>
     (if r = 0 then \<forall>x. good_name x \<longrightarrow> (\<exists>c''. dir_lookup now' c' a x =
        Some (case dmap (es @ split_entry e (entry_of inum name)) x of Some i \<Rightarrow> Inr i | None \<Rightarrow> Inl MODERNFS_ENOENT, c''))
      else r = MODERNFS_ERROR \<and> dir_quiet c a c' \<and> all_busy c' inum)"
proof -
  from dir_add_spec [OF assms(1-6,8), of now] obtain r c' where r: "dir_add now c a name inum = Some (r, c')"
    "r = MODERNFS_ERROR \<and> dir_quiet c a c' \<and> all_busy c' inum \<or> r = 0 \<and> dir_inserted c a es e inum name c'" by blast
  then show ?thesis using dir_inserted_cuts [OF assms(1,2,6,8,7)] by (intro exI [of _ r] exI [of _ c']) auto
qed

theorem dir_add_loses_names_witness:
  "\<exists>c1 c2 c3 c4. dir_lookup 5 (dots 32) 0 ''..'' = Some (Inr 3, c1) \<and> dir_add 5 (dots 32) 0 ''a'' 3 = Some (0, c2) \<and>
     dir_lookup 5 c2 0 ''a'' = Some (Inr 3, c3) \<and> dir_lookup 5 c2 0 ''..'' = Some (Inl MODERNFS_ENOENT, c4)"
proof -
  let ?e = "\<lparr>en_inum = 3, en_name = ''.'', en_len = 32\<rparr>" and ?g = "\<lparr>en_inum = 3, en_name = ''..'', en_len = 4064\<rparr>"
  have d: "dir_at (dots 32) 0 ([] @ ?e # [?g])" using dots(1) [of 32] by (simp add: dot_records_def)
  from dir_lookup_spec [OF d, of "''..''" 5] obtain c1 where
    c1: "dir_lookup 5 (dots 32) 0 ''..'' = Some (Inr 3, c1)" by (auto simp: good_name_def ematch_def)
  from dir_add_loses_names [OF d, of "''a''" 3 5 5] dots(2) [of 32] obtain r c2 where
    r: "dir_add 5 (dots 32) 0 ''a'' 3 = Some (r, c2)" and
    s: "if r = 0 then \<forall>x. good_name x \<longrightarrow> (\<exists>c''. dir_lookup 5 c2 0 x =
        Some (case dmap ([] @ split_entry ?e (entry_of 3 ''a'')) x of Some i \<Rightarrow> Inr i | None \<Rightarrow> Inl MODERNFS_ENOENT, c''))
      else r = MODERNFS_ERROR \<and> dir_quiet (dots 32) 0 c2 \<and> all_busy c2 3"
    by (auto simp: good_name_def ematch_def room_def needed_def efree_def esize_def used_def)
  have "r = 0" using s dots_not_busy [of 32 c2] by (auto split: if_splits)
  have v: "dmap ([] @ split_entry ?e (entry_of 3 ''a'')) ''a'' = Some 3"
    "dmap ([] @ split_entry ?e (entry_of 3 ''a'')) ''..'' = None"
    by (simp_all add: split_entry_def ematch_def)
  have l: "\<exists>c''. dir_lookup 5 c2 0 x = Some (case dmap ([] @ split_entry ?e (entry_of 3 ''a'')) x of
      Some i \<Rightarrow> Inr i | None \<Rightarrow> Inl MODERNFS_ENOENT, c'')" if "good_name x" for x
    using s \<open>r = 0\<close> that by simp
  have "\<exists>c''. dir_lookup 5 c2 0 ''a'' = Some (Inr 3, c'')" "\<exists>c''. dir_lookup 5 c2 0 ''..'' = Some (Inl MODERNFS_ENOENT, c'')"
    using l [of "''a''"] l [of "''..''"] unfolding v by (simp_all add: good_name_def)
  then show ?thesis using c1 r \<open>r = 0\<close> by blast
qed

section \<open>Removing\<close>

text \<open>C35: \<open>dir_remove\<close> removes a name, which joins its record to the live one before it or clears the
  first one, and keeps every other name; it refuses a missing name with \<open>MODERNFS_ENOENT\<close>.\<close>
theorem dir_remove_correct:
  assumes "dir_at c a es" "good_name name" "unique_names es" "\<forall>e \<in> set es. en_inum e \<noteq> 0"
  shows "\<exists>r c'. dir_remove now c a name = Some (r, c') \<and>
     (if dmap es name = None then r = MODERNFS_ENOENT \<and> dir_quiet c a c'
      else r = 0 \<and> dir_step c a c' \<and> (\<exists>es'. dir_at c' a es' \<and> unique_names es' \<and> dmap es' = (dmap es)(name := None)))"
proof (cases "dmap es name")
  case None
  then show ?thesis using dir_remove_missing [OF assms(1,2) None, of now] by auto
next
  case (Some i)
  then have "\<exists>e \<in> set es. ematch name e" using dmap_None [of es name] by auto
  then obtain xs e ys where s: "es = xs @ e # ys" "ematch name e" "\<forall>x \<in> set xs. \<not> ematch name x"
    using split_list_first_prop [of es "ematch name"] by blast
  have "xs \<noteq> [] \<longrightarrow> en_inum (last xs) \<noteq> 0" using assms(4) s(1) by auto
  from dir_remove_spec [OF assms(1) [unfolded s(1)] assms(2) s(2,3) this, of now] obtain c' where
    "dir_remove now c a name = Some (0, c')" "dir_step c a c'" "dir_at c' a (without xs e @ ys)" by blast
  then show ?thesis
    using Some dmap_without [of xs e ys name] unique_without [of xs e ys] assms(3) s(1,2) by auto
qed

theorem dir_remove_correct_witness:
  "\<exists>c1 c2 es. dir_remove 5 (dots 16) 0 ''..'' = Some (0, c1) \<and> dir_at c1 0 es \<and> dmap es ''..'' = None \<and>
     dmap es ''.'' = Some 3 \<and> dir_remove 5 (dots 16) 0 ''a'' = Some (MODERNFS_ENOENT, c2)"
proof -
  note R = dir_remove_correct [OF dots(1), of 16]
  from R [of "''..''" 5] obtain c1 es where c1: "dir_remove 5 (dots 16) 0 ''..'' = Some (0, c1)" "dir_at c1 0 es"
    "dmap es = (dmap (dot_records 3 16))(''..'' := None)"
    by (auto simp: good_name_def dot_records_def ematch_def unique_names_def)
  from R [of "''a''" 5] obtain c2 where "dir_remove 5 (dots 16) 0 ''a'' = Some (MODERNFS_ENOENT, c2)"
    by (auto simp: good_name_def dot_records_def ematch_def unique_names_def)
  moreover have "dmap es ''..'' = None" "dmap es ''.'' = Some 3"
    using c1(3) by (simp_all add: dot_records_def ematch_def)
  ultimately show ?thesis using c1(1,2) by blast
qed

section \<open>Iterating\<close>

text \<open>\<open>dir_iterate\<close> calls the callback with every name of the directory in order until one call
  returns something else than 0.\<close>
theorem dir_iterate_correct:
  assumes "dir_at c a es"
  shows "\<exists>c'. dir_iterate now c a callback s = Some (case visit callback es s of (r, s) \<Rightarrow>
      (case r of Some ret \<Rightarrow> ret | None \<Rightarrow> MODERNFS_SUCCESS, s, c')) \<and> dir_quiet c a c'"
  by (rule dir_iterate_spec [OF assms])

theorem dir_iterate_correct_witness:
  "\<exists>c'. dir_iterate 5 (dots 16) 0 (\<lambda>name inum names. (0, names @ [name])) [] = Some (0, [''.'', ''..''], c')"
  using dir_iterate_correct [OF dots(1), of 16 5 "\<lambda>name inum names. (0, names @ [name])" "[]"]
  by (auto simp: dot_records_def)

text \<open>\<open>dir_is_empty\<close> returns 1 for a directory of nothing but \<open>.\<close> and \<open>..\<close>, and 0
  otherwise.\<close>
theorem dir_is_empty_correct:
  assumes "dir_at c a es"
  shows "\<exists>c'. dir_is_empty now c a = Some (if \<forall>x. dmap es x \<noteq> None \<longrightarrow> x = ''.'' \<or> x = ''..'' then 1 else 0, c') \<and>
     dir_quiet c a c'"
proof -
  have "proper es = [] \<longleftrightarrow> (\<forall>x. dmap es x \<noteq> None \<longrightarrow> x = ''.'' \<or> x = ''..'')"
    using dmap_None [of es] by (auto simp: proper_def filter_empty_conv ematch_def)
  then show ?thesis using dir_is_empty_spec [OF assms, of now] by simp
qed

theorem dir_is_empty_correct_witness:
  "\<exists>c'. dir_is_empty 5 (dots 16) 0 = Some (1, c')"
  using dir_is_empty_correct [OF dots(1), of 16 5] by (auto simp: dot_records_def ematch_def split: if_splits)

end
