(* ===== verification/Journal.thy ===== *)
theory Journal
  imports Block_Dev
begin

text \<open>
  The write-ahead journal, \<open>rust_core/src/journal/mod.rs\<close> and the functions of
  \<open>rust_core/src/lib.rs\<close> that export it to the C code.  The journal is a ring of blocks behind its own
  superblock, which occupies block 0 of the ring.  A \<open>Result\<close> is a \<open>rust_result\<close>; the messages of the
  errors are not kept.  What an operation did before it failed stays, so failures return the state as
  well.  Arithmetic wraps, as in the release profile the build uses.  The locks are not modelled, and
  reads and writes of the device go to the same file as those of the C code but not through its cache.
\<close>

datatype 'a rust_result = Ok 'a | Err

section \<open>Structures\<close>

record journal_superblock =
  js_magic :: u32
  js_version :: u32
  js_block_size :: u32
  js_total_blocks :: u32
  js_sequence :: u64
  js_head :: u32
  js_tail :: u32
  js_reserved :: "byte list"

abbreviation JOURNAL_MAGIC :: u32 where "JOURNAL_MAGIC \<equiv> 0x4A524E4C"
abbreviation JOURNAL_DATA_MAGIC :: u32 where "JOURNAL_DATA_MAGIC \<equiv> 0x4A444154"
abbreviation JOURNAL_COMMIT_MAGIC :: u32 where "JOURNAL_COMMIT_MAGIC \<equiv> 0x4A434D54"

definition encode_journal_superblock :: "journal_superblock \<Rightarrow> byte list" where
  "encode_journal_superblock s =
     le_bytes 4 (js_magic s) @ le_bytes 4 (js_version s) @ le_bytes 4 (js_block_size s) @
     le_bytes 4 (js_total_blocks s) @ le_bytes 8 (js_sequence s) @ le_bytes 4 (js_head s) @
     le_bytes 4 (js_tail s) @ js_reserved s"

definition decode_journal_superblock :: "byte list \<Rightarrow> journal_superblock" where
  "decode_journal_superblock bs =
     \<lparr>js_magic = le_word (slice 0 4 bs), js_version = le_word (slice 4 4 bs), js_block_size = le_word (slice 8 4 bs),
      js_total_blocks = le_word (slice 12 4 bs), js_sequence = le_word (slice 16 8 bs),
      js_head = le_word (slice 24 4 bs), js_tail = le_word (slice 28 4 bs), js_reserved = slice 32 4040 bs\<rparr>"

text \<open>The headers are packed structs too; a struct is copied to the start of a block of zeros.\<close>

record journal_data_header =
  jh_magic :: u32
  jh_target_block :: u32
  jh_checksum :: u32

definition encode_data_header :: "journal_data_header \<Rightarrow> byte list" where
  "encode_data_header h = le_bytes 4 (jh_magic h) @ le_bytes 4 (jh_target_block h) @ le_bytes 4 (jh_checksum h)"

record journal_commit_record =
  jc_magic :: u32
  jc_txn_id :: u64
  jc_num_blocks :: u32
  jc_checksum :: u32

definition encode_commit_record :: "journal_commit_record \<Rightarrow> byte list" where
  "encode_commit_record r = le_bytes 4 (jc_magic r) @ le_bytes 8 (jc_txn_id r) @ le_bytes 4 (jc_num_blocks r) @
     le_bytes 4 (jc_checksum r)"

definition struct_block :: "byte list \<Rightarrow> byte list" where
  "struct_block bs = bs @ replicate (BLOCK_SIZE - length bs) 0"

datatype txn_state = Active | Committed | Aborted

record transaction =
  tx_id :: u64
  tx_writes :: "(block_t \<times> byte list) list"
  tx_state :: txn_state

text \<open>
  The table of active transactions shares them with their users and is never read, so only its keys
  are kept.
\<close>

record journal =
  jm_start :: u32
  jm_blocks :: u32
  jm_sb :: journal_superblock
  jm_active :: "u64 list"
  jm_next_tid :: u64

section \<open>Opening\<close>

definition journal_new :: "disk \<Rightarrow> u32 \<Rightarrow> u32 \<Rightarrow> journal rust_result" where
  "journal_new d start blocks =
     (if blocks < 2 then Err
      else case pread_block d start of
        None \<Rightarrow> Err
      | Some sb_buf \<Rightarrow>
          let sb = decode_journal_superblock sb_buf;
              (head, tail) = (if js_head sb = 0 \<and> js_tail sb = 0 then (1, 1) else (js_head sb, js_tail sb)) in
          if js_magic sb \<noteq> JOURNAL_MAGIC then Err
          else Ok \<lparr>jm_start = start, jm_blocks = blocks, jm_sb = sb\<lparr>js_head := head, js_tail := tail\<rparr>,
                   jm_active = [], jm_next_tid = 1\<rparr>)"

section \<open>Transactions\<close>

definition begin_transaction :: "journal \<Rightarrow> transaction \<times> journal" where
  "begin_transaction jm =
     (\<lparr>tx_id = jm_next_tid jm, tx_writes = [], tx_state = Active\<rparr>,
      jm\<lparr>jm_next_tid := jm_next_tid jm + 1, jm_active := jm_next_tid jm # jm_active jm\<rparr>)"

definition write_block :: "transaction \<Rightarrow> block_t \<Rightarrow> byte list \<Rightarrow> unit rust_result \<times> transaction" where
  "write_block t block_num data =
     (if tx_state t \<noteq> Active then (Err, t)
      else if length data \<noteq> 4096 then (Err, t)
      else (Ok (), t\<lparr>tx_writes := tx_writes t @ [(block_num, data)]\<rparr>))"

definition allocate_journal_block :: "journal \<Rightarrow> u32 rust_result \<times> journal" where
  "allocate_journal_block jm =
     (let sb = jm_sb jm; next_tail = (js_tail sb + 1) mod jm_blocks jm in
      if next_tail = js_head sb then (Err, jm)
      else (Ok (js_tail sb), jm\<lparr>jm_sb := sb\<lparr>js_tail := next_tail\<rparr>\<rparr>))"

text \<open>\<open>chunks(4)\<close> read as little-endian words and combined by exclusive or.\<close>

function word_chunks :: "byte list \<Rightarrow> u32 list" where
  "word_chunks bs = (if bs = [] then [] else le_word (take 4 bs) # word_chunks (drop 4 bs))"
  by auto
termination by (relation "measure length") auto

declare word_chunks.simps [simp del]

definition calculate_checksum :: "byte list \<Rightarrow> u32" where
  "calculate_checksum data = foldl (XOR) 0 (word_chunks data)"

definition calculate_commit_checksum :: "u64 \<Rightarrow> u32" where
  "calculate_commit_checksum txn_id = ucast (txn_id AND 0xFFFFFFFF)"

text \<open>A header block and the data block after it in the ring.\<close>

definition write_journal_data ::
  "journal \<Rightarrow> disk \<Rightarrow> u32 \<Rightarrow> block_t \<Rightarrow> byte list \<Rightarrow> unit rust_result \<times> journal \<times> disk" where
  "write_journal_data jm d journal_block target_block data =
     (if length data \<noteq> BLOCK_SIZE then (Err, jm, d)
      else case allocate_journal_block jm of
        (Err, jm) \<Rightarrow> (Err, jm, d)
      | (Ok data_journal_block, jm) \<Rightarrow>
          let header = \<lparr>jh_magic = JOURNAL_DATA_MAGIC, jh_target_block = target_block,
                        jh_checksum = calculate_checksum data\<rparr> in
          (case pwrite_block d (jm_start jm + journal_block) (struct_block (encode_data_header header)) of
             None \<Rightarrow> (Err, jm, d)
           | Some d \<Rightarrow>
               (case pwrite_block d (jm_start jm + data_journal_block) data of
                  None \<Rightarrow> (Err, jm, d)
                | Some d \<Rightarrow> (Ok (), jm, d))))"

definition write_commit_record ::
  "journal \<Rightarrow> disk \<Rightarrow> u32 \<Rightarrow> u64 \<Rightarrow> u32 list \<Rightarrow> unit rust_result \<times> disk" where
  "write_commit_record jm d journal_block txn_id blocks =
     (let r = \<lparr>jc_magic = JOURNAL_COMMIT_MAGIC, jc_txn_id = txn_id, jc_num_blocks = of_nat (length blocks),
               jc_checksum = calculate_commit_checksum txn_id\<rparr> in
      case pwrite_block d (jm_start jm + journal_block) (struct_block (encode_commit_record r)) of
        None \<Rightarrow> (Err, d)
      | Some d \<Rightarrow> (Ok (), d))"

definition sync_superblock_to_disk :: "journal \<Rightarrow> disk \<Rightarrow> unit rust_result \<times> disk" where
  "sync_superblock_to_disk jm d =
     (case pwrite_block d (jm_start jm) (struct_block (encode_journal_superblock (jm_sb jm))) of
        None \<Rightarrow> (Err, d)
      | Some d \<Rightarrow> (if dk_fsync_bad d then Err else Ok (), d))"

text \<open>The loop over the writes of a transaction, with the journal blocks used so far.\<close>

fun commit_writes ::
  "journal \<Rightarrow> disk \<Rightarrow> (block_t \<times> byte list) list \<Rightarrow> u32 list \<Rightarrow> u32 list rust_result \<times> journal \<times> disk" where
  "commit_writes jm d [] used = (Ok used, jm, d)"
| "commit_writes jm d ((block_num, data) # ws) used =
     (case allocate_journal_block jm of
        (Err, jm) \<Rightarrow> (Err, jm, d)
      | (Ok journal_block, jm) \<Rightarrow>
          (case write_journal_data jm d journal_block block_num data of
             (Err, jm, d) \<Rightarrow> (Err, jm, d)
           | (Ok _, jm, d) \<Rightarrow> commit_writes jm d ws (used @ [journal_block])))"

definition remove_active :: "u64 \<Rightarrow> journal \<Rightarrow> journal" where
  "remove_active i jm = jm\<lparr>jm_active := removeAll i (jm_active jm)\<rparr>"

definition journal_commit ::
  "journal \<Rightarrow> disk \<Rightarrow> transaction \<Rightarrow> unit rust_result \<times> transaction \<times> journal \<times> disk" where
  "journal_commit jm d t =
     (if tx_state t \<noteq> Active then (Err, t, jm, d)
      else if tx_writes t = [] then (Ok (), t\<lparr>tx_state := Committed\<rparr>, remove_active (tx_id t) jm, d)
      else case commit_writes jm d (tx_writes t) [] of
        (Err, jm, d) \<Rightarrow> (Err, t, jm, d)
      | (Ok used, jm, d) \<Rightarrow>
          (case allocate_journal_block jm of
             (Err, jm) \<Rightarrow> (Err, t, jm, d)
           | (Ok commit_block, jm) \<Rightarrow>
               (case write_commit_record jm d commit_block (tx_id t) used of
                  (Err, d) \<Rightarrow> (Err, t, jm, d)
                | (Ok _, d) \<Rightarrow>
                    (case sync_superblock_to_disk jm d of
                       (Err, d) \<Rightarrow> (Err, t, jm, d)
                     | (Ok _, d) \<Rightarrow>
                         if dk_fsync_bad d then (Err, t, jm, d)
                         else (Ok (), t\<lparr>tx_state := Committed\<rparr>, remove_active (tx_id t) jm, d)))))"

definition journal_abort :: "journal \<Rightarrow> transaction \<Rightarrow> unit rust_result \<times> transaction \<times> journal" where
  "journal_abort jm t =
     (if tx_state t \<noteq> Active then (Err, t, jm)
      else (Ok (), t\<lparr>tx_state := Aborted\<rparr>, remove_active (tx_id t) jm))"

section \<open>Reading the journal back\<close>

text \<open>
  Magic number, target and data of a journal block.  The data of a header is in the next block of the
  device, whose byte offset is computed in 64 bits.
\<close>

definition read_journal_block :: "journal \<Rightarrow> disk \<Rightarrow> u32 \<Rightarrow> (u32 \<times> u32 \<times> byte list) rust_result" where
  "read_journal_block jm d journal_block =
     (let b = jm_start jm + journal_block in
      case pread_block d b of
        None \<Rightarrow> Err
      | Some block \<Rightarrow>
          let magic = le_word (slice 0 4 block) in
          if magic = JOURNAL_DATA_MAGIC then
            (case (if b + 1 = 0 then None else pread_block d (b + 1)) of
               None \<Rightarrow> Err
             | Some data \<Rightarrow> Ok (magic, le_word (slice 4 4 block), data))
          else Ok (magic, 0, []))"

text \<open>
  The loops walk the ring until they meet \<open>tail\<close>; nothing bounds them.  \<open>dev\<close> is also the global device
  whose cache the checkpoint invalidates.
\<close>

partial_function (option) checkpoint_loop ::
  "journal \<Rightarrow> block_device \<Rightarrow> u32 \<Rightarrow> u32 \<Rightarrow> (unit rust_result \<times> block_device) option" where
  "checkpoint_loop jm dev current tail =
     (if current = tail then Some (Ok (), dev)
      else case read_journal_block jm (bd_disk dev) current of
        Err \<Rightarrow> Some (Err, dev)
      | Ok (magic, target_block, data) \<Rightarrow>
          if magic = JOURNAL_DATA_MAGIC then
            (case pwrite_block (bd_disk dev) target_block data of
               None \<Rightarrow> Some (Err, dev)
             | Some d \<Rightarrow> do {
                 g \<leftarrow> c_buffer_cache_invalidate_by_fd (Some (dev\<lparr>bd_disk := d\<rparr>)) target_block;
                 dev \<leftarrow> g;
                 checkpoint_loop jm dev ((current + 2) mod jm_blocks jm) tail })
          else checkpoint_loop jm dev ((current + 1) mod jm_blocks jm) tail)"

definition journal_checkpoint ::
  "journal \<Rightarrow> block_device \<Rightarrow> (unit rust_result \<times> journal \<times> block_device) option" where
  "journal_checkpoint jm dev =
     (let head = js_head (jm_sb jm); tail = js_tail (jm_sb jm) in
      if head = tail then Some (Ok (), jm, dev)
      else do {
        (r, dev) \<leftarrow> checkpoint_loop jm dev head tail;
        (case r of
           Err \<Rightarrow> Some (Err, jm, dev)
         | Ok _ \<Rightarrow>
             if dk_fsync_bad (bd_disk dev) then Some (Err, jm, dev)
             else do {
               let jm = jm\<lparr>jm_sb := (jm_sb jm)\<lparr>js_head := tail, js_sequence := js_sequence (jm_sb jm) + 1\<rparr>\<rparr>;
               (case sync_superblock_to_disk jm (bd_disk dev) of
                  (r, d) \<Rightarrow> Some (r, jm, dev\<lparr>bd_disk := d\<rparr>)) }) })"

fun replay :: "disk \<Rightarrow> (block_t \<times> byte list) list \<Rightarrow> unit rust_result \<times> disk" where
  "replay d [] = (Ok (), d)"
| "replay d ((block_num, data) # ws) =
     (case pwrite_block d block_num data of None \<Rightarrow> (Err, d) | Some d \<Rightarrow> replay d ws)"

text \<open>
  The scan of \<open>recover\<close>, with its flag, the blocks of the transaction being read and the number of
  transactions replayed.
\<close>

partial_function (option) recover_loop ::
  "journal \<Rightarrow> disk \<Rightarrow> u32 \<Rightarrow> u32 \<Rightarrow> bool \<Rightarrow> (block_t \<times> byte list) list \<Rightarrow> nat \<Rightarrow> (nat rust_result \<times> disk) option" where
  "recover_loop jm d current tail in_transaction blocks recovered =
     (if current = tail then Some (Ok recovered, d)
      else case read_journal_block jm d current of
        Err \<Rightarrow> Some (Err, d)
      | Ok (magic, target_block, data) \<Rightarrow>
          if magic = JOURNAL_DATA_MAGIC
          then recover_loop jm d ((current + 2) mod jm_blocks jm) tail True (blocks @ [(target_block, data)]) recovered
          else if magic = JOURNAL_COMMIT_MAGIC then
            (if in_transaction \<and> blocks \<noteq> [] then
               (case replay d blocks of
                  (Err, d) \<Rightarrow> Some (Err, d)
                | (Ok _, d) \<Rightarrow>
                    recover_loop jm d ((current + 1) mod jm_blocks jm) tail False [] (Suc recovered))
             else recover_loop jm d ((current + 1) mod jm_blocks jm) tail in_transaction blocks recovered)
          else Some (Ok recovered, d))"

definition journal_recover :: "journal \<Rightarrow> disk \<Rightarrow> (nat rust_result \<times> disk) option" where
  "journal_recover jm d =
     (let head = js_head (jm_sb jm); tail = js_tail (jm_sb jm) in
      if head = tail then Some (Ok 0, d)
      else do {
        (r, d) \<leftarrow> recover_loop jm d head tail False [] 0;
        (case r of
           Err \<Rightarrow> Some (Err, d)
         | Ok n \<Rightarrow> if dk_fsync_bad d then Some (Err, d) else Some (Ok n, d)) })"

section \<open>The interface to C\<close>

text \<open>\<open>None\<close> is a null pointer.  The buffer of \<open>rust_journal_write\<close> is read for 4096 bytes.\<close>

definition rust_journal_init :: "block_device \<Rightarrow> u32 \<Rightarrow> u32 \<Rightarrow> journal option" where
  "rust_journal_init dev journal_start journal_blocks =
     (case journal_new (bd_disk dev) journal_start journal_blocks of Ok jm \<Rightarrow> Some jm | Err \<Rightarrow> None)"

definition rust_journal_begin :: "journal \<Rightarrow> transaction option \<times> journal" where
  "rust_journal_begin jm = (case begin_transaction jm of (t, jm) \<Rightarrow> (Some t, jm))"

definition rust_journal_write :: "transaction \<Rightarrow> block_t \<Rightarrow> byte list \<Rightarrow> int \<times> transaction" where
  "rust_journal_write t block_num data =
     (case write_block t block_num (take 4096 data) of
        (Ok _, t) \<Rightarrow> (0, t)
      | (Err, t) \<Rightarrow> (- EIO, t))"

text \<open>The commit consumes the transaction.\<close>

definition rust_journal_commit ::
  "journal \<Rightarrow> transaction \<Rightarrow> block_device \<Rightarrow> int \<times> journal \<times> block_device" where
  "rust_journal_commit jm t dev =
     (case journal_commit jm (bd_disk dev) t of
        (r, _, jm, d) \<Rightarrow> (case r of Ok _ \<Rightarrow> 0 | Err \<Rightarrow> - EIO, jm, dev\<lparr>bd_disk := d\<rparr>))"

text \<open>The exported abort only marks the transaction: its key stays in the table of the journal.\<close>

definition rust_journal_abort :: "transaction \<Rightarrow> transaction" where
  "rust_journal_abort t = t\<lparr>tx_state := Aborted\<rparr>"

definition rust_journal_checkpoint :: "journal \<Rightarrow> block_device \<Rightarrow> (int \<times> journal \<times> block_device) option" where
  "rust_journal_checkpoint jm dev = do {
     (r, jm, dev) \<leftarrow> journal_checkpoint jm dev;
     Some (case r of Ok _ \<Rightarrow> 0 | Err \<Rightarrow> - EIO, jm, dev) }"

definition rust_journal_recover :: "journal \<Rightarrow> block_device \<Rightarrow> (int \<times> block_device) option" where
  "rust_journal_recover jm dev = do {
     (r, d) \<leftarrow> journal_recover jm (bd_disk dev);
     Some (case r of Ok n \<Rightarrow> sint (of_nat n :: u32) | Err \<Rightarrow> - EIO, dev\<lparr>bd_disk := d\<rparr>) }"

end
