(* ===== verification/Journal_Spec.thy ===== *)
theory Journal_Spec
  imports Journal Block_Dev_Contract
begin

text \<open>
  The journal as a log of entries.  What \<open>recover\<close> and \<open>checkpoint\<close> make of a log that does not pass the
  end of the ring, what a commit appends to it, and which single-block writes a commit consists of.
\<close>

section \<open>Sequences of block writes\<close>

definition put_block :: "disk \<Rightarrow> block_t \<Rightarrow> byte list \<Rightarrow> disk" where
  "put_block d b x = d\<lparr>dk_blocks := (dk_blocks d)(b := x)\<rparr>"

fun put_all :: "disk \<Rightarrow> (block_t \<times> byte list) list \<Rightarrow> disk" where
  "put_all d [] = d"
| "put_all d ((b, x) # ws) = put_all (put_block d b x) ws"

fun upd_all :: "(block_t \<Rightarrow> byte list) \<Rightarrow> (block_t \<times> byte list) list \<Rightarrow> block_t \<Rightarrow> byte list" where
  "upd_all v [] = v"
| "upd_all v ((b, x) # ws) = upd_all (v(b := x)) ws"

lemma put_block_simps [simp]:
  "dk_blocks (put_block d b x) = (dk_blocks d)(b := x)" "dk_read_bad (put_block d b x) = dk_read_bad d"
  "dk_write_bad (put_block d b x) = dk_write_bad d" "dk_fsync_bad (put_block d b x) = dk_fsync_bad d"
  by (simp_all add: put_block_def)

lemma put_all_append: "put_all d (ws @ us) = put_all (put_all d ws) us"
  by (induction d ws rule: put_all.induct) auto

lemma put_all_simps [simp]:
  "dk_blocks (put_all d ws) = upd_all (dk_blocks d) ws" "dk_read_bad (put_all d ws) = dk_read_bad d"
  "dk_write_bad (put_all d ws) = dk_write_bad d" "dk_fsync_bad (put_all d ws) = dk_fsync_bad d"
  by (induction d ws rule: put_all.induct) auto

lemma upd_all_append: "upd_all v (ws @ us) = upd_all (upd_all v ws) us"
  by (induction v ws rule: upd_all.induct) (simp_all del: fun_upd_apply)

lemma upd_all_other: "b \<notin> fst ` set ws \<Longrightarrow> upd_all v ws b = v b"
  by (induction v ws rule: upd_all.induct) auto

lemma upd_all_fun_upd: "b \<notin> fst ` set ws \<Longrightarrow> upd_all (v(b := x)) ws = (upd_all v ws)(b := x)"
  by (induction v ws rule: upd_all.induct) (auto simp: fun_upd_twist simp del: fun_upd_apply)

text \<open>The last write to a block is the one that counts.\<close>

lemma upd_all_last: "distinct (map fst ws) \<Longrightarrow> (b, x) \<in> set ws \<Longrightarrow> upd_all v ws b = x"
  by (induction v ws rule: upd_all.induct) (auto simp: upd_all_other)

lemma pwrite_good: "\<not> dk_write_bad d b \<Longrightarrow> pwrite_block d b x = Some (put_block d b x)"
  by (simp add: pwrite_block_def put_block_def)

lemma pread_good: "\<not> dk_read_bad d b \<Longrightarrow> pread_block d b = Some (dk_blocks d b)"
  by (simp add: pread_block_def)

lemma replay_good: "\<forall>b \<in> fst ` set ws. \<not> dk_write_bad d b \<Longrightarrow> replay d ws = (Ok (), put_all d ws)"
  by (induction d ws rule: replay.induct) (auto simp: pwrite_good)

section \<open>Structures\<close>

lemma length_struct_block: "length bs \<le> BLOCK_SIZE \<Longrightarrow> length (struct_block bs) = BLOCK_SIZE"
  by (simp add: struct_block_def)

lemma decode_journal_superblock:
  "length (js_reserved s) = 4040 \<Longrightarrow> decode_journal_superblock (struct_block (encode_journal_superblock s)) = s"
  by (simp add: decode_journal_superblock_def encode_journal_superblock_def struct_block_def slice_def le_word_le_bytes)

lemma length_journal_superblock:
  "length (js_reserved s) = 4040 \<Longrightarrow> length (struct_block (encode_journal_superblock s)) = BLOCK_SIZE"
  by (simp add: length_struct_block encode_journal_superblock_def)

definition header_block :: "block_t \<Rightarrow> byte list \<Rightarrow> byte list" where
  "header_block b x = struct_block (encode_data_header
     \<lparr>jh_magic = JOURNAL_DATA_MAGIC, jh_target_block = b, jh_checksum = calculate_checksum x\<rparr>)"

definition commit_block :: "u64 \<Rightarrow> nat \<Rightarrow> byte list" where
  "commit_block i n = struct_block (encode_commit_record
     \<lparr>jc_magic = JOURNAL_COMMIT_MAGIC, jc_txn_id = i, jc_num_blocks = of_nat n, jc_checksum = calculate_commit_checksum i\<rparr>)"

lemma header_block [simp]:
  "(le_word (slice 0 4 (header_block b x)) :: u32) = JOURNAL_DATA_MAGIC" "le_word (slice 4 4 (header_block b x)) = b"
  "length (header_block b x) = BLOCK_SIZE"
  by (simp_all add: header_block_def struct_block_def encode_data_header_def slice_def le_word_le_bytes)

lemma commit_block [simp]:
  "(le_word (slice 0 4 (commit_block i n)) :: u32) = JOURNAL_COMMIT_MAGIC" "length (commit_block i n) = BLOCK_SIZE"
  by (simp_all add: commit_block_def struct_block_def encode_commit_record_def slice_def le_word_le_bytes)

section \<open>Logs\<close>

datatype jentry = JData block_t "byte list" | JCommit

text \<open>Position \<open>p\<close> of the ring is block \<open>s + p\<close>; the entries from \<open>p\<close> end at \<open>e\<close>.\<close>

fun log_at :: "(block_t \<Rightarrow> byte list) \<Rightarrow> u32 \<Rightarrow> nat \<Rightarrow> jentry list \<Rightarrow> nat \<Rightarrow> bool" where
  "log_at v s p [] e = (p = e)"
| "log_at v s p (JData b x # es) e \<longleftrightarrow>
     (le_word (slice 0 4 (v (s + of_nat p))) :: u32) = JOURNAL_DATA_MAGIC \<and> le_word (slice 4 4 (v (s + of_nat p))) = b \<and>
     v (s + of_nat (p + 1)) = x \<and> log_at v s (p + 2) es e"
| "log_at v s p (JCommit # es) e \<longleftrightarrow>
     (le_word (slice 0 4 (v (s + of_nat p))) :: u32) = JOURNAL_COMMIT_MAGIC \<and> log_at v s (p + 1) es e"

lemma log_at_le: "log_at v s p es e \<Longrightarrow> p \<le> e"
  by (induction v s p es e rule: log_at.induct) auto

lemma log_at_append: "log_at v s p (es @ fs) e \<longleftrightarrow> (\<exists>m. log_at v s p es m \<and> log_at v s m fs e)"
  by (induction v s p es e rule: log_at.induct) auto

lemma log_at_cong:
  assumes "log_at v s p es e" "\<And>k. p \<le> k \<Longrightarrow> k < e \<Longrightarrow> v' (s + of_nat k) = v (s + of_nat k)"
  shows "log_at v' s p es e"
  using assms
proof (induction v s p es e rule: log_at.induct)
  case (2 v s p b x es e)
  then have "p + 2 \<le> e" by (auto dest: log_at_le)
  moreover have "log_at v' s (p + 2) es e" by (rule "2.IH") (use 2 in auto)
  ultimately show ?case using "2.prems"(1) "2.prems"(2) [of p] "2.prems"(2) [of "p + 1"] by simp
next
  case (3 v s p es e)
  then have "p + 1 \<le> e" by (auto dest: log_at_le)
  moreover have "log_at v' s (p + 1) es e" by (rule "3.IH") (use 3 in auto)
  ultimately show ?case using "3.prems"(1) "3.prems"(2) [of p] by simp
qed simp

text \<open>The block writes of the committed transactions, of all entries, and the number of replays.\<close>

fun committed :: "(block_t \<times> byte list) list \<Rightarrow> jentry list \<Rightarrow> (block_t \<times> byte list) list" where
  "committed ws [] = []"
| "committed ws (JData b x # es) = committed (ws @ [(b, x)]) es"
| "committed ws (JCommit # es) = ws @ committed [] es"

fun logged :: "jentry list \<Rightarrow> (block_t \<times> byte list) list" where
  "logged [] = []"
| "logged (JData b x # es) = (b, x) # logged es"
| "logged (JCommit # es) = logged es"

fun commits :: "bool \<Rightarrow> jentry list \<Rightarrow> nat" where
  "commits f [] = 0"
| "commits f (JData b x # es) = commits True es"
| "commits f (JCommit # es) = (if f then Suc (commits False es) else commits False es)"

lemma logged_append: "logged (es @ fs) = logged es @ logged fs"
  by (induction es rule: logged.induct) auto

lemma set_committed: "set (committed ws es) \<subseteq> set ws \<union> set (logged es)"
  by (induction ws es rule: committed.induct) auto

text \<open>A log of whole transactions.\<close>

definition txn_log :: "(block_t \<times> byte list) list \<Rightarrow> jentry list" where
  "txn_log ws = map (\<lambda>(b, x). JData b x) ws @ [JCommit]"

lemma logged_txn_log [simp]: "logged (txn_log ws) = ws"
proof -
  have "logged (map (\<lambda>(b, x). JData b x) ws) = ws" by (induction ws) auto
  then show ?thesis by (simp add: txn_log_def logged_append)
qed

lemma committed_data: "committed us (map (\<lambda>(b, x). JData b x) ws @ es) = committed (us @ ws) es"
  by (induction ws arbitrary: us) auto

lemma committed_txn_log [simp]: "committed us (txn_log ws @ es) = us @ ws @ committed [] es"
  by (simp add: txn_log_def committed_data)

lemma commits_txn_log [simp]: "ws \<noteq> [] \<Longrightarrow> commits f (txn_log ws @ es) = Suc (commits False es)"
proof -
  have "commits f (map (\<lambda>(b, x). JData b x) ws @ JCommit # es) = (if f \<or> ws \<noteq> [] then Suc (commits False es) else commits False es)"
    for f by (induction ws arbitrary: f) auto
  then show "ws \<noteq> [] \<Longrightarrow> ?thesis" by (simp add: txn_log_def)
qed

text \<open>A log without a trailing uncommitted transaction composes.\<close>

fun closed_log :: "bool \<Rightarrow> jentry list \<Rightarrow> bool" where
  "closed_log f [] = (\<not> f)"
| "closed_log f (JData b x # es) = closed_log True es"
| "closed_log f (JCommit # es) = closed_log False es"

lemma committed_append: "closed_log f es \<Longrightarrow> (ws \<noteq> [] \<longrightarrow> f) \<Longrightarrow> committed ws (es @ fs) = committed ws es @ committed [] fs"
  by (induction f es arbitrary: ws rule: closed_log.induct) auto

lemma commits_append: "closed_log f es \<Longrightarrow> commits f (es @ fs) = commits f es + commits False fs"
  by (induction f es rule: closed_log.induct) auto

lemma closed_append: "closed_log f es \<Longrightarrow> closed_log f (es @ fs) = closed_log False fs"
  by (induction f es rule: closed_log.induct) auto

lemma closed_txn_log [simp]: "closed_log f (txn_log ws)"
proof -
  have "closed_log f (map (\<lambda>(b, x). JData b x) ws @ [JCommit])" for f by (induction ws arbitrary: f) auto
  then show ?thesis by (simp add: txn_log_def)
qed

section \<open>The ring\<close>

definition in_ring :: "journal \<Rightarrow> block_t \<Rightarrow> bool" where
  "in_ring jm b \<longleftrightarrow> (\<exists>k < unat (jm_blocks jm). b = jm_start jm + of_nat k)"

definition ring_good :: "journal \<Rightarrow> disk \<Rightarrow> bool" where
  "ring_good jm d \<longleftrightarrow> 2 \<le> unat (jm_blocks jm) \<and> unat (jm_start jm) + unat (jm_blocks jm) \<le> 2 ^ 32 \<and>
     (\<forall>b. in_ring jm b \<longrightarrow> \<not> dk_read_bad d b \<and> \<not> dk_write_bad d b) \<and> \<not> dk_fsync_bad d"

lemma unat_small: "k < 2 ^ 32 \<Longrightarrow> unat (of_nat k :: u32) = k"
  by (simp add: unsigned_of_nat take_bit_nat_eq_self_iff)

lemma u32_of_nat_eq: "k < 2 ^ 32 \<Longrightarrow> l < 2 ^ 32 \<Longrightarrow> ((of_nat k :: u32) = of_nat l) = (k = l)"
  by (metis unat_small)

lemma u32_blocks: "unat (x :: u32) < 2 ^ 32"
  using unsigned_less [of x, where ?'a = nat] by simp

lemma ring_eq:
  assumes "k < unat (n :: u32)" "l < unat n"
  shows "((s :: u32) + of_nat k = s + of_nat l) = (k = l)"
  using u32_of_nat_eq [of k l] u32_blocks [of n] assms by simp

lemma ring_next:
  assumes "p + j < unat (n :: u32)"
  shows "((of_nat p :: u32) + of_nat j) mod n = of_nat (p + j)"
proof -
  have "unat (of_nat (p + j) :: u32) = p + j"
    by (rule unat_small) (use assms u32_blocks [of n] in linarith)
  then have "unat ((of_nat (p + j) :: u32) mod n) = p + j" using assms by (simp add: unat_mod)
  then have "(of_nat (p + j) :: u32) mod n = of_nat (p + j)"
    using \<open>unat (of_nat (p + j) :: u32) = p + j\<close> by (simp only: word_unat_eq_iff)
  then show ?thesis by simp
qed

lemma ring_goodD:
  assumes "ring_good jm d" "k < unat (jm_blocks jm)"
  shows "\<not> dk_read_bad d (jm_start jm + of_nat k)" "\<not> dk_write_bad d (jm_start jm + of_nat k)"
  using assms by (auto simp: ring_good_def in_ring_def)

lemma ring_put [simp]: "ring_good jm (put_all d ws) = ring_good jm d" "ring_good jm (put_block d b x) = ring_good jm d"
  by (simp_all add: ring_good_def)

text \<open>Writes outside the ring leave a log alone.\<close>

lemma log_at_outside:
  assumes "log_at (dk_blocks d) (jm_start jm) p es e" "e \<le> unat (jm_blocks jm)" "\<forall>b \<in> fst ` set ws. \<not> in_ring jm b"
  shows "log_at (dk_blocks (put_all d ws)) (jm_start jm) p es e"
  using assms(1)
proof (rule log_at_cong)
  fix k assume "p \<le> k" "k < e"
  then have "k < unat (jm_blocks jm)" using assms(2) by simp
  then have "in_ring jm (jm_start jm + of_nat k)" unfolding in_ring_def by blast
  then have "jm_start jm + of_nat k \<notin> fst ` set ws" using assms(3) by blast
  then show "dk_blocks (put_all d ws) (jm_start jm + of_nat k) = dk_blocks d (jm_start jm + of_nat k)"
    by (simp add: upd_all_other)
qed

section \<open>Recovery\<close>

lemma read_journal_data:
  assumes g: "ring_good jm d" and p: "p + 1 < unat (jm_blocks jm)"
    and m: "(le_word (slice 0 4 (dk_blocks d (jm_start jm + of_nat p))) :: u32) = JOURNAL_DATA_MAGIC"
  shows "read_journal_block jm d (of_nat p) = Ok (JOURNAL_DATA_MAGIC,
     le_word (slice 4 4 (dk_blocks d (jm_start jm + of_nat p))), dk_blocks d (jm_start jm + of_nat (p + 1)))"
proof -
  have "unat (jm_start jm) + (p + 1) < 2 ^ 32" using g p by (simp add: ring_good_def)
  then have "unat (jm_start jm + of_nat (p + 1)) = unat (jm_start jm) + (p + 1)"
    by (simp add: unat_word_ariths unsigned_of_nat take_bit_eq_mod)
  then have nz: "jm_start jm + of_nat (p + 1) \<noteq> 0" by (metis add_is_0 one_neq_zero unat_0)
  have r: "pread_block d (jm_start jm + of_nat p) = Some (dk_blocks d (jm_start jm + of_nat p))"
    "pread_block d (jm_start jm + of_nat (p + 1)) = Some (dk_blocks d (jm_start jm + of_nat (p + 1)))"
    using ring_goodD(1) [OF g, of p] ring_goodD(1) [OF g, of "p + 1"] p by (simp_all add: pread_good)
  have e: "jm_start jm + of_nat p + 1 = jm_start jm + of_nat (p + 1)" by simp
  show ?thesis
    unfolding read_journal_block_def Let_def r(1) option.case m e using nz r(2) by (simp del: of_nat_add of_nat_Suc)
qed

lemma read_journal_other:
  assumes g: "ring_good jm d" and p: "p < unat (jm_blocks jm)"
    and m: "(le_word (slice 0 4 (dk_blocks d (jm_start jm + of_nat p))) :: u32) \<noteq> JOURNAL_DATA_MAGIC"
  shows "read_journal_block jm d (of_nat p) =
     Ok (le_word (slice 0 4 (dk_blocks d (jm_start jm + of_nat p))), 0, [])"
  using m ring_goodD(1) [OF g p] by (simp add: read_journal_block_def pread_good Let_def)

lemma recover_loop_spec:
  assumes "ring_good jm d" "log_at (dk_blocks d) (jm_start jm) p es e" "e < unat (jm_blocks jm)"
    and "\<forall>b \<in> fst ` (set ws \<union> set (logged es)). \<not> in_ring jm b \<and> \<not> dk_write_bad d b"
  shows "recover_loop jm d (of_nat p) (of_nat e) (ws \<noteq> []) ws n =
     Some (Ok (n + commits (ws \<noteq> []) es), put_all d (committed ws es))"
  using assms
proof (induction es arbitrary: d p ws n)
  case Nil
  then show ?case by (simp add: recover_loop.simps)
next
  case (Cons x es)
  have ne: "(of_nat p :: u32) \<noteq> of_nat e" if "p < e"
    using that Cons.prems(3) u32_blocks [of "jm_blocks jm"] by (subst u32_of_nat_eq) auto
  show ?case
  proof (cases x)
    case (JData b y)
    have l: "(le_word (slice 0 4 (dk_blocks d (jm_start jm + of_nat p))) :: u32) = JOURNAL_DATA_MAGIC"
      "le_word (slice 4 4 (dk_blocks d (jm_start jm + of_nat p))) = b" "dk_blocks d (jm_start jm + of_nat (p + 1)) = y"
      "log_at (dk_blocks d) (jm_start jm) (p + 2) es e"
      using Cons.prems(2) JData by simp_all
    have pe: "p + 2 \<le> e" by (rule log_at_le [OF l(4)])
    have nx: "((of_nat p :: u32) + 2) mod jm_blocks jm = of_nat (p + 2)"
      using ring_next [of p 2 "jm_blocks jm"] pe Cons.prems(3) by simp
    have "recover_loop jm d (of_nat (p + 2)) (of_nat e) (ws @ [(b, y)] \<noteq> []) (ws @ [(b, y)]) n =
        Some (Ok (n + commits (ws @ [(b, y)] \<noteq> []) es), put_all d (committed (ws @ [(b, y)]) es))"
      by (rule Cons.IH [OF Cons.prems(1) l(4) Cons.prems(3)]) (use Cons.prems(4) JData in auto)
    moreover have "read_journal_block jm d (of_nat p) = Ok (JOURNAL_DATA_MAGIC, b, y)"
      using read_journal_data [OF Cons.prems(1) _ l(1)] l(2,3) pe Cons.prems(3) by simp
    ultimately show ?thesis
      using ne pe JData nx by (subst recover_loop.simps) simp
  next
    case JCommit
    have l: "(le_word (slice 0 4 (dk_blocks d (jm_start jm + of_nat p))) :: u32) = JOURNAL_COMMIT_MAGIC"
      "log_at (dk_blocks d) (jm_start jm) (p + 1) es e"
      using Cons.prems(2) JCommit by simp_all
    have pe: "p + 1 \<le> e" by (rule log_at_le [OF l(2)])
    have nx: "((of_nat p :: u32) + 1) mod jm_blocks jm = of_nat (p + 1)"
      using ring_next [of p 1 "jm_blocks jm"] pe Cons.prems(3) by simp
    have rd: "read_journal_block jm d (of_nat p) = Ok (JOURNAL_COMMIT_MAGIC, 0, [])"
      using read_journal_other [OF Cons.prems(1)] l(1) pe Cons.prems(3) by simp
    have l': "log_at (dk_blocks (put_all d ws)) (jm_start jm) (p + 1) es e"
      by (rule log_at_outside [OF l(2)]) (use Cons.prems(3,4) in auto)
    have ih: "\<forall>b \<in> fst ` (set [] \<union> set (logged es)). \<not> in_ring jm b \<and> \<not> dk_write_bad (put_all d ws) b"
      "ring_good jm (put_all d ws)"
      using Cons.prems(1,4) JCommit by auto
    have "recover_loop jm (put_all d ws) (of_nat (p + 1)) (of_nat e) False [] m =
        Some (Ok (m + commits False es), put_all (put_all d ws) (committed [] es))" for m
      using Cons.IH [OF ih(2) l' Cons.prems(3) ih(1)] by simp
    moreover have "replay d ws = (Ok (), put_all d ws)" by (rule replay_good) (use Cons.prems(4) in auto)
    ultimately show ?thesis
      using ne pe JCommit nx rd by (cases "ws = []"; subst recover_loop.simps) (simp_all add: put_all_append)
  qed
qed

section \<open>Journals\<close>

text \<open>
  The journal \<open>jm\<close> holds the log \<open>es\<close> on the disk \<open>d\<close>: the entries lie between head and tail, in front of
  the end of the ring and behind its superblock.
\<close>

definition jwf :: "journal \<Rightarrow> disk \<Rightarrow> jentry list \<Rightarrow> bool" where
  "jwf jm d es \<longleftrightarrow> ring_good jm d \<and> 0 < unat (js_head (jm_sb jm)) \<and>
     unat (js_tail (jm_sb jm)) < unat (jm_blocks jm) \<and>
     log_at (dk_blocks d) (jm_start jm) (unat (js_head (jm_sb jm))) es (unat (js_tail (jm_sb jm))) \<and>
     js_magic (jm_sb jm) = JOURNAL_MAGIC \<and> length (js_reserved (jm_sb jm)) = 4040"

definition sb_stored :: "journal \<Rightarrow> disk \<Rightarrow> bool" where
  "sb_stored jm d \<longleftrightarrow> dk_blocks d (jm_start jm) = struct_block (encode_journal_superblock (jm_sb jm))"

definition targets_ok :: "journal \<Rightarrow> disk \<Rightarrow> (block_t \<times> byte list) list \<Rightarrow> bool" where
  "targets_ok jm d ws \<longleftrightarrow> (\<forall>(b, x) \<in> set ws. \<not> in_ring jm b \<and> \<not> dk_write_bad d b \<and> length x = BLOCK_SIZE)"

definition reopened :: "journal \<Rightarrow> journal" where
  "reopened jm = jm\<lparr>jm_active := [], jm_next_tid := 1\<rparr>"

lemma jwf_reopened [simp]: "jwf (reopened jm) d es = jwf jm d es"
  by (simp add: jwf_def reopened_def ring_good_def in_ring_def)

lemma targets_ok_sub: "targets_ok jm d ws \<Longrightarrow> set us \<subseteq> set ws \<Longrightarrow> targets_ok jm d us"
  by (auto simp: targets_ok_def)

lemma targets_okD:
  "targets_ok jm d ws \<Longrightarrow> \<forall>b \<in> fst ` set ws. \<not> in_ring jm b \<and> \<not> dk_write_bad d b"
  by (auto simp: targets_ok_def)

lemma jwf_head_tail: "jwf jm d es \<Longrightarrow> unat (js_head (jm_sb jm)) \<le> unat (js_tail (jm_sb jm))"
  by (auto simp: jwf_def dest: log_at_le)

lemma jwf_empty_log:
  assumes "jwf jm d es" "js_head (jm_sb jm) = js_tail (jm_sb jm)"
  shows "es = []"
proof -
  have l: "log_at (dk_blocks d) (jm_start jm) (unat (js_head (jm_sb jm))) es (unat (js_head (jm_sb jm)))"
    using assms by (simp add: jwf_def)
  show ?thesis
  proof (cases es)
    case (Cons x xs)
    then show ?thesis using l by (cases x) (auto dest: log_at_le)
  qed simp
qed

lemma journal_new_spec:
  assumes "jwf jm d es" "sb_stored jm d"
  shows "journal_new d (jm_start jm) (jm_blocks jm) = Ok (reopened jm)"
proof -
  have g: "ring_good jm d" and h: "0 < unat (js_head (jm_sb jm))" and r: "length (js_reserved (jm_sb jm)) = 4040"
    and m: "js_magic (jm_sb jm) = JOURNAL_MAGIC"
    using assms(1) by (simp_all add: jwf_def)
  have "\<not> jm_blocks jm < 2" using g by (simp add: ring_good_def word_less_nat_alt)
  moreover have "pread_block d (jm_start jm) = Some (struct_block (encode_journal_superblock (jm_sb jm)))"
    using ring_goodD(1) [OF g, of 0] g assms(2) by (simp add: ring_good_def sb_stored_def pread_good)
  moreover have "js_head (jm_sb jm) \<noteq> 0" using h by auto
  ultimately show ?thesis
    using m by (simp add: journal_new_def decode_journal_superblock [OF r] reopened_def)
qed

lemma journal_recover_spec:
  assumes w: "jwf jm d es" and t: "targets_ok jm d (logged es)"
  shows "journal_recover jm d = Some (Ok (commits False es), put_all d (committed [] es))"
proof (cases "js_head (jm_sb jm) = js_tail (jm_sb jm)")
  case True
  then show ?thesis using jwf_empty_log [OF w True] by (simp add: journal_recover_def)
next
  case False
  have "recover_loop jm d (of_nat (unat (js_head (jm_sb jm)))) (of_nat (unat (js_tail (jm_sb jm)))) ([] \<noteq> ([] :: (block_t \<times> byte list) list)) [] 0 =
      Some (Ok (0 + commits ([] \<noteq> ([] :: (block_t \<times> byte list) list)) es), put_all d (committed [] es))"
    by (rule recover_loop_spec) (use w targets_okD [OF t] in \<open>auto simp: jwf_def\<close>)
  moreover have "\<not> dk_fsync_bad d" using w by (simp add: jwf_def ring_good_def)
  ultimately show ?thesis using False by (simp add: journal_recover_def)
qed

section \<open>Committing\<close>

text \<open>The block writes of a commit at position \<open>p\<close>, in order; the superblock comes last.\<close>

fun data_log :: "u32 \<Rightarrow> nat \<Rightarrow> (block_t \<times> byte list) list \<Rightarrow> (block_t \<times> byte list) list" where
  "data_log s p [] = []"
| "data_log s p ((b, x) # ws) =
     (s + of_nat p, header_block b x) # (s + of_nat (p + 1), x) # data_log s (p + 2) ws"

definition set_tail :: "nat \<Rightarrow> journal \<Rightarrow> journal" where
  "set_tail q jm = jm\<lparr>jm_sb := (jm_sb jm)\<lparr>js_tail := of_nat q\<rparr>\<rparr>"

definition commit_log :: "journal \<Rightarrow> transaction \<Rightarrow> (block_t \<times> byte list) list" where
  "commit_log jm t =
     (let s = jm_start jm; p = unat (js_tail (jm_sb jm)); n = length (tx_writes t) in
      data_log s p (tx_writes t) @ [(s + of_nat (p + 2 * n), commit_block (tx_id t) n),
        (s, struct_block (encode_journal_superblock (jm_sb (set_tail (p + 2 * n + 1) jm))))])"

definition jroom :: "journal \<Rightarrow> transaction \<Rightarrow> bool" where
  "jroom jm t \<longleftrightarrow> unat (js_tail (jm_sb jm)) + 2 * length (tx_writes t) + 1 < unat (jm_blocks jm)"

lemma allocate_spec:
  assumes "unat (js_head (jm_sb jm)) \<le> p" "p + 1 < unat (jm_blocks jm)"
  shows "allocate_journal_block (set_tail p jm) = (Ok (of_nat p), set_tail (p + 1) jm)"
proof -
  have n: "((of_nat p :: u32) + 1) mod jm_blocks jm = of_nat (p + 1)"
    using ring_next [of p 1 "jm_blocks jm"] assms(2) by simp
  moreover have "unat (of_nat (p + 1) :: u32) = p + 1"
    by (rule unat_small) (use assms(2) u32_blocks [of "jm_blocks jm"] in linarith)
  then have "of_nat (p + 1) \<noteq> js_head (jm_sb jm)" using assms(1) by auto
  ultimately show ?thesis by (simp add: allocate_journal_block_def set_tail_def)
qed

lemma set_tail_simps [simp]:
  "jm_start (set_tail p jm) = jm_start jm" "jm_blocks (set_tail p jm) = jm_blocks jm"
  "js_head (jm_sb (set_tail p jm)) = js_head (jm_sb jm)" "js_tail (jm_sb (set_tail p jm)) = of_nat p"
  "set_tail q (set_tail p jm) = set_tail q jm" "set_tail (unat (js_tail (jm_sb jm))) jm = jm"
  "js_magic (jm_sb (set_tail p jm)) = js_magic (jm_sb jm)" "js_reserved (jm_sb (set_tail p jm)) = js_reserved (jm_sb jm)"
  by (simp_all add: set_tail_def)

lemma write_journal_data_spec:
  assumes "ring_good jm d" "unat (js_head (jm_sb jm)) \<le> p" "p + 2 < unat (jm_blocks jm)" "length x = BLOCK_SIZE"
  shows "write_journal_data (set_tail (p + 1) jm) d (of_nat p) b x =
     (Ok (), set_tail (p + 2) jm, put_all d [(jm_start jm + of_nat p, header_block b x), (jm_start jm + of_nat (p + 1), x)])"
proof -
  have "allocate_journal_block (set_tail (p + 1) jm) = (Ok (of_nat (p + 1)), set_tail (p + 1 + 1) jm)"
    by (rule allocate_spec) (use assms in auto)
  moreover have "\<not> dk_write_bad d (jm_start jm + of_nat p)" "\<not> dk_write_bad d (jm_start jm + of_nat (p + 1))"
    using ring_goodD(2) [OF assms(1)] assms(3) by (simp_all del: of_nat_add of_nat_Suc)
  ultimately show ?thesis
    using assms(4) by (simp add: write_journal_data_def Let_def pwrite_good header_block_def)
qed

lemma commit_writes_spec:
  assumes "ring_good jm d" "unat (js_head (jm_sb jm)) \<le> p" "p + 2 * length ws < unat (jm_blocks jm)"
    and "\<forall>(b, x) \<in> set ws. length x = BLOCK_SIZE"
  shows "\<exists>us. commit_writes (set_tail p jm) d ws used =
     (Ok (used @ us), set_tail (p + 2 * length ws) jm, put_all d (data_log (jm_start jm) p ws)) \<and> length us = length ws"
  using assms
proof (induction ws arbitrary: p d used)
  case (Cons w ws)
  obtain b x where w: "w = (b, x)" by force
  note a = allocate_spec [OF Cons.prems(2)]
  let ?d = "put_all d [(jm_start jm + of_nat p, header_block b x), (jm_start jm + of_nat (p + 1), x)]"
  have h: "write_journal_data (set_tail (p + 1) jm) d (of_nat p) b x = (Ok (), set_tail (p + 2) jm, ?d)"
    by (rule write_journal_data_spec) (use Cons.prems w in auto)
  have "ring_good jm ?d" "\<forall>(b, x) \<in> set ws. length x = BLOCK_SIZE" "unat (js_head (jm_sb jm)) \<le> p + 2"
    "p + 2 + 2 * length ws < unat (jm_blocks jm)"
    using Cons.prems by (simp_all only: ring_put) auto
  from Cons.IH [OF this(1,3,4,2), of "used @ [of_nat p]"] obtain us where
    "commit_writes (set_tail (p + 2) jm) ?d ws (used @ [of_nat p]) =
       (Ok ((used @ [of_nat p]) @ us), set_tail (p + 2 + 2 * length ws) jm, put_all ?d (data_log (jm_start jm) (p + 2) ws))"
    "length us = length ws" by blast
  then show ?case
    using a h Cons.prems(3) w by (intro exI [of _ "of_nat p # us"]) (simp add: add.commute)
qed simp

lemma journal_commit_trace:
  assumes g: "ring_good jm d" and h: "unat (js_head (jm_sb jm)) \<le> unat (js_tail (jm_sb jm))" and r: "jroom jm t"
    and t: "tx_state t = Active" "tx_writes t \<noteq> []" "\<forall>(b, x) \<in> set (tx_writes t). length x = BLOCK_SIZE"
  shows "journal_commit jm d t = (Ok (), t\<lparr>tx_state := Committed\<rparr>,
     remove_active (tx_id t) (set_tail (unat (js_tail (jm_sb jm)) + 2 * length (tx_writes t) + 1) jm),
     put_all d (commit_log jm t))"
proof -
  let ?p = "unat (js_tail (jm_sb jm))" and ?n = "length (tx_writes t)"
  have room: "?p + 2 * ?n + 1 < unat (jm_blocks jm)" using r by (simp add: jroom_def)
  obtain us where us: "commit_writes jm d (tx_writes t) [] =
      (Ok us, set_tail (?p + 2 * ?n) jm, put_all d (data_log (jm_start jm) ?p (tx_writes t)))" "length us = ?n"
    using commit_writes_spec [OF g h, of "tx_writes t" "[]"] room t(3) by auto
  let ?d = "put_all d (data_log (jm_start jm) ?p (tx_writes t))"
  have al: "allocate_journal_block (set_tail (?p + 2 * ?n) jm) = (Ok (of_nat (?p + 2 * ?n)), set_tail (?p + 2 * ?n + 1) jm)"
    by (rule allocate_spec) (use h room in auto)
  have wb: "\<not> dk_write_bad d (jm_start jm + of_nat (?p + 2 * ?n))" "\<not> dk_write_bad d (jm_start jm)"
    using ring_goodD(2) [OF g, of "?p + 2 * ?n"] ring_goodD(2) [OF g, of 0] room by (simp_all del: of_nat_add of_nat_mult)
  have fs: "\<not> dk_fsync_bad d" using g by (simp add: ring_good_def)
  show ?thesis
    using t(1,2) us al wb fs
    by (simp del: of_nat_add of_nat_mult add: journal_commit_def write_commit_record_def sync_superblock_to_disk_def Let_def
        pwrite_good commit_block_def [symmetric] commit_log_def put_all_append)
qed

text \<open>What the writes leave in the ring.\<close>

lemma data_log_pos:
  "b \<in> fst ` set (data_log s p ws) \<Longrightarrow> \<exists>k. p \<le> k \<and> k < p + 2 * length ws \<and> b = s + of_nat k"
proof (induction s p ws rule: data_log.induct)
  case (2 s p c x ws)
  consider "b = s + of_nat p" | "b = s + of_nat (p + 1)" | "b \<in> fst ` set (data_log s (p + 2) ws)"
    using "2.prems" by auto
  then show ?case
  proof cases
    case 3
    then obtain k where "p + 2 \<le> k" "k < p + 2 + 2 * length ws" "b = s + of_nat k" using "2.IH" by blast
    then show ?thesis by (intro exI [of _ k]) simp
  next
    case 1
    then show ?thesis by (intro exI [of _ p]) simp
  next
    case 2
    then show ?thesis by (intro exI [of _ "p + 1"]) simp
  qed
qed simp

lemma data_log_other:
  assumes "k < unat (n :: u32)" "p + 2 * length ws \<le> unat n" "k < p \<or> p + 2 * length ws \<le> k"
  shows "s + of_nat k \<notin> fst ` set (data_log s p ws)"
proof
  assume "s + of_nat k \<in> fst ` set (data_log s p ws)"
  from data_log_pos [OF this] obtain l where l: "p \<le> l" "l < p + 2 * length ws" "s + of_nat k = s + of_nat l" by blast
  then have "k = l" using ring_eq [of k n l s] assms by simp
  then show False using l assms(3) by simp
qed

lemma data_log_log_at:
  assumes "p + 2 * length ws \<le> unat (n :: u32)"
  shows "log_at (upd_all v (data_log s p ws)) s p (map (\<lambda>(b, x). JData b x) ws) (p + 2 * length ws)"
  using assms
proof (induction ws arbitrary: p v)
  case (Cons w ws)
  obtain b x where w: "w = (b, x)" by force
  let ?v = "v(s + of_nat p := header_block b x, s + of_nat (p + 1) := x)"
  have o: "upd_all ?v (data_log s (p + 2) ws) (s + of_nat k) = ?v (s + of_nat k)" if "k < p + 2" for k
    by (rule upd_all_other, rule data_log_other [of _ n]) (use that Cons.prems in auto)
  have ne: "s + of_nat p \<noteq> s + of_nat (p + 1)" using ring_eq [of p n "p + 1" s] Cons.prems by (simp del: of_nat_add of_nat_Suc)
  have "log_at (upd_all ?v (data_log s (p + 2) ws)) s (p + 2) (map (\<lambda>(b, x). JData b x) ws) (p + 2 + 2 * length ws)"
    by (rule Cons.IH) (use Cons.prems in simp)
  then show ?case using o [of p] o [of "p + 1"] ne w by (simp del: of_nat_add of_nat_Suc)
qed simp

lemma log_at_upto: "log_at v s p es e \<Longrightarrow> \<forall>k. p \<le> k \<and> k < e \<longrightarrow> s + of_nat k \<notin> fst ` set ws \<Longrightarrow> log_at (upd_all v ws) s p es e"
  by (rule log_at_cong) (auto simp: upd_all_other)

text \<open>The entries of a commit after its blocks were written, before the superblock.\<close>

lemma commit_entries:
  assumes "p + 2 * length ws + 1 \<le> unat (n :: u32)"
  shows "log_at (upd_all v (data_log s p ws @ [(s + of_nat (p + 2 * length ws), commit_block i k)])) s p (txn_log ws)
     (p + 2 * length ws + 1)"
proof -
  let ?v = "upd_all v (data_log s p ws)" and ?q = "p + 2 * length ws"
  have "log_at (upd_all ?v [(s + of_nat ?q, commit_block i k)]) s p (map (\<lambda>(b, x). JData b x) ws) ?q"
  proof (rule log_at_upto)
    show "log_at ?v s p (map (\<lambda>(b, x). JData b x) ws) ?q" by (rule data_log_log_at [of _ _ n]) (use assms in simp)
    show "\<forall>k'. p \<le> k' \<and> k' < ?q \<longrightarrow> s + of_nat k' \<notin> fst ` set [(s + of_nat ?q, commit_block i k)]"
      using assms ring_eq [of _ n ?q s] by (auto simp del: of_nat_add of_nat_mult)
  qed
  then show ?thesis
    by (simp del: of_nat_add of_nat_mult add: txn_log_def log_at_append upd_all_append)
qed

text \<open>
  A commit that runs only in part, up to its last block, leaves the journal of before; a whole one
  appends its transaction.
\<close>

definition after_commit :: "journal \<Rightarrow> transaction \<Rightarrow> journal" where
  "after_commit jm t = remove_active (tx_id t) (set_tail (unat (js_tail (jm_sb jm)) + 2 * length (tx_writes t) + 1) jm)"

lemma remove_active_simps [simp]:
  "jm_start (remove_active i jm) = jm_start jm" "jm_blocks (remove_active i jm) = jm_blocks jm"
  "jm_sb (remove_active i jm) = jm_sb jm"
  by (simp_all add: remove_active_def)

lemma after_commit_simps [simp]:
  "jm_start (after_commit jm t) = jm_start jm" "jm_blocks (after_commit jm t) = jm_blocks jm"
  "js_head (jm_sb (after_commit jm t)) = js_head (jm_sb jm)" "js_magic (jm_sb (after_commit jm t)) = js_magic (jm_sb jm)"
  "js_reserved (jm_sb (after_commit jm t)) = js_reserved (jm_sb jm)"
  "jm_sb (after_commit jm t) = jm_sb (set_tail (unat (js_tail (jm_sb jm)) + 2 * length (tx_writes t) + 1) jm)"
  by (simp_all add: after_commit_def)

lemma commit_log_pos:
  assumes "jroom jm t" "b \<in> fst ` set (butlast (commit_log jm t))"
  shows "\<exists>k. unat (js_tail (jm_sb jm)) \<le> k \<and> k < unat (jm_blocks jm) \<and> b = jm_start jm + of_nat k"
proof -
  let ?p = "unat (js_tail (jm_sb jm))" and ?n = "length (tx_writes t)"
  have "butlast (commit_log jm t) = data_log (jm_start jm) ?p (tx_writes t) @ [(jm_start jm + of_nat (?p + 2 * ?n), commit_block (tx_id t) ?n)]"
    by (simp add: commit_log_def Let_def butlast_append)
  then consider "b \<in> fst ` set (data_log (jm_start jm) ?p (tx_writes t))" | "b = jm_start jm + of_nat (?p + 2 * ?n)"
    using assms(2) by auto
  then show ?thesis
  proof cases
    case 1
    then show ?thesis using data_log_pos [OF 1] assms(1) by (fastforce simp: jroom_def)
  next
    case 2
    then show ?thesis using assms(1) by (intro exI [of _ "?p + 2 * ?n"]) (simp add: jroom_def)
  qed
qed

lemma crash_before:
  assumes w: "jwf jm d es" "sb_stored jm d" and r: "jroom jm t" and k: "k < length (commit_log jm t)"
  shows "jwf jm (put_all d (take k (commit_log jm t))) es" "sb_stored jm (put_all d (take k (commit_log jm t)))"
proof -
  let ?ws = "take k (commit_log jm t)" and ?h = "unat (js_head (jm_sb jm))" and ?p = "unat (js_tail (jm_sb jm))"
  have "set ?ws \<subseteq> set (butlast (commit_log jm t))"
    using k by (metis (no_types, lifting) butlast_conv_take diff_Suc_less less_Suc_eq_le min.absorb1 Suc_pred' length_greater_0_conv list.size(3) not_less_zero set_take_subset_set_take)
  then have pos: "\<exists>l. ?p \<le> l \<and> l < unat (jm_blocks jm) \<and> b = jm_start jm + of_nat l" if "b \<in> fst ` set ?ws" for b
    using commit_log_pos [OF r] that by blast
  have pb: "0 < ?p" "?p < unat (jm_blocks jm)" using w(1) jwf_head_tail [OF w(1)] by (auto simp: jwf_def)
  have out: "jm_start jm + of_nat l \<notin> fst ` set ?ws" if "l < ?p" for l
  proof
    assume "jm_start jm + of_nat l \<in> fst ` set ?ws"
    then obtain m where "?p \<le> m" "m < unat (jm_blocks jm)" "jm_start jm + of_nat l = jm_start jm + of_nat m" using pos by blast
    then show False using ring_eq [of l "jm_blocks jm" m "jm_start jm"] that pb by simp
  qed
  have "log_at (upd_all (dk_blocks d) ?ws) (jm_start jm) ?h es ?p"
    by (rule log_at_upto) (use w(1) out in \<open>auto simp: jwf_def\<close>)
  then show "jwf jm (put_all d ?ws) es" using w(1) by (simp add: jwf_def)
  show "sb_stored jm (put_all d ?ws)" using w(2) out [of 0] pb by (simp add: sb_stored_def upd_all_other)
qed

lemma crash_after:
  assumes w: "jwf jm d es" and r: "jroom jm t"
  shows "jwf (after_commit jm t) (put_all d (commit_log jm t)) (es @ txn_log (tx_writes t))"
    "sb_stored (after_commit jm t) (put_all d (commit_log jm t))"
proof -
  let ?s = "jm_start jm" and ?h = "unat (js_head (jm_sb jm))" and ?p = "unat (js_tail (jm_sb jm))" and ?n = "length (tx_writes t)"
  let ?ws = "data_log ?s ?p (tx_writes t) @ [(?s + of_nat (?p + 2 * ?n), commit_block (tx_id t) ?n)]"
  let ?sb = "(?s, struct_block (encode_journal_superblock (jm_sb (after_commit jm t))))"
  have e: "commit_log jm t = ?ws @ [?sb]" by (simp add: commit_log_def Let_def)
  have room: "?p + 2 * ?n + 1 < unat (jm_blocks jm)" using r by (simp add: jroom_def)
  have pb: "0 < ?h" "?h \<le> ?p" using w jwf_head_tail [OF w] by (auto simp: jwf_def)
  have u: "unat (of_nat (?p + 2 * ?n + 1) :: u32) = ?p + 2 * ?n + 1"
    by (rule unat_small) (use room u32_blocks [of "jm_blocks jm"] in linarith)
  have out: "?s + of_nat l \<notin> fst ` set ?ws" if "l < ?p" for l
  proof
    assume "?s + of_nat l \<in> fst ` set ?ws"
    moreover have "butlast (commit_log jm t) = ?ws" by (simp only: e butlast_snoc)
    ultimately obtain m where "?p \<le> m" "m < unat (jm_blocks jm)" "?s + of_nat l = ?s + of_nat m"
      using commit_log_pos [OF r] by metis
    then show False using ring_eq [of l "jm_blocks jm" m ?s] that room by simp
  qed
  have sb: "\<forall>k. ?h \<le> k \<and> k < ?p + 2 * ?n + 1 \<longrightarrow> ?s + of_nat k \<notin> fst ` set [?sb]"
    using ring_eq [of _ "jm_blocks jm" 0 ?s] room pb by auto
  have "log_at (upd_all (dk_blocks d) ?ws) ?s ?h es ?p"
    by (rule log_at_upto) (use w out in \<open>auto simp: jwf_def\<close>)
  moreover have "log_at (upd_all (dk_blocks d) ?ws) ?s ?p (txn_log (tx_writes t)) (?p + 2 * ?n + 1)"
    by (rule commit_entries [of _ _ "jm_blocks jm"]) (use room in simp)
  ultimately have "log_at (upd_all (dk_blocks d) ?ws) ?s ?h (es @ txn_log (tx_writes t)) (?p + 2 * ?n + 1)"
    by (auto simp: log_at_append)
  then have "log_at (upd_all (upd_all (dk_blocks d) ?ws) [?sb]) ?s ?h (es @ txn_log (tx_writes t)) (?p + 2 * ?n + 1)"
    by (rule log_at_upto) (rule sb)
  moreover have v: "dk_blocks (put_all d (commit_log jm t)) = upd_all (upd_all (dk_blocks d) ?ws) [?sb]"
    by (simp only: put_all_simps(1) e upd_all_append)
  ultimately have "log_at (dk_blocks (put_all d (commit_log jm t))) ?s ?h (es @ txn_log (tx_writes t)) (?p + 2 * ?n + 1)"
    by (simp only: v)
  then show "jwf (after_commit jm t) (put_all d (commit_log jm t)) (es @ txn_log (tx_writes t))"
    using w u room by (simp del: of_nat_add of_nat_mult of_nat_Suc put_all_simps(1) add: jwf_def ring_good_def in_ring_def)
  show "sb_stored (after_commit jm t) (put_all d (commit_log jm t))"
    by (simp add: sb_stored_def e upd_all_append)
qed

end
