(* ===== verification/Journal_Checkpoint.thy ===== *)
theory Journal_Checkpoint
  imports Journal_Spec
begin

text \<open>
  The journal beside the buffer cache of the C code: raw writes to blocks that are not cached, the
  invalidation after a write-through, and the checkpoint, after which readers see every logged block.
\<close>

section \<open>Writing past the cache\<close>

definition uncached :: "block_device \<Rightarrow> (block_t \<Rightarrow> bool) \<Rightarrow> bool" where
  "uncached dev P \<longleftrightarrow> (\<forall>b. P b \<longrightarrow> cells (bd_cache dev) b = None)"

definition raw :: "block_device \<Rightarrow> (block_t \<times> byte list) list \<Rightarrow> block_device" where
  "raw dev ws = dev\<lparr>bd_disk := put_all (bd_disk dev) ws\<rparr>"

lemma raw_simps [simp]:
  "bd_disk (raw dev ws) = put_all (bd_disk dev) ws" "bd_cache (raw dev ws) = bd_cache dev"
  "dev_static dev (raw dev ws)" "uncached (raw dev ws) P = uncached dev P"
  by (simp_all add: raw_def dev_static_def uncached_def)

lemma upd_all_lengths:
  assumes "\<And>b. length (v b) = n" "\<forall>(b, x) \<in> set ws. length x = n"
  shows "length (upd_all v ws b) = n"
  using assms by (induction v ws rule: upd_all.induct) (auto simp del: fun_upd_apply simp: fun_upd_def split: if_splits)

lemma seen_uncached:
  assumes "\<forall>b \<in> fst ` set ws. m b = None"
  shows "seen m (put_all d ws) = upd_all (seen m d) ws"
proof
  fix b
  show "seen m (put_all d ws) b = upd_all (seen m d) ws b"
    using assms
  proof (induction d ws rule: put_all.induct)
    case (2 d c x ws)
    have "seen m (put_block d c x) = (seen m d)(c := x)" using "2.prems" by (auto simp: seen_def fun_eq_iff split: option.split)
    then show ?case using 2 by (simp del: fun_upd_apply)
  qed (simp add: seen_def)
qed

lemma raw_spec:
  assumes "dev_coherent dev" "uncached dev P" "\<forall>(b, x) \<in> set ws. P b \<and> length x = BLOCK_SIZE"
  shows "dev_coherent (raw dev ws)" "dev_view (raw dev ws) = upd_all (dev_view dev) ws"
proof -
  have n: "\<forall>b \<in> fst ` set ws. cells (bd_cache dev) b = None" using assms(2,3) by (auto simp: uncached_def)
  have "coherent (cells (bd_cache dev)) (put_all (bd_disk dev) ws)"
    unfolding coherent_def
  proof (intro allI impI)
    fix b x assume x: "cells (bd_cache dev) b = Some x"
    then have "b \<notin> fst ` set ws" using n by auto
    then show "(cl_dirty x \<longrightarrow> cl_valid x) \<and> (cl_valid x \<and> \<not> cl_dirty x \<longrightarrow> cl_data x = dk_blocks (put_all (bd_disk dev) ws) b)"
      using assms(1) x by (auto simp: dev_coherent_def coherent_def upd_all_other)
  qed
  moreover have "length (upd_all (dk_blocks (bd_disk dev)) ws b) = BLOCK_SIZE" for b
    by (rule upd_all_lengths) (use assms in \<open>auto simp: dev_coherent_def dev_wf_def\<close>)
  ultimately show "dev_coherent (raw dev ws)" using assms(1) by (simp add: dev_coherent_def dev_wf_def)
  show "dev_view (raw dev ws) = upd_all (dev_view dev) ws" by (simp add: dev_view_def seen_uncached [OF n])
qed

text \<open>A block written to the disk, then dropped from the cache: its buffer stays, invalid.\<close>

definition dropped :: "block_t set \<Rightarrow> (block_t \<Rightarrow> cell option) \<Rightarrow> block_t \<Rightarrow> cell option" where
  "dropped B m = (\<lambda>b. if b \<in> B then map_option (\<lambda>x. x\<lparr>cl_valid := False, cl_dirty := False\<rparr>) (m b) else m b)"

lemma dropped_simps [simp]: "dropped {} m = m" "dropped B (dropped A m) = dropped (A \<union> B) m"
  by (auto simp: dropped_def fun_eq_iff option.map_comp comp_def)

lemma uncached_dropped:
  "cells (bd_cache dev') = dropped B (cells (bd_cache dev)) \<Longrightarrow> uncached dev' P = uncached dev P"
  by (simp add: uncached_def dropped_def)

lemma write_invalidate:
  assumes "dev_coherent dev" "length x = BLOCK_SIZE"
  shows "\<exists>dev'. c_buffer_cache_invalidate_by_fd (Some (dev\<lparr>bd_disk := put_block (bd_disk dev) b x\<rparr>)) b = Some (Some dev') \<and>
     dev_coherent dev' \<and> dev_static dev dev' \<and> bd_disk dev' = put_block (bd_disk dev) b x \<and>
     dev_view dev' = (dev_view dev)(b := x) \<and> cells (bd_cache dev') = dropped {b} (cells (bd_cache dev))"
proof -
  note wf = dev_coherent_wf [OF assms(1)]
  from dev_wf_repr [OF wf] obtain bs where bs: "cache_repr (bd_cache dev) bs" by blast
  from buffer_cache_invalidate_repr [OF bs, of b] obtain c where
    c: "buffer_cache_invalidate (bd_cache dev) b = Some c" "cache_repr c bs" "same_config (bd_cache dev) c"
      "cells c = (cells (bd_cache dev))
        (b := map_option (\<lambda>x. x\<lparr>cl_valid := False, cl_dirty := False\<rparr>) (cells (bd_cache dev) b))" by blast
  let ?dev = "dev\<lparr>bd_disk := put_block (bd_disk dev) b x, bd_cache := c\<rparr>"
  have "coherent (cells c) (put_block (bd_disk dev) b x)"
    using assms unfolding c(4) by (auto simp: dev_coherent_def coherent_def)
  then have "dev_coherent ?dev"
    using c(2) wf assms(2) by (auto simp: dev_coherent_def dev_wf_def cache_repr_wf)
  moreover have "dev_view ?dev = (dev_view dev)(b := x)"
    by (auto simp: dev_view_def c(4) seen_def fun_eq_iff split: option.split)
  moreover have "dev_static dev ?dev" using c(3) by (simp add: dev_static_def)
  ultimately show ?thesis
    using c by (auto simp: c_buffer_cache_invalidate_by_fd_def dropped_def fun_eq_iff)
qed

section \<open>Checkpoint\<close>

lemma checkpoint_loop_spec:
  assumes "ring_good jm (bd_disk dev)" "dev_coherent dev"
    and "log_at (dk_blocks (bd_disk dev)) (jm_start jm) p es e" "e < unat (jm_blocks jm)"
    and "targets_ok jm (bd_disk dev) (logged es)"
  shows "\<exists>dev'. checkpoint_loop jm dev (of_nat p) (of_nat e) = Some (Ok (), dev') \<and> dev_coherent dev' \<and>
     dev_static dev dev' \<and> bd_disk dev' = put_all (bd_disk dev) (logged es) \<and>
     dev_view dev' = upd_all (dev_view dev) (logged es) \<and>
     cells (bd_cache dev') = dropped (fst ` set (logged es)) (cells (bd_cache dev))"
  using assms
proof (induction es arbitrary: dev p)
  case Nil
  then show ?case by (simp add: checkpoint_loop.simps)
next
  case (Cons x es)
  have ne: "(of_nat p :: u32) \<noteq> of_nat e" if "p < e"
    using that Cons.prems(4) u32_blocks [of "jm_blocks jm"] by (subst u32_of_nat_eq) auto
  show ?case
  proof (cases x)
    case (JData b y)
    have l: "(le_word (slice 0 4 (dk_blocks (bd_disk dev) (jm_start jm + of_nat p))) :: u32) = JOURNAL_DATA_MAGIC"
      "le_word (slice 4 4 (dk_blocks (bd_disk dev) (jm_start jm + of_nat p))) = b"
      "dk_blocks (bd_disk dev) (jm_start jm + of_nat (p + 1)) = y"
      "log_at (dk_blocks (bd_disk dev)) (jm_start jm) (p + 2) es e"
      using Cons.prems(3) JData by simp_all
    have pe: "p + 2 \<le> e" by (rule log_at_le [OF l(4)])
    have nx: "((of_nat p :: u32) + 2) mod jm_blocks jm = of_nat (p + 2)"
      using ring_next [of p 2 "jm_blocks jm"] pe Cons.prems(4) by simp
    have rd: "read_journal_block jm (bd_disk dev) (of_nat p) = Ok (JOURNAL_DATA_MAGIC, b, y)"
      using read_journal_data [OF Cons.prems(1) _ l(1)] l(2,3) pe Cons.prems(4) by simp
    have b: "\<not> in_ring jm b" "\<not> dk_write_bad (bd_disk dev) b" "length y = BLOCK_SIZE"
      "targets_ok jm (bd_disk dev) (logged es)"
      using Cons.prems(5) JData by (auto simp: targets_ok_def)
    from write_invalidate [OF Cons.prems(2) b(3), of b] obtain dev1 where
      1: "c_buffer_cache_invalidate_by_fd (Some (dev\<lparr>bd_disk := put_block (bd_disk dev) b y\<rparr>)) b = Some (Some dev1)"
        "dev_coherent dev1" "dev_static dev dev1" "bd_disk dev1 = put_block (bd_disk dev) b y"
        "dev_view dev1 = (dev_view dev)(b := y)"
        "cells (bd_cache dev1) = dropped {b} (cells (bd_cache dev))" by blast
    have l1: "log_at (dk_blocks (bd_disk dev1)) (jm_start jm) (p + 2) es e"
      using log_at_outside [OF l(4), of "[(b, y)]"] b(1) Cons.prems(4) 1(4) by simp
    have "ring_good jm (bd_disk dev1)" "targets_ok jm (bd_disk dev1) (logged es)"
      using Cons.prems(1) b(4) 1(4) by (auto simp: targets_ok_def)
    from Cons.IH [OF this(1) 1(2) l1 Cons.prems(4) this(2)] obtain dev' where
      2: "checkpoint_loop jm dev1 (of_nat (p + 2)) (of_nat e) = Some (Ok (), dev')" "dev_coherent dev'"
        "dev_static dev1 dev'" "bd_disk dev' = put_all (bd_disk dev1) (logged es)"
        "dev_view dev' = upd_all (dev_view dev1) (logged es)"
        "cells (bd_cache dev') = dropped (fst ` set (logged es)) (cells (bd_cache dev1))" by blast
    have "checkpoint_loop jm dev (of_nat p) (of_nat e) = Some (Ok (), dev')"
      using ne pe nx rd 1(1) 2(1) pwrite_good [OF b(2)] by (subst checkpoint_loop.simps) simp
    then show ?thesis using 2 1(3-6) JData dev_static_trans by (intro exI [of _ dev']) auto
  next
    case JCommit
    have l: "(le_word (slice 0 4 (dk_blocks (bd_disk dev) (jm_start jm + of_nat p))) :: u32) = JOURNAL_COMMIT_MAGIC"
      "log_at (dk_blocks (bd_disk dev)) (jm_start jm) (p + 1) es e"
      using Cons.prems(3) JCommit by simp_all
    have pe: "p + 1 \<le> e" by (rule log_at_le [OF l(2)])
    have nx: "((of_nat p :: u32) + 1) mod jm_blocks jm = of_nat (p + 1)"
      using ring_next [of p 1 "jm_blocks jm"] pe Cons.prems(4) by simp
    have rd: "read_journal_block jm (bd_disk dev) (of_nat p) = Ok (JOURNAL_COMMIT_MAGIC, 0, [])"
      using read_journal_other [OF Cons.prems(1)] l(1) pe Cons.prems(4) by simp
    have "targets_ok jm (bd_disk dev) (logged es)" using Cons.prems(5) JCommit by simp
    from Cons.IH [OF Cons.prems(1,2) l(2) Cons.prems(4) this] show ?thesis
      using ne pe nx rd JCommit by (subst checkpoint_loop.simps) simp
  qed
qed

definition emptied_journal :: "journal \<Rightarrow> journal" where
  "emptied_journal jm = jm\<lparr>jm_sb := (jm_sb jm)\<lparr>js_head := js_tail (jm_sb jm), js_sequence := js_sequence (jm_sb jm) + 1\<rparr>\<rparr>"

lemma emptied_journal_wf:
  assumes "jwf jm d es" "\<forall>b \<in> fst ` set ws. \<not> in_ring jm b"
  shows "jwf (emptied_journal jm) (put_all d (ws @ [(jm_start jm, x)])) []"
  using assms jwf_head_tail [OF assms(1)]
  by (simp add: jwf_def emptied_journal_def ring_good_def in_ring_def put_all_append)

lemma journal_checkpoint_spec:
  assumes w: "jwf jm (bd_disk dev) es" and c: "dev_coherent dev" "uncached dev (in_ring jm)"
    and t: "targets_ok jm (bd_disk dev) (logged es)" and ne: "js_head (jm_sb jm) \<noteq> js_tail (jm_sb jm)"
  shows "\<exists>dev'. journal_checkpoint jm dev = Some (Ok (), emptied_journal jm, dev') \<and> dev_coherent dev' \<and>
     dev_static dev dev' \<and> cells (bd_cache dev') = dropped (fst ` set (logged es)) (cells (bd_cache dev)) \<and>
     (\<forall>b. \<not> in_ring jm b \<longrightarrow> dev_view dev' b = upd_all (dev_view dev) (logged es) b \<and>
        dk_blocks (bd_disk dev') b = upd_all (dk_blocks (bd_disk dev)) (logged es) b) \<and>
     jwf (emptied_journal jm) (bd_disk dev') [] \<and> sb_stored (emptied_journal jm) (bd_disk dev')"
proof -
  let ?jm = "emptied_journal jm" and ?s = "jm_start jm"
  let ?x = "struct_block (encode_journal_superblock (jm_sb ?jm))"
  have g: "ring_good jm (bd_disk dev)" and l: "unat (js_tail (jm_sb jm)) < unat (jm_blocks jm)"
    and r: "length (js_reserved (jm_sb jm)) = 4040" using w by (simp_all add: jwf_def)
  obtain dev1 where 1: "checkpoint_loop jm dev (js_head (jm_sb jm)) (js_tail (jm_sb jm)) = Some (Ok (), dev1)"
    "dev_coherent dev1" "dev_static dev dev1" "bd_disk dev1 = put_all (bd_disk dev) (logged es)"
    "dev_view dev1 = upd_all (dev_view dev) (logged es)"
    "cells (bd_cache dev1) = dropped (fst ` set (logged es)) (cells (bd_cache dev))"
    using checkpoint_loop_spec [OF g c(1) _ l t, of "unat (js_head (jm_sb jm))"] w by (auto simp: jwf_def)
  have s: "in_ring jm ?s" using g by (auto simp: in_ring_def ring_good_def intro: exI [of _ 0])
  have fs: "\<not> dk_fsync_bad (bd_disk dev1)" "\<not> dk_write_bad (bd_disk dev1) ?s"
    using g ring_goodD(2) [OF g, of 0] 1(4) by (simp_all add: ring_good_def)
  have run: "journal_checkpoint jm dev = Some (Ok (), ?jm, raw dev1 [(?s, ?x)])"
    using ne 1(1) fs
    by (simp add: journal_checkpoint_def Let_def sync_superblock_to_disk_def emptied_journal_def pwrite_good raw_def)
  have lx: "\<forall>(b, y) \<in> set [(?s, ?x)]. in_ring jm b \<and> length y = BLOCK_SIZE"
    using s length_journal_superblock [of "jm_sb ?jm"] r by (simp add: emptied_journal_def)
  have un: "uncached dev1 (in_ring jm)" using c(2) uncached_dropped [OF 1(6)] by simp
  note rw = raw_spec [OF 1(2) un lx]
  have out: "\<forall>b \<in> fst ` set (logged es). \<not> in_ring jm b" using targets_okD [OF t] by blast
  have "jwf ?jm (bd_disk (raw dev1 [(?s, ?x)])) []"
    using emptied_journal_wf [OF w out] 1(4) by (simp add: put_all_append)
  moreover have "sb_stored ?jm (bd_disk (raw dev1 [(?s, ?x)]))" by (simp add: sb_stored_def emptied_journal_def)
  moreover have "dev_static dev (raw dev1 [(?s, ?x)])" using dev_static_trans [OF 1(3)] by simp
  ultimately show ?thesis
    using run rw 1(4-6) s by (intro exI [of _ "raw dev1 [(?s, ?x)]"]) auto
qed

text \<open>The writes of a commit stay in the ring.\<close>

lemma commit_log_in_ring:
  assumes "jroom jm t" "b \<in> fst ` set (commit_log jm t)"
  shows "in_ring jm b"
proof -
  have "fst ` set (commit_log jm t) = fst ` set (butlast (commit_log jm t)) \<union> {jm_start jm}"
    by (simp add: commit_log_def Let_def butlast_append image_Un insert_commute)
  then consider "b \<in> fst ` set (butlast (commit_log jm t))" | "b = jm_start jm" using assms(2) by blast
  then show ?thesis
  proof cases
    case 1
    from commit_log_pos [OF assms(1) 1] show ?thesis unfolding in_ring_def by blast
  next
    case 2
    then show ?thesis using assms(1) unfolding in_ring_def jroom_def by (intro exI [of _ 0]) simp
  qed
qed

lemma data_log_lengths:
  "\<forall>(b, x) \<in> set ws. length x = BLOCK_SIZE \<Longrightarrow> \<forall>(b, x) \<in> set (data_log s q ws). length x = BLOCK_SIZE"
  by (induction s q ws rule: data_log.induct) auto

lemma commit_log_ring:
  assumes "jroom jm t" "\<forall>(b, x) \<in> set (tx_writes t). length x = BLOCK_SIZE" "length (js_reserved (jm_sb jm)) = 4040"
  shows "\<forall>(b, x) \<in> set (commit_log jm t). in_ring jm b \<and> length x = BLOCK_SIZE"
proof -
  have "\<forall>(b, x) \<in> set (commit_log jm t). length x = BLOCK_SIZE"
    using data_log_lengths [OF assms(2)] length_journal_superblock [of "jm_sb (set_tail q jm)" for q] assms(3)
    by (auto simp: commit_log_def Let_def)
  then show ?thesis using commit_log_in_ring [OF assms(1)] by force
qed

lemma upd_all_same: "v b = w b \<Longrightarrow> upd_all v us b = upd_all w us b"
proof (induction v us arbitrary: w rule: upd_all.induct)
  case (2 v c x us)
  have "upd_all (v(c := x)) us b = upd_all (w(c := x)) us b" by (rule "2.IH") (use "2.prems" in simp)
  then show ?case by simp
qed simp

lemma upd_outside_ring:
  assumes "jroom jm t" "\<not> in_ring jm b"
  shows "upd_all (upd_all v (take k (commit_log jm t))) us b = upd_all v us b"
proof (rule upd_all_same, rule upd_all_other)
  show "b \<notin> fst ` set (take k (commit_log jm t))"
    using assms commit_log_in_ring [OF assms(1), of b] set_take_subset [of k "commit_log jm t"] by blast
qed

text \<open>A commit to an empty journal and the checkpoint after it.\<close>

lemma commit_checkpoint:
  assumes w: "jwf jm (bd_disk dev) []" and c: "dev_coherent dev" "uncached dev (in_ring jm)" and r: "jroom jm t"
    and t: "tx_state t = Active" "tx_writes t \<noteq> []" "targets_ok jm (bd_disk dev) (tx_writes t)"
  shows "\<exists>dev1 dev2. rust_journal_commit jm t dev = (0, after_commit jm t, dev1) \<and>
     rust_journal_checkpoint (after_commit jm t) dev1 = Some (0, emptied_journal (after_commit jm t), dev2) \<and>
     dev_coherent dev2 \<and> dev_static dev dev2 \<and>
     cells (bd_cache dev2) = dropped (fst ` set (tx_writes t)) (cells (bd_cache dev)) \<and>
     (\<forall>b. \<not> in_ring jm b \<longrightarrow> dev_view dev2 b = upd_all (dev_view dev) (tx_writes t) b \<and>
        dk_blocks (bd_disk dev2) b = upd_all (dk_blocks (bd_disk dev)) (tx_writes t) b) \<and>
     jwf (emptied_journal (after_commit jm t)) (bd_disk dev2) [] \<and>
     sb_stored (emptied_journal (after_commit jm t)) (bd_disk dev2)"
proof -
  let ?jm = "after_commit jm t" and ?ws = "commit_log jm t" and ?p = "unat (js_tail (jm_sb jm))"
  let ?n = "length (tx_writes t)"
  have g: "ring_good jm (bd_disk dev)" and rs: "length (js_reserved (jm_sb jm)) = 4040" using w by (simp_all add: jwf_def)
  have room: "?p + 2 * ?n + 1 < unat (jm_blocks jm)" using r by (simp add: jroom_def)
  have lens: "\<forall>(b, x) \<in> set (tx_writes t). length x = BLOCK_SIZE" using t(3) by (auto simp: targets_ok_def)
  have run: "rust_journal_commit jm t dev = (0, ?jm, raw dev ?ws)"
    using journal_commit_trace [OF g jwf_head_tail [OF w] r t(1,2) lens]
    by (simp add: rust_journal_commit_def after_commit_def raw_def)
  have ir: "in_ring ?jm = in_ring jm" by (simp add: fun_eq_iff in_ring_def)
  note ring = commit_log_ring [OF r lens rs]
  note rw = raw_spec [OF c ring]
  note ca = crash_after [OF w r]
  have t1: "targets_ok ?jm (bd_disk (raw dev ?ws)) (logged ([] @ txn_log (tx_writes t)))"
    using t(3) by (simp add: targets_ok_def ir)
  have ne: "js_head (jm_sb ?jm) \<noteq> js_tail (jm_sb ?jm)"
  proof
    assume "js_head (jm_sb ?jm) = js_tail (jm_sb ?jm)"
    then have "[] @ txn_log (tx_writes t) = []" using jwf_empty_log [OF ca(1)] by simp
    then show False by (simp add: txn_log_def)
  qed
  from journal_checkpoint_spec [of ?jm "raw dev ?ws" "[] @ txn_log (tx_writes t)", OF _ rw(1) _ t1 ne] obtain dev2 where
    2: "journal_checkpoint ?jm (raw dev ?ws) = Some (Ok (), emptied_journal ?jm, dev2)" "dev_coherent dev2"
      "dev_static (raw dev ?ws) dev2" "cells (bd_cache dev2) = dropped (fst ` set (tx_writes t)) (cells (bd_cache dev))"
      "\<forall>b. \<not> in_ring jm b \<longrightarrow> dev_view dev2 b = upd_all (dev_view (raw dev ?ws)) (tx_writes t) b \<and>
        dk_blocks (bd_disk dev2) b = upd_all (dk_blocks (bd_disk (raw dev ?ws))) (tx_writes t) b"
      "jwf (emptied_journal ?jm) (bd_disk dev2) []" "sb_stored (emptied_journal ?jm) (bd_disk dev2)"
    using ca(1) c(2) by (auto simp: ir)
  have same: "upd_all (upd_all v ?ws) us b = upd_all v us b" if "\<not> in_ring jm b" for v us b
    using upd_outside_ring [OF r that, of v "length ?ws"] by simp
  have "dev_static dev dev2" using dev_static_trans [OF raw_simps(3) 2(3)] .
  then show ?thesis
    using run 2 same rw(2) by (intro exI [of _ "raw dev ?ws"] exI [of _ dev2]) (auto simp: rust_journal_checkpoint_def)
qed

end
