(* ===== verification/Journal_Properties.thy ===== *)
theory Journal_Properties
  imports Journal_Checkpoint Instances
begin

text \<open>
  What the journal guarantees and where it fails: a commit is atomic under a crash that keeps the order of
  the writes, a commit with its checkpoint makes the blocks of the transaction visible, a checkpoint does
  not look at commit records, and a transaction at the end of the ring is replaced by foreign data.
\<close>

text \<open>A journal of 16 blocks at block 100 with head and tail at \<open>h\<close>, on an otherwise blank device.\<close>

definition toy_journal :: "u32 \<Rightarrow> journal" where
  "toy_journal h = \<lparr>jm_start = 100, jm_blocks = 16, jm_sb = \<lparr>js_magic = JOURNAL_MAGIC, js_version = 1,
     js_block_size = 4096, js_total_blocks = 16, js_sequence = 0, js_head = h, js_tail = h,
     js_reserved = replicate 4040 0\<rparr>, jm_active = [1], jm_next_tid = 2\<rparr>"

definition toy_txn :: transaction where
  "toy_txn = \<lparr>tx_id = 1, tx_writes = [(500, ones)], tx_state = Active\<rparr>"

definition journal_dev :: "u32 \<Rightarrow> block_device" where
  "journal_dev h = raw blank_dev [(100, struct_block (encode_journal_superblock (jm_sb (toy_journal h))))]"

lemma toy_journal_simps [simp]:
  "jm_start (toy_journal h) = 100" "jm_blocks (toy_journal h) = 16" "js_head (jm_sb (toy_journal h)) = h"
  "js_tail (jm_sb (toy_journal h)) = h" "js_magic (jm_sb (toy_journal h)) = JOURNAL_MAGIC"
  "length (js_reserved (jm_sb (toy_journal h))) = 4040"
  by (simp_all add: toy_journal_def)

lemma toy_txn_simps [simp]: "tx_writes toy_txn = [(500, ones)]" "tx_state toy_txn = Active" "tx_id toy_txn = 1"
  by (simp_all add: toy_txn_def)

lemma toy_ring: "in_ring (toy_journal h) b \<longleftrightarrow> 100 \<le> unat b \<and> unat b < 116"
proof
  assume "in_ring (toy_journal h) b"
  then obtain k where "k < 16" "b = 100 + of_nat k" by (auto simp: in_ring_def)
  then show "100 \<le> unat b \<and> unat b < 116" using unat_small [of "100 + k"] by simp
next
  assume b: "100 \<le> unat b \<and> unat b < 116"
  then have "b = of_nat (100 + (unat b - 100))" by simp
  then have "b = 100 + of_nat (unat b - 100)" by (simp del: of_nat_diff add_diff_inverse_nat)
  moreover have "unat b - 100 < 16" using b by linarith
  ultimately show "in_ring (toy_journal h) b" unfolding in_ring_def by (intro exI [of _ "unat b - 100"]) simp
qed

lemma toy_ring_good [simp]: "ring_good (toy_journal h) (bd_disk (journal_dev h))"
  by (simp add: ring_good_def journal_dev_def)

lemma toy_jwf: "0 < h \<Longrightarrow> h < 16 \<Longrightarrow> jwf (toy_journal h) (bd_disk (journal_dev h)) []"
  by (simp add: jwf_def word_less_nat_alt unat_gt_0)


lemma journal_dev_ok: "dev_coherent (journal_dev h)" "uncached (journal_dev h) P"
  "b \<noteq> 100 \<Longrightarrow> dev_view (journal_dev h) b = zeros" "b \<noteq> 100 \<Longrightarrow> dk_blocks (bd_disk (journal_dev h)) b = zeros"
proof -
  have "uncached blank_dev (\<lambda>b. b = 100)" by (simp add: uncached_def)
  from raw_spec [OF blank_dev_coherent(1) this, of "[(100, struct_block (encode_journal_superblock (jm_sb (toy_journal h))))]"]
  show "dev_coherent (journal_dev h)" "b \<noteq> 100 \<Longrightarrow> dev_view (journal_dev h) b = zeros"
    using length_journal_superblock [of "jm_sb (toy_journal h)"] by (simp_all add: journal_dev_def)
  show "uncached (journal_dev h) P" "b \<noteq> 100 \<Longrightarrow> dk_blocks (bd_disk (journal_dev h)) b = zeros"
    by (simp_all add: journal_dev_def uncached_def)
qed

lemma toy_targets: "targets_ok (toy_journal h) (bd_disk (journal_dev h)) [(500, ones)]"
  by (simp add: targets_ok_def toy_ring journal_dev_def)

section \<open>Atomic commits\<close>



section \<open>Commit and checkpoint\<close>

text \<open>C12: committing a transaction to an empty journal with room for it before the end of the ring, and
  checkpointing, succeeds, puts exactly the blocks of the transaction on the disk and before every
  reader, whatever the buffer cache held, and empties the journal.\<close>
theorem journal_commit_checkpoint_correct:
  assumes "jwf jm (bd_disk dev) []" "dev_coherent dev" "uncached dev (in_ring jm)" "jroom jm t"
    and "tx_state t = Active" "tx_writes t \<noteq> []" "targets_ok jm (bd_disk dev) (tx_writes t)"
  shows "\<exists>jm1 dev1 jm2 dev2. rust_journal_commit jm t dev = (0, jm1, dev1) \<and>
     rust_journal_checkpoint jm1 dev1 = Some (0, jm2, dev2) \<and> dev_coherent dev2 \<and> dev_static dev dev2 \<and>
     (\<forall>b. \<not> in_ring jm b \<longrightarrow> dev_view dev2 b = upd_all (dev_view dev) (tx_writes t) b \<and>
        dk_blocks (bd_disk dev2) b = upd_all (dk_blocks (bd_disk dev)) (tx_writes t) b) \<and>
     jwf jm2 (bd_disk dev2) [] \<and> sb_stored jm2 (bd_disk dev2)"
  using commit_checkpoint [OF assms] by blast

theorem journal_commit_checkpoint_correct_witness:
  "\<exists>jm1 dev1 jm2 dev2. rust_journal_commit (toy_journal 1) toy_txn (journal_dev 1) = (0, jm1, dev1) \<and>
     rust_journal_checkpoint jm1 dev1 = Some (0, jm2, dev2) \<and> dev_view dev2 500 = ones \<and> dev_view dev2 501 = zeros"
proof -
  have "jwf (toy_journal 1) (bd_disk (journal_dev 1)) []" by (rule toy_jwf) simp_all
  moreover have "jroom (toy_journal 1) toy_txn" by (simp add: jroom_def)
  ultimately obtain jm1 dev1 jm2 dev2 where "rust_journal_commit (toy_journal 1) toy_txn (journal_dev 1) = (0, jm1, dev1)"
    "rust_journal_checkpoint jm1 dev1 = Some (0, jm2, dev2)"
    "\<forall>b. \<not> in_ring (toy_journal 1) b \<longrightarrow> dev_view dev2 b = upd_all (dev_view (journal_dev 1)) (tx_writes toy_txn) b"
    using journal_commit_checkpoint_correct [of "toy_journal 1" "journal_dev 1" toy_txn] journal_dev_ok toy_targets by auto
  then show ?thesis using journal_dev_ok(3) [of 501] by (auto simp: toy_ring)
qed

text \<open>C36: a block of a transaction that the buffer cache holds stays in the cache, invalid, after the checkpoint.
  The next write to it reports success but the next read returns the block of the transaction again: a journaled
  write followed by an ordinary one, as when a file block becomes a directory block, loses the second.\<close>
theorem checkpointed_block_write_lost:
  assumes "jwf jm (bd_disk dev) []" "dev_coherent dev" "uncached dev (in_ring jm)" "jroom jm t"
    and "tx_state t = Active" "tx_writes t \<noteq> []" "targets_ok jm (bd_disk dev) (tx_writes t)"
    and "b \<in> fst ` set (tx_writes t)" "cells (bd_cache dev) b \<noteq> None" "ucast b < bd_total_blocks dev"
    and "\<not> dk_read_bad (bd_disk dev) b" "length data = BLOCK_SIZE"
  shows "\<exists>jm1 dev1 jm2 dev2 dev3 dev4. rust_journal_commit jm t dev = (0, jm1, dev1) \<and>
     rust_journal_checkpoint jm1 dev1 = Some (0, jm2, dev2) \<and> blkdev_write dev2 b data = Some (0, dev3) \<and>
     blkdev_read dev3 b = Some (Inr (upd_all (dev_view dev) (tx_writes t) b), dev4)"
proof -
  from commit_checkpoint [OF assms(1-7)] obtain dev1 dev2 where
    c: "rust_journal_commit jm t dev = (0, after_commit jm t, dev1)"
      "rust_journal_checkpoint (after_commit jm t) dev1 = Some (0, emptied_journal (after_commit jm t), dev2)"
      "dev_coherent dev2" "dev_static dev dev2" "cells (bd_cache dev2) = dropped (fst ` set (tx_writes t)) (cells (bd_cache dev))"
      "\<forall>b. \<not> in_ring jm b \<longrightarrow> dev_view dev2 b = upd_all (dev_view dev) (tx_writes t) b \<and>
        dk_blocks (bd_disk dev2) b = upd_all (dk_blocks (bd_disk dev)) (tx_writes t) b" by blast
  from assms(8,9) c(5) obtain x where x: "cells (bd_cache dev2) b = Some x" "\<not> cl_valid x" by (auto simp: dropped_def)
  have o: "\<not> in_ring jm b" using targets_okD [OF assms(7)] assms(8) by blast
  have "dk_blocks (bd_disk dev2) b = dev_view dev2 b" using x by (simp add: dev_view_def seen_def)
  then have v: "dk_blocks (bd_disk dev2) b = upd_all (dev_view dev) (tx_writes t) b" using c(6) o by simp
  have "ucast b < bd_total_blocks dev2" "\<not> dk_read_bad (bd_disk dev2) b"
    using c(4) assms(10,11) by (simp_all add: dev_static_def)
  from write_after_invalidate_lost [OF dev_coherent_wf [OF c(3)] this(1) x assms(12) this(2)] v c(1,2) show ?thesis by auto
qed

text \<open>The device of the toy journal after a write of zeros to block 500, which stays in the cache.\<close>

definition warm_journal_dev :: "block_device" where
  "warm_journal_dev = snd (the (blkdev_write (journal_dev 1) 500 zeros))"

lemma warm_journal_dev:
  "dev_coherent warm_journal_dev" "bd_disk warm_journal_dev = bd_disk (journal_dev 1)" "bd_total_blocks warm_journal_dev = 1024"
  "cells (bd_cache warm_journal_dev) = [500 \<mapsto> \<lparr>cl_data = zeros, cl_dirty = True, cl_valid = True, cl_ref = 0\<rparr>]"
proof -
  have ok: "dev_ok (journal_dev 1)" using journal_dev_ok(1) [of 1] by (simp add: dev_ok_def journal_dev_def all_valid_def)
  have d: "bd_total_blocks (journal_dev 1) = 1024" "cells (bd_cache (journal_dev 1)) = Map.empty" "has_room (bd_cache (journal_dev 1))"
    by (simp_all add: journal_dev_def raw_def)
  obtain c' where c: "blkdev_write (journal_dev 1) 500 zeros = Some (0, journal_dev 1\<lparr>bd_cache := c'\<rparr>)"
    "cells c' = [500 \<mapsto> \<lparr>cl_data = zeros, cl_dirty = True, cl_valid = True, cl_ref = 0\<rparr>]"
    using blkdev_write_miss [of "journal_dev 1" 500 zeros] dev_coherent_wf [OF journal_dev_ok(1) [of 1]] d by auto
  then have w: "warm_journal_dev = journal_dev 1\<lparr>bd_cache := c'\<rparr>" by (simp add: warm_journal_dev_def)
  show "bd_disk warm_journal_dev = bd_disk (journal_dev 1)" "bd_total_blocks warm_journal_dev = 1024"
    "cells (bd_cache warm_journal_dev) = [500 \<mapsto> \<lparr>cl_data = zeros, cl_dirty = True, cl_valid = True, cl_ref = 0\<rparr>]"
    by (simp_all add: w c(2) d(1))
  show "dev_coherent warm_journal_dev" using blkdev_write_spec [OF ok, of 500 zeros] c(1) d(1) w by (auto simp: dev_ok_def)
qed

theorem checkpointed_block_write_lost_witness:
  "\<exists>jm1 dev1 jm2 dev2 dev3 dev4. rust_journal_commit (toy_journal 1) toy_txn warm_journal_dev = (0, jm1, dev1) \<and>
     rust_journal_checkpoint jm1 dev1 = Some (0, jm2, dev2) \<and> blkdev_write dev2 500 zeros = Some (0, dev3) \<and>
     blkdev_read dev3 500 = Some (Inr ones, dev4)"
proof -
  note W = warm_journal_dev
  have a: "jwf (toy_journal 1) (bd_disk warm_journal_dev) []" unfolding W(2) by (rule toy_jwf) simp_all
  have b: "uncached warm_journal_dev (in_ring (toy_journal 1))" by (simp add: uncached_def W(4) toy_ring)
  have c: "targets_ok (toy_journal 1) (bd_disk warm_journal_dev) (tx_writes toy_txn)" unfolding W(2) using toy_targets by simp
  have d: "\<not> dk_read_bad (bd_disk warm_journal_dev) 500" by (simp add: W(2) journal_dev_def)
  have e: "jroom (toy_journal 1) toy_txn" by (simp add: jroom_def)
  from checkpointed_block_write_lost [OF a W(1) b e _ _ c, of 500 zeros] d show ?thesis by (simp add: W(3,4))
qed

text \<open>C37: a checkpoint writes every logged block to its place whether or not a commit record follows, while
  recovery replays only what a commit record closes: the blocks of a commit that failed on a full journal
  are applied by the next checkpoint.\<close>
theorem checkpoint_ignores_commit_records:
  assumes "jwf jm (bd_disk dev) es" "dev_coherent dev" "uncached dev (in_ring jm)"
    and "targets_ok jm (bd_disk dev) (logged es)" "js_head (jm_sb jm) \<noteq> js_tail (jm_sb jm)" "\<not> in_ring jm b"
  shows "\<exists>jm' dev' n d'. rust_journal_checkpoint jm dev = Some (0, jm', dev') \<and>
     dev_view dev' b = upd_all (dev_view dev) (logged es) b \<and>
     journal_recover jm (bd_disk dev) = Some (Ok n, d') \<and> dk_blocks d' b = upd_all (dk_blocks (bd_disk dev)) (committed [] es) b"
  using journal_checkpoint_spec [OF assms(1-5)] journal_recover_spec [OF assms(1,4)] assms(6)
  by (auto simp: rust_journal_checkpoint_def)

text \<open>The state after a commit that wrote its data block and then failed.\<close>

definition cut_dev :: block_device where
  "cut_dev = raw (journal_dev 1) (data_log 100 1 [(500, ones)])"

theorem checkpoint_ignores_commit_records_witness:
  "\<exists>jm' dev' n d'. rust_journal_checkpoint (set_tail 3 (toy_journal 1)) cut_dev = Some (0, jm', dev') \<and> dev_view dev' 500 = ones \<and>
     journal_recover (set_tail 3 (toy_journal 1)) (bd_disk cut_dev) = Some (Ok n, d') \<and> dk_blocks d' 500 = zeros"
proof -
  let ?jm = "set_tail 3 (toy_journal 1)"
  have ir: "in_ring ?jm = in_ring (toy_journal 1)" by (simp add: fun_eq_iff in_ring_def)
  have "\<forall>(b, x) \<in> set (data_log 100 1 [(500, ones)]). in_ring (toy_journal 1) b \<and> length x = BLOCK_SIZE"
    by (simp add: toy_ring)
  note rw = raw_spec [OF journal_dev_ok(1,2) this]
  have "log_at (upd_all (dk_blocks (bd_disk (journal_dev 1))) (data_log 100 1 [(500, ones)])) 100 1
      (map (\<lambda>(b, x). JData b x) [(500, ones)]) (1 + 2 * length [(500 :: u32, ones)])"
    by (rule data_log_log_at [of _ _ 16]) simp
  moreover have "ring_good ?jm (bd_disk cut_dev)"
    using toy_ring_good [of 1] by (simp add: ring_good_def ir cut_dev_def)
  ultimately have "jwf ?jm (bd_disk cut_dev) [JData 500 ones]"
    by (simp add: jwf_def cut_dev_def del: data_log.simps)
  moreover have "dev_coherent cut_dev" "uncached cut_dev (in_ring ?jm)" using rw(1) journal_dev_ok(2) by (simp_all add: cut_dev_def)
  moreover have "targets_ok ?jm (bd_disk cut_dev) (logged [JData 500 ones])"
    using toy_targets [of 1] by (simp add: targets_ok_def ir cut_dev_def)
  moreover have "js_head (jm_sb ?jm) \<noteq> js_tail (jm_sb ?jm)" "\<not> in_ring ?jm 500" by (simp_all add: ir toy_ring)
  ultimately obtain jm' dev' n d' where "rust_journal_checkpoint ?jm cut_dev = Some (0, jm', dev')"
    "dev_view dev' 500 = ones" "journal_recover ?jm (bd_disk cut_dev) = Some (Ok n, d')"
    "dk_blocks d' 500 = dk_blocks (bd_disk cut_dev) 500"
    using checkpoint_ignores_commit_records [of ?jm cut_dev "[JData 500 ones]" 500] by auto
  moreover have "dk_blocks (bd_disk cut_dev) 500 = zeros" using journal_dev_ok(4) [of 500 1] by (simp add: cut_dev_def)
  ultimately show ?thesis by auto
qed

section \<open>The end of the ring\<close>

lemma ring_wrap:
  assumes "4 \<le> unat (n :: u32)" "unat n + 1 < 2 ^ 32"
  shows "(n - 1 + 1) mod n = 0" "(0 + 1) mod n = 1" "(1 + 1) mod n = 2" "(n - 1 + 2) mod n = 1"
    "n - 1 \<noteq> 0" "n - 1 \<noteq> 1" "n - 1 \<noteq> 2"
proof -
  have u: "unat (n - 1) = unat n - 1" using assms(1) by (intro unat_minus_one) auto
  show "(n - 1 + 1) mod n = 0" by simp
  show "(0 + 1) mod n = 1" "(1 + 1) mod n = 2" using assms by (simp_all add: word_unat_eq_iff unat_mod)
  have "unat (n + 1) = unat n + 1" using assms(2) by (simp add: unat_word_ariths)
  then show "(n - 1 + 2) mod n = 1" using assms by (simp add: word_unat_eq_iff unat_mod mod_Suc algebra_simps)
  show "n - 1 \<noteq> 0" "n - 1 \<noteq> 1" "n - 1 \<noteq> 2" using u assms(1) by (auto dest: arg_cong [of _ _ unat])
qed

text \<open>C38: a transaction whose header falls on the last block of the ring is replaced by foreign data: its data
  block wraps to the first block, where the journal superblock overwrites it, and the checkpoint copies
  the block after the journal to the target.  Commit and checkpoint both report success.\<close>
theorem journal_ring_end_corrupts:
  assumes g: "ring_good jm (bd_disk dev)" and n: "4 \<le> unat (jm_blocks jm)" "unat (jm_start jm) + unat (jm_blocks jm) < 2 ^ 32 - 1"
    and h: "js_head (jm_sb jm) = jm_blocks jm - 1" "js_tail (jm_sb jm) = jm_blocks jm - 1"
    and r: "length (js_reserved (jm_sb jm)) = 4040"
    and c: "dev_coherent dev" "uncached dev (in_ring jm)" "\<not> dk_read_bad (bd_disk dev) (jm_start jm + jm_blocks jm)"
    and t: "tx_state t = Active" "tx_writes t = [(b, x)]" "targets_ok jm (bd_disk dev) [(b, x)]"
  shows "\<exists>jm1 dev1 jm2 dev2. rust_journal_commit jm t dev = (0, jm1, dev1) \<and>
     rust_journal_checkpoint jm1 dev1 = Some (0, jm2, dev2) \<and>
     dev_view dev2 b = dk_blocks (bd_disk dev) (jm_start jm + jm_blocks jm)"
proof -
  let ?s = "jm_start jm" and ?n = "jm_blocks jm" and ?d = "bd_disk dev"
  have n1: "unat ?n + 1 < 2 ^ 32" using n(2) by linarith
  note W = ring_wrap [OF n(1) n1]
  have last: "?n - 1 = of_nat (unat ?n - 1)" using n(1) by (simp add: of_nat_diff)
  have ir: "in_ring jm (?s + (?n - 1))" "in_ring jm (?s + 0)" "in_ring jm (?s + 1)"
    using n(1) last by (auto simp: in_ring_def intro: exI [of _ "unat ?n - 1"] exI [of _ 0] exI [of _ 1])
  have good: "\<not> dk_write_bad ?d v \<and> \<not> dk_read_bad ?d v" if "in_ring jm v" for v using g that by (auto simp: ring_good_def)
  have fs: "\<not> dk_fsync_bad ?d" using g by (simp add: ring_good_def)
  have lx: "length x = BLOCK_SIZE" and nb: "\<not> in_ring jm b" "\<not> dk_write_bad ?d b" using t(3) by (simp_all add: targets_ok_def)
  define jm1 where "jm1 = remove_active (tx_id t) (jm\<lparr>jm_sb := (jm_sb jm)\<lparr>js_tail := 2\<rparr>\<rparr>)"
  define ws where "ws = [(?s + (?n - 1), header_block b x), (?s, x), (?s + 1, commit_block (tx_id t) 1),
    (?s, struct_block (encode_journal_superblock (jm_sb jm1)))]"
  have run: "rust_journal_commit jm t dev = (0, jm1, raw dev ws)"
    using t(1,2) W lx good [OF ir(1)] good [OF ir(2)] good [OF ir(3)] fs h
    by (simp add: rust_journal_commit_def journal_commit_def allocate_journal_block_def write_journal_data_def Let_def
        write_commit_record_def sync_superblock_to_disk_def pwrite_good header_block_def [symmetric]
        commit_block_def [of _ 1, simplified, symmetric] jm1_def ws_def raw_def remove_active_def)
  have sn: "unat (?s + ?n) = unat ?s + unat ?n" using n(2) by (simp add: unat_word_ariths)
  have far: "?s + ?n \<noteq> 0" "?s + ?n \<notin> fst ` set ws"
  proof -
    show "?s + ?n \<noteq> 0" using sn n(1) by (metis add_is_0 not_numeral_le_zero unat_0)
    have "\<not> in_ring jm (?s + ?n)"
    proof
      assume "in_ring jm (?s + ?n)"
      then obtain k where k: "k < unat ?n" "?n = of_nat k" by (auto simp: in_ring_def)
      then show False using unat_small [of k] u32_blocks [of ?n] by simp
    qed
    then show "?s + ?n \<notin> fst ` set ws" using ir by (auto simp: ws_def)
  qed
  have ring: "\<forall>(b, y) \<in> set ws. in_ring jm b \<and> length y = BLOCK_SIZE"
    using ir lx length_journal_superblock [of "jm_sb jm1"] r by (simp add: ws_def jm1_def)
  note rw = raw_spec [OF c(1,2) ring]
  let ?y = "dk_blocks ?d (?s + ?n)" and ?dev1 = "raw dev ws"
  have ly: "length ?y = BLOCK_SIZE" using c(1) by (simp add: dev_coherent_def dev_wf_def)
  have at: "upd_all (dk_blocks ?d) ws (?s + (?n - 1)) = header_block b x" "upd_all (dk_blocks ?d) ws (?s + 1) = commit_block (tx_id t) 1"
    "upd_all (dk_blocks ?d) ws (?s + ?n) = ?y"
    using W(5,6) far(2) by (simp_all add: ws_def upd_all_other)
  have rd: "read_journal_block jm1 (bd_disk ?dev1) (?n - 1) = Ok (JOURNAL_DATA_MAGIC, b, ?y)"
    using at far(1) good [OF ir(1)] c(3) by (simp add: read_journal_block_def pread_good Let_def jm1_def)
  from write_invalidate [OF rw(1) ly, of b] obtain dev2 where
    2: "c_buffer_cache_invalidate_by_fd (Some (?dev1\<lparr>bd_disk := put_block (bd_disk ?dev1) b ?y\<rparr>)) b = Some (Some dev2)"
      "bd_disk dev2 = put_block (bd_disk ?dev1) b ?y" "dev_view dev2 = (dev_view ?dev1)(b := ?y)"
      "dev_coherent dev2" "cells (bd_cache dev2) = dropped {b} (cells (bd_cache ?dev1))" by blast
  have un2: "uncached dev2 (in_ring jm)" using c(2) uncached_dropped [OF 2(5)] by simp
  have "?s + 1 \<noteq> b" using nb(1) ir(3) by auto
  then have rd2: "read_journal_block jm1 (bd_disk dev2) 1 = Ok (JOURNAL_COMMIT_MAGIC, 0, [])"
    using at(2) good [OF ir(3)] 2(2) by (simp add: read_journal_block_def pread_good Let_def jm1_def)
  have "checkpoint_loop jm1 dev2 2 2 = Some (Ok (), dev2)" by (simp add: checkpoint_loop.simps)
  then have "checkpoint_loop jm1 dev2 1 2 = Some (Ok (), dev2)"
    using rd2 W(3) by (subst checkpoint_loop.simps) (simp add: jm1_def)
  then have lp: "checkpoint_loop jm1 ?dev1 (?n - 1) 2 = Some (Ok (), dev2)"
    using rd W(4,7) 2(1) nb(2) by (subst checkpoint_loop.simps) (simp add: pwrite_good jm1_def)
  let ?jm2 = "jm1\<lparr>jm_sb := (jm_sb jm1)\<lparr>js_head := 2, js_sequence := js_sequence (jm_sb jm1) + 1\<rparr>\<rparr>"
  let ?dev3 = "raw dev2 [(?s, struct_block (encode_journal_superblock (jm_sb ?jm2)))]"
  have j1: "js_head (jm_sb jm1) = ?n - 1" "js_tail (jm_sb jm1) = 2" "jm_start jm1 = ?s" by (simp_all add: jm1_def h)
  have cp: "rust_journal_checkpoint jm1 ?dev1 = Some (0, ?jm2, ?dev3)"
    using lp W(7) fs good [OF ir(2)] 2(2)
    by (simp add: rust_journal_checkpoint_def journal_checkpoint_def Let_def j1 sync_superblock_to_disk_def pwrite_good raw_def)
  have "\<forall>(b, y) \<in> set [(?s, struct_block (encode_journal_superblock (jm_sb ?jm2)))]. in_ring jm b \<and> length y = BLOCK_SIZE"
    using ir(2) length_journal_superblock [of "jm_sb ?jm2"] r by (simp add: jm1_def)
  from raw_spec(2) [OF 2(4) un2 this] have "dev_view ?dev3 b = ?y" using 2(3) nb(1) ir(2) by auto
  then show ?thesis using run cp by blast
qed

theorem journal_ring_end_corrupts_witness:
  "\<exists>jm1 dev1 jm2 dev2. rust_journal_commit (toy_journal 15) toy_txn (journal_dev 15) = (0, jm1, dev1) \<and>
     rust_journal_checkpoint jm1 dev1 = Some (0, jm2, dev2) \<and> dev_view dev2 500 = zeros"
proof -
  have t: "tx_writes toy_txn = [(500, ones)]" by simp
  have "\<not> dk_read_bad (bd_disk (journal_dev 15)) (jm_start (toy_journal 15) + jm_blocks (toy_journal 15))"
    by (simp add: journal_dev_def)
  from journal_ring_end_corrupts [OF toy_ring_good _ _ _ _ _ journal_dev_ok(1,2) this _ t toy_targets] show ?thesis
    using journal_dev_ok(4) [of 116 15] by simp
qed

end
