(* ===== verification/Extents.thy ===== *)
theory Extents
  imports Journal
begin

text \<open>
  The extent allocator, \<open>rust_core/src/extent\<close>, with its own copy of the data bitmap, one boolean per
  block.  An index past the bitmap panics; the panic is caught at the interface, where it becomes the
  default result 0, and leaves the lock of the bitmap poisoned, so that every later operation that takes
  the lock panics too.  The fragmentation ratio, a floating-point statistic, is not modelled.
\<close>

datatype 'a rust_outcome = Returned 'a | Failed | Panicked

record extent =
  ext_start :: u32
  ext_length :: u32

record alloc_stats =
  as_total_blocks :: u32
  as_free_blocks :: u32
  as_allocated_blocks :: u32
  as_alloc_count :: u64
  as_free_count :: u64

record extent_allocator =
  ea_bitmap_start :: u32
  ea_total_blocks :: u32
  ea_bitmap :: "bool list"
  ea_poisoned :: bool
  ea_stats :: alloc_stats
  ea_free_blocks :: u32
  ea_alloc_count :: u64

section \<open>The bitmap on the disk\<close>

definition extent_bitmap_blocks :: "extent_allocator \<Rightarrow> nat" where
  "extent_bitmap_blocks al = ((unat (ea_total_blocks al) + 7) div 8 + BLOCK_SIZE - 1) div BLOCK_SIZE"

text \<open>\<open>read_exact\<close> and \<open>write_all\<close> of consecutive blocks; a failing write keeps the blocks before it.\<close>

fun read_blocks :: "disk \<Rightarrow> nat \<Rightarrow> nat \<Rightarrow> byte list option" where
  "read_blocks d b 0 = Some []"
| "read_blocks d b (Suc n) =
     (if 2 ^ 32 \<le> b then None
      else case pread_block d (of_nat b) of
        None \<Rightarrow> None
      | Some data \<Rightarrow> map_option ((@) data) (read_blocks d (Suc b) n))"

fun write_blocks :: "disk \<Rightarrow> nat \<Rightarrow> byte list list \<Rightarrow> bool \<times> disk" where
  "write_blocks d b [] = (True, d)"
| "write_blocks d b (data # rest) =
     (if 2 ^ 32 \<le> b then (False, d)
      else case pwrite_block d (of_nat b) data of
        None \<Rightarrow> (False, d)
      | Some d \<Rightarrow> write_blocks d (Suc b) rest)"

text \<open>\<open>Lsb0\<close> order: bit \<open>i mod 8\<close> of byte \<open>i div 8\<close>.\<close>

definition load_bitmap_from_disk :: "disk \<Rightarrow> extent_allocator \<Rightarrow> extent_allocator option" where
  "load_bitmap_from_disk d al =
     (case read_blocks d (unat (ea_bitmap_start al)) (extent_bitmap_blocks al) of
        None \<Rightarrow> None
      | Some buffer \<Rightarrow>
          let bm = map (\<lambda>i. bit (buffer ! (i div 8)) (i mod 8)) [0..<unat (ea_total_blocks al)];
              free_count = (of_nat (length (filter Not bm)) :: u32) in
          Some (al\<lparr>ea_bitmap := bm, ea_free_blocks := free_count,
            ea_stats := (ea_stats al)\<lparr>as_free_blocks := free_count,
              as_allocated_blocks := ea_total_blocks al - free_count\<rparr>\<rparr>))"

text \<open>A bitmap that cannot be read counts as empty.\<close>

definition extent_allocator_new :: "disk \<Rightarrow> u32 \<Rightarrow> u32 \<Rightarrow> extent_allocator" where
  "extent_allocator_new d bitmap_start total_blocks =
     (let al = \<lparr>ea_bitmap_start = bitmap_start, ea_total_blocks = total_blocks,
                ea_bitmap = replicate (unat total_blocks) False, ea_poisoned = False,
                ea_stats = \<lparr>as_total_blocks = total_blocks, as_free_blocks = total_blocks, as_allocated_blocks = 0,
                            as_alloc_count = 0, as_free_count = 0\<rparr>,
                ea_free_blocks = total_blocks, ea_alloc_count = 0\<rparr> in
      case load_bitmap_from_disk d al of None \<Rightarrow> al | Some al \<Rightarrow> al)"

definition pack_byte :: "bool list \<Rightarrow> nat \<Rightarrow> byte" where
  "pack_byte bm k = foldl (OR) 0 (map (\<lambda>j. if 8 * k + j < length bm \<and> bm ! (8 * k + j) then push_bit j 1 else 0) [0..<8])"

definition pack_block :: "bool list \<Rightarrow> nat \<Rightarrow> byte list" where
  "pack_block bm b = map (\<lambda>k. pack_byte bm (BLOCK_SIZE * b + k)) [0..<BLOCK_SIZE]"

definition sync_bitmap_to_disk :: "extent_allocator \<Rightarrow> disk \<Rightarrow> unit rust_outcome \<times> disk" where
  "sync_bitmap_to_disk al d =
     (if ea_poisoned al then (Panicked, d)
      else case write_blocks d (unat (ea_bitmap_start al)) (map (pack_block (ea_bitmap al)) [0..<extent_bitmap_blocks al]) of
        (ok, d) \<Rightarrow> (if ok \<and> \<not> dk_fsync_bad d then Returned () else Failed, d))"

section \<open>Allocation\<close>

text \<open>
  The search goes once around the bitmap from the hint, with the free blocks seen in a row and where
  they began; it does not notice when it passes from the last block to the first.
\<close>

fun find_consecutive :: "bool list \<Rightarrow> u32 \<Rightarrow> u32 \<Rightarrow> u32 \<Rightarrow> u32 list \<Rightarrow> u32 \<Rightarrow> u32 \<Rightarrow> (u32 \<times> u32) option" where
  "find_consecutive bm start_pos min_len max_len [] consecutive region_start = None"
| "find_consecutive bm start_pos min_len max_len (off # offs) consecutive region_start =
     (let pos = (start_pos + off) mod of_nat (length bm) in
      if \<not> bm ! unat pos then
        (let region_start = (if consecutive = 0 then pos else region_start); consecutive = consecutive + 1 in
         if min_len \<le> consecutive then Some (region_start, min consecutive max_len)
         else find_consecutive bm start_pos min_len max_len offs consecutive region_start)
      else find_consecutive bm start_pos min_len max_len offs 0 region_start)"

text \<open>A remainder by an empty bitmap panics.\<close>

definition find_consecutive_free :: "bool list \<Rightarrow> u32 \<Rightarrow> u32 \<Rightarrow> u32 \<Rightarrow> (u32 \<times> u32) rust_outcome" where
  "find_consecutive_free bm hint min_len max_len =
     (let total = (of_nat (length bm) :: u32) in
      if total = 0 then Panicked
      else case find_consecutive bm (hint mod total) min_len max_len (map of_nat [0..<unat total]) 0 0 of
        None \<Rightarrow> Failed
      | Some r \<Rightarrow> Returned r)"

text \<open>\<open>for i in start..end\<close> setting each bit; past the end of the bitmap the loop panics.\<close>

fun set_bits :: "bool list \<Rightarrow> nat list \<Rightarrow> bool \<times> bool list" where
  "set_bits bm [] = (True, bm)"
| "set_bits bm (i # is) = (if i < length bm then set_bits (bm[i := True]) is else (False, bm))"

definition allocate_extent ::
  "extent_allocator \<Rightarrow> u32 \<Rightarrow> u32 \<Rightarrow> u32 \<Rightarrow> extent rust_outcome \<times> extent_allocator" where
  "allocate_extent al hint min_len max_len =
     (if min_len = 0 \<or> max_len = 0 \<or> max_len < min_len then (Failed, al)
      else if ea_poisoned al then (Panicked, al)
      else case find_consecutive_free (ea_bitmap al) hint min_len max_len of
        Failed \<Rightarrow> (Failed, al)
      | Panicked \<Rightarrow> (Panicked, al\<lparr>ea_poisoned := True\<rparr>)
      | Returned (start, len) \<Rightarrow>
          (case set_bits (ea_bitmap al) [unat start..<unat (start + len)] of
             (False, bm) \<Rightarrow> (Panicked, al\<lparr>ea_bitmap := bm, ea_poisoned := True\<rparr>)
           | (True, bm) \<Rightarrow>
               let st = ea_stats al in
               (Returned \<lparr>ext_start = start, ext_length = len\<rparr>,
                al\<lparr>ea_bitmap := bm, ea_free_blocks := ea_free_blocks al - len, ea_alloc_count := ea_alloc_count al + 1,
                   ea_stats := st\<lparr>as_free_blocks := as_free_blocks st - len,
                     as_allocated_blocks := as_allocated_blocks st + len,
                     as_alloc_count := as_alloc_count st + 1\<rparr>\<rparr>)))"

section \<open>Release\<close>

text \<open>Each block is tested and cleared in one pass; the first free one ends it.\<close>

fun clear_bits :: "bool list \<Rightarrow> nat list \<Rightarrow> bool \<times> bool list" where
  "clear_bits bm [] = (True, bm)"
| "clear_bits bm (i # is) = (if bm ! i then clear_bits (bm[i := False]) is else (False, bm))"

definition free_extent :: "extent_allocator \<Rightarrow> extent \<Rightarrow> unit rust_outcome \<times> extent_allocator" where
  "free_extent al e =
     (if ea_total_blocks al < ext_start e + ext_length e then (Failed, al)
      else if ea_poisoned al then (Panicked, al)
      else case clear_bits (ea_bitmap al) [unat (ext_start e)..<unat (ext_start e + ext_length e)] of
        (False, bm) \<Rightarrow> (Failed, al\<lparr>ea_bitmap := bm\<rparr>)
      | (True, bm) \<Rightarrow>
          let st = ea_stats al in
          (Returned (),
           al\<lparr>ea_bitmap := bm, ea_free_blocks := ea_free_blocks al + ext_length e,
              ea_stats := st\<lparr>as_free_blocks := as_free_blocks st + ext_length e,
                as_allocated_blocks := as_allocated_blocks st - ext_length e,
                as_free_count := as_free_count st + 1\<rparr>\<rparr>))"

section \<open>The interface to C\<close>

definition rust_extent_alloc_init :: "block_device \<Rightarrow> u32 \<Rightarrow> u32 \<Rightarrow> extent_allocator option" where
  "rust_extent_alloc_init dev bitmap_start total_blocks =
     Some (extent_allocator_new (bd_disk dev) bitmap_start total_blocks)"

text \<open>The out-parameters are written only when an extent was found.\<close>

definition rust_extent_alloc ::
  "extent_allocator \<Rightarrow> u32 \<Rightarrow> u32 \<Rightarrow> u32 \<Rightarrow> u32 \<times> u32 \<Rightarrow> int \<times> (u32 \<times> u32) \<times> extent_allocator" where
  "rust_extent_alloc al hint min_len max_len out =
     (case allocate_extent al hint min_len max_len of
        (Returned e, al) \<Rightarrow> (0, (ext_start e, ext_length e), al)
      | (Failed, al) \<Rightarrow> (- ENOSPC, out, al)
      | (Panicked, al) \<Rightarrow> (0, out, al))"

definition rust_extent_free :: "extent_allocator \<Rightarrow> u32 \<Rightarrow> u32 \<Rightarrow> int \<times> extent_allocator" where
  "rust_extent_free al start len =
     (case free_extent al \<lparr>ext_start = start, ext_length = len\<rparr> of
        (Failed, al) \<Rightarrow> (- EINVAL, al)
      | (_, al) \<Rightarrow> (0, al))"

definition rust_extent_get_stats :: "extent_allocator \<Rightarrow> u32 \<times> u32 \<times> u32" where
  "rust_extent_get_stats al =
     (as_total_blocks (ea_stats al), as_free_blocks (ea_stats al), as_allocated_blocks (ea_stats al))"

definition rust_extent_sync :: "extent_allocator \<Rightarrow> block_device \<Rightarrow> int \<times> block_device" where
  "rust_extent_sync al dev =
     (case sync_bitmap_to_disk al (bd_disk dev) of
        (r, d) \<Rightarrow> (case r of Failed \<Rightarrow> - EIO | _ \<Rightarrow> 0, dev\<lparr>bd_disk := d\<rparr>))"

end
