(* ===== verification/Extents_Spec.thy ===== *)
theory Extents_Spec
  imports Extents Journal_Spec
begin

text \<open>
  The extent allocator: its bitmap written to the disk and loaded again, the search for a run and what an
  allocation marks.
\<close>

section \<open>Packing\<close>

lemma bit_foldl_or: "bit (foldl (OR) (a :: byte) ws) j \<longleftrightarrow> bit a j \<or> (\<exists>w \<in> set ws. bit w j)"
  by (induction ws arbitrary: a) (auto simp: bit_simps)

lemma bit_pack_byte:
  assumes "j < 8"
  shows "bit (pack_byte bm k) j \<longleftrightarrow> 8 * k + j < length bm \<and> bm ! (8 * k + j)"
proof -
  have "bit (if P then push_bit i 1 else (0 :: byte)) j \<longleftrightarrow> P \<and> i = j" for P i
    using assms by (auto simp: bit_simps)
  then have "bit (pack_byte bm k) j \<longleftrightarrow> (\<exists>i \<in> {0..<8}. (8 * k + i < length bm \<and> bm ! (8 * k + i)) \<and> i = j)"
    by (simp only: pack_byte_def bit_foldl_or set_map set_upt bex_simps bit_0_eq) simp
  then show ?thesis using assms by auto
qed

lemma length_pack_block [simp]: "length (pack_block bm b) = BLOCK_SIZE"
  by (simp add: pack_block_def)

lemma nth_pack_block: "k < BLOCK_SIZE \<Longrightarrow> pack_block bm b ! k = pack_byte bm (BLOCK_SIZE * b + k)"
  by (simp add: pack_block_def)

lemma nth_packed:
  assumes "k < BLOCK_SIZE * n"
  shows "concat (map (pack_block bm) [0..<n]) ! k = pack_byte bm k"
  using assms
proof (induction n)
  case (Suc n)
  have l: "length (concat (map (pack_block bm) [0..<n])) = BLOCK_SIZE * n"
    by (simp add: length_concat comp_def sum_list_triv)
  show ?case
  proof (cases "k < BLOCK_SIZE * n")
    case True
    then show ?thesis using Suc.IH l by (simp add: nth_append)
  next
    case False
    then have "k - BLOCK_SIZE * n < BLOCK_SIZE" using Suc.prems by simp
    then show ?thesis using False l by (simp add: nth_append nth_pack_block)
  qed
qed simp

section \<open>Blocks in a row\<close>

definition run_good :: "disk \<Rightarrow> nat \<Rightarrow> nat \<Rightarrow> bool" where
  "run_good d b n \<longleftrightarrow> b + n \<le> 2 ^ 32 \<and> (\<forall>k < n. \<not> dk_read_bad d (of_nat (b + k)) \<and> \<not> dk_write_bad d (of_nat (b + k)))"

fun placed :: "nat \<Rightarrow> byte list list \<Rightarrow> (block_t \<times> byte list) list" where
  "placed b [] = []"
| "placed b (x # xs) = (of_nat b, x) # placed (Suc b) xs"

lemma run_good_Suc: "run_good d b (Suc n) \<Longrightarrow> b < 2 ^ 32 \<and> \<not> dk_read_bad d (of_nat b) \<and> \<not> dk_write_bad d (of_nat b) \<and> run_good d (Suc b) n"
  unfolding run_good_def
proof (elim conjE, intro conjI allI impI)
  assume a: "b + Suc n \<le> 2 ^ 32" "\<forall>k < Suc n. \<not> dk_read_bad d (of_nat (b + k)) \<and> \<not> dk_write_bad d (of_nat (b + k))"
  show "b < 2 ^ 32" "Suc b + n \<le> 2 ^ 32" using a(1) by simp_all
  show "\<not> dk_read_bad d (of_nat b)" "\<not> dk_write_bad d (of_nat b)" using a(2) [rule_format, of 0] by simp_all
  fix k assume "k < n"
  then show "\<not> dk_read_bad d (of_nat (Suc b + k))" "\<not> dk_write_bad d (of_nat (Suc b + k))"
    using a(2) [rule_format, of "Suc k"] by simp_all
qed

lemma write_blocks_good: "run_good d b (length xs) \<Longrightarrow> write_blocks d b xs = (True, put_all d (placed b xs))"
proof (induction xs arbitrary: d b)
  case (Cons x xs)
  have "run_good (put_block d (of_nat b) x) (Suc b) (length xs)"
    using run_good_Suc [of d b "length xs"] Cons.prems by (simp add: run_good_def)
  then show ?case using Cons.IH run_good_Suc [of d b "length xs"] Cons.prems by (simp add: pwrite_good)
qed simp

lemma placed_pos: "c \<in> fst ` set (placed b xs) \<Longrightarrow> \<exists>k < length xs. c = of_nat (b + k)"
proof (induction b xs rule: placed.induct)
  case (2 b x xs)
  show ?case
  proof (cases "c = of_nat b")
    case True
    then show ?thesis by (intro exI [of _ 0]) simp
  next
    case False
    then obtain k where "k < length xs" "c = of_nat (Suc b + k)" using 2 by auto
    then show ?thesis by (intro exI [of _ "Suc k"]) simp
  qed
qed simp

lemma read_placed: "run_good d b (length xs) \<Longrightarrow> read_blocks (put_all d (placed b xs)) b (length xs) = Some (concat xs)"
proof (induction xs arbitrary: d b)
  case (Cons x xs)
  note g = run_good_Suc [of d b "length xs"]
  have "(of_nat b :: block_t) \<notin> fst ` set (placed (Suc b) xs)"
  proof
    assume "(of_nat b :: block_t) \<in> fst ` set (placed (Suc b) xs)"
    from placed_pos [OF this] obtain k where k: "k < length xs" "(of_nat b :: block_t) = of_nat (Suc b + k)" by blast
    then show False using u32_of_nat_eq [of b "Suc b + k"] Cons.prems by (simp add: run_good_def del: of_nat_add of_nat_Suc)
  qed
  then have "pread_block (put_all d (placed b (x # xs))) (of_nat b) = Some x"
    using g Cons.prems by (simp add: pread_good upd_all_other)
  moreover have "run_good (put_block d (of_nat b) x) (Suc b) (length xs)"
    using g Cons.prems by (simp add: run_good_def)
  ultimately show ?case using Cons.IH g Cons.prems by simp
qed simp

section \<open>Round trip\<close>

definition extents_wf :: "extent_allocator \<Rightarrow> disk \<Rightarrow> bool" where
  "extents_wf al d \<longleftrightarrow> length (ea_bitmap al) = unat (ea_total_blocks al) \<and> \<not> ea_poisoned al \<and>
     run_good d (unat (ea_bitmap_start al)) (extent_bitmap_blocks al) \<and> \<not> dk_fsync_bad d"

lemma bitmap_bytes: "i < unat (ea_total_blocks al) \<Longrightarrow> i div 8 < BLOCK_SIZE * extent_bitmap_blocks al"
  unfolding extent_bitmap_blocks_def by linarith

lemma sync_load:
  assumes "extents_wf al d"
  shows "\<exists>d'. sync_bitmap_to_disk al d = (Returned (), d') \<and>
     ea_bitmap (extent_allocator_new d' (ea_bitmap_start al) (ea_total_blocks al)) = ea_bitmap al \<and>
     d' = put_all d (placed (unat (ea_bitmap_start al)) (map (pack_block (ea_bitmap al)) [0..<extent_bitmap_blocks al]))"
proof -
  let ?xs = "map (pack_block (ea_bitmap al)) [0..<extent_bitmap_blocks al]" and ?b = "unat (ea_bitmap_start al)"
  have g: "run_good d ?b (length ?xs)" using assms by (simp add: extents_wf_def)
  have s: "sync_bitmap_to_disk al d = (Returned (), put_all d (placed ?b ?xs))"
    using assms write_blocks_good [OF g] by (simp add: sync_bitmap_to_disk_def extents_wf_def)
  have e: "map (\<lambda>i. bit (concat ?xs ! (i div 8)) (i mod 8)) [0..<unat (ea_total_blocks al)] = ea_bitmap al"
  proof (rule nth_equalityI)
    fix i assume "i < length (map (\<lambda>i. bit (concat ?xs ! (i div 8)) (i mod 8)) [0..<unat (ea_total_blocks al)])"
    then have i: "i < unat (ea_total_blocks al)" by simp
    then show "map (\<lambda>i. bit (concat ?xs ! (i div 8)) (i mod 8)) [0..<unat (ea_total_blocks al)] ! i = ea_bitmap al ! i"
      using bitmap_bytes [OF i] assms by (simp add: nth_packed bit_pack_byte extents_wf_def)
  qed (use assms in \<open>simp add: extents_wf_def\<close>)
  let ?al = "extent_allocator_new (put_all d (placed ?b ?xs)) (ea_bitmap_start al) (ea_total_blocks al)"
  have "ea_bitmap ?al = ea_bitmap al"
    using read_placed [OF g] e by (simp add: extent_allocator_new_def load_bitmap_from_disk_def Let_def extent_bitmap_blocks_def)
  then show ?thesis using s by blast
qed

end
