(* ===== verification/Extents_Properties.thy ===== *)
theory Extents_Properties
  imports Extents_Spec Instances
begin

text \<open>The two properties of the extent allocator that the C code can see.\<close>

definition toy_extents :: extent_allocator where
  "toy_extents = \<lparr>ea_bitmap_start = 2, ea_total_blocks = 20, ea_bitmap = False # replicate 18 True @ [False],
     ea_poisoned = False, ea_stats = \<lparr>as_total_blocks = 20, as_free_blocks = 2, as_allocated_blocks = 18,
     as_alloc_count = 0, as_free_count = 0\<rparr>, ea_free_blocks = 2, ea_alloc_count = 0\<rparr>"

text \<open>C39: the bitmap that \<open>rust_extent_sync\<close> writes loads back to the same bitmap, so the sync puts the
  allocator's own picture of the data blocks on the disk, whatever the bitmap of the C code says.\<close>
theorem extent_sync_load_roundtrip:
  assumes "extents_wf al (bd_disk dev)"
  shows "\<exists>dev' al'. rust_extent_sync al dev = (0, dev') \<and>
     rust_extent_alloc_init dev' (ea_bitmap_start al) (ea_total_blocks al) = Some al' \<and> ea_bitmap al' = ea_bitmap al"
  using sync_load [OF assms] by (auto simp: rust_extent_sync_def rust_extent_alloc_init_def)

theorem extent_sync_load_roundtrip_witness:
  "\<exists>dev' al'. rust_extent_sync toy_extents blank_dev = (0, dev') \<and>
     rust_extent_alloc_init dev' 2 20 = Some al' \<and> ea_bitmap al' = False # replicate 18 True @ [False]"
proof -
  have "extents_wf toy_extents (bd_disk blank_dev)"
    by (simp add: extents_wf_def toy_extents_def run_good_def extent_bitmap_blocks_def)
  from extent_sync_load_roundtrip [OF this] show ?thesis by (simp add: toy_extents_def)
qed

text \<open>C40: an allocation that starts at the last block, when it and the first block are free, takes the two for
  neighbours and runs past the bitmap: the call reports success without an extent, and from then on a
  sync reports success without writing anything.\<close>
theorem extent_alloc_wraps:
  assumes "length (ea_bitmap al) = unat (ea_total_blocks al)" "2 \<le> unat (ea_total_blocks al)"
    and "unat (ea_total_blocks al) < 2 ^ 32 - 1" "\<not> ea_poisoned al" "\<not> ea_bitmap al ! 0"
    and "\<not> ea_bitmap al ! (unat (ea_total_blocks al) - 1)" "2 \<le> max_len"
  shows "\<exists>al'. rust_extent_alloc al (ea_total_blocks al - 1) 2 max_len out = (0, out, al') \<and>
     (\<forall>dev. rust_extent_sync al' dev = (0, dev))"
proof -
  let ?n = "ea_total_blocks al" and ?bm = "ea_bitmap al"
  have l: "(of_nat (length ?bm) :: u32) = ?n" using assms(1) by simp
  have u: "unat (?n - 1) = unat ?n - 1" using assms(2) by (intro unat_minus_one) auto
  have m: "(?n - 1) mod ?n = ?n - 1" using u assms(2) by (simp add: word_unat_eq_iff unat_mod)
  have offs: "map of_nat [0..<unat ?n] = (0 :: u32) # 1 # map of_nat [2..<unat ?n]"
    using assms(2) by (simp add: upt_rec numeral_2_eq_2)
  have mx: "max_len \<noteq> 0" "\<not> max_len < 2" "min 2 max_len = 2" using assms(7) by (auto simp: min_def)
  have lt: "\<not> (2 :: u32) \<le> 1" by (simp add: word_le_nat_alt)
  have f: "find_consecutive_free ?bm (?n - 1) 2 max_len = Returned (?n - 1, 2)"
    using assms(2,5,6) u m mx(3) lt by (auto simp: find_consecutive_free_def l offs Let_def)
  have e: "unat (?n - 1 + 2) = unat ?n + 1"
  proof -
    have "?n - 1 + 2 = ?n + 1" by simp
    then show ?thesis using assms(3) by (simp add: unat_word_ariths)
  qed
  have "[unat ?n - 1..<unat ?n + 1] = [unat ?n - 1, unat ?n]" using assms(2) by (simp add: upt_rec)
  then have s: "set_bits ?bm [unat (?n - 1)..<unat (?n - 1 + 2)] = (False, ?bm[unat ?n - 1 := True])"
    using assms(1,2) u e by simp
  show ?thesis using f s mx assms(4)
    by (simp add: rust_extent_alloc_def allocate_extent_def rust_extent_sync_def sync_bitmap_to_disk_def)
qed

theorem extent_alloc_wraps_witness:
  "\<exists>al'. rust_extent_alloc toy_extents 19 2 4 (7, 7) = (0, (7, 7), al') \<and> rust_extent_sync al' blank_dev = (0, blank_dev)"
  using extent_alloc_wraps [of toy_extents 4 "(7, 7)"] by (auto simp: toy_extents_def nth_append nth_Cons')

end
