(* ===== verification/Path_Resolve.thy ===== *)
theory Path_Resolve
  imports Directory
begin

text \<open>
  \<open>src/path.c\<close>, the half over the inode layer: \<open>path_resolve\<close> walks a path from the root or the
  working directory and \<open>path_resolve_parent\<close> finds the directory a new or removed name belongs to.
  \<open>errno\<close>, which no caller reads, is not modelled.
\<close>

text \<open>
  The loop of \<open>path_resolve\<close> from the inode \<open>current\<close>.  The recursive call on the target of a symbolic
  link is unfolded to its \<open>inode_get\<close> and its loop; a cycle of links never returns.
\<close>

partial_function (option) path_walk ::
  "u64 \<Rightarrow> inode_cache \<Rightarrow> inode_t \<Rightarrow> inode_t \<Rightarrow> bool \<Rightarrow> addr \<Rightarrow> string \<Rightarrow> (addr option \<times> inode_cache) option" where
  "path_walk now c root cwd follow_symlink current p =
     (case get_next_component p (MAX_FILENAME + 1) of
        (None, _) \<Rightarrow> Some (Some current, c)
      | (Some component, p) \<Rightarrow> do {
          im \<leftarrow> ic_inodes c current;
          (if di_type (im_disk im) \<noteq> INODE_TYPE_DIR then do { c \<leftarrow> inode_put c current; Some (None, c) }
           else do {
             (r, c) \<leftarrow> dir_lookup now c current component;
             (case r of
                Inl _ \<Rightarrow> do { c \<leftarrow> inode_put c current; Some (None, c) }
              | Inr next_inum \<Rightarrow> do {
                  c \<leftarrow> inode_put c current;
                  (r, c) \<leftarrow> inode_get c next_inum;
                  (case r of
                     None \<Rightarrow> Some (None, c)
                   | Some current \<Rightarrow> do {
                       im \<leftarrow> ic_inodes c current;
                       (if follow_symlink \<and> di_type (im_disk im) = INODE_TYPE_SYMLINK then do {
                          (r, c) \<leftarrow> inode_read now c current 0 4095;
                          (case r of
                             Inl _ \<Rightarrow> do { c \<leftarrow> inode_put c current; Some (None, c) }
                           | Inr link_target \<Rightarrow> do {
                               c \<leftarrow> inode_put c current;
                               (r, c) \<leftarrow> inode_get c (if is_absolute (c_string link_target) then root else cwd);
                               (case r of
                                  None \<Rightarrow> Some (None, c)
                                | Some start \<Rightarrow> do {
                                    (r, c) \<leftarrow> path_walk now c root cwd follow_symlink start (c_string link_target);
                                    (case r of
                                       None \<Rightarrow> Some (None, c)
                                     | Some current \<Rightarrow> path_walk now c root cwd follow_symlink current p) }) }) }
                        else path_walk now c root cwd follow_symlink current p) }) }) }) })"

definition path_resolve ::
  "u64 \<Rightarrow> inode_cache \<Rightarrow> inode_t \<Rightarrow> inode_t \<Rightarrow> string \<Rightarrow> bool \<Rightarrow> (addr option \<times> inode_cache) option" where
  "path_resolve now c root cwd path follow_symlink = do {
     (r, c) \<leftarrow> inode_get c (if is_absolute path then root else cwd);
     (case r of
        None \<Rightarrow> Some (None, c)
      | Some current \<Rightarrow> path_walk now c root cwd follow_symlink current path) }"

text \<open>\<open>Inr\<close> holds the two out-parameters, \<open>parent_out\<close> and \<open>name_out\<close>.\<close>

definition path_resolve_parent ::
  "u64 \<Rightarrow> inode_cache \<Rightarrow> inode_t \<Rightarrow> inode_t \<Rightarrow> string \<Rightarrow> ((int + addr \<times> string) \<times> inode_cache) option" where
  "path_resolve_parent now c root cwd path =
     (case path_dirname path 4096 of
        Inl ret \<Rightarrow> Some (Inl ret, c)
      | Inr dir_path \<Rightarrow>
          if MAX_FILENAME < length (path_basename path) then Some (Inl MODERNFS_EINVAL, c)
          else do {
            (parent, c) \<leftarrow> (if dir_path = [] \<or> dir_path = ''.'' then inode_get c cwd
                            else if dir_path = ''/'' then inode_get c root
                            else path_resolve now c root cwd dir_path True);
            (case parent of
               None \<Rightarrow> Some (Inl MODERNFS_ENOENT, c)
             | Some a \<Rightarrow> do {
                 im \<leftarrow> ic_inodes c a;
                 (if di_type (im_disk im) \<noteq> INODE_TYPE_DIR then do {
                    c \<leftarrow> inode_put c a;
                    Some (Inl MODERNFS_EINVAL, c) }
                  else Some (Inr (a, path_basename path), c)) }) })"

end
