(* ===== verification/Fs_Tree.thy ===== *)
theory Fs_Tree
  imports Dir_Ops Path_Resolve
begin

text \<open>
  The file system as a graph of directories: which inodes are in use, what each directory maps its names
  to, how a path is followed through the directories, and which references an operation holds.
\<close>

section \<open>Directories by inode number\<close>

definition dir_node :: "inode_cache \<Rightarrow> inode_t \<Rightarrow> entry list \<Rightarrow> bool" where
  "dir_node c i es \<longleftrightarrow> di_type (node_of c i) = INODE_TYPE_DIR \<and> tree_ok (node_of c i) (ic_view c) (ic_used c) \<and>
     nodes (node_of c i) (ic_view c) (NB 0) \<noteq> 0 \<and> unat (di_size (node_of c i)) \<le> 4096 \<and> es \<noteq> [] \<and>
     entries_from (ic_view c (nodes (node_of c i) (ic_view c) (NB 0))) (unat (di_size (node_of c i))) 0 es"

definition node_blocks :: "inode_cache \<Rightarrow> inode_t \<Rightarrow> block_t set" where
  "node_blocks c i = {x. x \<noteq> 0 \<and> (\<exists>n. x = nodes (node_of c i) (ic_view c) n)}"

text \<open>
  The inodes \<open>S\<close> in use have well-formed trees over disjoint blocks, and are closed under the entries of
  their directories \<open>D\<close>.
\<close>

definition fs_tree :: "inode_cache \<Rightarrow> inode_t set \<Rightarrow> (inode_t \<rightharpoonup> entry list) \<Rightarrow> bool" where
  "fs_tree c S D \<longleftrightarrow>
     (\<forall>i \<in> S. table_ok c i \<and> tree_ok (node_of c i) (ic_view c) (ic_used c) \<and>
        (case D i of
           None \<Rightarrow> di_type (node_of c i) \<noteq> INODE_TYPE_DIR
         | Some es \<Rightarrow> dir_node c i es \<and> (\<forall>e \<in> set es. en_inum e \<noteq> 0 \<longrightarrow> en_inum e \<in> S))) \<and>
     (\<forall>i \<in> S. \<forall>j \<in> S. i \<noteq> j \<longrightarrow> node_blocks c i \<inter> node_blocks c j = {})"

text \<open>Following names from an inode.\<close>

fun follow :: "(inode_t \<rightharpoonup> entry list) \<Rightarrow> inode_t \<Rightarrow> string list \<Rightarrow> inode_t option" where
  "follow D i [] = Some i"
| "follow D i (w # ws) =
     (case D i of None \<Rightarrow> None
      | Some es \<Rightarrow> (case dmap es w of None \<Rightarrow> None | Some j \<Rightarrow> follow D j ws))"

lemma dmap_in: "dmap es w = Some j \<Longrightarrow> j \<noteq> 0 \<and> (\<exists>e \<in> set es. en_inum e = j)"
  by (induction es) (auto simp: ematch_def split: if_splits)

lemma fs_treeD:
  assumes "fs_tree c S D" "i \<in> S"
  shows "table_ok c i" "D i = None \<Longrightarrow> di_type (node_of c i) \<noteq> INODE_TYPE_DIR"
    "D i = Some es \<Longrightarrow> dir_node c i es" "D i = Some es \<Longrightarrow> dmap es w = Some j \<Longrightarrow> j \<in> S"
    "tree_ok (node_of c i) (ic_view c) (ic_used c)" "j \<in> S \<Longrightarrow> i \<noteq> j \<Longrightarrow> node_blocks c i \<inter> node_blocks c j = {}"
    "D i = Some es \<Longrightarrow> e \<in> set es \<Longrightarrow> en_inum e \<noteq> 0 \<Longrightarrow> en_inum e \<in> S"
  using assms by (auto simp: fs_tree_def dest!: dmap_in split: option.splits)

lemma follow_in: "fs_tree c S D \<Longrightarrow> i \<in> S \<Longrightarrow> follow D i ws = Some j \<Longrightarrow> j \<in> S"
  by (induction D i ws rule: follow.induct) (auto dest: fs_treeD(4) split: option.splits)

section \<open>What reading leaves alone\<close>

definition fs_quiet :: "inode_cache \<Rightarrow> inode_cache \<Rightarrow> bool" where
  "fs_quiet c c' \<longleftrightarrow> iwf c' \<and> istatic c c' \<and> (\<forall>i. table_ok c i \<longrightarrow> same_node (node_of c i) (node_of c' i)) \<and>
     (\<forall>b \<in> ic_pool c. ic_view c' b = ic_view c b)"

lemma fs_quiet_refl [simp]: "fs_quiet c c = iwf c"
  by (simp add: fs_quiet_def)

lemma fs_quiet_trans: "fs_quiet c d \<Longrightarrow> fs_quiet d e \<Longrightarrow> fs_quiet c e"
  using istatic_views(2,3) [of c d] istatic_trans [of c d e] same_node_trans unfolding fs_quiet_def by auto

text \<open>Inodes of the same type and size over the same blocks.\<close>

definition same_shape :: "disk_inode \<Rightarrow> disk_inode \<Rightarrow> bool" where
  "same_shape d d' \<longleftrightarrow> di_type d' = di_type d \<and> di_size d' = di_size d \<and> di_direct d' = di_direct d \<and>
     di_indirect d' = di_indirect d \<and> di_double_indirect d' = di_double_indirect d"

lemma same_shape_fields:
  assumes s: "same_shape d d'"
  shows "di_type d' = di_type d" "di_size d' = di_size d" "nodes d' = nodes d" "tree_ok d' = tree_ok d"
proof -
  have "l1_ptr d' = l1_ptr d" "file_block d' = file_block d"
    using s by (simp_all add: same_shape_def l1_ptr_def file_block_def fun_eq_iff Let_def)
  then have "nodes d' v n = nodes d v n" for v n using s by (cases n) (simp_all add: same_shape_def)
  then show "nodes d' = nodes d" by (simp add: fun_eq_iff)
  then show "tree_ok d' = tree_ok d" using s by (simp add: tree_ok_def fun_eq_iff same_shape_def)
  show "di_type d' = di_type d" "di_size d' = di_size d" using s by (simp_all add: same_shape_def)
qed

lemma same_node_shape:
  assumes "same_node d d'"
  shows "same_shape d d'"
proof -
  obtain t where "d' = d\<lparr>di_atime := t\<rparr>" using assms by (auto simp: same_node_def)
  then show ?thesis by (simp add: same_shape_def)
qed

lemmas same_node_fields = same_shape_fields [OF same_node_shape]

lemma node_blocks_iff: "x \<in> node_blocks c i \<longleftrightarrow> x \<noteq> 0 \<and> (\<exists>n. x = nodes (node_of c i) (ic_view c) n)"
  by (simp add: node_blocks_def)

lemma node_blocksI: "nodes (node_of c i) (ic_view c) n \<noteq> 0 \<Longrightarrow> nodes (node_of c i) (ic_view c) n \<in> node_blocks c i"
  unfolding node_blocks_iff by blast

lemma pointer_node_blocks: "pointer_blocks (node_of c i) (ic_view c) \<subseteq> node_blocks c i"
  unfolding pointer_blocks_nodes subset_iff by (metis node_blocksI)

text \<open>
  A step of the file system that changes the directories \<open>Q\<close>, keeps the inodes \<open>S'\<close> and leaves what the
  others hold as it was.
\<close>

lemma fs_tree_step:
  assumes t: "fs_tree c S D" and wf: "iwf c'" and S': "S' \<subseteq> S" and tab: "\<And>j. table_ok c' j = table_ok c j"
    and D': "\<And>j. j \<in> S' \<Longrightarrow> j \<notin> Q \<Longrightarrow> D' j = D j"
    and n: "\<And>j. j \<in> S' \<Longrightarrow> j \<notin> Q \<Longrightarrow> same_shape (node_of c j) (node_of c' j)"
    and v: "\<And>j x. j \<in> S' \<Longrightarrow> j \<notin> Q \<Longrightarrow> x \<in> node_blocks c j \<Longrightarrow> ic_view c' x = ic_view c x"
    and u: "\<And>j x. j \<in> S' \<Longrightarrow> j \<notin> Q \<Longrightarrow> x \<in> node_blocks c j \<Longrightarrow> x \<in> ic_used c'"
    and q: "\<And>j. j \<in> S' \<Longrightarrow> j \<in> Q \<Longrightarrow> \<exists>es. D' j = Some es \<and> dir_node c' j es \<and>
      nodes (node_of c' j) (ic_view c') = nodes (node_of c j) (ic_view c)"
    and cl: "\<And>j es e. j \<in> S' \<Longrightarrow> D' j = Some es \<Longrightarrow> e \<in> set es \<Longrightarrow> en_inum e \<noteq> 0 \<Longrightarrow> en_inum e \<in> S'"
  shows "fs_tree c' S' D'"
proof -
  have keep: "tree_ok (node_of c' j) (ic_view c') (ic_used c') \<and> nodes (node_of c' j) (ic_view c') = nodes (node_of c j) (ic_view c) \<and>
      (\<forall>es. dir_node c j es \<longrightarrow> dir_node c' j es)" if j: "j \<in> S'" "j \<notin> Q" for j
  proof -
    note F = same_shape_fields [OF n [OF j]]
    have tr: "tree_ok (node_of c j) (ic_view c) (ic_used c)" using fs_treeD(5) [OF t] S' j(1) by blast
    have pv: "ic_view c' b = ic_view c b" if "b \<in> pointer_blocks (node_of c j) (ic_view c)" for b
      using that pointer_node_blocks by (intro v [OF j]) blast
    have nd: "nodes (node_of c j) (ic_view c') = nodes (node_of c j) (ic_view c)" by (rule nodes_cong [OF pv])
    have tr': "tree_ok (node_of c j) (ic_view c') (ic_used c')"
      using tree_ok_cong [OF tr pv] wf u [OF j] nd
      by (simp add: tree_ok_def node_blocks_iff iwfD(1) ic_view_length) blast
    have "dir_node c' j es" if d: "dir_node c j es" for es
    proof -
      have "ic_view c' (nodes (node_of c j) (ic_view c) (NB 0)) = ic_view c (nodes (node_of c j) (ic_view c) (NB 0))"
        using d by (intro v [OF j] node_blocksI) (simp add: dir_node_def)
      then show ?thesis using d F nd tr' by (simp add: dir_node_def)
    qed
    then show ?thesis using F nd tr' by simp
  qed
  have nodes: "nodes (node_of c' j) (ic_view c') = nodes (node_of c j) (ic_view c)" if "j \<in> S'" for j
    using keep q that by (cases "j \<in> Q") auto
  have one: "table_ok c' i \<and> tree_ok (node_of c' i) (ic_view c') (ic_used c') \<and>
      (case D' i of None \<Rightarrow> di_type (node_of c' i) \<noteq> INODE_TYPE_DIR
       | Some es \<Rightarrow> dir_node c' i es \<and> (\<forall>e \<in> set es. en_inum e \<noteq> 0 \<longrightarrow> en_inum e \<in> S'))" if i: "i \<in> S'" for i
  proof -
    have iS: "i \<in> S" using i S' by blast
    show ?thesis
    proof (cases "i \<in> Q")
      case True
      then show ?thesis using q [OF i] cl [OF i] tab fs_treeD(1) [OF t iS] by (fastforce simp: dir_node_def)
    next
      case False
      show ?thesis
      proof (cases "D i")
        case None
        then show ?thesis using keep [OF i False] tab fs_treeD(1,2) [OF t iS] D' [OF i False] same_shape_fields(1) [OF n [OF i False]]
          by simp
      next
        case (Some es)
        then show ?thesis using keep [OF i False] tab fs_treeD(1,3) [OF t iS] D' [OF i False] cl [OF i] by auto
      qed
    qed
  qed
  moreover have "node_blocks c' i \<inter> node_blocks c' j = {}" if "i \<in> S'" "j \<in> S'" "i \<noteq> j" for i j
    using fs_treeD(6) [OF t, of i j] that S' nodes by (auto simp: node_blocks_def)
  ultimately show ?thesis by (auto simp: fs_tree_def)
qed

lemma fs_tree_quiet:
  assumes t: "fs_tree c S D" and q: "fs_quiet c c'"
  shows "fs_tree c' S D"
proof (rule fs_tree_step [OF t, where Q = "{}"])
  have st: "istatic c c'" using q by (simp add: fs_quiet_def)
  have used: "x \<in> ic_used c" if "j \<in> S" "x \<in> node_blocks c j" for j x
    using fs_treeD(5) [OF t that(1)] that(2) tree_okD(3) by (auto simp: node_blocks_iff)
  show "ic_view c' x = ic_view c x" if "j \<in> S" "x \<in> node_blocks c j" for j x
    using q used [OF that] used_pool [of c] by (auto simp: fs_quiet_def)
  show "x \<in> ic_used c'" if "j \<in> S" "x \<in> node_blocks c j" for j x
    using used [OF that] istatic_views(4) [OF st] by simp
  show "same_shape (node_of c j) (node_of c' j)" if "j \<in> S" for j
    using q fs_treeD(1) [OF t that] by (simp add: fs_quiet_def same_node_shape)
  show "table_ok c' j = table_ok c j" for j using istatic_views(3) [OF st] .
  show "iwf c'" using q by (simp add: fs_quiet_def)
qed (use t in \<open>auto dest: fs_treeD(7)\<close>)

text \<open>A new inode without blocks.\<close>

lemma fs_tree_add:
  assumes t: "fs_tree c S D" and wf: "iwf c" and j: "j \<notin> S" "table_ok c j" "di_type (node_of c j) \<noteq> INODE_TYPE_DIR"
    and n: "\<And>n. nodes (node_of c j) (ic_view c) n = 0" "length (di_direct (node_of c j)) = 12"
  shows "fs_tree c (insert j S) (D(j := None))"
proof -
  have "tree_ok (node_of c j) (ic_view c) (ic_used c)" using n wf by (simp add: tree_ok_def iwfD(1) ic_view_length)
  moreover have "node_blocks c j = {}" using n by (simp add: node_blocks_def)
  ultimately show ?thesis using t j by (auto simp: fs_tree_def split: option.splits)
qed

lemma dir_quiet_fs:
  assumes d: "dir_ok c a" and q: "dir_quiet c a c'"
  shows "fs_quiet c c'"
proof -
  have s: "dir_step c a c'" and b: "block_at c' a = block_at c a" and n: "same_node (node_of c (inum_of c a)) (node_of c' (inum_of c a))"
    using q by (simp_all add: dir_quiet_def)
  have "iwf c'" using s by (auto simp: dir_step_def dir_ok_def)
  moreover have "ic_view c' x = ic_view c x" if "x \<in> ic_pool c" for x
    using s b that by (cases "x = nodes_at c a (NB 0)") (simp_all add: dir_step_def block_at_def)
  moreover have "same_node (node_of c i) (node_of c' i)" if "table_ok c i" for i
    using s n that by (cases "i = inum_of c a") (simp_all add: dir_step_def)
  ultimately show ?thesis using s by (simp add: fs_quiet_def dir_step_def)
qed

section \<open>References\<close>

text \<open>\<open>c'\<close> is \<open>c\<close> with one more reference, on entry \<open>a\<close> with inode \<open>i\<close>.\<close>

definition takes :: "inode_cache \<Rightarrow> addr \<Rightarrow> inode_t \<Rightarrow> inode_cache \<Rightarrow> bool" where
  "takes c a i c' \<longleftrightarrow>
     held c' = (held c)(a \<mapsto> (i, True, (case held c a of Some (_, _, n) \<Rightarrow> n | None \<Rightarrow> 0) + 1)) \<and>
     (held c a = None \<or> (\<exists>n. held c a = Some (i, True, n))) \<and>
     dom (ic_inodes c') = dom (ic_inodes c) \<and> a \<in> dom (ic_inodes c) \<and> refs_ok c'"

definition idle :: "inode_cache \<Rightarrow> bool" where
  "idle c \<longleftrightarrow> (\<exists>x \<in> dom (ic_inodes c). held c x = None)"

lemma idle_same: "same_refs c c' \<Longrightarrow> idle c' = idle c"
  by (simp add: idle_def same_refs_def)

lemma takes_same: "takes c a i d \<Longrightarrow> same_refs d e \<Longrightarrow> takes c a i e"
  by (simp add: takes_def same_refs_def)

lemma same_takes: "same_refs b c \<Longrightarrow> takes c a i d \<Longrightarrow> takes b a i d"
  by (simp add: takes_def same_refs_def)

lemma held_pos: "held c a = Some (i, v, n) \<Longrightarrow> 0 < n"
  by (auto simp: held_def split: option.splits if_splits)

lemma held_SomeD: "held c a = Some (i, v, n) \<Longrightarrow> \<exists>im. ic_inodes c a = Some im \<and> im_inum im = i \<and> im_valid im = v \<and> im_ref_count im = n"
  by (auto simp: held_def split: option.splits if_splits)

text \<open>Entry \<open>a\<close> is held for inode \<open>i\<close>.\<close>

definition holds :: "inode_cache \<Rightarrow> addr \<Rightarrow> inode_t \<Rightarrow> bool" where
  "holds c a i \<longleftrightarrow> (\<exists>n. held c a = Some (i, True, n))"

lemma takes_holds: "takes c0 a i c \<Longrightarrow> holds c a i"
  by (simp add: takes_def holds_def)

lemma holds_same: "holds c a i \<Longrightarrow> same_refs c c' \<Longrightarrow> holds c' a i"
  by (simp add: holds_def same_refs_def)

lemma holds_takes: "holds c a i \<Longrightarrow> takes c b j c' \<Longrightarrow> holds c' a i"
  by (auto simp: holds_def takes_def)

lemma holdsD:
  assumes "holds c a i"
  obtains im where "ic_inodes c a = Some im" "im_inum im = i" "im_valid im" "0 < im_ref_count im"
proof -
  from assms obtain n where h: "held c a = Some (i, True, n)" by (auto simp: holds_def)
  from held_SomeD [OF h] obtain im where "ic_inodes c a = Some im" "im_inum im = i" "im_valid im = True" "im_ref_count im = n"
    by (elim exE conjE)
  then show thesis using held_pos [OF h] by (intro that [of im]) simp_all
qed

lemma get_takes:
  assumes wf: "iwf c" and r: "refs_ok c" and t: "table_ok c i" and idle: "idle c"
  shows "\<exists>a c'. inode_get c i = Some (Some a, c') \<and> fs_quiet c c' \<and> takes c a i c'"
proof -
  from inode_get_spec [OF wf t] obtain q c' where g: "inode_get c i = Some (q, c')" "iwf c'" "istatic c c'"
    "\<And>j. unat j < 2 ^ 25 \<Longrightarrow> node_of c' j = node_of c j" "\<And>b. b \<in> ic_pool c \<Longrightarrow> ic_view c' b = ic_view c b"
    "case q of
        None \<Rightarrow> c' = c \<and> (\<forall>a im. ic_inodes c a = Some im \<longrightarrow> 0 < im_ref_count im \<and> \<not> (im_valid im \<and> im_inum im = i))
      | Some a \<Rightarrow> (\<exists>im. ic_inodes c' a = Some im \<and> got c a i im) \<and>
          (\<forall>x. x \<noteq> a \<longrightarrow> map_option core (ic_inodes c' x) = map_option core (ic_inodes c x))" by blast
  have "q \<noteq> None"
  proof
    assume "q = None"
    then have "\<forall>a im. ic_inodes c a = Some im \<longrightarrow> 0 < im_ref_count im" using g(6) by auto
    then show False using idle by (auto simp: idle_def held_def split: option.splits)
  qed
  then obtain a im where a: "q = Some a" "ic_inodes c' a = Some im" "got c a i im"
    "\<And>x. x \<noteq> a \<Longrightarrow> map_option core (ic_inodes c' x) = map_option core (ic_inodes c x)" using g(6) by auto
  from a(3) obtain old where old: "ic_inodes c a = Some old" by (auto simp: got_def split: option.splits)
  have r0: "0 \<le> im_ref_count old" using r old by (simp add: refs_ok_def)
  have other: "held c' x = held c x \<and> (ic_inodes c' x = None \<longleftrightarrow> ic_inodes c x = None) \<and>
      (\<forall>im. ic_inodes c' x = Some im \<longrightarrow> 0 \<le> im_ref_count im)" if ne: "x \<noteq> a" for x
  proof (cases "ic_inodes c x")
    case None
    then show ?thesis using a(4) [OF ne] by (simp add: held_def)
  next
    case (Some m)
    then obtain m' where "ic_inodes c' x = Some m'" "core m' = core m" using a(4) [OF ne] by auto
    then show ?thesis using core_eqD [of m' m] Some r by (simp add: held_def refs_ok_def)
  qed
  have at: "held c' a = Some (i, True, (case held c a of Some (_, _, n) \<Rightarrow> n | None \<Rightarrow> 0) + 1) \<and>
      (held c a = None \<or> (\<exists>n. held c a = Some (i, True, n))) \<and> 0 \<le> im_ref_count im"
    using a(2,3) old r0 by (auto simp: got_def held_def split: if_splits)
  have "held c' = (held c)(a \<mapsto> (i, True, (case held c a of Some (_, _, n) \<Rightarrow> n | None \<Rightarrow> 0) + 1))"
    using other at by (auto simp: fun_eq_iff)
  moreover have "ic_inodes c' x = None \<longleftrightarrow> ic_inodes c x = None" for x
    using other [of x] a(2) old by (cases "x = a") simp_all
  then have "dom (ic_inodes c') = dom (ic_inodes c)" unfolding dom_def by simp
  moreover have "refs_ok c'" using other at a(2) unfolding refs_ok_def by (metis option.inject)
  ultimately have "takes c a i c'" using at old by (simp add: takes_def domI)
  moreover have "fs_quiet c c'" using g(2,3,4,5) by (auto simp: fs_quiet_def table_ok_def)
  ultimately show ?thesis using g(1) a(1) by blast
qed

lemma put_held:
  assumes wf: "iwf c" and h: "held c a = Some (i, True, n)" and r: "refs_ok c"
  shows "\<exists>c'. inode_put c a = Some c' \<and> fs_quiet c c' \<and> ic_view c' = ic_view c \<and> (\<forall>i. node_of c' i = node_of c i) \<and>
     held c' = (held c)(a := if n = 1 then None else Some (i, True, n - 1)) \<and>
     dom (ic_inodes c') = dom (ic_inodes c) \<and> refs_ok c' \<and> a \<in> dom (ic_inodes c)"
proof -
  from held_SomeD [OF h] obtain im where im: "ic_inodes c a = Some im" "im_inum im = i" "im_valid im" "im_ref_count im = n"
    by auto
  from inode_put_spec [OF wf im(1)] obtain c' where c': "inode_put c a = Some c'" "iwf c'" "istatic c c'"
    "ic_view c' = ic_view c" "\<And>i. node_of c' i = node_of c i"
    "ic_inodes c' = (ic_inodes c)(a \<mapsto> im\<lparr>im_ref_count := im_ref_count im - 1\<rparr>)" by blast
  have n: "0 < n" by (rule held_pos [OF h])
  have "held c' x = ((held c)(a := if n = 1 then None else Some (i, True, n - 1))) x" for x
    using c'(6) im n by (auto simp: held_def)
  then have "held c' = (held c)(a := if n = 1 then None else Some (i, True, n - 1))" by (simp add: fun_eq_iff)
  moreover have "refs_ok c'" using r c'(6) im(4) n by (auto simp: refs_ok_def)
  moreover have "dom (ic_inodes c') = dom (ic_inodes c)" using c'(6) im(1) by auto
  ultimately show ?thesis using c'(1-5) im(1) by (auto simp: fs_quiet_def)
qed

lemma put_takes:
  assumes wf: "iwf c'" and t: "takes c a i c'"
  shows "\<exists>c''. inode_put c' a = Some c'' \<and> fs_quiet c' c'' \<and> ic_view c'' = ic_view c' \<and>
     (\<forall>i. node_of c'' i = node_of c' i) \<and> same_refs c c''"
proof -
  let ?n = "case held c a of Some (_, _, n) \<Rightarrow> n | None \<Rightarrow> 0"
  have h: "held c' a = Some (i, True, ?n + 1)" and r: "refs_ok c'" using t by (simp_all add: takes_def)
  have old: "held c a = None \<and> ?n = 0 \<or> (\<exists>n. held c a = Some (i, True, n) \<and> 0 < n \<and> ?n = n)"
    using t held_pos [of c a i True] by (auto simp: takes_def)
  from put_held [OF wf h r] obtain c'' where c'': "inode_put c' a = Some c''" "fs_quiet c' c''" "ic_view c'' = ic_view c'"
    "\<forall>i. node_of c'' i = node_of c' i" "held c'' = (held c')(a := if ?n + 1 = 1 then None else Some (i, True, ?n + 1 - 1))"
    "dom (ic_inodes c'') = dom (ic_inodes c')" "refs_ok c''" by blast
  have "held c'' = held c" using c''(5) t old by (auto simp: takes_def fun_eq_iff)
  then have "same_refs c c''" using c''(6,7) t by (simp add: takes_def same_refs_def)
  then show ?thesis using c'' by blast
qed

text \<open>Dropping the older of two references.\<close>

lemma put_takes_older:
  assumes wf: "iwf c2" and t: "takes c a i c1" "takes c1 b j c2" and ne: "i \<noteq> j"
  shows "\<exists>c3. inode_put c2 a = Some c3 \<and> fs_quiet c2 c3 \<and> ic_view c3 = ic_view c2 \<and>
     (\<forall>i. node_of c3 i = node_of c2 i) \<and> takes c b j c3"
proof -
  let ?n = "case held c a of Some (_, _, n) \<Rightarrow> n | None \<Rightarrow> 0"
  have ab: "a \<noteq> b" using t ne by (auto simp: takes_def)
  have h: "held c2 a = Some (i, True, ?n + 1)" and r: "refs_ok c2" using t ab by (simp_all add: takes_def)
  have old: "held c a = None \<and> ?n = 0 \<or> (\<exists>n. held c a = Some (i, True, n) \<and> 0 < n \<and> ?n = n)"
    using t(1) held_pos [of c a i True] by (auto simp: takes_def)
  from put_held [OF wf h r] obtain c3 where c3: "inode_put c2 a = Some c3" "fs_quiet c2 c3" "ic_view c3 = ic_view c2"
    "\<forall>i. node_of c3 i = node_of c2 i" "held c3 = (held c2)(a := if ?n + 1 = 1 then None else Some (i, True, ?n + 1 - 1))"
    "dom (ic_inodes c3) = dom (ic_inodes c2)" "refs_ok c3" by blast
  have "held c3 = (held c)(b := held c2 b)" using c3(5) t ab old by (auto simp: takes_def fun_eq_iff)
  then have "takes c b j c3" using c3(6,7) t ab by (auto simp: takes_def)
  then show ?thesis using c3 by blast
qed

end
