(* ===== verification/Fs_Walk.thy ===== *)
theory Fs_Walk
  imports Fs_Tree Path_Spec
begin

text \<open>
  Resolving a path where no symbolic link is followed computes \<open>follow\<close>: the walk holds one reference at a
  time, on the inode it has reached, and drops it on every error exit.  No callback creates a symbolic link.
\<close>

section \<open>The characters of a component\<close>

lemma skip_slashes_set: "set (skip_slashes p) \<subseteq> set p"
  by (induction p) auto

lemma get_next_component_set:
  assumes "get_next_component p n = (Some w, p')"
  shows "set w \<subseteq> set p" "set p' \<subseteq> set p"
proof -
  obtain u v where c: "copy_component (n - 1) (skip_slashes p) = (u, v)" by fastforce
  have "u = w" "v = p'" using assms c by (auto simp: get_next_component_def Let_def split: if_splits)
  then show "set w \<subseteq> set p" "set p' \<subseteq> set p"
    using copy_component_append [OF c] skip_slashes_set [of p] by auto
qed

section \<open>The entry that is held\<close>

lemma held_node:
  assumes wf: "iwf c" and t: "holds c a i"
  shows "\<exists>im. ic_inodes c a = Some im \<and> im_inum im = i \<and> im_valid im \<and> 0 < im_ref_count im \<and> im_disk im = node_of c i"
proof -
  from t obtain im where im: "ic_inodes c a = Some im" "im_inum im = i" "im_valid im" "0 < im_ref_count im"
    by (rule holdsD)
  from wf obtain xs where "ishape c xs" by (auto simp: iwf_def)
  from node_of_cached [OF this im(1,3)] im show ?thesis by auto
qed

lemma held_dir:
  assumes wf: "iwf c" and t: "holds c a i" and d: "dir_node c i es"
  shows "dir_at c a es"
proof -
  from held_node [OF wf t] obtain im where im: "ic_inodes c a = Some im" "im_valid im" "0 < im_ref_count im"
    "im_disk im = node_of c i" by blast
  then show ?thesis using d wf
    by (auto simp: dir_at_def dir_ok_def dir_node_def tree_at_def nodes_at_def fsize_def block_at_def)
qed

lemma plain_good: "plain w \<Longrightarrow> CHR 0x00 \<notin> set w \<Longrightarrow> good_name w"
  by (simp add: plain_def good_name_def)

section \<open>The walk\<close>

text \<open>What a resolution that reaches \<open>j\<close>, or nothing, returns from the state \<open>c\<close>.\<close>

definition resolved :: "inode_cache \<Rightarrow> inode_t option \<Rightarrow> addr option \<Rightarrow> inode_cache \<Rightarrow> bool" where
  "resolved c j r c' \<longleftrightarrow> fs_quiet c c' \<and>
     (case j of None \<Rightarrow> r = None \<and> same_refs c c' | Some j \<Rightarrow> \<exists>b. r = Some b \<and> takes c b j c')"

lemma resolved_None [simp]: "resolved c None r c' \<longleftrightarrow> fs_quiet c c' \<and> r = None \<and> same_refs c c'"
  by (simp add: resolved_def)

definition no_links :: "inode_cache \<Rightarrow> inode_t set \<Rightarrow> bool" where
  "no_links c S \<longleftrightarrow> (\<forall>i \<in> S. di_type (node_of c i) \<noteq> INODE_TYPE_SYMLINK)"

lemma no_links_quiet:
  assumes "fs_tree c S D" "fs_quiet c c'" "no_links c S"
  shows "no_links c' S"
  unfolding no_links_def
proof
  fix i assume i: "i \<in> S"
  have "same_node (node_of c i) (node_of c' i)" using assms(2) fs_treeD(1) [OF assms(1) i] by (simp add: fs_quiet_def)
  from same_node_fields(1) [OF this] show "di_type (node_of c' i) \<noteq> INODE_TYPE_SYMLINK"
    using assms(3) i by (simp add: no_links_def)
qed

lemma walk_step:
  assumes T: "fs_tree c0 S D" and R: "refs_ok c0" "idle c0" and q: "fs_quiet c0 c" and i: "i \<in> S"
    and t: "takes c0 a i c" and w: "good_name w" and D: "D i = Some es"
  shows "\<exists>im r c1 c2. ic_inodes c a = Some im \<and> di_type (im_disk im) = INODE_TYPE_DIR \<and>
     dir_lookup now c a w = Some (r, c1) \<and> inode_put c1 a = Some c2 \<and> fs_quiet c0 c2 \<and> same_refs c0 c2 \<and>
     (case dmap es w of None \<Rightarrow> \<exists>e. r = Inl e
      | Some j \<Rightarrow> r = Inr j \<and> j \<in> S \<and> (\<exists>b c3. inode_get c2 j = Some (Some b, c3) \<and> fs_quiet c0 c3 \<and> takes c0 b j c3))"
proof -
  have wf: "iwf c" using q by (simp add: fs_quiet_def)
  note T1 = fs_tree_quiet [OF T q]
  have dn: "dir_node c i es" using fs_treeD(3) [OF T1 i D] .
  note da = held_dir [OF wf takes_holds [OF t] dn]
  from held_node [OF wf takes_holds [OF t]] obtain im where im: "ic_inodes c a = Some im" "im_disk im = node_of c i" by blast
  have ty: "di_type (im_disk im) = INODE_TYPE_DIR" using im(2) dn by (simp add: dir_node_def)
  from dir_lookup_spec [OF da w, of now] obtain c1 where
    c1: "dir_lookup now c a w = Some (case dmap es w of Some i \<Rightarrow> Inr i | None \<Rightarrow> Inl MODERNFS_ENOENT, c1)" "dir_quiet c a c1"
    by blast
  have q1: "fs_quiet c c1" by (rule dir_quiet_fs [OF _ c1(2)]) (use da in \<open>simp add: dir_at_def\<close>)
  have sr: "same_refs c c1" using c1(2) by (simp add: dir_quiet_def dir_step_def)
  have t1: "takes c0 a i c1" by (rule takes_same [OF t sr])
  have wf1: "iwf c1" using q1 by (simp add: fs_quiet_def)
  from put_takes [OF wf1 t1] obtain c2 where c2: "inode_put c1 a = Some c2" "fs_quiet c1 c2" "same_refs c0 c2" by blast
  have q2: "fs_quiet c0 c2" by (rule fs_quiet_trans [OF fs_quiet_trans [OF q q1] c2(2)])
  have R2: "refs_ok c2" "idle c2" using c2(3) R idle_same [OF c2(3)] by (simp_all add: same_refs_def)
  have get: "j \<in> S \<and> (\<exists>b c3. inode_get c2 j = Some (Some b, c3) \<and> fs_quiet c0 c3 \<and> takes c0 b j c3)"
    if j: "dmap es w = Some j" for j
  proof -
    have jS: "j \<in> S" by (rule fs_treeD(4) [OF T i D j])
    have "table_ok c2 j" by (rule fs_treeD(1) [OF fs_tree_quiet [OF T q2] jS])
    from get_takes [OF _ R2(1) this R2(2)] q2 obtain b c3 where
      "inode_get c2 j = Some (Some b, c3)" "fs_quiet c2 c3" "takes c2 b j c3" by (auto simp: fs_quiet_def)
    then show ?thesis using jS same_takes [OF c2(3)] fs_quiet_trans [OF q2] by blast
  qed
  show ?thesis using im ty c1(1) c2(1,3) q2 get by (intro exI conjI) (auto split: option.splits)
qed

lemma path_walk_spec:
  assumes T: "fs_tree c0 S D" and R: "refs_ok c0" "idle c0" and L: "follow_symlink \<longrightarrow> no_links c0 S"
  shows "fs_quiet c0 c \<Longrightarrow> i \<in> S \<Longrightarrow> takes c0 a i c \<Longrightarrow> CHR 0x00 \<notin> set p \<Longrightarrow>
     \<exists>r c'. path_walk now c root cwd follow_symlink a p = Some (r, c') \<and> resolved c0 (follow D i (components_of p)) r c'"
proof (induction "components_of p" arbitrary: p c i a)
  case Nil
  have "get_next_component p (MAX_FILENAME + 1) = (None, p)"
    using get_next_component_spec [of p] Nil(1) by (simp split: list.splits)
  then show ?case using Nil by (subst path_walk.simps) (auto simp: resolved_def Nil(1) [symmetric])
next
  case (Cons w ws)
  obtain p' where p: "get_next_component p (MAX_FILENAME + 1) = (Some w, p')" "components_of p' = ws"
    using get_next_component_spec [of p] Cons(2) by (auto split: list.splits)
  note ps = get_next_component_set [OF p(1)]
  have "plain w" by (rule components_plain [of w p]) (simp add: Cons(2) [symmetric])
  then have w: "good_name w" using ps Cons.prems(4) by (auto intro: plain_good)
  have nul: "CHR 0x00 \<notin> set p'" using ps Cons.prems(4) by auto
  show ?case
  proof (cases "D i")
    case None
    have wf: "iwf c" using Cons.prems by (simp add: fs_quiet_def)
    from held_node [OF wf takes_holds [OF Cons.prems(3)]] obtain im where im: "ic_inodes c a = Some im" "im_disk im = node_of c i" by blast
    have "di_type (im_disk im) \<noteq> INODE_TYPE_DIR"
      using fs_treeD(2) [OF fs_tree_quiet [OF T Cons.prems(1)] Cons.prems(2) None] im by simp
    moreover from put_takes [OF wf Cons.prems(3)] obtain c2 where
      "inode_put c a = Some c2" "fs_quiet c c2" "same_refs c0 c2" by blast
    ultimately show ?thesis using p im None fs_quiet_trans [OF Cons.prems(1)]
      by (subst path_walk.simps) (auto simp: Cons(2) [symmetric])
  next
    case (Some es)
    from walk_step [OF T R Cons.prems(1-3) w Some, of now] obtain im r c1 c2 where
      st: "ic_inodes c a = Some im" "di_type (im_disk im) = INODE_TYPE_DIR"
        "dir_lookup now c a w = Some (r, c1)" "inode_put c1 a = Some c2" "fs_quiet c0 c2" "same_refs c0 c2"
        "case dmap es w of None \<Rightarrow> \<exists>e. r = Inl e
         | Some j \<Rightarrow> r = Inr j \<and> j \<in> S \<and> (\<exists>b c3. inode_get c2 j = Some (Some b, c3) \<and> fs_quiet c0 c3 \<and> takes c0 b j c3)"
      by blast
    show ?thesis
    proof (cases "dmap es w")
      case None
      then show ?thesis using st p Some by (subst path_walk.simps) (auto simp: Cons(2) [symmetric])
    next
      case j: (Some j)
      then obtain b c3 where b: "r = Inr j" "j \<in> S" "inode_get c2 j = Some (Some b, c3)" "fs_quiet c0 c3" "takes c0 b j c3"
        using st(7) by auto
      have "iwf c3" using b(4) by (simp add: fs_quiet_def)
      from held_node [OF this takes_holds [OF b(5)]] obtain bm where bm: "ic_inodes c3 b = Some bm" "im_disk bm = node_of c3 j" by blast
      have nl: "(follow_symlink \<and> di_type (im_disk bm) = INODE_TYPE_SYMLINK) = False"
        using no_links_quiet [OF T b(4)] L b(2) bm(2) by (auto simp: no_links_def)
      from Cons.hyps(1) [OF p(2) [symmetric] b(4,2,5) nul] obtain r' c' where
        "path_walk now c3 root cwd follow_symlink b p' = Some (r', c')" "resolved c0 (follow D j (components_of p')) r' c'" by blast
      then show ?thesis using st(1-4) p b(1,3) bm(1) Some j
        by (subst path_walk.simps) (simp add: Cons(2) [symmetric] nl)
    qed
  qed
qed

lemma path_resolve_spec:
  assumes T: "fs_tree c S D" and wf: "iwf c" and R: "refs_ok c" "idle c" and s: "root \<in> S" "cwd \<in> S" and p: "CHR 0x00 \<notin> set p"
    and L: "follow_symlink \<longrightarrow> no_links c S"
  shows "\<exists>r c'. path_resolve now c root cwd p follow_symlink = Some (r, c') \<and>
     resolved c (follow D (if is_absolute p then root else cwd) (components_of p)) r c'"
proof -
  let ?i = "if is_absolute p then root else cwd"
  have i: "?i \<in> S" using s by simp
  from get_takes [OF wf R(1) fs_treeD(1) [OF T i] R(2)] obtain a c1 where
    "inode_get c ?i = Some (Some a, c1)" "fs_quiet c c1" "takes c a ?i c1" by blast
  with path_walk_spec [OF T R L _ i _ p] show ?thesis by (fastforce simp: path_resolve_def)
qed

section \<open>The parent of a path\<close>

text \<open>The directory that \<open>path_resolve_parent\<close> looks for.\<close>

definition parent_of :: "(inode_t \<rightharpoonup> entry list) \<Rightarrow> inode_t \<Rightarrow> inode_t \<Rightarrow> string \<Rightarrow> inode_t option" where
  "parent_of D root cwd d =
     (if d = [] \<or> d = ''.'' then Some cwd else if d = ''/'' then Some root
      else follow D (if is_absolute d then root else cwd) (components_of d))"

lemma path_dirname_set: "path_dirname p sz = Inr d \<Longrightarrow> CHR 0x00 \<notin> set p \<Longrightarrow> CHR 0x00 \<notin> set d"
  by (auto simp: path_dirname_def Let_def split: if_splits option.splits dest: in_set_takeD)

lemma path_resolve_parent_spec:
  assumes T: "fs_tree c S D" and wf: "iwf c" and R: "refs_ok c" "idle c" and s: "root \<in> S" "cwd \<in> S" and p: "CHR 0x00 \<notin> set p"
    and L: "no_links c S" and d: "path_dirname p 4096 = Inr d"
  shows "\<exists>r c'. path_resolve_parent now c root cwd p = Some (r, c') \<and> fs_quiet c c' \<and>
     (case parent_of D root cwd d of
        None \<Rightarrow> r = Inl MODERNFS_ENOENT \<and> same_refs c c'
      | Some i \<Rightarrow> i \<in> S \<and> (if D i = None then r = Inl MODERNFS_EINVAL \<and> same_refs c c'
          else \<exists>a. r = Inr (a, path_basename p) \<and> takes c a i c'))"
proof -
  let ?get = "if d = [] \<or> d = ''.'' then inode_get c cwd else if d = ''/'' then inode_get c root
              else path_resolve now c root cwd d True"
  have g: "\<exists>q c1. ?get = Some (q, c1) \<and> resolved c (parent_of D root cwd d) q c1"
  proof (cases "d = [] \<or> d = ''.'' \<or> d = ''/''")
    case True
    have "\<exists>a c1. inode_get c i = Some (Some a, c1) \<and> fs_quiet c c1 \<and> takes c a i c1" if "i \<in> S" for i
      by (rule get_takes [OF wf R(1) fs_treeD(1) [OF T that] R(2)])
    from this [OF s(1)] this [OF s(2)] True show ?thesis by (auto simp: parent_of_def resolved_def)
  next
    case False
    then show ?thesis
      using path_resolve_spec [OF T wf R s path_dirname_set [OF d p], of True now] L by (simp add: parent_of_def)
  qed
  then obtain q c1 where q: "?get = Some (q, c1)" "resolved c (parent_of D root cwd d) q c1" by blast
  show ?thesis
  proof (cases "parent_of D root cwd d")
    case None
    then show ?thesis using q d path_basename_length [of p] by (auto simp: path_resolve_parent_def not_less)
  next
    case i: (Some i)
    have iS: "i \<in> S" using i s follow_in [OF T] by (auto simp: parent_of_def split: if_splits)
    from q(2) i obtain a where a: "q = Some a" "fs_quiet c c1" "takes c a i c1" by (auto simp: resolved_def)
    then have wf1: "iwf c1" by (simp add: fs_quiet_def)
    from held_node [OF wf1 takes_holds [OF a(3)]] obtain im where im: "ic_inodes c1 a = Some im" "im_disk im = node_of c1 i" by blast
    note T1 = fs_tree_quiet [OF T a(2)]
    have ty: "di_type (im_disk im) = INODE_TYPE_DIR \<longleftrightarrow> D i \<noteq> None"
      using fs_treeD(2,3) [OF T1 iS] im(2) by (cases "D i") (auto simp: dir_node_def)
    from put_takes [OF wf1 a(3)] obtain c2 where c2: "inode_put c1 a = Some c2" "fs_quiet c1 c2" "same_refs c c2" by blast
    show ?thesis using q(1) d i iS a im(1) ty c2 fs_quiet_trans [OF a(2) c2(2)] path_basename_length [of p]
      by (auto simp: path_resolve_parent_def not_less)
  qed
qed

end
