(* ===== verification/Fs_Inv.thy ===== *)
theory Fs_Inv
  imports Fs_Walk Inode_Alloc_Spec
begin

text \<open>
  The invariant of a mounted file system: a tree of directories over the inodes in use, which are marked in
  the inode bitmap, with one directory entry for every file; and how the steps of an operation keep it.
\<close>

section \<open>Counting directory entries\<close>

definition links :: "(inode_t \<rightharpoonup> entry list) \<Rightarrow> inode_t \<Rightarrow> inode_t \<Rightarrow> nat" where
  "links D j k = (case D k of None \<Rightarrow> 0 | Some es \<Rightarrow> length (filter (\<lambda>e. en_inum e = j) es))"

definition nlinks :: "inode_t set \<Rightarrow> (inode_t \<rightharpoonup> entry list) \<Rightarrow> inode_t \<Rightarrow> nat" where
  "nlinks S D j = (\<Sum>k \<in> S. links D j k)"

lemma nlinks_change:
  assumes "i \<in> S" "\<And>k. k \<in> S \<Longrightarrow> k \<noteq> i \<Longrightarrow> D' k = D k"
  shows "nlinks S D' j + links D j i = nlinks S D j + links D' j i"
proof -
  have "(\<Sum>k \<in> S - {i}. links D' j k) = (\<Sum>k \<in> S - {i}. links D j k)"
    by (rule sum.cong) (auto simp: links_def assms(2))
  then show ?thesis using sum.remove [of S i "links D' j"] sum.remove [of S i "links D j"] assms(1) by (simp add: nlinks_def)
qed

lemma nlinks_zero:
  assumes "nlinks S D j = 0" "k \<in> S" "D k = Some es" "e \<in> set es"
  shows "en_inum e \<noteq> j"
proof -
  have "links D j k = 0" using assms(1,2) by (simp add: nlinks_def)
  then show ?thesis using assms(3,4) by (auto simp: links_def filter_empty_conv)
qed

lemma links_without:
  assumes "D i = Some (es @ e # fs)" "D' i = Some (without es e @ fs)" "j \<noteq> 0"
  shows "links D j i = links D' j i + (if en_inum e = j then 1 else 0)"
proof (cases es rule: rev_cases)
  case Nil
  then show ?thesis using assms by (simp add: links_def without_def)
next
  case (snoc ys y)
  then show ?thesis using assms by (simp add: links_def without_def)
qed

section \<open>The invariant\<close>

text \<open>A directory of live records with different names that begins with its own inode.\<close>

definition proper_dir :: "inode_t \<Rightarrow> entry list \<Rightarrow> bool" where
  "proper_dir i es \<longleftrightarrow> es \<noteq> [] \<and> en_inum (hd es) = i \<and> unique_names es \<and> (\<forall>e \<in> set es. en_inum e \<noteq> 0)"

definition fs_inv :: "inode_cache \<Rightarrow> inode_t set \<Rightarrow> (inode_t \<rightharpoonup> entry list) \<Rightarrow> bool" where
  "fs_inv c S D \<longleftrightarrow> iwf c \<and> ilayout c \<and> fs_tree c S D \<and> no_links c S \<and> refs_ok c \<and> ibits c 0 \<and> 0 \<notin> S \<and>
     (\<forall>i \<in> S. unat i < itotal c \<and> ibits c (unat i)) \<and> (\<forall>i \<in> S. \<forall>es. D i = Some es \<longrightarrow> proper_dir i es) \<and>
     (\<forall>i \<in> S. D i = None \<longrightarrow> nlinks S D i \<le> 1)"

lemma fs_invD:
  assumes "fs_inv c S D"
  shows "iwf c" "ilayout c" "fs_tree c S D" "no_links c S" "refs_ok c" "ibits c 0"
    "i \<in> S \<Longrightarrow> unat i < itotal c" "i \<in> S \<Longrightarrow> ibits c (unat i)" "i \<in> S \<Longrightarrow> D i = Some es \<Longrightarrow> proper_dir i es"
    "i \<in> S \<Longrightarrow> D i = None \<Longrightarrow> nlinks S D i \<le> 1" "0 \<notin> S"
  using assms by (auto simp: fs_inv_def)

lemma fs_inv_quiet:
  assumes i: "fs_inv c S D" and q: "fs_quiet c c'" and r: "refs_ok c'"
  shows "fs_inv c' S D"
proof -
  have st: "istatic c c'" "iwf c'" using q by (simp_all add: fs_quiet_def)
  note b = istatic_bitmap [OF st(1)]
  show ?thesis
    using fs_invD [OF i] st b ilayout_static [OF fs_invD(2) [OF i] st(1)] fs_tree_quiet [OF fs_invD(3) [OF i] q]
      no_links_quiet [OF fs_invD(3) [OF i] q] r by (simp add: fs_inv_def)
qed

text \<open>References: two entries that nobody holds are enough for every callback.\<close>

definition idle2 :: "inode_cache \<Rightarrow> bool" where
  "idle2 c \<longleftrightarrow> (\<exists>x \<in> dom (ic_inodes c). \<exists>y \<in> dom (ic_inodes c). x \<noteq> y \<and> held c x = None \<and> held c y = None)"

lemma idle2_idle: "idle2 c \<Longrightarrow> idle c"
  by (auto simp: idle2_def idle_def)

lemma idle2_takes:
  assumes "idle2 c" "takes c a i c'"
  shows "idle c'"
proof -
  from assms(1) obtain x y where xy: "x \<in> dom (ic_inodes c)" "y \<in> dom (ic_inodes c)" "x \<noteq> y" "held c x = None" "held c y = None"
    by (auto simp: idle2_def)
  have "held c' z = held c z" "z \<in> dom (ic_inodes c') \<longleftrightarrow> z \<in> dom (ic_inodes c)" if "z \<noteq> a" for z
    using assms(2) that by (simp_all add: takes_def)
  then show ?thesis using xy unfolding idle_def by (cases "x = a") metis+
qed

lemma takes_refs: "takes c a i c' \<Longrightarrow> refs_ok c'"
  by (simp add: takes_def)

lemma same_refs_ok: "same_refs c c' \<Longrightarrow> refs_ok c \<Longrightarrow> refs_ok c'"
  by (simp add: same_refs_def)

section \<open>Names from a path\<close>

lemma path_basename_nonempty: "path_basename p \<noteq> []"
proof -
  define n where "n = trim_len p (length p)"
  have n: "n \<le> length p" "0 < n \<Longrightarrow> p ! (n - 1) \<noteq> slash" using trim_len_spec [of _ p] by (auto simp: n_def)
  have ls: "i < n - 1" if "last_slash p n = Some i" for i
  proof -
    have "i < n" "p ! i = slash" using last_slash_spec [where p = p and n = n] that by simp_all
    then show ?thesis using n(2) by (cases "i = n - 1") auto
  qed
  show ?thesis using n ls by (auto simp: path_basename_def Let_def n_def [symmetric] split: option.splits)
qed

lemma path_basename_set: "CHR 0x00 \<notin> set p \<Longrightarrow> CHR 0x00 \<notin> set (path_basename p)"
  by (auto simp: path_basename_def Let_def split: option.splits dest!: in_set_takeD in_set_dropD)

lemma path_basename_good: "CHR 0x00 \<notin> set p \<Longrightarrow> good_name (path_basename p)"
  by (simp add: good_name_def path_basename_length path_basename_nonempty path_basename_set)

section \<open>Changing a directory\<close>

lemma dir_at_node:
  assumes wf: "iwf c" and t: "holds c a i" and d: "dir_at c a es"
  shows "dir_node c i es"
proof -
  from held_node [OF wf t] obtain im where im: "ic_inodes c a = Some im" "im_disk im = node_of c i" by blast
  then show ?thesis using d by (auto simp: dir_at_def dir_ok_def dir_node_def tree_at_def nodes_at_def fsize_def block_at_def)
qed

lemma holds_inum: "holds c a i \<Longrightarrow> inum_of c a = i"
  by (erule holdsD) (simp add: inum_of_def)

lemma holds_nodes:
  assumes wf: "iwf c" and t: "holds c a i"
  shows "nodes_at c a = nodes (node_of c i) (ic_view c)" "fsize c a = unat (di_size (node_of c i))"
proof -
  from held_node [OF wf t] obtain im where im: "ic_inodes c a = Some im" "im_disk im = node_of c i" by blast
  then show "nodes_at c a = nodes (node_of c i) (ic_view c)" "fsize c a = unat (di_size (node_of c i))"
    by (simp_all add: nodes_at_def fun_eq_iff fsize_def)
qed

text \<open>A step on the directory \<open>i\<close>, which entry \<open>a\<close> holds, that leaves the entries \<open>es'\<close> in it.\<close>

lemma fs_tree_dir_step:
  assumes t: "fs_tree c S D" and wf: "iwf c" "iwf c'" and i: "i \<in> S" "holds c a i" and s: "dir_step c a c'" and d: "dir_at c' a es'"
    and n: "nodes_at c a (NB 0) \<noteq> 0" and cl: "\<And>e. e \<in> set es' \<Longrightarrow> en_inum e \<noteq> 0 \<Longrightarrow> en_inum e \<in> S"
  shows "fs_tree c' S (D(i \<mapsto> es'))"
proof (rule fs_tree_step [OF t, where Q = "{i}"])
  have st: "istatic c c'" and sr: "same_refs c c'" using s by (simp_all add: dir_step_def)
  have i': "holds c' a i" by (rule holds_same [OF i(2) sr])
  have blk: "nodes_at c a (NB 0) \<in> node_blocks c i" using n holds_nodes(1) [OF wf(1) i(2)] node_blocksI [of c i "NB 0"] by simp
  have used: "x \<in> ic_used c" if "j \<in> S" "x \<in> node_blocks c j" for j x
    using fs_treeD(5) [OF t that(1)] that(2) tree_okD(3) by (auto simp: node_blocks_iff)
  show "iwf c'" by (rule wf(2))
  show "table_ok c' j = table_ok c j" for j using istatic_views(3) [OF st] .
  show "same_shape (node_of c j) (node_of c' j)" if "j \<in> S" "j \<notin> {i}" for j
    using s that fs_treeD(1) [OF t that(1)] holds_inum [OF i(2)] by (simp add: dir_step_def same_shape_def)
  show "ic_view c' x = ic_view c x" if "j \<in> S" "j \<notin> {i}" "x \<in> node_blocks c j" for j x
  proof -
    have "node_blocks c j \<inter> node_blocks c i = {}" by (rule fs_treeD(6) [OF t that(1) i(1)]) (use that in auto)
    then have "x \<noteq> nodes_at c a (NB 0)" using blk that(3) by blast
    then show ?thesis using s used [OF that(1,3)] used_pool [of c] by (auto simp: dir_step_def)
  qed
  show "x \<in> ic_used c'" if "j \<in> S" "x \<in> node_blocks c j" for j x using used [OF that] istatic_views(4) [OF st] by simp
  show "\<exists>es. (D(i \<mapsto> es')) j = Some es \<and> dir_node c' j es \<and> nodes (node_of c' j) (ic_view c') = nodes (node_of c j) (ic_view c)"
    if "j \<in> S" "j \<in> {i}" for j
  proof -
    have "nodes_at c' a = nodes_at c a" using s by (simp add: dir_step_def)
    then show ?thesis using that dir_at_node [OF wf(2) i' d] holds_nodes(1) [OF wf(1) i(2)] holds_nodes(1) [OF wf(2) i'] by simp
  qed
  show "en_inum e \<in> S" if "j \<in> S" "(D(i \<mapsto> es')) j = Some es" "e \<in> set es" "en_inum e \<noteq> 0" for j es e
    using that cl fs_treeD(7) [OF t that(1)] by (auto split: if_splits)
qed auto

section \<open>What is kept\<close>

text \<open>The files and directories \<open>K\<close> keep their inodes, up to the access time, and their blocks.\<close>

definition keeps :: "inode_cache \<Rightarrow> inode_cache \<Rightarrow> inode_t set \<Rightarrow> bool" where
  "keeps c c' K \<longleftrightarrow> (\<forall>k \<in> K. same_node (node_of c k) (node_of c' k) \<and> (\<forall>x \<in> node_blocks c k. ic_view c' x = ic_view c x))"

lemma keeps_nodes:
  assumes "keeps c c' K" "k \<in> K"
  shows "nodes (node_of c' k) (ic_view c') = nodes (node_of c k) (ic_view c)"
proof -
  have "same_node (node_of c k) (node_of c' k)" using assms by (simp add: keeps_def)
  note F = same_node_fields(3) [OF this]
  have "nodes (node_of c k) (ic_view c') = nodes (node_of c k) (ic_view c)"
    by (rule nodes_cong) (use assms subsetD [OF pointer_node_blocks [of c k]] in \<open>simp add: keeps_def\<close>)
  then show ?thesis using F by simp
qed

lemma keeps_blocks: "keeps c c' K \<Longrightarrow> k \<in> K \<Longrightarrow> node_blocks c' k = node_blocks c k"
  by (simp add: node_blocks_def keeps_nodes)

text \<open>The blocks that the size of an inode covers, and the allocation of inodes and blocks.\<close>

definition data_blocks :: "inode_cache \<Rightarrow> inode_t \<Rightarrow> block_t set" where
  "data_blocks c i = {nodes (node_of c i) (ic_view c) (NB k) | k. k < blocks_for (unat (di_size (node_of c i)))}"

lemma keeps_data: "keeps c c' K \<Longrightarrow> k \<in> K \<Longrightarrow> data_blocks c' k = data_blocks c k"
  using same_node_fields(2) [of "node_of c k" "node_of c' k"] by (simp add: data_blocks_def keeps_nodes keeps_def)

definition same_alloc :: "inode_cache \<Rightarrow> inode_cache \<Rightarrow> bool" where
  "same_alloc c c' \<longleftrightarrow> ibits c' = ibits c \<and> ic_used c' = ic_used c"

lemma same_alloc_static: "istatic c c' \<Longrightarrow> same_alloc c c'"
  by (simp add: same_alloc_def istatic_bitmap istatic_views)

lemma same_alloc_quiet: "fs_quiet c c' \<Longrightarrow> same_alloc c c'"
  by (simp add: fs_quiet_def same_alloc_static)

lemma same_alloc_trans: "same_alloc c d \<Longrightarrow> same_alloc d e \<Longrightarrow> same_alloc c e"
  by (simp add: same_alloc_def)

lemma keeps_trans:
  assumes "keeps c d K" "keeps d e L" "K \<subseteq> L"
  shows "keeps c e K"
  using assms keeps_blocks [OF assms(1)] same_node_trans unfolding keeps_def by (metis subsetD)

lemma keeps_subset: "keeps c d K \<Longrightarrow> L \<subseteq> K \<Longrightarrow> keeps c d L"
  by (auto simp: keeps_def)

lemma tree_used: "fs_tree c S D \<Longrightarrow> k \<in> S \<Longrightarrow> x \<in> node_blocks c k \<Longrightarrow> x \<in> ic_used c"
  using fs_treeD(5) tree_okD(3) by (fastforce simp: node_blocks_iff)

lemma keeps_quiet:
  assumes "fs_tree c S D" "fs_quiet c c'"
  shows "keeps c c' S"
  unfolding keeps_def
proof (intro ballI conjI)
  fix k assume k: "k \<in> S"
  then show "same_node (node_of c k) (node_of c' k)" using assms(2) fs_treeD(1) [OF assms(1)] by (simp add: fs_quiet_def)
  fix x assume "x \<in> node_blocks c k"
  then show "ic_view c' x = ic_view c x" using assms(2) tree_used [OF assms(1) k] used_pool [of c] by (auto simp: fs_quiet_def)
qed

lemma keeps_dir_step:
  assumes t: "fs_tree c S D" and wf: "iwf c" and i: "i \<in> S" "holds c a i" and s: "dir_step c a c'" and n: "nodes_at c a (NB 0) \<noteq> 0"
  shows "keeps c c' (S - {i})"
  unfolding keeps_def
proof (intro ballI conjI)
  fix k assume k: "k \<in> S - {i}"
  then show "same_node (node_of c k) (node_of c' k)"
    using s fs_treeD(1) [OF t, of k] holds_inum [OF i(2)] by (simp add: dir_step_def)
  fix x assume x: "x \<in> node_blocks c k"
  have "nodes_at c a (NB 0) \<in> node_blocks c i" using n holds_nodes(1) [OF wf i(2)] node_blocksI [of c i "NB 0"] by simp
  moreover have "node_blocks c k \<inter> node_blocks c i = {}" by (rule fs_treeD(6) [OF t]) (use k i in auto)
  ultimately have "x \<noteq> nodes_at c a (NB 0)" using x by (auto simp: disjoint_iff)
  then show "ic_view c' x = ic_view c x" using s tree_used [OF t _ x] k used_pool [of c] by (auto simp: dir_step_def)
qed

end
