(* ===== verification/Fs_Context.thy ===== *)
theory Fs_Context
  imports Path_Resolve Superblock Extents
begin

text \<open>
  \<open>src/fs_context.c\<close>: mounting, unmounting, syncing, statistics and the checkpoint thread.  The block
  device and the block allocator live inside the inode cache, and \<open>ctx->sb\<close> is the superblock of the
  device, which the code makes the same object.
\<close>

section \<open>State\<close>

record fs_context =
  fc_icache :: inode_cache
  fc_journal :: "journal option"
  fc_extent_alloc :: "extent_allocator option"
  fc_checkpoint_running :: bool
  fc_root_inum :: inode_t
  fc_read_only :: bool
  fc_device_path :: string
  fc_read_count :: u64
  fc_write_count :: u64

abbreviation fc_dev :: "fs_context \<Rightarrow> block_device" where
  "fc_dev ctx \<equiv> ic_dev (fc_icache ctx)"

definition set_dev :: "fs_context \<Rightarrow> block_device \<Rightarrow> fs_context" where
  "set_dev ctx dev = ctx\<lparr>fc_icache := (fc_icache ctx)\<lparr>ic_dev := dev\<rparr>\<rparr>"

text \<open>What the system gives a mount: the opened device, and which allocations and calls fail.\<close>

record fs_env =
  env_opened :: "(disk \<times> u64) option"
  env_ctx_oom :: bool
  env_dev_oom :: bool
  env_cache_oom :: bool
  env_sb_oom :: bool
  env_balloc_oom :: bool
  env_icache_oom :: bool
  env_dup_bad :: bool
  env_dup2_bad :: bool
  env_thread_bad :: bool

section \<open>Mounting\<close>

text \<open>The cleanup of the error exits; the result is the missing context and the disk.\<close>

definition fail_dev :: "block_device \<Rightarrow> (fs_context option \<times> disk option) option" where
  "fail_dev dev = do { (d, _) \<leftarrow> blkdev_close dev; Some (None, Some d) }"

definition fail_balloc :: "block_allocator \<Rightarrow> block_device \<Rightarrow> (fs_context option \<times> disk option) option" where
  "fail_balloc balloc dev = do { dev \<leftarrow> block_alloc_destroy balloc dev; fail_dev dev }"

definition fail_icache :: "inode_cache \<Rightarrow> (fs_context option \<times> disk option) option" where
  "fail_icache c = do { (dev, balloc) \<leftarrow> inode_cache_destroy c; fail_balloc balloc dev }"

text \<open>
  The part of \<open>fs_context_init\<close> that starts the Rust modules of a writable mount.  Destroying a journal
  manager or an extent allocator only frees it.
\<close>

definition start_journal :: "fs_env \<Rightarrow> superblock \<Rightarrow> fs_context \<Rightarrow> (fs_context option \<times> disk option) option" where
  "start_journal env sb ctx =
     (if env_dup_bad env then fail_icache (fc_icache ctx)
      else case rust_journal_init (fc_dev ctx) (sb_journal_start sb) (sb_journal_blocks sb) of
        None \<Rightarrow> fail_icache (fc_icache ctx)
      | Some j \<Rightarrow> do {
          (recovered, dev) \<leftarrow> rust_journal_recover j (fc_dev ctx);
          let ctx = set_dev ctx dev;
          (if recovered < 0 then fail_icache (fc_icache ctx)
           else if env_dup2_bad env then fail_icache (fc_icache ctx)
           else (case rust_extent_alloc_init dev (sb_data_bitmap_start sb) (sb_data_blocks sb) of
               None \<Rightarrow> fail_icache (fc_icache ctx)
             | Some e \<Rightarrow>
                 if env_thread_bad env then fail_icache (fc_icache ctx)
                 else Some (Some (ctx\<lparr>fc_journal := Some j, fc_extent_alloc := Some e, fc_checkpoint_running := True\<rparr>),
                   Some (bd_disk dev)))) })"

definition fs_context_init ::
  "fs_env \<Rightarrow> string \<Rightarrow> bool \<Rightarrow> (fs_context option \<times> disk option) option" where
  "fs_context_init env device_path read_only =
     (if env_ctx_oom env then Some (None, map_option fst (env_opened env))
      else case blkdev_open (env_opened env) (env_dev_oom env) (env_cache_oom env) of
        None \<Rightarrow> Some (None, map_option fst (env_opened env))
      | Some dev \<Rightarrow> do {
          (r, dev) \<leftarrow> superblock_read dev;
          (case r of
             Inl _ \<Rightarrow> fail_dev dev
           | Inr sb \<Rightarrow>
               if superblock_validate sb < 0 then fail_dev dev
               else if env_sb_oom env then fail_dev dev
               else do {
                 let dev = dev\<lparr>bd_superblock := Some sb\<rparr>;
                 (balloc, dev) \<leftarrow> block_alloc_init (env_balloc_oom env) dev (sb_data_bitmap_start sb)
                    (sb_data_bitmap_blocks sb) (sb_data_start sb) (sb_data_blocks sb);
                 (case balloc of
                    None \<Rightarrow> fail_dev dev
                  | Some balloc \<Rightarrow> do {
                      (icache, dev) \<leftarrow> inode_cache_init (env_icache_oom env) dev balloc 64 32;
                      (case icache of
                         None \<Rightarrow> fail_balloc balloc dev
                       | Some c \<Rightarrow> do {
                           (root, c) \<leftarrow> inode_get c (sb_root_inum sb);
                           (case root of
                              None \<Rightarrow> fail_icache c
                            | Some a \<Rightarrow> do {
                                im \<leftarrow> ic_inodes c a;
                                c \<leftarrow> inode_put c a;
                                (if di_type (im_disk im) \<noteq> INODE_TYPE_DIR then fail_icache c
                                 else do {
                                   let ctx = \<lparr>fc_icache = c, fc_journal = None, fc_extent_alloc = None,
                                     fc_checkpoint_running = False, fc_root_inum = sb_root_inum sb,
                                     fc_read_only = read_only, fc_device_path = take 255 device_path,
                                     fc_read_count = 0, fc_write_count = 0\<rparr>;
                                   (if read_only then Some (Some ctx, Some (bd_disk (ic_dev c)))
                                    else start_journal env sb ctx) }) }) }) }) }) })"

section \<open>Sync\<close>

definition fs_context_sync :: "fs_context \<Rightarrow> (int \<times> fs_context) option" where
  "fs_context_sync ctx =
     (if fc_read_only ctx then Some (0, ctx)
      else do {
        (ret, ctx) \<leftarrow> (case fc_journal ctx of None \<Rightarrow> Some (0, ctx)
          | Some j \<Rightarrow> do {
              (ret, j, dev) \<leftarrow> rust_journal_checkpoint j (fc_dev ctx);
              Some (ret, (set_dev ctx dev)\<lparr>fc_journal := Some j\<rparr>) });
        (if ret < 0 then Some (- EIO, ctx)
         else do {
           let (ret, ctx) = (case fc_extent_alloc ctx of None \<Rightarrow> (0, ctx)
             | Some e \<Rightarrow> (case rust_extent_sync e (fc_dev ctx) of (ret, dev) \<Rightarrow> (ret, set_dev ctx dev)));
           (if ret < 0 then Some (- EIO, ctx)
            else do {
              (ret, c) \<leftarrow> inode_sync_all (fc_icache ctx);
              (if ret < 0 then Some (- EIO, ctx\<lparr>fc_icache := c\<rparr>)
               else do {
                 (ret, dev) \<leftarrow> block_alloc_sync (ic_balloc c) (ic_dev c);
                 (if ret < 0 then Some (- EIO, ctx\<lparr>fc_icache := c\<lparr>ic_dev := dev\<rparr>\<rparr>)
                  else do {
                    let dev = dev\<lparr>bd_superblock := map_option (\<lambda>sb. sb
                      \<lparr>sb_free_blocks := ba_free_blocks (ic_balloc c), sb_free_inodes := sb_free_inodes (ic_sb c)\<rparr>)
                      (bd_superblock dev)\<rparr>;
                    (ret, dev) \<leftarrow> blkdev_sync dev;
                    Some (if ret < 0 then - EIO else 0, ctx\<lparr>fc_icache := c\<lparr>ic_dev := dev\<rparr>\<rparr>) }) }) }) }) })"

section \<open>Unmounting\<close>

text \<open>The result is the disk left behind and the emptied buffer cache.\<close>

definition fs_context_destroy :: "fs_context \<Rightarrow> (disk \<times> buffer_cache) option" where
  "fs_context_destroy ctx = do {
     (_, ctx) \<leftarrow> (if \<not> fc_read_only ctx then fs_context_sync (ctx\<lparr>fc_checkpoint_running := False\<rparr>)
                 else Some (0, ctx\<lparr>fc_checkpoint_running := False\<rparr>));
     (dev, balloc) \<leftarrow> inode_cache_destroy (fc_icache ctx);
     dev \<leftarrow> block_alloc_destroy balloc dev;
     blkdev_close dev
   }"

section \<open>Statistics\<close>

text \<open>Total and free data blocks, total and free inodes; the free counts go to the superblock in memory.\<close>

definition fs_context_statfs :: "fs_context \<Rightarrow> (u64 \<times> u64 \<times> u64 \<times> u64) \<times> fs_context" where
  "fs_context_statfs ctx =
     (let c = fc_icache ctx;
          (data_total, data_free, _, _) = block_alloc_stats (ic_balloc c);
          inode_total = sb_total_inodes (ic_sb c);
          inode_free = sb_free_inodes (ic_sb c);
          dev = (ic_dev c)\<lparr>bd_superblock := map_option (\<lambda>sb. sb
            \<lparr>sb_free_blocks := data_free, sb_free_inodes := inode_free\<rparr>) (bd_superblock (ic_dev c))\<rparr>
      in ((ucast data_total, ucast data_free, ucast inode_total, ucast inode_free), set_dev ctx dev))"

section \<open>The checkpoint thread\<close>

text \<open>
  One round of \<open>checkpoint_thread_func\<close>, after the wait ended, by timeout (\<open>timedout\<close>) or a signal.
  The inner \<open>None\<close> ends the thread.  Failures are only reported.
\<close>

definition checkpoint_round :: "bool \<Rightarrow> fs_context \<Rightarrow> fs_context option option" where
  "checkpoint_round timedout ctx =
     (if \<not> fc_checkpoint_running ctx then Some None
      else case fc_journal ctx of
        Some j \<Rightarrow>
          if timedout then do {
            (_, j, dev) \<leftarrow> rust_journal_checkpoint j (fc_dev ctx);
            let ctx = (set_dev ctx dev)\<lparr>fc_journal := Some j\<rparr>;
            (case fc_extent_alloc ctx of
               None \<Rightarrow> Some (Some ctx)
             | Some e \<Rightarrow> Some (Some (set_dev ctx (snd (rust_extent_sync e (fc_dev ctx)))))) }
          else Some (Some ctx)
      | None \<Rightarrow> Some (Some ctx))"

end
