(* ===== verification/Fuse_Ops.thy ===== *)
theory Fuse_Ops
  imports Fs_Context
begin

text \<open>
  \<open>src/fuse_ops.c\<close>: the callbacks of the mounted file system, over the context.  \<open>now\<close> is the time of
  the call, \<open>uid\<close> and \<open>gid\<close> are those of \<open>fuse_get_context()\<close>.  The codes are returned to the kernel as negated \<open>errno\<close> values.
\<close>

abbreviation EROFS :: int where "EROFS \<equiv> 30"
abbreviation ENOENT :: int where "ENOENT \<equiv> 2"
abbreviation ENOTDIR :: int where "ENOTDIR \<equiv> 20"
abbreviation EISDIR :: int where "EISDIR \<equiv> 21"
abbreviation EEXIST :: int where "EEXIST \<equiv> 17"
abbreviation ENOTEMPTY :: int where "ENOTEMPTY \<equiv> 39"

text \<open>Most callbacks work on the inode cache only.\<close>

definition on_icache ::
  "fs_context \<Rightarrow> (inode_cache \<Rightarrow> ('r \<times> inode_cache) option) \<Rightarrow> ('r \<times> fs_context) option" where
  "on_icache ctx f = do { (r, c) \<leftarrow> f (fc_icache ctx); Some (r, ctx\<lparr>fc_icache := c\<rparr>) }"

text \<open>Updates of \<open>inode->disk\<close> that also set the dirty flag, and ending with a code after a put.\<close>

definition set_disk :: "inode_cache \<Rightarrow> addr \<Rightarrow> (disk_inode \<Rightarrow> disk_inode) \<Rightarrow> inode_cache option" where
  "set_disk c a f = im_modify c a (\<lambda>im. im\<lparr>im_disk := f (im_disk im), im_dirty := True\<rparr>)"

definition put_ret :: "inode_cache \<Rightarrow> addr \<Rightarrow> 'r \<Rightarrow> ('r \<times> inode_cache) option" where
  "put_ret c a r = do { c \<leftarrow> inode_put c a; Some (r, c) }"

text \<open>A count returned as an \<open>int\<close>.\<close>

definition c_int :: "u64 \<Rightarrow> int" where
  "c_int n = sint (ucast n :: u32)"

section \<open>Attributes\<close>

record fstat =
  st_ino :: u64
  st_mode :: u32
  st_nlink :: u64
  st_uid :: u32
  st_gid :: u32
  st_size :: u64
  st_blksize :: u64
  st_blocks :: u64
  st_atime :: u64
  st_mtime :: u64
  st_ctime :: u64

abbreviation S_IFDIR :: u32 where "S_IFDIR \<equiv> 0x4000"
abbreviation S_IFREG :: u32 where "S_IFREG \<equiv> 0x8000"

definition inode_to_stat :: "inode_mem \<Rightarrow> fstat" where
  "inode_to_stat im =
     (let d = im_disk im in
      \<lparr>st_ino = ucast (im_inum im),
       st_mode = (if di_type d = INODE_TYPE_DIR then S_IFDIR else S_IFREG) OR ucast (di_mode d),
       st_nlink = ucast (di_nlink d), st_uid = ucast (di_uid d), st_gid = ucast (di_gid d), st_size = di_size d,
       st_blksize = 4096, st_blocks = di_blocks d, st_atime = di_atime d, st_mtime = di_mtime d,
       st_ctime = di_ctime d\<rparr>)"

definition modernfs_getattr ::
  "u64 \<Rightarrow> string \<Rightarrow> fs_context \<Rightarrow> ((int + fstat) \<times> fs_context) option" where
  "modernfs_getattr now path ctx = on_icache ctx (\<lambda>c. do {
     (r, c) \<leftarrow> path_resolve now c (fc_root_inum ctx) (fc_root_inum ctx) path False;
     (case r of
        None \<Rightarrow> Some (Inl (- ENOENT), c)
      | Some a \<Rightarrow> do { im \<leftarrow> ic_inodes c a; put_ret c a (Inr (inode_to_stat im)) }) })"

section \<open>Directories\<close>

text \<open>\<open>filler\<close> is FUSE's; of the \<open>struct stat\<close> it gets only the inode number and the mode are set.\<close>

definition iterate_callback ::
  "(string \<Rightarrow> u64 \<Rightarrow> u32 \<Rightarrow> 's \<Rightarrow> int \<times> 's) \<Rightarrow> string \<Rightarrow> inode_t \<Rightarrow> 's \<Rightarrow> int \<times> 's" where
  "iterate_callback filler name inum s =
     (case filler name (ucast inum) S_IFDIR s of (r, s) \<Rightarrow> if r \<noteq> 0 then (-1, s) else (0, s))"

definition modernfs_readdir ::
  "u64 \<Rightarrow> string \<Rightarrow> (string \<Rightarrow> u64 \<Rightarrow> u32 \<Rightarrow> 's \<Rightarrow> int \<times> 's) \<Rightarrow> 's \<Rightarrow> fs_context \<Rightarrow>
   ((int \<times> 's) \<times> fs_context) option" where
  "modernfs_readdir now path filler s ctx = on_icache ctx (\<lambda>c. do {
     (r, c) \<leftarrow> path_resolve now c (fc_root_inum ctx) (fc_root_inum ctx) path False;
     (case r of
        None \<Rightarrow> Some ((- ENOENT, s), c)
      | Some a \<Rightarrow> do {
          im \<leftarrow> ic_inodes c a;
          (if di_type (im_disk im) \<noteq> INODE_TYPE_DIR then put_ret c a (- ENOTDIR, s)
           else do {
             (ret, s, c) \<leftarrow> dir_iterate now c a (iterate_callback filler) s;
             put_ret c a (if ret < 0 then ret else 0, s) }) }) })"

definition modernfs_mkdir ::
  "u64 \<Rightarrow> u32 \<Rightarrow> u32 \<Rightarrow> string \<Rightarrow> u32 \<Rightarrow> fs_context \<Rightarrow> (int \<times> fs_context) option" where
  "modernfs_mkdir now uid gid path mode ctx =
     (if fc_read_only ctx then Some (- EROFS, ctx)
      else on_icache ctx (\<lambda>c. do {
        (r, c) \<leftarrow> path_resolve_parent now c (fc_root_inum ctx) (fc_root_inum ctx) path;
        (case r of
           Inl _ \<Rightarrow> Some (- ENOENT, c)
         | Inr (parent, filename) \<Rightarrow> do {
             pm \<leftarrow> ic_inodes c parent;
             (if di_type (im_disk pm) \<noteq> INODE_TYPE_DIR then put_ret c parent (- ENOTDIR)
              else do {
                (r, c) \<leftarrow> dir_lookup now c parent filename;
                (case r of
                   Inr _ \<Rightarrow> put_ret c parent (- EEXIST)
                 | Inl _ \<Rightarrow> do {
                     (r, c) \<leftarrow> inode_alloc now c INODE_TYPE_DIR;
                     (case r of
                        None \<Rightarrow> put_ret c parent (- ENOSPC)
                      | Some new \<Rightarrow> do {
                          c \<leftarrow> im_modify c new (\<lambda>im. im\<lparr>im_disk := (im_disk im)
                                 \<lparr>di_mode := ucast (mode AND 0x1FF), di_nlink := 2, di_uid := ucast uid,
                                  di_gid := ucast gid\<rparr>\<rparr>);
                          nm \<leftarrow> ic_inodes c new;
                          (ret, c) \<leftarrow> dir_add now c new ''.'' (im_inum nm);
                          (ret, c) \<leftarrow> (if ret < 0 then Some (ret, c)
                                      else do { pm \<leftarrow> ic_inodes c parent; dir_add now c new ''..'' (im_inum pm) });
                          (if ret < 0 then do { (_, c) \<leftarrow> inode_free c new; put_ret c parent (- EIO) }
                           else do {
                             c \<leftarrow> im_modify c new (im_dirty_update (\<lambda>_. True));
                             nm \<leftarrow> ic_inodes c new;
                             (ret, c) \<leftarrow> dir_add now c parent filename (im_inum nm);
                             (if ret < 0 then do { (_, c) \<leftarrow> inode_free c new; put_ret c parent ret }
                              else do {
                                c \<leftarrow> set_disk c parent (\<lambda>d. d\<lparr>di_nlink := di_nlink d + 1\<rparr>);
                                c \<leftarrow> inode_put c parent;
                                put_ret c new 0 }) }) }) }) }) }) }))"

text \<open>The test for emptiness is the link count.\<close>

definition modernfs_rmdir ::
  "u64 \<Rightarrow> string \<Rightarrow> fs_context \<Rightarrow> (int \<times> fs_context) option" where
  "modernfs_rmdir now path ctx =
     (if fc_read_only ctx then Some (- EROFS, ctx)
      else on_icache ctx (\<lambda>c. do {
        (r, c) \<leftarrow> path_resolve_parent now c (fc_root_inum ctx) (fc_root_inum ctx) path;
        (case r of
           Inl _ \<Rightarrow> Some (- ENOENT, c)
         | Inr (parent, filename) \<Rightarrow> do {
             (r, c) \<leftarrow> dir_lookup now c parent filename;
             (case r of
                Inl _ \<Rightarrow> put_ret c parent (- ENOENT)
              | Inr target_inum \<Rightarrow> do {
                  (r, c) \<leftarrow> inode_get c target_inum;
                  (case r of
                     None \<Rightarrow> put_ret c parent (- ENOENT)
                   | Some target \<Rightarrow> do {
                       tm \<leftarrow> ic_inodes c target;
                       (if di_type (im_disk tm) \<noteq> INODE_TYPE_DIR then do {
                          c \<leftarrow> inode_put c target;
                          put_ret c parent (- ENOTDIR) }
                        else if 2 < di_nlink (im_disk tm) then do {
                          c \<leftarrow> inode_put c target;
                          put_ret c parent (- ENOTEMPTY) }
                        else do {
                          (ret, c) \<leftarrow> dir_remove now c parent filename;
                          (if ret < 0 then do { c \<leftarrow> inode_put c target; put_ret c parent (- EIO) }
                           else do {
                             c \<leftarrow> set_disk c parent (\<lambda>d. d\<lparr>di_nlink := di_nlink d - 1\<rparr>);
                             (_, c) \<leftarrow> inode_free c target;
                             put_ret c parent 0 }) }) }) }) }) }))"

section \<open>Files\<close>

text \<open>\<open>fh\<close> is the handle of \<open>struct fuse_file_info\<close>.\<close>

definition modernfs_create ::
  "u64 \<Rightarrow> u32 \<Rightarrow> u32 \<Rightarrow> string \<Rightarrow> u32 \<Rightarrow> u64 \<Rightarrow> fs_context \<Rightarrow> ((int \<times> u64) \<times> fs_context) option" where
  "modernfs_create now uid gid path mode fh ctx =
     (if fc_read_only ctx then Some ((- EROFS, fh), ctx)
      else on_icache ctx (\<lambda>c. do {
        (r, c) \<leftarrow> path_resolve_parent now c (fc_root_inum ctx) (fc_root_inum ctx) path;
        (case r of
           Inl _ \<Rightarrow> Some ((- ENOENT, fh), c)
         | Inr (parent, filename) \<Rightarrow> do {
             (r, c) \<leftarrow> dir_lookup now c parent filename;
             (case r of
                Inr _ \<Rightarrow> put_ret c parent (- EEXIST, fh)
              | Inl _ \<Rightarrow> do {
                  (r, c) \<leftarrow> inode_alloc now c INODE_TYPE_FILE;
                  (case r of
                     None \<Rightarrow> put_ret c parent (- ENOSPC, fh)
                   | Some new \<Rightarrow> do {
                       c \<leftarrow> set_disk c new (\<lambda>d. d\<lparr>di_mode := ucast (mode AND 0x1FF), di_nlink := 1,
                              di_uid := ucast uid, di_gid := ucast gid\<rparr>);
                       nm \<leftarrow> ic_inodes c new;
                       let fh = ucast (im_inum nm);
                       (ret, c) \<leftarrow> dir_add now c parent filename (im_inum nm);
                       (if ret < 0 then do { (_, c) \<leftarrow> inode_free c new; put_ret c parent (ret, fh) }
                        else do {
                          c \<leftarrow> im_modify c parent (im_dirty_update (\<lambda>_. True));
                          c \<leftarrow> inode_put c parent;
                          put_ret c new (0, fh) }) }) }) }) }))"

definition modernfs_open ::
  "u64 \<Rightarrow> string \<Rightarrow> u64 \<Rightarrow> fs_context \<Rightarrow> ((int \<times> u64) \<times> fs_context) option" where
  "modernfs_open now path fh ctx = on_icache ctx (\<lambda>c. do {
     (r, c) \<leftarrow> path_resolve now c (fc_root_inum ctx) (fc_root_inum ctx) path False;
     (case r of
        None \<Rightarrow> Some ((- ENOENT, fh), c)
      | Some a \<Rightarrow> do {
          im \<leftarrow> ic_inodes c a;
          (if di_type (im_disk im) \<noteq> INODE_TYPE_FILE then put_ret c a (- EISDIR, fh)
           else put_ret c a (0, ucast (im_inum im))) }) })"

text \<open>The returned bytes are what \<open>buf\<close> holds; after an error they are unspecified, here empty.\<close>

definition modernfs_read ::
  "u64 \<Rightarrow> u64 \<Rightarrow> u64 \<Rightarrow> u64 \<Rightarrow> fs_context \<Rightarrow> ((int \<times> byte list) \<times> fs_context) option" where
  "modernfs_read now fh sz offset ctx = do {
     (r, c) \<leftarrow> inode_get (fc_icache ctx) (ucast fh);
     (case r of
        None \<Rightarrow> Some ((- ENOENT, []), ctx\<lparr>fc_icache := c\<rparr>)
      | Some a \<Rightarrow> do {
          (r, c) \<leftarrow> inode_read now c a offset sz;
          c \<leftarrow> set_disk c a (\<lambda>d. d\<lparr>di_atime := now\<rparr>);
          c \<leftarrow> inode_put c a;
          let ctx = ctx\<lparr>fc_icache := c, fc_read_count := fc_read_count ctx + 1\<rparr>;
          (case r of
             Inl e \<Rightarrow> Some ((e, []), ctx)
           | Inr data \<Rightarrow> Some ((c_int (of_nat (length data)), data), ctx)) }) }"

text \<open>
  The write of a mount with a journal is a transaction, committed and checkpointed at once; an aborted
  transaction is freed.
\<close>

definition modernfs_write :: "u64 \<Rightarrow> u64 \<Rightarrow> byte list \<Rightarrow> u64 \<Rightarrow> u64 \<Rightarrow> fs_context \<Rightarrow> (int \<times> fs_context) option" where
  "modernfs_write now fh buf sz offset ctx =
     (if fc_read_only ctx then Some (- EROFS, ctx)
      else do {
        (r, c) \<leftarrow> inode_get (fc_icache ctx) (ucast fh);
        let ctx = ctx\<lparr>fc_icache := c\<rparr>;
        (case r of
           None \<Rightarrow> Some (- ENOENT, ctx)
         | Some a \<Rightarrow> do {
             let (begun, txn, ctx) = (case fc_journal ctx of None \<Rightarrow> (True, None, ctx)
               | Some j \<Rightarrow> (case rust_journal_begin j of
                   (txn, j) \<Rightarrow> (txn \<noteq> None, txn, ctx\<lparr>fc_journal := Some j\<rparr>)));
             (if \<not> begun then do {
                c \<leftarrow> inode_put c a;
                Some (- EIO, ctx\<lparr>fc_icache := c\<rparr>) }
              else do {
                (r, c, txn) \<leftarrow> inode_write rust_journal_write now c a buf offset sz txn;
                (case r of
                   Inl e \<Rightarrow> do {
                     c \<leftarrow> inode_put c a;
                     Some (e, ctx\<lparr>fc_icache := c\<rparr>) }
                 | Inr bytes_written \<Rightarrow> do {
                     c \<leftarrow> set_disk c a (\<lambda>d. d\<lparr>di_mtime := now, di_ctime := now\<rparr>);
                     (_, c) \<leftarrow> inode_sync c a;
                     (case (txn, fc_journal ctx) of
                        (Some t, Some j) \<Rightarrow>
                          (case rust_journal_commit j t (ic_dev c) of
                             (ret, j, dev) \<Rightarrow>
                               if ret < 0 then do {
                                 c \<leftarrow> inode_put (c\<lparr>ic_dev := dev\<rparr>) a;
                                 Some (- EIO, ctx\<lparr>fc_icache := c, fc_journal := Some j\<rparr>) }
                               else do {
                                 (_, j, dev) \<leftarrow> rust_journal_checkpoint j dev;
                                 c \<leftarrow> inode_put (c\<lparr>ic_dev := dev\<rparr>) a;
                                 Some (c_int bytes_written, ctx\<lparr>fc_icache := c, fc_journal := Some j,
                                   fc_write_count := fc_write_count ctx + 1\<rparr>) })
                      | _ \<Rightarrow> do {
                          c \<leftarrow> inode_put c a;
                          Some (c_int bytes_written, ctx\<lparr>fc_icache := c, fc_write_count := fc_write_count ctx + 1\<rparr>) })
                   }) }) }) })"

definition modernfs_unlink ::
  "u64 \<Rightarrow> string \<Rightarrow> fs_context \<Rightarrow> (int \<times> fs_context) option" where
  "modernfs_unlink now path ctx =
     (if fc_read_only ctx then Some (- EROFS, ctx)
      else on_icache ctx (\<lambda>c. do {
        (r, c) \<leftarrow> path_resolve_parent now c (fc_root_inum ctx) (fc_root_inum ctx) path;
        (case r of
           Inl _ \<Rightarrow> Some (- ENOENT, c)
         | Inr (parent, filename) \<Rightarrow> do {
             (r, c) \<leftarrow> dir_lookup now c parent filename;
             (case r of
                Inl _ \<Rightarrow> put_ret c parent (- ENOENT)
              | Inr target_inum \<Rightarrow> do {
                  (r, c) \<leftarrow> inode_get c target_inum;
                  (case r of
                     None \<Rightarrow> put_ret c parent (- ENOENT)
                   | Some target \<Rightarrow> do {
                       tm \<leftarrow> ic_inodes c target;
                       (if di_type (im_disk tm) = INODE_TYPE_DIR then do {
                          c \<leftarrow> inode_put c target;
                          put_ret c parent (- EISDIR) }
                        else do {
                          (ret, c) \<leftarrow> dir_remove now c parent filename;
                          (if ret < 0 then do { c \<leftarrow> inode_put c target; put_ret c parent (- EIO) }
                           else do {
                             c \<leftarrow> im_modify c parent (im_dirty_update (\<lambda>_. True));
                             (_, c) \<leftarrow> inode_free c target;
                             put_ret c parent 0 }) }) }) }) }) }))"

definition modernfs_release :: "fs_context \<Rightarrow> int \<times> fs_context" where
  "modernfs_release ctx = (0, ctx)"

definition modernfs_truncate ::
  "u64 \<Rightarrow> string \<Rightarrow> u64 \<Rightarrow> fs_context \<Rightarrow> (int \<times> fs_context) option" where
  "modernfs_truncate now path new_size ctx =
     (if fc_read_only ctx then Some (- EROFS, ctx)
      else on_icache ctx (\<lambda>c. do {
        (r, c) \<leftarrow> path_resolve now c (fc_root_inum ctx) (fc_root_inum ctx) path False;
        (case r of
           None \<Rightarrow> Some (- ENOENT, c)
         | Some a \<Rightarrow> do {
             im \<leftarrow> ic_inodes c a;
             (if di_type (im_disk im) \<noteq> INODE_TYPE_FILE then put_ret c a (- EISDIR)
              else do {
                (ret, c) \<leftarrow> inode_truncate c a new_size;
                c \<leftarrow> (if ret = 0 then set_disk c a (\<lambda>d. d\<lparr>di_mtime := now, di_ctime := now\<rparr>) else Some c);
                put_ret c a ret }) }) }))"

section \<open>Metadata\<close>

record statvfs =
  f_bsize :: u64
  f_frsize :: u64
  f_blocks :: u64
  f_bfree :: u64
  f_bavail :: u64
  f_files :: u64
  f_ffree :: u64
  f_favail :: u64
  f_namemax :: u64

definition modernfs_statfs :: "fs_context \<Rightarrow> (int \<times> statvfs) \<times> fs_context" where
  "modernfs_statfs ctx =
     (case fs_context_statfs ctx of ((total_blocks, free_blocks, total_inodes, free_inodes), ctx) \<Rightarrow>
        ((0, \<lparr>f_bsize = 4096, f_frsize = 4096, f_blocks = total_blocks, f_bfree = free_blocks,
              f_bavail = free_blocks, f_files = total_inodes, f_ffree = free_inodes, f_favail = free_inodes,
              f_namemax = 255\<rparr>), ctx))"

text \<open>The common shape of the three metadata updates.\<close>

definition update_inode ::
  "u64 \<Rightarrow> string \<Rightarrow> (disk_inode \<Rightarrow> disk_inode) \<Rightarrow> fs_context \<Rightarrow> (int \<times> fs_context) option" where
  "update_inode now path f ctx =
     (if fc_read_only ctx then Some (- EROFS, ctx)
      else on_icache ctx (\<lambda>c. do {
        (r, c) \<leftarrow> path_resolve now c (fc_root_inum ctx) (fc_root_inum ctx) path False;
        (case r of
           None \<Rightarrow> Some (- ENOENT, c)
         | Some a \<Rightarrow> do { c \<leftarrow> set_disk c a f; put_ret c a 0 }) }))"

text \<open>\<open>tv\<close> holds the seconds of the two times, if given; the nanoseconds are ignored.\<close>

definition modernfs_utimens ::
  "u64 \<Rightarrow> string \<Rightarrow> (u64 \<times> u64) option \<Rightarrow> fs_context \<Rightarrow> (int \<times> fs_context) option" where
  "modernfs_utimens now path tv = update_inode now path (\<lambda>d.
     (case tv of
        Some (atime, mtime) \<Rightarrow> d\<lparr>di_atime := atime, di_mtime := mtime, di_ctime := now\<rparr>
      | None \<Rightarrow> d\<lparr>di_atime := now, di_mtime := now, di_ctime := now\<rparr>))"

definition modernfs_chmod ::
  "u64 \<Rightarrow> string \<Rightarrow> u32 \<Rightarrow> fs_context \<Rightarrow> (int \<times> fs_context) option" where
  "modernfs_chmod now path mode = update_inode now path (\<lambda>d. d\<lparr>di_mode := ucast (mode AND 0x1FF), di_ctime := now\<rparr>)"

definition modernfs_chown ::
  "u64 \<Rightarrow> string \<Rightarrow> u32 \<Rightarrow> u32 \<Rightarrow> fs_context \<Rightarrow> (int \<times> fs_context) option" where
  "modernfs_chown now path uid gid = update_inode now path (\<lambda>d. d
     \<lparr>di_uid := (if uid \<noteq> -1 then ucast uid else di_uid d), di_gid := (if gid \<noteq> -1 then ucast gid else di_gid d),
      di_ctime := now\<rparr>)"

definition modernfs_fsync ::
  "fs_context \<Rightarrow> (int \<times> fs_context) option" where
  "modernfs_fsync ctx = fs_context_sync ctx"

definition modernfs_destroy ::
  "fs_context \<Rightarrow> (disk \<times> buffer_cache) option" where
  "modernfs_destroy ctx = fs_context_destroy ctx"

end
