(* ===== verification/Fs_Remove.thy ===== *)
theory Fs_Remove
  imports Fs_Inv Fuse_Ops
begin

text \<open>
  Steps that the callbacks share: finding the parent directory and the name in it, marking an inode dirty,
  and releasing an inode that no directory names any more.  With them, removing a file.
\<close>

section \<open>Shared steps\<close>

lemma untakes:
  assumes t: "takes c0 a i c" and a: "ic_inodes c a = Some im"
    and c': "ic_inodes c' = (ic_inodes c)(a \<mapsto> im')" "im_inum im' = im_inum im" "im_valid im' = im_valid im"
      "im_ref_count im' = im_ref_count im - 1"
  shows "same_refs c0 c'"
proof -
  let ?n = "case held c0 a of Some (_, _, n) \<Rightarrow> n | None \<Rightarrow> 0"
  have h: "held c a = Some (i, True, ?n + 1)" and r: "refs_ok c" using t by (simp_all add: takes_def)
  from held_SomeD [OF h] a have im: "im_inum im = i" "im_valid im" "im_ref_count im = ?n + 1" by simp_all
  have old: "held c0 a = None \<and> ?n = 0 \<or> (\<exists>n. held c0 a = Some (i, True, n) \<and> 0 < n \<and> ?n = n)"
    using t held_pos [of c0 a i True] by (auto simp: takes_def)
  have "held c' x = held c0 x" for x
  proof (cases "x = a")
    case True
    then show ?thesis using c' im old by (auto simp: held_def [of c'])
  next
    case False
    have "held c' x = held c x" using False c'(1) by (simp add: held_def)
    then show ?thesis using t False by (simp add: takes_def)
  qed
  then have "held c' = held c0" by (simp add: fun_eq_iff)
  moreover have "dom (ic_inodes c') = dom (ic_inodes c0)" using c'(1) a t by (auto simp: takes_def)
  moreover have "refs_ok c'" using r c' im old by (auto simp: refs_ok_def)
  ultimately show ?thesis by (simp add: same_refs_def)
qed

text \<open>Updates of an inode in the cache that leave its shape: mark it dirty, set its mode, owner, times or link count.\<close>

definition meta :: "(inode_mem \<Rightarrow> inode_mem) \<Rightarrow> bool" where
  "meta f \<longleftrightarrow> (\<forall>im. im_inum (f im) = im_inum im \<and> im_valid (f im) = im_valid im \<and> im_prev (f im) = im_prev im \<and>
     im_next (f im) = im_next im \<and> im_hash_next (f im) = im_hash_next im \<and> im_ref_count (f im) = im_ref_count im \<and>
     im_dirty (f im) \<and> same_shape (im_disk im) (im_disk (f im)) \<and> di_padding (im_disk (f im)) = di_padding (im_disk im))"

lemma meta_dirty [simp]: "meta (im_dirty_update (\<lambda>_. True))"
  by (simp add: meta_def same_shape_def)

lemma touch_spec:
  assumes wf: "iwf c" and t: "holds c a i" and f: "meta f"
  shows "\<exists>c' im. im_modify c a f = Some c' \<and> iwf c' \<and> istatic c c' \<and> ic_view c' = ic_view c \<and> same_refs c c' \<and>
     (\<forall>k. table_ok c k \<longrightarrow> k \<noteq> i \<longrightarrow> node_of c' k = node_of c k) \<and>
     ic_inodes c a = Some im \<and> node_of c i = im_disk im \<and> node_of c' i = im_disk (f im)"
proof -
  from held_node [OF wf t] obtain im where im: "ic_inodes c a = Some im" "im_inum im = i" "im_valid im"
    "im_disk im = node_of c i" by blast
  have F: "im_inum (f im) = im_inum im" "im_valid (f im) = im_valid im" "im_prev (f im) = im_prev im"
    "im_next (f im) = im_next im" "im_hash_next (f im) = im_hash_next im" "im_ref_count (f im) = im_ref_count im"
    "im_dirty (f im)" "same_shape (im_disk im) (im_disk (f im))" "di_padding (im_disk (f im)) = di_padding (im_disk im)"
    using f by (simp_all add: meta_def)
  from im_modify_iwf [OF wf im(1), where f = f, OF F(1-5)] F(7-9) obtain c' where
    c': "im_modify c a f = Some c'" "iwf c'" "istatic c c'" "ic_view c' = ic_view c"
      "ic_inodes c' = (ic_inodes c)(a \<mapsto> f im)" "\<forall>i. table_ok c i \<longrightarrow> i \<noteq> im_inum im \<longrightarrow> node_of c' i = node_of c i"
    by (auto simp: disk_inode_wf_def same_shape_def)
  have sr: "same_refs c c'" by (rule same_refs_update [OF im(1) c'(5) F(1,2,6)])
  from held_node [OF c'(2) holds_same [OF t sr]] obtain im' where
    "ic_inodes c' a = Some im'" "node_of c' i = im_disk im'" by metis
  then have "node_of c' i = im_disk (f im)" using c'(5) by auto
  then show ?thesis using c' im sr by auto
qed

lemma touch_tree:
  assumes T: "fs_tree c S D" and wf: "iwf c" and t: "holds c a i" and f: "meta f"
  shows "\<exists>c' im. im_modify c a f = Some c' \<and> iwf c' \<and> istatic c c' \<and> same_refs c c' \<and> fs_tree c' S D \<and> keeps c c' (S - {i}) \<and>
     node_of c i = im_disk im \<and> node_of c' i = im_disk (f im) \<and> ic_view c' = ic_view c"
proof -
  from touch_spec [OF wf t f] obtain c' im where
    c': "im_modify c a f = Some c'" "iwf c'" "istatic c c'" "ic_view c' = ic_view c" "same_refs c c'"
      "\<forall>k. table_ok c k \<longrightarrow> k \<noteq> i \<longrightarrow> node_of c' k = node_of c k" "node_of c i = im_disk im" "node_of c' i = im_disk (f im)"
    by blast
  have "same_shape (node_of c k) (node_of c' k)" if "k \<in> S" for k
    using c'(6-8) f fs_treeD(1) [OF T that] by (cases "k = i") (simp_all add: meta_def same_shape_def)
  then have "fs_tree c' S D"
    using fs_tree_step [OF T c'(2), of S "{}" D] istatic_views(3,4) [OF c'(3)] c'(4) tree_used [OF T] fs_treeD(7) [OF T] by simp
  moreover have "keeps c c' (S - {i})" using c'(4,6) fs_treeD(1) [OF T] by (simp add: keeps_def)
  ultimately show ?thesis using c' by blast
qed

text \<open>What \<open>path_resolve_parent\<close> and the lookup of the name find.\<close>

definition found_parent ::
  "(inode_t \<rightharpoonup> entry list) \<Rightarrow> inode_t \<Rightarrow> string \<Rightarrow> inode_t option" where
  "found_parent D root p = (case path_dirname p 4096 of Inl _ \<Rightarrow> None
     | Inr d \<Rightarrow> (case parent_of D root root d of None \<Rightarrow> None | Some i \<Rightarrow> if D i = None then None else Some i))"

lemma parent_spec:
  assumes v: "fs_inv c S D" and i: "idle c" and r: "root \<in> S" and p: "CHR 0x00 \<notin> set p"
  shows "\<exists>q c'. path_resolve_parent now c root root p = Some (q, c') \<and> fs_quiet c c' \<and>
     (case found_parent D root p of
        None \<Rightarrow> (\<exists>e. q = Inl e) \<and> same_refs c c'
      | Some i \<Rightarrow> \<exists>a. q = Inr (a, path_basename p) \<and> i \<in> S \<and> takes c a i c')"
proof (cases "path_dirname p 4096")
  case (Inl e)
  then show ?thesis using fs_invD(1) [OF v] by (simp add: path_resolve_parent_def found_parent_def)
next
  case (Inr d)
  from path_resolve_parent_spec [OF fs_invD(3,1,5) [OF v] i r r p fs_invD(4) [OF v] Inr, of now] obtain q c' where
    q: "path_resolve_parent now c root root p = Some (q, c')" "fs_quiet c c'"
      "case parent_of D root root d of
        None \<Rightarrow> q = Inl MODERNFS_ENOENT \<and> same_refs c c'
      | Some i \<Rightarrow> i \<in> S \<and> (if D i = None then q = Inl MODERNFS_EINVAL \<and> same_refs c c'
          else \<exists>a. q = Inr (a, path_basename p) \<and> takes c a i c')" by blast
  then show ?thesis using Inr by (cases "parent_of D root root d") (auto simp: found_parent_def split: if_splits)
qed

lemma lookup_spec:
  assumes v: "fs_inv c S D" and i: "i \<in> S" "holds c a i" and D: "D i = Some es" and n: "good_name name"
  shows "\<exists>c'. dir_lookup now c a name = Some (case dmap es name of Some i \<Rightarrow> Inr i | None \<Rightarrow> Inl MODERNFS_ENOENT, c') \<and>
     fs_quiet c c' \<and> same_refs c c'"
proof -
  have da: "dir_at c a es" by (rule held_dir [OF fs_invD(1) [OF v] i(2) fs_treeD(3) [OF fs_invD(3) [OF v] i(1) D]])
  from dir_lookup_spec [OF da n, of now] obtain c' where
    c': "dir_lookup now c a name = Some (case dmap es name of Some i \<Rightarrow> Inr i | None \<Rightarrow> Inl MODERNFS_ENOENT, c')" "dir_quiet c a c'"
    by blast
  moreover have "fs_quiet c c'" by (rule dir_quiet_fs [OF _ c'(2)]) (use da in \<open>simp add: dir_at_def\<close>)
  ultimately show ?thesis by (auto simp: dir_quiet_def dir_step_def)
qed

lemma free_spec:
  assumes v: "fs_tree c S D" "iwf c" "ilayout c" and j: "j \<in> S" "takes c0 b j c" "unat j < itotal c"
    and sz: "unat (di_size (node_of c j)) \<le> 49152" and l: "nlinks (S - {j}) D j = 0"
  shows "\<exists>c'. inode_free c b = Some (0, c') \<and> iwf c' \<and> ilayout c' \<and> fs_tree c' (S - {j}) D \<and> same_refs c0 c' \<and>
     ibits c' = (ibits c)(unat j := False) \<and> itotal c' = itotal c \<and> keeps c c' (S - {j}) \<and> ic_used c' = ic_used c - data_blocks c j"
proof -
  from held_node [OF v(2) takes_holds [OF j(2)]] obtain im where im: "ic_inodes c b = Some im" "im_inum im = j" "im_valid im"
    "im_disk im = node_of c j" by blast
  have tr: "tree_at c b" using fs_treeD(5) [OF v(1) j(1)] im by (simp add: tree_at_def)
  have mx: "fsize c b \<le> 49152" using sz im by (simp add: fsize_def)
  from inode_free_spec [OF v(2,3) im(1,3) _ tr mx] im(2) j(3) obtain c' where
    c': "inode_free c b = Some (0, c')" "freed_inode c b im c'" by auto
  then obtain n where f: "iwf c'" "ilayout c'" "ibits c' = (ibits c)(unat j := False)"
      "ic_inodes c' = (ic_inodes c)(b \<mapsto> (emptied n im)\<lparr>im_ref_count := im_ref_count im - 1\<rparr>)"
      "ic_used c' = ic_used c - {nodes_at c b (NB i) | i. i < blocks_for (fsize c b)}"
      "\<forall>i. table_ok c i \<longrightarrow> i \<noteq> j \<longrightarrow> node_of c' i = node_of c i" "\<forall>b \<in> ic_pool c. ic_view c' b = ic_view c b"
      "itotal c' = itotal c" "\<And>k. table_ok c' k = table_ok c k"
    using im(2) by (auto simp: freed_inode_def same_table_def)
  have nb: "nodes_at c b = nodes (node_of c j) (ic_view c)" by (rule holds_nodes(1) [OF v(2) takes_holds [OF j(2)]])
  have used: "x \<in> ic_used c" if "k \<in> S" "x \<in> node_blocks c k" for k x
    using fs_treeD(5) [OF v(1) that(1)] that(2) tree_okD(3) by (auto simp: node_blocks_iff)
  have "fs_tree c' (S - {j}) D"
  proof (rule fs_tree_step [OF v(1) f(1), where Q = "{}"])
    show "same_shape (node_of c k) (node_of c' k)" if "k \<in> S - {j}" for k
      using f(6) that fs_treeD(1) [OF v(1), of k] by (auto simp: same_shape_def)
    show "ic_view c' x = ic_view c x" if "k \<in> S - {j}" "x \<in> node_blocks c k" for k x
      using f(7) used [of k x] that used_pool [of c] by auto
    show "x \<in> ic_used c'" if "k \<in> S - {j}" "x \<in> node_blocks c k" for k x
    proof -
      have d: "node_blocks c k \<inter> node_blocks c j = {}" by (rule fs_treeD(6) [OF v(1)]) (use that j in auto)
      have "x \<noteq> nodes_at c b (NB i)" for i
      proof
        assume "x = nodes_at c b (NB i)"
        then have "x \<in> node_blocks c j" using that(2) nb unfolding node_blocks_iff by metis
        then show False using d that(2) by (simp add: disjoint_iff)
      qed
      moreover have "x \<in> ic_used c" by (rule used) (use that in auto)
      ultimately show ?thesis using f(5) by auto
    qed
    show "en_inum e \<in> S - {j}" if "k \<in> S - {j}" "D k = Some es" "e \<in> set es" "en_inum e \<noteq> 0" for k es e
      using fs_treeD(7) [OF v(1) _ that(2-4)] nlinks_zero [OF l _ that(2,3)] that(1) by auto
  qed (use f(9) in auto)
  moreover have "same_refs c0 c'" by (rule untakes [OF j(2) im(1) f(4)]) simp_all
  moreover have "keeps c c' (S - {j})"
    unfolding keeps_def
  proof (intro ballI conjI)
    fix k assume k: "k \<in> S - {j}"
    then show "same_node (node_of c k) (node_of c' k)" using f(6) fs_treeD(1) [OF v(1), of k] by auto
    fix x assume "x \<in> node_blocks c k"
    then show "ic_view c' x = ic_view c x" using f(7) used [of k x] k used_pool [of c] by auto
  qed
  moreover have "ic_used c' = ic_used c - data_blocks c j"
    using f(5) nb holds_nodes(2) [OF v(2) takes_holds [OF j(2)]] by (simp add: data_blocks_def)
  ultimately show ?thesis using c'(1) f by blast
qed

section \<open>Removing a file\<close>

lemma put_ret_takes:
  assumes "fs_inv c1 S D" "takes c a i c1"
  shows "\<exists>c'. put_ret c1 a r = Some (r, c') \<and> fs_quiet c1 c' \<and> same_refs c c'"
  using put_takes [OF fs_invD(1) [OF assms(1)] assms(2)] by (auto simp: put_ret_def)

text \<open>The directory and the inode a path names.\<close>

definition found_name :: "(inode_t \<rightharpoonup> entry list) \<Rightarrow> inode_t \<Rightarrow> string \<Rightarrow> (inode_t \<times> inode_t) option" where
  "found_name D root p = (case found_parent D root p of None \<Rightarrow> None
     | Some i \<Rightarrow> (case dmap (the (D i)) (path_basename p) of None \<Rightarrow> None | Some j \<Rightarrow> Some (i, j)))"

lemma find_first: "find P xs = Some x \<Longrightarrow> \<exists>ys zs. xs = ys @ x # zs \<and> P x \<and> (\<forall>y \<in> set ys. \<not> P y)"
proof (induction xs)
  case (Cons a xs)
  show ?case
  proof (cases "P a")
    case True
    then show ?thesis using Cons.prems by (intro exI [of _ "[]"] exI [of _ xs]) auto
  next
    case False
    then obtain ys zs where "xs = ys @ x # zs" "P x" "\<forall>y \<in> set ys. \<not> P y" using Cons by auto
    then show ?thesis using False by (intro exI [of _ "a # ys"] exI [of _ zs]) auto
  qed
qed simp

text \<open>
  Removing the entry of \<open>j\<close> from the directory \<open>i\<close>, which no other directory but \<open>j\<close> itself names, updating
  the directory's inode, and freeing \<open>j\<close>.
\<close>

lemma remove_entry:
  assumes v: "fs_inv c S D" and i: "i \<in> S" "holds c a i" "D i = Some es" and n: "good_name name"
    and j: "dmap es name = Some j" "i \<noteq> j" and l: "links D j i \<le> 1" "\<forall>k \<in> S - {i, j}. links D j k = 0"
    and f: "meta f" and t: "takes c0 b j c" "refs_ok c0" and sz: "unat (di_size (node_of c j)) \<le> 49152"
  shows "\<exists>c1 c2 c3 es'. dir_remove now c a name = Some (0, c1) \<and> im_modify c1 a f = Some c2 \<and>
     inode_free c2 b = Some (0, c3) \<and> same_refs c0 c3 \<and> fs_inv c3 (S - {j}) (D(i \<mapsto> es')) \<and>
     dmap es' = (dmap es)(name := None) \<and> keeps c c3 (S - {i, j}) \<and>
     ibits c3 = (ibits c)(unat j := False) \<and> ic_used c3 = ic_used c - data_blocks c j"
proof -
  note V = fs_invD [OF v]
  have wf: "iwf c" by (rule V(1))
  from j(1) obtain e where e: "find (ematch name) es = Some e" "en_inum e = j" by (auto simp: dmap_def)
  from find_first [OF e(1)] obtain xs ys where es: "es = xs @ e # ys" "ematch name e" "\<forall>y \<in> set xs. \<not> ematch name y" by blast
  have pd: "proper_dir i es" by (rule V(9) [OF i(1,3)])
  have jS: "j \<in> S" by (rule fs_treeD(4) [OF V(3) i(1,3) j(1)])
  have xs: "xs \<noteq> []" using pd es(1) e(2) j(2) by (auto simp: proper_dir_def)
  have da: "dir_at c a es" by (rule held_dir [OF wf i(2) fs_treeD(3) [OF V(3) i(1,3)]])
  have nb: "nodes_at c a (NB 0) \<noteq> 0" using da by (simp add: dir_at_def dir_ok_def)
  from dir_remove_spec [OF da [unfolded es(1)] n es(2,3), of now] pd es(1) xs obtain c1 where
    c1: "dir_remove now c a name = Some (0, c1)" "dir_step c a c1" "dir_at c1 a (without xs e @ ys)"
    by (auto simp: proper_dir_def)
  let ?es = "without xs e @ ys" and ?D = "D(i \<mapsto> without xs e @ ys)"
  have wf1: "iwf c1" and st1: "istatic c c1" and sr1: "same_refs c c1" using c1(2) by (simp_all add: dir_step_def dir_ok_def)
  have es': "set ?es \<subseteq> set xs \<union> set ys \<union> {(last xs)\<lparr>en_len := en_len (last xs) + en_len e\<rparr>}"
    using xs by (auto simp: without_def dest: in_set_butlastD)
  have lx: "last xs \<in> set xs" using xs by simp
  have cl: "en_inum x \<in> S" if "x \<in> set ?es" "en_inum x \<noteq> 0" for x
  proof -
    from that(1) es' obtain y where "y \<in> set es" "en_inum x = en_inum y" using lx es(1) by fastforce
    then show ?thesis using fs_treeD(7) [OF V(3) i(1,3), of y] that(2) by simp
  qed
  have T1: "fs_tree c1 S ?D" by (rule fs_tree_dir_step [OF V(3) wf wf1 i(1,2) c1(2,3) nb cl])
  have h1: "holds c1 a i" by (rule holds_same [OF i(2) sr1])
  from touch_tree [OF T1 wf1 h1 f] obtain c2 im where
    c2: "im_modify c1 a f = Some c2" "iwf c2" "istatic c1 c2" "same_refs c1 c2" "fs_tree c2 S ?D" "keeps c1 c2 (S - {i})"
    by blast
  have st2: "istatic c c2" by (rule istatic_trans [OF st1 c2(3)])
  have t2: "takes c0 b j c2" by (rule takes_same [OF takes_same [OF t(1) sr1] c2(4)])
  have jn0: "j \<noteq> 0" using es(2) e(2) by (auto simp: ematch_def)
  have "links ?D j i = 0"
    using links_without [of D i xs e ys ?D j] i(3) es(1) e(2) jn0 l(1) by simp
  then have "links ?D j k = 0" if "k \<in> S - {j}" for k using l(2) that by (cases "k = i") (auto simp: links_def)
  then have lz: "nlinks (S - {j}) ?D j = 0" by (simp add: nlinks_def)
  have k1: "keeps c c1 (S - {i})" by (rule keeps_dir_step [OF V(3) wf i(1,2) c1(2) nb])
  have k2: "keeps c c2 (S - {i})" by (rule keeps_trans [OF k1 c2(6)]) auto
  have sz2: "unat (di_size (node_of c2 j)) \<le> 49152"
    using k2 same_node_fields(2) [of "node_of c j" "node_of c2 j"] sz jS j(2) by (simp add: keeps_def)
  note b2 = istatic_bitmap [OF st2]
  from free_spec [OF c2(5,2) ilayout_static [OF V(2) st2] jS t2 _ sz2 lz] b2 V(7) [OF jS] obtain c3 where
    c3: "inode_free c2 b = Some (0, c3)" "iwf c3" "ilayout c3" "fs_tree c3 (S - {j}) ?D" "same_refs c0 c3"
      "ibits c3 = (ibits c2)(unat j := False)" "itotal c3 = itotal c2" "keeps c2 c3 (S - {j})"
      "ic_used c3 = ic_used c2 - data_blocks c2 j" by auto
  have nl: "nlinks (S - {j}) ?D k \<le> 1" if "k \<in> S - {j}" "?D k = None" for k
  proof -
    have "nlinks (S - {j}) ?D k \<le> nlinks S ?D k" unfolding nlinks_def by (rule sum_mono2) auto
    also have "\<dots> \<le> nlinks S D k"
      using nlinks_change [OF i(1), of ?D D k] links_without [of D i xs e ys ?D k] i(3) es(1) V(11) that(1) by (cases "k = 0") auto
    finally show ?thesis using V(10) [of k] that by (auto split: if_splits)
  qed
  have pd': "proper_dir i ?es"
    using pd es(1) xs unique_without [of xs e ys] es' lx
    by (cases xs rule: rev_cases) (auto simp: proper_dir_def without_def hd_append)
  have ty: "di_type (node_of c3 k) \<noteq> INODE_TYPE_SYMLINK" if k: "k \<in> S - {j}" for k
  proof (cases "k = i")
    case True
    then show ?thesis using fs_treeD(3) [OF c3(4) k, of ?es] by (simp add: dir_node_def)
  next
    case False
    have "keeps c c3 (S - {i, j})" by (rule keeps_trans [OF keeps_subset [OF k2] c3(8)]) auto
    then show ?thesis using False k V(4) same_node_fields(1) [of "node_of c k" "node_of c3 k"] by (simp add: keeps_def no_links_def)
  qed
  have "ibits c3 (unat k) \<and> unat k < itotal c3" if "k \<in> S - {j}" for k
    using that V(7,8) [of k] c3(6,7) b2 by (auto simp: word_unat_eq_iff)
  moreover have "ibits c3 0" using c3(6) b2(1) V(6) jn0 by (simp add: unat_eq_0)
  moreover have "refs_ok c3" by (rule same_refs_ok [OF c3(5) t(2)])
  moreover have "proper_dir k ds" if "k \<in> S - {j}" "?D k = Some ds" for k ds
    using that V(9) [of k ds] pd' by (auto split: if_splits)
  ultimately have "fs_inv c3 (S - {j}) ?D" using c3(2-4) ty V(11) nl by (simp add: fs_inv_def no_links_def)
  moreover have "dmap ?es = (dmap es)(name := None)"
    using dmap_without [of xs e ys name] pd es(1,2) by (simp add: proper_dir_def)
  moreover have "keeps c c3 (S - {i, j})" by (rule keeps_trans [OF keeps_subset [OF k2] c3(8)]) auto
  moreover have "ibits c3 = (ibits c)(unat j := False)" using c3(6) b2(1) by simp
  moreover have "ic_used c3 = ic_used c - data_blocks c j"
    using c3(9) istatic_views(4) [OF st2] keeps_data [OF k2] jS j(2) by simp
  ultimately show ?thesis using c1(1) c2(1) c3(1,5) by blast
qed

end
