(* ===== verification/Fs_Callbacks.thy ===== *)
theory Fs_Callbacks
  imports Fs_Remove
begin

text \<open>
  The callbacks that read and remove names, over the invariant of the file system: what they return, what
  they leave of the tree, and that they keep no reference.
\<close>

section \<open>Outcomes\<close>

text \<open>A callback that ends in \<open>c'\<close> with the tree as it was.\<close>

definition unchanged :: "inode_cache \<Rightarrow> inode_t set \<Rightarrow> (inode_t \<rightharpoonup> entry list) \<Rightarrow> inode_cache \<Rightarrow> bool" where
  "unchanged c S D c' \<longleftrightarrow> fs_inv c' S D \<and> keeps c c' S \<and> same_alloc c c' \<and> same_refs c c'"

lemma unchangedI:
  assumes "fs_inv c S D" "fs_quiet c c'" "same_refs c c'"
  shows "unchanged c S D c'"
  using assms fs_inv_quiet [OF assms(1,2)] same_refs_ok [OF assms(3) fs_invD(5) [OF assms(1)]]
    keeps_quiet [OF fs_invD(3) [OF assms(1)] assms(2)] same_alloc_quiet [OF assms(2)] by (simp add: unchanged_def)

lemma takes_inv: "fs_inv c S D \<Longrightarrow> fs_quiet c c' \<Longrightarrow> takes c0 a i c' \<Longrightarrow> fs_inv c' S D"
  by (rule fs_inv_quiet) (auto dest: takes_refs)

lemma two_puts:
  assumes v: "fs_inv c3 S D" and q: "fs_quiet c c3" and t: "takes c a i c2" "takes c2 b j c3"
  shows "\<exists>c4 c5. inode_put c3 b = Some c4 \<and> put_ret c4 a r = Some (r, c5) \<and> fs_quiet c c5 \<and> same_refs c c5"
proof -
  from put_takes [OF fs_invD(1) [OF v] t(2)] obtain c4 where
    c4: "inode_put c3 b = Some c4" "fs_quiet c3 c4" "same_refs c2 c4" by blast
  have t4: "takes c a i c4" by (rule takes_same [OF t(1) c4(3)])
  have v4: "fs_inv c4 S D" by (rule takes_inv [OF v c4(2) t4])
  from put_ret_takes [OF v4 t4, of r] obtain c5 where
    "put_ret c4 a r = Some (r, c5)" "fs_quiet c4 c5" "same_refs c c5" by blast
  moreover from this(2) have "fs_quiet c c5" by (rule fs_quiet_trans [OF q fs_quiet_trans [OF c4(2)]])
  ultimately show ?thesis using c4(1) by simp
qed

section \<open>The start of a removal\<close>

lemma parent_lookup:
  assumes v: "fs_inv c S D" and i: "idle c" and r: "root \<in> S" and p: "CHR 0x00 \<notin> set p" and f: "found_parent D root p = Some i"
  shows "\<exists>a c1 c2. path_resolve_parent now c root root p = Some (Inr (a, path_basename p), c1) \<and>
     dir_lookup now c1 a (path_basename p) =
       Some (case dmap (the (D i)) (path_basename p) of Some j \<Rightarrow> Inr j | None \<Rightarrow> Inl MODERNFS_ENOENT, c2) \<and>
     fs_inv c2 S D \<and> fs_quiet c c2 \<and> takes c a i c2 \<and> i \<in> S \<and> (\<exists>es. D i = Some es)"
proof -
  from parent_spec [OF v i r p, of now] f obtain a c1 where
    c1: "path_resolve_parent now c root root p = Some (Inr (a, path_basename p), c1)" "fs_quiet c c1" "i \<in> S" "takes c a i c1"
    by auto
  have v1: "fs_inv c1 S D" by (rule takes_inv [OF v c1(2,4)])
  obtain es where es: "D i = Some es" using f by (auto simp: found_parent_def split: sum.splits option.splits if_splits)
  from lookup_spec [OF v1 c1(3) takes_holds [OF c1(4)] es path_basename_good [OF p], of now] obtain c2 where
    c2: "dir_lookup now c1 a (path_basename p) =
       Some (case dmap es (path_basename p) of Some j \<Rightarrow> Inr j | None \<Rightarrow> Inl MODERNFS_ENOENT, c2)" "fs_quiet c1 c2" "same_refs c1 c2"
    by blast
  have t2: "takes c a i c2" by (rule takes_same [OF c1(4) c2(3)])
  show ?thesis using c1(1,3) c2(1) es t2 takes_inv [OF v1 c2(2) t2] fs_quiet_trans [OF c1(2) c2(2)] by auto
qed

lemma target_get:
  assumes v: "fs_inv c2 S D" and q: "fs_quiet c c2" and i: "idle2 c" and t: "takes c a i c2" "i \<in> S" "D i = Some es"
    and j: "dmap es name = Some j"
  shows "j \<in> S \<and> (\<exists>b c3 tm. inode_get c2 j = Some (Some b, c3) \<and> fs_inv c3 S D \<and> fs_quiet c c3 \<and> takes c2 b j c3 \<and>
     holds c3 a i \<and> ic_inodes c3 b = Some tm \<and> im_disk tm = node_of c3 j \<and> (di_type (im_disk tm) = INODE_TYPE_DIR \<longleftrightarrow> D j \<noteq> None))"
proof -
  note V = fs_invD [OF v]
  have jS: "j \<in> S" by (rule fs_treeD(4) [OF V(3) t(2,3) j])
  from get_takes [OF V(1,5) fs_treeD(1) [OF V(3) jS] idle2_takes [OF i t(1)]] obtain b c3 where
    c3: "inode_get c2 j = Some (Some b, c3)" "fs_quiet c2 c3" "takes c2 b j c3" by blast
  have v3: "fs_inv c3 S D" by (rule takes_inv [OF v c3(2,3)])
  from held_node [OF fs_invD(1) [OF v3] takes_holds [OF c3(3)]] obtain tm where
    tm: "ic_inodes c3 b = Some tm" "im_disk tm = node_of c3 j" by blast
  have "di_type (node_of c3 j) = INODE_TYPE_DIR \<longleftrightarrow> D j \<noteq> None"
    using fs_treeD(2,3) [OF fs_invD(3) [OF v3] jS] by (cases "D j") (auto simp: dir_node_def)
  then show ?thesis using jS c3(1,3) v3 tm holds_takes [OF takes_holds [OF t(1)] c3(3)] fs_quiet_trans [OF q c3(2)] by auto
qed

section \<open>Unlink\<close>

lemma links_one:
  assumes v: "fs_inv c S D" and i: "i \<in> S" "D i = Some es" "dmap es name = Some j" "D j = None" "j \<in> S"
  shows "links D j i \<le> 1 \<and> (\<forall>k \<in> S - {i, j}. links D j k = 0)"
proof -
  have le: "nlinks S D j \<le> 1" by (rule fs_invD(10) [OF v i(5,4)])
  have "links D j i \<noteq> 0" using i(2,3) dmap_in [OF i(3)] by (auto simp: links_def filter_empty_conv)
  moreover have "links D j i + links D j k \<le> nlinks S D j" if "k \<in> S - {i, j}" for k
  proof -
    have "links D j i + links D j k = (\<Sum>x \<in> {i, k}. links D j x)" using that by auto
    also have "\<dots> \<le> nlinks S D j" unfolding nlinks_def by (rule sum_mono2) (use that i(1) in auto)
    finally show ?thesis .
  qed
  moreover have "links D j i \<le> nlinks S D j" unfolding nlinks_def by (rule member_le_sum) (use i(1) in auto)
  ultimately show ?thesis using le by fastforce
qed

definition removed :: "inode_cache \<Rightarrow> inode_t set \<Rightarrow> (inode_t \<rightharpoonup> entry list) \<Rightarrow> inode_t \<Rightarrow> string \<Rightarrow> inode_t \<Rightarrow> inode_cache \<Rightarrow> bool" where
  "removed c S D i name j c' \<longleftrightarrow> (\<exists>es'. fs_inv c' (S - {j}) (D(i \<mapsto> es')) \<and> dmap es' = (dmap (the (D i)))(name := None)) \<and>
     keeps c c' (S - {i, j}) \<and> ibits c' = (ibits c)(unat j := False) \<and> ic_used c' = ic_used c - data_blocks c j \<and> same_refs c c'"

text \<open>Both callbacks end the same way once the target is found.\<close>

lemma removal_run:
  assumes v: "fs_inv c S D" "fs_inv c2 S D" "fs_inv c3 S D" and q: "fs_quiet c c3" and p: "CHR 0x00 \<notin> set p"
    and t: "takes c a d c2" "d \<in> S" "D d = Some es" "takes c2 b j c3" "holds c3 a d" "j \<in> S"
    and j: "dmap es (path_basename p) = Some j" "d \<noteq> j" "links D j d \<le> 1" "\<forall>k \<in> S - {d, j}. links D j k = 0"
    and f: "meta f" and sz: "unat (di_size (node_of c j)) \<le> 49152"
  shows "\<exists>c4 c5 c6 c7. dir_remove now c3 a (path_basename p) = Some (0, c4) \<and> im_modify c4 a f = Some c5 \<and>
     inode_free c5 b = Some (0, c6) \<and> put_ret c6 a (0 :: int) = Some (0, c7) \<and> removed c S D d (path_basename p) j c7"
proof -
  have k: "keeps c c3 S" by (rule keeps_quiet [OF fs_invD(3) [OF v(1)] q])
  then have sz3: "unat (di_size (node_of c3 j)) \<le> 49152"
    using sz t(6) same_node_fields(2) [of "node_of c j" "node_of c3 j"] by (simp add: keeps_def)
  from remove_entry [OF v(3) t(2,5,3) path_basename_good [OF p] j f t(4) fs_invD(5) [OF v(2)] sz3, of now]
  obtain c4 c5 c6 es' where
    c6: "dir_remove now c3 a (path_basename p) = Some (0, c4)" "im_modify c4 a f = Some c5"
      "inode_free c5 b = Some (0, c6)" "same_refs c2 c6" "fs_inv c6 (S - {j}) (D(d \<mapsto> es'))"
      "dmap es' = (dmap es)(path_basename p := None)" "keeps c3 c6 (S - {d, j})"
      "ibits c6 = (ibits c3)(unat j := False)" "ic_used c6 = ic_used c3 - data_blocks c3 j" by blast
  from put_ret_takes [OF c6(5) takes_same [OF t(1) c6(4)], of "0 :: int"] obtain c7 where
    c7: "put_ret c6 a (0 :: int) = Some (0, c7)" "fs_quiet c6 c7" "same_refs c c7" by blast
  have v7: "fs_inv c7 (S - {j}) (D(d \<mapsto> es'))"
    by (rule fs_inv_quiet [OF c6(5) c7(2) same_refs_ok [OF c7(3) fs_invD(5) [OF v(1)]]])
  have "keeps c c7 (S - {d, j})"
    by (rule keeps_trans [OF keeps_trans [OF keeps_subset [OF k] c6(7)] keeps_quiet [OF fs_invD(3) [OF c6(5)] c7(2)]]) auto
  moreover have "ibits c7 = (ibits c)(unat j := False)" "ic_used c7 = ic_used c - data_blocks c j"
    using c6(8,9) same_alloc_quiet [OF q] same_alloc_quiet [OF c7(2)] keeps_data [OF k t(6)] by (simp_all add: same_alloc_def)
  ultimately have "removed c S D d (path_basename p) j c7" using v7 c6(6) c7(3) t(3) by (auto simp: removed_def)
  then show ?thesis using c6(1-3) c7(1) by blast
qed

text \<open>And both fail the same way before it is.\<close>

lemma removal_start:
  assumes v: "fs_inv c S D" and i: "idle2 c" and r: "root \<in> S" and p: "CHR 0x00 \<notin> set p"
  obtains (none) e c' where "found_name D root p = None" "path_resolve_parent now c root root p = Some (Inl e, c')" "unchanged c S D c'"
  | (missing) a c1 c2 e c' where "found_name D root p = None"
      "path_resolve_parent now c root root p = Some (Inr (a, path_basename p), c1)"
      "dir_lookup now c1 a (path_basename p) = Some (Inl e, c2)" "put_ret c2 a (- ENOENT) = Some (- ENOENT, c')" "unchanged c S D c'"
  | (found) a c1 c2 d es j b c3 tm where "found_name D root p = Some (d, j)"
      "path_resolve_parent now c root root p = Some (Inr (a, path_basename p), c1)"
      "dir_lookup now c1 a (path_basename p) = Some (Inr j, c2)" "inode_get c2 j = Some (Some b, c3)"
      "fs_inv c2 S D" "fs_inv c3 S D" "fs_quiet c c3" "takes c a d c2" "d \<in> S" "D d = Some es" "takes c2 b j c3" "holds c3 a d" "j \<in> S"
      "dmap es (path_basename p) = Some j" "ic_inodes c3 b = Some tm" "im_disk tm = node_of c3 j"
      "di_type (im_disk tm) = INODE_TYPE_DIR \<longleftrightarrow> D j \<noteq> None"
      "\<And>r :: int. \<exists>c4 c5. inode_put c3 b = Some c4 \<and> put_ret c4 a r = Some (r, c5) \<and> unchanged c S D c5"
proof (cases "found_parent D root p")
  case None
  with parent_spec [OF v idle2_idle [OF i] r p, of now] obtain e c' where
    "path_resolve_parent now c root root p = Some (Inl e, c')" "fs_quiet c c'" "same_refs c c'" by auto
  then show thesis using None by (intro none [of e c'] unchangedI [OF v]) (simp_all add: found_name_def)
next
  case (Some d)
  from parent_lookup [OF v idle2_idle [OF i] r p Some, of now] obtain a c1 c2 es where
    c2: "path_resolve_parent now c root root p = Some (Inr (a, path_basename p), c1)"
      "dir_lookup now c1 a (path_basename p) =
         Some (case dmap es (path_basename p) of Some j \<Rightarrow> Inr j | None \<Rightarrow> Inl MODERNFS_ENOENT, c2)"
      "fs_inv c2 S D" "fs_quiet c c2" "takes c a d c2" "d \<in> S" "D d = Some es" by fastforce
  show thesis
  proof (cases "dmap es (path_basename p)")
    case None
    from put_ret_takes [OF c2(3,5), of "- ENOENT"] obtain c' where
      "put_ret c2 a (- ENOENT) = Some (- ENOENT, c')" "fs_quiet c2 c'" "same_refs c c'" by blast
    then show thesis using None Some c2 unchangedI [OF v fs_quiet_trans [OF c2(4)]]
      by (intro missing [of a c1 MODERNFS_ENOENT c2 c']) (simp_all add: found_name_def)
  next
    case j: (Some j)
    from target_get [OF c2(3,4) i c2(5-7) j] obtain b c3 tm where
      c3: "j \<in> S" "inode_get c2 j = Some (Some b, c3)" "fs_inv c3 S D" "fs_quiet c c3" "takes c2 b j c3" "holds c3 a d"
        "ic_inodes c3 b = Some tm" "im_disk tm = node_of c3 j" "di_type (im_disk tm) = INODE_TYPE_DIR \<longleftrightarrow> D j \<noteq> None" by blast
    have "\<exists>c4 c5. inode_put c3 b = Some c4 \<and> put_ret c4 a r = Some (r, c5) \<and> unchanged c S D c5" for r :: int
      using two_puts [OF c3(3,4) c2(5) c3(5), of r] unchangedI [OF v] by blast
    then show thesis using Some c2 j c3 by (intro found [of d j a c1 c2 b c3 es tm]) (simp_all add: found_name_def)
  qed
qed

lemma unlink_spec:
  assumes v: "fs_inv (fc_icache ctx) S D" and i: "idle2 (fc_icache ctx)" and r: "fc_root_inum ctx \<in> S" and p: "CHR 0x00 \<notin> set p"
    and ro: "\<not> fc_read_only ctx"
    and sz: "\<And>i j. found_name D (fc_root_inum ctx) p = Some (i, j) \<Longrightarrow> unat (di_size (node_of (fc_icache ctx) j)) \<le> 49152"
  shows "\<exists>ret c'. modernfs_unlink now p ctx = Some (ret, ctx\<lparr>fc_icache := c'\<rparr>) \<and>
     (case found_name D (fc_root_inum ctx) p of
        None \<Rightarrow> ret = - ENOENT \<and> unchanged (fc_icache ctx) S D c'
      | Some (i, j) \<Rightarrow>
          if D j = None then ret = 0 \<and> removed (fc_icache ctx) S D i (path_basename p) j c'
          else ret = - EISDIR \<and> unchanged (fc_icache ctx) S D c')"
proof (rule removal_start [OF v i r p, of now], goal_cases)
  case (1 e c')
  then show ?case using ro by (auto simp: modernfs_unlink_def on_icache_def)
next
  case (2 a c1 c2 e c')
  then show ?case using ro by (auto simp: modernfs_unlink_def on_icache_def)
next
  case (3 a c1 c2 d es j b c3 tm)
  note run = 3(2-4,15,17)
  show ?case
  proof (cases "D j")
    case (Some ds)
    from 3(18) [of "- EISDIR"] obtain c4 c5 where
      "inode_put c3 b = Some c4" "put_ret c4 a (- EISDIR) = Some (- EISDIR, c5)" "unchanged (fc_icache ctx) S D c5" by blast
    then show ?thesis using Some ro run 3(1) by (auto simp: modernfs_unlink_def on_icache_def)
  next
    case None
    then have "d \<noteq> j" using 3(10) by auto
    with removal_run [OF v 3(5-7) p 3(8-14) this _ _ meta_dirty sz [OF 3(1)], of now] links_one [OF v 3(9,10,14) None 3(13)]
    obtain c4 c5 c6 c7 where
      "dir_remove now c3 a (path_basename p) = Some (0, c4)" "im_modify c4 a (im_dirty_update (\<lambda>_. True)) = Some c5"
      "inode_free c5 b = Some (0, c6)" "put_ret c6 a (0 :: int) = Some (0, c7)"
      "removed (fc_icache ctx) S D d (path_basename p) j c7" by blast
    then show ?thesis using None ro run 3(1) by (auto simp: modernfs_unlink_def on_icache_def)
  qed
qed

section \<open>Rmdir\<close>

lemma rmdir_spec:
  assumes v: "fs_inv (fc_icache ctx) S D" and i: "idle2 (fc_icache ctx)" and r: "fc_root_inum ctx \<in> S" and p: "CHR 0x00 \<notin> set p"
    and ro: "\<not> fc_read_only ctx"
    and sole: "\<And>i j. found_name D (fc_root_inum ctx) p = Some (i, j) \<Longrightarrow> D j \<noteq> None \<Longrightarrow>
      i \<noteq> j \<and> links D j i \<le> 1 \<and> (\<forall>k \<in> S - {i, j}. links D j k = 0)"
  shows "\<exists>ret c'. modernfs_rmdir now p ctx = Some (ret, ctx\<lparr>fc_icache := c'\<rparr>) \<and>
     (case found_name D (fc_root_inum ctx) p of
        None \<Rightarrow> ret = - ENOENT \<and> unchanged (fc_icache ctx) S D c'
      | Some (i, j) \<Rightarrow>
          if D j = None then ret = - ENOTDIR \<and> unchanged (fc_icache ctx) S D c'
          else if 2 < di_nlink (node_of (fc_icache ctx) j) then ret = - ENOTEMPTY \<and> unchanged (fc_icache ctx) S D c'
          else ret = 0 \<and> removed (fc_icache ctx) S D i (path_basename p) j c')"
proof (rule removal_start [OF v i r p, of now], goal_cases)
  case (1 e c')
  then show ?case using ro by (auto simp: modernfs_rmdir_def on_icache_def)
next
  case (2 a c1 c2 e c')
  then show ?case using ro by (auto simp: modernfs_rmdir_def on_icache_def)
next
  case (3 a c1 c2 d es j b c3 tm)
  let ?c = "fc_icache ctx"
  note run = 3(2-4,15,17)
  have "keeps ?c c3 S" by (rule keeps_quiet [OF fs_invD(3) [OF v] 3(7)])
  then have "same_node (node_of ?c j) (node_of c3 j)" using 3(13) by (simp add: keeps_def)
  then obtain x where "node_of c3 j = (node_of ?c j)\<lparr>di_atime := x\<rparr>" by (auto simp: same_node_def)
  then have nl: "di_nlink (im_disk tm) = di_nlink (node_of ?c j)" using 3(16) by simp
  consider "D j = None" | "D j \<noteq> None" "2 < di_nlink (node_of ?c j)" | "D j \<noteq> None" "\<not> 2 < di_nlink (node_of ?c j)" by blast
  then show ?case
  proof cases
    case 1
    from 3(18) [of "- ENOTDIR"] obtain c4 c5 where
      "inode_put c3 b = Some c4" "put_ret c4 a (- ENOTDIR) = Some (- ENOTDIR, c5)" "unchanged ?c S D c5" by blast
    then show ?thesis using 1 ro run 3(1) by (auto simp: modernfs_rmdir_def on_icache_def)
  next
    case 2
    from 3(18) [of "- ENOTEMPTY"] obtain c4 c5 where
      "inode_put c3 b = Some c4" "put_ret c4 a (- ENOTEMPTY) = Some (- ENOTEMPTY, c5)" "unchanged ?c S D c5" by blast
    then show ?thesis using 2 ro run 3(1) nl by (auto simp: modernfs_rmdir_def on_icache_def)
  next
    case d: 3
    let ?f = "\<lambda>im. im\<lparr>im_disk := (im_disk im)\<lparr>di_nlink := di_nlink (im_disk im) - 1\<rparr>, im_dirty := True\<rparr>"
    have f: "meta ?f" by (simp add: meta_def same_shape_def)
    from d(1) obtain ds where ds: "D j = Some ds" by blast
    have "unat (di_size (node_of ?c j)) \<le> 49152" using fs_treeD(3) [OF fs_invD(3) [OF v] 3(13) ds] by (simp add: dir_node_def)
    with removal_run [OF v 3(5-7) p 3(8-14) _ _ _ f this, of now] sole [OF 3(1) d(1)]
    obtain c4 c5 c6 c7 where
      "dir_remove now c3 a (path_basename p) = Some (0, c4)" "im_modify c4 a ?f = Some c5"
      "inode_free c5 b = Some (0, c6)" "put_ret c6 a (0 :: int) = Some (0, c7)" "removed ?c S D d (path_basename p) j c7" by blast
    then show ?thesis using d ro run 3(1) nl by (auto simp: modernfs_rmdir_def on_icache_def set_disk_def)
  qed
qed

end
