(* ===== verification/Fs_Read.thy ===== *)
theory Fs_Read
  imports Fs_Callbacks
begin

text \<open>The callbacks that resolve a path and read or update the inode it names.\<close>

section \<open>Resolving\<close>

lemma resolve_spec:
  assumes v: "fs_inv c S D" and i: "idle c" and r: "root \<in> S" and p: "CHR 0x00 \<notin> set p"
  shows "\<exists>q c'. path_resolve now c root root p False = Some (q, c') \<and>
     (case follow D root (components_of p) of
        None \<Rightarrow> q = None \<and> unchanged c S D c'
      | Some j \<Rightarrow> \<exists>b im. q = Some b \<and> j \<in> S \<and> fs_inv c' S D \<and> fs_quiet c c' \<and> takes c b j c' \<and>
          ic_inodes c' b = Some im \<and> im_inum im = j \<and> im_disk im = node_of c' j \<and> same_node (node_of c j) (im_disk im) \<and>
          (di_type (im_disk im) = INODE_TYPE_DIR \<longleftrightarrow> D j \<noteq> None))"
proof -
  from path_resolve_spec [OF fs_invD(3,1,5) [OF v] i r r p, of False now] obtain q c' where
    q: "path_resolve now c root root p False = Some (q, c')" "resolved c (follow D root (components_of p)) q c'" by auto
  show ?thesis
  proof (cases "follow D root (components_of p)")
    case None
    then show ?thesis using q unchangedI [OF v] by simp
  next
    case (Some j)
    then obtain b where b: "q = Some b" "fs_quiet c c'" "takes c b j c'" using q(2) by (auto simp: resolved_def)
    have v': "fs_inv c' S D" by (rule takes_inv [OF v b(2,3)])
    have jS: "j \<in> S" by (rule follow_in [OF fs_invD(3) [OF v] r Some])
    from held_node [OF fs_invD(1) [OF v'] takes_holds [OF b(3)]] obtain im where
      im: "ic_inodes c' b = Some im" "im_inum im = j" "im_disk im = node_of c' j" by blast
    have sn: "same_node (node_of c j) (node_of c' j)" using b(2) fs_treeD(1) [OF fs_invD(3) [OF v] jS] by (simp add: fs_quiet_def)
    have "di_type (node_of c' j) = INODE_TYPE_DIR \<longleftrightarrow> D j \<noteq> None"
      using fs_treeD(2,3) [OF fs_invD(3) [OF v'] jS] by (cases "D j") (auto simp: dir_node_def)
    then show ?thesis using q(1) Some b jS v' im sn by auto
  qed
qed

lemma resolve_cases:
  assumes v: "fs_inv c S D" and i: "idle c" and r: "root \<in> S" and p: "CHR 0x00 \<notin> set p"
  obtains (none) c' where "follow D root (components_of p) = None" "path_resolve now c root root p False = Some (None, c')"
      "unchanged c S D c'"
  | (some) j b im c1 where "follow D root (components_of p) = Some j" "path_resolve now c root root p False = Some (Some b, c1)"
      "j \<in> S" "fs_inv c1 S D" "fs_quiet c c1" "takes c b j c1" "ic_inodes c1 b = Some im" "im_inum im = j"
      "im_disk im = node_of c1 j" "same_node (node_of c j) (im_disk im)" "di_type (im_disk im) = INODE_TYPE_DIR \<longleftrightarrow> D j \<noteq> None"
  using resolve_spec [OF v i r p, of now] by (cases "follow D root (components_of p)") auto

lemma put_unchanged:
  assumes "fs_inv c S D" "fs_inv c1 S D" "fs_quiet c c1" "takes c b j c1"
  shows "\<exists>c'. put_ret c1 b r = Some (r, c') \<and> unchanged c S D c'"
proof -
  from put_ret_takes [OF assms(2,4), of r] obtain c' where "put_ret c1 b r = Some (r, c')" "fs_quiet c1 c'" "same_refs c c'" by blast
  then show ?thesis using unchangedI [OF assms(1) fs_quiet_trans [OF assms(3)]] by blast
qed

section \<open>Attributes and handles\<close>

lemma getattr_spec:
  assumes v: "fs_inv (fc_icache ctx) S D" and i: "idle (fc_icache ctx)" and r: "fc_root_inum ctx \<in> S" and p: "CHR 0x00 \<notin> set p"
  shows "\<exists>ret c'. modernfs_getattr now p ctx = Some (ret, ctx\<lparr>fc_icache := c'\<rparr>) \<and> unchanged (fc_icache ctx) S D c' \<and>
     (case follow D (fc_root_inum ctx) (components_of p) of
        None \<Rightarrow> ret = Inl (- ENOENT)
      | Some j \<Rightarrow> \<exists>im. ret = Inr (inode_to_stat im) \<and> im_inum im = j \<and> same_node (node_of (fc_icache ctx) j) (im_disk im))"
proof (rule resolve_cases [OF v i r p, of now], goal_cases)
  case (1 c')
  then show ?case by (auto simp: modernfs_getattr_def on_icache_def)
next
  case b: (2 j b im c1)
  from put_unchanged [OF v b(4-6), of "Inr (inode_to_stat im) :: int + fstat"] obtain c' where
    "put_ret c1 b (Inr (inode_to_stat im) :: int + fstat) = Some (Inr (inode_to_stat im), c')" "unchanged (fc_icache ctx) S D c'" by blast
  then have "modernfs_getattr now p ctx = Some (Inr (inode_to_stat im), ctx\<lparr>fc_icache := c'\<rparr>)"
    using b(2,7) by (simp add: modernfs_getattr_def on_icache_def)
  then show ?case using b(1,8,10) \<open>unchanged (fc_icache ctx) S D c'\<close>
    by (intro exI [of _ "Inr (inode_to_stat im)"] exI [of _ c']) (auto intro!: exI [of _ im])
qed

lemma open_spec:
  assumes v: "fs_inv (fc_icache ctx) S D" and i: "idle (fc_icache ctx)" and r: "fc_root_inum ctx \<in> S" and p: "CHR 0x00 \<notin> set p"
  shows "\<exists>c'. modernfs_open now p fh ctx = Some
     (case follow D (fc_root_inum ctx) (components_of p) of
        None \<Rightarrow> (- ENOENT, fh)
      | Some j \<Rightarrow> if di_type (node_of (fc_icache ctx) j) = INODE_TYPE_FILE then (0, ucast j) else (- EISDIR, fh),
      ctx\<lparr>fc_icache := c'\<rparr>) \<and> unchanged (fc_icache ctx) S D c'"
proof (rule resolve_cases [OF v i r p, of now], goal_cases)
  case (1 c')
  then show ?case by (auto simp: modernfs_open_def on_icache_def)
next
  case b: (2 j b im c1)
  let ?r = "if di_type (im_disk im) = INODE_TYPE_FILE then (0, ucast j) else (- EISDIR, fh)"
  from put_unchanged [OF v b(4-6), of ?r] obtain c' where
    "put_ret c1 b ?r = Some (?r, c')" "unchanged (fc_icache ctx) S D c'" by blast
  then show ?case using b same_node_fields(1) [OF b(10)] by (auto simp: modernfs_open_def on_icache_def)
qed

section \<open>Listing\<close>

text \<open>What the filler sees: every name, each marked as a directory; it stops the listing by a code other than 0.\<close>

lemma visit_callback:
  "visit (iterate_callback filler) es s = (ret, s') \<Longrightarrow> ret = None \<or> ret = Some (-1)"
  by (induction es arbitrary: s) (auto simp: iterate_callback_def split: if_splits prod.splits)

lemma readdir_spec:
  assumes v: "fs_inv (fc_icache ctx) S D" and i: "idle (fc_icache ctx)" and r: "fc_root_inum ctx \<in> S" and p: "CHR 0x00 \<notin> set p"
  shows "\<exists>c'. modernfs_readdir now p filler s ctx = Some
     (case follow D (fc_root_inum ctx) (components_of p) of
        None \<Rightarrow> (- ENOENT, s)
      | Some j \<Rightarrow> (case D j of
          None \<Rightarrow> (- ENOTDIR, s)
        | Some es \<Rightarrow> (case visit (iterate_callback filler) es s of (q, s) \<Rightarrow> (case q of None \<Rightarrow> 0 | Some _ \<Rightarrow> -1, s))),
      ctx\<lparr>fc_icache := c'\<rparr>) \<and> unchanged (fc_icache ctx) S D c'"
proof (rule resolve_cases [OF v i r p, of now], goal_cases)
  case (1 c')
  then show ?case by (auto simp: modernfs_readdir_def on_icache_def)
next
  case b: (2 j b im c1)
  show ?case
  proof (cases "D j")
    case None
    from put_unchanged [OF v b(4-6), of "(- ENOTDIR, s)"] obtain c' where
      "put_ret c1 b (- ENOTDIR, s) = Some ((- ENOTDIR, s), c')" "unchanged (fc_icache ctx) S D c'" by blast
    then show ?thesis using None b by (auto simp: modernfs_readdir_def on_icache_def)
  next
    case es: (Some es)
    have da: "dir_at c1 b es"
      by (rule held_dir [OF fs_invD(1) [OF b(4)] takes_holds [OF b(6)] fs_treeD(3) [OF fs_invD(3) [OF b(4)] b(3) es]])
    obtain ret s' where vs: "visit (iterate_callback filler) es s = (ret, s')" by fastforce
    from dir_iterate_spec [OF da, of now "iterate_callback filler" s] vs obtain c2 where
      c2: "dir_iterate now c1 b (iterate_callback filler) s = Some (case ret of Some x \<Rightarrow> x | None \<Rightarrow> MODERNFS_SUCCESS, s', c2)"
        "dir_quiet c1 b c2" by auto
    have q2: "fs_quiet c1 c2" by (rule dir_quiet_fs [OF _ c2(2)]) (use da in \<open>simp add: dir_at_def\<close>)
    have t2: "takes (fc_icache ctx) b j c2" by (rule takes_same [OF b(6)]) (use c2(2) in \<open>simp add: dir_quiet_def dir_step_def\<close>)
    have rt: "ret = None \<or> ret = Some (-1)" using visit_callback [OF vs] .
    let ?r = "((case ret of None \<Rightarrow> 0 | Some _ \<Rightarrow> -1) :: int, s')"
    from put_unchanged [OF v takes_inv [OF b(4) q2 t2] fs_quiet_trans [OF b(5) q2] t2, of ?r] obtain c' where
      "put_ret c2 b ?r = Some (?r, c')" "unchanged (fc_icache ctx) S D c'" by blast
    then show ?thesis using es b(1,2,7,11) c2(1) vs rt by (auto simp: modernfs_readdir_def on_icache_def)
  qed
qed

section \<open>Updating an inode\<close>

lemma touch_inv:
  assumes v: "fs_inv c S D" and i: "i \<in> S" "holds c a i" and f: "meta f"
  shows "\<exists>c' im. im_modify c a f = Some c' \<and> fs_inv c' S D \<and> same_refs c c' \<and> keeps c c' (S - {i}) \<and>
     node_of c i = im_disk im \<and> node_of c' i = im_disk (f im) \<and> ic_view c' = ic_view c \<and> same_alloc c c'"
proof -
  note V = fs_invD [OF v]
  from touch_tree [OF V(3,1) i(2) f] obtain c' and im :: inode_mem where
    c': "im_modify c a f = Some c'" "iwf c'" "istatic c c'" "same_refs c c'" "fs_tree c' S D" "keeps c c' (S - {i})"
      "node_of c i = im_disk im" "node_of c' i = im_disk (f im)"
      "ic_view c' = ic_view c" by blast
  note b = istatic_bitmap [OF c'(3)]
  have "di_type (node_of c' k) \<noteq> INODE_TYPE_SYMLINK" if "k \<in> S" for k
  proof (cases "k = i")
    case True
    have "di_type (node_of c i) \<noteq> INODE_TYPE_SYMLINK" using V(4) i(1) by (simp add: no_links_def)
    then show ?thesis using True c'(7,8) f by (simp add: meta_def same_shape_def)
  next
    case False
    then have "same_node (node_of c k) (node_of c' k)" using c'(6) that by (simp add: keeps_def)
    from same_node_fields(1) [OF this] show ?thesis using V(4) that by (simp add: no_links_def)
  qed
  then have "no_links c' S" by (simp add: no_links_def)
  then have "fs_inv c' S D"
    using c'(2,5) ilayout_static [OF V(2) c'(3)] same_refs_ok [OF c'(4) V(5)] V b by (simp add: fs_inv_def)
  then show ?thesis using c' same_alloc_static by blast
qed

text \<open>The access time that resolving the path left is the only other change.\<close>

definition updated :: "inode_cache \<Rightarrow> inode_t set \<Rightarrow> (inode_t \<rightharpoonup> entry list) \<Rightarrow> inode_t \<Rightarrow> (disk_inode \<Rightarrow> disk_inode) \<Rightarrow> inode_cache \<Rightarrow> bool" where
  "updated c S D j f c' \<longleftrightarrow> fs_inv c' S D \<and> keeps c c' (S - {j}) \<and> same_alloc c c' \<and> same_refs c c' \<and>
     (\<forall>x \<in> node_blocks c j. ic_view c' x = ic_view c x) \<and>
     (\<exists>d. same_node (node_of c j) d \<and> node_of c' j = f d)"

lemma update_inode_spec:
  assumes v: "fs_inv (fc_icache ctx) S D" and i: "idle (fc_icache ctx)" and r: "fc_root_inum ctx \<in> S" and p: "CHR 0x00 \<notin> set p"
    and ro: "\<not> fc_read_only ctx" and f: "\<And>d. same_shape d (f d) \<and> di_padding (f d) = di_padding d"
  shows "\<exists>ret c'. update_inode now p f ctx = Some (ret, ctx\<lparr>fc_icache := c'\<rparr>) \<and>
     (case follow D (fc_root_inum ctx) (components_of p) of
        None \<Rightarrow> ret = - ENOENT \<and> unchanged (fc_icache ctx) S D c'
      | Some j \<Rightarrow> ret = 0 \<and> updated (fc_icache ctx) S D j f c')"
proof (rule resolve_cases [OF v i r p, of now], goal_cases)
  case (1 c')
  then show ?case using ro by (auto simp: update_inode_def on_icache_def)
next
  case b: (2 j b im c1)
  define g where "g = (\<lambda>im :: inode_mem. im\<lparr>im_disk := f (im_disk im), im_dirty := True\<rparr>)"
  have g: "meta g" using f by (simp add: meta_def g_def)
  from touch_inv [OF b(4,3) takes_holds [OF b(6)] g] obtain c2 and im2 :: inode_mem where
    c2: "im_modify c1 b g = Some c2" "fs_inv c2 S D" "same_refs c1 c2" "keeps c1 c2 (S - {j})"
      "node_of c1 j = im_disk im2" "node_of c2 j = im_disk (g im2)" "ic_view c2 = ic_view c1" "same_alloc c1 c2" by blast
  have t2: "takes (fc_icache ctx) b j c2" by (rule takes_same [OF b(6) c2(3)])
  from put_takes [OF fs_invD(1) [OF c2(2)] t2] obtain c3 where
    c3: "inode_put c2 b = Some c3" "fs_quiet c2 c3" "\<forall>i. node_of c3 i = node_of c2 i" "same_refs (fc_icache ctx) c3"
      "ic_view c3 = ic_view c2" by blast
  have al: "same_alloc (fc_icache ctx) c3"
    by (rule same_alloc_trans [OF same_alloc_trans [OF same_alloc_quiet [OF b(5)] c2(8)] same_alloc_quiet [OF c3(2)]])
  have vw: "ic_view c3 x = ic_view (fc_icache ctx) x" if "x \<in> node_blocks (fc_icache ctx) j" for x
    using keeps_quiet [OF fs_invD(3) [OF v] b(5)] b(3) that c2(7) c3(5) by (simp add: keeps_def)
  have "keeps (fc_icache ctx) c2 (S - {j})"
    by (rule keeps_trans [OF keeps_subset [OF keeps_quiet [OF fs_invD(3) [OF v] b(5)]] c2(4)]) auto
  then have k: "keeps (fc_icache ctx) c3 (S - {j})"
    by (rule keeps_trans [OF _ keeps_quiet [OF fs_invD(3) [OF c2(2)] c3(2)]]) auto
  have "node_of c3 j = f (node_of c1 j)" using c3(3) c2(5,6) by (simp add: g_def)
  moreover have "same_node (node_of (fc_icache ctx) j) (node_of c1 j)" using b(9,10) by simp
  ultimately have "updated (fc_icache ctx) S D j f c3"
    using k al vw c3(4) fs_inv_quiet [OF c2(2) c3(2) same_refs_ok [OF c3(4) fs_invD(5) [OF v]]] by (auto simp: updated_def)
  moreover have "update_inode now p f ctx = Some (0, ctx\<lparr>fc_icache := c3\<rparr>)"
    using ro b(2) c2(1) c3(1) by (simp add: update_inode_def on_icache_def set_disk_def put_ret_def g_def)
  ultimately show ?case using b(1) by auto
qed

end
