(* ===== verification/Fs_Create.thy ===== *)
theory Fs_Create
  imports Fs_Callbacks
begin

text \<open>Creating a file: a new inode, an entry for it in the parent directory, and a reference for the handle that is dropped.\<close>

section \<open>A new inode in the tree\<close>

lemma fs_tree_cong:
  assumes "fs_tree c S D" "\<And>i. table_ok c' i = table_ok c i" "\<And>i. node_of c' i = node_of c i" "ic_view c' = ic_view c" "ic_used c' = ic_used c"
  shows "fs_tree c' S D"
proof -
  have "dir_node c' i es = dir_node c i es" "node_blocks c' i = node_blocks c i" for i es
    using assms(2-) by (simp_all add: dir_node_def node_blocks_def)
  then show ?thesis using assms by (simp add: fs_tree_def cong: option.case_cong)
qed

lemma fs_inv_same_inodes:
  assumes v: "fs_inv c S D" and s: "same_inodes c c'" "ilayout c'" "ibits c' = ibits c" "ic_sb c' = ic_sb c"
  shows "unchanged c S D c'"
proof -
  note SI = same_inodes [OF s(1)]
  have "fs_tree c' S D" by (rule fs_tree_cong [OF fs_invD(3) [OF v]]) (simp_all add: SI)
  then have "fs_inv c' S D" using fs_invD [OF v] s(2-4) SI by (simp add: fs_inv_def no_links_def refs_ok_def)
  moreover have "held c' = held c" using SI by (simp add: held_def fun_eq_iff)
  ultimately show ?thesis using SI s(3) by (simp add: unchanged_def keeps_def same_refs_def refs_ok_def same_alloc_def)
qed

lemma new_takes:
  assumes r: "refs_ok c" and new: "ic_inodes c' a = Some im" "im_inum im = i" "im_valid im" "ic_inodes c a = Some old"
    and n: "if im_valid old \<and> im_inum old = i then im_ref_count im = im_ref_count old + 1 else im_ref_count old \<le> 0 \<and> im_ref_count im = 1"
    and o: "\<And>x. x \<noteq> a \<Longrightarrow> map_option core (ic_inodes c' x) = map_option core (ic_inodes c x)"
  shows "takes c a i c'"
proof -
  have r0: "0 \<le> im_ref_count old" using r new(4) by (simp add: refs_ok_def)
  have other: "held c' x = held c x \<and> (ic_inodes c' x = None \<longleftrightarrow> ic_inodes c x = None) \<and>
      (\<forall>im. ic_inodes c' x = Some im \<longrightarrow> 0 \<le> im_ref_count im)" if ne: "x \<noteq> a" for x
  proof (cases "ic_inodes c x")
    case None
    then show ?thesis using o [OF ne] by (simp add: held_def)
  next
    case (Some m)
    then obtain m' where "ic_inodes c' x = Some m'" "core m' = core m" using o [OF ne] by auto
    then show ?thesis using core_eqD [of m' m] Some r by (simp add: held_def refs_ok_def)
  qed
  have at: "held c' a = Some (i, True, (case held c a of Some (_, _, n) \<Rightarrow> n | None \<Rightarrow> 0) + 1) \<and>
      (held c a = None \<or> (\<exists>n. held c a = Some (i, True, n))) \<and> 0 \<le> im_ref_count im"
    using new n r0 by (auto simp: held_def split: if_splits)
  have "held c' = (held c)(a \<mapsto> (i, True, (case held c a of Some (_, _, n) \<Rightarrow> n | None \<Rightarrow> 0) + 1))"
    using other at by (auto simp: fun_eq_iff)
  moreover have "ic_inodes c' x = None \<longleftrightarrow> ic_inodes c x = None" for x
    using other [of x] new by (cases "x = a") simp_all
  then have "dom (ic_inodes c') = dom (ic_inodes c)" unfolding dom_def by simp
  moreover have "0 \<le> im_ref_count m" if "ic_inodes c' x = Some m" for x m
    using other [of x] at new(1) that by (cases "x = a") auto
  then have "refs_ok c'" by (simp add: refs_ok_def)
  ultimately show ?thesis using at new(4) by (simp add: takes_def domI)
qed

lemma nlinks_new:
  assumes T: "fs_tree c S D" and j: "j \<notin> S" "j \<noteq> 0"
  shows "nlinks (insert j S) (D(j := None)) j = 0" "k \<noteq> j \<Longrightarrow> nlinks (insert j S) (D(j := None)) k = nlinks S D k"
proof -
  have eq: "nlinks (insert j S) (D(j := None)) k = nlinks S D k" for k
  proof -
    have "nlinks (insert j S) (D(j := None)) k = nlinks S (D(j := None)) k" using j(1) by (simp add: nlinks_def links_def)
    also have "\<dots> = nlinks S D k" unfolding nlinks_def by (rule sum.cong) (use j(1) in \<open>auto simp: links_def\<close>)
    finally show ?thesis .
  qed
  have "links D j k = 0" if "k \<in> S" for k
    using fs_treeD(7) [OF T that] j by (auto simp: links_def filter_empty_conv split: option.splits)
  then show "nlinks (insert j S) (D(j := None)) j = 0" using eq by (simp add: nlinks_def)
  show "k \<noteq> j \<Longrightarrow> nlinks (insert j S) (D(j := None)) k = nlinks S D k" by (rule eq)
qed

text \<open>Allocating a file and setting its mode and owner.\<close>

lemma alloc_file:
  assumes v: "fs_inv c S D" and f: "\<And>d. same_shape d (f d) \<and> di_padding (f d) = di_padding d"
  shows "\<exists>r c1. inode_alloc now c INODE_TYPE_FILE = Some (r, c1) \<and>
     (case r of
        None \<Rightarrow> unchanged c S D c1 \<and> ((\<forall>k < itotal c. ibits c k) \<or> (\<forall>a im. ic_inodes c a = Some im \<longrightarrow> 0 < im_ref_count im))
      | Some b \<Rightarrow> \<exists>j c2. set_disk c1 b f = Some c2 \<and> j \<notin> S \<and> \<not> ibits c (unat j) \<and> unat j < itotal c \<and> takes c b j c2 \<and> fs_inv c2 (insert j S) (D(j := None)) \<and>
          keeps c c2 S \<and> ibits c2 = (ibits c)(unat j := True) \<and> ic_used c2 = ic_used c \<and> nlinks (insert j S) (D(j := None)) j = 0 \<and> node_of c2 j = f (new_node now INODE_TYPE_FILE))"
proof -
  note V = fs_invD [OF v]
  from inode_alloc_spec [OF V(1,2), of now INODE_TYPE_FILE] obtain r c1 where
    al: "inode_alloc now c INODE_TYPE_FILE = Some (r, c1)"
      "case r of
        Some a \<Rightarrow> \<exists>inum. allocated_inode c now INODE_TYPE_FILE a inum c1
      | None \<Rightarrow> iwf c1 \<and> ilayout c1 \<and> ibits c1 = ibits c \<and> same_inodes c c1 \<and> ic_sb c1 = ic_sb c \<and>
          ((\<forall>k < itotal c. ibits c k) \<or> (\<forall>a im. ic_inodes c a = Some im \<longrightarrow> 0 < im_ref_count im))" by blast
  show ?thesis
  proof (cases r)
    case None
    then show ?thesis using al fs_inv_same_inodes [OF v] by auto
  next
    case (Some b)
    then obtain j where a: "allocated_inode c now INODE_TYPE_FILE b j c1" using al(2) by auto
    then obtain im old where A: "iwf c1" "ilayout c1" "unat j < itotal c" "\<not> ibits c (unat j)" "ibits c1 = (ibits c)(unat j := True)"
        "ic_inodes c1 b = Some im" "im_inum im = j" "im_valid im" "im_disk im = new_node now INODE_TYPE_FILE" "ic_inodes c b = Some old"
        "if im_valid old \<and> im_inum old = j then im_ref_count im = im_ref_count old + 1 else im_ref_count old \<le> 0 \<and> im_ref_count im = 1"
        "\<forall>i. table_ok c i \<longrightarrow> i \<noteq> j \<longrightarrow> node_of c1 i = node_of c i" "\<forall>b \<in> ic_pool c. ic_view c1 b = ic_view c b"
        "\<forall>x. x \<noteq> b \<longrightarrow> map_option core (ic_inodes c1 x) = map_option core (ic_inodes c x)" "ic_balloc c1 = ic_balloc c"
        "itotal c1 = itotal c" "\<And>i. table_ok c1 i = table_ok c i"
      unfolding allocated_inode_def same_table_def by (elim conjE exE) simp
    have jS: "j \<notin> S" using V(8) A(4) by blast
    have j0: "j \<noteq> 0" using V(6) A(4) by auto
    have us: "ic_used c1 = ic_used c" using A(15) by (simp add: ic_used_def)
    have t: "takes c b j c1" by (rule new_takes [OF V(5) A(6-8,10,11)]) (use A(14) in blast)
    have vw: "ic_view c1 x = ic_view c x" if "k \<in> S" "x \<in> node_blocks c k" for k x
      using A(13) tree_used [OF V(3) that] used_pool [of c] by auto
    have nd: "node_of c1 k = node_of c k" if "k \<in> S" for k
      using A(12) fs_treeD(1) [OF V(3) that] that jS by auto
    have T1: "fs_tree c1 S D"
    proof (rule fs_tree_step [OF V(3) A(1), where Q = "{}"])
      show "x \<in> ic_used c1" if "k \<in> S" "x \<in> node_blocks c k" for k x using tree_used [OF V(3) that] us by simp
      show "en_inum e \<in> S" if "k \<in> S" "D k = Some es" "e \<in> set es" "en_inum e \<noteq> 0" for k es e
        by (rule fs_treeD(7) [OF V(3) that])
    qed (use A(17) vw nd in \<open>simp_all add: same_shape_def\<close>)
    have k1: "keeps c c1 S" using vw nd by (simp add: keeps_def)
    define g where "g = (\<lambda>im :: inode_mem. im\<lparr>im_disk := f (im_disk im), im_dirty := True\<rparr>)"
    have mf: "meta g" using f by (simp add: meta_def g_def)
    from touch_tree [OF T1 A(1) takes_holds [OF t] mf] obtain c2 im2 where
      c2: "im_modify c1 b g = Some c2" "iwf c2" "istatic c1 c2" "same_refs c1 c2" "fs_tree c2 S D" "keeps c1 c2 (S - {j})"
        "node_of c1 j = im_disk im2" "node_of c2 j = im_disk (g im2)" by blast
    from A(1) obtain xs where "ishape c1 xs" by (auto simp: iwf_def)
    from node_of_cached [OF this A(6,8)] have n1: "node_of c1 j = new_node now INODE_TYPE_FILE" using A(7,9) by simp
    then have n2: "node_of c2 j = f (new_node now INODE_TYPE_FILE)" using c2(7,8) by (simp add: g_def)
    have sh: "same_shape (new_node now INODE_TYPE_FILE) (node_of c2 j)" using f n2 by simp
    have z: "nodes (node_of c2 j) (ic_view c2) n = 0" for n
    proof -
      have "nodes (new_node now INODE_TYPE_FILE) w n = 0" for w
        by (cases n) (simp_all add: new_node_def zero_disk_inode_def l1_ptr_def file_block_def)
      then show ?thesis using same_shape_fields(3) [OF sh] by simp
    qed
    have tj: "table_ok c2 j" using A(2,3,16) istatic_views(3) [OF c2(3)] by (simp add: ilayout_def)
    have T2: "fs_tree c2 (insert j S) (D(j := None))"
      by (rule fs_tree_add [OF c2(5,2) jS tj]) (use z sh in \<open>simp_all add: same_shape_def new_node_def zero_disk_inode_def\<close>)
    note b2 = istatic_bitmap [OF c2(3)]
    have kc: "keeps c c2 S" by (rule keeps_trans [OF k1 c2(6)]) (use jS in auto)
    have ty: "di_type (node_of c2 k) \<noteq> INODE_TYPE_SYMLINK" if "k \<in> insert j S" for k
    proof (cases "k = j")
      case True
      then show ?thesis using sh by (simp add: same_shape_def new_node_def)
    next
      case False
      then have "same_node (node_of c k) (node_of c2 k)" "k \<in> S" using kc that by (simp_all add: keeps_def)
      then show ?thesis using V(4) same_node_fields(1) [of "node_of c k" "node_of c2 k"] by (simp add: no_links_def)
    qed
    have t2: "takes c b j c2" by (rule takes_same [OF t c2(4)])
    have nl: "nlinks (insert j S) (D(j := None)) k \<le> 1" if "k \<in> insert j S" "(D(j := None)) k = None" for k
      using nlinks_new [OF V(3) jS j0] V(10) [of k] that by (cases "k = j") (auto split: if_splits)
    have bt: "ibits c2 (unat k) \<and> unat k < itotal c2" if "k \<in> insert j S" for k
      using that V(7,8) [of k] A(3,5,16) b2 by auto
    have pd: "proper_dir k es" if "k \<in> insert j S" "(D(j := None)) k = Some es" for k es
      using that V(9) [of k es] by (auto split: if_splits)
    have "ibits c2 0" using A(5) b2(1) V(6) by simp
    then have "fs_inv c2 (insert j S) (D(j := None))"
      using c2(2) ilayout_static [OF A(2) c2(3)] T2 ty takes_refs [OF t2] V(11) j0 nl bt pd
      unfolding fs_inv_def no_links_def by blast
    moreover have "ibits c2 = (ibits c)(unat j := True)" "ic_used c2 = ic_used c"
      using A(5) b2(1) us istatic_views(4) [OF c2(3)] by simp_all
    moreover note kc
    moreover have "set_disk c1 b f = Some c2" using c2(1) by (simp add: set_disk_def g_def)
    ultimately show ?thesis using al(1) Some jS A(3,4) t2 nlinks_new(1) [OF V(3) jS j0] n2 by auto
  qed
qed

section \<open>A new entry\<close>

text \<open>The first record with room for the name has room for the whole \<open>dirent_t\<close> that is written there.\<close>

definition fits :: "entry list \<Rightarrow> string \<Rightarrow> bool" where
  "fits es name \<longleftrightarrow> (case find (room name) es of None \<Rightarrow> False | Some e \<Rightarrow> used e + sizeof_dirent \<le> en_len e)"

lemma unique_split:
  assumes "unique_names (xs @ e # ys)" "dmap (xs @ e # ys) name = None"
  shows "unique_names (xs @ split_entry e (entry_of j name) @ ys)"
proof -
  have "name \<notin> en_name ` {x \<in> set (xs @ e # ys). en_inum x \<noteq> 0}"
    using assms(2) by (auto simp: dmap_None ematch_def)
  then show ?thesis using assms(1) by (auto simp: unique_names_def split_entry_def)
qed

lemma add_entry:
  assumes v: "fs_inv c S D" and i: "i \<in> S" "holds c a i" "D i = Some es" and n: "good_name name" "dmap es name = None"
    and j: "j \<in> S" "D j = None" "holds c b j" "nlinks S D j = 0" and f: "fits es name"
  shows "\<exists>c' es'. dir_add now c a name j = Some (0, c') \<and> same_refs c c' \<and> dmap es' = (dmap es)(name \<mapsto> j) \<and>
     fs_inv c' S (D(i \<mapsto> es')) \<and> keeps c c' (S - {i}) \<and> same_alloc c c'"
proof -
  note V = fs_invD [OF v]
  from f obtain e where e: "find (room name) es = Some e" "used e + sizeof_dirent \<le> en_len e" by (auto simp: fits_def split: option.splits)
  from find_first [OF e(1)] obtain xs ys where es: "es = xs @ e # ys" "room name e" "\<forall>y \<in> set xs. \<not> room name y" by blast
  have pd: "proper_dir i es" by (rule V(9) [OF i(1,3)])
  have da: "dir_at c a es" by (rule held_dir [OF V(1) i(2) fs_treeD(3) [OF V(3) i(1,3)]])
  have nb: "nodes_at c a (NB 0) \<noteq> 0" using da by (simp add: dir_at_def dir_ok_def)
  have j0: "j \<noteq> 0" using V(11) j(1) by auto
  let ?es = "xs @ split_entry e (entry_of j name) @ ys" and ?D = "D(i \<mapsto> xs @ split_entry e (entry_of j name) @ ys)"
  from dir_add_inserts [OF da [unfolded es(1)] n(1) n(2) [unfolded es(1)] fs_treeD(1) [OF V(3) j(1)] es(3,2) e(2), of now]
  obtain r c' where c': "dir_add now c a name j = Some (r, c')"
    "r = MODERNFS_ERROR \<and> dir_quiet c a c' \<and> all_busy c' j \<or> r = 0 \<and> dir_step c a c' \<and> dir_at c' a ?es" by blast
  have st: "dir_step c a c'" using c'(2) by (auto simp: dir_quiet_def)
  then have sr: "same_refs c c'" and wf: "iwf c'" and ist: "istatic c c'" by (simp_all add: dir_step_def dir_ok_def)
  from holds_same [OF j(3) sr] obtain im where "ic_inodes c' b = Some im" "im_inum im = j" "im_valid im" by (rule holdsD)
  then have "\<not> all_busy c' j" by (auto simp: all_busy_def)
  then have d: "r = 0" "dir_at c' a ?es" using c'(2) by auto
  have en: "en_inum x \<in> en_inum ` set es \<union> {j}" if "x \<in> set ?es" for x
    using that es(1) by (auto simp: split_entry_def split: if_splits)
  have cl: "en_inum x \<in> S" if "x \<in> set ?es" "en_inum x \<noteq> 0" for x
    using en [OF that(1)] that(2) j(1) fs_treeD(7) [OF V(3) i(1,3)] by auto
  have T: "fs_tree c' S ?D" by (rule fs_tree_dir_step [OF V(3,1) wf i(1,2) st d(2) nb cl])
  have k: "keeps c c' (S - {i})" by (rule keeps_dir_step [OF V(3,1) i(1,2) st nb])
  have dm: "dmap ?es = (dmap es)(name \<mapsto> j)" using dmap_split [of xs e ys name j] n(2) es(1) j0 by simp
  have live: "en_inum e \<noteq> 0" using pd es(1) by (simp add: proper_dir_def)
  have pd': "proper_dir i ?es"
    using pd es(1) unique_split [of xs e ys name j] n(2) j0 live
    by (cases xs) (auto simp: proper_dir_def split_entry_def)
  have lk: "links ?D k i = links D k i + (if k = j then 1 else 0)" for k
    using i(3) es(1) live by (simp add: links_def split_entry_def)
  have nl: "nlinks S ?D k \<le> 1" if "k \<in> S" "?D k = None" for k
    using nlinks_change [OF i(1), of ?D D k] lk [of k] V(10) [of k] j(4) that by (cases "k = j") (auto split: if_splits)
  have ty: "di_type (node_of c' k) \<noteq> INODE_TYPE_SYMLINK" if "k \<in> S" for k
  proof (cases "k = i")
    case True
    then show ?thesis using fs_treeD(3) [OF T that, of ?es] by (simp add: dir_node_def)
  next
    case False
    then show ?thesis using k that V(4) same_node_fields(1) [of "node_of c k" "node_of c' k"] by (simp add: keeps_def no_links_def)
  qed
  note b2 = istatic_bitmap [OF ist]
  have pds: "proper_dir k ds" if "k \<in> S" "?D k = Some ds" for k ds
    using that V(9) [of k ds] pd' by (cases "k = i") auto
  have "fs_inv c' S ?D"
    using wf ilayout_static [OF V(2) ist] T ty same_refs_ok [OF sr V(5)] V(6-8,11) b2 pds nl
    by (simp add: fs_inv_def no_links_def)
  then show ?thesis using c'(1) d(1) sr dm k same_alloc_static [OF ist] by blast
qed

lemma touch_quiet:
  assumes v: "fs_inv c S D" and h: "holds c a i"
  shows "\<exists>c'. im_modify c a (im_dirty_update (\<lambda>_. True)) = Some c' \<and> fs_quiet c c' \<and> same_refs c c'"
proof -
  from touch_spec [OF fs_invD(1) [OF v] h meta_dirty] obtain c' and im :: inode_mem where
    c': "im_modify c a (im_dirty_update (\<lambda>_. True)) = Some c'" "iwf c'" "istatic c c'" "ic_view c' = ic_view c" "same_refs c c'"
      "\<forall>k. table_ok c k \<longrightarrow> k \<noteq> i \<longrightarrow> node_of c' k = node_of c k" "node_of c i = im_disk im" "node_of c' i = im_disk (im_dirty_update (\<lambda>_. True) im)"
    by blast
  have "node_of c' k = node_of c k" if "table_ok c k" for k using c'(6-8) that by (cases "k = i") auto
  then have "fs_quiet c c'" using c' by (simp add: fs_quiet_def)
  then show ?thesis using c' by blast
qed

section \<open>Create\<close>

definition created ::
  "inode_cache \<Rightarrow> inode_t set \<Rightarrow> (inode_t \<rightharpoonup> entry list) \<Rightarrow> inode_t \<Rightarrow> string \<Rightarrow> inode_t \<Rightarrow> inode_cache \<Rightarrow> bool" where
  "created c S D i name j c' \<longleftrightarrow> j \<notin> S \<and>
     (\<exists>es'. fs_inv c' (insert j S) (D(j := None, i \<mapsto> es')) \<and> dmap es' = (dmap (the (D i)))(name \<mapsto> j)) \<and>
     keeps c c' (S - {i}) \<and> ibits c' = (ibits c)(unat j := True) \<and> ic_used c' = ic_used c \<and> same_refs c c'"

lemma create_spec:
  assumes v: "fs_inv (fc_icache ctx) S D" and i: "idle2 (fc_icache ctx)" and r: "fc_root_inum ctx \<in> S" and p: "CHR 0x00 \<notin> set p"
    and ro: "\<not> fc_read_only ctx"
    and fit: "\<And>i. found_parent D (fc_root_inum ctx) p = Some i \<Longrightarrow> fits (the (D i)) (path_basename p)"
  shows "\<exists>ret h c'. modernfs_create now uid gid p mode fh ctx = Some ((ret, h), ctx\<lparr>fc_icache := c'\<rparr>) \<and>
     (case found_parent D (fc_root_inum ctx) p of
        None \<Rightarrow> ret = - ENOENT \<and> unchanged (fc_icache ctx) S D c'
      | Some i \<Rightarrow>
          if dmap (the (D i)) (path_basename p) \<noteq> None then ret = - EEXIST \<and> unchanged (fc_icache ctx) S D c'
          else if \<forall>k < itotal (fc_icache ctx). ibits (fc_icache ctx) k then ret = - ENOSPC \<and> unchanged (fc_icache ctx) S D c'
          else ret = 0 \<and> (\<exists>j. h = ucast j \<and> created (fc_icache ctx) S D i (path_basename p) j c' \<and>
              same_node ((new_node now INODE_TYPE_FILE)\<lparr>di_mode := ucast (mode AND 0x1FF), di_nlink := 1,
                di_uid := ucast uid, di_gid := ucast gid\<rparr>) (node_of c' j)))"
proof (cases "found_parent D (fc_root_inum ctx) p")
  case None
  from parent_spec [OF v idle2_idle [OF i] r p, of now] None obtain e c1 where
    "path_resolve_parent now (fc_icache ctx) (fc_root_inum ctx) (fc_root_inum ctx) p = Some (Inl e, c1)"
    "fs_quiet (fc_icache ctx) c1" "same_refs (fc_icache ctx) c1" by auto
  then show ?thesis using None ro unchangedI [OF v] by (auto simp: modernfs_create_def on_icache_def)
next
  case (Some d)
  let ?c = "fc_icache ctx" and ?root = "fc_root_inum ctx" and ?n = "path_basename p"
  from parent_lookup [OF v idle2_idle [OF i] r p Some, of now] obtain a c1 c2 es where
    c2: "path_resolve_parent now ?c ?root ?root p = Some (Inr (a, ?n), c1)"
      "dir_lookup now c1 a ?n = Some (case dmap es ?n of Some j \<Rightarrow> Inr j | None \<Rightarrow> Inl MODERNFS_ENOENT, c2)"
      "fs_inv c2 S D" "fs_quiet ?c c2" "takes ?c a d c2" "d \<in> S" "D d = Some es" by fastforce
  have put: "\<exists>c'. put_ret c3 a x = Some (x, c') \<and> unchanged ?c S D c'"
    if "fs_inv c3 S D" "keeps c2 c3 S" "same_refs c2 c3" "same_alloc c2 c3" for c3 and x :: "int \<times> u64"
  proof -
    from put_ret_takes [OF that(1) takes_same [OF c2(5) that(3)], of x] obtain c' where
      c': "put_ret c3 a x = Some (x, c')" "fs_quiet c3 c'" "same_refs ?c c'" by blast
    have "keeps ?c c' S"
      using keeps_trans [OF keeps_trans [OF keeps_quiet [OF fs_invD(3) [OF v] c2(4)] that(2)] keeps_quiet [OF fs_invD(3) [OF that(1)] c'(2)]] by simp
    moreover have "same_alloc ?c c'"
      by (rule same_alloc_trans [OF same_alloc_trans [OF same_alloc_quiet [OF c2(4)] that(4)] same_alloc_quiet [OF c'(2)]])
    ultimately show ?thesis using c' fs_inv_quiet [OF that(1) c'(2) same_refs_ok [OF c'(3) fs_invD(5) [OF v]]] by (auto simp: unchanged_def)
  qed
  show ?thesis
  proof (cases "dmap es ?n")
    case j: (Some j)
    from put [OF c2(3), of "(- EEXIST, fh)"] fs_invD(1) [OF c2(3)] obtain c' where
      "put_ret c2 a (- EEXIST, fh) = Some ((- EEXIST, fh), c')" "unchanged ?c S D c'" by (auto simp: keeps_def same_alloc_def)
    then show ?thesis using Some j ro c2(1,2,7) by (auto simp: modernfs_create_def on_icache_def)
  next
    case None
    let ?f = "\<lambda>d. d\<lparr>di_mode := ucast (mode AND 0x1FF), di_nlink := 1, di_uid := ucast uid, di_gid := ucast gid\<rparr>"
    have lk: "dir_lookup now c1 a ?n = Some (Inl MODERNFS_ENOENT, c2)" using c2(2) None by simp
    have st: "ibits c2 = ibits ?c" "itotal c2 = itotal ?c"
      using c2(4) istatic_bitmap(1,2) [of ?c c2] by (simp_all add: fs_quiet_def)
    from alloc_file [OF c2(3), of ?f now] obtain q c3 where
      al: "inode_alloc now c2 INODE_TYPE_FILE = Some (q, c3)"
        "case q of
          None \<Rightarrow> unchanged c2 S D c3 \<and> ((\<forall>k < itotal c2. ibits c2 k) \<or> (\<forall>a im. ic_inodes c2 a = Some im \<longrightarrow> 0 < im_ref_count im))
        | Some b \<Rightarrow> \<exists>j c4. set_disk c3 b ?f = Some c4 \<and> j \<notin> S \<and> \<not> ibits c2 (unat j) \<and> unat j < itotal c2 \<and> takes c2 b j c4 \<and>
            fs_inv c4 (insert j S) (D(j := None)) \<and> keeps c2 c4 S \<and> ibits c4 = (ibits c2)(unat j := True) \<and> ic_used c4 = ic_used c2 \<and> nlinks (insert j S) (D(j := None)) j = 0 \<and>
            node_of c4 j = ?f (new_node now INODE_TYPE_FILE)" by (auto simp: same_shape_def)
    show ?thesis
    proof (cases q)
      case n: None
      from idle2_takes [OF i c2(5)] have "\<not> (\<forall>a im. ic_inodes c2 a = Some im \<longrightarrow> 0 < im_ref_count im)"
        by (fastforce simp: idle_def held_def split: if_splits option.splits)
      then have full: "\<forall>k < itotal ?c. ibits ?c k" using al(2) n st by auto
      have u: "unchanged c2 S D c3" using al(2) n by auto
      from put [of c3 "(- ENOSPC, fh)"] u obtain c' where
        "put_ret c3 a (- ENOSPC, fh) = Some ((- ENOSPC, fh), c')" "unchanged ?c S D c'" by (auto simp: unchanged_def)
      then show ?thesis using Some None n full ro c2(1,7) lk al(1) by (auto simp: modernfs_create_def on_icache_def)
    next
      case b: (Some b)
      from al(2) b obtain j c4 where
        c4: "set_disk c3 b ?f = Some c4" "j \<notin> S" "\<not> ibits c2 (unat j)" "unat j < itotal c2" "takes c2 b j c4"
          "fs_inv c4 (insert j S) (D(j := None))" "keeps c2 c4 S" "nlinks (insert j S) (D(j := None)) j = 0"
          "node_of c4 j = ?f (new_node now INODE_TYPE_FILE)" "ibits c4 = (ibits c2)(unat j := True)" "ic_used c4 = ic_used c2" by auto
      have dj: "d \<noteq> j" using c2(6) c4(2) by auto
      have h: "holds c4 a d" by (rule holds_takes [OF takes_holds [OF c2(5)] c4(5)])
      from held_node [OF fs_invD(1) [OF c4(6)] takes_holds [OF c4(5)]] obtain nm where
        nm: "ic_inodes c4 b = Some nm" "im_inum nm = j" by blast
      have ft: "fits es ?n" using fit [OF Some] c2(7) by simp
      from add_entry [OF c4(6) _ h _ path_basename_good [OF p] None _ _ takes_holds [OF c4(5)] c4(8) ft, of now] c2(6,7) dj
      obtain c5 es' where
        c5: "dir_add now c4 a ?n j = Some (0, c5)" "same_refs c4 c5" "dmap es' = (dmap es)(?n \<mapsto> j)"
          "fs_inv c5 (insert j S) (D(j := None, d \<mapsto> es'))" "keeps c4 c5 (insert j S - {d})"
          "same_alloc c4 c5" by auto
      have h5: "holds c5 a d" by (rule holds_same [OF h c5(2)])
      from touch_quiet [OF c5(4) h5] obtain c6 where
        c6: "im_modify c5 a (im_dirty_update (\<lambda>_. True)) = Some c6" "fs_quiet c5 c6" "same_refs c5 c6" by blast
      have t6: "takes c2 b j c6" by (rule takes_same [OF takes_same [OF c4(5) c5(2)] c6(3)])
      have v6: "fs_inv c6 (insert j S) (D(j := None, d \<mapsto> es'))" by (rule takes_inv [OF c5(4) c6(2) t6])
      from put_takes_older [OF fs_invD(1) [OF v6] c2(5) t6 dj] obtain c7 where
        c7: "inode_put c6 a = Some c7" "fs_quiet c6 c7" "takes ?c b j c7" by blast
      have v7: "fs_inv c7 (insert j S) (D(j := None, d \<mapsto> es'))" by (rule takes_inv [OF v6 c7(2,3)])
      from put_ret_takes [OF v7 c7(3), of "(0 :: int, ucast j :: u64)"] obtain c8 where
        c8: "put_ret c7 b (0 :: int, ucast j :: u64) = Some ((0, ucast j), c8)" "fs_quiet c7 c8" "same_refs ?c c8" by blast
      have v8: "fs_inv c8 (insert j S) (D(j := None, d \<mapsto> es'))"
        by (rule fs_inv_quiet [OF v7 c8(2) same_refs_ok [OF c8(3) fs_invD(5) [OF v]]])
      have k8: "keeps c5 c8 (insert j S)"
        by (rule keeps_quiet [OF fs_invD(3) [OF c5(4)] fs_quiet_trans [OF c6(2) fs_quiet_trans [OF c7(2) c8(2)]]])
      have k48: "keeps c4 c8 (insert j S - {d})" by (rule keeps_trans [OF c5(5) k8]) auto
      have "keeps ?c c8 (S - {d})"
        by (rule keeps_trans [OF keeps_subset [OF keeps_trans [OF keeps_quiet [OF fs_invD(3) [OF v] c2(4)] c4(7)]] k48]) auto
      moreover have "ibits c8 = (ibits ?c)(unat j := True)" "ic_used c8 = ic_used ?c"
        using c4(10,11) c5(6) same_alloc_quiet [OF c2(4)] same_alloc_quiet [OF c6(2)] same_alloc_quiet [OF c7(2)] same_alloc_quiet [OF c8(2)]
        by (simp_all add: same_alloc_def)
      ultimately have cr: "created ?c S D d ?n j c8" using c4(2) v8 c5(3) c8(3) c2(7) by (auto simp: created_def)
      have "same_node (node_of c4 j) (node_of c8 j)" using k48 dj by (auto simp: keeps_def)
      then have sn: "same_node (?f (new_node now INODE_TYPE_FILE)) (node_of c8 j)" unfolding c4(9) .
      have nf: "\<not> (\<forall>k < itotal ?c. ibits ?c k)" using c4(3,4) st by auto
      have "modernfs_create now uid gid p mode fh ctx = Some ((0, ucast j), ctx\<lparr>fc_icache := c8\<rparr>)"
        using ro c2(1) lk al(1) b c4(1) nm c5(1) c6(1) c7(1) c8(1) by (simp add: modernfs_create_def on_icache_def Let_def)
      then show ?thesis using Some None nf cr sn c2(7) by auto
    qed
  qed
qed

end
