(* ===== verification/Fs_Instances.thy ===== *)
theory Fs_Instances
  imports Fs_Read Fs_Create Cache_Instances Mkfs_Spec
begin

text \<open>
  A file system at which the properties of the callbacks are instantiated: the root, inode 1, has a
  directory \<open>d\<close>, inode 2, which has a file \<open>f\<close> of three zero bytes, inode 3; all are in a cache of four entries, none of
  them referenced.
\<close>

section \<open>Directory blocks\<close>

fun put_records :: "byte list \<Rightarrow> nat \<Rightarrow> entry list \<Rightarrow> byte list" where
  "put_records b pos [] = b"
| "put_records b pos (e # es) =
     put_records (the (put_dirent b pos (en_inum e) (of_nat (en_len e)) (en_name e))) (pos + en_len e) es"

fun fitting :: "nat \<Rightarrow> entry list \<Rightarrow> bool" where
  "fitting pos [] \<longleftrightarrow> pos = BLOCK_SIZE"
| "fitting pos (e # es) \<longleftrightarrow> pos + sizeof_dirent < BLOCK_SIZE \<and> entry_ok e \<and> pos + en_len e \<le> BLOCK_SIZE \<and> fitting (pos + en_len e) es"

lemma put_records_entries:
  assumes "length b = BLOCK_SIZE" "fitting pos es"
  shows "length (put_records b pos es) = BLOCK_SIZE \<and> entries_from (put_records b pos es) BLOCK_SIZE pos es \<and>
     (\<forall>i < pos. put_records b pos es ! i = b ! i)"
  using assms
proof (induction es arbitrary: b pos)
  case (Cons e es)
  have e: "entry_ok e" "pos + 263 < 4096" "pos + en_len e \<le> 4096" "fitting (pos + en_len e) es" using Cons.prems by simp_all
  then have n: "length (en_name e) < 256" "unat (of_nat (en_len e) :: u16) = en_len e"
    by (simp_all add: entry_ok_def unat_of_nat_small)
  have eta: "\<lparr>en_inum = en_inum e, en_name = en_name e, en_len = en_len e\<rparr> = e" by simp
  from put_dirent_spec [OF Cons.prems(1) _ n(1), of pos "en_inum e" "of_nat (en_len e)"] e n obtain c where
    c: "put_dirent b pos (en_inum e) (of_nat (en_len e)) (en_name e) = Some c" "length c = 4096"
      "entry_at c pos e" "\<forall>i < 4096. i < pos \<or> pos + 9 + length (en_name e) \<le> i \<longrightarrow> c ! i = b ! i"
    by (auto simp: entry_ok_def eta)
  let ?r = "put_records c (pos + en_len e) es"
  from Cons.IH [OF c(2) e(4)] have r: "length ?r = 4096" "entries_from ?r 4096 (pos + en_len e) es" "\<forall>i < pos + en_len e. ?r ! i = c ! i"
    by simp_all
  have "entry_at ?r pos e"
    by (rule entry_at_cong [OF c(3)]) (use r e esize_bounds [of e] in \<open>auto simp: entry_ok_def\<close>)
  then show ?case using r e c by simp
qed simp

section \<open>The instance\<close>

definition root_entries :: "entry list" where
  "root_entries = [\<lparr>en_inum = 1, en_name = ''.'', en_len = 16\<rparr>, \<lparr>en_inum = 1, en_name = ''..'', en_len = 16\<rparr>,
     \<lparr>en_inum = 2, en_name = ''d'', en_len = 4064\<rparr>]"

definition sub_entries :: "entry list" where
  "sub_entries = [\<lparr>en_inum = 2, en_name = ''.'', en_len = 16\<rparr>, \<lparr>en_inum = 1, en_name = ''..'', en_len = 16\<rparr>,
     \<lparr>en_inum = 3, en_name = ''f'', en_len = 4064\<rparr>]"

definition root_block :: "byte list" where "root_block = put_records zero_block_bytes 0 root_entries"
definition sub_block :: "byte list" where "sub_block = put_records zero_block_bytes 0 sub_entries"

lemma toy_blocks:
  "length root_block = BLOCK_SIZE" "entries_from root_block BLOCK_SIZE 0 root_entries"
  "length sub_block = BLOCK_SIZE" "entries_from sub_block BLOCK_SIZE 0 sub_entries"
  using put_records_entries [of zero_block_bytes 0 root_entries] put_records_entries [of zero_block_bytes 0 sub_entries]
  by (simp_all add: root_block_def sub_block_def root_entries_def sub_entries_def entry_ok_def esize_def)

definition toy_dev :: block_device where
  "toy_dev = snd (the (blkdev_write (loaded_dev root_block) 11 sub_block))"

lemma toy_dev:
  "dev_ok toy_dev" "\<not> dev_faulty toy_dev b" "bd_total_blocks toy_dev = 1024"
  "dev_view toy_dev = (\<lambda>_. zeros)(10 := root_block, 11 := sub_block)"
proof -
  note L = loaded_dev [OF toy_blocks(1)]
  from blkdev_write_spec [of "loaded_dev root_block" 11 sub_block] L toy_blocks(3) obtain dev' where
    d: "blkdev_write (loaded_dev root_block) 11 sub_block = Some (if writable (loaded_dev root_block) 11 then 0 else - EIO, dev')"
      "dev_ok dev'" "dev_static (loaded_dev root_block) dev'"
      "dev_view dev' = (if writable (loaded_dev root_block) 11 then (dev_view (loaded_dev root_block))(11 := sub_block)
        else dev_view (loaded_dev root_block))" by auto
  have w: "writable (loaded_dev root_block) 11"
    using L(2) [of 11] by (simp add: writable_def dev_faulty_def)
  have "toy_dev = dev'" using d(1) by (simp add: toy_dev_def)
  then show "dev_ok toy_dev" "\<not> dev_faulty toy_dev b" "bd_total_blocks toy_dev = 1024"
    "dev_view toy_dev = (\<lambda>_. zeros)(10 := root_block, 11 := sub_block)"
    using d w L by (auto simp: dev_static_def dev_faulty_def fun_eq_iff)
qed

definition toy_dir_inode :: "block_t \<Rightarrow> disk_inode" where
  "toy_dir_inode b = (dir_inode b)\<lparr>di_nlink := 2\<rparr>"

lemma toy_dir_inode [simp]:
  "di_type (toy_dir_inode b) = INODE_TYPE_DIR" "di_size (toy_dir_inode b) = 4096" "length (di_direct (toy_dir_inode b)) = 12"
  "nodes (toy_dir_inode b) v = (\<lambda>n. if n = NB 0 then b else 0)" "disk_inode_wf (toy_dir_inode b)" "di_nlink (toy_dir_inode b) = 2"
proof -
  have "nodes (toy_dir_inode b) v n = (if n = NB 0 then b else 0)" for n
    by (rule single_nodes) (simp_all add: toy_dir_inode_def dir_inode_def zero_disk_inode_def)
  then show "nodes (toy_dir_inode b) v = (\<lambda>n. if n = NB 0 then b else 0)" by (simp add: fun_eq_iff)
qed (simp_all add: toy_dir_inode_def dir_inode_def zero_disk_inode_def disk_inode_wf_def)

lemma toy_file_block [simp]: "file_block (toy_dir_inode b) v 0 = b"
  using toy_dir_inode(4) [of b v] by (metis nodes.simps(4))

definition toy_file :: disk_inode where
  "toy_file = zero_disk_inode\<lparr>di_type := INODE_TYPE_FILE, di_nlink := 1, di_size := 3, di_blocks := 1,
     di_direct := 13 # replicate 11 0\<rparr>"

lemma toy_file [simp]:
  "di_type toy_file = INODE_TYPE_FILE" "di_size toy_file = 3" "length (di_direct toy_file) = 12"
  "nodes toy_file v = (\<lambda>n. if n = NB 0 then 13 else 0)" "disk_inode_wf toy_file" "di_nlink toy_file = 1"
proof -
  have "nodes toy_file v n = (if n = NB 0 then 13 else 0)" for n
    by (rule single_nodes) (simp_all add: toy_file_def zero_disk_inode_def)
  then show "nodes toy_file v = (\<lambda>n. if n = NB 0 then 13 else 0)" by (simp add: fun_eq_iff)
qed (simp_all add: toy_file_def zero_disk_inode_def disk_inode_wf_def)

lemma toy_file_data [simp]: "file_block toy_file v k = (if k = 0 then 13 else 0)"
proof -
  have "nodes toy_file v (NB k) = (if NB k = NB 0 then 13 else 0)" unfolding toy_file(4) ..
  then show ?thesis by (simp only: nodes.simps node.inject)
qed

text \<open>Entries 0 to 2 hold the three inodes, entry 3 is free; one hash bucket.\<close>

definition toy_disk :: "addr \<Rightarrow> disk_inode" where
  "toy_disk a = (if a < 2 then toy_dir_inode (of_nat a + 10) else toy_file)"

definition toy_entry :: "addr \<Rightarrow> inode_mem" where
  "toy_entry a = (if a < 3 then calloc_inode\<lparr>im_inum := of_nat a + 1, im_disk := toy_disk a,
       im_valid := True, im_dirty := True, im_hash_next := (if a < 2 then Some (a + 1) else None)\<rparr> else calloc_inode)
     \<lparr>im_prev := (if a = 0 then None else Some (a - 1)), im_next := (if a = 3 then None else Some (a + 1))\<rparr>"

definition toy_fs :: inode_cache where
  "toy_fs = \<lparr>ic_dev = toy_dev, ic_balloc = used_alloc,
     ic_sb = (superblock_init 1024 0 0)\<lparr>sb_inode_table_start := 4, sb_inode_bitmap_start := 3, sb_total_inodes := 64\<rparr>,
     ic_inodes = (\<lambda>a. if a < 4 then Some (toy_entry a) else None), ic_max_inodes = 4,
     ic_lru_head = Some 0, ic_lru_tail = Some 3, ic_hash_table = [Some 0], ic_hash_size = 1,
     ic_inode_bitmap = 15 # replicate 4095 0, ic_bitmap_blocks = 1, ic_oom = False\<rparr>"

lemma toy_shape: "ishape toy_fs [0, 1, 2, 3]"
proof -
  have lt: "a < 4 \<longleftrightarrow> a \<in> {0, 1, 2, 3 :: addr}" for a by auto
  have l: "live toy_fs = {0, 1, 2}"
    by (auto simp: live_def toy_fs_def toy_entry_def calloc_inode_def lt split: if_splits)
  have d: "dll (ilinks_of toy_fs) [0, 1, 2, 3]"
    by (simp add: dll_def ilinks_of_def ic_prev_of_def toy_fs_def toy_entry_def calloc_inode_def)
  have i: "inum_of toy_fs 0 = 1" "inum_of toy_fs 1 = 2" "inum_of toy_fs 2 = 3" by (simp_all add: inum_of_def toy_fs_def toy_entry_def)
  have b: "ibucket toy_fs a = 0" for a by (simp add: ibucket_def inode_hash_def toy_fs_def)
  have "chain (ic_hash_next_of toy_fs) (Some 0) [0, 1, 2]"
    by (simp add: ic_hash_next_of_def toy_fs_def toy_entry_def)
  then have "\<exists>xs. chain (ic_hash_next_of toy_fs) (Some 0) xs \<and> set xs = {0, 1, 2}" by (intro exI [of _ "[0, 1, 2]"]) simp
  moreover have "{a. (a = 0 \<or> a = 1 \<or> a = 2) \<and> ibucket toy_fs a = 0} = {0, 1, 2}" using b by auto
  moreover have "ic_hash_table toy_fs = [Some 0]" "ic_hash_size toy_fs = 1" by (simp_all add: toy_fs_def)
  moreover have "dom (ic_inodes toy_fs) = {0, 1, 2, 3}" by (auto simp: toy_fs_def lt split: if_splits)
  ultimately show ?thesis using d l b i by (simp add: ishape_def ihashed_def hash_ok_def)
qed

lemma toy_node: "node_of toy_fs 1 = toy_dir_inode 10" "node_of toy_fs 2 = toy_dir_inode 11" "node_of toy_fs 3 = toy_file"
  using node_of_cached [OF toy_shape, of 0 "toy_entry 0"] node_of_cached [OF toy_shape, of 1 "toy_entry 1"]
    node_of_cached [OF toy_shape, of 2 "toy_entry 2"] by (simp_all add: toy_fs_def toy_entry_def toy_disk_def)

lemma toy_view: "ic_view toy_fs = (\<lambda>_. zeros)(10 := root_block, 11 := sub_block)"
  by (simp add: ic_view_def toy_fs_def toy_dev)

lemma toy_table: "unat i < 64 \<Longrightarrow> table_ok toy_fs i" "table_ok toy_fs i \<Longrightarrow> inode_table_block toy_fs i \<noteq> 3"
proof -
  have tb: "unat (inode_table_block toy_fs i) = 4 + unat i div 32" if "unat i < 2 ^ 25" for i
  proof -
    have "unat ((i * 128) div 4096) = unat i div 32" by (rule table_slot(1) [OF that])
    moreover have "unat i div 32 < 2 ^ 20" using that by (simp add: div_less_iff_less_mult)
    ultimately show ?thesis by (simp add: inode_table_block_def toy_fs_def unat_word_ariths)
  qed
  show "table_ok toy_fs i" if i: "unat i < 64"
  proof -
    have "unat i div 32 < 2" using i by simp
    then have b: "unat (inode_table_block toy_fs i) < 6" using tb [of i] i by simp
    then have "inode_table_block toy_fs i \<notin> ic_pool toy_fs"
      by (simp add: ic_pool_def toy_fs_def word_le_nat_alt)
    then show ?thesis using b i by (simp add: table_ok_def toy_fs_def toy_dev word_less_nat_alt)
  qed
  show "inode_table_block toy_fs i \<noteq> 3" if "table_ok toy_fs i" using tb [of i] that by (auto simp: table_ok_def)
qed

lemma toy_ok: "ic_ok toy_fs"
  by (simp add: ic_ok_def toy_fs_def toy_dev)

lemma toy_iwf: "iwf toy_fs"
proof -
  have "table_ok toy_fs (im_inum (toy_entry a)) \<and> disk_inode_wf (im_disk (toy_entry a)) \<and> im_dirty (toy_entry a)"
    if "im_valid (toy_entry a)" for a
  proof -
    have "a < 3" using that by (auto simp: toy_entry_def calloc_inode_def split: if_splits)
    then have "a = 0 \<or> a = 1 \<or> a = 2" by auto
    then show ?thesis by (auto simp: toy_entry_def toy_disk_def toy_table)
  qed
  then show ?thesis using toy_ok toy_shape by (auto simp: iwf_def toy_fs_def split: if_splits)
qed

lemma toy_layout: "ilayout toy_fs"
proof -
  have f: "ic_bound toy_fs = 1024" "ic_balloc toy_fs = used_alloc" "ic_bitmap_blocks toy_fs = 1"
    "sb_inode_bitmap_start (ic_sb toy_fs) = 3" "sb_total_inodes (ic_sb toy_fs) = 64" "length (ic_inode_bitmap toy_fs) = 4096"
    by (simp_all add: toy_fs_def toy_dev)
  show ?thesis using f toy_table by (simp add: ilayout_def run_ok_def bitmap_block_def ic_pool_def)
qed

definition toy_dirs :: "inode_t \<rightharpoonup> entry list" where
  "toy_dirs = [1 \<mapsto> root_entries, 2 \<mapsto> sub_entries]"

lemma toy_dirs [simp]: "toy_dirs 1 = Some root_entries" "toy_dirs 2 = Some sub_entries" "toy_dirs 3 = None"
  by (simp_all add: toy_dirs_def)

lemma toy_tree_ok: "tree_ok (node_of toy_fs 1) (ic_view toy_fs) (ic_used toy_fs)" "tree_ok (node_of toy_fs 2) (ic_view toy_fs) (ic_used toy_fs)"
    "tree_ok (node_of toy_fs 3) (ic_view toy_fs) (ic_used toy_fs)"
proof -
  have "10 \<in> ic_used toy_fs" "11 \<in> ic_used toy_fs" "13 \<in> ic_used toy_fs"
    by (simp_all add: ic_used_def toy_fs_def toy_allocated)
  then show "tree_ok (node_of toy_fs 1) (ic_view toy_fs) (ic_used toy_fs)" "tree_ok (node_of toy_fs 2) (ic_view toy_fs) (ic_used toy_fs)"
    "tree_ok (node_of toy_fs 3) (ic_view toy_fs) (ic_used toy_fs)"
    using toy_blocks by (simp_all add: toy_view toy_node tree_ok_def)
qed

lemma toy_dir: "dir_node toy_fs 1 root_entries" "dir_node toy_fs 2 sub_entries"
  using toy_tree_ok toy_blocks by (simp_all add: dir_node_def toy_view toy_node root_entries_def sub_entries_def)

lemma toy_tree: "fs_tree toy_fs {1, 2, 3} toy_dirs"
proof -
  have "node_blocks toy_fs 1 = {10}" "node_blocks toy_fs 2 = {11}" "node_blocks toy_fs 3 = {13}"
    by (auto simp: node_blocks_def toy_node split: if_splits)
  then show ?thesis using toy_dir toy_tree_ok toy_table(1) [of 1] toy_table(1) [of 2] toy_table(1) [of 3]
    by (simp add: fs_tree_def root_entries_def sub_entries_def toy_node)
qed

lemma toy_fs_bits: "ibits toy_fs k \<longleftrightarrow> k < 4" if "k < 8"
proof -
  have "bit (15 :: byte) k \<longleftrightarrow> k < 4" using that unfolding less_8_cases by (elim insertE emptyE) simp_all
  then show ?thesis using that by (simp add: toy_fs_def)
qed

lemma toy_inv: "fs_inv toy_fs {1, 2, 3} toy_dirs" "idle2 toy_fs" "idle toy_fs"
proof -
  have e: "im_ref_count (toy_entry a) = 0" for a by (simp add: toy_entry_def calloc_inode_def)
  have "no_links toy_fs {1, 2, 3}" by (simp add: no_links_def toy_node)
  moreover have "refs_ok toy_fs" using e by (simp add: refs_ok_def toy_fs_def)
  moreover have "proper_dir 1 root_entries" "proper_dir 2 sub_entries"
    by (simp_all add: proper_dir_def root_entries_def sub_entries_def unique_names_def)
  moreover have "nlinks {1, 2, 3} toy_dirs 3 \<le> 1"
    by (simp add: nlinks_def links_def root_entries_def sub_entries_def)
  moreover have "itotal toy_fs = 64" by (simp add: toy_fs_def)
  ultimately show "fs_inv toy_fs {1, 2, 3} toy_dirs"
    using toy_iwf toy_layout toy_tree by (auto simp: fs_inv_def toy_fs_bits)
  have "held toy_fs a = None" "a < 4 \<Longrightarrow> a \<in> dom (ic_inodes toy_fs)" for a using e by (simp_all add: held_def toy_fs_def dom_def)
  then show "idle2 toy_fs" unfolding idle2_def by (intro bexI [of _ 0] bexI [of _ 1]) simp_all
  then show "idle toy_fs" by (rule idle2_idle)
qed

definition toy_ctx :: fs_context where
  "toy_ctx = \<lparr>fc_icache = toy_fs, fc_journal = None, fc_extent_alloc = None, fc_checkpoint_running = False,
     fc_root_inum = 1, fc_read_only = False, fc_device_path = ''disk.img'', fc_read_count = 0, fc_write_count = 0\<rparr>"

lemma toy_ctx [simp]:
  "fc_icache toy_ctx = toy_fs" "fc_root_inum toy_ctx = 1" "\<not> fc_read_only toy_ctx"
  by (simp_all add: toy_ctx_def)

end
