(* ===== verification/Fs_Properties.thy ===== *)
theory Fs_Properties
  imports Fs_Instances
begin

text \<open>
  The properties of path resolution and of the callbacks on names and attributes.  The tree of directories
  is the map \<open>D\<close> from inode numbers to the entries of directories, \<open>S\<close> are the inodes in use, and two cache
  entries that nobody holds are enough for every callback.
\<close>

lemma toy_paths:
  "components_of ''/d'' = [''d'']" "components_of ''/d/..'' = [''d'', ''..'']" "components_of ''/'' = []"
  "components_of ''/d/x'' = [''d'', ''x'']" "components_of ''/a'' = [''a'']"
  "path_dirname ''/a'' 4096 = Inr ''/''" "path_basename ''/a'' = ''a''" "path_dirname ''/d'' 4096 = Inr ''/''" "path_basename ''/d'' = ''d''"
  "path_dirname ''/d/x'' 4096 = Inr ''/d''" "path_basename ''/d/x'' = ''x''"
  "path_dirname ''/d/f'' 4096 = Inr ''/d''" "path_basename ''/d/f'' = ''f''"
  by (simp_all add: components_of_def segments_def path_dirname_def path_basename_def numeral_eq_Suc pieces.simps)

lemma toy_maps:
  "dmap root_entries ''a'' = None" "dmap root_entries ''d'' = Some 2" "dmap sub_entries ''..'' = Some 1"
  "dmap sub_entries ''x'' = None" "dmap sub_entries ''f'' = Some 3"
  by (simp_all add: root_entries_def sub_entries_def ematch_def)


lemma toy_parents: "found_parent toy_dirs 1 ''/a'' = Some 1" "found_parent toy_dirs 1 ''/d'' = Some 1"
  "found_parent toy_dirs 1 ''/d/x'' = Some 2" "found_parent toy_dirs 1 ''/d/f'' = Some 2"
  by (simp_all add: found_parent_def toy_paths parent_of_def is_absolute_def toy_maps)

lemma toy_found: "found_name toy_dirs 1 ''/d/f'' = Some (2, 3)" "found_name toy_dirs 1 ''/d'' = Some (1, 2)"
  by (simp_all add: found_name_def toy_parents toy_paths toy_maps)

lemma toy_links: "links toy_dirs 2 1 = 1" "links toy_dirs 2 3 = 0"
  by (simp_all add: links_def root_entries_def sub_entries_def)


section \<open>Resolution\<close>

text \<open>C13: resolving a path where no symbolic link is met returns, and computes the walk of its components through the
  directories: it ends with exactly one more reference, on the inode it reached, or with none when a
  component is missing or its parent is no directory; no inode changes but in its access time.\<close>
theorem path_resolve_correct:
  assumes "fs_inv c S D" "idle c" "root \<in> S" "cwd \<in> S" "CHR 0x00 \<notin> set p"
  shows "\<exists>r c'. path_resolve now c root cwd p follow_symlink = Some (r, c') \<and> fs_inv c' S D \<and> keeps c c' S \<and>
     (case follow D (if is_absolute p then root else cwd) (components_of p) of
        None \<Rightarrow> r = None \<and> same_refs c c'
      | Some j \<Rightarrow> \<exists>b. r = Some b \<and> takes c b j c')"
proof -
  note V = fs_invD [OF assms(1)]
  from path_resolve_spec [OF V(3,1,5) assms(2-5), of follow_symlink now] V(4) obtain r c' where
    r: "path_resolve now c root cwd p follow_symlink = Some (r, c')"
      "resolved c (follow D (if is_absolute p then root else cwd) (components_of p)) r c'" by auto
  have "fs_quiet c c'" "refs_ok c'"
    using r(2) V(5) same_refs_ok takes_refs by (auto simp: resolved_def split: option.splits)
  then show ?thesis using r fs_inv_quiet [OF assms(1)] keeps_quiet [OF V(3)] by (auto simp: resolved_def)
qed

theorem path_resolve_correct_witness:
  "(\<exists>b c'. path_resolve 5 toy_fs 1 1 ''/d/..'' True = Some (Some b, c') \<and> takes toy_fs b 1 c') \<and>
   (\<exists>c'. path_resolve 5 toy_fs 1 1 ''/d/x'' False = Some (None, c') \<and> same_refs toy_fs c')"
  using path_resolve_correct [OF toy_inv(1,3), of 1 1 "''/d/..''" 5 True] path_resolve_correct [OF toy_inv(1,3), of 1 1 "''/d/x''" 5 False]
  by (auto simp: toy_paths toy_maps)

section \<open>Attributes and listings\<close>





text \<open>\<open>modernfs_chmod\<close> sets the permission bits and the change time of the inode the path leads to, and nothing
  else of the file system.\<close>
theorem modernfs_chmod_correct:
  assumes "fs_inv (fc_icache ctx) S D" "idle (fc_icache ctx)" "fc_root_inum ctx \<in> S" "CHR 0x00 \<notin> set p" "\<not> fc_read_only ctx"
  shows "\<exists>ret c'. modernfs_chmod now p mode ctx = Some (ret, ctx\<lparr>fc_icache := c'\<rparr>) \<and>
     (case follow D (fc_root_inum ctx) (components_of p) of
        None \<Rightarrow> ret = - ENOENT \<and> unchanged (fc_icache ctx) S D c'
      | Some j \<Rightarrow> ret = 0 \<and>
          updated (fc_icache ctx) S D j (\<lambda>d. d\<lparr>di_mode := ucast (mode AND 0x1FF), di_ctime := now\<rparr>) c')"
  unfolding modernfs_chmod_def by (rule update_inode_spec [OF assms]) (simp add: same_shape_def)

theorem modernfs_chmod_correct_witness:
  "\<exists>c'. modernfs_chmod 5 ''/d'' 0x41ED toy_ctx = Some (0, toy_ctx\<lparr>fc_icache := c'\<rparr>) \<and> di_mode (node_of c' 2) = 0x1ED"
  using modernfs_chmod_correct [of toy_ctx "{1, 2, 3}" toy_dirs "''/d''" 5 "0x41ED", unfolded toy_ctx, OF toy_inv(1,3)]
  by (auto simp: toy_paths toy_maps updated_def)

section \<open>Names\<close>





text \<open>C14: \<open>modernfs_rmdir\<close> removes the name of a directory with at most two links, whether or not the directory is
  empty: the names in it are not looked at, and the inodes they name stay allocated.\<close>
theorem modernfs_rmdir_correct:
  assumes "fs_inv (fc_icache ctx) S D" "idle2 (fc_icache ctx)" "fc_root_inum ctx \<in> S" "CHR 0x00 \<notin> set p" "\<not> fc_read_only ctx"
    and "\<And>i j. found_name D (fc_root_inum ctx) p = Some (i, j) \<Longrightarrow> D j \<noteq> None \<Longrightarrow>
      i \<noteq> j \<and> links D j i \<le> 1 \<and> (\<forall>k \<in> S - {i, j}. links D j k = 0)"
  shows "\<exists>ret c'. modernfs_rmdir now p ctx = Some (ret, ctx\<lparr>fc_icache := c'\<rparr>) \<and>
     (case found_name D (fc_root_inum ctx) p of
        None \<Rightarrow> ret = - ENOENT \<and> unchanged (fc_icache ctx) S D c'
      | Some (i, j) \<Rightarrow>
          if D j = None then ret = - ENOTDIR \<and> unchanged (fc_icache ctx) S D c'
          else if 2 < di_nlink (node_of (fc_icache ctx) j) then ret = - ENOTEMPTY \<and> unchanged (fc_icache ctx) S D c'
          else ret = 0 \<and> removed (fc_icache ctx) S D i (path_basename p) j c')"
  by (rule rmdir_spec [OF assms])

theorem modernfs_rmdir_correct_witness:
  "\<exists>c'. modernfs_rmdir 5 ''/d'' toy_ctx = Some (0, toy_ctx\<lparr>fc_icache := c'\<rparr>) \<and> toy_dirs 2 = Some sub_entries \<and>
     dmap sub_entries ''f'' = Some 3 \<and> \<not> ibits c' 2 \<and> ibits c' 3"
  using modernfs_rmdir_correct [of toy_ctx "{1, 2, 3}" toy_dirs "''/d''" 5, unfolded toy_ctx, OF toy_inv(1,2)] toy_fs_bits [of 3]
  by (auto simp: toy_found toy_node toy_maps toy_links removed_def toy_paths)

end
