(* ===== verification/Fs_Files.thy ===== *)
theory Fs_Files
  imports Fs_Read
begin

text \<open>
  Reading and writing through a handle, over the invariant of the file system: the bytes a file has, and
  what a write leaves of it and of every other inode.  The mounts are those without a journal.
\<close>

section \<open>The bytes of a file\<close>

definition nbyte :: "inode_cache \<Rightarrow> inode_t \<Rightarrow> nat \<Rightarrow> byte" where
  "nbyte c i k = (let b = nodes (node_of c i) (ic_view c) (NB (k div 4096)) in if b = 0 then 0 else ic_view c b ! (k mod 4096))"

definition nsize :: "inode_cache \<Rightarrow> inode_t \<Rightarrow> nat" where
  "nsize c i = unat (di_size (node_of c i))"

definition content :: "inode_cache \<Rightarrow> inode_t \<Rightarrow> byte list" where
  "content c i = map (nbyte c i) [0..<nsize c i]"

lemma holds_content:
  assumes "iwf c" "holds c a i"
  shows "fbyte c a = nbyte c i" "fsize c a = nsize c i" "file_bytes c a = content c i" "blocks_at c a = node_blocks c i"
    "nodes_at c a = nodes (node_of c i) (ic_view c)"
proof -
  note H = holds_nodes [OF assms]
  show f: "fbyte c a = nbyte c i" unfolding fun_eq_iff fbyte_def nbyte_def H by blast
  show s: "fsize c a = nsize c i" by (simp add: nsize_def H)
  show "file_bytes c a = content c i" by (simp add: file_bytes_def content_def f s)
  show "blocks_at c a = node_blocks c i" by (simp add: blocks_at_def node_blocks_def H)
  show "nodes_at c a = nodes (node_of c i) (ic_view c)" by (rule H)
qed

lemma keeps_content:
  assumes "keeps c c' K" "i \<in> K"
  shows "nbyte c' i = nbyte c i" "content c' i = content c i"
proof -
  have v: "x \<in> node_blocks c i \<Longrightarrow> ic_view c' x = ic_view c x" for x using assms by (simp add: keeps_def)
  have "nbyte c' i k = nbyte c i k" for k
    using v [OF node_blocksI [of c i "NB (k div 4096)"]]
    by (simp add: nbyte_def keeps_nodes [OF assms] Let_def del: nodes.simps)
  then show n: "nbyte c' i = nbyte c i" by (simp add: fun_eq_iff)
  have "same_node (node_of c i) (node_of c' i)" using assms by (simp add: keeps_def)
  then show "content c' i = content c i" using same_node_fields(2) [of "node_of c i" "node_of c' i"] by (simp add: content_def nsize_def n)
qed

lemma quiet_content:
  assumes "fs_tree c S D" "fs_quiet c c'" "i \<in> S"
  shows "nbyte c' i = nbyte c i" "content c' i = content c i"
  using keeps_content [OF keeps_quiet [OF assms(1,2)] assms(3)] by auto

section \<open>Read\<close>

lemma held_entry:
  assumes v: "fs_inv c S D" and h: "holds c a i" and i: "i \<in> S"
  obtains im where "ic_inodes c a = Some im" "im_inum im = i" "im_valid im" "im_disk im = node_of c i" "tree_at c a"
proof -
  from held_node [OF fs_invD(1) [OF v] h] obtain im where
    im: "ic_inodes c a = Some im" "im_inum im = i" "im_valid im" "im_disk im = node_of c i" by blast
  moreover have "tree_at c a" using fs_treeD(5) [OF fs_invD(3) [OF v] i] im(1,4) by (simp add: tree_at_def)
  ultimately show thesis by (rule that)
qed

lemma read_quiet:
  assumes v: "fs_inv c S D" and h: "holds c a i" and i: "i \<in> S" and mx: "nsize c i \<le> MAX_FILE" "unat offset + unat sz < 2 ^ 64"
  shows "\<exists>c'. inode_read now c a offset sz = Some (Inr (take (unat sz) (drop (unat offset) (content c i))), c') \<and>
     fs_quiet c c' \<and> same_refs c c'"
proof -
  from held_entry [OF v h i] obtain im where im: "ic_inodes c a = Some im" "im_inum im = i" "im_valid im" "tree_at c a" by blast
  note C = holds_content [OF fs_invD(1) [OF v] h]
  have ok: "ic_ok c" using fs_invD(1) [OF v] by (rule iwfD)
  from inode_read_bytes [OF ok im(4) _ mx(2), of now] C(2,3) mx(1) obtain c' where
    c': "inode_read now c a offset sz = Some (Inr (take (unat sz) (drop (unat offset) (content c i))), c')" "reads c a c'" by auto
  note S = reads_same [OF fs_invD(1) [OF v] im(1,3,4) c'(2)]
  have "same_node (node_of c k) (node_of c' k)" if "table_ok c k" for k
    using S(4,5) im(2) that by (cases "k = i") auto
  then have "fs_quiet c c'" using S(1,2) readsD(2) [OF c'(2) im(4)] by (simp add: fs_quiet_def)
  then show ?thesis using c'(1) S(3) by blast
qed

lemma atime_quiet:
  assumes wf: "iwf c" and h: "holds c a i"
  shows "\<exists>c'. set_disk c a (\<lambda>d. d\<lparr>di_atime := now\<rparr>) = Some c' \<and> fs_quiet c c' \<and> same_refs c c'"
proof -
  define g where "g = (\<lambda>im :: inode_mem. im\<lparr>im_disk := (im_disk im)\<lparr>di_atime := now\<rparr>, im_dirty := True\<rparr>)"
  have g: "meta g" by (simp add: meta_def same_shape_def g_def)
  from touch_spec [OF wf h g] obtain c' and im :: inode_mem where
    c': "im_modify c a g = Some c'" "iwf c'" "istatic c c'" "ic_view c' = ic_view c" "same_refs c c'"
      "\<forall>k. table_ok c k \<longrightarrow> k \<noteq> i \<longrightarrow> node_of c' k = node_of c k" "node_of c i = im_disk im" "node_of c' i = im_disk (g im)" by blast
  have "same_node (node_of c k) (node_of c' k)" if "table_ok c k" for k
    using c'(6-8) that by (cases "k = i") (auto simp: same_node_def g_def)
  then show ?thesis using c' by (simp add: fs_quiet_def set_disk_def g_def)
qed

lemma read_spec:
  assumes v: "fs_inv (fc_icache ctx) S D" and id: "idle (fc_icache ctx)" and i: "ucast fh \<in> S"
    and mx: "nsize (fc_icache ctx) (ucast fh) \<le> MAX_FILE" "unat offset + unat sz < 2 ^ 64"
  shows "\<exists>c'. modernfs_read now fh sz offset ctx = Some
     (let data = take (unat sz) (drop (unat offset) (content (fc_icache ctx) (ucast fh))) in (c_int (of_nat (length data)), data),
      ctx\<lparr>fc_icache := c', fc_read_count := fc_read_count ctx + 1\<rparr>) \<and> unchanged (fc_icache ctx) S D c'"
proof -
  let ?c = "fc_icache ctx" and ?i = "ucast fh :: inode_t"
  note V = fs_invD [OF v]
  from get_takes [OF V(1,5) fs_treeD(1) [OF V(3) i] id] obtain a c1 where
    c1: "inode_get ?c ?i = Some (Some a, c1)" "fs_quiet ?c c1" "takes ?c a ?i c1" by blast
  have v1: "fs_inv c1 S D" by (rule takes_inv [OF v c1(2,3)])
  have ct: "content c1 ?i = content ?c ?i" by (rule quiet_content(2) [OF V(3) c1(2) i])
  then have "nsize c1 ?i = nsize ?c ?i" by (metis content_def diff_zero length_map length_upt)
  then have mx1: "nsize c1 ?i \<le> MAX_FILE" using mx(1) by simp
  from read_quiet [OF v1 takes_holds [OF c1(3)] i mx1 mx(2), of now] obtain c2 where
    c2: "inode_read now c1 a offset sz = Some (Inr (take (unat sz) (drop (unat offset) (content ?c ?i))), c2)"
      "fs_quiet c1 c2" "same_refs c1 c2" unfolding ct by blast
  have t2: "takes ?c a ?i c2" by (rule takes_same [OF c1(3) c2(3)])
  have v2: "fs_inv c2 S D" by (rule takes_inv [OF v1 c2(2) t2])
  from atime_quiet [OF fs_invD(1) [OF v2] takes_holds [OF t2], of now] obtain c3 where
    c3: "set_disk c2 a (\<lambda>d. d\<lparr>di_atime := now\<rparr>) = Some c3" "fs_quiet c2 c3" "same_refs c2 c3" by blast
  have t3: "takes ?c a ?i c3" by (rule takes_same [OF t2 c3(3)])
  have v3: "fs_inv c3 S D" by (rule takes_inv [OF v2 c3(2) t3])
  from put_takes [OF fs_invD(1) [OF v3] t3] obtain c4 where
    c4: "inode_put c3 a = Some c4" "fs_quiet c3 c4" "same_refs ?c c4" by blast
  have "unchanged ?c S D c4"
    by (rule unchangedI [OF v fs_quiet_trans [OF c1(2) fs_quiet_trans [OF c2(2) fs_quiet_trans [OF c3(2) c4(2)]]] c4(3)])
  moreover have "modernfs_read now fh sz offset ctx = Some
     (let data = take (unat sz) (drop (unat offset) (content ?c ?i)) in (c_int (of_nat (length data)), data),
      ctx\<lparr>fc_icache := c4, fc_read_count := fc_read_count ctx + 1\<rparr>)"
    using c1(1) c2(1) c3(1) c4(1) by (simp add: modernfs_read_def Let_def)
  ultimately show ?thesis by blast
qed

section \<open>Write\<close>

lemma sync_quiet:
  assumes wf: "iwf c" and h: "holds c a i"
  shows "\<exists>e c'. inode_sync c a = Some (e, c') \<and> fs_quiet c c' \<and> same_refs c c' \<and> (\<forall>k. table_ok c k \<longrightarrow> node_of c' k = node_of c k)"
proof -
  from held_node [OF wf h] obtain im where im: "ic_inodes c a = Some im" "im_valid im" by blast
  show ?thesis
  proof (cases "im_dirty im")
    case False
    then show ?thesis using im wf by (auto simp: inode_sync_def)
  next
    case True
    with evict_sync [OF wf im(1)] im(2) obtain e c' im' where
      c': "inode_sync c a = Some (e, c')" "iwf c'" "istatic c c'" "ic_inodes c' = (ic_inodes c)(a \<mapsto> im')" "ident im' = ident im"
        "im_ref_count im' = im_ref_count im" "\<forall>i. unat i < 2 ^ 25 \<longrightarrow> node_of c' i = node_of c i"
        "\<forall>b \<in> ic_pool c. ic_view c' b = ic_view c b" by auto
    have n: "node_of c' k = node_of c k" if "table_ok c k" for k using c'(7) that by (simp add: table_ok_def)
    have "same_refs c c'" by (rule same_refs_update [OF im(1) c'(4)]) (use c'(5,6) in \<open>simp_all add: ident_def\<close>)
    moreover have "fs_quiet c c'" using c'(2,3,8) n by (simp add: fs_quiet_def)
    ultimately show ?thesis using c'(1) n by blast
  qed
qed

text \<open>The only fields of the inode that a write changes.\<close>

definition grown :: "disk_inode \<Rightarrow> disk_inode \<Rightarrow> bool" where
  "grown d d' \<longleftrightarrow> d' = d\<lparr>di_direct := di_direct d', di_indirect := di_indirect d', di_double_indirect := di_double_indirect d',
     di_blocks := di_blocks d', di_size := di_size d', di_mtime := di_mtime d'\<rparr>"

lemma grownD:
  assumes "grown d d'"
  shows "di_type d' = di_type d" "di_padding d' = di_padding d" "di_mode d' = di_mode d" "di_uid d' = di_uid d"
    "di_gid d' = di_gid d" "di_nlink d' = di_nlink d"
  using assms by (cases d; cases d'; simp add: grown_def)+

lemma same_entryD:
  assumes "same_entry im im'"
  shows "im_inum im' = im_inum im" "im_valid im' = im_valid im" "im_prev im' = im_prev im" "im_next im' = im_next im"
    "im_hash_next im' = im_hash_next im" "im_ref_count im' = im_ref_count im" "grown (im_disk im) (im_disk im')"
    "\<not> im_dirty im' \<Longrightarrow> im' = im"
  using assms by (cases im; cases im'; auto simp: same_entry_def grown_def)+

definition stretched :: "inode_cache \<Rightarrow> inode_t set \<Rightarrow> (inode_t \<rightharpoonup> entry list) \<Rightarrow> inode_t \<Rightarrow> inode_cache \<Rightarrow> bool" where
  "stretched c S D i c' \<longleftrightarrow> fs_inv c' S D \<and> keeps c c' (S - {i}) \<and> ibits c' = ibits c \<and> ic_used c \<subseteq> ic_used c'"

lemma fs_tree_file:
  assumes T: "fs_tree c S D" and i: "i \<in> S" "D i = None" and ok: "ic_ok c'" and tab: "\<And>k. table_ok c' k = table_ok c k"
    and kp: "keeps c c' (S - {i})" and u: "ic_used c \<subseteq> ic_used c'"
    and ti: "tree_ok (node_of c' i) (ic_view c') (ic_used c')" "di_type (node_of c' i) = di_type (node_of c i)"
      "node_blocks c' i \<subseteq> node_blocks c i \<union> - ic_used c"
  shows "fs_tree c' S D"
proof -
  have sn: "same_node (node_of c k) (node_of c' k)" if "k \<in> S" "k \<noteq> i" for k using kp that by (simp add: keeps_def)
  note N = same_node_fields(1-2) [OF sn]
  have nd: "nodes (node_of c' k) (ic_view c') = nodes (node_of c k) (ic_view c)" if "k \<in> S" "k \<noteq> i" for k
    by (rule keeps_nodes [OF kp]) (use that in simp)
  have bk: "node_blocks c' k = node_blocks c k" if "k \<in> S" "k \<noteq> i" for k by (rule keeps_blocks [OF kp]) (use that in simp)
  have dj: "node_blocks c k \<inter> node_blocks c' i = {}" if "k \<in> S" "k \<noteq> i" for k
    using ti(3) fs_treeD(6) [OF T that(1) i(1) that(2)] tree_used [OF T that(1)] by auto
  have tk: "tree_ok (node_of c' k) (ic_view c') (ic_used c')" if "k \<in> S" for k
  proof (cases "k = i")
    case False
    have "length (di_direct (node_of c' k)) = 12"
      using same_node_shape [OF sn [OF that False]] tree_okD(1) [OF fs_treeD(5) [OF T that]] by (simp add: same_shape_def)
    then show ?thesis using fs_treeD(5) [OF T that] u nd [OF that False] ok by (auto simp: tree_ok_def ic_view_length)
  qed (use ti(1) in simp)
  have dk: "dir_node c' k es \<and> (\<forall>e \<in> set es. en_inum e \<noteq> 0 \<longrightarrow> en_inum e \<in> S)" if "k \<in> S" "D k = Some es" for k es
  proof -
    have ki: "k \<noteq> i" using that(2) i(2) by auto
    have d: "dir_node c k es" by (rule fs_treeD(3) [OF T that])
    have b: "nodes (node_of c k) (ic_view c) (NB 0) \<in> node_blocks c k"
      by (rule node_blocksI) (use d in \<open>simp add: dir_node_def\<close>)
    then have "ic_view c' (nodes (node_of c k) (ic_view c) (NB 0)) = ic_view c (nodes (node_of c k) (ic_view c) (NB 0))"
      using kp that(1) ki by (simp add: keeps_def)
    then show ?thesis
      using d tk [OF that(1)] nd [OF that(1) ki] N [OF that(1) ki] fs_treeD(7) [OF T that] by (simp add: dir_node_def del: nodes.simps)
  qed
  have dz: "di_type (node_of c' k) \<noteq> INODE_TYPE_DIR" if "k \<in> S" "D k = None" for k
    using fs_treeD(2) [OF T that] N(1) [OF that(1)] ti(2) by (cases "k = i") auto
  have di: "node_blocks c' j \<inter> node_blocks c' k = {}" if "j \<in> S" "k \<in> S" "j \<noteq> k" for j k
    using fs_treeD(6) [OF T that] bk [of j] bk [of k] dj [of j] dj [of k] that by (cases "j = i"; cases "k = i") auto
  show ?thesis unfolding fs_tree_def
  proof (intro conjI ballI impI)
    fix k assume k: "k \<in> S"
    show "table_ok c' k" using fs_treeD(1) [OF T k] tab by simp
    show "tree_ok (node_of c' k) (ic_view c') (ic_used c')" by (rule tk [OF k])
    show "case D k of None \<Rightarrow> di_type (node_of c' k) \<noteq> INODE_TYPE_DIR
      | Some es \<Rightarrow> dir_node c' k es \<and> (\<forall>e \<in> set es. en_inum e \<noteq> 0 \<longrightarrow> en_inum e \<in> S)"
      using dk [OF k] dz [OF k] by (simp split: option.split)
  qed (rule di)
qed

lemma write_nodes:
  assumes v: "fs_inv c S D" and i: "i \<in> S" and h: "holds c a i" and s: "file_step c a c'"
    and e: "ic_inodes c a = Some im" "ic_inodes c' = (ic_inodes c)(a \<mapsto> im')" "same_entry im im'"
  shows "iwf c'" "same_refs c c'" "node_of c' i = im_disk im'" "node_of c i = im_disk im" "keeps c c' (S - {i})"
    "node_blocks c' i \<subseteq> node_blocks c i \<union> - ic_used c"
proof -
  note V = fs_invD [OF v] and E = same_entryD [OF e(3)] and C = holds_content [OF fs_invD(1) [OF v] h]
  have F: "ic_ok c'" "ic_keep c c'" "tree_at c' a" "blocks_at c' a \<subseteq> blocks_at c a \<union> (ic_pool c - ic_used c)"
    "\<And>x. x \<notin> blocks_at c' a \<Longrightarrow> ic_view c' x = ic_view c x"
    using s by (auto simp: file_step_def)
  from held_entry [OF v h i] e(1) have im: "im_inum im = i" "im_valid im" "im_disk im = node_of c i" by auto
  then show "node_of c i = im_disk im" by simp
  have nb: "x \<in> ic_pool c" if "x \<in> blocks_at c' a" for x
    using that F(4) C(4) tree_used [OF V(3) i, of x] used_pool [of c] by auto
  have tv: "ic_view c' (inode_table_block c k) = ic_view c (inode_table_block c k)" if "table_ok c k" for k
    by (rule F(5)) (use nb that in \<open>auto simp: table_ok_def\<close>)
  have len: "length (di_direct (im_disk im')) = 12" using F(3) e(2) tree_okD(1) by (fastforce simp: tree_at_def)
  have wd: "disk_inode_wf (im_disk im) \<Longrightarrow> disk_inode_wf (im_disk im')"
    using grownD(2) [OF E(7)] len by (simp add: disk_inode_wf_def)
  have dr: "\<not> im_dirty im' \<Longrightarrow> im_disk im' = im_disk im \<and> \<not> im_dirty im" using E(8) by auto
  note U = iwf_update [OF V(1) F(1,2) e(1,2) E(1,2,3,4,5) wd dr tv]
  show wf: "iwf c'" by (rule U(1))
  then obtain ys where "ishape c' ys" by (auto simp: iwf_def)
  from node_of_cached [OF this, of a im'] show "node_of c' i = im_disk im'" using e(2) im(1,2) E(1,2) by simp
  show sr: "same_refs c c'" by (rule same_refs_update [OF e(1,2) E(1,2,6)])
  have bl: "blocks_at c' a = node_blocks c' i" by (rule holds_content(4) [OF wf holds_same [OF h sr]])
  then show "node_blocks c' i \<subseteq> node_blocks c i \<union> - ic_used c" using F(4) C(4) by auto
  show "keeps c c' (S - {i})" unfolding keeps_def
  proof (intro ballI conjI)
    fix k assume k: "k \<in> S - {i}"
    have "node_of c' k = node_of c k" by (rule U(2)) (use k im(1) fs_treeD(1) [OF V(3)] in auto)
    then show "same_node (node_of c k) (node_of c' k)" by simp
    fix x assume "x \<in> node_blocks c k"
    then show "ic_view c' x = ic_view c x"
      using F(4) C(4) k i fs_treeD(6) [OF V(3), of k i] tree_used [OF V(3), of k] by (intro F(5)) auto
  qed
qed

lemma write_tree:
  assumes v: "fs_inv c S D" and i: "i \<in> S" "D i = None" and h: "holds c a i" and s: "file_step c a c'"
    and e: "ic_inodes c a = Some im" "ic_inodes c' = (ic_inodes c)(a \<mapsto> im')" "same_entry im im'"
  shows "stretched c S D i c'"
proof -
  note V = fs_invD [OF v] and W = write_nodes [OF v i(1) h s e]
  have F: "ic_keep c c'" "tree_at c' a" "ic_used c \<subseteq> ic_used c'" using s by (auto simp: file_step_def)
  note K = ic_keep_fields [OF F(1)]
  have tb: "inode_table_block c' k = inode_table_block c k" "table_ok c' k = table_ok c k" for k
    using K by (simp_all add: inode_table_block_def table_ok_def)
  have ti: "tree_ok (node_of c' i) (ic_view c') (ic_used c')" using F(2) e(2) W(3) by (simp add: tree_at_def)
  have ty: "di_type (node_of c' i) = di_type (node_of c i)" using grownD(1) [OF same_entryD(7) [OF e(3)]] W(3,4) by simp
  have T: "fs_tree c' S D" by (rule fs_tree_file [OF V(3) i iwfD(1) [OF W(1)] tb(2) W(5) F(3) ti ty W(6)])
  have "ilayout c'" by (rule ilayout_cong [OF V(2)]) (simp_all add: K tb)
  moreover have "di_type (node_of c' k) \<noteq> INODE_TYPE_SYMLINK" if "k \<in> S" for k
    using W(5) V(4) ty that same_node_fields(1) [of "node_of c k" "node_of c' k"] by (cases "k = i") (auto simp: no_links_def keeps_def)
  then have "no_links c' S" by (simp add: no_links_def)
  ultimately have "fs_inv c' S D" using W(1) T same_refs_ok [OF W(2) V(5)] V(6-11) K by (simp add: fs_inv_def)
  then show ?thesis using W(5) F(3) K by (simp add: stretched_def)
qed

text \<open>
  The first \<open>m\<close> bytes of \<open>buf\<close> are in the file at \<open>off\<close>; bytes elsewhere, in blocks the file had, and the
  attributes are as before.
\<close>

definition same_attr :: "disk_inode \<Rightarrow> disk_inode \<Rightarrow> bool" where
  "same_attr d d' \<longleftrightarrow> di_type d' = di_type d \<and> di_mode d' = di_mode d \<and> di_uid d' = di_uid d \<and> di_gid d' = di_gid d \<and>
     di_nlink d' = di_nlink d"

definition file_written :: "inode_cache \<Rightarrow> inode_t \<Rightarrow> nat \<Rightarrow> byte list \<Rightarrow> nat \<Rightarrow> inode_cache \<Rightarrow> bool" where
  "file_written c i off buf m c' \<longleftrightarrow> same_attr (node_of c i) (node_of c' i) \<and>
     (\<forall>k < m. nbyte c' i (off + k) = buf ! k) \<and>
     (\<forall>k. (k < off \<or> off + m \<le> k) \<longrightarrow> nodes (node_of c i) (ic_view c) (NB (k div 4096)) \<noteq> 0 \<longrightarrow> nbyte c' i k = nbyte c i k)"

lemma same_attr_trans: "same_attr d e \<Longrightarrow> same_attr e f \<Longrightarrow> same_attr d f"
  by (simp add: same_attr_def)

lemma same_node_attr: "same_node d d' \<Longrightarrow> same_attr d d'"
  by (cases d; cases d') (simp add: same_node_def same_attr_def)

lemma written_after:
  assumes "file_written c i off buf m d" "same_attr (node_of d i) (node_of d' i)" "nbyte d' i = nbyte d i"
  shows "file_written c i off buf m d'"
  using assms same_attr_trans by (fastforce simp: file_written_def)

lemma written_before:
  assumes "file_written d i off buf m d'" "same_node (node_of c i) (node_of d i)" "nbyte d i = nbyte c i"
    "nodes (node_of d i) (ic_view d) = nodes (node_of c i) (ic_view c)"
  shows "file_written c i off buf m d'"
  using assms same_attr_trans [OF same_node_attr [OF assms(2)]] by (simp add: file_written_def)

lemma write_held:
  assumes v: "fs_inv c S D" and i: "i \<in> S" "D i = None" and h: "holds c a i"
    and mx: "unat offset + unat sz \<le> MAX_FILE" and len: "length buf = unat sz"
  shows "\<exists>r c'. inode_write jwrite now c a buf offset sz None = Some (r, c', None) \<and> stretched c S D i c' \<and> same_refs c c' \<and>
     (case r of
        Inr n \<Rightarrow> n = sz \<and> nsize c' i = max (nsize c i) (unat offset + unat sz) \<and> file_written c i (unat offset) buf (unat sz) c'
      | Inl e \<Rightarrow> e = MODERNFS_ENOSPC \<and> ic_pool c \<subseteq> ic_used c' \<and> nsize c' i = nsize c i \<and>
          (\<exists>j. unat offset \<le> j \<and> j < unat offset + unat sz \<and> nodes (node_of c i) (ic_view c) (NB (j div 4096)) = 0) \<and>
          (\<exists>m < unat sz. file_written c i (unat offset) buf m c'))"
proof -
  from held_entry [OF v h i(1)] have ta: "tree_at c a" by blast
  from inode_write_entry [OF iwfD(1) [OF fs_invD(1) [OF v]] ta mx len, of jwrite now] obtain r c' im im' where
    w: "inode_write jwrite now c a buf offset sz None = Some (r, c', None)" "file_step c a c'"
      "ic_inodes c a = Some im" "ic_inodes c' = (ic_inodes c)(a \<mapsto> im')" "same_entry im im'"
      "case r of
        Inr n \<Rightarrow> n = sz \<and> fsize c' a = max (fsize c a) (unat offset + unat sz) \<and> wrote c c' a buf (unat offset) 0 (unat sz)
      | Inl e \<Rightarrow> e = MODERNFS_ENOSPC \<and> ic_pool c \<subseteq> ic_used c' \<and> fsize c' a = fsize c a \<and>
          (\<exists>j. unat offset \<le> j \<and> j < unat offset + unat sz \<and> nodes_at c a (NB (j div 4096)) = 0) \<and>
          (\<exists>m < unat sz. wrote c c' a buf (unat offset) 0 m)" by blast
  note st = write_tree [OF v i h w(2-5)] and W = write_nodes [OF v i(1) h w(2-5)]
  note C = holds_content [OF fs_invD(1) [OF v] h] and C' = holds_content [OF W(1) holds_same [OF h W(2)]]
  have at: "same_attr (node_of c i) (node_of c' i)"
    using grownD [OF same_entryD(7) [OF w(5)]] W(3,4) by (simp add: same_attr_def)
  have wr: "file_written c i (unat offset) buf m c'" if "wrote c c' a buf (unat offset) 0 m" for m
  proof -
    have b: "nbyte c' i k = (if unat offset \<le> k \<and> k < unat offset + m then buf ! (k - unat offset) else base c c' a k)" for k
      using that unfolding wrote_def C'(1) by simp
    have "base c c' a k = nbyte c i k" if "nodes (node_of c i) (ic_view c) (NB (k div 4096)) \<noteq> 0" for k
    proof -
      have "nodes_at c' a (NB (k div 4096)) = nodes_at c a (NB (k div 4096))" using w(2) that unfolding file_step_def C(5) by blast
      then show ?thesis using that unfolding base_def nbyte_def C(5) by simp
    qed
    then show ?thesis using at b by (auto simp: file_written_def)
  qed
  show ?thesis
  proof (cases r)
    case (Inl e)
    then show ?thesis using w(1,6) st W(2) wr C(2) C'(2) unfolding C(5) by auto
  next
    case (Inr n)
    then show ?thesis using w(1,6) st W(2) wr C(2) C'(2) by auto
  qed
qed

lemma stretched_trans: "stretched c S D i d \<Longrightarrow> stretched d S D i e \<Longrightarrow> stretched c S D i e"
  using keeps_trans [of c d "S - {i}" e "S - {i}"] by (auto simp: stretched_def)

lemma stretched_quiet: "fs_inv c S D \<Longrightarrow> fs_quiet c c' \<Longrightarrow> fs_inv c' S D \<Longrightarrow> stretched c S D i c'"
  using keeps_subset [OF keeps_quiet [OF fs_invD(3)], of c S D c' "S - {i}"] same_alloc_quiet [of c c']
  by (auto simp: stretched_def same_alloc_def)

lemma quiet_written:
  assumes "fs_inv d S D" "i \<in> S" "file_written c i off buf m d" "fs_quiet d d'"
  shows "file_written c i off buf m d'" "nsize d' i = nsize d i"
proof -
  have sn: "same_node (node_of d i) (node_of d' i)"
    using assms(4) fs_treeD(1) [OF fs_invD(3) [OF assms(1)] assms(2)] by (simp add: fs_quiet_def)
  show "file_written c i off buf m d'"
    by (rule written_after [OF assms(3) same_node_attr [OF sn] quiet_content(1) [OF fs_invD(3) [OF assms(1)] assms(4,2)]])
  show "nsize d' i = nsize d i" using same_node_fields(2) [OF sn] by (simp add: nsize_def)
qed

lemma stamp_held:
  assumes v: "fs_inv c S D" and i: "i \<in> S" and h: "holds c a i" and w: "file_written c0 i off buf m c"
  shows "\<exists>c'. set_disk c a (\<lambda>d. d\<lparr>di_mtime := now, di_ctime := now\<rparr>) = Some c' \<and> stretched c S D i c' \<and> same_refs c c' \<and>
     file_written c0 i off buf m c' \<and> nsize c' i = nsize c i"
proof -
  define g where "g = (\<lambda>im :: inode_mem. im\<lparr>im_disk := (im_disk im)\<lparr>di_mtime := now, di_ctime := now\<rparr>, im_dirty := True\<rparr>)"
  have g: "meta g" by (simp add: meta_def same_shape_def g_def)
  from touch_inv [OF v i h g] obtain c' and im :: inode_mem where
    c': "im_modify c a g = Some c'" "fs_inv c' S D" "same_refs c c'" "keeps c c' (S - {i})" "node_of c i = im_disk im"
      "node_of c' i = im_disk (g im)" "ic_view c' = ic_view c" "same_alloc c c'" by blast
  have "same_shape (node_of c i) (node_of c' i)" using c'(5,6) by (simp add: same_shape_def g_def)
  note F = same_shape_fields [OF this]
  have "nbyte c' i = nbyte c i" unfolding fun_eq_iff nbyte_def F c'(7) by blast
  moreover have "same_attr (node_of c i) (node_of c' i)" using c'(5,6) by (simp add: same_attr_def g_def)
  ultimately have "file_written c0 i off buf m c'" using written_after [OF w] by blast
  moreover have "stretched c S D i c'" using c'(2,4,8) by (simp add: stretched_def same_alloc_def)
  ultimately show ?thesis using c'(1,3) F(2) by (simp add: set_disk_def g_def nsize_def)
qed

text \<open>What \<open>modernfs_write\<close> returns and leaves, without a journal.\<close>

definition write_outcome ::
  "inode_cache \<Rightarrow> inode_t set \<Rightarrow> (inode_t \<rightharpoonup> entry list) \<Rightarrow> inode_t \<Rightarrow> nat \<Rightarrow> byte list \<Rightarrow> int \<Rightarrow> inode_cache \<Rightarrow> bool" where
  "write_outcome c S D i off buf ret c' \<longleftrightarrow> stretched c S D i c' \<and> same_refs c c' \<and>
     (if 0 \<le> ret then ret = int (length buf) \<and> nsize c' i = max (nsize c i) (off + length buf) \<and> file_written c i off buf (length buf) c'
      else ret = MODERNFS_ENOSPC \<and> ic_pool c \<subseteq> ic_used c' \<and> nsize c' i = nsize c i \<and>
        (\<exists>j. off \<le> j \<and> j < off + length buf \<and> nodes (node_of c i) (ic_view c) (NB (j div 4096)) = 0) \<and>
        (\<exists>m < length buf. file_written c i off buf m c'))"

lemma small_int:
  assumes "unat n < 2 ^ 31"
  shows "c_int n = int (unat n)"
proof -
  have "uint n = int (unat n)" by simp
  moreover have "unat n < 2147483648" using assms by simp
  ultimately have n: "uint n < 2147483648" by linarith
  have u: "uint (ucast n :: u32) = uint n" unfolding unsigned_ucast_eq by (rule take_bit_int_eq_self) (use n in simp_all)
  have "c_int n = signed_take_bit 31 (uint (ucast n :: u32))" by (simp add: c_int_def sint_uint)
  also have "\<dots> = uint n" unfolding u by (rule signed_take_bit_int_eq_self) (use n order_trans [OF _ uint_ge_0 [of n], of "- 2147483648"] in simp_all)
  finally show ?thesis by simp
qed

lemma write_spec:
  assumes v: "fs_inv (fc_icache ctx) S D" and id: "idle (fc_icache ctx)" and i: "ucast fh \<in> S" "D (ucast fh) = None"
    and mx: "unat offset + unat sz \<le> MAX_FILE" and len: "length buf = unat sz" "unat sz < 2 ^ 31"
    and ro: "\<not> fc_read_only ctx" and j: "fc_journal ctx = None"
  shows "\<exists>ret c'. modernfs_write now fh buf sz offset ctx = Some (ret, ctx\<lparr>fc_icache := c',
       fc_write_count := (if 0 \<le> ret then fc_write_count ctx + 1 else fc_write_count ctx)\<rparr>) \<and>
     write_outcome (fc_icache ctx) S D (ucast fh) (unat offset) buf ret c'"
proof -
  let ?c = "fc_icache ctx" and ?i = "ucast fh :: inode_t" and ?o = "unat offset"
  note V = fs_invD [OF v]
  from get_takes [OF V(1,5) fs_treeD(1) [OF V(3) i(1)] id] obtain a c1 where
    c1: "inode_get ?c ?i = Some (Some a, c1)" "fs_quiet ?c c1" "takes ?c a ?i c1" by blast
  have v1: "fs_inv c1 S D" by (rule takes_inv [OF v c1(2,3)])
  have b1: "same_node (node_of ?c ?i) (node_of c1 ?i)" "nbyte c1 ?i = nbyte ?c ?i"
    "nodes (node_of c1 ?i) (ic_view c1) = nodes (node_of ?c ?i) (ic_view ?c)" "nsize c1 ?i = nsize ?c ?i"
  proof -
    show sn: "same_node (node_of ?c ?i) (node_of c1 ?i)" using c1(2) fs_treeD(1) [OF V(3) i(1)] by (simp add: fs_quiet_def)
    show "nbyte c1 ?i = nbyte ?c ?i" by (rule quiet_content(1) [OF V(3) c1(2) i(1)])
    show "nodes (node_of c1 ?i) (ic_view c1) = nodes (node_of ?c ?i) (ic_view ?c)"
      by (rule keeps_nodes [OF keeps_quiet [OF V(3) c1(2)] i(1)])
    show "nsize c1 ?i = nsize ?c ?i" using same_node_fields(2) [OF sn] by (simp add: nsize_def)
  qed
  note before = written_before [OF _ b1(1-3)]
  from write_held [OF v1 i takes_holds [OF c1(3)] mx len(1), of rust_journal_write now] obtain r c2 where
    c2: "inode_write rust_journal_write now c1 a buf offset sz None = Some (r, c2, None)" "stretched c1 S D ?i c2" "same_refs c1 c2"
      "case r of
        Inr n \<Rightarrow> n = sz \<and> nsize c2 ?i = max (nsize c1 ?i) (?o + unat sz) \<and> file_written c1 ?i ?o buf (unat sz) c2
      | Inl e \<Rightarrow> e = MODERNFS_ENOSPC \<and> ic_pool c1 \<subseteq> ic_used c2 \<and> nsize c2 ?i = nsize c1 ?i \<and>
          (\<exists>j. ?o \<le> j \<and> j < ?o + unat sz \<and> nodes (node_of c1 ?i) (ic_view c1) (NB (j div 4096)) = 0) \<and>
          (\<exists>m < unat sz. file_written c1 ?i ?o buf m c2)" by blast
  have t2: "takes ?c a ?i c2" by (rule takes_same [OF c1(3) c2(3)])
  have v2: "fs_inv c2 S D" using c2(2) by (simp add: stretched_def)
  have s2: "stretched ?c S D ?i c2" by (rule stretched_trans [OF stretched_quiet [OF v c1(2) v1] c2(2)])
  have put: "\<exists>c'. inode_put d a = Some c' \<and> fs_quiet d c' \<and> same_refs ?c c' \<and> stretched ?c S D ?i c'"
    if "fs_inv d S D" "stretched ?c S D ?i d" "takes ?c a ?i d" for d
  proof -
    from put_takes [OF fs_invD(1) [OF that(1)] that(3)] obtain c' where
      c': "inode_put d a = Some c'" "fs_quiet d c'" "same_refs ?c c'" by blast
    have "fs_inv c' S D" by (rule fs_inv_quiet [OF that(1) c'(2) same_refs_ok [OF c'(3) V(5)]])
    then show ?thesis using c' stretched_trans [OF that(2) stretched_quiet [OF that(1) c'(2)]] by blast
  qed
  show ?thesis
  proof (cases r)
    case (Inl e)
    from c2(4) Inl obtain m j where
      e: "e = MODERNFS_ENOSPC" "ic_pool c1 \<subseteq> ic_used c2" "nsize c2 ?i = nsize c1 ?i" "m < unat sz" "file_written c1 ?i ?o buf m c2"
        "?o \<le> j" "j < ?o + unat sz" "nodes (node_of c1 ?i) (ic_view c1) (NB (j div 4096)) = 0" by auto
    from put [OF v2 s2 t2] obtain c3 where c3: "inode_put c2 a = Some c3" "fs_quiet c2 c3" "same_refs ?c c3" "stretched ?c S D ?i c3" by blast
    note Q = quiet_written [OF v2 i(1) before [OF e(5)] c3(2)]
    have "ic_pool ?c \<subseteq> ic_used c3" using e(2) c1(2) c3(2) istatic_views(2) [of ?c c1] istatic_views(4) [of c2 c3] by (simp add: fs_quiet_def)
    then have "write_outcome ?c S D ?i ?o buf e c3"
      using c3(3,4) Q e(1,3,4,6-8) b1(3,4) len(1) by (auto simp: write_outcome_def simp del: nodes.simps)
    moreover have "modernfs_write now fh buf sz offset ctx = Some (e, ctx\<lparr>fc_icache := c3, fc_write_count := fc_write_count ctx\<rparr>)"
      using ro j c1(1) c2(1) Inl c3(1) by (simp add: modernfs_write_def)
    ultimately show ?thesis using e(1) by (intro exI [of _ e] exI [of _ c3]) simp
  next
    case (Inr n)
    then have n: "n = sz" "nsize c2 ?i = max (nsize c1 ?i) (?o + unat sz)" "file_written c1 ?i ?o buf (unat sz) c2" using c2(4) by auto
    from stamp_held [OF v2 i(1) takes_holds [OF t2] before [OF n(3)], of now] obtain c3 where
      c3: "set_disk c2 a (\<lambda>d. d\<lparr>di_mtime := now, di_ctime := now\<rparr>) = Some c3" "stretched c2 S D ?i c3" "same_refs c2 c3"
        "file_written ?c ?i ?o buf (unat sz) c3" "nsize c3 ?i = nsize c2 ?i" by blast
    have t3: "takes ?c a ?i c3" by (rule takes_same [OF t2 c3(3)])
    have v3: "fs_inv c3 S D" using c3(2) by (simp add: stretched_def)
    from sync_quiet [OF fs_invD(1) [OF v3] takes_holds [OF t3]] obtain e c4 where
      c4: "inode_sync c3 a = Some (e, c4)" "fs_quiet c3 c4" "same_refs c3 c4" by blast
    have t4: "takes ?c a ?i c4" by (rule takes_same [OF t3 c4(3)])
    have v4: "fs_inv c4 S D" by (rule takes_inv [OF v3 c4(2) t4])
    have s4: "stretched ?c S D ?i c4" by (rule stretched_trans [OF stretched_trans [OF s2 c3(2)] stretched_quiet [OF v3 c4(2) v4]])
    from put [OF v4 s4 t4] obtain c5 where c5: "inode_put c4 a = Some c5" "fs_quiet c4 c5" "same_refs ?c c5" "stretched ?c S D ?i c5" by blast
    note Q4 = quiet_written [OF v3 i(1) c3(4) c4(2)]
    note Q5 = quiet_written [OF v4 i(1) Q4(1) c5(2)]
    have "write_outcome ?c S D ?i ?o buf (c_int sz) c5"
      using c5(3,4) Q4(2) Q5 c3(5) n(2) b1(4) len small_int [of sz] by (simp add: write_outcome_def)
    moreover have "modernfs_write now fh buf sz offset ctx = Some (c_int sz, ctx\<lparr>fc_icache := c5, fc_write_count := fc_write_count ctx + 1\<rparr>)"
      using ro j c1(1) c2(1) Inr n(1) c3(1) c4(1) c5(1) by (simp add: modernfs_write_def)
    ultimately show ?thesis using small_int [OF len(2)] by (intro exI [of _ "c_int sz"] exI [of _ c5]) simp
  qed
qed

end
