(* ===== verification/Fs_File_Properties.thy ===== *)
theory Fs_File_Properties
  imports Fs_Files Fs_Instances
begin

text \<open>
  The properties of reading and writing through a handle on a mount without a journal: \<open>content c i\<close> are the
  bytes of file \<open>i\<close>, \<open>unchanged\<close> says that nothing but access times changed, \<open>stretched\<close> that only file \<open>i\<close> did.
\<close>

lemma toy_content: "nsize toy_fs 3 = 3" "content toy_fs 3 = [0, 0, 0]"
proof -
  show n: "nsize toy_fs 3 = 3" by (simp add: nsize_def toy_node)
  have "nbyte toy_fs 3 k = 0" if "k < 3" for k
    using that by (simp add: nbyte_def toy_node toy_view)
  moreover have "[0..<3] = [0, 1, 2 :: nat]" by (simp add: upt_rec)
  ultimately show "content toy_fs 3 = [0, 0, 0]" by (simp add: content_def n)
qed

text \<open>C8: \<open>modernfs_read\<close> returns the requested range of the file's bytes, cut at its end, with their number; it
  changes no file, and keeps no reference.\<close>
theorem modernfs_read_correct:
  assumes "fs_inv (fc_icache ctx) S D" "idle (fc_icache ctx)" "ucast fh \<in> S" "nsize (fc_icache ctx) (ucast fh) \<le> MAX_FILE"
    and "unat offset + unat sz < 2 ^ 64"
  shows "\<exists>c'. modernfs_read now fh sz offset ctx = Some
     (let data = take (unat sz) (drop (unat offset) (content (fc_icache ctx) (ucast fh))) in (c_int (of_nat (length data)), data),
      ctx\<lparr>fc_icache := c', fc_read_count := fc_read_count ctx + 1\<rparr>) \<and> unchanged (fc_icache ctx) S D c'"
  by (rule read_spec [OF assms])

theorem modernfs_read_correct_witness:
  "\<exists>c'. modernfs_read 5 3 10 1 toy_ctx = Some ((2, [0, 0]), toy_ctx\<lparr>fc_icache := c', fc_read_count := fc_read_count toy_ctx + 1\<rparr>)"
  using modernfs_read_correct [of toy_ctx "{1, 2, 3}" toy_dirs 3 1 10 5, unfolded toy_ctx, OF toy_inv(1,3)]
  by (auto simp: toy_content c_int_def)


lemma toy_mapped: "write_outcome toy_fs {1, 2, 3} toy_dirs 3 1 [9, 8] ret c' \<Longrightarrow> ret = 2"
proof -
  assume w: "write_outcome toy_fs {1, 2, 3} toy_dirs 3 1 [9, 8] ret c'"
  have "nodes (node_of toy_fs 3) (ic_view toy_fs) (NB (j div 4096)) \<noteq> 0" if "1 \<le> j" "j < 1 + length [9, 8 :: byte]" for j
    using that by (simp add: toy_node del: nodes.simps)
  then have "0 \<le> ret" using w unfolding write_outcome_def by (auto split: if_splits)
  then show ?thesis using w by (simp add: write_outcome_def)
qed


text \<open>What \<open>modernfs_write\<close> stored, \<open>modernfs_read\<close> returns, and no other file changes.\<close>
theorem modernfs_write_read:
  assumes "fs_inv (fc_icache ctx) S D" "idle (fc_icache ctx)" "ucast fh \<in> S" "D (ucast fh) = None"
    and "unat offset + unat sz \<le> MAX_FILE" "length buf = unat sz" "unat sz < 2 ^ 31" "nsize (fc_icache ctx) (ucast fh) \<le> MAX_FILE"
    and "\<not> fc_read_only ctx" "fc_journal ctx = None"
    and "modernfs_write now fh buf sz offset ctx = Some (ret, ctx1)" "0 \<le> ret"
  shows "\<exists>ctx2. modernfs_read later fh sz offset ctx1 = Some ((ret, buf), ctx2) \<and>
     (\<forall>k \<in> S - {ucast fh}. content (fc_icache ctx2) k = content (fc_icache ctx) k)"
proof -
  let ?c = "fc_icache ctx" and ?i = "ucast fh :: inode_t" and ?o = "unat offset"
  from write_spec [OF assms(1-7,9,10), of now] assms(11,12) have
    w: "write_outcome ?c S D ?i ?o buf ret (fc_icache ctx1)" by auto
  then have c1: "fs_inv (fc_icache ctx1) S D" "keeps ?c (fc_icache ctx1) (S - {?i})" "same_refs ?c (fc_icache ctx1)" "ret = int (length buf)"
    "nsize (fc_icache ctx1) ?i = max (nsize ?c ?i) (?o + length buf)" "file_written ?c ?i ?o buf (length buf) (fc_icache ctx1)"
    using assms(12) by (simp_all add: write_outcome_def stretched_def)
  have mx: "nsize (fc_icache ctx1) ?i \<le> MAX_FILE" "?o + unat sz < 2 ^ 64" using c1(5) assms(5,6,8) by auto
  have id: "idle (fc_icache ctx1)" using idle_same [OF c1(3)] assms(2) by simp
  have data: "take (unat sz) (drop ?o (content (fc_icache ctx1) ?i)) = buf"
    using c1(5,6) assms(6) by (intro nth_equalityI) (auto simp: content_def file_written_def)
  from read_spec [OF c1(1) id assms(3) mx, of later] obtain c2 where
    c2: "modernfs_read later fh sz offset ctx1 =
        Some ((c_int (of_nat (length buf)), buf), ctx1\<lparr>fc_icache := c2, fc_read_count := fc_read_count ctx1 + 1\<rparr>)"
      "unchanged (fc_icache ctx1) S D c2" unfolding data Let_def by blast
  have "content c2 k = content ?c k" if "k \<in> S - {?i}" for k
    using keeps_content(2) [OF c1(2) that] keeps_content(2) [of "fc_icache ctx1" c2 S k] c2(2) that by (simp add: unchanged_def)
  moreover have "c_int (of_nat (length buf)) = ret"
    using c1(4) assms(6) small_int [OF assms(7)] by simp
  ultimately show ?thesis using c2(1) by auto
qed

theorem modernfs_write_read_witness:
  "\<exists>ctx1 ctx2. modernfs_write 5 3 [9, 8] 2 1 toy_ctx = Some (2, ctx1) \<and> modernfs_read 6 3 2 1 ctx1 = Some ((2, [9, 8]), ctx2)"
proof -
  from write_spec [of toy_ctx "{1, 2, 3}" toy_dirs 3 1 2 "[9, 8]" 5, unfolded toy_ctx, OF toy_inv(1,3)] obtain ret ctx1 c' where
    w: "modernfs_write 5 3 [9, 8] 2 1 toy_ctx = Some (ret, ctx1)" "write_outcome toy_fs {1, 2, 3} toy_dirs 3 1 [9, 8] ret c'"
    by (auto simp: toy_ctx_def)
  have r: "ret = 2" by (rule toy_mapped [OF w(2)])
  have "fc_journal toy_ctx = None" by (simp add: toy_ctx_def)
  with modernfs_write_read [of toy_ctx "{1, 2, 3}" toy_dirs 3 1 2 "[9, 8]" 5 ret ctx1 6, unfolded toy_ctx, OF toy_inv(1,3)] w(1) r
  show ?thesis by (auto simp: toy_content)
qed

end
