(* ===== verification/Fs_Runs.thy ===== *)
theory Fs_Runs
  imports Fs_Files Fs_Create
begin

text \<open>
  Sequences of callbacks.  Each callback takes a mounted file system in which the invariant holds, with two free cache
  entries, to another one; so the invariant holds in every state that calls within their stated limits can reach, and
  in each of these every such call returns.  The limits of a write include that the mount has no journal.
\<close>

section \<open>One callback\<close>

definition ready :: "fs_context \<Rightarrow> inode_t set \<Rightarrow> (inode_t \<rightharpoonup> entry list) \<Rightarrow> bool" where
  "ready ctx S D \<longleftrightarrow> fs_inv (fc_icache ctx) S D \<and> idle2 (fc_icache ctx) \<and> fc_root_inum ctx \<in> S \<and> D (fc_root_inum ctx) \<noteq> None \<and>
     \<not> fc_read_only ctx"

lemma readyD:
  assumes "ready ctx S D"
  shows "fs_inv (fc_icache ctx) S D" "idle2 (fc_icache ctx)" "idle (fc_icache ctx)" "fc_root_inum ctx \<in> S"
    "D (fc_root_inum ctx) \<noteq> None" "\<not> fc_read_only ctx"
  using assms idle2_idle by (auto simp: ready_def)

lemma idle2_same: "same_refs c c' \<Longrightarrow> idle2 c' = idle2 c"
  by (simp add: idle2_def same_refs_def)

text \<open>What a callback leaves of the context beside the cache and the counters.\<close>

definition same_mount :: "fs_context \<Rightarrow> fs_context \<Rightarrow> bool" where
  "same_mount ctx ctx' \<longleftrightarrow> fc_root_inum ctx' = fc_root_inum ctx \<and> fc_read_only ctx' = fc_read_only ctx \<and>
     fc_journal ctx' = fc_journal ctx"

lemma ready_unchanged:
  "ready ctx S D \<Longrightarrow> unchanged (fc_icache ctx) S D (fc_icache ctx') \<Longrightarrow> same_mount ctx ctx' \<Longrightarrow> ready ctx' S D"
  using idle2_same by (auto simp: ready_def unchanged_def same_mount_def)

lemma ready_updated:
  "ready ctx S D \<Longrightarrow> updated (fc_icache ctx) S D j f (fc_icache ctx') \<Longrightarrow> same_mount ctx ctx' \<Longrightarrow> ready ctx' S D"
  using idle2_same by (auto simp: ready_def updated_def same_mount_def)

lemma ready_written:
  "ready ctx S D \<Longrightarrow> write_outcome (fc_icache ctx) S D i off buf r (fc_icache ctx') \<Longrightarrow> same_mount ctx ctx' \<Longrightarrow> ready ctx' S D"
  using idle2_same by (auto simp: ready_def write_outcome_def stretched_def same_mount_def)

lemma ready_created:
  assumes "ready ctx S D" "created (fc_icache ctx) S D i name j (fc_icache ctx')" "same_mount ctx ctx'"
  shows "\<exists>S' D'. ready ctx' S' D'"
proof -
  from assms(2) obtain es where
    "fs_inv (fc_icache ctx') (insert j S) (D(j := None, i \<mapsto> es))" "same_refs (fc_icache ctx) (fc_icache ctx')" "j \<notin> S"
    by (auto simp: created_def)
  then have "ready ctx' (insert j S) (D(j := None, i \<mapsto> es))"
    using assms(1,3) idle2_same by (auto simp: ready_def same_mount_def)
  then show ?thesis by blast
qed

lemma ready_removed:
  assumes "ready ctx S D" "removed (fc_icache ctx) S D i name j (fc_icache ctx')" "same_mount ctx ctx'" "j \<noteq> fc_root_inum ctx"
  shows "\<exists>S' D'. ready ctx' S' D'"
proof -
  from assms(2) obtain es where
    "fs_inv (fc_icache ctx') (S - {j}) (D(i \<mapsto> es))" "same_refs (fc_icache ctx) (fc_icache ctx')"
    by (auto simp: removed_def)
  then have "ready ctx' (S - {j}) (D(i \<mapsto> es))"
    using assms(1,3,4) idle2_same by (auto simp: ready_def same_mount_def)
  then show ?thesis by blast
qed

text \<open>
  The interface of a callback, towards libfuse: within the limits \<open>guard\<close> it returns, and leaves the file system
  ready for the next one.
\<close>

locale callback =
  fixes call :: "fs_context \<Rightarrow> ('r \<times> fs_context) option"
    and guard :: "fs_context \<Rightarrow> inode_t set \<Rightarrow> (inode_t \<rightharpoonup> entry list) \<Rightarrow> bool"
  assumes serves: "ready ctx S D \<Longrightarrow> guard ctx S D \<Longrightarrow> \<exists>r ctx' S' D'. call ctx = Some (r, ctx') \<and> ready ctx' S' D'"
begin

lemma keeps_ready:
  assumes "ready ctx S D" "guard ctx S D" "call ctx = Some (r, ctx')"
  shows "\<exists>S' D'. ready ctx' S' D'"
  using serves [OF assms(1,2)] assms(3) by auto

lemma returns:
  assumes "ready ctx S D" "guard ctx S D"
  shows "\<exists>r ctx'. call ctx = Some (r, ctx')"
  using serves [OF assms] by blast

lemma context_after:
  assumes "ready ctx S D" "guard ctx S D"
  shows "\<exists>ctx' S' D'. map_option snd (call ctx) = Some ctx' \<and> ready ctx' S' D'"
  using serves [OF assms] by auto

end

abbreviation no_nul :: "string \<Rightarrow> bool" where
  "no_nul p \<equiv> CHR 0x00 \<notin> set p"

lemma serve_cache:
  assumes "ready ctx S D" "unchanged (fc_icache ctx) S D c'" "res = Some (r, ctx\<lparr>fc_icache := c'\<rparr>)"
  shows "\<exists>r ctx' S' D'. res = Some (r, ctx') \<and> ready ctx' S' D'"
  using ready_unchanged [OF assms(1), of "ctx\<lparr>fc_icache := c'\<rparr>"] assms(2,3) by (auto simp: same_mount_def)

interpretation getattr_cb: callback "modernfs_getattr now p" "\<lambda>_ _ _. no_nul p"
proof
  fix ctx S D assume r: "ready ctx S D" and p: "no_nul p"
  from getattr_spec [OF readyD(1,3,4) [OF r] p, of now]
  show "\<exists>r ctx' S' D'. modernfs_getattr now p ctx = Some (r, ctx') \<and> ready ctx' S' D'" by (blast intro: serve_cache [OF r])
qed

interpretation readdir_cb: callback "modernfs_readdir now p filler s" "\<lambda>_ _ _. no_nul p"
proof
  fix ctx S D assume r: "ready ctx S D" and p: "no_nul p"
  from readdir_spec [OF readyD(1,3,4) [OF r] p, of now filler s]
  show "\<exists>r ctx' S' D'. modernfs_readdir now p filler s ctx = Some (r, ctx') \<and> ready ctx' S' D'" by (blast intro: serve_cache [OF r])
qed

interpretation open_cb: callback "modernfs_open now p fh" "\<lambda>_ _ _. no_nul p"
proof
  fix ctx S D assume r: "ready ctx S D" and p: "no_nul p"
  from open_spec [OF readyD(1,3,4) [OF r] p, of now fh]
  show "\<exists>r ctx' S' D'. modernfs_open now p fh ctx = Some (r, ctx') \<and> ready ctx' S' D'" by (blast intro: serve_cache [OF r])
qed

definition read_guard :: "u64 \<Rightarrow> u64 \<Rightarrow> u64 \<Rightarrow> fs_context \<Rightarrow> inode_t set \<Rightarrow> (inode_t \<rightharpoonup> entry list) \<Rightarrow> bool" where
  "read_guard fh sz offset ctx S D \<longleftrightarrow> ucast fh \<in> S \<and> nsize (fc_icache ctx) (ucast fh) \<le> MAX_FILE \<and> unat offset + unat sz < 2 ^ 64"

interpretation read_cb: callback "modernfs_read now fh sz offset" "read_guard fh sz offset"
proof
  fix ctx S D assume r: "ready ctx S D" and g: "read_guard fh sz offset ctx S D"
  from read_spec [OF readyD(1,3) [OF r], of fh offset sz now] g obtain d c' where
    "modernfs_read now fh sz offset ctx = Some (d, ctx\<lparr>fc_icache := c', fc_read_count := fc_read_count ctx + 1\<rparr>)"
    "unchanged (fc_icache ctx) S D c'" by (auto simp: read_guard_def)
  then show "\<exists>r ctx' S' D'. modernfs_read now fh sz offset ctx = Some (r, ctx') \<and> ready ctx' S' D'"
    using ready_unchanged [OF r, of "ctx\<lparr>fc_icache := c', fc_read_count := fc_read_count ctx + 1\<rparr>"] by (auto simp: same_mount_def)
qed

definition write_guard :: "u64 \<Rightarrow> byte list \<Rightarrow> u64 \<Rightarrow> u64 \<Rightarrow> fs_context \<Rightarrow> inode_t set \<Rightarrow> (inode_t \<rightharpoonup> entry list) \<Rightarrow> bool" where
  "write_guard fh buf sz offset ctx S D \<longleftrightarrow> fc_journal ctx = None \<and> ucast fh \<in> S \<and> D (ucast fh) = None \<and> unat offset + unat sz \<le> MAX_FILE \<and>
     length buf = unat sz \<and> unat sz < 2 ^ 31"

interpretation write_cb: callback "modernfs_write now fh buf sz offset" "write_guard fh buf sz offset"
proof
  fix ctx S D assume r: "ready ctx S D" and g: "write_guard fh buf sz offset ctx S D"
  from g have G: "ucast fh \<in> S" "D (ucast fh) = None" "unat offset + unat sz \<le> MAX_FILE" "length buf = unat sz" "unat sz < 2 ^ 31"
    and j: "fc_journal ctx = None" by (simp_all add: write_guard_def)
  from write_spec [OF readyD(1,3) [OF r] G readyD(6) [OF r] j, of now] obtain ret c' where
    w: "modernfs_write now fh buf sz offset ctx = Some (ret, ctx\<lparr>fc_icache := c',
       fc_write_count := (if 0 \<le> ret then fc_write_count ctx + 1 else fc_write_count ctx)\<rparr>)"
      "write_outcome (fc_icache ctx) S D (ucast fh) (unat offset) buf ret c'" by (elim exE conjE) (rule that)
  then show "\<exists>r ctx' S' D'. modernfs_write now fh buf sz offset ctx = Some (r, ctx') \<and> ready ctx' S' D'"
    using ready_written [OF r, of "ucast fh" "unat offset" buf ret "ctx\<lparr>fc_icache := c',
       fc_write_count := (if 0 \<le> ret then fc_write_count ctx + 1 else fc_write_count ctx)\<rparr>"]
    by (auto simp: same_mount_def split del: if_split)
qed

lemma serve_update:
  assumes "ready ctx S D" "no_nul p" "\<And>d. same_shape d (f d) \<and> di_padding (f d) = di_padding d"
  shows "\<exists>r ctx' S' D'. update_inode now p f ctx = Some (r, ctx') \<and> ready ctx' S' D'"
proof -
  note R = readyD [OF assms(1)]
  from update_inode_spec [OF R(1,3,4) assms(2) R(6), of f now] assms(3) obtain ret c' where
    u: "update_inode now p f ctx = Some (ret, ctx\<lparr>fc_icache := c'\<rparr>)"
      "case follow D (fc_root_inum ctx) (components_of p) of
        None \<Rightarrow> ret = - ENOENT \<and> unchanged (fc_icache ctx) S D c'
      | Some j \<Rightarrow> ret = 0 \<and> updated (fc_icache ctx) S D j f c'" by blast
  have "same_mount ctx (ctx\<lparr>fc_icache := c'\<rparr>)" by (simp add: same_mount_def)
  then have "ready (ctx\<lparr>fc_icache := c'\<rparr>) S D"
    using u(2) ready_unchanged [OF assms(1), of "ctx\<lparr>fc_icache := c'\<rparr>"] ready_updated [OF assms(1), of _ f "ctx\<lparr>fc_icache := c'\<rparr>"]
    by (auto split: option.splits)
  then show ?thesis using u(1) by blast
qed

interpretation chmod_cb: callback "modernfs_chmod now p mode" "\<lambda>_ _ _. no_nul p"
  by unfold_locales (unfold modernfs_chmod_def, rule serve_update, assumption+, simp add: same_shape_def)

interpretation chown_cb: callback "modernfs_chown now p uid gid" "\<lambda>_ _ _. no_nul p"
  by unfold_locales (unfold modernfs_chown_def, rule serve_update, assumption+, simp add: same_shape_def)

interpretation utimens_cb: callback "modernfs_utimens now p tv" "\<lambda>_ _ _. no_nul p"
  by unfold_locales (unfold modernfs_utimens_def, rule serve_update, assumption+, simp add: same_shape_def split: option.split)

definition create_guard :: "string \<Rightarrow> fs_context \<Rightarrow> inode_t set \<Rightarrow> (inode_t \<rightharpoonup> entry list) \<Rightarrow> bool" where
  "create_guard p ctx S D \<longleftrightarrow> no_nul p \<and> (\<forall>i. found_parent D (fc_root_inum ctx) p = Some i \<longrightarrow> fits (the (D i)) (path_basename p))"

interpretation create_cb: callback "modernfs_create now uid gid p mode fh" "create_guard p"
proof
  fix ctx S D assume r: "ready ctx S D" and g: "create_guard p ctx S D"
  note R = readyD [OF r]
  have p: "no_nul p" and fit: "\<And>i. found_parent D (fc_root_inum ctx) p = Some i \<Longrightarrow> fits (the (D i)) (path_basename p)"
    using g by (auto simp: create_guard_def)
  note C = create_spec [OF R(1,2,4) p R(6), of now uid gid mode fh]
  obtain ret h c' where c: "modernfs_create now uid gid p mode fh ctx = Some ((ret, h), ctx\<lparr>fc_icache := c'\<rparr>)"
      "unchanged (fc_icache ctx) S D c' \<or> (\<exists>i j. created (fc_icache ctx) S D i (path_basename p) j c')"
  proof (cases "found_parent D (fc_root_inum ctx) p")
    case None
    with C fit that show thesis by auto
  next
    case (Some i)
    with C fit obtain ret h c' where "modernfs_create now uid gid p mode fh ctx = Some ((ret, h), ctx\<lparr>fc_icache := c'\<rparr>)"
      "if dmap (the (D i)) (path_basename p) \<noteq> None then ret = - EEXIST \<and> unchanged (fc_icache ctx) S D c'
       else if \<forall>k < itotal (fc_icache ctx). ibits (fc_icache ctx) k then ret = - ENOSPC \<and> unchanged (fc_icache ctx) S D c'
       else ret = 0 \<and> (\<exists>j. h = ucast j \<and> created (fc_icache ctx) S D i (path_basename p) j c' \<and>
         same_node ((new_node now INODE_TYPE_FILE)\<lparr>di_mode := ucast (mode AND 0x1FF), di_nlink := 1,
                di_uid := ucast uid, di_gid := ucast gid\<rparr>) (node_of c' j))" by auto
    then show thesis by (intro that) (auto split: if_splits)
  qed
  from c(2) show "\<exists>r ctx' S' D'. modernfs_create now uid gid p mode fh ctx = Some (r, ctx') \<and> ready ctx' S' D'"
  proof
    assume "unchanged (fc_icache ctx) S D c'"
    then show ?thesis using c(1) by (rule serve_cache [OF r])
  next
    assume "\<exists>i j. created (fc_icache ctx) S D i (path_basename p) j c'"
    then have "\<exists>S' D'. ready (ctx\<lparr>fc_icache := c'\<rparr>) S' D'"
      using ready_created [OF r, of _ _ _ "ctx\<lparr>fc_icache := c'\<rparr>"] by (auto simp: same_mount_def)
    then show ?thesis using c(1) by blast
  qed
qed

definition unlink_guard :: "string \<Rightarrow> fs_context \<Rightarrow> inode_t set \<Rightarrow> (inode_t \<rightharpoonup> entry list) \<Rightarrow> bool" where
  "unlink_guard p ctx S D \<longleftrightarrow> no_nul p \<and>
     (\<forall>i j. found_name D (fc_root_inum ctx) p = Some (i, j) \<longrightarrow> nsize (fc_icache ctx) j \<le> 49152)"

interpretation unlink_cb: callback "modernfs_unlink now p" "unlink_guard p"
proof
  fix ctx S D assume r: "ready ctx S D" and g: "unlink_guard p ctx S D"
  note R = readyD [OF r]
  have p: "no_nul p" using g by (simp add: unlink_guard_def)
  have sz: "unat (di_size (node_of (fc_icache ctx) j)) \<le> 49152" if "found_name D (fc_root_inum ctx) p = Some (i, j)" for i j
    using g that by (simp add: unlink_guard_def nsize_def)
  from unlink_spec [OF R(1,2,4) p R(6) sz, where now = now] obtain ret c' where
    c: "modernfs_unlink now p ctx = Some (ret, ctx\<lparr>fc_icache := c'\<rparr>)"
      "unchanged (fc_icache ctx) S D c' \<or>
       (\<exists>i j. D j = None \<and> removed (fc_icache ctx) S D i (path_basename p) j c')"
    by (fastforce split: option.splits if_splits)
  from c(2) show "\<exists>r ctx' S' D'. modernfs_unlink now p ctx = Some (r, ctx') \<and> ready ctx' S' D'"
  proof
    assume "unchanged (fc_icache ctx) S D c'"
    then show ?thesis using c(1) by (rule serve_cache [OF r])
  next
    have nr: "j \<noteq> fc_root_inum ctx" if "D j = None" for j using R(5) that by auto
    assume "\<exists>i j. D j = None \<and> removed (fc_icache ctx) S D i (path_basename p) j c'"
    then have "\<exists>S' D'. ready (ctx\<lparr>fc_icache := c'\<rparr>) S' D'"
      using ready_removed [OF r, of _ _ _ "ctx\<lparr>fc_icache := c'\<rparr>"] nr by (auto simp: same_mount_def)
    then show ?thesis using c(1) by blast
  qed
qed

definition rmdir_guard :: "string \<Rightarrow> fs_context \<Rightarrow> inode_t set \<Rightarrow> (inode_t \<rightharpoonup> entry list) \<Rightarrow> bool" where
  "rmdir_guard p ctx S D \<longleftrightarrow> no_nul p \<and>
     (\<forall>i j. found_name D (fc_root_inum ctx) p = Some (i, j) \<longrightarrow> D j \<noteq> None \<longrightarrow>
        j \<noteq> fc_root_inum ctx \<and> i \<noteq> j \<and> links D j i \<le> 1 \<and> (\<forall>k \<in> S - {i, j}. links D j k = 0))"

interpretation rmdir_cb: callback "modernfs_rmdir now p" "rmdir_guard p"
proof
  fix ctx S D assume r: "ready ctx S D" and g: "rmdir_guard p ctx S D"
  note R = readyD [OF r]
  have p: "no_nul p" using g by (simp add: rmdir_guard_def)
  have sole: "i \<noteq> j \<and> links D j i \<le> 1 \<and> (\<forall>k \<in> S - {i, j}. links D j k = 0)"
    if "found_name D (fc_root_inum ctx) p = Some (i, j)" "D j \<noteq> None" for i j
    using g that by (simp add: rmdir_guard_def)
  from rmdir_spec [OF R(1,2,4) p R(6) sole, where now = now] obtain ret c' where
    c: "modernfs_rmdir now p ctx = Some (ret, ctx\<lparr>fc_icache := c'\<rparr>)"
      "unchanged (fc_icache ctx) S D c' \<or>
       (\<exists>i j. found_name D (fc_root_inum ctx) p = Some (i, j) \<and> D j \<noteq> None \<and> removed (fc_icache ctx) S D i (path_basename p) j c')"
    by (fastforce split: option.splits if_splits)
  from c(2) show "\<exists>r ctx' S' D'. modernfs_rmdir now p ctx = Some (r, ctx') \<and> ready ctx' S' D'"
  proof
    assume "unchanged (fc_icache ctx) S D c'"
    then show ?thesis using c(1) by (rule serve_cache [OF r])
  next
    assume "\<exists>i j. found_name D (fc_root_inum ctx) p = Some (i, j) \<and> D j \<noteq> None \<and>
      removed (fc_icache ctx) S D i (path_basename p) j c'"
    then have "\<exists>S' D'. ready (ctx\<lparr>fc_icache := c'\<rparr>) S' D'"
      using ready_removed [OF r, of _ _ _ "ctx\<lparr>fc_icache := c'\<rparr>"] g by (auto simp: same_mount_def rmdir_guard_def)
    then show ?thesis using c(1) by blast
  qed
qed

section \<open>Sequences of callbacks\<close>

datatype fs_call = Getattr string | Readdir string | Open string | Read u64 u64 u64 | Write u64 "byte list" u64 |
  Create string u32 u32 u32 | Unlink string | Rmdir string | Chmod string u32 | Chown string u32 u32 |
  Utimens string "(u64 \<times> u64) option"

text \<open>The context a call leaves; directories are listed into a list of names.\<close>

fun fs_exec :: "u64 \<Rightarrow> fs_call \<Rightarrow> fs_context \<Rightarrow> fs_context option" where
  "fs_exec now (Getattr p) ctx = map_option snd (modernfs_getattr now p ctx)"
| "fs_exec now (Readdir p) ctx = map_option snd (modernfs_readdir now p (\<lambda>name _ _ ns. (0, ns @ [name])) [] ctx)"
| "fs_exec now (Open p) ctx = map_option snd (modernfs_open now p 0 ctx)"
| "fs_exec now (Read fh sz offset) ctx = map_option snd (modernfs_read now fh sz offset ctx)"
| "fs_exec now (Write fh buf offset) ctx = map_option snd (modernfs_write now fh buf (of_nat (length buf)) offset ctx)"
| "fs_exec now (Create p mode uid gid) ctx = map_option snd (modernfs_create now uid gid p mode 0 ctx)"
| "fs_exec now (Unlink p) ctx = map_option snd (modernfs_unlink now p ctx)"
| "fs_exec now (Rmdir p) ctx = map_option snd (modernfs_rmdir now p ctx)"
| "fs_exec now (Chmod p mode) ctx = map_option snd (modernfs_chmod now p mode ctx)"
| "fs_exec now (Chown p uid gid) ctx = map_option snd (modernfs_chown now p uid gid ctx)"
| "fs_exec now (Utimens p tv) ctx = map_option snd (modernfs_utimens now p tv ctx)"

fun within_limits :: "fs_call \<Rightarrow> fs_context \<Rightarrow> inode_t set \<Rightarrow> (inode_t \<rightharpoonup> entry list) \<Rightarrow> bool" where
  "within_limits (Read fh sz offset) ctx S D = read_guard fh sz offset ctx S D"
| "within_limits (Write fh buf offset) ctx S D = (length buf < 2 ^ 31 \<and> write_guard fh buf (of_nat (length buf)) offset ctx S D)"
| "within_limits (Create p mode uid gid) ctx S D = create_guard p ctx S D"
| "within_limits (Unlink p) ctx S D = unlink_guard p ctx S D"
| "within_limits (Rmdir p) ctx S D = rmdir_guard p ctx S D"
| "within_limits (Getattr p) ctx S D = no_nul p"
| "within_limits (Readdir p) ctx S D = no_nul p"
| "within_limits (Open p) ctx S D = no_nul p"
| "within_limits (Chmod p mode) ctx S D = no_nul p"
| "within_limits (Chown p uid gid) ctx S D = no_nul p"
| "within_limits (Utimens p tv) ctx S D = no_nul p"

lemmas callbacks = getattr_cb.context_after readdir_cb.context_after open_cb.context_after read_cb.context_after write_cb.context_after create_cb.context_after
  unlink_cb.context_after rmdir_cb.context_after chmod_cb.context_after chown_cb.context_after utimens_cb.context_after

lemma exec_serves:
  assumes "ready ctx S D" "within_limits call ctx S D"
  shows "\<exists>ctx' S' D'. fs_exec now call ctx = Some ctx' \<and> ready ctx' S' D'"
  using assms by (cases call) (simp_all only: fs_exec.simps within_limits.simps, (blast intro: callbacks)+)

text \<open>
  What calls can reach.  Within the limits means within them for the tree of directories the state has, of which there
  is only one.
\<close>

inductive fs_reaches :: "fs_context \<Rightarrow> fs_context \<Rightarrow> bool" for ctx0 where
  start: "fs_reaches ctx0 ctx0"
| call: "fs_reaches ctx0 ctx \<Longrightarrow> (\<And>S D. ready ctx S D \<Longrightarrow> within_limits call ctx S D) \<Longrightarrow> fs_exec now call ctx = Some ctx' \<Longrightarrow>
    fs_reaches ctx0 ctx'"

lemma reaches_ready:
  assumes "fs_reaches ctx0 ctx" "ready ctx0 S0 D0"
  shows "\<exists>S D. ready ctx S D"
  using assms
proof (induction rule: fs_reaches.induct)
  case (call ctx c now ctx')
  then obtain S D where "ready ctx S D" by blast
  with exec_serves [OF this call.hyps(2) [OF this], of now] call.hyps(3) show ?case by auto
qed blast

lemma on_icache_root: "on_icache ctx f = Some (r, ctx') \<Longrightarrow> fc_root_inum ctx' = fc_root_inum ctx"
  by (auto simp: on_icache_def split: bind_splits)

lemma read_write_root:
  "modernfs_read now fh sz offset ctx = Some (r, ctx') \<Longrightarrow> fc_root_inum ctx' = fc_root_inum ctx"
  "modernfs_write now fh buf sz offset ctx = Some (q, ctx') \<Longrightarrow> fc_root_inum ctx' = fc_root_inum ctx"
  by (auto simp: modernfs_read_def modernfs_write_def Let_def split: bind_splits if_splits option.splits sum.splits prod.splits)

lemma exec_root: "fs_exec now c ctx = Some ctx' \<Longrightarrow> fc_root_inum ctx' = fc_root_inum ctx"
  by (cases c)
    (auto simp: modernfs_getattr_def modernfs_readdir_def modernfs_open_def modernfs_create_def modernfs_unlink_def
      modernfs_rmdir_def modernfs_chmod_def modernfs_chown_def modernfs_utimens_def update_inode_def
      dest: on_icache_root read_write_root split: if_splits)

lemma reaches_root: "fs_reaches ctx0 ctx \<Longrightarrow> fc_root_inum ctx = fc_root_inum ctx0"
  by (induction rule: fs_reaches.induct) (auto dest: exec_root)

end
