(* ===== verification/Fs_Run_Properties.thy ===== *)
theory Fs_Run_Properties
  imports Fs_Runs Fs_Properties
begin

text \<open>
  The properties of sequences of callbacks.  A cache determines the tree of directories it holds, so the limits
  stated for that tree are limits on the state.
\<close>

section \<open>The tree a cache holds\<close>






section \<open>Runs\<close>







end
