(* ===== verification/Mkfs_Run.thy ===== *)
theory Mkfs_Run
  imports Mkfs_Spec Superblock_Spec
begin

text \<open>
  A whole run of \<open>mkfs\<close> on a disk without bad blocks: every step succeeds, and the image holds the superblock, an empty
  journal, the two bitmaps, the inode table with the root inode, and the root directory.
\<close>

section \<open>Writing without faults\<close>

definition calm :: "block_device \<Rightarrow> bool" where
  "calm dev \<longleftrightarrow> dev_ok dev \<and> (\<forall>b. \<not> dk_read_bad (bd_disk dev) b \<and> \<not> dk_write_bad (bd_disk dev) b) \<and> \<not> dk_fsync_bad (bd_disk dev)"

lemma calmD:
  assumes "calm dev"
  shows "dev_ok dev" "\<not> dk_read_bad (bd_disk dev) b" "\<not> dk_write_bad (bd_disk dev) b" "\<not> dk_fsync_bad (bd_disk dev)" "syncable dev"
  using assms by (auto simp: calm_def syncable_def split: option.split)

lemma calm_static: "calm dev \<Longrightarrow> dev_static dev dev' \<Longrightarrow> dev_ok dev' \<Longrightarrow> calm dev'"
  by (simp add: calm_def dev_static_def)

lemma calm_write:
  assumes "calm dev" "ucast b < bd_total_blocks dev" "length data = BLOCK_SIZE"
  shows "\<exists>dev'. blkdev_write dev b data = Some (0, dev') \<and> calm dev' \<and> dev_static dev dev' \<and>
     dev_view dev' = (dev_view dev)(b := data)"
proof -
  have "writable dev b" using calmD(3) [OF assms(1)] by (simp add: writable_def)
  with blkdev_write_spec [OF calmD(1) [OF assms(1)] assms(2,3)] show ?thesis using calm_static [OF assms(1)] by auto
qed

fun run_view :: "(block_t \<Rightarrow> byte list) \<Rightarrow> block_t \<Rightarrow> byte list \<Rightarrow> byte list \<Rightarrow> u32 list \<Rightarrow> block_t \<Rightarrow> byte list" where
  "run_view v s buf rest [] = v"
| "run_view v s buf rest (i # is) = run_view (v(s + i := buf)) s rest rest is"

lemma write_run_spec:
  assumes "calm dev" "\<And>i. i \<in> set js \<Longrightarrow> ucast (s + i) < bd_total_blocks dev" "length buf = BLOCK_SIZE" "length rest = BLOCK_SIZE"
  shows "\<exists>dev'. write_run dev s buf rest js = Some (0, dev') \<and> calm dev' \<and> dev_static dev dev' \<and>
     dev_view dev' = run_view (dev_view dev) s buf rest js"
  using assms
proof (induction js arbitrary: dev buf)
  case (Cons i js)
  from calm_write [OF Cons.prems(1) _ Cons.prems(3), of "s + i"] Cons.prems(2) obtain d where
    d: "blkdev_write dev (s + i) buf = Some (0, d)" "calm d" "dev_static dev d" "dev_view d = (dev_view dev)(s + i := buf)" by auto
  have "bd_total_blocks d = bd_total_blocks dev" using d(3) by (simp add: dev_static_def)
  with Cons.IH [OF d(2) _ Cons.prems(4,4)] Cons.prems(2) obtain dev' where
    "write_run d s rest rest js = Some (0, dev')" "calm dev'" "dev_static d dev'" "dev_view dev' = run_view (dev_view d) s rest rest js"
    by auto
  then show ?case using d(1,3,4) dev_static_trans by auto
qed simp

lemma run_view_same: "run_view v s r r is b = (if \<exists>i \<in> set is. b = s + i then r else v b)"
  by (induction "is" arbitrary: v) auto

text \<open>The blocks from \<open>s\<close> on, \<open>n\<close> of them.\<close>

definition in_run :: "block_t \<Rightarrow> nat \<Rightarrow> block_t \<Rightarrow> bool" where
  "in_run s n b \<longleftrightarrow> unat s \<le> unat b \<and> unat b < unat s + n"

lemma in_run_iff:
  assumes "unat s + n \<le> 2 ^ 32"
  shows "in_run s n b \<longleftrightarrow> (\<exists>j < n. b = s + of_nat j)"
proof
  assume b: "in_run s n b"
  then have "unat (s + of_nat (unat b - unat s)) = unat b"
    using assms by (simp add: in_run_def unat_word_ariths unat_of_nat)
  then have "b = s + of_nat (unat b - unat s)" by (simp add: word_unat_eq_iff)
  then show "\<exists>j < n. b = s + of_nat j" using b by (intro exI [of _ "unat b - unat s"]) (auto simp: in_run_def)
next
  assume "\<exists>j < n. b = s + of_nat j"
  then show "in_run s n b" using assms by (auto simp: in_run_def unat_word_ariths unat_of_nat)
qed

lemma set_upto32: "set (upto32 n) = of_nat ` {..<unat n}"
  by (auto simp: upto32_def)

lemma run_view_upto:
  assumes "unat s + unat n \<le> 2 ^ 32"
  shows "run_view v s buf rest (upto32 n) b = (if in_run s (unat n) b then if b = s then buf else rest else v b)"
proof (cases "unat n")
  case 0
  then show ?thesis by (auto simp: upto32_def in_run_def)
next
  case (Suc m)
  have r: "in_run s (unat n) b \<longleftrightarrow> (\<exists>j < unat n. b = s + of_nat j)" by (rule in_run_iff [OF assms])
  have u: "upto32 n = 0 # map of_nat [1..<Suc m]" unfolding upto32_def Suc by (subst upt_conv_Cons) simp_all
  have "unat (of_nat j :: u32) = j" if "j < Suc m" for j using that Suc assms by (simp add: unat_of_nat)
  then have z: "1 \<le> j \<Longrightarrow> j < Suc m \<Longrightarrow> (of_nat j :: u32) \<noteq> 0" for j by (metis not_one_le_zero unat_0)
  have "run_view v s buf rest (upto32 n) b = (if \<exists>j. 1 \<le> j \<and> j < Suc m \<and> b = s + of_nat j then rest else if b = s then buf else v b)"
  proof -
    have "(\<exists>i \<in> set (map of_nat [1..<Suc m]). b = s + i) \<longleftrightarrow> (\<exists>j. 1 \<le> j \<and> j < Suc m \<and> b = s + of_nat j)"
      unfolding set_map set_upt by (auto simp: Bex_def)
    then show ?thesis unfolding u by (simp only: run_view.simps run_view_same add_0_right fun_upd_apply)
  qed
  also have "\<dots> = (if \<exists>j < unat n. b = s + of_nat j then if b = s then buf else rest else v b)"
  proof (cases "b = s")
    case True
    then have "\<not> (\<exists>j. 1 \<le> j \<and> j < Suc m \<and> b = s + of_nat j)" using z by auto
    then show ?thesis using True Suc by (auto intro!: exI [of _ 0])
  next
    case False
    have eq: "(\<exists>j. 1 \<le> j \<and> j < Suc m \<and> b = s + of_nat j) \<longleftrightarrow> (\<exists>j < unat n. b = s + of_nat j)"
    proof
      assume "\<exists>j < unat n. b = s + of_nat j"
      then obtain j where j: "j < Suc m" "b = s + of_nat j" using Suc by auto
      moreover from j(2) False have "1 \<le> j" by (cases j) auto
      ultimately show "\<exists>j. 1 \<le> j \<and> j < Suc m \<and> b = s + of_nat j" by (intro exI [of _ j]) simp
    qed (use Suc in auto)
    show ?thesis unfolding eq using False by auto
  qed
  finally show ?thesis using r by simp
qed

lemma run_bound:
  assumes "unat s + unat n \<le> unat t" "unat t < 2 ^ 32" "i \<in> set (upto32 n)"
  shows "ucast (s + i) < (t :: u64)"
proof -
  from assms(3) obtain j where "j < unat n" "i = of_nat j" by (auto simp: set_upto32)
  then have "unat (s + i) = unat s + j" using assms(1,2) by (simp add: unat_word_ariths unat_of_nat)
  then show ?thesis using \<open>j < unat n\<close> assms(1) by (simp add: word_less_nat_alt)
qed

section \<open>The image\<close>

lemma length_journal_header [simp]: "length (journal_header n) = BLOCK_SIZE"
  by (simp add: journal_header_def)

definition root_block :: "u64 \<Rightarrow> superblock \<Rightarrow> byte list" where
  "root_block now sb = splice INODE_SIZE (encode_disk_inode (root_inode now sb)) zero_block_bytes"

lemma root_inode_wf [simp]: "disk_inode_wf (root_inode now sb)"
  by (simp add: disk_inode_wf_def root_inode_def zero_disk_inode_def)

lemma length_root_block [simp]: "length (root_block now sb) = BLOCK_SIZE"
  by (simp add: root_block_def length_splice length_encode_disk_inode)

text \<open>What a mount reads of a fresh image.\<close>

definition formatted :: "u64 \<Rightarrow> superblock \<Rightarrow> (block_t \<Rightarrow> byte list) \<Rightarrow> bool" where
  "formatted now sb v \<longleftrightarrow> v 0 = sb_block sb \<and> v (sb_journal_start sb) = journal_header (sb_journal_blocks sb) \<and>
     v (sb_inode_bitmap_start sb) = 0x03 # replicate 4095 0 \<and>
     (\<forall>j < unat (sb_data_bitmap_blocks sb).
        v (sb_data_bitmap_start sb + of_nat j) = (if j = 0 then 0x01 # replicate 4095 0 else zero_block_bytes)) \<and>
     v (sb_inode_table_start sb) = root_block now sb \<and>
     entries_from (v (sb_data_start sb)) BLOCK_SIZE 0 (dot_records 1 dot_size)"

text \<open>Where the regions are, as natural numbers.\<close>

definition regions :: "superblock \<Rightarrow> bool" where
  "regions sb \<longleftrightarrow> tiles sb \<and> 2 \<le> unat (sb_journal_blocks sb) \<and> unat (sb_inode_bitmap_blocks sb) = 1 \<and>
     1 \<le> unat (sb_data_bitmap_blocks sb) \<and> 1 \<le> unat (sb_inode_table_blocks sb) \<and> 1 \<le> unat (sb_data_blocks sb)"

lemma regions_init:
  assumes "268 \<le> unat t" "unat t + 32768 \<le> 2 ^ 32"
  shows "regions (superblock_init t m w)"
proof -
  let ?sb = "superblock_init t m w"
  from superblock_init_numbers [OF assms refl, of m w] obtain N K D where
    n: "unat (sb_inode_bitmap_blocks ?sb) = 1" "unat (sb_data_bitmap_blocks ?sb) = K" "unat (sb_inode_table_blocks ?sb) = N"
      "unat (sb_data_blocks ?sb) = D" "1 \<le> K" "0 < D" "N = (unat (init_total_inodes t) + 31) div 32" by blast
  have "sb_journal_blocks ?sb = init_journal_blocks t" by (simp add: superblock_init_def Let_def)
  then have "2 \<le> unat (sb_journal_blocks ?sb)" using init_journal_blocks_bounds(1) [of t] by simp
  moreover have "1 \<le> N" using init_total_inodes_bounds(1) [of t] n(7) by linarith
  ultimately show ?thesis using n(1-6) superblock_init_tiles [OF assms, of m w] by (simp add: regions_def)
qed

text \<open>The view after each step.\<close>

definition mkfs_view :: "u64 \<Rightarrow> superblock \<Rightarrow> byte list \<Rightarrow> block_t \<Rightarrow> byte list" where
  "mkfs_view now sb root b =
     (if b = sb_data_start sb then root
      else if b = sb_inode_table_start sb then root_block now sb
      else if b = sb_data_bitmap_start sb then 0x01 # replicate 4095 0
      else if b = sb_inode_bitmap_start sb then 0x03 # replicate 4095 0
      else if b = sb_journal_start sb then journal_header (sb_journal_blocks sb)
      else if b = 0 then sb_block sb else zero_block_bytes)"

lemma mkfs_view_formatted:
  assumes r: "regions sb" and e: "entries_from root BLOCK_SIZE 0 (dot_records 1 dot_size)"
  shows "formatted now sb (mkfs_view now sb root)"
proof -
  note T = r [unfolded regions_def tiles_def]
  have b: "unat (sb_data_start sb) + unat (sb_data_blocks sb) < 2 ^ 32" using T unsigned_less [of "sb_total_blocks sb", where ?'a = nat] by simp
  have "mkfs_view now sb root (sb_data_bitmap_start sb + of_nat j) = zero_block_bytes" if j: "0 < j" "j < unat (sb_data_bitmap_blocks sb)" for j
  proof -
    have "unat (sb_data_bitmap_start sb + of_nat j) = unat (sb_data_bitmap_start sb) + j"
      using T b j by (simp add: unat_word_ariths unat_of_nat)
    then show ?thesis using T j by (auto simp: mkfs_view_def word_unat_eq_iff)
  qed
  moreover have "sb_journal_start sb \<noteq> 0" using T by auto
  ultimately show ?thesis
    unfolding formatted_def using T e by (auto simp: mkfs_view_def word_unat_eq_iff)
qed

section \<open>The steps\<close>

definition covers :: "block_device \<Rightarrow> superblock \<Rightarrow> bool" where
  "covers dev sb \<longleftrightarrow> unat (bd_total_blocks dev) = unat (sb_total_blocks sb)"

lemma covers_bound:
  fixes b :: block_t
  assumes "covers dev sb" "unat b < unat (sb_total_blocks sb)"
  shows "ucast b < bd_total_blocks dev"
  using assms by (simp add: covers_def word_less_nat_alt)

lemma covers_static: "covers dev sb \<Longrightarrow> dev_static dev dev' \<Longrightarrow> covers dev' sb"
  by (simp add: covers_def dev_static_def)

text \<open>A region of zeros gets its first block; writing zeros over the rest changes nothing.\<close>

definition blank_run :: "block_device \<Rightarrow> block_t \<Rightarrow> u32 \<Rightarrow> bool" where
  "blank_run dev s n \<longleftrightarrow> (\<forall>b. in_run s (unat n) b \<longrightarrow> dev_view dev b = zero_block_bytes)"

definition stepped :: "block_device \<Rightarrow> superblock \<Rightarrow> block_t \<Rightarrow> byte list \<Rightarrow> block_device \<Rightarrow> bool" where
  "stepped dev sb s buf dev' \<longleftrightarrow> calm dev' \<and> covers dev' sb \<and> dev_static dev dev' \<and> dev_view dev' = (dev_view dev)(s := buf)"

lemma write_region:
  assumes c: "calm dev" "covers dev sb" and n: "1 \<le> unat n" "unat s + unat n \<le> unat (sb_total_blocks sb)"
    and b: "blank_run dev s n" and len: "length buf = BLOCK_SIZE"
  shows "\<exists>dev'. write_run dev s buf zero_block_bytes (upto32 n) = Some (0, dev') \<and> stepped dev sb s buf dev'"
proof -
  have T: "unat (sb_total_blocks sb) < 2 ^ 32" using unsigned_less [of "sb_total_blocks sb", where ?'a = nat] by simp
  have bd: "ucast (s + i) < bd_total_blocks dev" if "i \<in> set (upto32 n)" for i
    by (rule run_bound [OF _ _ that]) (use c(2) n(2) T in \<open>simp_all add: covers_def\<close>)
  from write_run_spec [OF c(1) bd len, where rest = zero_block_bytes] obtain dev' where
    d: "write_run dev s buf zero_block_bytes (upto32 n) = Some (0, dev')" "calm dev'" "dev_static dev dev'"
      "dev_view dev' = run_view (dev_view dev) s buf zero_block_bytes (upto32 n)" by auto
  have "dev_view dev' x = ((dev_view dev)(s := buf)) x" for x
    using run_view_upto [of s n "dev_view dev" buf zero_block_bytes x] n T b d(4) by (auto simp: blank_run_def in_run_def)
  then have "dev_view dev' = (dev_view dev)(s := buf)" by (rule ext)
  then show ?thesis using d covers_static [OF c(2) d(3)] by (auto simp: stepped_def)
qed

lemma init_journal_spec:
  assumes c: "calm dev" "covers dev sb" and r: "regions sb" and b: "blank_run dev (sb_journal_start sb) (sb_journal_blocks sb)"
  shows "\<exists>dev'. init_journal dev sb = Some (0, dev') \<and>
     stepped dev sb (sb_journal_start sb) (journal_header (sb_journal_blocks sb)) dev'"
proof -
  let ?s = "sb_journal_start sb" and ?n = "sb_journal_blocks sb"
  note R = r [unfolded regions_def tiles_def]
  have T: "unat (sb_total_blocks sb) < 2 ^ 32" using unsigned_less [of "sb_total_blocks sb", where ?'a = nat] by simp
  have n: "unat ?s + unat ?n \<le> unat (sb_total_blocks sb)" using R by linarith
  have s: "unat ?s < unat (sb_total_blocks sb)" using R by linarith
  from calm_write [OF c(1) covers_bound [OF c(2) s], of "journal_header ?n"] obtain d1 where
    d1: "blkdev_write dev ?s (journal_header ?n) = Some (0, d1)" "calm d1" "dev_static dev d1"
      "dev_view d1 = (dev_view dev)(?s := journal_header ?n)" by auto
  have c1: "covers d1 sb" by (rule covers_static [OF c(2) d1(3)])
  have bd: "ucast (?s + i) < bd_total_blocks d1" if "i \<in> set (filter ((\<le>) 1) (upto32 ?n))" for i
    by (rule run_bound [of _ ?n]) (use that c1 n T in \<open>simp_all add: covers_def\<close>)
  from write_run_spec [where s = ?s and js = "filter ((\<le>) 1) (upto32 ?n)" and buf = zero_block_bytes and rest = zero_block_bytes, OF d1(2) bd] obtain d2 where
    d2: "write_run d1 ?s zero_block_bytes zero_block_bytes (filter ((\<le>) 1) (upto32 ?n)) = Some (0, d2)" "calm d2" "dev_static d1 d2"
      "dev_view d2 = run_view (dev_view d1) ?s zero_block_bytes zero_block_bytes (filter ((\<le>) 1) (upto32 ?n))" by auto
  have "dev_view d2 x = ((dev_view dev)(?s := journal_header ?n)) x" for x
  proof (cases "\<exists>i \<in> set (filter ((\<le>) 1) (upto32 ?n)). x = ?s + i")
    case True
    then obtain i where i: "1 \<le> i" "i \<in> set (upto32 ?n)" "x = ?s + i" by auto
    then have "\<exists>j < unat ?n. x = ?s + of_nat j" by (auto simp: set_upto32)
    then have "in_run ?s (unat ?n) x" using in_run_iff [of ?s "unat ?n" x] n T by simp
    then have "dev_view dev x = zero_block_bytes" using b by (simp add: blank_run_def)
    moreover have "x \<noteq> ?s" using i(1,3) by auto
    ultimately show ?thesis using True d2(4) by (simp add: run_view_same)
  next
    case False
    then show ?thesis using d2(4) d1(4) by (simp add: run_view_same)
  qed
  then have "dev_view d2 = (dev_view dev)(?s := journal_header ?n)" by (rule ext)
  moreover have "init_journal dev sb = Some (0, d2)" using d1(1) d2(1) by (simp add: init_journal_def)
  ultimately show ?thesis
    using d2(2) covers_static [OF c1 d2(3)] dev_static_trans [OF d1(3) d2(3)] by (auto simp: stepped_def)
qed

lemma init_inode_table_spec:
  assumes c: "calm dev" "covers dev sb" and r: "regions sb" and b: "blank_run dev (sb_inode_table_start sb) (sb_inode_table_blocks sb)"
  shows "\<exists>dev'. init_inode_table False now dev sb = Some (0, dev') \<and> stepped dev sb (sb_inode_table_start sb) (root_block now sb) dev'"
proof -
  let ?s = "sb_inode_table_start sb" and ?n = "sb_inode_table_blocks sb"
  note R = r [unfolded regions_def tiles_def]
  have n: "1 \<le> unat ?n" "unat ?s + unat ?n \<le> unat (sb_total_blocks sb)" using R by linarith+
  from write_region [OF c n b, of zero_block_bytes] obtain d1 where
    d1: "write_run dev ?s zero_block_bytes zero_block_bytes (upto32 ?n) = Some (0, d1)" "stepped dev sb ?s zero_block_bytes d1" by auto
  have c1: "calm d1" "covers d1 sb" using d1(2) by (simp_all add: stepped_def)
  have "unat ?s < unat (sb_total_blocks sb)" using n by linarith
  from calm_write [OF c1(1) covers_bound [OF c1(2) this], of "root_block now sb"] obtain d2 where
    d2: "blkdev_write d1 ?s (root_block now sb) = Some (0, d2)" "calm d2" "dev_static d1 d2"
      "dev_view d2 = (dev_view d1)(?s := root_block now sb)" by auto
  have "buf_write zero_block_bytes INODE_SIZE (encode_disk_inode (root_inode now sb)) = Some (root_block now sb)"
    by (simp add: buf_write_def root_block_def length_encode_disk_inode)
  then have "init_inode_table False now dev sb = Some (0, d2)" using d1(1) d2(1) by (simp add: init_inode_table_def)
  then show ?thesis
    using d1(2) d2 covers_static [OF c1(2) d2(3)] dev_static_trans [OF _ d2(3), of dev] by (auto simp: stepped_def)
qed

lemma init_root_directory_spec:
  assumes c: "calm dev" "covers dev sb" and r: "regions sb"
  shows "\<exists>dev' root. init_root_directory False dev sb = Some (0, dev') \<and> stepped dev sb (sb_data_start sb) root dev' \<and>
     length root = BLOCK_SIZE \<and> entries_from root BLOCK_SIZE 0 (dot_records 1 dot_size)"
proof -
  have "16 \<le> dot_size" "dot_size \<le> 3833" by (simp_all add: dot_size_def)
  from dot_block [OF this, of 1] obtain b1 root where
    e: "put_dirent zero_block_bytes 0 1 dot_size ''.'' = Some b1" "put_dirent b1 (unat dot_size) 1 (4096 - dot_size) ''..'' = Some root"
      "length root = BLOCK_SIZE" "entries_from root BLOCK_SIZE 0 (dot_records 1 dot_size)" by blast
  have "unat (sb_data_start sb) < unat (sb_total_blocks sb)" using r by (simp add: regions_def tiles_def)
  from calm_write [OF c(1) covers_bound [OF c(2) this] e(3)] obtain d where
    d: "blkdev_write dev (sb_data_start sb) root = Some (0, d)" "calm d" "dev_static dev d"
      "dev_view d = (dev_view dev)(sb_data_start sb := root)" by auto
  then have "init_root_directory False dev sb = Some (0, d)" using e by (simp add: init_root_directory_def)
  then show ?thesis using d e covers_static [OF c(2) d(3)] by (auto simp: stepped_def)
qed

section \<open>The program\<close>

text \<open>After a step at \<open>s\<close>, a later region is still blank.\<close>

lemma blank_step:
  assumes "stepped dev sb s buf dev'" "blank_run dev p n" "unat s < unat p"
  shows "blank_run dev' p n"
  using assms by (auto simp: stepped_def blank_run_def in_run_def)

lemma calm_close:
  assumes c: "calm dev"
  shows "\<exists>img c. blkdev_close dev = Some (img, c) \<and> dk_blocks img = dev_view dev \<and>
     (\<forall>b. \<not> dk_read_bad img b \<and> \<not> dk_write_bad img b) \<and> \<not> dk_fsync_bad img"
proof -
  from blkdev_sync_spec [OF dev_ok_coherent [OF calmD(1) [OF c]]] calmD(5) [OF c] obtain rc d where
    d: "blkdev_sync dev = Some (rc, d)" "dev_coherent d" "dev_static dev d" "dk_blocks (bd_disk d) = dev_view dev" by auto
  from dev_wf_repr [OF dev_coherent_wf [OF d(2)]] obtain bs where "cache_repr (bd_cache d) bs" by blast
  from buffer_cache_destroy_repr [OF this] d calmD(2-4) [OF c] show ?thesis by (auto simp: blkdev_close_def dev_static_def)
qed

lemma mkfs_spec:
  assumes sz: "2 \<le> size_mb" "size_mb \<le> 16384" and good: "\<And>b. \<not> dk_read_bad d b \<and> \<not> dk_write_bad d b" "\<not> dk_fsync_bad d"
    and sb_def: "sb = superblock_init (256 * size_mb) now now"
  shows "\<exists>img. mkfs_main True False False d False now size_mb = Some (0, Some img) \<and> formatted now sb (dk_blocks img) \<and>
     (\<forall>b. length (dk_blocks img b) = BLOCK_SIZE) \<and>
     (\<forall>b. \<not> dk_read_bad img b \<and> \<not> dk_write_bad img b) \<and> \<not> dk_fsync_bad img"
proof -
  let ?img = "d\<lparr>dk_blocks := (\<lambda>_. zero_block_bytes)\<rparr>"
  define bytes where "bytes = (ucast size_mb :: u64) * 1024 * 1024"
  have m: "2 \<le> unat size_mb" "unat size_mb \<le> 16384" using sz by (simp_all add: word_le_nat_alt)
  have b64: "unat bytes = unat size_mb * 1048576" using m by (simp add: bytes_def unat_word_ariths)
  then have t64: "unat (bytes div 4096) = 256 * unat size_mb" using m by (simp add: unat_div)
  have t32: "unat (256 * size_mb) = 256 * unat size_mb" using m by (simp add: unat_word_ariths)
  have tb: "(ucast (bytes div 4096) :: u32) = 256 * size_mb"
    using t64 t32 m by (simp add: word_unat_eq_iff unsigned_ucast_eq take_bit_nat_eq_self_iff)
  have T: "unat (sb_total_blocks sb) = 256 * unat size_mb" using t32 by (simp add: sb_def superblock_init_def Let_def)
  have R: "regions sb" unfolding sb_def by (rule regions_init) (use t32 m in simp_all)
  note U = R [unfolded regions_def tiles_def]
  from blkdev_open_ok [of ?img bytes] obtain d0 where
    d0: "blkdev_open (Some (?img, bytes)) False False = Some d0" "dev_ok d0" "bd_disk d0 = ?img" "dev_view d0 = (\<lambda>_. zero_block_bytes)"
      "bd_total_blocks d0 = bytes div 4096" by auto
  have c0: "calm d0" "covers d0 sb" using d0 good t64 T by (simp_all add: calm_def covers_def)
  have "0 < bd_total_blocks d0" using t64 m d0(5) by (simp add: word_less_nat_alt)
  from superblock_write_spec [OF d0(2) this, of sb] calmD(3,4) [OF c0(1)] obtain d1 where
    d1: "superblock_write d0 sb = Some (0, d1)" "dev_ok d1" "dev_static d0 d1" "dev_view d1 = (dev_view d0)(0 := sb_block sb)"
    by (auto simp: sb_def)
  have s1: "stepped d0 sb 0 (sb_block sb) d1"
    using d1 calm_static [OF c0(1) d1(3,2)] covers_static [OF c0(2) d1(3)] by (simp add: stepped_def)
  have k0: "blank_run d0 p n" for p n by (simp add: blank_run_def d0(4))
  have k1: "blank_run d1 p n" if "0 < unat p" for p n by (rule blank_step [OF s1 k0]) (use that in simp)
  note S = stepped_def
  have c1: "calm d1" "covers d1 sb" using s1 by (simp_all add: S)
  from init_journal_spec [OF c1 R k1] U obtain d2 where
    d2: "init_journal d1 sb = Some (0, d2)" "stepped d1 sb (sb_journal_start sb) (journal_header (sb_journal_blocks sb)) d2" by auto
  have k2: "blank_run d2 p n" if "unat (sb_journal_start sb) < unat p" for p n by (rule blank_step [OF d2(2) k1]) (use that in simp_all)
  have c2: "calm d2" "covers d2 sb" using d2(2) by (simp_all add: S)
  from write_region [OF c2, of "sb_inode_bitmap_blocks sb" "sb_inode_bitmap_start sb" "0x03 # replicate 4095 0"] k2 U obtain d3 where
    d3: "init_inode_bitmap False d2 sb = Some (0, d3)" "stepped d2 sb (sb_inode_bitmap_start sb) (0x03 # replicate 4095 0) d3"
    by (auto simp: init_inode_bitmap_def)
  have k3: "blank_run d3 p n" if "unat (sb_inode_bitmap_start sb) < unat p" for p n
    by (rule blank_step [OF d3(2) k2]) (use that U in simp_all)
  have c3: "calm d3" "covers d3 sb" using d3(2) by (simp_all add: S)
  from write_region [OF c3, of "sb_data_bitmap_blocks sb" "sb_data_bitmap_start sb" "0x01 # replicate 4095 0"] k3 U obtain d4 where
    d4: "init_data_bitmap False d3 sb = Some (0, d4)" "stepped d3 sb (sb_data_bitmap_start sb) (0x01 # replicate 4095 0) d4"
    by (auto simp: init_data_bitmap_def)
  have k4: "blank_run d4 p n" if "unat (sb_data_bitmap_start sb) < unat p" for p n
    by (rule blank_step [OF d4(2) k3]) (use that U in simp_all)
  have c4: "calm d4" "covers d4 sb" using d4(2) by (simp_all add: S)
  from init_inode_table_spec [OF c4 R k4, of now] U obtain d5 where
    d5: "init_inode_table False now d4 sb = Some (0, d5)" "stepped d4 sb (sb_inode_table_start sb) (root_block now sb) d5" by auto
  have c5: "calm d5" "covers d5 sb" using d5(2) by (simp_all add: S)
  from init_root_directory_spec [OF c5 R] obtain d6 root where
    d6: "init_root_directory False d5 sb = Some (0, d6)" "stepped d5 sb (sb_data_start sb) root d6"
      "length root = BLOCK_SIZE" "entries_from root BLOCK_SIZE 0 (dot_records 1 dot_size)" by blast
  have v6: "dev_view d6 = mkfs_view now sb root"
    using d0(4) s1 d2(2) d3(2) d4(2) d5(2) d6(2) by (auto simp: S mkfs_view_def fun_eq_iff)
  have c6: "calm d6" using d6(2) by (simp add: S)
  from blkdev_sync_spec [OF dev_ok_coherent [OF calmD(1) [OF c6]]] calmD(4,5) [OF c6] calmD(1) [OF c6] obtain d7 where
    d7: "blkdev_sync d6 = Some (0, d7)" "dev_ok d7" "dev_static d6 d7" "dev_view d7 = dev_view d6" by auto
  have c7: "calm d7" by (rule calm_static [OF c6 d7(3,2)])
  from calm_close [OF c7] obtain img c where
    e: "blkdev_close d7 = Some (img, c)" "dk_blocks img = mkfs_view now sb root"
      "(\<forall>b. \<not> dk_read_bad img b \<and> \<not> dk_write_bad img b) \<and> \<not> dk_fsync_bad img" using d7(4) v6 by auto
  have "mkfs_main True False False d False now size_mb = Some (0, Some img)"
    using m sz d0(1) d1(1) d2(1) d3(1) d4(1) d5(1) d6(1) d7(1) e(1)
    unfolding mkfs_main_def Let_def create_disk_image_def bytes_def [symmetric] tb sb_def [symmetric] mkfs_close_def
    by (simp add: word_less_nat_alt)
  moreover have "length (dk_blocks img b) = BLOCK_SIZE" for b
    unfolding e(2) using d6(3) by (simp add: mkfs_view_def sb_block_def length_encode_superblock sb_def)
  moreover have "formatted now sb (dk_blocks img)" unfolding e(2) by (rule mkfs_view_formatted [OF R d6(4)])
  ultimately show ?thesis using e(3) by blast
qed

end
