(* ===== verification/Fs_Mount.thy ===== *)
theory Fs_Mount
  imports Mkfs_Run Fs_Runs
begin

text \<open>
  Mounting a fresh image: every step of \<open>fs_context_init\<close> succeeds, the journal is found empty, and the mounted context
  satisfies the invariant of the file system with the root directory as its only inode.
\<close>

section \<open>Reads leave the disk alone\<close>

lemma blkdev_read_disk: "blkdev_read dev b = Some (r, dev') \<Longrightarrow> bd_disk dev' = bd_disk dev"
  by (auto simp: blkdev_read_def split: if_splits option.splits bind_splits)

lemma ic_read_disk: "ic_read c b = Some (r, c') \<Longrightarrow> bd_disk (ic_dev c') = bd_disk (ic_dev c)"
  by (auto simp: ic_read_def blkdev_read_disk split: option.splits)

lemma load_blocks_keeps:
  assumes "\<And>d b r d'. rd d b = Some (r, d') \<Longrightarrow> f d' = f d"
  shows "load_blocks rd d s buf js = Some (r, d') \<Longrightarrow> f d' = f d"
proof (induction js arbitrary: d buf)
  case (Cons i js)
  then show ?case by (fastforce split: option.splits sum.splits dest: assms)
qed simp

lemma block_alloc_init_disk: "block_alloc_init oom dev s n ds t = Some (r, dev') \<Longrightarrow> bd_disk dev' = bd_disk dev"
  using load_blocks_keeps [of blkdev_read bd_disk, OF blkdev_read_disk]
  by (auto simp: block_alloc_init_def Let_def split: if_splits sum.splits bind_splits)

section \<open>A new inode cache\<close>

lemma push_all_dll:
  assumes "dll (ilinks_of c) xs" "set xs \<subseteq> dom (ic_inodes c)" "distinct as" "set as \<subseteq> dom (ic_inodes c) - set xs"
  shows "\<exists>d. push_all c as = Some d \<and> dll (ilinks_of d) (rev as @ xs) \<and> ilru_frame c d"
  using assms
proof (induction as arbitrary: c xs)
  case Nil
  then show ?case by (simp add: ilru_frame_def)
next
  case (Cons a as)
  from ic_lru.push_dll [OF Cons.prems(1,2), of a] Cons.prems(4) obtain d where
    d: "inode_lru_push_front c a = Some d" "dll (ilinks_of d) (a # xs)" "ilru_frame c d" by auto
  note D = ilru_frame_dom [OF d(3)]
  have "set (a # xs) \<subseteq> dom (ic_inodes d)" "distinct as" "set as \<subseteq> dom (ic_inodes d) - set (a # xs)"
    using Cons.prems(2-4) unfolding D by auto
  from Cons.IH [OF d(2) this] obtain e where
    "push_all d as = Some e" "dll (ilinks_of e) (rev as @ a # xs)" "ilru_frame d e" by blast
  then show ?case using d ilru_frame_trans by auto
qed

definition fresh_cache :: "block_device \<Rightarrow> block_allocator \<Rightarrow> superblock \<Rightarrow> inode_cache \<Rightarrow> bool" where
  "fresh_cache dev alc sb c \<longleftrightarrow> ic_ok c \<and> ic_balloc c = alc \<and> ic_sb c = sb \<and> ic_view c = dev_view dev \<and> dev_static dev (ic_dev c) \<and>
     bd_disk (ic_dev c) = bd_disk dev \<and> (\<exists>xs. ishape c xs) \<and> dom (ic_inodes c) = {..<64} \<and>
     (\<forall>a im. ic_inodes c a = Some im \<longrightarrow> \<not> im_valid im \<and> \<not> im_dirty im \<and> im_ref_count im = 0) \<and>
     ic_bitmap_blocks c = sb_inode_bitmap_blocks sb \<and>
     length (ic_inode_bitmap c) = unat (sb_inode_bitmap_blocks sb) * 4096 \<and>
     (\<forall>j < unat (sb_inode_bitmap_blocks sb).
        slice (j * 4096) 4096 (ic_inode_bitmap c) = dev_view dev (sb_inode_bitmap_start sb + of_nat j))"

lemma fresh_shape:
  assumes "dll (ilinks_of c) xs" "set xs = dom (ic_inodes c)" "live c = {}" "ic_hash_table c = replicate (unat (ic_hash_size c)) None"
    and "0 < ic_hash_size c"
  shows "ishape c xs"
proof -
  have "hash_ok (ic_hash_table c) (ic_hash_next_of c) (ibucket c) {}"
    unfolding hash_ok_def assms(4) by (intro conjI allI impI exI [of _ "[]"]) simp_all
  then show ?thesis using assms by (simp add: ishape_def ihashed_def)
qed

lemma inode_cache_init_spec:
  assumes ok: "dev_ok dev" "\<And>b. \<not> dev_faulty dev b" and al: "alloc_wf alc"
    and bd: "unat (ba_data_start alc) + unat (ba_total_blocks alc) \<le> unat (bd_total_blocks dev)" "0 < bd_total_blocks dev"
    and v: "dev_view dev 0 = sb_block sb" "superblock_wf sb" "sb_magic sb = SUPERBLOCK_MAGIC"
    and run: "run_ok (bd_total_blocks dev) (sb_inode_bitmap_start sb) (unat (sb_inode_bitmap_blocks sb))"
  shows "\<exists>c. inode_cache_init False dev alc 64 32 = Some (Some c, ic_dev c) \<and> fresh_cache dev alc sb c"
proof -
  let ?c0 = "\<lparr>ic_dev = dev, ic_balloc = alc, ic_sb = decode_superblock (replicate BLOCK_SIZE 0),
          ic_inodes = (\<lambda>_. None), ic_max_inodes = 64, ic_lru_head = None, ic_lru_tail = None,
          ic_hash_table = [], ic_hash_size = 32, ic_inode_bitmap = [], ic_bitmap_blocks = 0, ic_oom = False\<rparr>"
  have ok0: "ic_ok ?c0" using ok al bd by (simp add: ic_ok_def)
  have b0: "ucast (0 :: block_t) < bd_total_blocks (ic_dev ?c0)" using bd(2) by simp
  from ic_read_spec [OF ok0 b0] obtain c1 where
    c1: "ic_read ?c0 0 = Some (Inr (ic_view ?c0 0), c1)" "ic_ok c1" "ic_keep ?c0 c1" "ic_inodes c1 = ic_inodes ?c0"
      "ic_view c1 = ic_view ?c0" "ic_balloc c1 = ic_balloc ?c0" by blast
  note F1 = ic_keep_fields [OF c1(3)]
  have v0: "ic_view ?c0 = dev_view dev" by (simp add: ic_view_def)
  have sb0: "buf_read (dev_view dev 0) 0 sizeof_superblock = Some (slice 0 sizeof_superblock (sb_block sb))"
    using v(1,2) by (simp add: buf_read_def sb_block_def length_encode_superblock)
  let ?c1 = "c1\<lparr>ic_sb := sb\<rparr>"
  have rs: "read_superblock ?c0 = Some (MODERNFS_SUCCESS, ?c1)"
    using c1(1) v0 sb0 decode_sb_block [OF v(2)] v(3) by (simp add: read_superblock_def)
  define c2 where "c2 = ?c1\<lparr>ic_inodes := (\<lambda>a. if a < unat (64 :: u32) then Some calloc_inode else None)\<rparr>"
  have d2: "dom (ic_inodes c2) = {..<64}" by (auto simp: c2_def split: if_splits)
  have "dll (ilinks_of c2) []" using F1(6,7) by (simp add: ilinks_of_def dll_def c2_def)
  from push_all_dll [OF this, of "[0..<64]"] d2 lessThan_atLeast0 [of "64 :: nat"] obtain d where
    d: "push_all c2 [0..<64] = Some d" "dll (ilinks_of d) (rev [0..<64])" "ilru_frame c2 d" by auto
  note FD = ilru_frame_fields [OF d(3)]
  have ents: "\<not> im_valid im \<and> \<not> im_dirty im \<and> im_ref_count im = 0" if "ic_inodes d a = Some im" for a im
  proof (cases rule: ilru_frame_cases [OF d(3), of a])
    case (2 im0 im')
    then have "iunlinked im = iunlinked calloc_inode" using that by (auto simp: c2_def split: if_splits)
    then show ?thesis by (cases im) (simp add: iunlinked_def calloc_inode_def)
  qed (use that in simp)
  define c3 where "c3 = d\<lparr>ic_hash_table := replicate (unat (32 :: u32)) None, ic_bitmap_blocks := sb_inode_bitmap_blocks sb\<rparr>"
  have f3: "ic_dev c3 = ic_dev c1" "ic_balloc c3 = alc" "ic_sb c3 = sb" "\<not> ic_oom c3" "ic_inodes c3 = ic_inodes d"
    "ic_bitmap_blocks c3 = sb_inode_bitmap_blocks sb" "ic_hash_size c3 = 32"
    using FD F1 c1(6) by (simp_all add: c3_def c2_def)
  have ok3: "ic_ok c3" using c1(2,6) f3 by (simp add: ic_ok_def)
  have st1: "dev_static dev (ic_dev c1)" using c1(3) by (simp add: ic_keep_def)
  have vw3: "ic_view c3 = dev_view dev" using c1(5) v0 f3(1) by (simp add: ic_view_def)
  have bnd: "bd_total_blocks (ic_dev c3) = bd_total_blocks dev" using st1 f3(1) by (simp add: dev_static_def)
  let ?n = "unat (sb_inode_bitmap_blocks sb)"
  have n: "unat (sb_inode_bitmap_blocks sb * 4096) = ?n * 4096" using run by (simp add: run_ok_def unat_word_ariths)
  have ro: "run_ok (ic_bound c3) (sb_inode_bitmap_start sb) ?n" using run bnd by simp
  from ic_store.load_run [OF ok3 ro, of "replicate (?n * 4096) 0" 0] obtain r e where
    e: "load_blocks ic_read c3 (sb_inode_bitmap_start sb) (replicate (unat (sb_inode_bitmap_blocks sb * 4096)) 0)
          (upto32 (sb_inode_bitmap_blocks sb)) = Some (r, e)" "ic_ok e" "ic_same c3 e" "ic_view e = ic_view c3"
      "case r of Inr bm \<Rightarrow> length bm = ?n * 4096 \<and>
          (\<forall>j < ?n. slice (j * 4096) 4096 bm = (if 0 \<le> j then ic_view c3 (sb_inode_bitmap_start sb + of_nat j) else slice (j * 4096) 4096 (replicate (?n * 4096) 0)))
        | Inl e \<Rightarrow> e < 0 \<and> (\<exists>j < ?n. False)"
    unfolding upto32_def n by auto
  from e(5) obtain bm where bm: "r = Inr bm" "length bm = unat (sb_inode_bitmap_blocks sb) * 4096"
    "\<And>j. j < unat (sb_inode_bitmap_blocks sb) \<Longrightarrow> slice (j * 4096) 4096 bm = dev_view dev (sb_inode_bitmap_start sb + of_nat j)"
    by (cases r) (auto simp: vw3)
  let ?c = "e\<lparr>ic_inode_bitmap := bm\<rparr>"
  have k: "ic_keep c3 e" "ic_inodes e = ic_inodes d" "ic_balloc e = alc" using e(3) f3 by (simp_all add: ic_same_def)
  note FE = ic_keep_fields [OF k(1)]
  have "inode_cache_init False dev alc 64 32 = Some (Some ?c, ic_dev ?c)"
    using rs d(1) e(1) bm(1) f3(3,4,6)
    by (simp add: inode_cache_init_def load_inode_bitmap_def Let_def c2_def c3_def)
  moreover have "fresh_cache dev alc sb ?c"
  proof -
    have "bd_disk (ic_dev e) = bd_disk (ic_dev c3)"
      by (rule load_blocks_keeps [where f = "\<lambda>c. bd_disk (ic_dev c)", OF _ e(1)]) (rule ic_read_disk)
    then have "bd_disk (ic_dev e) = bd_disk dev" using f3(1) ic_read_disk [OF c1(1)] by simp
    moreover have "ishape ?c (rev [0..<64])"
    proof (rule fresh_shape)
      show "dll (ilinks_of ?c) (rev [0..<64])" using d(2) k(2) FE(6,7) by (simp add: ilinks_of_def ic_prev_of_def [abs_def] c3_def)
      show "live ?c = {}" using ents k(2) by (auto simp: live_def)
      show "set (rev [0..<64]) = dom (ic_inodes ?c)" using ilru_frame_dom [OF d(3)] d2 k(2) by auto
    qed (use FE f3 in \<open>simp_all add: c3_def\<close>)
    moreover have "dev_static dev (ic_dev e)" using dev_static_trans [OF st1] k(1) f3(1) by (simp add: ic_keep_def)
    moreover have "ic_ok ?c" using e(2) by (simp add: ic_ok_def)
    moreover have "ic_view ?c = dev_view dev" using e(4) vw3 by (simp add: ic_view_def)
    ultimately show ?thesis
      using bm(2,3) k(2,3) FE f3 ents ilru_frame_dom [OF d(3)] d2 unfolding fresh_cache_def by auto
  qed
  ultimately show ?thesis by blast
qed

section \<open>The first inode\<close>

lemma cache_dev_kept:
  "im_modify c a f = Some c' \<Longrightarrow> ic_dev c' = ic_dev c"
  "ic_store_slot c sl q = Some c' \<Longrightarrow> ic_dev c' = ic_dev c"
  by (auto simp: im_modify_def split: option.splits) (cases sl; auto simp: im_modify_def split: option.splits if_splits)

lemma lru_dev_kept:
  "inode_lru_remove c a = Some c' \<Longrightarrow> ic_dev c' = ic_dev c"
  "inode_lru_push_front c a = Some c' \<Longrightarrow> ic_dev c' = ic_dev c"
  by (auto simp: inode_lru_remove_def inode_lru_push_front_def split: bind_splits option.splits dest!: cache_dev_kept)

lemma hash_dev_kept:
  "inode_hash_remove c a = Some c' \<Longrightarrow> ic_dev c' = ic_dev c"
  "inode_hash_insert c a = Some c' \<Longrightarrow> ic_dev c' = ic_dev c"
  by (auto simp: inode_hash_remove_def inode_hash_insert_def Let_def split: bind_splits if_splits dest!: cache_dev_kept)

lemma inode_load_disk: "inode_load c a i = Some (r, c') \<Longrightarrow> bd_disk (ic_dev c') = bd_disk (ic_dev c)"
  by (auto simp: inode_load_def inode_put_def Let_def split: bind_splits if_splits sum.splits option.splits dest!: cache_dev_kept ic_read_disk)

text \<open>No entry is dirty, so the one that is reused is not written back.\<close>

lemma inode_get_disk:
  assumes "inode_get c i = Some (r, c')" "\<And>a im. ic_inodes c a = Some im \<Longrightarrow> \<not> im_dirty im"
  shows "bd_disk (ic_dev c') = bd_disk (ic_dev c)"
  using assms
  by (auto simp: inode_get_def split: bind_splits if_splits option.splits dest!: cache_dev_kept lru_dev_kept hash_dev_kept inode_load_disk)

section \<open>The invariant on a fresh image\<close>

lemma root_inode_fields [simp]:
  "di_type (root_inode now sb) = INODE_TYPE_DIR" "di_size (root_inode now sb) = 4096" "length (di_direct (root_inode now sb)) = 12"
  by (simp_all add: root_inode_def)

lemma root_inode_nodes: "nodes (root_inode now sb) v n = (if n = NB 0 then sb_data_start sb else 0)"
  by (cases n) (auto simp: root_inode_def file_block_def l1_ptr_def zero_disk_inode_def nth_list_update)

lemma root_block_slot: "decode_disk_inode (slice 128 INODE_SIZE (root_block now sb)) = root_inode now sb"
proof -
  have "slice 128 INODE_SIZE (root_block now sb) = encode_disk_inode (root_inode now sb)"
    using slice_splice_same [of 128 "encode_disk_inode (root_inode now sb)" zero_block_bytes]
    by (simp add: root_block_def length_encode_disk_inode)
  then show ?thesis by (simp add: decode_encode_disk_inode)
qed

text \<open>The root of a fresh image.\<close>

abbreviation new_root :: "entry list" where
  "new_root \<equiv> dot_records 1 dot_size"

definition loaded_alloc :: "block_device \<Rightarrow> superblock \<Rightarrow> block_allocator \<Rightarrow> bool" where
  "loaded_alloc dev sb alc \<longleftrightarrow> alloc_wf alc \<and> view_run dev (sb_data_bitmap_start sb) (unat (sb_data_bitmap_blocks sb)) (ba_bitmap alc) \<and>
     ba_data_start alc = sb_data_start sb \<and> ba_total_blocks alc = sb_data_blocks sb"

lemma loaded_root:
  assumes l: "loaded_alloc dev sb alc" and f: "formatted now sb (dev_view dev)" and r: "regions sb"
  shows "sb_data_start sb \<in> allocated alc" "sb_data_start sb \<noteq> 0"
proof -
  note R = r [unfolded regions_def tiles_def]
  have K: "0 < unat (sb_data_bitmap_blocks sb)" using R by linarith
  have V: "length (ba_bitmap alc) = unat (sb_data_bitmap_blocks sb) * 4096"
    "\<forall>j < unat (sb_data_bitmap_blocks sb). slice (j * 4096) 4096 (ba_bitmap alc) = dev_view dev (sb_data_bitmap_start sb + of_nat j)"
    using l by (simp_all add: loaded_alloc_def view_run_def)
  have "slice 0 4096 (ba_bitmap alc) = dev_view dev (sb_data_bitmap_start sb)" using V(2) [rule_format, OF K] by simp
  moreover have "\<forall>j < unat (sb_data_bitmap_blocks sb).
      dev_view dev (sb_data_bitmap_start sb + of_nat j) = (if j = 0 then 0x01 # replicate 4095 0 else zero_block_bytes)"
    using f by (simp add: formatted_def)
  from this [rule_format, OF K] have "dev_view dev (sb_data_bitmap_start sb) = 0x01 # replicate 4095 0" by simp
  moreover have "4096 \<le> length (ba_bitmap alc)" using V(1) K by simp
  ultimately have "slice 0 4096 (ba_bitmap alc) ! 0 = 1" "4096 \<le> length (ba_bitmap alc)" by simp_all
  then have "ba_bitmap alc ! 0 = 1" by (simp add: slice_def)
  then have "bits (ba_bitmap alc) 0" by (simp add: bits_def)
  then show "sb_data_start sb \<in> allocated alc" using l R by (auto simp: loaded_alloc_def allocated_def pool_def)
  show "sb_data_start sb \<noteq> 0" using R by (auto simp: word_unat_eq_iff)
qed

lemma fresh_node:
  assumes c: "fresh_cache dev alc sb c" and f: "formatted now sb (dev_view dev)"
  shows "node_of c 1 = root_inode now sb" "inode_table_block c 1 = sb_inode_table_start sb"
proof -
  have C: "ic_sb c = sb" "ic_view c = dev_view dev" "\<And>a im. ic_inodes c a = Some im \<Longrightarrow> \<not> im_valid im"
    using c by (auto simp: fresh_cache_def)
  obtain xs where xs: "ishape c xs" using c by (auto simp: fresh_cache_def)
  show t: "inode_table_block c 1 = sb_inode_table_start sb" by (simp add: inode_table_block_def C(1))
  have "node_of c 1 = disk_node c 1" by (rule node_of_uncached [OF xs]) (use C(3) in blast)
  then show "node_of c 1 = root_inode now sb"
    using f root_block_slot by (simp add: disk_node_def t C(2) inode_table_offset_def formatted_def)
qed

lemma table_entry:
  assumes "fresh_cache dev alc sb c" "unat i < 2 ^ 25" "regions sb" "unat (sb_total_blocks sb) \<le> 2 ^ 22"
  shows "unat (inode_table_block c i) = unat (sb_inode_table_start sb) + unat i div 32"
proof -
  note R = assms(3) [unfolded regions_def tiles_def]
  have "unat ((i * 128) div 4096) = unat i div 32" using table_slot [OF assms(2)] by simp
  then show ?thesis using assms R by (simp add: inode_table_block_def fresh_cache_def unat_word_ariths)
qed

lemma fresh_layout:
  assumes c: "fresh_cache dev alc sb c" and f: "formatted now sb (dev_view dev)" and l: "loaded_alloc dev sb alc"
    and r: "regions sb" "inodes_fit sb" "unat (sb_total_inodes sb) \<le> 16384" "unat (sb_total_blocks sb) \<le> 2 ^ 22" and cv: "covers dev sb"
  shows "ilayout c" "table_ok c 1"
proof -
  note R = r(1) [unfolded regions_def tiles_def] and I = r(2) [unfolded inodes_fit_def]
  have C: "ic_sb c = sb" "ic_balloc c = alc" "ic_bitmap_blocks c = sb_inode_bitmap_blocks sb" "dev_static dev (ic_dev c)"
    "length (ic_inode_bitmap c) = 4096" using c R by (auto simp: fresh_cache_def)
  have tot: "unat (ic_bound c) = unat (sb_total_blocks sb)" using C(4) cv by (simp add: covers_def dev_static_def)
  have pl: "b \<in> ic_pool c \<longleftrightarrow> unat (sb_data_start sb) \<le> unat b \<and> unat b < unat (sb_total_blocks sb)" for b
    using l R C(2) by (auto simp: ic_pool_def pool_def loaded_alloc_def word_le_nat_alt)
  have tb: "table_ok c i" if "unat i < unat (sb_total_inodes sb)" for i
  proof -
    have i: "unat i < 2 ^ 25" using that r(3) by simp
    have "unat i div 32 < unat (sb_inode_table_blocks sb)" using that I by (simp add: less_mult_imp_div_less mult.commute)
    then show ?thesis using table_entry [OF c i r(1,4)] i tot pl R by (simp add: table_ok_def word_less_nat_alt)
  qed
  have "1 < unat (sb_total_inodes sb)" using I by linarith
  then show "table_ok c 1" using tb [of 1] by simp
  have "inode_table_block c i \<noteq> sb_inode_bitmap_start sb" if "table_ok c i" for i
    using table_entry [OF c _ r(1,4), of i] that R by (auto simp: table_ok_def)
  then show "ilayout c"
    using C R I tot pl tb r(4) by (auto simp: ilayout_def bitmap_block_def run_ok_def)
qed

lemma fresh_bits:
  assumes c: "fresh_cache dev alc sb c" and f: "formatted now sb (dev_view dev)" and r: "regions sb"
  shows "ibits c 0" "ibits c 1"
proof -
  have n: "unat (sb_inode_bitmap_blocks sb) = 1" using r by (simp add: regions_def)
  have "\<forall>j < unat (sb_inode_bitmap_blocks sb).
        slice (j * 4096) 4096 (ic_inode_bitmap c) = dev_view dev (sb_inode_bitmap_start sb + of_nat j)"
    using c by (simp add: fresh_cache_def)
  from this [rule_format, of 0] n have "slice 0 4096 (ic_inode_bitmap c) = 0x03 # replicate 4095 0"
    using f by (simp add: formatted_def)
  then have "slice 0 4096 (ic_inode_bitmap c) ! 0 = 3" by simp
  moreover have "length (ic_inode_bitmap c) = 4096" using c n by (simp add: fresh_cache_def)
  ultimately have "ic_inode_bitmap c ! 0 = 3" by (simp add: slice_def)
  then show "ibits c 0" "ibits c 1" by (simp_all add: bits_def bit_numeral_rec)
qed

lemma fresh_inv:
  assumes c: "fresh_cache dev alc sb c" and f: "formatted now sb (dev_view dev)" and l: "loaded_alloc dev sb alc"
    and r: "regions sb" "inodes_fit sb" "unat (sb_total_inodes sb) \<le> 16384" "unat (sb_total_blocks sb) \<le> 2 ^ 22" and cv: "covers dev sb"
  shows "fs_inv c {1} [1 \<mapsto> new_root]" "idle2 c"
proof -
  have C: "ic_ok c" "\<exists>xs. ishape c xs" "ic_view c = dev_view dev" "ic_balloc c = alc" "dom (ic_inodes c) = {..<64}"
    "\<And>a im. ic_inodes c a = Some im \<Longrightarrow> \<not> im_valid im \<and> im_ref_count im = 0" "ic_sb c = sb"
    using c by (auto simp: fresh_cache_def)
  note L = fresh_layout [OF c f l r cv] and N = fresh_node [OF c f] and B = fresh_bits [OF c f r(1)] and A = loaded_root [OF l f r(1)]
  have wf: "iwf c" using C(1,2,6) by (auto simp: iwf_def)
  have tree: "tree_ok (node_of c 1) (ic_view c) (ic_used c)"
    using A C(4) ic_view_length [OF C(1)] by (simp add: tree_ok_def N(1) root_inode_nodes ic_used_def)
  have nd: "nodes (node_of c 1) (ic_view c) (NB 0) = sb_data_start sb" unfolding N(1) root_inode_nodes by simp
  have "entries_from (ic_view c (sb_data_start sb)) 4096 0 new_root" using f C(3) by (simp add: formatted_def)
  then have dir: "dir_node c 1 new_root"
    using tree A(2) nd [unfolded N(1)] by (simp add: dir_node_def N(1) dot_records_def del: nodes.simps)
  have "fs_tree c {1} [1 \<mapsto> new_root]"
    using L(2) tree dir by (auto simp: fs_tree_def dot_records_def)
  moreover have "no_links c {1}" by (simp add: no_links_def N(1))
  moreover have "refs_ok c" using C(6) by (auto simp: refs_ok_def)
  moreover have "1 < itotal c" using r(2) by (simp add: inodes_fit_def C(7))
  moreover have "proper_dir 1 new_root" by (simp add: proper_dir_def dot_records_def unique_names_def)
  ultimately show "fs_inv c {1} [1 \<mapsto> new_root]" using wf L(1) B by (simp add: fs_inv_def)
  have "held c x = None" for x using C(6) by (auto simp: held_def split: option.split)
  then show "idle2 c" unfolding idle2_def C(5) by (intro bexI [of _ 0] bexI [of _ 1]) simp_all
qed

section \<open>The journal of a fresh image\<close>

lemma fresh_journal:
  assumes b: "dk_blocks d s = journal_header n" and good: "\<And>b. \<not> dk_read_bad d b" and n: "2 \<le> n"
  shows "\<exists>j. journal_new d s n = Ok j \<and> journal_recover j d = Some (Ok 0, d)"
proof -
  have h: "decode_journal_superblock (journal_header n) = \<lparr>js_magic = JOURNAL_MAGIC, js_version = 1, js_block_size = 4096,
      js_total_blocks = n, js_sequence = 0, js_head = 1, js_tail = 1, js_reserved = slice 32 4040 (journal_header n)\<rparr>"
    by (simp add: decode_journal_superblock_def journal_header_def slice_def le_word_le_bytes)
  have "pread_block d s = Some (journal_header n)" using b good by (simp add: pread_block_def)
  then show ?thesis using n by (simp add: journal_new_def h Let_def journal_recover_def linorder_not_less)
qed

section \<open>Mounting\<close>

text \<open>A mount at which nothing fails.\<close>

definition good_env :: "disk \<Rightarrow> u64 \<Rightarrow> fs_env" where
  "good_env img sz = \<lparr>env_opened = Some (img, sz), env_ctx_oom = False, env_dev_oom = False, env_cache_oom = False, env_sb_oom = False,
     env_balloc_oom = False, env_icache_oom = False, env_dup_bad = False, env_dup2_bad = False, env_thread_bad = False\<rparr>"

lemma good_env_fields [simp]:
  "env_opened (good_env img sz) = Some (img, sz)" "\<not> env_ctx_oom (good_env img sz)" "\<not> env_dev_oom (good_env img sz)"
  "\<not> env_cache_oom (good_env img sz)" "\<not> env_sb_oom (good_env img sz)" "\<not> env_balloc_oom (good_env img sz)"
  "\<not> env_icache_oom (good_env img sz)" "\<not> env_dup_bad (good_env img sz)" "\<not> env_dup2_bad (good_env img sz)"
  "\<not> env_thread_bad (good_env img sz)"
  by (simp_all add: good_env_def)

lemma bitmap_small:
  assumes "sb = superblock_init t m w"
  shows "unat (sb_data_bitmap_blocks sb) < 2 ^ 20"
proof -
  have "unat (x div 32768) < 2 ^ 20" for x :: u32
    using unsigned_less [of x, where ?'a = nat] by (simp add: unat_div less_mult_imp_div_less)
  then show ?thesis by (simp add: assms superblock_init_def Let_def)
qed

lemma mount_cache:
  assumes f: "formatted now sb (dk_blocks img)" and len: "\<And>b. length (dk_blocks img b) = BLOCK_SIZE"
    and good: "\<And>b. \<not> dk_read_bad img b \<and> \<not> dk_write_bad img b" "\<not> dk_fsync_bad img"
    and t: "268 \<le> unat t" "unat t \<le> 2 ^ 22" "unat (sz div 4096) = unat t" and sb: "sb = superblock_init t m w"
    and fit: "unat (sb_data_blocks sb) \<le> 32768 * unat (sb_data_bitmap_blocks sb)"
  shows "\<exists>dev0 dev1 dev2 alc c. blkdev_open (Some (img, sz)) False False = Some dev0 \<and> superblock_read dev0 = Some (Inr sb, dev1) \<and>
     block_alloc_init False (dev1\<lparr>bd_superblock := Some sb\<rparr>) (sb_data_bitmap_start sb) (sb_data_bitmap_blocks sb) (sb_data_start sb)
       (sb_data_blocks sb) = Some (Some alc, dev2) \<and>
     inode_cache_init False dev2 alc 64 32 = Some (Some c, ic_dev c) \<and> bd_disk dev2 = img \<and> fresh_cache dev2 alc sb c \<and>
     fs_inv c {1} [1 \<mapsto> new_root] \<and> idle2 c"
proof -
  have R: "regions sb" unfolding sb by (rule regions_init) (use t in simp_all)
  note U = R [unfolded regions_def tiles_def]
  have I: "inodes_fit sb" by (rule superblock_init_sizes [OF t(1) _ sb]) (use t in simp)
  have tot: "sb_total_blocks sb = t" "unat (sb_total_inodes sb) \<le> 16384" "sb_magic sb = SUPERBLOCK_MAGIC" "superblock_wf sb"
    using init_total_inodes_bounds [of t] by (simp_all add: sb superblock_init_def Let_def superblock_wf_def)
  from blkdev_open_ok [of img sz, OF len] obtain dev0 where
    d0: "blkdev_open (Some (img, sz)) False False = Some dev0" "dev_ok dev0" "bd_disk dev0 = img" "dev_view dev0 = dk_blocks img"
      "bd_total_blocks dev0 = sz div 4096" by blast
  have pos: "0 < bd_total_blocks dev0" using t d0(5) by (simp add: word_less_nat_alt)
  have "ucast (0 :: block_t) < bd_total_blocks dev0" using pos by simp
  from blkdev_read_spec [OF dev_ok_coherent [OF d0(2)] this] good(1) d0(2-4) obtain dev1 where
    r1: "blkdev_read dev0 0 = Some (Inr (dk_blocks img 0), dev1)" "dev_ok dev1" "dev_view dev1 = dk_blocks img" "dev_static dev0 dev1" "bd_disk dev1 = img"
    by (auto simp: readable_def)
  have v0: "dk_blocks img 0 = sb_block sb" using f by (simp add: formatted_def)
  then have "buf_read (dk_blocks img 0) 0 sizeof_superblock = Some (slice 0 sizeof_superblock (sb_block sb))"
    using tot(4) by (simp add: buf_read_def sb_block_def length_encode_superblock)
  then have rd: "superblock_read dev0 = Some (Inr sb, dev1)" using r1(1) decode_sb_block [OF tot(4)] by (simp add: superblock_read_def)
  let ?dev1 = "dev1\<lparr>bd_superblock := Some sb\<rparr>"
  have bt: "unat (bd_total_blocks ?dev1) = unat t" using r1(4) d0(5) t(3) by (simp add: dev_static_def)
  have nf: "\<not> dev_faulty ?dev1 b" for b using good(1) r1(5) by (simp add: dev_faulty_def)
  have run: "run_ok (bd_total_blocks ?dev1) (sb_data_bitmap_start sb) (unat (sb_data_bitmap_blocks sb))"
    "run_ok (bd_total_blocks ?dev1) (sb_inode_bitmap_start sb) (unat (sb_inode_bitmap_blocks sb))"
    using U bt t tot(1) bitmap_small [OF sb] by (auto simp: run_ok_def)
  have top: "unat (sb_data_start sb) + unat (sb_data_blocks sb) < 2 ^ 32" "0 < sb_data_start sb"
    using U t tot(1) by (simp_all add: word_less_nat_alt)
  have ok1: "dev_ok ?dev1" using r1(2) by simp
  from block_alloc_init_spec [OF ok1 run(1) fit top] obtain r dev2 where
    a: "block_alloc_init False ?dev1 (sb_data_bitmap_start sb) (sb_data_bitmap_blocks sb) (sb_data_start sb) (sb_data_blocks sb) = Some (r, dev2)"
      "dev_ok dev2" "dev_static ?dev1 dev2" "dev_view dev2 = dev_view ?dev1"
      "case r of None \<Rightarrow> \<exists>j < unat (sb_data_bitmap_blocks sb). dev_faulty ?dev1 (sb_data_bitmap_start sb + of_nat j)
      | Some alc \<Rightarrow> alloc_wf alc \<and> view_run ?dev1 (sb_data_bitmap_start sb) (unat (sb_data_bitmap_blocks sb)) (ba_bitmap alc) \<and>
          ba_data_start alc = sb_data_start sb \<and> ba_total_blocks alc = sb_data_blocks sb \<and>
          ba_bitmap_start alc = sb_data_bitmap_start sb \<and> ba_bitmap_blocks alc = sb_data_bitmap_blocks sb" by blast
  from a(5) obtain alc where alc: "r = Some alc" "loaded_alloc dev2 sb alc" using a(4) nf by (cases r) (auto simp: loaded_alloc_def view_run_def)
  have d2: "bd_disk dev2 = img" using block_alloc_init_disk [OF a(1)] r1(5) by simp
  have v2: "dev_view dev2 = dk_blocks img" using a(4) r1(3) by simp
  have bt2: "bd_total_blocks dev2 = bd_total_blocks ?dev1" using a(3) by (simp add: dev_static_def)
  have nf2: "\<not> dev_faulty dev2 b" for b using good(1) d2 by (simp add: dev_faulty_def)
  have al: "alloc_wf alc" "ba_data_start alc = sb_data_start sb" "ba_total_blocks alc = sb_data_blocks sb"
    using alc(2) by (simp_all add: loaded_alloc_def)
  have bd: "unat (ba_data_start alc) + unat (ba_total_blocks alc) \<le> unat (bd_total_blocks dev2)" "0 < bd_total_blocks dev2"
    "run_ok (bd_total_blocks dev2) (sb_inode_bitmap_start sb) (unat (sb_inode_bitmap_blocks sb))"
    using al bt bt2 U tot(1) t(1) run(2) by (simp_all add: word_less_nat_alt)
  from inode_cache_init_spec [OF a(2) nf2 al(1) bd(1,2) _ tot(4,3) bd(3)] v2 v0 obtain c where
    c: "inode_cache_init False dev2 alc 64 32 = Some (Some c, ic_dev c)" "fresh_cache dev2 alc sb c" by auto
  have cv: "covers dev2 sb" using bt bt2 tot(1) by (simp add: covers_def)
  have "formatted now sb (dev_view dev2)" using f v2 by simp
  from fresh_inv [OF c(2) this alc(2) R I tot(2) _ cv] t tot(1) have "fs_inv c {1} [1 \<mapsto> new_root]" "idle2 c" by auto
  then show ?thesis using d0(1) rd a(1) alc(1) c d2 by blast
qed

text \<open>Getting and putting the root.\<close>

lemma root_probe:
  assumes v: "fs_inv c {1} [1 \<mapsto> new_root]" and id: "idle2 c" and cl: "\<And>a im. ic_inodes c a = Some im \<Longrightarrow> \<not> im_dirty im"
  shows "\<exists>a c1 im c2. inode_get c 1 = Some (Some a, c1) \<and> ic_inodes c1 a = Some im \<and> di_type (im_disk im) = INODE_TYPE_DIR \<and>
     inode_put c1 a = Some c2 \<and> fs_inv c2 {1} [1 \<mapsto> new_root] \<and> idle2 c2 \<and> bd_disk (ic_dev c2) = bd_disk (ic_dev c) \<and> ic_sb c2 = ic_sb c"
proof -
  note V = fs_invD [OF v]
  have t: "table_ok c 1" by (rule fs_treeD(1) [OF V(3)]) simp
  from get_takes [OF V(1,5) t idle2_idle [OF id]] obtain a c1 where
    1: "inode_get c 1 = Some (Some a, c1)" "fs_quiet c c1" "takes c a 1 c1" by blast
  have v1: "fs_inv c1 {1} [1 \<mapsto> new_root]" by (rule takes_inv [OF v 1(2,3)])
  from held_node [OF fs_invD(1) [OF v1] takes_holds [OF 1(3)]] obtain im where
    im: "ic_inodes c1 a = Some im" "im_disk im = node_of c1 1" by auto
  have "dir_node c1 1 new_root" by (rule fs_treeD(3) [OF fs_invD(3) [OF v1]]) simp_all
  then have d: "di_type (im_disk im) = INODE_TYPE_DIR" by (simp add: dir_node_def im(2))
  from put_takes [OF fs_invD(1) [OF v1] 1(3)] obtain c2 where
    2: "inode_put c1 a = Some c2" "fs_quiet c1 c2" "same_refs c c2" by blast
  have "fs_inv c2 {1} [1 \<mapsto> new_root]" by (rule fs_inv_quiet [OF v1 2(2) same_refs_ok [OF 2(3) V(5)]])
  moreover have "idle2 c2" using idle2_same [OF 2(3)] id by simp
  moreover have "bd_disk (ic_dev c2) = bd_disk (ic_dev c)"
    using inode_get_disk [OF 1(1) cl] cache_dev_kept(1) 2(1) by (auto simp: inode_put_def)
  moreover have "ic_sb c2 = ic_sb c" using 1(2) 2(2) by (simp add: fs_quiet_def istatic_def)
  ultimately show ?thesis using 1(1) im(1) d 2(1) by blast
qed

lemma mount_spec:
  assumes f: "formatted now sb (dk_blocks img)" and len: "\<And>b. length (dk_blocks img b) = BLOCK_SIZE"
    and good: "\<And>b. \<not> dk_read_bad img b \<and> \<not> dk_write_bad img b" "\<not> dk_fsync_bad img"
    and t: "268 \<le> unat t" "unat t \<le> 2 ^ 22" "unat (sz div 4096) = unat t" and sb: "sb = superblock_init t m w"
    and fit: "unat (sb_data_blocks sb) \<le> 32768 * unat (sb_data_bitmap_blocks sb)"
  shows "\<exists>ctx. fs_context_init (good_env img sz) path False = Some (Some ctx, Some img) \<and> ready ctx {1} [1 \<mapsto> new_root] \<and>
     fc_root_inum ctx = 1 \<and> fc_journal ctx \<noteq> None \<and> ic_sb (fc_icache ctx) = sb"
proof -
  from mount_cache [OF assms] obtain dev0 dev1 dev2 alc c where
    o: "blkdev_open (Some (img, sz)) False False = Some dev0" "superblock_read dev0 = Some (Inr sb, dev1)"
      "block_alloc_init False (dev1\<lparr>bd_superblock := Some sb\<rparr>) (sb_data_bitmap_start sb) (sb_data_bitmap_blocks sb) (sb_data_start sb)
         (sb_data_blocks sb) = Some (Some alc, dev2)"
      "inode_cache_init False dev2 alc 64 32 = Some (Some c, ic_dev c)" "bd_disk dev2 = img" "fresh_cache dev2 alc sb c"
      "fs_inv c {1} [1 \<mapsto> new_root]" "idle2 c" by blast
  have cl: "\<not> im_dirty im" if "ic_inodes c a = Some im" for a im using o(6) that by (simp add: fresh_cache_def)
  have cd: "bd_disk (ic_dev c) = img" "ic_sb c = sb" using o(5,6) by (simp_all add: fresh_cache_def)
  from root_probe [OF o(7,8)] obtain a c1 im c2 where
    p: "inode_get c 1 = Some (Some a, c1)" "ic_inodes c1 a = Some im" "di_type (im_disk im) = INODE_TYPE_DIR" "inode_put c1 a = Some c2"
      "fs_inv c2 {1} [1 \<mapsto> new_root]" "idle2 c2" "bd_disk (ic_dev c2) = img" "ic_sb c2 = sb" using cl cd by blast
  have R: "regions sb" unfolding sb by (rule regions_init) (use t in simp_all)
  have jr: "2 \<le> sb_journal_blocks sb" using R by (simp add: regions_def word_le_nat_alt)
  have "dk_blocks img (sb_journal_start sb) = journal_header (sb_journal_blocks sb)" using f by (simp add: formatted_def)
  from fresh_journal [OF this _ jr] good(1) obtain j where
    j: "journal_new img (sb_journal_start sb) (sb_journal_blocks sb) = Ok j" "journal_recover j img = Some (Ok 0, img)" by blast
  have sv: "superblock_validate sb = 0" "sb_root_inum sb = 1" by (simp_all add: superblock_validate_iff sb superblock_init_def Let_def)
  let ?base = "\<lparr>fc_icache = c2, fc_journal = None, fc_extent_alloc = None, fc_checkpoint_running = False, fc_root_inum = 1,
    fc_read_only = False, fc_device_path = take 255 path, fc_read_count = 0, fc_write_count = 0\<rparr>"
  define e where "e = extent_allocator_new img (sb_data_bitmap_start sb) (sb_data_blocks sb)"
  have same: "c2\<lparr>ic_dev := (ic_dev c2)\<lparr>bd_disk := img\<rparr>\<rparr> = c2" using p(7) by (cases c2; cases "ic_dev c2") simp
  let ?ctx = "?base\<lparr>fc_journal := Some j, fc_extent_alloc := Some e, fc_checkpoint_running := True\<rparr>"
  have "start_journal (good_env img sz) sb ?base = Some (Some ?ctx, Some img)"
    using j p(7) same by (simp add: start_journal_def rust_journal_init_def rust_journal_recover_def set_dev_def rust_extent_alloc_init_def e_def Let_def)
  then have "fs_context_init (good_env img sz) path False = Some (Some ?ctx, Some img)"
    using o(1-4) p(1-4) sv by (simp add: fs_context_init_def Let_def)
  moreover have "ready ?ctx {1} [1 \<mapsto> new_root]" using p(5,6) by (simp add: ready_def)
  ultimately show ?thesis using p(8) by (intro exI [of _ ?ctx]) simp
qed

end
