(* ===== verification/Fs_Mount_Properties.thy ===== *)
theory Fs_Mount_Properties
  imports Fs_Mount Instances
begin

text \<open>The properties of formatting and mounting.\<close>

text \<open>C9: \<open>mkfs\<close> on a disk without bad blocks succeeds for every size from 2 to 16384 megabytes and leaves the
  superblock, an empty journal, the two bitmaps with their reserved bits, the root inode and the root directory.\<close>
theorem mkfs_main_correct:
  assumes "2 \<le> size_mb" "size_mb \<le> 16384" "\<And>b. \<not> dk_read_bad d b \<and> \<not> dk_write_bad d b" "\<not> dk_fsync_bad d"
  shows "\<exists>img. mkfs_main True False False d False now size_mb = Some (0, Some img) \<and>
     formatted now (superblock_init (256 * size_mb) now now) (dk_blocks img)"
  using mkfs_spec [OF assms refl] by blast

lemma blank_disk_good: "\<not> dk_read_bad blank_disk b \<and> \<not> dk_write_bad blank_disk b" "\<not> dk_fsync_bad blank_disk"
  by (simp_all add: blank_disk_def)

theorem mkfs_main_correct_witness:
  "\<exists>img. mkfs_main True False False blank_disk False 5 64 = Some (0, Some img) \<and>
     entries_from (dk_blocks img (sb_data_start (superblock_init 16384 5 5))) BLOCK_SIZE 0 (dot_records 1 dot_size)"
  using mkfs_main_correct [of 64 blank_disk 5, OF _ _ blank_disk_good] by (auto simp: formatted_def)



end
