(* ===== verification/Inode_Journaled.thy ===== *)
theory Inode_Journaled
  imports Inode_Write Journal_Spec
begin

text \<open>
  \<open>inode_write\<close> with a journal transaction.  No data block is written: the loop collects the image of every block of the
  range in the transaction, in order, while the block map is extended on the device.
\<close>

section \<open>Images of blocks\<close>

text \<open>Block \<open>i\<close> of the file, at \<open>b\<close>, with the bytes of \<open>src\<close> from position \<open>l\<close> on; \<open>src\<close> starts at \<open>off\<close>.\<close>

definition block_image :: "(block_t \<Rightarrow> byte list) \<Rightarrow> byte list \<Rightarrow> nat \<Rightarrow> nat \<Rightarrow> nat \<Rightarrow> block_t \<Rightarrow> byte list" where
  "block_image v src off l i b =
     map (\<lambda>r. if l \<le> 4096 * i + r \<and> 4096 * i + r < off + length src then src ! (4096 * i + r - off) else v b ! r) [0..<4096]"

definition images ::
  "(block_t \<Rightarrow> byte list) \<Rightarrow> (nat \<Rightarrow> block_t) \<Rightarrow> byte list \<Rightarrow> nat \<Rightarrow> nat \<Rightarrow> (block_t \<times> byte list) list" where
  "images v nd src off l =
     (if l < off + length src
      then map (\<lambda>i. (nd i, block_image v src off l i (nd i))) [l div 4096..<(off + length src + 4095) div 4096] else [])"

lemma length_block_image [simp]: "length (block_image v src off l i b) = 4096"
  by (simp add: block_image_def)

lemma block_image_lower:
  assumes "l \<le> m" "m \<le> 4096 * i"
  shows "block_image v src off m i b = block_image v src off l i b"
  using assms by (auto simp: block_image_def intro: map_cong)

lemma images_lengths: "(b, x) \<in> set (images v nd src off l) \<Longrightarrow> length x = 4096"
  by (auto simp: images_def split: if_splits)

lemma images_nonempty: "l < off + length src \<Longrightarrow> images v nd src off l \<noteq> []"
  by (simp add: images_def) linarith

lemma images_step:
  assumes l: "l < off + length src" and m: "m = min (4096 * Suc (l div 4096)) (off + length src)"
  shows "images v nd src off l = (nd (l div 4096), block_image v src off l (l div 4096) (nd (l div 4096))) # images v nd src off m"
proof -
  let ?i = "l div 4096" and ?e = "off + length src"
  let ?f = "\<lambda>i. (nd i, block_image v src off l i (nd i))"
  have i: "?i < (?e + 4095) div 4096" using l by linarith
  have head: "images v nd src off l = ?f ?i # map ?f [Suc ?i..<(?e + 4095) div 4096]"
    using l i by (simp add: images_def upt_conv_Cons)
  show ?thesis
  proof (cases "4096 * Suc ?i < ?e")
    case True
    then have md: "m = 4096 * Suc ?i" "m div 4096 = Suc ?i" using m by simp_all
    have lm: "l \<le> m" using md(1) dividend_less_times_div [of 4096 l] by simp
    have "block_image v src off m j b = block_image v src off l j b" if "Suc ?i \<le> j" for j b
      by (rule block_image_lower [OF lm]) (use that md(1) in simp)
    then have "map ?f [Suc ?i..<(?e + 4095) div 4096] = images v nd src off m"
      using True md by (auto simp: images_def)
    then show ?thesis using head by simp
  next
    case False
    then have "m = ?e" "(?e + 4095) div 4096 \<le> Suc ?i" using m less_mult_imp_div_less [of "?e + 4095" "Suc (Suc ?i)" 4096] by simp_all
    then show ?thesis using head by (simp add: images_def)
  qed
qed

section \<open>One block\<close>

lemma log_block:
  assumes ok: "ic_ok c" and t: "tree_at c a" and i: "file_index cur < 1049612" and pos: "pos = unat cur"
    and n: "0 < n" "n \<le> 4096 - pos mod 4096" "length bytes = n" and b: "inode_bmap c a cur True = Some (Inr p, c1)"
  shows "\<exists>bbuf c2. \<not> ic_oom c1 \<and> length bbuf = 4096 \<and>
     (if pos mod 4096 \<noteq> 0 \<or> n \<noteq> 4096 then ic_read c1 p else Some (Inr (replicate BLOCK_SIZE 0), c1)) = Some (Inr bbuf, c2) \<and>
     extended c a c2 \<and> (\<forall>j. fbyte c2 a j = base c c2 a j) \<and> p \<noteq> 0 \<and> nodes_at c2 a (NB (pos div 4096)) = p \<and>
     (\<forall>r < 4096. splice (pos mod 4096) bytes bbuf ! r =
        (if pos \<le> 4096 * (pos div 4096) + r \<and> 4096 * (pos div 4096) + r < pos + n
         then bytes ! (4096 * (pos div 4096) + r - pos) else ic_view c p ! r))"
proof -
  have idx: "file_index cur = pos div 4096" by (simp add: file_index_def pos)
  have r: "bmap_result c a (pos div 4096) (Some (Inr p, c1))"
    using inode_bmap_extends [OF ok t i] b idx by simp
  note e1 = bmap_extended [OF t r]
  have p: "p \<noteq> 0" "nodes_at c1 a (NB (pos div 4096)) = p" using e1(3) by simp_all
  note E1 = extendedD [OF e1(1)]
  have "p \<in> ic_pool c1" using tree_at_used [OF E1(3), of "NB (pos div 4096)"] p used_pool by auto
  from ic_read_spec [OF E1(1) pool_bound [OF E1(1) this]] obtain c1' where
    rd: "ic_read c1 p = Some (Inr (ic_view c1 p), c1')" "quiet c1 c1'" by (auto simp: quiet_def)
  let ?part = "pos mod 4096 \<noteq> 0 \<or> n \<noteq> 4096" and ?i = "pos div 4096"
  define bbuf where "bbuf = (if ?part then ic_view c1 p else replicate 4096 0)"
  define c2 where "c2 = (if ?part then c1' else c1)"
  have q: "quiet c1 c2" using rd(2) quiet_refl [OF E1(1)] by (simp add: c2_def)
  have len: "length bbuf = 4096" by (simp add: bbuf_def ic_view_length [OF E1(1)])
  have fit: "pos mod 4096 + n \<le> 4096" using n(2) by (simp add: le_diff_conv2)
  note g = grows_quiet [OF q E1(3)]
  have nd: "nodes_at c2 a = nodes_at c1 a" using g(3) by simp
  have x: "extended c a c2" by (rule extended_trans [OF e1(1) quiet_extended [OF q E1(3)]])
  have f2: "fbyte c2 a j = base c c2 a j" for j
    using fbyte_quiet [OF q E1(3)] e1(2) base_nodes [OF nd] by simp
  have same: "ic_view c1 p ! r = ic_view c p ! r" if "r < 4096" for r
    using e1(2) [of "4096 * ?i + r"] that p by (simp add: fbyte_def base_def)
  have im: "splice (pos mod 4096) bytes bbuf ! r =
      (if pos \<le> 4096 * ?i + r \<and> 4096 * ?i + r < pos + n then bytes ! (4096 * ?i + r - pos) else ic_view c p ! r)" if r: "r < 4096" for r
  proof -
    have s: "pos \<le> 4096 * ?i + r \<and> 4096 * ?i + r < pos + n \<longleftrightarrow> pos mod 4096 \<le> r \<and> r < pos mod 4096 + n"
      using same_block [OF n(2), of "4096 * ?i + r"] r by simp
    have e: "4096 * ?i + r - pos = r - pos mod 4096" using mult_div_mod_eq [of 4096 pos] by linarith
    have "\<not> ?part \<Longrightarrow> pos mod 4096 \<le> r \<and> r < pos mod 4096 + n" using r by auto
    then have "\<not> (pos mod 4096 \<le> r \<and> r < pos mod 4096 + n) \<Longrightarrow> bbuf ! r = ic_view c p ! r" using same [OF r] by (auto simp: bbuf_def)
    then show ?thesis using r fit len n(3) by (auto simp: s e nth_splice)
  qed
  moreover have "(if ?part then ic_read c1 p else Some (Inr (replicate BLOCK_SIZE 0), c1)) = Some (Inr bbuf, c2)"
    using rd(1) by (simp add: bbuf_def c2_def)
  moreover have "\<not> ic_oom c1" using E1(1) by (simp add: ic_ok_def)
  moreover have "nodes_at c2 a (NB ?i) = p" using nd p(2) by simp
  ultimately show ?thesis using len x f2 p(1) by blast
qed

lemma untouched_trans:
  assumes x: "extended c a d" "\<And>j. fbyte d a j = base c d a j" and y: "extended d a e" "\<And>j. fbyte e a j = base d e a j"
  shows "fbyte e a j = base c e a j"
proof -
  have "wrote c e a [] 0 0 0"
    by (rule wrote_trans [OF x(1) wrote_none [OF x(2)] y(1) wrote_none [OF y(2)]]) simp_all
  then show ?thesis by (simp add: wrote_def)
qed

text \<open>The image of a later block is the same over the earlier state.\<close>

lemma view_kept:
  assumes x: "extended c a d" "\<And>j. fbyte d a j = base c d a j" and y: "extended d a e" and n: "nodes_at e a (NB i) \<noteq> 0" and r: "r < 4096"
  shows "ic_view d (nodes_at e a (NB i)) ! r = ic_view c (nodes_at e a (NB i)) ! r"
proof (cases "nodes_at d a (NB i) = 0")
  case True
  have "nodes_at e a (NB i) \<in> ic_pool d - ic_used d" using extendedD(8) [OF y True n] .
  then have "nodes_at e a (NB i) \<notin> blocks_at d a" using blocks_used [OF extendedD(3) [OF x(1)]] by blast
  then show ?thesis using extendedD(9) [OF x(1)] by simp
next
  case False
  then have e: "nodes_at e a (NB i) = nodes_at d a (NB i)" by (rule extendedD(7) [OF y])
  show ?thesis unfolding e using x(2) [of "4096 * i + r"] r False by (simp add: fbyte_def base_def)
qed

section \<open>The loop\<close>

lemma rust_journal_write_ok:
  assumes "tx_state t = Active" "length x = 4096"
  shows "rust_journal_write t b x = (0, t\<lparr>tx_writes := tx_writes t @ [(b, x)]\<rparr>)"
  using assms by (simp add: rust_journal_write_def write_block_def)

lemma chunk_end:
  fixes x e :: nat
  assumes "x \<le> e"
  shows "x + min (4096 - x mod 4096) (e - x) = min (4096 * Suc (x div 4096)) e"
proof -
  have "q * 4096 + m + min (4096 - m) (e - (q * 4096 + m)) = min (4096 * Suc q) e" if "m < 4096" "q * 4096 + m \<le> e" for q m :: nat
    using that by simp
  from this [of "x mod 4096" "x div 4096"] show ?thesis using assms by simp
qed

lemma block_image_cong: "(\<And>r. r < 4096 \<Longrightarrow> v b ! r = v' b ! r) \<Longrightarrow> block_image v src off l i b = block_image v' src off l i b"
  by (auto simp: block_image_def)

lemma images_cong:
  assumes "\<And>j r. l \<le> j \<Longrightarrow> j < off + length src \<Longrightarrow> r < 4096 \<Longrightarrow> v (nd (j div 4096)) ! r = v' (nd (j div 4096)) ! r"
  shows "images v nd src off l = images v' nd src off l"
proof -
  have "block_image v src off l i (nd i) = block_image v' src off l i (nd i)"
    if l: "l < off + length src" and i: "l div 4096 \<le> i" "i < (off + length src + 4095) div 4096" for i
  proof (rule block_image_cong)
    fix r :: nat assume r: "r < 4096"
    show "v (nd i) ! r = v' (nd i) ! r"
    proof (cases "i = l div 4096")
      case True
      then show ?thesis using assms [OF order_refl l r] by simp
    next
      case False
      then have "l \<le> 4096 * i" "4096 * i < off + length src" using i by linarith+
      from assms [OF this r] show ?thesis by simp
    qed
  qed
  then show ?thesis by (simp add: images_def)
qed

lemma journaled_loop:
  assumes "ic_ok c" "tree_at c a" "unat offset + unat sz \<le> MAX_FILE" "k \<le> sz" "length src = unat sz" "tx_state t = Active"
  shows "\<exists>r c' ws. write_loop rust_journal_write c (Some t) a src offset sz k = Some (r, c', Some (t\<lparr>tx_writes := tx_writes t @ ws\<rparr>)) \<and>
     extended c a c' \<and> (\<forall>j. fbyte c' a j = base c c' a j) \<and>
     (case r of
        Inr n \<Rightarrow> n = sz \<and> (\<forall>j. unat offset + unat k \<le> j \<and> j < unat offset + unat sz \<longrightarrow> nodes_at c' a (NB (j div 4096)) \<noteq> 0) \<and>
          ws = images (ic_view c) (\<lambda>i. nodes_at c' a (NB i)) src (unat offset) (unat offset + unat k)
      | Inl e \<Rightarrow> e = MODERNFS_ENOSPC \<and> ic_pool c \<subseteq> ic_used c')"
  using assms
proof (induction "unat sz - unat k" arbitrary: c k t rule: less_induct)
  case less
  note ok = less.prems(1) and ta = less.prems(2) and mx = less.prems(3) and act = less.prems(6)
  show ?case
  proof (cases "k < sz")
    case False
    then have "k = sz" using less.prems(4) by simp
    moreover have "fbyte c a j = base c c a j" for j by (simp add: fbyte_def base_def)
    moreover have "write_loop rust_journal_write c (Some t) a src offset sz k = Some (Inr k, c, Some (t\<lparr>tx_writes := tx_writes t @ []\<rparr>))"
      using False by (subst write_loop.simps) simp
    ultimately show ?thesis using extended_refl [OF ok ta] less.prems(5)
      by (intro exI [of _ "Inr k"] exI [of _ c] exI [of _ "[]"]) (auto simp: images_def)
  next
    case True
    let ?p = "unat offset + unat k" and ?n = "chunk (offset + k) (sz - k)"
    let ?k = "k + ucast ?n"
    note P = step_position [OF mx True] and S = chunk_step [OF True, of offset]
    have n: "unat ?n \<le> 4096 - ?p mod 4096" using P(1) by (simp add: unat_chunk)
    have lt: "unat k < unat sz" using True by (simp add: word_less_nat_alt)
    have bm: "bmap_result c a (?p div 4096) (inode_bmap c a (offset + k) True)"
      using inode_bmap_extends [OF ok ta P(3)] P(2) by simp
    then obtain r1 c1 where b: "inode_bmap c a (offset + k) True = Some (r1, c1)"
      by (auto simp: bmap_result_def)
    show ?thesis
    proof (cases r1)
      case (Inl e)
      note x = bmap_extended [OF ta bm [unfolded b Inl]]
      have "write_loop rust_journal_write c (Some t) a src offset sz k = Some (Inl e, c1, Some t)"
        using True b Inl by (subst write_loop.simps) (simp add: Let_def)
      then show ?thesis using x by (intro exI [of _ "Inl e"] exI [of _ c1] exI [of _ "[]"]) simp
    next
      case (Inr p)
      let ?bytes = "slice (unat k) (unat ?n) src"
      have sl: "buf_read src (unat k) (unat ?n) = Some ?bytes" "length ?bytes = unat ?n"
        using S(3) less.prems(5) by (simp_all add: buf_read_Some length_slice)
      from log_block [OF ok ta P(3) P(1) [symmetric] S(2) n sl(2) b [unfolded Inr]] obtain bbuf c2 where
        w: "\<not> ic_oom c1" "length bbuf = 4096"
          "(if ?p mod 4096 \<noteq> 0 \<or> unat ?n \<noteq> 4096 then ic_read c1 p else Some (Inr (replicate BLOCK_SIZE 0), c1)) = Some (Inr bbuf, c2)"
          "extended c a c2" "\<And>j. fbyte c2 a j = base c c2 a j" "p \<noteq> 0" "nodes_at c2 a (NB (?p div 4096)) = p"
          "\<And>r. r < 4096 \<Longrightarrow> splice (?p mod 4096) ?bytes bbuf ! r =
            (if ?p \<le> 4096 * (?p div 4096) + r \<and> 4096 * (?p div 4096) + r < ?p + unat ?n
             then ?bytes ! (4096 * (?p div 4096) + r - ?p) else ic_view c p ! r)" by blast
      let ?x = "splice (?p mod 4096) ?bytes bbuf"
      have lx: "length ?x = 4096" using n w(2) sl(2) by (simp add: length_splice le_diff_conv2)
      let ?t = "t\<lparr>tx_writes := tx_writes t @ [(p, ?x)]\<rparr>"
      have cond: "?n \<noteq> 4096 \<longleftrightarrow> unat ?n \<noteq> 4096" by (simp add: word_unat_eq_iff)
      have bw: "buf_write bbuf (?p mod 4096) ?bytes = Some ?x"
        using n w(2) sl(2) by (intro buf_write_Some) (simp add: le_diff_conv2)
      have step: "write_loop rust_journal_write c (Some t) a src offset sz k = write_loop rust_journal_write c2 (Some ?t) a src offset sz ?k"
        using True b Inr w(1,3) sl(1) bw P(4) cond rust_journal_write_ok [OF act lx]
        by (subst write_loop.simps) (simp add: Let_def)
      have k': "?k \<le> sz" "unat ?k = unat k + unat ?n" "unat sz - unat ?k < unat sz - unat k"
        using S True by (simp_all add: word_le_nat_alt word_less_nat_alt)
      note E = extendedD [OF w(4)]
      have "tx_state ?t = Active" using act by simp
      from less.hyps [OF k'(3) E(1,3) mx k'(1) less.prems(5) this] obtain r c' ws where
        ih: "write_loop rust_journal_write c2 (Some ?t) a src offset sz ?k = Some (r, c', Some (?t\<lparr>tx_writes := tx_writes ?t @ ws\<rparr>))"
          "extended c2 a c'" "\<And>j. fbyte c' a j = base c2 c' a j"
          "case r of
             Inr n \<Rightarrow> n = sz \<and> (\<forall>j. unat offset + unat ?k \<le> j \<and> j < unat offset + unat sz \<longrightarrow> nodes_at c' a (NB (j div 4096)) \<noteq> 0) \<and>
               ws = images (ic_view c2) (\<lambda>i. nodes_at c' a (NB i)) src (unat offset) (unat offset + unat ?k)
           | Inl e \<Rightarrow> e = MODERNFS_ENOSPC \<and> ic_pool c2 \<subseteq> ic_used c'" by blast
      have run: "write_loop rust_journal_write c (Some t) a src offset sz k =
          Some (r, c', Some (t\<lparr>tx_writes := tx_writes t @ ((p, ?x) # ws)\<rparr>))"
        using step ih(1) by simp
      have xt: "extended c a c'" by (rule extended_trans [OF w(4) ih(2)])
      have ut: "fbyte c' a j = base c c' a j" for j by (rule untouched_trans [OF w(4,5) ih(2,3)])
      show ?thesis
      proof (cases r)
        case (Inl e)
        then show ?thesis using run xt ut ih(4) E(10) by (intro exI [of _ r] exI [of _ c'] exI [of _ "(p, ?x) # ws"]) simp
      next
        case (Inr m)
        let ?nd = "\<lambda>i. nodes_at c' a (NB i)" and ?i = "?p div 4096" and ?o = "unat offset"
        have np: "?nd ?i = p" using extendedD(7) [OF ih(2), of ?i] w(6,7) by simp
        have sz: "unat ?k = unat k + unat ?n" "?p + unat ?n \<le> ?o + length src"
          using k'(1,2) less.prems(5) by (simp_all add: word_le_nat_alt)
        have next_pos: "?o + unat ?k = min (4096 * Suc ?i) (?o + length src)"
        proof -
          have "unat ?n = min (4096 - ?p mod 4096) (?o + length src - ?p)"
            using P(1) less.prems(4,5) lt by (simp add: unat_chunk unat_sub)
          then show ?thesis using chunk_end [of ?p "?o + length src"] sz(1) less.prems(5) lt by simp
        qed
        have piece: "?bytes ! (q - ?p) = src ! (q - ?o)" if "?p \<le> q" "q < ?p + unat ?n" for q
        proof -
          have "?bytes ! (q - ?p) = src ! (unat k + (q - ?p))"
            by (rule nth_slice) (use that sz less.prems(5) in auto)
          then show ?thesis using that by simp
        qed
        have x: "?x = block_image (ic_view c) src ?o ?p ?i p"
        proof (rule nth_equalityI)
          fix r assume "r < length ?x"
          then have r: "r < 4096" using lx by simp
          have "4096 * ?i + r < ?o + length src \<longleftrightarrow> 4096 * ?i + r < ?p + unat ?n"
          proof -
            have "?p + unat ?n = min (4096 * Suc ?i) (?o + length src)" using next_pos sz(1) by simp
            then show ?thesis using r by simp
          qed
          then show "?x ! r = block_image (ic_view c) src ?o ?p ?i p ! r"
            using w(8) [OF r] r piece [of "4096 * ?i + r"] by (simp add: block_image_def)
        qed (simp add: lx)
        have later: "?nd (j div 4096) \<noteq> 0" if "?o + unat ?k \<le> j" "j < ?o + unat sz" for j
          using ih(4) that Inr by simp
        have tail: "ws = images (ic_view c) ?nd src ?o (?o + unat ?k)"
        proof -
          have "images (ic_view c2) ?nd src ?o (?o + unat ?k) = images (ic_view c) ?nd src ?o (?o + unat ?k)"
            by (rule images_cong, rule view_kept [OF w(4,5) ih(2)]) (use later less.prems(5) in simp_all)
          then show ?thesis using ih(4) Inr by simp
        qed
        have "(p, ?x) # ws = images (ic_view c) ?nd src ?o ?p"
          using images_step [OF _ next_pos, of "ic_view c" ?nd] lt less.prems(5) np x tail by simp
        moreover have "?nd (j div 4096) \<noteq> 0" if "?p \<le> j" "j < ?o + unat sz" for j
        proof (cases "?o + unat ?k \<le> j")
          case True
          then show ?thesis using later that(2) by blast
        next
          case False
          then have "j div 4096 = ?i" using that(1) sz(1) same_block [OF n, of j] by simp
          then show ?thesis using np w(6) by simp
        qed
        ultimately show ?thesis using run xt ut Inr ih(4)
          by (intro exI [of _ r] exI [of _ c'] exI [of _ "(p, ?x) # ws"]) auto
      qed
    qed
  qed
qed

section \<open>The call\<close>

text \<open>The images of the blocks of a file are writes to distinct blocks, and applying them changes the bytes of the range.\<close>

lemma images_bytes:
  fixes v :: "block_t \<Rightarrow> byte list"
  assumes t: "tree_at c a" and m: "\<forall>j. off \<le> j \<and> j < off + length src \<longrightarrow> nodes_at c a (NB (j div 4096)) \<noteq> 0"
  defines "ws \<equiv> images v (\<lambda>i. nodes_at c a (NB i)) src off off"
  shows "distinct (map fst ws)" "fst ` set ws \<subseteq> blocks_at c a" "x \<in> fst ` set ws \<Longrightarrow> x \<notin> ptrs_at c a"
    "nodes_at c a (NB (j div 4096)) \<noteq> 0 \<Longrightarrow> upd_all v ws (nodes_at c a (NB (j div 4096))) ! (j mod 4096) =
       (if off \<le> j \<and> j < off + length src then src ! (j - off) else v (nodes_at c a (NB (j div 4096))) ! (j mod 4096))"
proof -
  let ?nd = "\<lambda>i. nodes_at c a (NB i)" and ?e = "off + length src"
  have nz: "?nd i \<noteq> 0" if "off < ?e" "off div 4096 \<le> i" "i < (?e + 4095) div 4096" for i
  proof (cases "i = off div 4096")
    case True
    then show ?thesis using m that(1) by simp
  next
    case False
    then have "off \<le> 4096 * i" "4096 * i < ?e" using that by linarith+
    then show ?thesis using m [THEN spec, of "4096 * i"] by simp
  qed
  have inj: "i = k" if "?nd i = ?nd k" "?nd i \<noteq> 0" for i k
    using t that unfolding tree_at_def nodes_at_def by (blast dest: tree_okD(4))
  show d: "distinct (map fst ws)"
  proof (cases "off < ?e")
    case True
    have "inj_on ?nd {off div 4096..<(?e + 4095) div 4096}" by (rule inj_onI, rule inj) (use nz True in auto)
    then have "distinct (map ?nd [off div 4096..<(?e + 4095) div 4096])" by (simp add: distinct_map)
    then show ?thesis by (simp add: ws_def images_def comp_def)
  qed (simp add: ws_def images_def)
  show "fst ` set ws \<subseteq> blocks_at c a" using nz by (auto simp: ws_def images_def blocks_at_def)
  show "x \<notin> ptrs_at c a" if x: "x \<in> fst ` set ws"
  proof -
    from x obtain i where i: "x = ?nd i" by (auto simp: ws_def images_def split: if_splits)
    show ?thesis
      using t unfolding i tree_at_def ptrs_at_def nodes_at_def
      by (auto simp: pointer_blocks_nodes simp del: nodes.simps dest: tree_okD(4))
  qed
  assume n: "?nd (j div 4096) \<noteq> 0"
  let ?i = "j div 4096"
  show "upd_all v ws (?nd ?i) ! (j mod 4096) = (if off \<le> j \<and> j < ?e then src ! (j - off) else v (?nd ?i) ! (j mod 4096))"
  proof (cases "off < ?e \<and> off div 4096 \<le> ?i \<and> ?i < (?e + 4095) div 4096")
    case True
    then have "(?nd ?i, block_image v src off off ?i (?nd ?i)) \<in> set ws" by (auto simp: ws_def images_def)
    then have "upd_all v ws (?nd ?i) = block_image v src off off ?i (?nd ?i)" by (rule upd_all_last [OF d])
    then show ?thesis by (simp add: block_image_def)
  next
    case False
    then have "\<not> (off \<le> j \<and> j < ?e)" using div_le_mono [of off j 4096] by (auto intro: less_mult_imp_div_less)
    moreover have "?nd ?i \<notin> fst ` set ws" 
    proof
      assume "?nd ?i \<in> fst ` set ws"
      then obtain i where "?nd ?i = ?nd i" "off < ?e" "off div 4096 \<le> i" "i < (?e + 4095) div 4096"
        by (auto simp: ws_def images_def split: if_splits)
      with inj [OF this(1) n] False show False by simp
    qed
    ultimately show ?thesis by (auto simp: upd_all_other)
  qed
qed

lemma inode_write_logged:
  assumes ok: "ic_ok c" and t: "tree_at c a" and mx: "unat offset + unat sz \<le> MAX_FILE" and len: "length buf = unat sz"
    and act: "tx_state t = Active"
  shows "\<exists>r c' ws. inode_write rust_journal_write now c a buf offset sz (Some t) = Some (r, c', Some (t\<lparr>tx_writes := tx_writes t @ ws\<rparr>)) \<and>
     file_step c a c' \<and> (\<forall>j. fbyte c' a j = base c c' a j) \<and>
     (case r of
        Inr n \<Rightarrow> n = sz \<and> fsize c' a = max (fsize c a) (unat offset + unat sz) \<and>
          (\<forall>j. unat offset \<le> j \<and> j < unat offset + unat sz \<longrightarrow> nodes_at c' a (NB (j div 4096)) \<noteq> 0) \<and>
          ws = images (ic_view c') (\<lambda>i. nodes_at c' a (NB i)) buf (unat offset) (unat offset)
      | Inl e \<Rightarrow> e = MODERNFS_ENOSPC \<and> ic_pool c \<subseteq> ic_used c' \<and> fsize c' a = fsize c a)"
proof -
  from journaled_loop [OF ok t mx word_zero_le len act, unfolded unat_0 add_0_right] obtain r c1 ws where
    w: "write_loop rust_journal_write c (Some t) a buf offset sz 0 = Some (r, c1, Some (t\<lparr>tx_writes := tx_writes t @ ws\<rparr>))"
      "extended c a c1" "\<And>j. fbyte c1 a j = base c c1 a j"
      "case r of
        Inr n \<Rightarrow> n = sz \<and> (\<forall>j. unat offset \<le> j \<and> j < unat offset + unat sz \<longrightarrow> nodes_at c1 a (NB (j div 4096)) \<noteq> 0) \<and>
          ws = images (ic_view c) (\<lambda>i. nodes_at c1 a (NB i)) buf (unat offset) (unat offset)
      | Inl e \<Rightarrow> e = MODERNFS_ENOSPC \<and> ic_pool c \<subseteq> ic_used c1"
    by blast
  note E = extendedD [OF w(2)]
  show ?thesis
  proof (cases r)
    case (Inl e)
    from t E(11) obtain im0 im where "ic_inodes c a = Some im0" "ic_inodes c1 a = Some im" "same_file im0 im"
      by (auto simp: tree_at_def)
    then have "fsize c1 a = fsize c a" by (simp add: fsize_def same_fileD)
    moreover have "inode_write rust_journal_write now c a buf offset sz (Some t) = Some (Inl e, c1, Some (t\<lparr>tx_writes := tx_writes t @ ws\<rparr>))"
      using w(1) Inl by (simp add: inode_write_def)
    ultimately show ?thesis using w(3,4) Inl extended_step [OF w(2)] by auto
  next
    case (Inr n)
    have "unat (offset + sz) = unat offset + unat sz" using mx by (simp add: unat_word_ariths)
    from write_finish [OF t w(2) this, of now] obtain c' where
      c': "im_modify c1 a (\<lambda>im. im\<lparr>im_disk := (im_disk im)
                 \<lparr>di_size := (if di_size (im_disk im) < offset + sz then offset + sz else di_size (im_disk im)),
                  di_mtime := now\<rparr>, im_dirty := True\<rparr>) = Some c'" "file_step c a c'"
        "fsize c' a = max (fsize c a) (unat offset + unat sz)" "nodes_at c' a = nodes_at c1 a" "ic_view c' = ic_view c1" "fbyte c' a = fbyte c1 a"
      by blast
    have v: "ic_view c (nodes_at c1 a (NB i)) ! r = ic_view c' (nodes_at c1 a (NB i)) ! r"
      if "nodes_at c1 a (NB i) \<noteq> 0" "r < 4096" for i r
      using w(3) [of "4096 * i + r"] that by (simp add: fbyte_def base_def c'(5))
    have "images (ic_view c) (\<lambda>i. nodes_at c1 a (NB i)) buf (unat offset) (unat offset) =
        images (ic_view c') (\<lambda>i. nodes_at c' a (NB i)) buf (unat offset) (unat offset)"
      unfolding c'(4) by (rule images_cong, rule v) (use w(4) Inr len in auto)
    moreover have "fbyte c' a j = base c c' a j" for j using w(3) base_nodes [OF c'(4)] c'(6) by simp
    moreover have "inode_write rust_journal_write now c a buf offset sz (Some t) = Some (Inr n, c', Some (t\<lparr>tx_writes := tx_writes t @ ws\<rparr>))"
      using w(1) c'(1) Inr by (simp add: inode_write_def)
    ultimately show ?thesis using w(4) c'(2-4) Inr
      by (intro exI [of _ "Inr n"] exI [of _ c'] exI [of _ ws]) simp
  qed
qed

end
