(* ===== verification/Journaled_Properties.thy ===== *)
theory Journaled_Properties
  imports Inode_Journaled Inode_Properties Journal_Properties
begin

text \<open>
  Writes to a file within a transaction: what \<open>inode_write\<close> logs, and what a commit with its checkpoint makes of it.
\<close>

section \<open>An instance\<close>




section \<open>A logged write\<close>



section \<open>Commit and checkpoint\<close>



end
