(* ===== verification/Main_Fuse.thy ===== *)
theory Main_Fuse
  imports Fuse_Ops
begin

text \<open>
  The mount program, \<open>src/main_fuse.c\<close>.  libfuse is not part of the repository: \<open>fuse_opt_parse\<close>,
  \<open>fuse_opt_add_arg\<close>, \<open>fuse_main\<close> and the constant \<open>FUSE_OPT_KEY_NONOPT\<close> are parameters, over a type of argument
  vectors.  \<open>env\<close> gives what the device path names.
\<close>

record modernfs_config =
  mc_device :: "string option"
  mc_show_help :: int
  mc_read_only :: int

datatype config_field = Config_device | Config_read_only

datatype fuse_opt = MODERNFS_OPT string config_field | FUSE_OPT_KEY string int

definition modernfs_opts :: "fuse_opt list" where
  "modernfs_opts = [MODERNFS_OPT ''--device=%s'' Config_device, MODERNFS_OPT ''-r'' Config_read_only,
     MODERNFS_OPT ''--read-only'' Config_read_only, FUSE_OPT_KEY ''-h'' 0, FUSE_OPT_KEY ''--help'' 0]"

type_synonym 'a opt_proc = "modernfs_config \<Rightarrow> string \<Rightarrow> int \<Rightarrow> 'a \<Rightarrow> int \<times> modernfs_config \<times> 'a"

text \<open>\<open>oom\<close>: \<open>strdup\<close> fails.\<close>

definition modernfs_opt_proc :: "int \<Rightarrow> ('a \<Rightarrow> string \<Rightarrow> int \<times> 'a) \<Rightarrow> bool \<Rightarrow> 'a opt_proc" where
  "modernfs_opt_proc nonopt add_arg oom config arg key outargs =
     (if key = 0 then
        (case add_arg outargs ''-h'' of (r, outargs) \<Rightarrow> (r, config\<lparr>mc_show_help := 1\<rparr>, outargs))
      else if key = nonopt \<and> mc_device config = None then
        (0, config\<lparr>mc_device := (if oom then None else Some arg)\<rparr>, outargs)
      else (1, config, outargs))"

text \<open>The exit code, and the device as the program leaves it, when it got to opening one.\<close>

definition mount_main ::
  "(fuse_opt list \<Rightarrow> 'a opt_proc \<Rightarrow> 'a \<Rightarrow> modernfs_config \<Rightarrow> int \<times> modernfs_config \<times> 'a) \<Rightarrow> int \<Rightarrow>
   ('a \<Rightarrow> string \<Rightarrow> int \<times> 'a) \<Rightarrow> ('a \<Rightarrow> fs_context \<Rightarrow> int \<times> disk option) \<Rightarrow> bool \<Rightarrow> (string \<Rightarrow> fs_env) \<Rightarrow> 'a \<Rightarrow>
   (int \<times> disk option) option" where
  "mount_main fuse_opt_parse nonopt add_arg fuse_main oom env args =
     (case fuse_opt_parse modernfs_opts (modernfs_opt_proc nonopt add_arg oom) args
        \<lparr>mc_device = None, mc_show_help = 0, mc_read_only = 0\<rparr> of (r, config, args) \<Rightarrow>
        if r = -1 then Some (1, None)
        else if mc_show_help config \<noteq> 0 then Some (0, None)
        else case mc_device config of
          None \<Rightarrow> Some (1, None)
        | Some device \<Rightarrow> do {
            (ctx, disk) \<leftarrow> fs_context_init (env device) device (mc_read_only config \<noteq> 0);
            (case ctx of
               None \<Rightarrow> Some (1, disk)
             | Some ctx \<Rightarrow> Some (fuse_main args ctx)) })"

section \<open>The arguments\<close>

text \<open>
  What libfuse does with arguments that match no template, by its documentation: the processor is called on each in
  order; -1 is an error, 0 drops the argument and 1 keeps it.
\<close>

fun process_args :: "'a opt_proc \<Rightarrow> modernfs_config \<Rightarrow> 'a \<Rightarrow> (string \<times> int) list \<Rightarrow> (modernfs_config \<times> 'a \<times> string list) option" where
  "process_args proc config out [] = Some (config, out, [])"
| "process_args proc config out ((arg, key) # args) =
     (case proc config arg key out of (r, config, out) \<Rightarrow>
        if r = -1 then None
        else (case process_args proc config out args of None \<Rightarrow> None
          | Some (config, out, kept) \<Rightarrow> Some (config, out, if r = 0 then kept else arg # kept)))"

lemma process_rest:
  assumes "mc_device config \<noteq> None" "\<forall>(arg, key) \<in> set args. key \<noteq> 0"
  shows "process_args (modernfs_opt_proc nonopt add_arg oom) config out args = Some (config, out, map fst args)"
  using assms by (induction args) (auto simp: modernfs_opt_proc_def)

text \<open>The first argument that is no option becomes the device; every other argument goes on to libfuse, in order.\<close>

lemma process_device:
  assumes "nonopt \<noteq> 0" "\<forall>(arg, key) \<in> set xs. key \<noteq> 0 \<and> key \<noteq> nonopt" "\<forall>(arg, key) \<in> set ys. key \<noteq> 0" "mc_device config = None"
  shows "process_args (modernfs_opt_proc nonopt add_arg False) config out (xs @ (device, nonopt) # ys) =
     Some (config\<lparr>mc_device := Some device\<rparr>, out, map fst (xs @ ys))"
  using assms by (induction xs) (auto simp: modernfs_opt_proc_def process_rest)

end
