(* ===== verification/Spec2Isabelle.thy ===== *)
theory Spec2Isabelle
  imports Device_Properties Alloc_Properties Inode_Properties Path_Properties Inode_Cache_Properties Dir_Properties Journal_Properties Extents_Properties Fs_Properties Fs_File_Properties Fs_Run_Properties Fs_Mount_Properties Journaled_Properties Main_Fuse Mkfs
begin

text \<open>
  NanoFS (ModernFS), a FUSE file system: the C code of \<open>src/\<close> with its headers in \<open>include/modernfs/\<close>, and the
  journal and the extent allocator in Rust under \<open>rust_core/src/\<close>.

  \<^bold>\<open>The program.\<close>  libfuse calls the callbacks of \<open>fuse_ops.c\<close> on a mounted context (\<open>fs_context.c\<close>).  They resolve paths
  (\<open>path.c\<close>), read and change directories (\<open>directory.c\<close>) and files (\<open>inode.c\<close>, which also holds the inode cache) and
  take blocks from the bitmap allocator (\<open>block_alloc.c\<close>).  All of these read and write 4096-byte blocks through
  \<open>block_dev.c\<close>, which keeps a write-back buffer cache (\<open>buffer_cache.c\<close>).  The journal is written to the same file
  descriptor, past that cache, and drops the cached copy of every block that a checkpoint puts in its place.

  \<^bold>\<open>Conventions.\<close>  A function takes the state it uses and returns the state it leaves.  A result \<open>None\<close> is undefined
  behaviour of the C code (a null or stale pointer, an index past a buffer, uninitialised memory, a second free) or a
  loop that does not end, so a conclusion \<open>f s = Some r\<close> also says that the call is memory safe and returns.  Error
  codes are the integers of the source, \<open>Inl e\<close> beside \<open>Inr v\<close> where a function has an out-parameter.  Machine integers
  have their width and wrap.  Pointers to cache entries are addresses of a heap in the record of the cache.  The file
  descriptor is the record \<open>disk\<close>: its blocks, the blocks where reading or writing fails, and whether \<open>fsync\<close> fails.
  A failing \<open>malloc\<close> is a flag, \<open>time(NULL)\<close> an argument.

  \<^bold>\<open>The theories, from below.\<close>
    \<^item> \<open>Prelude\<close>: widths, byte codecs, slices of buffers.  \<open>Layout\<close>: the packed structs of \<open>types.h\<close> and their encoding.
      \<open>Links\<close>: doubly linked lists and hash chains over a heap, shared by both caches.
    \<^item> \<open>Buffer_Cache\<close> models \<open>buffer_cache.c\<close>.  \<open>Buffer_Cache_Inv\<close>, \<open>_Spec\<close>, \<open>_Ops\<close>, \<open>_Sync\<close>, \<open>_Evict\<close>: the cache
      refines a finite map from block numbers to cells with a recency list.
    \<^item> \<open>Block_Dev\<close> models \<open>block_dev.c\<close>.  \<open>Block_Dev_Spec\<close>, \<open>Block_Dev_Contract\<close>: what a reader sees is one map \<open>dev_view\<close>;
      the locale \<open>block_store\<close> of \<open>Block_Store\<close> states it as an interface, interpreted there on the device and in
      \<open>Inode_Cache_Update\<close> on the inode cache.
    \<^item> \<open>Superblock\<close>, \<open>Superblock_Spec\<close>, \<open>Mkfs\<close>, \<open>Mkfs_Spec\<close>: \<open>superblock.c\<close> and \<open>mkfs.c\<close>; the regions tile the device.
    \<^item> \<open>Bitmap\<close>, \<open>Block_Alloc\<close> model \<open>block_alloc.c\<close>.  \<open>Block_Alloc_Spec\<close>, \<open>_Run\<close>, \<open>_Disk\<close>: the allocator is a set of blocks.
    \<^item> \<open>Inode_Cache\<close>, \<open>Inode\<close> model \<open>inode.c\<close>.  \<open>Inode_Map\<close>, \<open>_Bmap\<close>, \<open>_Grow\<close>, \<open>_Extend\<close>: a file is a tree of pointers, and
      \<open>inode_bmap\<close> looks it up or adds one path.  \<open>Inode_Content\<close>, \<open>_IO\<close>, \<open>_Write\<close>, \<open>_Truncate\<close>: a file is a function from
      positions to bytes.  \<open>Inode_Cache_Inv\<close>, \<open>_Ops\<close>, \<open>_Update\<close>, \<open>Inode_Alloc_Spec\<close>: the cache holds what \<open>node_of\<close> gives.
    \<^item> \<open>Directory\<close> models \<open>directory.c\<close>.  \<open>Dir_Layout\<close>, \<open>Dir_Spec\<close>, \<open>Dir_Ops\<close>: a directory block is a list of records.
    \<^item> \<open>Path\<close> and \<open>Path_Resolve\<close> model \<open>path.c\<close>; \<open>Path_Spec\<close> gives the reference for normalisation.
    \<^item> \<open>Journal\<close>, \<open>Extents\<close> model the Rust code and its C interface (\<open>lib.rs\<close>).  \<open>Journal_Spec\<close>, \<open>Journal_Checkpoint\<close>: the
      ring as a log of entries, crashes between any two writes, the checkpoint beside the buffer cache.  \<open>Extents_Spec\<close>.
    \<^item> \<open>Fs_Context\<close>, \<open>Fuse_Ops\<close>, \<open>Main_Fuse\<close> model mount and unmount, the callbacks, and the mount program.
    \<^item> \<open>Fs_Tree\<close>, \<open>Fs_Walk\<close>, \<open>Fs_Inv\<close>, \<open>Fs_Remove\<close>, \<open>Fs_Callbacks\<close>, \<open>Fs_Create\<close>, \<open>Fs_Read\<close>, \<open>Fs_Files\<close>: the abstract file
      system, a set \<open>S\<close> of inodes and a map \<open>D\<close> from the directories among them to their entries; the invariant \<open>fs_inv\<close>;
      what each callback does to them.  \<open>Fs_Runs\<close>: the locale \<open>callback\<close>, interpreted on the callbacks, and sequences of
      them.
    \<^item> \<open>Instances\<close>, \<open>Cache_Instances\<close>, \<open>Fs_Instances\<close>: the concrete states of the witnesses.  The theories \<open>*_Properties\<close>
      state the properties.

  \<^bold>\<open>What the properties show.\<close>  The device: a read returns the last write, write-back and close lose nothing.  The
  allocators, the inode cache, files, directories and paths: each operation refines its abstract counterpart, with every
  error code.  The journal: a commit is atomic when the writes of a crash are a prefix of those issued.  The callbacks:
  \<open>create\<close>, \<open>unlink\<close>, \<open>rmdir\<close>, \<open>read\<close>, \<open>write\<close>, \<open>readdir\<close>, \<open>getattr\<close> and others act on the tree as specified and change
  nothing else, and keep \<open>fs_inv\<close>; so it holds along every sequence of them.  Other properties state where the code
  does not do this: lost writes after an invalidation, names lost by \<open>dir_add\<close>, old data in new blocks, pointers kept by
  \<open>inode_truncate\<close>, a ring that is not followed over its end, a double free in \<open>path_normalize\<close>, a lookup that does not
  return after failed reads.

  \<^bold>\<open>Bounds.\<close>  No fuel is used: loops are structural, have a measure, or are \<open>partial_function (option)\<close>, and for these
  the lemmas prove that they return.  \<open>MAX_FILE\<close> is the 12 + 1024 + 1024 * 1024 blocks of the pointer tree; \<open>unlink\<close> is
  specified up to the twelve direct blocks (49152 bytes), since the release of more leaves the pointer blocks allocated;
  an inode table block has 32-bit arithmetic, which is exact below inode 2 ^ 25; the return value of \<open>write\<close> is an
  \<open>int\<close>, hence sizes below 2 ^ 31.

  \<^bold>\<open>Assumptions of the callback properties.\<close>  The disk has no bad block; memory is available; no inode is a symbolic
  link; two cache entries are free; a name that \<open>create\<close> adds fits its directory block in the sense of \<open>fits\<close>, which
  \<open>dir_add_loses_names\<close> shows to be needed.  For \<open>write\<close> the mount has no journal.  A mount that is not read-only has
  one: there \<open>inode_write\<close> collects the data blocks in a transaction, and after the checkpoint they are invalid in the
  buffer cache.  \<open>checkpointed_block_write_lost\<close> shows that the device is then no faithful store any more, so \<open>fs_inv\<close>
  does not survive such a write, and the journal is specified by itself.

  \<^bold>\<open>Not modelled.\<close>  Locks and threads (each call is atomic; the checkpoint thread is one step), messages and \<open>errno\<close>,
  null arguments of the interface functions, the release of memory at exit, \<open>modernfs_init\<close> and \<open>modernfs_init_ops\<close>
  (which fill in structures of libfuse), \<open>fragmentation_ratio\<close> and \<open>utilization\<close> of the extent allocator, argument
  parsing of \<open>mkfs\<close>, the placeholder \<open>transaction/mod.rs\<close>, tests and benchmarks.  libfuse is a parameter of
  \<open>mount_main\<close>.
\<close>

end
